(* ===== verification/Prelude.thy ===== *)
theory Prelude
  imports Main "HOL-Library.Word" "HOL-Library.Monad_Syntax"
begin

unbundle bit_operations_syntax

text \<open>
  Shared vocabulary of the development: bytes, C memory as lists of cells, the option monad as
  the model of C executions that may leave defined behaviour, and the generic lemmas the
  component theories share.

  Convention: a C routine that can fail an \<open>assert\<close>, access memory out of bounds, read an
  uninitialised cell or never return is modelled by a function into \<open>'a option\<close>; \<open>None\<close> is "no
  defined result". Errors the code itself reports (status codes, tokens) are ordinary values.

  The targets built by \<open>jni/Application.mk\<close> are 32 bit (\<open>armeabi\<close>), so \<open>size_t\<close> is taken
  modulo \<open>2 ^ 32\<close> wherever wrap-around can be observed.
\<close>

section \<open>Bytes and sizes\<close>

type_synonym byte = "8 word"
type_synonym bytes = "byte list"

text \<open>A cell of allocated memory; \<open>None\<close> is an uninitialised byte.\<close>

type_synonym cells = "byte option list"

abbreviation size_mod :: nat where
  "size_mod \<equiv> 4294967296"

text \<open>Subtraction on \<open>size_t\<close>.\<close>

definition size_sub :: "nat \<Rightarrow> nat \<Rightarrow> nat" where
  "size_sub a b = (a + size_mod - b) mod size_mod"

lemma size_sub_le:
  assumes "b \<le> a" "a < size_mod"
  shows "size_sub a b = a - b"
proof -
  have "a + size_mod - b = (a - b) + size_mod" using assms by simp
  moreover have "(a - b) mod size_mod = a - b" using assms by simp
  ultimately show ?thesis by (simp only: size_sub_def mod_add_self2)
qed

text \<open>\<open>x--\<close> on \<open>size_t\<close>.\<close>

definition size_pred :: "nat \<Rightarrow> nat" where
  "size_pred a = (if a = 0 then size_mod - 1 else a - 1)"

lemma size_pred_Suc [simp]: "size_pred (Suc a) = a"
  by (simp add: size_pred_def)

text \<open>Arithmetic on \<open>int\<close>: a result outside the type is an overflow, which is undefined.\<close>

definition int_range :: "int \<Rightarrow> int option" where
  "int_range i = (if - (2 ^ 31) \<le> i \<and> i < 2 ^ 31 then Some i else None)"

lemma int_range_Some: "int_range i = Some j \<longleftrightarrow> j = i \<and> - (2 ^ 31) \<le> i \<and> i < 2 ^ 31"
  by (auto simp: int_range_def)

section \<open>Named collections\<close>

named_theorems opt_simps \<open>elimination of option binds and memory reads\<close>
named_theorems inv_intros \<open>operations that keep a component's invariant\<close>

declare Option.bind_eq_Some_conv [opt_simps]
declare Option.bind_eq_None_conv [opt_simps]

section \<open>Reading and writing memory\<close>

definition rd :: "'a list \<Rightarrow> nat \<Rightarrow> 'a option" where
  "rd xs i = (if i < length xs then Some (xs ! i) else None)"

lemma rd_Some [opt_simps]: "rd xs i = Some x \<longleftrightarrow> i < length xs \<and> xs ! i = x"
  by (auto simp: rd_def)

lemma rd_in [simp]: "i < length xs \<Longrightarrow> rd xs i = Some (xs ! i)"
  by (simp add: rd_def)

lemma rd_out [simp]: "length xs \<le> i \<Longrightarrow> rd xs i = None"
  by (simp add: rd_def)

lemma rd_append_right [simp]: "rd (p @ ys) (length p + k) = rd ys k"
  by (simp add: rd_def)

lemma rd_append_left: "i < length p \<Longrightarrow> rd (p @ ys) i = Some (p ! i)"
  by (simp add: rd_def nth_append)

lemma rd_Cons_0 [simp]: "rd (x # xs) 0 = Some x"
  by (simp add: rd_def)

lemma rd_Cons_1 [simp]: "rd (x # xs) 1 = rd xs 0"
  by (simp add: rd_def)

lemma rd_Cons_Suc [simp]: "rd (x # xs) (Suc i) = rd xs i"
  by (simp add: rd_def)

lemma rd_Cons_numeral [simp]: "rd (x # xs) (numeral k) = rd xs (pred_numeral k)"
  by (simp add: rd_def numeral_eq_Suc)

definition wr :: "'a list \<Rightarrow> nat \<Rightarrow> 'a \<Rightarrow> 'a list option" where
  "wr xs i x = (if i < length xs then Some (xs[i := x]) else None)"

lemma wr_Some [opt_simps]: "wr xs i x = Some ys \<longleftrightarrow> i < length xs \<and> ys = xs[i := x]"
  by (auto simp: wr_def)

lemma wr_in [simp]: "i < length xs \<Longrightarrow> wr xs i x = Some (xs[i := x])"
  by (simp add: wr_def)

text \<open>\<open>n\<close> bytes from \<open>p + beg\<close>; an empty slice needs no memory behind it.\<close>

definition cslice :: "'a list \<Rightarrow> nat \<Rightarrow> nat \<Rightarrow> 'a list option" where
  "cslice xs beg n =
     (if n = 0 then Some []
      else if beg + n \<le> length xs then Some (take n (drop beg xs)) else None)"

lemma cslice_in: "beg + n \<le> length xs \<Longrightarrow> cslice xs beg n = Some (take n (drop beg xs))"
  by (simp add: cslice_def)

lemma cslice_zero [simp]: "cslice xs beg 0 = Some []"
  by (simp add: cslice_def)

lemma cslice_SomeD: "cslice xs beg n = Some ys \<Longrightarrow> length ys = n \<and> ys = take n (drop beg xs)"
  by (auto simp: cslice_def split: if_splits)

text \<open>\<open>memcpy\<close> of \<open>src\<close> to offset \<open>i\<close> of an allocated block.\<close>

definition mem_write :: "'a list \<Rightarrow> nat \<Rightarrow> 'a list \<Rightarrow> 'a list option" where
  "mem_write d i src =
     (if i + length src \<le> length d
      then Some (take i d @ src @ drop (i + length src) d) else None)"

lemma mem_write_in:
  "i + length src \<le> length d \<Longrightarrow>
   mem_write d i src = Some (take i d @ src @ drop (i + length src) d)"
  by (simp add: mem_write_def)

text \<open>A C string: the bytes before the first NUL.\<close>

definition c_str :: "bytes \<Rightarrow> bytes" where
  "c_str s = takeWhile (\<lambda>b. b \<noteq> 0) s"

lemma c_str_append_NUL [simp]: "0 \<notin> set s \<Longrightarrow> c_str (s @ 0 # t) = s"
  by (induction s) (auto simp: c_str_def)

lemma c_str_noNUL: "0 \<notin> set (c_str s)"
  by (induction s) (auto simp: c_str_def)

section \<open>List lemmas\<close>

lemma take_Suc_nth: "i < length xs \<Longrightarrow> take (Suc i) xs = take i xs @ [xs ! i]"
  by (rule take_Suc_conv_app_nth)

lemma drop_nth_Cons: "i < length xs \<Longrightarrow> drop i xs = xs ! i # drop (Suc i) xs"
  by (rule Cons_nth_drop_Suc [symmetric])

lemma takeWhile_take_nth:
  "k \<le> length xs \<Longrightarrow> (\<forall>i<k. P (xs ! i)) \<Longrightarrow> (k < length xs \<Longrightarrow> \<not> P (xs ! k)) \<Longrightarrow>
   takeWhile P xs = take k xs"
proof (induction xs arbitrary: k)
  case (Cons x xs)
  show ?case
  proof (cases k)
    case 0
    then show ?thesis using Cons.prems by simp
  next
    case (Suc j)
    have "takeWhile P xs = take j xs"
      by (rule Cons.IH) (use Cons.prems Suc in \<open>auto simp: nth_Cons'\<close>)
    moreover have "P x" using Cons.prems(2) Suc by auto
    ultimately show ?thesis using Suc by simp
  qed
qed simp

lemma length_conv:
  "length xs = Suc 0 \<longleftrightarrow> (\<exists>a. xs = [a])"
  "length xs = 2 \<longleftrightarrow> (\<exists>a b. xs = [a, b])"
  "length xs = 3 \<longleftrightarrow> (\<exists>a b c. xs = [a, b, c])"
  "length xs = 4 \<longleftrightarrow> (\<exists>a b c d. xs = [a, b, c, d])"
  by (auto simp: length_Suc_conv numeral_2_eq_2 numeral_3_eq_3 eval_nat_numeral)

section \<open>Word lemmas\<close>

lemma byte_le_iff: "(a :: byte) \<le> b \<longleftrightarrow> unat a \<le> unat b"
  by (rule word_le_nat_alt)

lemma unat_byte_less [simp]: "unat (a :: byte) < 256"
  using unsigned_less [of a] by simp

lemma nat_or_add:
  fixes a m :: nat
  assumes "a < 2 ^ n"
  shows "a OR (2 ^ n * m) = a + 2 ^ n * m"
proof -
  have "a AND push_bit n m = 0"
  proof (rule bit_eqI)
    fix j
    have "\<not> bit a j" if "n \<le> j"
      using assms that by (metis bit_take_bit_iff not_le take_bit_nat_eq_self_iff)
    then show "bit (a AND push_bit n m) j \<longleftrightarrow> bit (0::nat) j"
      by (auto simp: bit_simps)
  qed
  then have "a + push_bit n m = a OR push_bit n m" by (rule disjunctive_add_eq_or)
  then show ?thesis by (simp add: push_bit_eq_mult mult.commute)
qed

lemma unat_and_mask: "unat (x AND mask n :: 'a :: len word) = unat x mod 2 ^ n"
  by (simp add: unsigned_take_bit_eq flip: take_bit_eq_mask take_bit_eq_mod)

end
