(* ===== verification/Yajl_Buf.thy ===== *)
theory Yajl_Buf
  imports Prelude
begin

text \<open>
  The growable byte buffer of \<open>jni/yajl/src/yajl_buf.c\<close>: allocation, growth by doubling
  modulo the width of \<open>size_t\<close>, append, clear and truncate, and the byte stack macros of
  \<open>yajl_bytestack.h\<close>. The allocator (\<open>YA_MALLOC\<close>, \<open>YA_REALLOC\<close>) is assumed to succeed, as the
  code itself assumes; a \<open>realloc\<close> to size 0 gives no usable block.
\<close>

section \<open>State\<close>

record yajl_buf =
  buf_len :: nat
  buf_used :: nat
  buf_data :: "cells option"

definition yajl_buf_init_size :: nat where
  "yajl_buf_init_size = 2048"

definition yajl_buf_alloc :: yajl_buf where
  "yajl_buf_alloc = \<lparr>buf_len = 0, buf_used = 0, buf_data = None\<rparr>"

section \<open>Operations\<close>

text \<open>The loop \<open>while (want >= (need - buf->used)) need <<= 1;\<close>.\<close>

partial_function (option) buf_grow :: "nat \<Rightarrow> nat \<Rightarrow> nat \<Rightarrow> nat option" where
  "buf_grow want used need =
     (if size_sub need used \<le> want then buf_grow want used (need * 2 mod size_mod)
      else Some need)"

declare buf_grow.simps [code]

definition buf_first_call :: "yajl_buf \<Rightarrow> yajl_buf" where
  "buf_first_call b =
     (case buf_data b of
        None \<Rightarrow> b\<lparr>buf_len := yajl_buf_init_size,
                  buf_data := Some (Some 0 # replicate (yajl_buf_init_size - 1) None)\<rparr>
      | Some _ \<Rightarrow> b)"

definition yajl_buf_ensure_available :: "yajl_buf \<Rightarrow> nat \<Rightarrow> yajl_buf option" where
  "yajl_buf_ensure_available b0 want =
     (let b = buf_first_call b0 in
      do { need \<leftarrow> buf_grow want (buf_used b) (buf_len b);
           d \<leftarrow> buf_data b;
           if need \<noteq> buf_len b
           then (if need = 0 then None
                 else Some (b\<lparr>buf_data := Some (take need d @ replicate (need - buf_len b) None),
                              buf_len := need\<rparr>))
           else Some b })"

definition yajl_buf_append :: "yajl_buf \<Rightarrow> bytes \<Rightarrow> yajl_buf option" where
  "yajl_buf_append b0 src =
     do { b \<leftarrow> yajl_buf_ensure_available b0 (length src);
          if 0 < length src then
            do { d \<leftarrow> buf_data b;
                 d' \<leftarrow> mem_write d (buf_used b) (map Some src);
                 d'' \<leftarrow> wr d' (buf_used b + length src) (Some 0);
                 Some (b\<lparr>buf_used := buf_used b + length src, buf_data := Some d''\<rparr>) }
          else Some b }"

definition yajl_buf_clear :: "yajl_buf \<Rightarrow> yajl_buf" where
  "yajl_buf_clear b =
     b\<lparr>buf_used := 0,
       buf_data := (case buf_data b of None \<Rightarrow> None | Some d \<Rightarrow> Some (d[0 := Some 0]))\<rparr>"

definition yajl_buf_len :: "yajl_buf \<Rightarrow> nat" where
  "yajl_buf_len b = buf_used b"

definition yajl_buf_truncate :: "yajl_buf \<Rightarrow> nat \<Rightarrow> yajl_buf option" where
  "yajl_buf_truncate b n = (if n \<le> buf_used b then Some (b\<lparr>buf_used := n\<rparr>) else None)"

text \<open>Reading \<open>yajl_buf_data(buf)[i]\<close>.\<close>

definition buf_read :: "yajl_buf \<Rightarrow> nat \<Rightarrow> byte option" where
  "buf_read b i = do { d \<leftarrow> buf_data b; c \<leftarrow> rd d i; c }"

section \<open>Well-formed buffers and their contents\<close>

definition buf_ok :: "yajl_buf \<Rightarrow> bool" where
  "buf_ok b \<longleftrightarrow>
     (case buf_data b of
        None \<Rightarrow> buf_len b = 0 \<and> buf_used b = 0
      | Some d \<Rightarrow> length d = buf_len b \<and> buf_used b < buf_len b \<and> buf_len b < size_mod \<and>
                  (\<exists>k\<le>20. buf_len b = 2048 * 2 ^ k) \<and> None \<notin> set (take (buf_used b) d))"

definition buf_contents :: "yajl_buf \<Rightarrow> bytes" where
  "buf_contents b =
     (case buf_data b of None \<Rightarrow> [] | Some d \<Rightarrow> map the (take (buf_used b) d))"

text \<open>The byte after the contents is NUL, as readers of \<open>yajl_buf_data\<close> expect.\<close>

definition buf_terminated :: "yajl_buf \<Rightarrow> bool" where
  "buf_terminated b \<longleftrightarrow> buf_data b = None \<or> buf_read b (buf_used b) = Some 0"

section \<open>Growth of the buffer\<close>

text \<open>The largest capacity doubling reaches before \<open>size_t\<close> wraps to 0.\<close>

abbreviation buf_max :: nat where
  "buf_max \<equiv> 2147483648"

lemma capacity_le_max: "k \<le> 20 \<Longrightarrow> 2048 * 2 ^ k \<le> buf_max"
  using power_increasing [of k 20 "2::nat"] by simp

lemma buf_grow_stop: "want < size_sub need used \<Longrightarrow> buf_grow want used need = Some need"
  by (subst buf_grow.simps) simp

lemma buf_grow_step:
  "size_sub need used \<le> want \<Longrightarrow>
   buf_grow want used need = buf_grow want used (need * 2 mod size_mod)"
  by (subst buf_grow.simps) simp

lemma buf_grow_enough:
  assumes "k \<le> 20" "need = 2048 * 2 ^ k" "used < need" "used + want < buf_max"
  shows "\<exists>j\<le>20. \<exists>n. buf_grow want used need = Some n \<and> n = 2048 * 2 ^ j \<and>
           used + want < n \<and> need \<le> n"
  using assms
proof (induction "20 - k" arbitrary: k need)
  case 0
  then have "k = 20" by simp
  with 0 have "need = buf_max" by simp
  with 0 show ?case
    by (intro exI [of _ 20] exI [of _ need] conjI) (simp_all add: buf_grow_stop size_sub_le)
next
  case (Suc m)
  have sub: "size_sub need used = need - used"
    using Suc.prems capacity_le_max [of k] by (intro size_sub_le) auto
  show ?case
  proof (cases "need - used \<le> want")
    case False
    then show ?thesis using Suc.prems sub
      by (intro exI [of _ k] conjI exI [of _ need]) (simp_all add: buf_grow_stop)
  next
    case True
    have k: "Suc k \<le> 20" "m = 20 - Suc k" using Suc.hyps by auto
    have wrap: "need * 2 mod size_mod = need * 2"
      using capacity_le_max [OF k(1)] Suc.prems(2) by simp
    have "\<exists>j\<le>20. \<exists>n. buf_grow want used (need * 2) = Some n \<and> n = 2048 * 2 ^ j \<and>
            used + want < n \<and> need * 2 \<le> n"
      by (rule Suc.hyps(1) [OF k(2) k(1)]) (use Suc.prems in auto)
    moreover have "buf_grow want used need = buf_grow want used (need * 2)"
      using True sub wrap by (simp add: buf_grow_step)
    ultimately show ?thesis by fastforce
  qed
qed

text \<open>
  Once \<open>need\<close> has wrapped to 0 the loop either stops at 0 or never stops: no usable size.
\<close>

lemma buf_grow_zero:
  assumes "buf_grow want used 0 = Some n"
  shows "n = 0"
proof -
  have "need = 0 \<longrightarrow> n = 0" if "buf_grow want used need = Some n" for need
  proof (rule buf_grow.raw_induct [where P = "\<lambda>w u m r. m = 0 \<longrightarrow> r = 0", OF _ that])
    fix f :: "nat \<Rightarrow> nat \<Rightarrow> nat \<Rightarrow> nat option" and w u m r
    assume IH: "\<And>w u m r. f w u m = Some r \<Longrightarrow> m = 0 \<longrightarrow> r = 0"
      and eq: "(if size_sub m u \<le> w then f w u (m * 2 mod size_mod) else Some m) = Some r"
    show "m = 0 \<longrightarrow> r = 0"
    proof
      assume "m = 0"
      then show "r = 0" using eq IH [of w u 0 r] by (auto split: if_splits)
    qed
  qed
  then show ?thesis using assms by blast
qed

lemma buf_grow_overflow:
  assumes "k \<le> 20" "need = 2048 * 2 ^ k" "used < need" "buf_max \<le> used + want"
    and "buf_grow want used need = Some n"
  shows "n = 0"
  using assms
proof (induction "20 - k" arbitrary: k need)
  case 0
  then have "k = 20" by simp
  with 0 have max: "need = buf_max" by simp
  have "need - used \<le> want" using 0 max by simp
  then have "size_sub need used \<le> want" using 0 max by (simp add: size_sub_le)
  then have "buf_grow want used (need * 2 mod size_mod) = Some n"
    using 0(6) by (simp only: buf_grow_step)
  then have "buf_grow want used 0 = Some n" using max by simp
  then show ?case by (rule buf_grow_zero)
next
  case (Suc m)
  have k: "Suc k \<le> 20" "m = 20 - Suc k" using Suc.hyps by auto
  have le: "need \<le> buf_max" using capacity_le_max [of k] Suc.prems by simp
  have wrap: "need * 2 mod size_mod = need * 2"
    using capacity_le_max [OF k(1)] Suc.prems(2) by simp
  have "need - used \<le> want" using le Suc.prems by simp
  then have "size_sub need used \<le> want" using le Suc.prems by (simp add: size_sub_le)
  then have "buf_grow want used (need * 2) = Some n"
    using Suc.prems(5) wrap by (simp only: buf_grow_step)
  then show ?case
    using Suc.hyps(1) [OF k(2) k(1), of "need * 2"] Suc.prems by simp
qed

section \<open>The invariant\<close>

lemma buf_okD:
  assumes "buf_ok b" "buf_data b = Some d"
  shows "length d = buf_len b" "buf_used b < buf_len b" "buf_len b \<le> buf_max"
    and "\<exists>k\<le>20. buf_len b = 2048 * 2 ^ k" "None \<notin> set (take (buf_used b) d)"
  using assms capacity_le_max by (auto simp: buf_ok_def)

lemma buf_ok_alloc [simp, inv_intros]: "buf_ok yajl_buf_alloc"
  by (simp add: buf_ok_def yajl_buf_alloc_def)

lemma buf_contents_alloc [simp]: "buf_contents yajl_buf_alloc = []"
  by (simp add: buf_contents_def yajl_buf_alloc_def)

lemma buf_terminated_alloc [simp]: "buf_terminated yajl_buf_alloc"
  by (simp add: buf_terminated_def yajl_buf_alloc_def)

lemma length_buf_contents [simp]: "buf_ok b \<Longrightarrow> length (buf_contents b) = buf_used b"
  by (auto simp: buf_contents_def buf_ok_def split: option.splits)

lemma buf_first_call_ok:
  assumes "buf_ok b"
  shows "buf_ok (buf_first_call b)" "\<exists>d. buf_data (buf_first_call b) = Some d"
    and "buf_used (buf_first_call b) = buf_used b"
    and "buf_contents (buf_first_call b) = buf_contents b"
    and "buf_terminated b \<Longrightarrow> buf_terminated (buf_first_call b)"
proof -
  have "\<exists>k\<le>20. (2048::nat) = 2048 * 2 ^ k" by (rule exI [of _ 0]) simp
  with assms show "buf_ok (buf_first_call b)"
    by (auto simp: buf_first_call_def buf_ok_def yajl_buf_init_size_def split: option.split)
  show "\<exists>d. buf_data (buf_first_call b) = Some d"
    and "buf_used (buf_first_call b) = buf_used b"
    by (auto simp: buf_first_call_def split: option.split)
  show "buf_contents (buf_first_call b) = buf_contents b"
    using assms by (auto simp: buf_first_call_def buf_contents_def buf_ok_def split: option.split)
  show "buf_terminated (buf_first_call b)" if "buf_terminated b"
    using that assms
    by (auto simp: buf_first_call_def buf_terminated_def buf_ok_def buf_read_def rd_def
        yajl_buf_init_size_def split: option.splits)
qed

section \<open>Append\<close>

lemma yajl_buf_ensure_available_ok:
  assumes ok: "buf_ok b" and room: "buf_used b + want < buf_max"
  obtains b' d where "yajl_buf_ensure_available b want = Some b'" "buf_data b' = Some d"
    and "buf_ok b'" "buf_used b' = buf_used b" "buf_used b + want < buf_len b'"
    and "buf_contents b' = buf_contents b" "buf_terminated b \<Longrightarrow> buf_terminated b'"
proof -
  define f where "f = buf_first_call b"
  note f = buf_first_call_ok [OF ok, folded f_def]
  obtain d where d: "buf_data f = Some d" using f(2) by blast
  note okd = buf_okD [OF f(1) d]
  from okd(4) obtain k where k: "k \<le> 20" "buf_len f = 2048 * 2 ^ k" by blast
  obtain j n where n: "j \<le> 20" "buf_grow want (buf_used f) (buf_len f) = Some n"
      "n = 2048 * 2 ^ j" "buf_used f + want < n" "buf_len f \<le> n"
    using buf_grow_enough [OF k okd(2), of want] room f(3) by auto
  show thesis
  proof (cases "n = buf_len f")
    case True
    have "yajl_buf_ensure_available b want = Some f"
      using n True by (simp add: yajl_buf_ensure_available_def f_def [symmetric] d)
    then show ?thesis using that [of f d] d f n True by simp
  next
    case False
    define d' where "d' = d @ replicate (n - buf_len f) None"
    define g where "g = f\<lparr>buf_data := Some d', buf_len := n\<rparr>"
    have take: "take n d = d" using okd(1) n(5) by simp
    have "yajl_buf_ensure_available b want = Some g"
      using n(2,5) False take
      by (simp add: yajl_buf_ensure_available_def Let_def f_def [symmetric] d g_def d'_def)
    moreover have "take (buf_used f) d' = take (buf_used f) d"
      using okd by (simp add: d'_def)
    moreover from this have "buf_contents g = buf_contents f"
      by (simp add: buf_contents_def g_def d)
    moreover have "buf_ok g"
      using okd n \<open>take (buf_used f) d' = _\<close> capacity_le_max [OF n(1)]
      by (auto simp: buf_ok_def g_def d'_def)
    moreover have "buf_terminated g" if "buf_terminated f"
      using that okd by (auto simp: buf_terminated_def buf_read_def g_def d'_def d nth_append)
    ultimately show ?thesis using that [of g d'] f n by (simp add: g_def)
  qed
qed

lemma yajl_buf_append_ok:
  assumes ok: "buf_ok b" and room: "buf_used b + length s < buf_max"
  obtains b' where "yajl_buf_append b s = Some b'" "buf_ok b'"
    and "buf_contents b' = buf_contents b @ s" "buf_used b' = buf_used b + length s"
    and "s \<noteq> [] \<or> buf_terminated b \<Longrightarrow> buf_terminated b'"
proof -
  obtain e d where e: "yajl_buf_ensure_available b (length s) = Some e" "buf_data e = Some d"
      "buf_ok e" "buf_used e = buf_used b" "buf_used b + length s < buf_len e"
      "buf_contents e = buf_contents b" "buf_terminated b \<Longrightarrow> buf_terminated e"
    using yajl_buf_ensure_available_ok [OF ok room] by metis
  note okd = buf_okD [OF e(3) e(2)]
  show thesis
  proof (cases "s = []")
    case True
    then show ?thesis using that [of e] e by (simp add: yajl_buf_append_def)
  next
    case False
    define u where "u = buf_used b"
    define d1 where "d1 = take u d @ map Some s @ drop (u + length s) d"
    define d2 where "d2 = d1[u + length s := Some 0]"
    define g where "g = e\<lparr>buf_used := u + length s, buf_data := Some d2\<rparr>"
    have len: "length d1 = length d" "u + length s < length d"
      using e(5) okd(1) by (auto simp: d1_def u_def)
    have "yajl_buf_append b s = Some g"
      using False e(1,2,4) len
      by (simp add: yajl_buf_append_def mem_write_in g_def d2_def flip: u_def d1_def)
    moreover have tk: "take (u + length s) d2 = take u d @ map Some s"
      using len by (simp add: d2_def d1_def)
    moreover from this have "buf_contents g = buf_contents b @ s"
      using e(2,4,6) by (auto simp: buf_contents_def g_def u_def)
    moreover have "buf_ok g"
      using okd e(2,3,4) len tk by (auto simp: buf_ok_def g_def d2_def u_def)
    moreover have "buf_terminated g"
      using len by (simp add: buf_terminated_def buf_read_def g_def d2_def)
    ultimately show ?thesis using that [of g] by (simp add: g_def u_def)
  qed
qed

lemma yajl_buf_append_overflow:
  assumes ok: "buf_ok b" and "buf_max \<le> buf_used b + length s"
  shows "yajl_buf_append b s = None"
proof -
  define f where "f = buf_first_call b"
  note f = buf_first_call_ok [OF ok, folded f_def]
  obtain d where d: "buf_data f = Some d" using f(2) by blast
  note okd = buf_okD [OF f(1) d]
  from okd(4) obtain k where k: "k \<le> 20" "buf_len f = 2048 * 2 ^ k" by blast
  have "n = 0" if "buf_grow (length s) (buf_used f) (buf_len f) = Some n" for n
    using buf_grow_overflow [OF k okd(2) _ that] assms(2) f(3) by simp
  then have "yajl_buf_ensure_available b (length s) = None"
    using okd(2)
    by (cases "buf_grow (length s) (buf_used f) (buf_len f)")
      (auto simp: yajl_buf_ensure_available_def f_def [symmetric] d)
  then show ?thesis by (simp add: yajl_buf_append_def)
qed

section \<open>Clear and truncate\<close>

lemma buf_clear_ok:
  assumes "buf_ok b"
  shows "buf_ok (yajl_buf_clear b)" "buf_contents (yajl_buf_clear b) = []"
    and "buf_used (yajl_buf_clear b) = 0" "buf_terminated (yajl_buf_clear b)"
  using assms
  by (auto simp: yajl_buf_clear_def buf_ok_def buf_contents_def buf_terminated_def buf_read_def
      split: option.splits)

lemma buf_truncate_ok:
  assumes "buf_ok b" "n \<le> buf_used b"
  obtains b' where "yajl_buf_truncate b n = Some b'" "buf_ok b'" "buf_used b' = n"
    and "buf_contents b' = take n (buf_contents b)"
proof (rule that)
  show "yajl_buf_truncate b n = Some (b\<lparr>buf_used := n\<rparr>)"
    using assms by (simp add: yajl_buf_truncate_def)
  show "buf_ok (b\<lparr>buf_used := n\<rparr>)" using assms
    by (auto simp: buf_ok_def split: option.splits dest: in_set_takeD)
      (metis assms(2) min.absorb1 set_take_subset_set_take subsetD)
  show "buf_contents (b\<lparr>buf_used := n\<rparr>) = take n (buf_contents b)" using assms
    by (auto simp: buf_contents_def take_map min_def split: option.splits)
qed simp

lemma buf_read_contents:
  assumes "buf_ok b" "i < buf_used b"
  shows "buf_read b i = Some (buf_contents b ! i)"
proof -
  obtain d where d: "buf_data b = Some d"
    using assms by (auto simp: buf_ok_def split: option.splits)
  note okd = buf_okD [OF assms(1) d]
  have "d ! i \<in> set (take (buf_used b) d)"
    using assms(2) okd(1,2) by (metis in_set_conv_nth length_take min.absorb4 nth_take)
  then have "d ! i \<noteq> None" using okd(5) by metis
  then obtain c where "d ! i = Some c" by blast
  then show ?thesis using d assms(2) okd(1,2)
    by (simp add: buf_read_def buf_contents_def)
qed

section \<open>Properties\<close>

text \<open>
  C29: an append to a well-formed buffer succeeds exactly while the total stays below \<open>2 ^ 31\<close>
  bytes; then the contents grow by the appended bytes, the buffer stays well-formed and a NUL
  follows the contents. From \<open>2 ^ 31\<close> bytes on the doubling of \<open>need\<close> wraps to 0 and the call
  never produces a usable block.
\<close>

theorem yajl_buf_append_total:
  assumes "buf_ok b"
  shows "case yajl_buf_append b s of
           None \<Rightarrow> buf_max \<le> buf_used b + length s
         | Some b' \<Rightarrow> buf_used b + length s < buf_max \<and> buf_ok b' \<and>
             buf_contents b' = buf_contents b @ s \<and> (s = [] \<or> buf_terminated b')"
proof (cases "buf_used b + length s < buf_max")
  case True
  then show ?thesis using yajl_buf_append_ok [OF assms True] by force
next
  case False
  then show ?thesis using yajl_buf_append_overflow [OF assms] by simp
qed

theorem yajl_buf_append_total_witness:
  "case yajl_buf_append yajl_buf_alloc [0x41, 0x42] of
     None \<Rightarrow> buf_max \<le> buf_used yajl_buf_alloc + length [0x41 :: byte, 0x42]
   | Some b' \<Rightarrow> buf_used yajl_buf_alloc + length [0x41 :: byte, 0x42] < buf_max \<and> buf_ok b' \<and>
       buf_contents b' = buf_contents yajl_buf_alloc @ [0x41, 0x42] \<and>
       ([0x41 :: byte, 0x42] = [] \<or> buf_terminated b')"
  by (rule yajl_buf_append_total) (rule buf_ok_alloc)

end
