(* ===== verification/Yajl_Encode.thy ===== *)
theory Yajl_Encode
  imports Yajl_Buf
begin

text \<open>
  \<open>jni/yajl/src/yajl_encode.c\<close>: escaping of strings for output, decoding of escaped strings,
  UTF-32 to UTF-8 conversion and the structural UTF-8 check. The output routine is the
  \<open>yajl_print_t\<close> interface of \<open>yajl_gen.h\<close>, stated as the locale \<open>print_sink\<close> and interpreted
  on \<open>yajl_buf_append\<close>.
\<close>

section \<open>The print interface\<close>

locale print_sink =
  fixes print :: "'c \<Rightarrow> bytes \<Rightarrow> 'c option"
    and out :: "'c \<Rightarrow> bytes"
    and room :: "'c \<Rightarrow> nat \<Rightarrow> bool"
  assumes print_room:
      "room c (length s + n) \<Longrightarrow> \<exists>c'. print c s = Some c' \<and> out c' = out c @ s \<and> room c' n"
    and room_mono: "room c n \<Longrightarrow> m \<le> n \<Longrightarrow> room c m"

text \<open>A buffer has room for \<open>n\<close> more bytes while doubling does not wrap.\<close>

definition buf_room :: "yajl_buf \<Rightarrow> nat \<Rightarrow> bool" where
  "buf_room b n \<longleftrightarrow> buf_ok b \<and> buf_used b + n < buf_max"

interpretation buf_sink: print_sink yajl_buf_append buf_contents buf_room
proof
  fix c and s :: bytes and n :: nat
  assume "buf_room c (length s + n)"
  then have "buf_ok c" "buf_used c + length s < buf_max" "buf_used c + length s + n < buf_max"
    by (auto simp: buf_room_def)
  then show "\<exists>c'. yajl_buf_append c s = Some c' \<and> buf_contents c' = buf_contents c @ s \<and>
              buf_room c' n"
    using yajl_buf_append_ok [of c s] by (metis buf_room_def)
next
  show "buf_room c n \<Longrightarrow> m \<le> n \<Longrightarrow> buf_room c m" for c n m by (simp add: buf_room_def)
qed

section \<open>Escaping\<close>

definition hexchar :: bytes where
  "hexchar = [0x30, 0x31, 0x32, 0x33, 0x34, 0x35, 0x36, 0x37, 0x38, 0x39,
              0x41, 0x42, 0x43, 0x44, 0x45, 0x46]"

definition CharToHex :: "byte \<Rightarrow> bytes" where
  "CharToHex c = [hexchar ! unat (drop_bit 4 c), hexchar ! unat (c AND 0x0F)]"

text \<open>The \<open>switch\<close> of \<open>yajl_string_encode\<close>: the replacement of a byte, if it has one.\<close>

definition escaped_as :: "byte \<Rightarrow> bool \<Rightarrow> bytes option" where
  "escaped_as c escape_solidus =
     (if c = 0x0D then Some [0x5C, 0x72]
      else if c = 0x0A then Some [0x5C, 0x6E]
      else if c = 0x5C then Some [0x5C, 0x5C]
      else if c = 0x2F then (if escape_solidus then Some [0x5C, 0x2F] else None)
      else if c = 0x22 then Some [0x5C, 0x22]
      else if c = 0x0C then Some [0x5C, 0x66]
      else if c = 0x08 then Some [0x5C, 0x62]
      else if c = 0x09 then Some [0x5C, 0x74]
      else if c < 32 then Some ([0x5C, 0x75, 0x30, 0x30] @ CharToHex c)
      else None)"

function encode_loop ::
  "('c \<Rightarrow> bytes \<Rightarrow> 'c option) \<Rightarrow> bytes \<Rightarrow> bool \<Rightarrow> 'c \<Rightarrow> nat \<Rightarrow> nat \<Rightarrow> 'c option" where
  "encode_loop print str escape_solidus ctx beg end' =
     (if end' < length str then
        (case escaped_as (str ! end') escape_solidus of
           Some escaped \<Rightarrow>
             do { s \<leftarrow> cslice str beg (end' - beg);
                  ctx1 \<leftarrow> print ctx s;
                  ctx2 \<leftarrow> print ctx1 escaped;
                  encode_loop print str escape_solidus ctx2 (Suc end') (Suc end') }
         | None \<Rightarrow> encode_loop print str escape_solidus ctx beg (Suc end'))
      else do { s \<leftarrow> cslice str beg (end' - beg); print ctx s })"
  by pat_completeness auto
termination
  by (relation "measure (\<lambda>(_, str, _, _, _, e). length str - e)") auto

declare encode_loop.simps [simp del]

definition yajl_string_encode ::
  "('c \<Rightarrow> bytes \<Rightarrow> 'c option) \<Rightarrow> 'c \<Rightarrow> bytes \<Rightarrow> bool \<Rightarrow> 'c option" where
  "yajl_string_encode print ctx str escape_solidus =
     encode_loop print str escape_solidus ctx 0 0"

section \<open>Unescaping\<close>

text \<open>One hexadecimal digit; \<open>None\<close> is the failed \<open>assert(!(c & 0xF0))\<close>.\<close>

definition hex_nibble :: "byte \<Rightarrow> byte option" where
  "hex_nibble c0 =
     (let c1 = (if 0x41 \<le> c0 then (c0 AND NOT 0x20) - 7 else c0);
          c = c1 - 0x30
      in if c AND 0xF0 = 0 then Some c else None)"

fun hex_loop :: "nat \<Rightarrow> 32 word \<Rightarrow> bytes \<Rightarrow> nat \<Rightarrow> 32 word option" where
  "hex_loop 0 val str i = Some val"
| "hex_loop (Suc n) val str i =
     do { c \<leftarrow> rd str i;
          d \<leftarrow> hex_nibble c;
          hex_loop n (push_bit 4 val OR ucast d) str (Suc i) }"

definition hexToDigit :: "32 word \<Rightarrow> bytes \<Rightarrow> nat \<Rightarrow> 32 word option" where
  "hexToDigit val str i = hex_loop 4 val str i"

text \<open>The bytes written to \<open>utf8Buf\<close>, with the terminating NUL.\<close>

definition Utf32toUtf8 :: "32 word \<Rightarrow> bytes" where
  "Utf32toUtf8 cp =
     (if cp < 0x80 then [ucast cp, 0]
      else if cp < 0x0800 then
        [ucast (drop_bit 6 cp OR 0xC0), ucast ((cp AND 0x3F) OR 0x80), 0]
      else if cp < 0x10000 then
        [ucast (drop_bit 12 cp OR 0xE0), ucast ((drop_bit 6 cp AND 0x3F) OR 0x80),
         ucast ((cp AND 0x3F) OR 0x80), 0]
      else if cp < 0x200000 then
        [ucast (drop_bit 18 cp OR 0xF0), ucast ((drop_bit 12 cp AND 0x3F) OR 0x80),
         ucast ((drop_bit 6 cp AND 0x3F) OR 0x80), ucast ((cp AND 0x3F) OR 0x80), 0]
      else [0x3F, 0])"

text \<open>
  The \<open>case 'u'\<close> of the decoder; \<open>e\<close> is the index of the \<open>u\<close>. The result is the bytes to append
  and the value of \<open>end\<close> when the \<open>switch\<close> is left (or when the code point is 0 and the loop
  is continued after appending one NUL byte).
\<close>

definition followed_by_u :: "bytes \<Rightarrow> nat \<Rightarrow> bool option" where
  "followed_by_u str i =
     do { c1 \<leftarrow> rd str i;
          if c1 = 0x5C then do { c2 \<leftarrow> rd str (i + 1); Some (c2 = 0x75) } else Some False }"

definition decode_unicode :: "bytes \<Rightarrow> nat \<Rightarrow> (bytes \<times> nat) option" where
  "decode_unicode str e =
     do { cp0 \<leftarrow> hexToDigit 0 str (e + 1);
          let e1 = e + 4;
          if cp0 AND 0xFC00 = 0xD800 then
            do { two \<leftarrow> followed_by_u str (e1 + 1);
                 if two then
                   do { surrogate \<leftarrow> hexToDigit 0 str (e1 + 3);
                        let cp = push_bit 10 (cp0 AND 0x3F)
                               OR push_bit 16 ((drop_bit 6 cp0 AND 0xF) + 1)
                               OR (surrogate AND 0x3FF);
                        Some (if cp = 0 then [0] else c_str (Utf32toUtf8 cp), e1 + 6) }
                 else Some ([0x3F], e1 + 1) }
          else Some (if cp0 = 0 then [0] else c_str (Utf32toUtf8 cp0), e1) }"

definition decode_escape :: "bytes \<Rightarrow> nat \<Rightarrow> (bytes \<times> nat) option" where
  "decode_escape str e =
     do { c \<leftarrow> rd str e;
          if c = 0x72 then Some ([0x0D], e)
          else if c = 0x6E then Some ([0x0A], e)
          else if c = 0x5C then Some ([0x5C], e)
          else if c = 0x2F then Some ([0x2F], e)
          else if c = 0x22 then Some ([0x22], e)
          else if c = 0x66 then Some ([0x0C], e)
          else if c = 0x62 then Some ([0x08], e)
          else if c = 0x74 then Some ([0x09], e)
          else if c = 0x75 then decode_unicode str e
          else None }"

lemma decode_unicode_advances: "decode_unicode str e = Some (u, e') \<Longrightarrow> e < e'"
  by (auto simp: decode_unicode_def Let_def opt_simps split: if_splits)

lemma decode_escape_advances: "decode_escape str e = Some (u, e') \<Longrightarrow> e \<le> e'"
  by (auto simp: decode_escape_def opt_simps split: if_splits dest!: decode_unicode_advances)

function decode_loop :: "bytes \<Rightarrow> nat \<Rightarrow> yajl_buf \<Rightarrow> nat \<Rightarrow> nat \<Rightarrow> yajl_buf option" where
  "decode_loop str len buf beg end' =
     (if end' < len then
        do { c \<leftarrow> rd str end';
             if c = 0x5C then
               do { s \<leftarrow> cslice str beg (end' - beg);
                    buf1 \<leftarrow> yajl_buf_append buf s;
                    r \<leftarrow> decode_escape str (Suc end');
                    buf2 \<leftarrow> yajl_buf_append buf1 (fst r);
                    decode_loop str len buf2 (Suc (snd r)) (Suc (snd r)) }
             else decode_loop str len buf beg (Suc end') }
      else do { s \<leftarrow> cslice str beg (end' - beg); yajl_buf_append buf s })"
  by pat_completeness auto
termination
  by (relation "measure (\<lambda>(_, len, _, _, e). len - e)")
    (auto dest!: decode_escape_advances)

declare decode_loop.simps [simp del]

definition yajl_string_decode :: "yajl_buf \<Rightarrow> bytes \<Rightarrow> nat \<Rightarrow> yajl_buf option" where
  "yajl_string_decode buf str len = decode_loop str len buf 0 0"

section \<open>The structural UTF-8 check\<close>

fun yajl_string_validate_utf8 :: "bytes \<Rightarrow> bool" where
  "yajl_string_validate_utf8 [] = True"
| "yajl_string_validate_utf8 (c # s) =
     (if c \<le> 0x7F then yajl_string_validate_utf8 s
      else if drop_bit 5 c = 0x6 then
        (case s of
           c1 # s1 \<Rightarrow> drop_bit 6 c1 = 0x2 \<and> yajl_string_validate_utf8 s1
         | _ \<Rightarrow> False)
      else if drop_bit 4 c = 0x0E then
        (case s of
           c1 # c2 # s2 \<Rightarrow> drop_bit 6 c1 = 0x2 \<and> drop_bit 6 c2 = 0x2 \<and>
             yajl_string_validate_utf8 s2
         | _ \<Rightarrow> False)
      else if drop_bit 3 c = 0x1E then
        (case s of
           c1 # c2 # c3 # s3 \<Rightarrow> drop_bit 6 c1 = 0x2 \<and> drop_bit 6 c2 = 0x2 \<and>
             drop_bit 6 c3 = 0x2 \<and> yajl_string_validate_utf8 s3
         | _ \<Rightarrow> False)
      else False)"

section \<open>What the encoder prints\<close>

text \<open>Reference: every byte is replaced independently.\<close>

definition encoded :: "bool \<Rightarrow> bytes \<Rightarrow> bytes" where
  "encoded esc s =
     concat (map (\<lambda>c. case escaped_as c esc of None \<Rightarrow> [c] | Some e \<Rightarrow> e) s)"

lemma encoded_simps [simp]:
  "encoded esc [] = []"
  "encoded esc (c # s) =
     (case escaped_as c esc of None \<Rightarrow> [c] | Some e \<Rightarrow> e) @ encoded esc s"
  by (simp_all add: encoded_def)

lemma encode_loop_end:
  "length str \<le> e \<Longrightarrow> encode_loop print str esc ctx beg e =
     do { s \<leftarrow> cslice str beg (e - beg); print ctx s }"
  by (subst encode_loop.simps) simp

lemma encode_loop_plain:
  "e < length str \<Longrightarrow> escaped_as (str ! e) esc = None \<Longrightarrow>
   encode_loop print str esc ctx beg e = encode_loop print str esc ctx beg (Suc e)"
  by (subst encode_loop.simps) simp

lemma encode_loop_escape:
  "e < length str \<Longrightarrow> escaped_as (str ! e) esc = Some x \<Longrightarrow>
   encode_loop print str esc ctx beg e =
     do { s \<leftarrow> cslice str beg (e - beg); ctx1 \<leftarrow> print ctx s; ctx2 \<leftarrow> print ctx1 x;
          encode_loop print str esc ctx2 (Suc e) (Suc e) }"
  by (subst encode_loop.simps) simp

lemma cslice_middle [simp]:
  "cslice (pre @ pend @ rest) (length pre) (length pend) = Some pend"
  "cslice (pre @ pend) (length pre) (length pend) = Some pend"
  by (auto simp: cslice_def)

context print_sink
begin

lemma print_ok:
  assumes "room c (length s + n)"
  obtains c' where "print c s = Some c'" "out c' = out c @ s" "room c' n"
  using print_room [OF assms] by blast

lemma encode_loop_out:
  assumes "room ctx (length pend + length (encoded esc rest) + n)"
  shows "\<exists>c'. encode_loop print (pre @ pend @ rest) esc ctx (length pre)
            (length pre + length pend) = Some c' \<and>
          out c' = out ctx @ pend @ encoded esc rest \<and> room c' n"
  using assms
proof (induction rest arbitrary: pre pend ctx)
  case Nil
  obtain c' where "print ctx pend = Some c'" "out c' = out ctx @ pend" "room c' n"
    using Nil by (auto elim: print_ok)
  then show ?case by (simp add: encode_loop_end)
next
  case (Cons x rest)
  have nth: "(pre @ pend @ x # rest) ! (length pre + length pend) = x"
    by (simp add: nth_append)
  show ?case
  proof (cases "escaped_as x esc")
    case None
    then have "encode_loop print (pre @ pend @ x # rest) esc ctx (length pre)
        (length pre + length pend) =
      encode_loop print (pre @ (pend @ [x]) @ rest) esc ctx (length pre)
        (length pre + length (pend @ [x]))"
      using nth by (simp add: encode_loop_plain)
    then show ?thesis
      using Cons.IH [of ctx "pend @ [x]" pre] Cons.prems None by simp
  next
    case (Some e)
    have "room ctx (length pend + (length e + (length (encoded esc rest) + n)))"
      using Cons.prems Some by (simp add: add.assoc)
    then obtain c1 where c1: "print ctx pend = Some c1" "out c1 = out ctx @ pend"
        "room c1 (length e + (length (encoded esc rest) + n))"
      by (rule print_ok)
    obtain c2 where c2: "print c1 e = Some c2" "out c2 = out c1 @ e"
        "room c2 (length (encoded esc rest) + n)"
      by (rule print_ok [OF c1(3)])
    have "encode_loop print (pre @ pend @ x # rest) esc ctx (length pre)
        (length pre + length pend) =
      encode_loop print ((pre @ pend @ [x]) @ [] @ rest) esc c2 (length (pre @ pend @ [x]))
        (length (pre @ pend @ [x]) + length ([] :: bytes))"
      using nth Some c1(1) c2(1) by (simp add: encode_loop_escape)
    then show ?thesis
      using Cons.IH [of c2 "[]" "pre @ pend @ [x]"] c1 c2 Some by simp
  qed
qed

lemma string_encode_out:
  assumes "room ctx (length (encoded esc s) + n)"
  obtains c' where "yajl_string_encode print ctx s esc = Some c'"
    and "out c' = out ctx @ encoded esc s" "room c' n"
  using encode_loop_out [of ctx "[]" esc s n "[]"] assms
  by (auto simp: yajl_string_encode_def)

end

section \<open>Decoding what was encoded\<close>

lemma decode_loop_end:
  "len \<le> e \<Longrightarrow> decode_loop str len buf beg e =
     do { s \<leftarrow> cslice str beg (e - beg); yajl_buf_append buf s }"
  by (subst decode_loop.simps) simp

lemma decode_loop_plain:
  "e < len \<Longrightarrow> e < length str \<Longrightarrow> str ! e \<noteq> 0x5C \<Longrightarrow>
   decode_loop str len buf beg e = decode_loop str len buf beg (Suc e)"
  by (subst decode_loop.simps) simp

lemma decode_loop_escape:
  "e < len \<Longrightarrow> e < length str \<Longrightarrow> str ! e = 0x5C \<Longrightarrow>
   decode_escape str (Suc e) = Some (u, e') \<Longrightarrow>
   decode_loop str len buf beg e =
     do { s \<leftarrow> cslice str beg (e - beg); buf1 \<leftarrow> yajl_buf_append buf s;
          buf2 \<leftarrow> yajl_buf_append buf1 u; decode_loop str len buf2 (Suc e') (Suc e') }"
  by (subst decode_loop.simps) simp

lemma escaped_as_None: "escaped_as x esc = None \<Longrightarrow> x \<noteq> 0x5C"
  by (auto simp: escaped_as_def split: if_splits)

text \<open>All bytes below 32, as a list to evaluate over.\<close>

lemma control_bytes:
  "(x :: byte) < 32 \<Longrightarrow> x \<in> set [0, 1, 2, 3, 4, 5, 6, 7, 8, 9, 10, 11, 12, 13, 14, 15, 16, 17,
     18, 19, 20, 21, 22, 23, 24, 25, 26, 27, 28, 29, 30, 31]"
proof -
  assume "x < 32"
  then have "unat x < 32" by (simp add: word_less_nat_alt)
  then have "unat x \<in> set [0..<32]" by simp
  then have "word_of_nat (unat x) \<in> (word_of_nat :: nat \<Rightarrow> byte) ` set [0..<32]" by (rule imageI)
  then show ?thesis by (simp add: upt_rec)
qed

text \<open>The decoder looks only at the memory from the escape on.\<close>

lemma hex_loop_shift: "hex_loop n v (p @ ys) (length p + i) = hex_loop n v ys i"
proof (induction n arbitrary: v i)
  case (Suc n)
  have "hex_loop n w (p @ ys) (Suc (length p + i)) = hex_loop n w ys (Suc i)" for w
    using Suc.IH [of w "Suc i"] by simp
  then show ?case by simp
qed simp

lemma hexToDigit_shift [simp]: "hexToDigit v (p @ ys) (length p + i) = hexToDigit v ys i"
  by (simp add: hexToDigit_def hex_loop_shift)

lemma followed_by_u_shift [simp]:
  "followed_by_u (p @ ys) (length p + i) = followed_by_u ys i"
  by (simp add: followed_by_u_def add.assoc cong: if_cong del: One_nat_def add_Suc_right)

lemma decode_unicode_shift:
  "decode_unicode (p @ ys) (length p + e) =
     map_option (apsnd ((+) (length p))) (decode_unicode ys e)"
  unfolding decode_unicode_def Let_def
  by (simp add: add.assoc map_option_bind o_def if_distrib [of "map_option _"]
      cong: if_cong Option.bind_cong del: One_nat_def add_Suc_right)

lemma decode_escape_shift:
  "decode_escape (p @ ys) (length p + e) =
     map_option (apsnd ((+) (length p))) (decode_escape ys e)"
  unfolding decode_escape_def decode_unicode_shift rd_append_right
  by (simp add: map_option_bind o_def if_distrib [of "map_option _"] cong: if_cong)

lemma hexToDigit_unrolled:
  "hexToDigit v str i =
     do { c0 \<leftarrow> rd str i; d0 \<leftarrow> hex_nibble c0;
          c1 \<leftarrow> rd str (i + 1); d1 \<leftarrow> hex_nibble c1;
          c2 \<leftarrow> rd str (i + 2); d2 \<leftarrow> hex_nibble c2;
          c3 \<leftarrow> rd str (i + 3); d3 \<leftarrow> hex_nibble c3;
          Some (push_bit 4 (push_bit 4 (push_bit 4 (push_bit 4 v OR ucast d0) OR ucast d1)
                OR ucast d2) OR ucast d3) }"
  by (simp add: hexToDigit_def eval_nat_numeral)

text \<open>Every replacement the encoder prints is read back as the byte it stands for.\<close>

lemma escaped_control:
  assumes "x < 32"
  shows "decode_escape ([0x5C, 0x75, 0x30, 0x30] @ CharToHex x @ rest) 1 = Some ([x], 5)"
  using control_bytes [OF assms(1)]
  by (auto simp: decode_escape_def decode_unicode_def CharToHex_def hexchar_def
      followed_by_u_def hexToDigit_unrolled hex_nibble_def Utf32toUtf8_def c_str_def)

lemma escaped_decodes:
  assumes "escaped_as x esc = Some e"
  shows "hd e = 0x5C" "1 < length e"
    and "decode_escape (e @ rest) 1 = Some ([x], length e - 1)"
proof -
  have "hd e = 0x5C \<and> 1 < length e \<and> decode_escape (e @ rest) 1 = Some ([x], length e - 1)"
  proof (cases "x < 32")
    case True
    note c = escaped_control [OF True, of rest]
    from assms True c show ?thesis
      by (auto simp: escaped_as_def decode_escape_def CharToHex_def split: if_splits)
  next
    case False
    with assms show ?thesis
      by (auto simp: escaped_as_def decode_escape_def split: if_splits)
  qed
  then show "hd e = 0x5C" "1 < length e"
    and "decode_escape (e @ rest) 1 = Some ([x], length e - 1)" by auto
qed

lemma decode_encoded_loop:
  assumes "buf_room buf (length pend + length s + n)"
  shows "\<exists>b. decode_loop (pre @ pend @ encoded esc s @ tail)
            (length pre + length pend + length (encoded esc s)) buf
            (length pre) (length pre + length pend) = Some b \<and>
          buf_contents b = buf_contents buf @ pend @ s \<and> buf_room b n"
  using assms
proof (induction s arbitrary: pre pend buf)
  case Nil
  obtain b where "yajl_buf_append buf pend = Some b" "buf_contents b = buf_contents buf @ pend"
      "buf_room b n"
    using Nil by (auto elim: buf_sink.print_ok)
  then show ?case by (simp add: decode_loop_end)
next
  case (Cons x s)
  show ?case
  proof (cases "escaped_as x esc")
    case None
    then have "decode_loop (pre @ pend @ encoded esc (x # s) @ tail)
        (length pre + length pend + length (encoded esc (x # s))) buf
        (length pre) (length pre + length pend) =
      decode_loop (pre @ (pend @ [x]) @ encoded esc s @ tail)
        (length pre + length (pend @ [x]) + length (encoded esc s)) buf
        (length pre) (length pre + length (pend @ [x]))"
      using escaped_as_None [OF None] by (simp add: decode_loop_plain nth_append)
    then show ?thesis
      using Cons.IH [of buf "pend @ [x]" pre] Cons.prems by simp
  next
    case (Some e)
    note esc = escaped_decodes [OF Some]
    obtain t where e: "e = 0x5C # t" using esc(1,2) by (cases e) auto
    obtain b1 where b1: "yajl_buf_append buf pend = Some b1"
        "buf_contents b1 = buf_contents buf @ pend" "buf_room b1 (length [x] + (length s + n))"
      using buf_sink.print_ok [of buf pend "length [x] + (length s + n)"] Cons.prems
      by (auto simp: add.assoc)
    obtain b2 where b2: "yajl_buf_append b1 [x] = Some b2"
        "buf_contents b2 = buf_contents b1 @ [x]" "buf_room b2 (length s + n)"
      by (rule buf_sink.print_ok [OF b1(3)])
    let ?mem = "pre @ pend @ encoded esc (x # s) @ tail"
    have mem: "?mem = (pre @ pend) @ e @ encoded esc s @ tail" using Some by simp
    have "decode_escape ?mem (length (pre @ pend) + 1) =
        Some ([x], length (pre @ pend) + (length e - 1))"
      unfolding mem decode_escape_shift esc(3) by simp
    then have de: "decode_escape ?mem (Suc (length pre + length pend)) =
        Some ([x], length pre + length pend + length t)"
      by (simp add: e)
    have nth: "?mem ! (length pre + length pend) = 0x5C"
      unfolding mem e by (metis append_Cons length_append nth_append_length)
    have "decode_loop ?mem (length pre + length pend + length (encoded esc (x # s))) buf
        (length pre) (length pre + length pend) =
      decode_loop ((pre @ pend @ e) @ [] @ encoded esc s @ tail)
        (length (pre @ pend @ e) + length ([] :: bytes) + length (encoded esc s)) b2
        (length (pre @ pend @ e)) (length (pre @ pend @ e) + length ([] :: bytes))"
      using Some b1(1) b2(1)
      by (subst decode_loop_escape [OF _ _ nth de]) (simp_all add: e add.assoc)
    then show ?thesis
      using Cons.IH [of b2 "[]" "pre @ pend @ e"] b1 b2 by simp
  qed
qed

lemma length_encoded: "length (encoded esc s) \<le> 6 * length s"
proof (induction s)
  case (Cons x s)
  have "length e \<le> 6" if "escaped_as x esc = Some e" for e
    using that by (auto simp: escaped_as_def CharToHex_def split: if_splits)
  then show ?case using Cons by (auto split: option.split)
qed simp

section \<open>UTF-8\<close>

text \<open>
  The structural reference: lead bytes announce the number of continuation bytes. Overlong
  forms and surrogates are units of this grammar, as they are for the code.
\<close>

definition utf8_cont :: "byte \<Rightarrow> bool" where
  "utf8_cont c \<longleftrightarrow> 0x80 \<le> c \<and> c \<le> 0xBF"

definition utf8_unit :: "bytes \<Rightarrow> bool" where
  "utf8_unit u \<longleftrightarrow>
     (case u of
        [] \<Rightarrow> False
      | c # t \<Rightarrow> list_all utf8_cont t \<and>
          (c \<le> 0x7F \<and> length t = 0 \<or> 0xC0 \<le> c \<and> c \<le> 0xDF \<and> length t = 1 \<or>
           0xE0 \<le> c \<and> c \<le> 0xEF \<and> length t = 2 \<or> 0xF0 \<le> c \<and> c \<le> 0xF7 \<and> length t = 3))"

lemma lead_bits:
  fixes c :: byte
  shows "drop_bit 6 c = 0x2 \<longleftrightarrow> utf8_cont c"
    and "drop_bit 5 c = 0x6 \<longleftrightarrow> 0xC0 \<le> c \<and> c \<le> 0xDF"
    and "drop_bit 4 c = 0x0E \<longleftrightarrow> 0xE0 \<le> c \<and> c \<le> 0xEF"
    and "drop_bit 3 c = 0x1E \<longleftrightarrow> 0xF0 \<le> c \<and> c \<le> 0xF7"
  using unat_byte_less [of c]
  by (auto simp: utf8_cont_def word_unat_eq_iff unat_drop_bit_eq word_le_nat_alt
      drop_bit_eq_div [of _ "unat c"])

lemma lead_exclusive:
  fixes c :: byte
  shows "0xC0 \<le> c \<Longrightarrow> \<not> c \<le> 0x7F" "0xE0 \<le> c \<Longrightarrow> \<not> c \<le> 0x7F" "0xF0 \<le> c \<Longrightarrow> \<not> c \<le> 0x7F"
    and "0xE0 \<le> c \<Longrightarrow> \<not> c \<le> 0xDF" "0xF0 \<le> c \<Longrightarrow> \<not> c \<le> 0xDF" "0xF0 \<le> c \<Longrightarrow> \<not> c \<le> 0xEF"
  by (simp_all add: byte_le_iff)

lemma utf8_unit_cases:
  assumes "utf8_unit u"
  obtains (one) c where "u = [c]" "c \<le> 0x7F"
  | (two) c a where "u = [c, a]" "\<not> c \<le> 0x7F" "drop_bit 5 c = 0x6" "drop_bit 6 a = 0x2"
  | (three) c a b where "u = [c, a, b]" "\<not> c \<le> 0x7F" "drop_bit 5 c \<noteq> 0x6"
      "drop_bit 4 c = 0x0E" "drop_bit 6 a = 0x2" "drop_bit 6 b = 0x2"
  | (four) c a b d where "u = [c, a, b, d]" "\<not> c \<le> 0x7F" "drop_bit 5 c \<noteq> 0x6"
      "drop_bit 4 c \<noteq> 0x0E" "drop_bit 3 c = 0x1E"
      "drop_bit 6 a = 0x2" "drop_bit 6 b = 0x2" "drop_bit 6 d = 0x2"
  using assms
  by (auto simp: utf8_unit_def lead_bits length_conv lead_exclusive split: list.splits)

lemma validate_unit:
  "utf8_unit u \<Longrightarrow> yajl_string_validate_utf8 (u @ s) = yajl_string_validate_utf8 s"
  by (elim utf8_unit_cases) simp_all

lemma validate_units:
  "\<forall>u\<in>set us. utf8_unit u \<Longrightarrow> yajl_string_validate_utf8 (concat us)"
  by (induction us) (simp_all add: validate_unit)

lemma validate_split:
  "yajl_string_validate_utf8 s \<Longrightarrow> \<exists>us. s = concat us \<and> (\<forall>u\<in>set us. utf8_unit u)"
proof (induction s rule: length_induct)
  case (1 s)
  show ?case
  proof (cases s)
    case Nil
    then show ?thesis by (intro exI [of _ "[]"]) simp
  next
    case (Cons c t)
    have "\<exists>u r. s = u @ r \<and> u \<noteq> [] \<and> utf8_unit u \<and> yajl_string_validate_utf8 r"
    proof -
      have "(\<exists>n\<le>3. n \<le> length t \<and> utf8_unit (c # take n t) \<and>
              yajl_string_validate_utf8 (drop n t))"
        using 1(2) Cons
        by (auto simp: utf8_unit_def lead_bits split: if_splits list.splits
            intro: exI [of _ "0::nat"] exI [of _ "1::nat"] exI [of _ "2::nat"] exI [of _ "3::nat"])
      then obtain n where "utf8_unit (c # take n t)" "yajl_string_validate_utf8 (drop n t)" by blast
      then show ?thesis using Cons
        by (intro exI [of _ "c # take n t"] exI [of _ "drop n t"]) simp
    qed
    then obtain u r where ur: "s = u @ r" "u \<noteq> []" "utf8_unit u" "yajl_string_validate_utf8 r"
      by blast
    then obtain us where "r = concat us" "\<forall>u\<in>set us. utf8_unit u"
      using 1(1) by (metis append_Nil length_append length_greater_0_conv less_add_same_cancel2)
    then show ?thesis using ur by (intro exI [of _ "u # us"]) simp
  qed
qed



      




section \<open>Properties\<close>

text \<open>
  C25: decoding the output of \<open>yajl_string_encode\<close> with \<open>yajl_string_decode\<close> gives back every
  byte string, whatever follows it in memory and with or without escaped solidus, as long as
  the buffers stay below \<open>2 ^ 31\<close> bytes.
\<close>

theorem yajl_string_decode_encode:
  assumes "buf_room ctx (6 * length s)" "buf_room buf (length s)"
  shows "\<exists>c t b. yajl_string_encode yajl_buf_append ctx s esc = Some c \<and>
           buf_contents c = buf_contents ctx @ t \<and>
           yajl_string_decode buf (t @ tail) (length t) = Some b \<and>
           buf_contents b = buf_contents buf @ s"
proof -
  have "buf_room ctx (length (encoded esc s) + 0)"
    using buf_sink.room_mono [OF assms(1)] length_encoded [of esc s] by simp
  then obtain c where "yajl_string_encode yajl_buf_append ctx s esc = Some c"
      "buf_contents c = buf_contents ctx @ encoded esc s"
    by (rule buf_sink.string_encode_out)
  moreover have "\<exists>b. yajl_string_decode buf (encoded esc s @ tail) (length (encoded esc s)) = Some b \<and>
      buf_contents b = buf_contents buf @ s"
    using decode_encoded_loop [of buf "[]" s 0 "[]" esc tail] assms(2)
    by (auto simp: yajl_string_decode_def)
  ultimately show ?thesis by blast
qed

theorem yajl_string_decode_encode_witness:
  "\<exists>c t b. yajl_string_encode yajl_buf_append yajl_buf_alloc [0x22, 0x0A, 0x00, 0x41] True = Some c \<and>
     buf_contents c = buf_contents yajl_buf_alloc @ t \<and>
     yajl_string_decode yajl_buf_alloc (t @ [0x22]) (length t) = Some b \<and>
     buf_contents b = buf_contents yajl_buf_alloc @ [0x22, 0x0A, 0x00, 0x41]"
  by (rule yajl_string_decode_encode) (simp_all add: buf_room_def yajl_buf_alloc_def buf_ok_def)



text \<open>
  C27: \<open>yajl_string_validate_utf8\<close> accepts exactly the concatenations of structurally well-formed
  units: lead byte class and number of continuation bytes are checked, overlong forms such as
  \<open>C0 80\<close> are accepted.
\<close>

theorem yajl_string_validate_utf8_iff:
  "yajl_string_validate_utf8 s \<longleftrightarrow> (\<exists>us. s = concat us \<and> list_all utf8_unit us)"
  using validate_split validate_units by (auto simp: list_all_iff)

text \<open>
  a \<open>\u\<close> escape for a high surrogate that is not followed by another \<open>\u\<close> escape is decoded
  as a question mark, and the byte after it is lost: it is neither copied nor decoded.
\<close>

theorem yajl_string_decode_lone_surrogate:
  assumes "hexToDigit 0 (h @ c # t) 0 = Some cp" "length h = 4" "cp AND 0xFC00 = 0xD800"
    and "c \<noteq> 0x5C" "buf_room buf 1"
  shows "\<exists>b. yajl_string_decode buf ([0x5C, 0x75] @ h @ c # t) 7 = Some b \<and>
           buf_contents b = buf_contents buf @ [0x3F]"
proof -
  let ?m = "[0x5C, 0x75] @ h @ c # t"
  have "decode_unicode ?m 1 = Some ([0x3F], 6)"
    using assms(1-4) hexToDigit_shift [of 0 "[0x5C, 0x75]" "h @ c # t" 0]
    by (auto simp: decode_unicode_def followed_by_u_def nth_append eval_nat_numeral rd_def)
  then have de: "decode_escape ?m (Suc 0) = Some ([0x3F], 6)"
    by (simp add: decode_escape_def)
  obtain b0 where b0: "yajl_buf_append buf [] = Some b0" "buf_contents b0 = buf_contents buf @ []"
      "buf_room b0 1"
    using buf_sink.print_ok [of buf "[]" 1] assms(5) by auto
  obtain b1 where b1: "yajl_buf_append b0 [0x3F] = Some b1"
      "buf_contents b1 = buf_contents b0 @ [0x3F]" "buf_room b1 0"
    using buf_sink.print_ok [of b0 "[0x3F]" 0] b0(3) by auto
  obtain b2 where b2: "yajl_buf_append b1 [] = Some b2" "buf_contents b2 = buf_contents b1 @ []"
    using buf_sink.print_ok [of b1 "[]" 0] b1(3) by auto
  have "decode_loop ?m 7 buf 0 0 = Some b2"
    using b0(1) b1(1) b2(1)
    by (subst decode_loop_escape [OF _ _ _ de]) (simp_all add: decode_loop_end)
  then show ?thesis using b0(2) b1(2) b2(2) by (simp add: yajl_string_decode_def)
qed

theorem yajl_string_decode_lone_surrogate_witness:
  "\<exists>b. yajl_string_decode yajl_buf_alloc ([0x5C, 0x75] @ [0x64, 0x38, 0x30, 0x30] @ 0x61 # [0x22]) 7
       = Some b \<and> buf_contents b = buf_contents yajl_buf_alloc @ [0x3F]"
  by (rule yajl_string_decode_lone_surrogate [where cp = "0xD800"])
    (simp_all add: hexToDigit_unrolled hex_nibble_def buf_room_def, simp add: yajl_buf_alloc_def)
end
