(* ===== verification/Yajl_Decode.thy ===== *)
theory Yajl_Decode
  imports Yajl_Encode
begin

text \<open>
  What \<open>yajl_string_decode\<close> (\<open>jni/yajl/src/yajl_encode.c\<close>) computes, without its output buffer:
  the decoded bytes depend on the string and on the closing quote behind it, and on nothing else.
\<close>

function ref_decode_loop :: "bytes \<Rightarrow> nat \<Rightarrow> nat \<Rightarrow> nat \<Rightarrow> bytes option" where
  "ref_decode_loop str len beg e =
     (if e < len then
        do { c \<leftarrow> rd str e;
             if c = 0x5C then
               do { s \<leftarrow> cslice str beg (e - beg);
                    r \<leftarrow> decode_escape str (Suc e);
                    rest \<leftarrow> ref_decode_loop str len (Suc (snd r)) (Suc (snd r));
                    Some (s @ fst r @ rest) }
             else ref_decode_loop str len beg (Suc e) }
      else cslice str beg (e - beg))"
  by pat_completeness auto
termination
  by (relation "measure (\<lambda>(_, len, _, e). len - e)") (auto dest!: decode_escape_advances)

declare ref_decode_loop.simps [simp del]

text \<open>The decoded form of the body of a string token.\<close>

definition ref_decode :: "bytes \<Rightarrow> bytes option" where
  "ref_decode s = ref_decode_loop (s @ [0x22]) (length s) 0 0"

section \<open>The buffer does not matter\<close>

lemma length_c_str: "length (c_str s) \<le> length s"
  by (simp add: c_str_def length_takeWhile_le)

lemma decode_escape_length: "decode_escape str e = Some (u, e') \<Longrightarrow> length u \<le> 5"
proof -
  have "length (Utf32toUtf8 cp) \<le> 5" for cp by (simp add: Utf32toUtf8_def)
  then have "length (c_str (Utf32toUtf8 cp)) \<le> 5" for cp by (meson length_c_str le_trans)
  then show "decode_escape str e = Some (u, e') \<Longrightarrow> length u \<le> 5"
    by (auto simp: decode_escape_def decode_unicode_def Let_def opt_simps split: if_splits)
qed

lemma decode_loop_ref:
  assumes "buf_room b (5 * (Suc len - beg))" "beg \<le> e" "e \<le> len \<or> beg = e"
  shows "case ref_decode_loop str len beg e of
      None \<Rightarrow> decode_loop str len b beg e = None
    | Some out \<Rightarrow> \<exists>b'. decode_loop str len b beg e = Some b' \<and> buf_room b' 0 \<and>
        buf_contents b' = buf_contents b @ out"
  using assms
proof (induction str len beg e arbitrary: b rule: ref_decode_loop.induct)
  case (1 str len beg e)
  show ?case
  proof (cases "e < len")
    case False
    show ?thesis
    proof (cases "cslice str beg (e - beg)")
      case None
      then show ?thesis using False
        by (subst ref_decode_loop.simps, subst decode_loop.simps) simp
    next
      case (Some s)
      have "length s = e - beg" using cslice_SomeD [OF Some] by blast
      then have "length s + 0 \<le> 5 * (Suc len - beg)" using False 1(4,5) by auto
      then obtain b' where "yajl_buf_append b s = Some b'" "buf_contents b' = buf_contents b @ s"
        "buf_room b' 0"
        using buf_sink.print_ok [OF buf_sink.room_mono [OF 1(3)]] by blast
      moreover have "ref_decode_loop str len beg e = Some s"
        using False Some by (subst ref_decode_loop.simps) simp
      moreover have "decode_loop str len b beg e = yajl_buf_append b s"
        using False Some by (subst decode_loop.simps) simp
      ultimately show ?thesis by simp
    qed
  next
    case e: True
    show ?thesis
    proof (cases "rd str e")
      case None
      then show ?thesis using e
        by (subst ref_decode_loop.simps, subst decode_loop.simps) simp
    next
      case c: (Some c)
      show ?thesis
      proof (cases "c = 0x5C")
        case False
        have "case ref_decode_loop str len beg (Suc e) of
            None \<Rightarrow> decode_loop str len b beg (Suc e) = None
          | Some out \<Rightarrow> \<exists>b'. decode_loop str len b beg (Suc e) = Some b' \<and> buf_room b' 0 \<and>
              buf_contents b' = buf_contents b @ out"
          by (rule 1(2) [OF e c False 1(3)]) (use 1(4) e in simp_all)
        moreover have "ref_decode_loop str len beg e = ref_decode_loop str len beg (Suc e)"
          using e c False by (subst ref_decode_loop.simps) simp
        moreover have "decode_loop str len b beg e = decode_loop str len b beg (Suc e)"
          using e c False by (subst decode_loop.simps) simp
        ultimately show ?thesis by metis
      next
        case True
        show ?thesis
        proof (cases "cslice str beg (e - beg)")
          case None
          then show ?thesis using e c True
            by (subst ref_decode_loop.simps, subst decode_loop.simps) simp
        next
          case s: (Some s)
          have ls: "length s = e - beg" using cslice_SomeD [OF s] by blast
          show ?thesis
          proof (cases "decode_escape str (Suc e)")
            case None
            have "length s + 0 \<le> 5 * (Suc len - beg)" using ls e by simp
            then obtain b1 where "yajl_buf_append b s = Some b1"
              using buf_sink.print_ok [OF buf_sink.room_mono [OF 1(3)]] by blast
            then show ?thesis using None e c True s
              by (subst ref_decode_loop.simps, subst decode_loop.simps) simp
          next
            case r: (Some r)
            obtain u e' where u: "r = (u, e')" by (cases r) auto
            have lu: "length u \<le> 5" "e < e'"
              using decode_escape_length decode_escape_advances r u by fastforce+
            have "length s + (length u + 5 * (Suc len - Suc e')) \<le> 5 * (Suc len - beg)"
              using ls lu e 1(4) by simp
            then obtain b1 where b1: "yajl_buf_append b s = Some b1" "buf_contents b1 = buf_contents b @ s"
              "buf_room b1 (length u + 5 * (Suc len - Suc e'))"
              using buf_sink.print_ok [OF buf_sink.room_mono [OF 1(3)]] by blast
            obtain b2 where b2: "yajl_buf_append b1 u = Some b2" "buf_contents b2 = buf_contents b1 @ u"
              "buf_room b2 (5 * (Suc len - Suc e'))"
              using buf_sink.print_ok [OF b1(3)] by blast
            have IH: "case ref_decode_loop str len (Suc e') (Suc e') of
                None \<Rightarrow> decode_loop str len b2 (Suc e') (Suc e') = None
              | Some out \<Rightarrow> \<exists>b'. decode_loop str len b2 (Suc e') (Suc e') = Some b' \<and> buf_room b' 0 \<and>
                  buf_contents b' = buf_contents b2 @ out"
              using 1(1) [OF e c True s r [unfolded u], of b2, unfolded snd_conv, OF b2(3)] by simp
            have d: "decode_loop str len b beg e = decode_loop str len b2 (Suc e') (Suc e')"
              using e c True s r u b1(1) b2(1) by (subst decode_loop.simps) simp
            have d': "ref_decode_loop str len beg e =
                map_option (\<lambda>rest. s @ u @ rest) (ref_decode_loop str len (Suc e') (Suc e'))"
              using e c True s r u
              by (subst ref_decode_loop.simps)
                (cases "ref_decode_loop str len (Suc e') (Suc e')"; simp)
            show ?thesis unfolding d d' using IH b1(2) b2(2)
              by (cases "ref_decode_loop str len (Suc e') (Suc e')") auto
          qed
        qed
      qed
    qed
  qed
qed

section \<open>Only the string and its closing quote matter\<close>

lemma rd_quote: "i \<le> length s \<Longrightarrow> rd (s @ 0x22 # r) i = rd (s @ [0x22]) i"
  by (simp add: rd_def nth_append)

lemma rd_inside: "i \<le> length s \<Longrightarrow> rd (s @ [0x22]) i = Some c \<Longrightarrow> c \<noteq> 0x22 \<Longrightarrow> i < length s"
  by (cases "i = length s") (auto simp: rd_def nth_append)

lemma hex_nibble_quote: "hex_nibble 0x22 = None"
  by (simp add: hex_nibble_def)

lemma hex_loop_quote:
  "i \<le> length s \<Longrightarrow> hex_loop n v (s @ 0x22 # r) i = hex_loop n v (s @ [0x22]) i"
proof (induction n arbitrary: v i)
  case (Suc n)
  show ?case
  proof (cases "i = length s")
    case True
    then show ?thesis by (simp add: rd_def nth_append hex_nibble_quote)
  next
    case False
    then show ?thesis using Suc by (simp add: nth_append)
  qed
qed simp

lemma hex_loop_inside:
  "hex_loop n v (s @ [0x22]) i = Some w \<Longrightarrow> i \<le> length s \<Longrightarrow> i + n \<le> length s"
proof (induction n arbitrary: v i)
  case (Suc n)
  then obtain c d where c: "rd (s @ [0x22]) i = Some c" "hex_nibble c = Some d"
    "hex_loop n (push_bit 4 v OR ucast d) (s @ [0x22]) (Suc i) = Some w"
    by (auto simp: opt_simps)
  have "c \<noteq> 0x22" using c(2) hex_nibble_quote by auto
  then show ?case using rd_inside [OF Suc.prems(2) c(1)] Suc.IH [OF c(3)] by simp
qed simp

lemma followed_by_u_quote:
  assumes "i \<le> length s"
  shows "followed_by_u (s @ 0x22 # r) i = followed_by_u (s @ [0x22]) i"
    and "followed_by_u (s @ [0x22]) i = Some True \<Longrightarrow> Suc i < length s"
proof -
  have in1: "rd (s @ [0x22]) i = Some 0x5C \<Longrightarrow> Suc i \<le> length s"
    using rd_inside [OF assms, of "0x5C"] by simp
  show "followed_by_u (s @ 0x22 # r) i = followed_by_u (s @ [0x22]) i"
    using in1 by (cases "rd (s @ [0x22]) i") (auto simp: followed_by_u_def rd_quote [where s = s and r = r] assms)
  show "followed_by_u (s @ [0x22]) i = Some True \<Longrightarrow> Suc i < length s"
    using in1 rd_inside [of "Suc i" s "0x75"] by (auto simp: followed_by_u_def opt_simps split: if_splits)
qed

lemma decode_unicode_quote:
  assumes "Suc e \<le> length s"
  shows "decode_unicode (s @ 0x22 # r) e = decode_unicode (s @ [0x22]) e"
    and "decode_unicode (s @ [0x22]) e = Some (u, e') \<Longrightarrow> e' \<le> length s"
proof -
  have h: "hexToDigit 0 (s @ 0x22 # r) (e + 1) = hexToDigit 0 (s @ [0x22]) (e + 1)"
    using assms by (simp add: hexToDigit_def hex_loop_quote [where s = s and r = r])
  have i: "e + 5 \<le> length s" if "hexToDigit 0 (s @ [0x22]) (e + 1) = Some cp" for cp
    using hex_loop_inside [OF that [unfolded hexToDigit_def]] assms by simp
  have f: "followed_by_u (s @ 0x22 # r) (e + 4 + 1) = followed_by_u (s @ [0x22]) (e + 4 + 1)"
    if "hexToDigit 0 (s @ [0x22]) (e + 1) = Some cp" for cp
    by (rule followed_by_u_quote) (use i [OF that] in simp)
  have g: "hexToDigit 0 (s @ 0x22 # r) (e + 4 + 3) = hexToDigit 0 (s @ [0x22]) (e + 4 + 3)"
    "hexToDigit 0 (s @ [0x22]) (e + 4 + 3) = Some sg \<Longrightarrow> e + 11 \<le> length s"
    if "hexToDigit 0 (s @ [0x22]) (e + 1) = Some cp"
      "followed_by_u (s @ [0x22]) (e + 4 + 1) = Some True" for cp sg
  proof -
    have "Suc (e + 5) < length s"
      using followed_by_u_quote(2) [of "e + 4 + 1" s] i [OF that(1)] that(2) by simp
    then have e7: "e + 4 + 3 \<le> length s" by simp
    then show "hexToDigit 0 (s @ 0x22 # r) (e + 4 + 3) = hexToDigit 0 (s @ [0x22]) (e + 4 + 3)"
      by (simp add: hexToDigit_def hex_loop_quote [where s = s and r = r])
    show "hexToDigit 0 (s @ [0x22]) (e + 4 + 3) = Some sg \<Longrightarrow> e + 11 \<le> length s"
      using hex_loop_inside e7 by (fastforce simp: hexToDigit_def)
  qed
  show "decode_unicode (s @ 0x22 # r) e = decode_unicode (s @ [0x22]) e"
  proof (cases "hexToDigit 0 (s @ [0x22]) (e + 1)")
    case (Some cp)
    show ?thesis
      unfolding decode_unicode_def h Some bind.bind_lunit Let_def f [OF Some]
      by (cases "followed_by_u (s @ [0x22]) (e + 4 + 1)") (use g(1) [OF Some] in \<open>auto split: if_splits\<close>)
  qed (simp add: decode_unicode_def h [simplified])
  show "decode_unicode (s @ [0x22]) e = Some (u, e') \<Longrightarrow> e' \<le> length s"
    using i g(2) by (fastforce simp: decode_unicode_def Let_def opt_simps split: if_splits)
qed

lemma decode_escape_quote:
  assumes "e \<le> length s"
  shows "decode_escape (s @ 0x22 # r) e = decode_escape (s @ [0x22]) e"
    and "decode_escape (s @ [0x22]) e = Some (u, e') \<Longrightarrow> e' \<le> length s"
proof -
  have in1: "rd (s @ [0x22]) e = Some 0x75 \<Longrightarrow> Suc e \<le> length s"
    using rd_inside [OF assms, of "0x75"] by simp
  show "decode_escape (s @ 0x22 # r) e = decode_escape (s @ [0x22]) e"
    using in1 decode_unicode_quote(1) [of e s r]
    by (cases "rd (s @ [0x22]) e") (auto simp: decode_escape_def rd_quote [where s = s and r = r] assms)
  show "decode_escape (s @ [0x22]) e = Some (u, e') \<Longrightarrow> e' \<le> length s"
    using in1 decode_unicode_quote(2) [of e s] assms
    by (auto simp: decode_escape_def opt_simps split: if_splits)
qed

lemma cslice_quote:
  "beg + n \<le> length s \<or> n = 0 \<Longrightarrow> cslice (s @ 0x22 # r) beg n = cslice (s @ [0x22]) beg n"
  by (auto simp: cslice_def)

lemma ref_decode_loop_quote:
  assumes "len = length s" "beg \<le> e" "e \<le> len \<or> beg = e"
  shows "ref_decode_loop (s @ 0x22 # r) len beg e = ref_decode_loop (s @ [0x22]) len beg e"
  using assms
proof (induction "s @ [0x22]" len beg e rule: ref_decode_loop.induct)
  case (1 len beg e)
  show ?case
  proof (cases "e < len")
    case False
    then show ?thesis using 1(3-5)
      by (subst (1 2) ref_decode_loop.simps) (auto simp: cslice_quote [where s = s and r = r])
  next
    case e: True
    have rd: "rd (s @ 0x22 # r) e = Some (s ! e)" "rd (s @ [0x22]) e = Some (s ! e)"
      using e 1(3) by (simp_all add: rd_append_left nth_append)
    have sl: "cslice (s @ 0x22 # r) beg (e - beg) = cslice (s @ [0x22]) beg (e - beg)"
      by (rule cslice_quote) (use e 1(3,4) in simp)
    have es: "Suc e \<le> length s" using e 1(3) by simp
    show ?thesis
    proof (cases "s ! e = 0x5C")
      case False
      then show ?thesis using e rd 1(2) [OF e rd(2) False 1(3)] 1(4)
        by (subst (1 2) ref_decode_loop.simps) simp
    next
      case True
      show ?thesis
      proof (cases "cslice (s @ [0x22]) beg (e - beg)")
        case None
        then show ?thesis using e rd sl True by (subst (1 2) ref_decode_loop.simps) simp
      next
        case c: (Some t)
        show ?thesis
        proof (cases "decode_escape (s @ [0x22]) (Suc e)")
          case None
          then show ?thesis using e rd sl True c decode_escape_quote(1) [OF es]
            by (subst (1 2) ref_decode_loop.simps) simp
        next
          case (Some q)
          have "ref_decode_loop (s @ 0x22 # r) len (Suc (snd q)) (Suc (snd q)) =
              ref_decode_loop (s @ [0x22]) len (Suc (snd q)) (Suc (snd q))"
            by (rule 1(1) [OF e rd(2) True c Some 1(3)]) simp_all
          then show ?thesis using e rd sl True c Some decode_escape_quote(1) [OF es]
            by (subst (1 2) ref_decode_loop.simps) simp
        qed
      qed
    qed
  qed
qed

lemma yajl_string_decode_ref:
  assumes "buf_room b (5 * Suc (length s))"
  shows "case ref_decode s of
      None \<Rightarrow> yajl_string_decode b (s @ 0x22 # r) (length s) = None
    | Some out \<Rightarrow> \<exists>b'. yajl_string_decode b (s @ 0x22 # r) (length s) = Some b' \<and> buf_room b' 0 \<and>
        buf_contents b' = buf_contents b @ out"
  using decode_loop_ref [of b "length s" 0 0 "s @ 0x22 # r"] assms
  unfolding ref_decode_def yajl_string_decode_def
  by (simp add: ref_decode_loop_quote [where s = s and r = r])

end
