(* ===== verification/Yajl_Lex.thy ===== *)
theory Yajl_Lex
  imports Yajl_Encode
begin

text \<open>
  The streaming lexer of \<open>jni/yajl/src/yajl_lex.c\<close>. A scan position is the lexer record together
  with the offset into the current chunk (\<open>jsonText\<close>, of which \<open>jsonTextLen\<close> bytes are valid);
  characters come from the lexer's own buffer first, then from the chunk. The C control flow
  \<open>RETURN_IF_EOF; c = readChar(...)\<close> is \<open>with_char\<close>, in continuation style.
\<close>

section \<open>Tokens, errors, state\<close>

datatype yajl_tok =
    yajl_tok_bool | yajl_tok_colon | yajl_tok_comma | yajl_tok_eof | yajl_tok_error
  | yajl_tok_left_brace | yajl_tok_left_bracket | yajl_tok_null | yajl_tok_right_brace
  | yajl_tok_right_bracket | yajl_tok_integer | yajl_tok_double | yajl_tok_string
  | yajl_tok_string_with_escapes | yajl_tok_comment

datatype yajl_lex_error =
    yajl_lex_e_ok | yajl_lex_string_invalid_utf8 | yajl_lex_string_invalid_escaped_char
  | yajl_lex_string_invalid_json_char | yajl_lex_string_invalid_hex_char
  | yajl_lex_invalid_char | yajl_lex_invalid_string | yajl_lex_missing_integer_after_decimal
  | yajl_lex_missing_integer_after_exponent | yajl_lex_missing_integer_after_minus
  | yajl_lex_unallowed_comment

record yajl_lexer =
  lineOff :: nat
  charOff :: nat
  lex_error :: yajl_lex_error
  lex_buf :: yajl_buf
  bufOff :: nat
  bufInUse :: bool
  allowComments :: bool
  validateUTF8 :: bool

definition yajl_lex_alloc :: "bool \<Rightarrow> bool \<Rightarrow> yajl_lexer" where
  "yajl_lex_alloc comments validate =
     \<lparr>lineOff = 0, charOff = 0, lex_error = yajl_lex_e_ok, lex_buf = yajl_buf_alloc, bufOff = 0,
      bufInUse = False, allowComments = comments, validateUTF8 = validate\<rparr>"

type_synonym scan = "yajl_lexer \<times> nat"

definition set_error :: "yajl_lex_error \<Rightarrow> scan \<Rightarrow> scan" where
  "set_error e s = ((fst s)\<lparr>lex_error := e\<rparr>, snd s)"

section \<open>Reading characters\<close>

definition buffered :: "yajl_lexer \<Rightarrow> bool" where
  "buffered l \<longleftrightarrow> bufInUse l \<and> yajl_buf_len (lex_buf l) \<noteq> 0 \<and> bufOff l < yajl_buf_len (lex_buf l)"

definition readChar :: "bytes \<Rightarrow> scan \<Rightarrow> (byte \<times> scan) option" where
  "readChar jsonText s =
     (let l = fst s; off = snd s in
      if buffered l
      then do { c \<leftarrow> buf_read (lex_buf l) (bufOff l);
                Some (c, l\<lparr>bufOff := Suc (bufOff l)\<rparr>, off) }
      else do { c \<leftarrow> rd jsonText off; Some (c, l, Suc off) })"

definition unreadChar :: "scan \<Rightarrow> scan" where
  "unreadChar s =
     (let l = fst s; off = snd s in
      if 0 < off then (l, off - 1) else (l\<lparr>bufOff := size_pred (bufOff l)\<rparr>, off))"

definition at_eof :: "nat \<Rightarrow> scan \<Rightarrow> bool" where
  "at_eof tlen s \<longleftrightarrow> tlen \<le> snd s"

definition with_char ::
  "bytes \<Rightarrow> nat \<Rightarrow> scan \<Rightarrow> (byte \<Rightarrow> scan \<Rightarrow> (yajl_tok \<times> scan) option) \<Rightarrow> (yajl_tok \<times> scan) option"
where
  "with_char jsonText tlen s k =
     (if at_eof tlen s then Some (yajl_tok_eof, s)
      else do { r \<leftarrow> readChar jsonText s; k (fst r) (snd r) })"

text \<open>Characters left to read; every loop of the lexer decreases it.\<close>

definition remaining :: "nat \<Rightarrow> scan \<Rightarrow> nat" where
  "remaining tlen s =
     (if bufInUse (fst s) then buf_used (lex_buf (fst s)) - bufOff (fst s) else 0) + (tlen - snd s)"

lemma readChar_remaining:
  "readChar jsonText s = Some (c, s') \<Longrightarrow> \<not> at_eof tlen s \<Longrightarrow> remaining tlen s' < remaining tlen s"
  by (auto simp: readChar_def Let_def remaining_def at_eof_def buffered_def yajl_buf_len_def
      opt_simps split: if_splits)

lemma unreadChar_remaining:
  "readChar jsonText s = Some (c, s') \<Longrightarrow> remaining tlen (unreadChar s') \<le> remaining tlen s"
  by (auto simp: readChar_def Let_def remaining_def buffered_def yajl_buf_len_def
      unreadChar_def opt_simps split: if_splits)

lemma with_char_cong [fundef_cong]:
  assumes "jsonText = jsonText'" "tlen = tlen'" "s = s'"
    and "\<And>c r. \<not> at_eof tlen' s' \<Longrightarrow> readChar jsonText' s' = Some (c, r) \<Longrightarrow> k c r = k' c r"
  shows "with_char jsonText tlen s k = with_char jsonText' tlen' s' k'"
  using assms by (auto simp: with_char_def intro!: Option.bind_cong)

section \<open>The character table\<close>

definition VEC :: byte where "VEC = 0x01"
definition IJC :: byte where "IJC = 0x02"
definition VHC :: byte where "VHC = 0x04"
definition NFP :: byte where "NFP = 0x08"
definition NUC :: byte where "NUC = 0x10"

definition charLookupTable :: bytes where
  "charLookupTable =
     replicate 32 IJC @
     [0, 0, NFP OR VEC OR IJC, 0, 0, 0, 0, 0] @
     [0, 0, 0, 0, 0, 0, 0, VEC] @
     [VHC, VHC, VHC, VHC, VHC, VHC, VHC, VHC] @
     [VHC, VHC, 0, 0, 0, 0, 0, 0] @
     [0, VHC, VHC, VHC, VHC, VHC, VHC, 0] @
     [0, 0, 0, 0, 0, 0, 0, 0] @
     [0, 0, 0, 0, 0, 0, 0, 0] @
     [0, 0, 0, 0, NFP OR VEC OR IJC, 0, 0, 0] @
     [0, VHC, VEC OR VHC, VHC, VHC, VHC, VEC OR VHC, 0] @
     [0, 0, 0, 0, 0, 0, VEC, 0] @
     [0, 0, VEC, 0, VEC, 0, 0, 0] @
     [0, 0, 0, 0, 0, 0, 0, 0] @
     replicate 128 NUC"

definition charLookup :: "byte \<Rightarrow> byte" where
  "charLookup c = charLookupTable ! unat c"

section \<open>Strings\<close>

text \<open>The continuation bytes of one UTF-8 unit, \<open>n\<close> of them.\<close>

fun lex_utf8_tail :: "nat \<Rightarrow> bytes \<Rightarrow> nat \<Rightarrow> scan \<Rightarrow> (yajl_tok \<times> scan) option" where
  "lex_utf8_tail 0 jsonText tlen s = Some (yajl_tok_string, s)"
| "lex_utf8_tail (Suc n) jsonText tlen s =
     with_char jsonText tlen s (\<lambda>curChar s'.
       if drop_bit 6 curChar = 0x2 then lex_utf8_tail n jsonText tlen s'
       else Some (yajl_tok_error, s'))"

definition yajl_lex_utf8_char :: "bytes \<Rightarrow> nat \<Rightarrow> scan \<Rightarrow> byte \<Rightarrow> (yajl_tok \<times> scan) option" where
  "yajl_lex_utf8_char jsonText tlen s curChar =
     (if curChar \<le> 0x7F then Some (yajl_tok_string, s)
      else if drop_bit 5 curChar = 0x6 then lex_utf8_tail 1 jsonText tlen s
      else if drop_bit 4 curChar = 0x0E then lex_utf8_tail 2 jsonText tlen s
      else if drop_bit 3 curChar = 0x1E then lex_utf8_tail 3 jsonText tlen s
      else Some (yajl_tok_error, s))"

fun yajl_string_scan :: "(nat \<Rightarrow> byte option) \<Rightarrow> nat \<Rightarrow> nat \<Rightarrow> byte \<Rightarrow> nat option" where
  "yajl_string_scan get p 0 mask' = Some 0"
| "yajl_string_scan get p (Suc n) mask' =
     do { c \<leftarrow> get p;
          if charLookup c AND mask' = 0
          then do { k \<leftarrow> yajl_string_scan get (Suc p) n mask'; Some (Suc k) }
          else Some 0 }"

text \<open>The fast scan at the head of the loop of \<open>yajl_lex_string\<close>.\<close>

definition lex_string_skip :: "bytes \<Rightarrow> nat \<Rightarrow> scan \<Rightarrow> scan option" where
  "lex_string_skip jsonText tlen s =
     (let l = fst s; off = snd s;
          m = IJC OR NFP OR (if validateUTF8 l then NUC else 0)
      in if buffered l
         then do { k \<leftarrow> yajl_string_scan (buf_read (lex_buf l)) (bufOff l)
                          (yajl_buf_len (lex_buf l) - bufOff l) m;
                   Some (l\<lparr>bufOff := bufOff l + k\<rparr>, off) }
         else if off < tlen
         then do { k \<leftarrow> yajl_string_scan (rd jsonText) off (tlen - off) m; Some (l, off + k) }
         else Some s)"

text \<open>The four hex digits after \<open>\u\<close>; the result is handed on to \<open>k\<close>.\<close>

fun lex_hex4 ::
  "nat \<Rightarrow> bytes \<Rightarrow> nat \<Rightarrow> scan \<Rightarrow> (scan \<Rightarrow> (yajl_tok \<times> scan) option) \<Rightarrow> (yajl_tok \<times> scan) option"
where
  "lex_hex4 0 jsonText tlen s k = k s"
| "lex_hex4 (Suc n) jsonText tlen s k =
     with_char jsonText tlen s (\<lambda>curChar s'.
       if charLookup curChar AND VHC = 0
       then Some (yajl_tok_error, set_error yajl_lex_string_invalid_hex_char (unreadChar s'))
       else lex_hex4 n jsonText tlen s' k)"

lemma lex_hex4_cong [fundef_cong]:
  assumes "n = n'" "jsonText = jsonText'" "tlen = tlen'" "s = s'"
    and "\<And>r. remaining tlen' r \<le> remaining tlen' s' \<Longrightarrow> k r = k' r"
  shows "lex_hex4 n jsonText tlen s k = lex_hex4 n' jsonText' tlen' s' k'"
proof -
  have "(\<And>r. remaining tlen r \<le> remaining tlen s \<Longrightarrow> k r = k' r) \<Longrightarrow>
      lex_hex4 n jsonText tlen s k = lex_hex4 n jsonText tlen s k'"
  proof (induction n arbitrary: s)
    case (Suc n)
    have "lex_hex4 n jsonText tlen r k = lex_hex4 n jsonText tlen r k'"
      if "\<not> at_eof tlen s" "readChar jsonText s = Some (c, r)" for c r
      using readChar_remaining [OF that(2,1)] Suc.prems by (intro Suc.IH) simp
    then show ?case by (auto intro!: with_char_cong)
  qed simp
  then show ?thesis using assms by blast
qed

lemma yajl_string_scan_le: "yajl_string_scan get p n m = Some k \<Longrightarrow> k \<le> n"
  by (induction get p n m arbitrary: k rule: yajl_string_scan.induct)
    (auto simp: opt_simps split: if_splits)

lemma lex_string_skip_remaining:
  "lex_string_skip jsonText tlen s = Some s' \<Longrightarrow> remaining tlen s' \<le> remaining tlen s"
  by (auto simp: lex_string_skip_def Let_def remaining_def buffered_def yajl_buf_len_def
      opt_simps split: if_splits dest!: yajl_string_scan_le)

text \<open>
  The main loop. \<open>hasEscapes\<close> is threaded; it turns \<open>yajl_tok_string\<close> into
  \<open>yajl_tok_string_with_escapes\<close> at \<open>finish_string_lex\<close>.
\<close>

function lex_string_loop :: "bytes \<Rightarrow> nat \<Rightarrow> bool \<Rightarrow> scan \<Rightarrow> (yajl_tok \<times> scan) option" where
  "lex_string_loop jsonText tlen hasEscapes s =
     do { s0 \<leftarrow> lex_string_skip jsonText tlen s;
          with_char jsonText tlen s0 (\<lambda>curChar s1.
            if curChar = 0x22 then
              Some (if hasEscapes then yajl_tok_string_with_escapes else yajl_tok_string, s1)
            else if curChar = 0x5C then
              with_char jsonText tlen s1 (\<lambda>c s2.
                if c = 0x75 then lex_hex4 4 jsonText tlen s2 (lex_string_loop jsonText tlen True)
                else if charLookup c AND VEC = 0
                then Some (yajl_tok_error,
                           set_error yajl_lex_string_invalid_escaped_char (unreadChar s2))
                else lex_string_loop jsonText tlen True s2)
            else if charLookup curChar AND IJC \<noteq> 0 then
              Some (yajl_tok_error, set_error yajl_lex_string_invalid_json_char (unreadChar s1))
            else if validateUTF8 (fst s1) then
              do { r \<leftarrow> yajl_lex_utf8_char jsonText tlen s1 curChar;
                   if fst r = yajl_tok_eof then Some (yajl_tok_eof, snd r)
                   else if fst r = yajl_tok_error
                   then Some (yajl_tok_error, set_error yajl_lex_string_invalid_utf8 (snd r))
                   else lex_string_loop jsonText tlen hasEscapes (snd r) }
            else lex_string_loop jsonText tlen hasEscapes s1) }"
  by pat_completeness auto

lemma lex_utf8_tail_remaining:
  "lex_utf8_tail n jsonText tlen s = Some (t, s') \<Longrightarrow> remaining tlen s' \<le> remaining tlen s"
proof (induction n arbitrary: s)
  case (Suc n)
  then show ?case
    by (fastforce simp: with_char_def opt_simps split: if_splits dest!: readChar_remaining)
qed simp

lemma yajl_lex_utf8_char_remaining:
  "yajl_lex_utf8_char jsonText tlen s c = Some (t, s') \<Longrightarrow> remaining tlen s' \<le> remaining tlen s"
  by (auto simp: yajl_lex_utf8_char_def simp del: lex_utf8_tail.simps
      split: if_splits dest: lex_utf8_tail_remaining)

termination lex_string_loop
  by (relation "measure (\<lambda>(_, tlen, _, s). remaining tlen s)")
    (fastforce dest!: lex_string_skip_remaining readChar_remaining yajl_lex_utf8_char_remaining)+

declare lex_string_loop.simps [simp del]

definition yajl_lex_string :: "bytes \<Rightarrow> nat \<Rightarrow> scan \<Rightarrow> (yajl_tok \<times> scan) option" where
  "yajl_lex_string jsonText tlen s = lex_string_loop jsonText tlen False s"

section \<open>Numbers\<close>

definition is_digit :: "byte \<Rightarrow> bool" where
  "is_digit c \<longleftrightarrow> 0x30 \<le> c \<and> c \<le> 0x39"

text \<open>\<open>do { RETURN_IF_EOF; c = readChar; } while (c is a digit);\<close> and then \<open>k\<close>.\<close>

function lex_digits ::
  "bytes \<Rightarrow> nat \<Rightarrow> scan \<Rightarrow> (byte \<Rightarrow> scan \<Rightarrow> (yajl_tok \<times> scan) option) \<Rightarrow> (yajl_tok \<times> scan) option"
where
  "lex_digits jsonText tlen s k =
     with_char jsonText tlen s (\<lambda>c s'. if is_digit c then lex_digits jsonText tlen s' k else k c s')"
  by pat_completeness auto
termination
  by (relation "measure (\<lambda>(_, tlen, s, _). remaining tlen s)") (auto dest: readChar_remaining)

declare lex_digits.simps [simp del]

definition lex_num_end :: "yajl_tok \<Rightarrow> byte \<Rightarrow> scan \<Rightarrow> (yajl_tok \<times> scan) option" where
  "lex_num_end tok c s = Some (tok, unreadChar s)"

definition lex_exp_digits :: "bytes \<Rightarrow> nat \<Rightarrow> byte \<Rightarrow> scan \<Rightarrow> (yajl_tok \<times> scan) option" where
  "lex_exp_digits jsonText tlen c s =
     (if is_digit c then lex_digits jsonText tlen s (lex_num_end yajl_tok_double)
      else Some (yajl_tok_error,
                 set_error yajl_lex_missing_integer_after_exponent (unreadChar s)))"

definition lex_exponent :: "bytes \<Rightarrow> nat \<Rightarrow> yajl_tok \<Rightarrow> byte \<Rightarrow> scan \<Rightarrow> (yajl_tok \<times> scan) option" where
  "lex_exponent jsonText tlen tok c s =
     (if c = 0x65 \<or> c = 0x45 then
        with_char jsonText tlen s (\<lambda>c1 s1.
          if c1 = 0x2B \<or> c1 = 0x2D then with_char jsonText tlen s1 (lex_exp_digits jsonText tlen)
          else lex_exp_digits jsonText tlen c1 s1)
      else lex_num_end tok c s)"

definition lex_fraction :: "bytes \<Rightarrow> nat \<Rightarrow> byte \<Rightarrow> scan \<Rightarrow> (yajl_tok \<times> scan) option" where
  "lex_fraction jsonText tlen c s =
     (if c = 0x2E then
        with_char jsonText tlen s (\<lambda>c1 s1.
          if is_digit c1 then lex_digits jsonText tlen s1 (lex_exponent jsonText tlen yajl_tok_double)
          else Some (yajl_tok_error,
                     set_error yajl_lex_missing_integer_after_decimal (unreadChar s1)))
      else lex_exponent jsonText tlen yajl_tok_integer c s)"

definition lex_integer_part :: "bytes \<Rightarrow> nat \<Rightarrow> byte \<Rightarrow> scan \<Rightarrow> (yajl_tok \<times> scan) option" where
  "lex_integer_part jsonText tlen c s =
     (if c = 0x30 then with_char jsonText tlen s (lex_fraction jsonText tlen)
      else if 0x31 \<le> c \<and> c \<le> 0x39 then lex_digits jsonText tlen s (lex_fraction jsonText tlen)
      else Some (yajl_tok_error,
                 set_error yajl_lex_missing_integer_after_minus (unreadChar s)))"

definition yajl_lex_number :: "bytes \<Rightarrow> nat \<Rightarrow> scan \<Rightarrow> (yajl_tok \<times> scan) option" where
  "yajl_lex_number jsonText tlen s =
     with_char jsonText tlen s (\<lambda>c s1.
       if c = 0x2D then with_char jsonText tlen s1 (lex_integer_part jsonText tlen)
       else lex_integer_part jsonText tlen c s1)"

section \<open>Comments\<close>

function lex_line_comment :: "bytes \<Rightarrow> nat \<Rightarrow> scan \<Rightarrow> (yajl_tok \<times> scan) option" where
  "lex_line_comment jsonText tlen s =
     with_char jsonText tlen s (\<lambda>c s1.
       if c \<noteq> 0x0A then lex_line_comment jsonText tlen s1 else Some (yajl_tok_comment, s1))"
  by pat_completeness auto
termination
  by (relation "measure (\<lambda>(_, tlen, s). remaining tlen s)") (auto dest: readChar_remaining)

declare lex_line_comment.simps [simp del]

function lex_block_comment :: "bytes \<Rightarrow> nat \<Rightarrow> scan \<Rightarrow> (yajl_tok \<times> scan) option" where
  "lex_block_comment jsonText tlen s =
     with_char jsonText tlen s (\<lambda>c s1.
       if c = 0x2A then
         with_char jsonText tlen s1 (\<lambda>c2 s2.
           if c2 = 0x2F then Some (yajl_tok_comment, s2)
           else lex_block_comment jsonText tlen (unreadChar s2))
       else lex_block_comment jsonText tlen s1)"
  by pat_completeness auto
termination
proof (relation "measure (\<lambda>(_, tlen, s). remaining tlen s)")
  fix t :: bytes and tlen :: nat and s :: scan and c s1 c2 s2
  assume "\<not> at_eof tlen s" "readChar t s = Some (c, s1)"
    "\<not> at_eof tlen s1" "readChar t s1 = Some (c2, s2)"
  then show "((t, tlen, unreadChar s2), (t, tlen, s)) \<in> measure (\<lambda>(_, tlen, s). remaining tlen s)"
    using readChar_remaining [of t s c s1 tlen] unreadChar_remaining [of t s1 c2 s2 tlen] by simp
next
  fix t :: bytes and tlen :: nat and s :: scan and c s1
  assume "\<not> at_eof tlen s" "readChar t s = Some (c, s1)"
  then show "((t, tlen, s1), (t, tlen, s)) \<in> measure (\<lambda>(_, tlen, s). remaining tlen s)"
    using readChar_remaining [of t s c s1 tlen] by simp
qed simp

declare lex_block_comment.simps [simp del]

definition yajl_lex_comment :: "bytes \<Rightarrow> nat \<Rightarrow> scan \<Rightarrow> (yajl_tok \<times> scan) option" where
  "yajl_lex_comment jsonText tlen s =
     with_char jsonText tlen s (\<lambda>c s1.
       if c = 0x2F then lex_line_comment jsonText tlen s1
       else if c = 0x2A then lex_block_comment jsonText tlen s1
       else Some (yajl_tok_error, set_error yajl_lex_invalid_char s1))"

section \<open>One token\<close>

text \<open>Where an output pointer points: the chunk, the lexer's buffer or the decode buffer.\<close>

datatype strptr = PNull | PText nat | PLex nat | PDec nat

fun ptr_inc :: "strptr \<Rightarrow> strptr" where
  "ptr_inc PNull = PNull"
| "ptr_inc (PText i) = PText (Suc i)"
| "ptr_inc (PLex i) = PLex (Suc i)"
| "ptr_inc (PDec i) = PDec (Suc i)"

text \<open>The rest of a literal: \<open>want\<close> is the C string still to match.\<close>

fun lex_keyword :: "bytes \<Rightarrow> yajl_tok \<Rightarrow> bytes \<Rightarrow> nat \<Rightarrow> scan \<Rightarrow> (yajl_tok \<times> scan) option" where
  "lex_keyword [] tok jsonText tlen s = Some (tok, s)"
| "lex_keyword (w # want) tok jsonText tlen s =
     with_char jsonText tlen s (\<lambda>c s1.
       if c \<noteq> w then Some (yajl_tok_error, set_error yajl_lex_invalid_string (unreadChar s1))
       else lex_keyword want tok jsonText tlen s1)"

definition is_space :: "byte \<Rightarrow> bool" where
  "is_space c \<longleftrightarrow> c = 0x09 \<or> c = 0x0A \<or> c = 0x0B \<or> c = 0x0C \<or> c = 0x0D \<or> c = 0x20"

text \<open>The cases of the \<open>switch\<close> that end the loop whatever follows.\<close>

definition lex_first_char :: "bytes \<Rightarrow> nat \<Rightarrow> byte \<Rightarrow> scan \<Rightarrow> (yajl_tok \<times> scan) option" where
  "lex_first_char jsonText tlen c s =
     (if c = 0x7B then Some (yajl_tok_left_bracket, s)
      else if c = 0x7D then Some (yajl_tok_right_bracket, s)
      else if c = 0x5B then Some (yajl_tok_left_brace, s)
      else if c = 0x5D then Some (yajl_tok_right_brace, s)
      else if c = 0x2C then Some (yajl_tok_comma, s)
      else if c = 0x3A then Some (yajl_tok_colon, s)
      else if c = 0x74 then lex_keyword [0x72, 0x75, 0x65] yajl_tok_bool jsonText tlen s
      else if c = 0x66 then lex_keyword [0x61, 0x6C, 0x73, 0x65] yajl_tok_bool jsonText tlen s
      else if c = 0x6E then lex_keyword [0x75, 0x6C, 0x6C] yajl_tok_null jsonText tlen s
      else if c = 0x22 then yajl_lex_string jsonText tlen s
      else if c = 0x2D \<or> is_digit c then yajl_lex_number jsonText tlen (unreadChar s)
      else Some (yajl_tok_error, set_error yajl_lex_invalid_char s))"

text \<open>
  The loop of \<open>yajl_lex_lex\<close> up to the label \<open>lexed\<close>: the token, \<open>startOffset\<close> and the scan
  position.
\<close>

function lex_scan :: "bytes \<Rightarrow> nat \<Rightarrow> nat \<Rightarrow> scan \<Rightarrow> (yajl_tok \<times> nat \<times> scan) option" where
  "lex_scan jsonText tlen startOffset s =
     (if tlen < snd s then None
      else if at_eof tlen s then Some (yajl_tok_eof, startOffset, s)
      else do { r \<leftarrow> readChar jsonText s;
                let c = fst r;
                let s1 = snd r;
                if is_space c then lex_scan jsonText tlen (Suc startOffset) s1
                else if c = 0x2F then
                  (if \<not> allowComments (fst s1)
                   then Some (yajl_tok_error, startOffset,
                              set_error yajl_lex_unallowed_comment (unreadChar s1))
                   else do { q \<leftarrow> yajl_lex_comment jsonText tlen s1;
                             if fst q = yajl_tok_comment
                             then lex_scan jsonText tlen (snd (snd q))
                                    ((fst (snd q))\<lparr>lex_buf := yajl_buf_clear (lex_buf (fst (snd q))),
                                                  bufInUse := False\<rparr>, snd (snd q))
                             else Some (fst q, startOffset, snd q) })
                else do { q \<leftarrow> lex_first_char jsonText tlen c s1; Some (fst q, startOffset, snd q) } })"
  by pat_completeness auto

lemma with_char_cases:
  assumes "with_char jsonText tlen s k = Some (t, s')"
  obtains (eof) "at_eof tlen s" "t = yajl_tok_eof" "s' = s"
  | (char) c r where "\<not> at_eof tlen s" "readChar jsonText s = Some (c, r)"
      "k c r = Some (t, s')" "remaining tlen r < remaining tlen s"
  using assms by (auto simp: with_char_def opt_simps split: if_splits dest: readChar_remaining)

lemma lex_line_comment_remaining:
  "lex_line_comment jsonText tlen s = Some (t, s') \<Longrightarrow> remaining tlen s' \<le> remaining tlen s"
proof (induction jsonText tlen s rule: lex_line_comment.induct)
  case (1 jsonText tlen s)
  from 1(2) show ?case unfolding lex_line_comment.simps [of jsonText tlen s]
    by (cases rule: with_char_cases) (use 1(1) in \<open>fastforce split: if_splits\<close>)+
qed

lemma lex_block_comment_remaining:
  "lex_block_comment jsonText tlen s = Some (t, s') \<Longrightarrow> remaining tlen s' \<le> remaining tlen s"
proof (induction jsonText tlen s rule: lex_block_comment.induct)
  case (1 jsonText tlen s)
  from 1(3) show ?case unfolding lex_block_comment.simps [of jsonText tlen s]
  proof (cases rule: with_char_cases)
    case (char c r)
    show ?thesis
    proof (cases "c = 0x2A")
      case True
      with char(3) have "with_char jsonText tlen r (\<lambda>c2 s2.
           if c2 = 0x2F then Some (yajl_tok_comment, s2)
           else lex_block_comment jsonText tlen (unreadChar s2)) = Some (t, s')" by simp
      then show ?thesis
      proof (cases rule: with_char_cases)
        case (char c2 r2)
        then show ?thesis
          using 1(1) [OF _ _ True] \<open>\<not> at_eof tlen s\<close> \<open>readChar jsonText s = _\<close>
            \<open>remaining tlen r < _\<close> unreadChar_remaining [OF char(2), of tlen]
          by (fastforce split: if_splits)
      qed (use char in simp)
    next
      case False
      then show ?thesis using char 1(2) by fastforce
    qed
  qed simp
qed

lemma yajl_lex_comment_remaining:
  assumes "yajl_lex_comment jsonText tlen s = Some (t, s')"
  shows "remaining tlen s' \<le> remaining tlen s"
  using assms unfolding yajl_lex_comment_def
  by (cases rule: with_char_cases)
    (auto split: if_splits simp: set_error_def remaining_def
      dest!: lex_line_comment_remaining lex_block_comment_remaining)

lemma remaining_unbuffered:
  "remaining tlen (l\<lparr>lex_buf := b, bufInUse := False\<rparr>, off) \<le> remaining tlen (l, off)"
  by (simp add: remaining_def)

termination lex_scan
proof (relation "measure (\<lambda>(_, tlen, _, s). remaining tlen s)")
  fix t :: bytes and tlen start :: nat and s :: scan and r c s1
  assume "\<not> at_eof tlen s" "readChar t s = Some r" "s1 = snd r"
  then show "((t, tlen, Suc start, s1), (t, tlen, start, s))
      \<in> measure (\<lambda>(_, tlen, _, s). remaining tlen s)"
    using readChar_remaining [of t s "fst r" "snd r" tlen] by simp
next
  fix t :: bytes and tlen start :: nat and s :: scan and r c s1 q
  assume "\<not> at_eof tlen s" "readChar t s = Some r" "s1 = snd r" "yajl_lex_comment t tlen s1 = Some q"
  then show "((t, tlen, snd (snd q), ((fst (snd q))\<lparr>lex_buf := yajl_buf_clear (lex_buf (fst (snd q))),
        bufInUse := False\<rparr>, snd (snd q))), (t, tlen, start, s))
      \<in> measure (\<lambda>(_, tlen, _, s). remaining tlen s)"
    using readChar_remaining [of t s "fst r" "snd r" tlen]
      yajl_lex_comment_remaining [of t tlen s1 "fst q" "snd q"]
      remaining_unbuffered [of tlen _ "fst (snd q)" "snd (snd q)"]
    by (auto intro: le_less_trans)
qed simp

declare lex_scan.simps [simp del]

text \<open>From the label \<open>lexed\<close> on: buffering of partial tokens and the output slice.\<close>

definition lex_finish ::
  "bytes \<Rightarrow> yajl_tok \<Rightarrow> nat \<Rightarrow> scan \<Rightarrow> (yajl_tok \<times> strptr \<times> nat \<times> scan) option" where
  "lex_finish jsonText tok startOffset s =
     (let l = fst s; off = snd s in
      do { r \<leftarrow> (if tok = yajl_tok_eof \<or> bufInUse l then
                 do { let b0 = (if bufInUse l then lex_buf l else yajl_buf_clear (lex_buf l));
                      piece \<leftarrow> cslice jsonText startOffset (size_sub off startOffset);
                      b1 \<leftarrow> yajl_buf_append b0 piece;
                      let l1 = l\<lparr>lex_buf := b1, bufInUse := tok = yajl_tok_eof, bufOff := 0\<rparr>;
                      Some (if tok \<noteq> yajl_tok_eof then (PLex 0, yajl_buf_len b1, l1)
                            else (PNull, 0, l1)) }
               else if tok \<noteq> yajl_tok_error
               then Some (PText startOffset, size_sub off startOffset, l)
               else Some (PNull, 0, l));
           let ptr = fst r;
           let n = fst (snd r);
           let s1 = (snd (snd r), off);
           if tok = yajl_tok_string \<or> tok = yajl_tok_string_with_escapes
           then (if 2 \<le> n then Some (tok, ptr_inc ptr, n - 2, s1) else None)
           else Some (tok, ptr, n, s1) })"

definition yajl_lex_lex ::
  "bytes \<Rightarrow> nat \<Rightarrow> scan \<Rightarrow> (yajl_tok \<times> strptr \<times> nat \<times> scan) option" where
  "yajl_lex_lex jsonText tlen s =
     do { r \<leftarrow> lex_scan jsonText tlen (snd s) s;
          lex_finish jsonText (fst r) (fst (snd r)) (snd (snd r)) }"

definition yajl_lex_peek :: "bytes \<Rightarrow> nat \<Rightarrow> scan \<Rightarrow> (yajl_tok \<times> yajl_lexer) option" where
  "yajl_lex_peek jsonText tlen s =
     do { r \<leftarrow> yajl_lex_lex jsonText tlen s;
          let l1 = fst (snd (snd (snd r)));
          b \<leftarrow> yajl_buf_truncate (lex_buf l1) (yajl_buf_len (lex_buf (fst s)));
          Some (fst r, l1\<lparr>bufOff := bufOff (fst s), bufInUse := bufInUse (fst s), lex_buf := b\<rparr>) }"

definition yajl_lex_get_error :: "yajl_lexer option \<Rightarrow> yajl_lex_error option" where
  "yajl_lex_get_error l = map_option lex_error l"

text \<open>ASCII text as bytes.\<close>

definition ascii :: "string \<Rightarrow> bytes" where
  "ascii s = map of_char s"

definition yajl_lex_error_to_string :: "yajl_lex_error \<Rightarrow> string" where
  "yajl_lex_error_to_string e =
     (case e of
        yajl_lex_e_ok \<Rightarrow> ''ok, no error''
      | yajl_lex_string_invalid_utf8 \<Rightarrow> ''invalid bytes in UTF8 string.''
      | yajl_lex_string_invalid_escaped_char \<Rightarrow>
          ''inside a string, '' @ [CHR 0x27, CHR 0x5C, CHR 0x27] @
          '' occurs before a character which it may not.''
      | yajl_lex_string_invalid_json_char \<Rightarrow> ''invalid character inside string.''
      | yajl_lex_string_invalid_hex_char \<Rightarrow>
          ''invalid (non-hex) character occurs after '' @ [CHR 0x27, CHR 0x5C, CHR 0x75, CHR 0x27] @
          '' inside string.''
      | yajl_lex_invalid_char \<Rightarrow> ''invalid char in json text.''
      | yajl_lex_invalid_string \<Rightarrow> ''invalid string in json text.''
      | yajl_lex_missing_integer_after_exponent \<Rightarrow>
          ''malformed number, a digit is required after the exponent.''
      | yajl_lex_missing_integer_after_decimal \<Rightarrow>
          ''malformed number, a digit is required after the decimal point.''
      | yajl_lex_missing_integer_after_minus \<Rightarrow>
          ''malformed number, a digit is required after the minus sign.''
      | yajl_lex_unallowed_comment \<Rightarrow>
          ''probable comment found in input text, comments are not enabled.'')"

section \<open>The memory behind token pointers\<close>

text \<open>The blocks a token pointer can point into: the chunk, the lexer's buffer, the decode buffer.\<close>

record cmem =
  mem_text :: bytes
  mem_lex :: "cells option"
  mem_dec :: "cells option"

definition cells_bytes :: "cells option \<Rightarrow> nat \<Rightarrow> nat \<Rightarrow> bytes option" where
  "cells_bytes m i n =
     (if n = 0 then Some [] else do { cs \<leftarrow> m; xs \<leftarrow> cslice cs i n; those xs })"

fun mem_bytes :: "cmem \<Rightarrow> strptr \<Rightarrow> nat \<Rightarrow> bytes option" where
  "mem_bytes m PNull n = (if n = 0 then Some [] else None)"
| "mem_bytes m (PText i) n = cslice (mem_text m) i n"
| "mem_bytes m (PLex i) n = cells_bytes (mem_lex m) i n"
| "mem_bytes m (PDec i) n = cells_bytes (mem_dec m) i n"

fun mem_byte :: "cmem \<Rightarrow> strptr \<Rightarrow> nat \<Rightarrow> byte option" where
  "mem_byte m PNull k = None"
| "mem_byte m (PText i) k = rd (mem_text m) (i + k)"
| "mem_byte m (PLex i) k = do { cs \<leftarrow> mem_lex m; c \<leftarrow> rd cs (i + k); c }"
| "mem_byte m (PDec i) k = do { cs \<leftarrow> mem_dec m; c \<leftarrow> rd cs (i + k); c }"

text \<open>The initialised bytes from a pointer to the end of its block.\<close>

definition cells_from :: "cells option \<Rightarrow> nat \<Rightarrow> bytes option" where
  "cells_from m i =
     do { cs \<leftarrow> m; Some (map the (takeWhile (\<lambda>c. c \<noteq> None) (drop i cs))) }"

fun mem_from :: "cmem \<Rightarrow> strptr \<Rightarrow> bytes option" where
  "mem_from m PNull = None"
| "mem_from m (PText i) = Some (drop i (mem_text m))"
| "mem_from m (PLex i) = cells_from (mem_lex m) i"
| "mem_from m (PDec i) = cells_from (mem_dec m) i"

end
