(* ===== verification/Yajl_Lex_Spec.thy ===== *)
theory Yajl_Lex_Spec
  imports Yajl_Lex
begin

text \<open>
  A reference lexer on plain byte lists, without chunks, buffers or positions, and the proof
  that the streaming lexer of \<open>Yajl_Lex\<close> implements it: reading through the lexer's buffer and
  then the chunk is reading the concatenation. The reference functions return the token, the
  error recorded (if any) and the number of bytes consumed.
\<close>

section \<open>The reference lexer\<close>

type_synonym lexed = "yajl_tok \<times> yajl_lex_error option \<times> nat"

definition shift :: "nat \<Rightarrow> lexed \<Rightarrow> lexed" where
  "shift n r = (fst r, fst (snd r), n + snd (snd r))"

lemma shift_simps [simp]:
  "shift n (t, e, k) = (t, e, n + k)"
  "fst (shift n r) = fst r" "fst (snd (shift n r)) = fst (snd r)"
  "snd (snd (shift n r)) = n + snd (snd r)"
  by (simp_all add: shift_def)

lemma shift_shift [simp]: "shift m (shift n r) = shift (m + n) r"
  by (simp add: shift_def)

lemma shift_0 [simp]: "shift 0 r = r"
  by (simp add: shift_def)

text \<open>UTF-8 continuation bytes; the token \<open>yajl_tok_string\<close> means well-formed.\<close>

fun ref_tail :: "nat \<Rightarrow> bytes \<Rightarrow> yajl_tok \<times> nat" where
  "ref_tail 0 xs = (yajl_tok_string, 0)"
| "ref_tail (Suc n) [] = (yajl_tok_eof, 0)"
| "ref_tail (Suc n) (c # xs) =
     (if drop_bit 6 c = 0x2 then (fst (ref_tail n xs), Suc (snd (ref_tail n xs)))
      else (yajl_tok_error, 1))"

definition utf8_len :: "byte \<Rightarrow> nat option" where
  "utf8_len c =
     (if c \<le> 0x7F then Some 0 else if drop_bit 5 c = 0x6 then Some 1
      else if drop_bit 4 c = 0x0E then Some 2 else if drop_bit 3 c = 0x1E then Some 3 else None)"

definition ref_utf8 :: "byte \<Rightarrow> bytes \<Rightarrow> yajl_tok \<times> nat" where
  "ref_utf8 c xs = (case utf8_len c of Some n \<Rightarrow> ref_tail n xs | None \<Rightarrow> (yajl_tok_error, 0))"

definition is_hex :: "byte \<Rightarrow> bool" where
  "is_hex c \<longleftrightarrow> charLookup c AND VHC \<noteq> 0"

definition ref_hex :: "bytes \<Rightarrow> nat" where
  "ref_hex xs = length (takeWhile is_hex (take 4 xs))"

text \<open>The body of a string after its opening quote; \<open>v\<close>: UTF-8 is checked, \<open>esc\<close>: an escape was
  seen.\<close>

function ref_string :: "bool \<Rightarrow> bool \<Rightarrow> bytes \<Rightarrow> lexed" where
  "ref_string v esc [] = (yajl_tok_eof, None, 0)"
| "ref_string v esc (c # xs) =
     (if c = 0x22 then
        (if esc then yajl_tok_string_with_escapes else yajl_tok_string, None, 1)
      else if c = 0x5C then
        (case xs of
           [] \<Rightarrow> (yajl_tok_eof, None, 1)
         | d # ys \<Rightarrow>
             if d = 0x75 then
               (if ref_hex ys = 4 then shift 6 (ref_string v True (drop 4 ys))
                else if ref_hex ys = length ys then (yajl_tok_eof, None, 2 + length ys)
                else (yajl_tok_error, Some yajl_lex_string_invalid_hex_char, 2 + ref_hex ys))
             else if charLookup d AND VEC = 0
             then (yajl_tok_error, Some yajl_lex_string_invalid_escaped_char, 1)
             else shift 2 (ref_string v True ys))
      else if charLookup c AND IJC \<noteq> 0
      then (yajl_tok_error, Some yajl_lex_string_invalid_json_char, 0)
      else if v then
        (case ref_utf8 c xs of
           (t, k) \<Rightarrow>
             if t = yajl_tok_eof then (yajl_tok_eof, None, Suc k)
             else if t = yajl_tok_error
             then (yajl_tok_error, Some yajl_lex_string_invalid_utf8, Suc k)
             else shift (Suc k) (ref_string v esc (drop k xs)))
      else shift 1 (ref_string v esc xs))"
  by pat_completeness auto
termination by (relation "measure (\<lambda>(_, _, xs). length xs)") auto

declare ref_string.simps(2) [simp del]

definition ref_digits :: "bytes \<Rightarrow> nat" where
  "ref_digits xs = length (takeWhile is_digit xs)"

text \<open>The digits of the exponent, the exponent, the fraction, the integer part, the number.\<close>

definition ref_exp_digits :: "bytes \<Rightarrow> lexed" where
  "ref_exp_digits xs =
     (let n = ref_digits xs in
      if n = length xs then (yajl_tok_eof, None, n)
      else if n = 0 then (yajl_tok_error, Some yajl_lex_missing_integer_after_exponent, 0)
      else (yajl_tok_double, None, n))"

definition ref_exponent :: "yajl_tok \<Rightarrow> bytes \<Rightarrow> lexed" where
  "ref_exponent tok xs =
     (case xs of
        [] \<Rightarrow> (yajl_tok_eof, None, 0)
      | c # ys \<Rightarrow>
          if c = 0x65 \<or> c = 0x45 then
            (case ys of
               [] \<Rightarrow> (yajl_tok_eof, None, 1)
             | d # zs \<Rightarrow>
                 if d = 0x2B \<or> d = 0x2D then shift 2 (ref_exp_digits zs)
                 else shift 1 (ref_exp_digits ys))
          else (tok, None, 0))"

definition ref_fraction :: "bytes \<Rightarrow> lexed" where
  "ref_fraction xs =
     (case xs of
        [] \<Rightarrow> (yajl_tok_eof, None, 0)
      | c # ys \<Rightarrow>
          if c = 0x2E then
            (let n = ref_digits ys in
             if n = 0 \<and> ys \<noteq> []
             then (yajl_tok_error, Some yajl_lex_missing_integer_after_decimal, 1)
             else shift (Suc n) (ref_exponent yajl_tok_double (drop n ys)))
          else ref_exponent yajl_tok_integer xs)"

definition ref_integer :: "bytes \<Rightarrow> lexed" where
  "ref_integer xs =
     (case xs of
        [] \<Rightarrow> (yajl_tok_eof, None, 0)
      | c # ys \<Rightarrow>
          if c = 0x30 then shift 1 (ref_fraction ys)
          else if is_digit c
          then shift (ref_digits xs) (ref_fraction (drop (ref_digits xs) xs))
          else (yajl_tok_error, Some yajl_lex_missing_integer_after_minus, 0))"

definition ref_number :: "bytes \<Rightarrow> lexed" where
  "ref_number xs =
     (case xs of
        [] \<Rightarrow> (yajl_tok_eof, None, 0)
      | c # ys \<Rightarrow> if c = 0x2D then shift 1 (ref_integer ys) else ref_integer xs)"

text \<open>Comments, after the first slash.\<close>

definition ref_line :: "bytes \<Rightarrow> lexed" where
  "ref_line xs =
     (let k = length (takeWhile (\<lambda>c. c \<noteq> 0x0A) xs) in
      if k = length xs then (yajl_tok_eof, None, k) else (yajl_tok_comment, None, Suc k))"

fun ref_block :: "bytes \<Rightarrow> lexed" where
  "ref_block [] = (yajl_tok_eof, None, 0)"
| "ref_block (c # xs) =
     (if c = 0x2A then
        (case xs of
           [] \<Rightarrow> (yajl_tok_eof, None, 1)
         | d # ys \<Rightarrow> if d = 0x2F then (yajl_tok_comment, None, 2) else shift 1 (ref_block xs))
      else shift 1 (ref_block xs))"

definition ref_comment :: "bytes \<Rightarrow> lexed" where
  "ref_comment xs =
     (case xs of
        [] \<Rightarrow> (yajl_tok_eof, None, 0)
      | c # ys \<Rightarrow>
          if c = 0x2F then shift 1 (ref_line ys)
          else if c = 0x2A then shift 1 (ref_block ys)
          else (yajl_tok_error, Some yajl_lex_invalid_char, 1))"

fun ref_keyword :: "bytes \<Rightarrow> yajl_tok \<Rightarrow> bytes \<Rightarrow> lexed" where
  "ref_keyword [] tok xs = (tok, None, 0)"
| "ref_keyword (w # want) tok [] = (yajl_tok_eof, None, 0)"
| "ref_keyword (w # want) tok (c # xs) =
     (if c \<noteq> w then (yajl_tok_error, Some yajl_lex_invalid_string, 0)
      else shift 1 (ref_keyword want tok xs))"

text \<open>A token that starts at the head of the list.\<close>

definition ref_tok :: "bool \<Rightarrow> byte \<Rightarrow> bytes \<Rightarrow> lexed" where
  "ref_tok v c xs =
     (if c = 0x7B then (yajl_tok_left_bracket, None, 1)
      else if c = 0x7D then (yajl_tok_right_bracket, None, 1)
      else if c = 0x5B then (yajl_tok_left_brace, None, 1)
      else if c = 0x5D then (yajl_tok_right_brace, None, 1)
      else if c = 0x2C then (yajl_tok_comma, None, 1)
      else if c = 0x3A then (yajl_tok_colon, None, 1)
      else if c = 0x74 then shift 1 (ref_keyword [0x72, 0x75, 0x65] yajl_tok_bool xs)
      else if c = 0x66 then shift 1 (ref_keyword [0x61, 0x6C, 0x73, 0x65] yajl_tok_bool xs)
      else if c = 0x6E then shift 1 (ref_keyword [0x75, 0x6C, 0x6C] yajl_tok_null xs)
      else if c = 0x22 then shift 1 (ref_string v False xs)
      else if c = 0x2D \<or> is_digit c then ref_number (c # xs)
      else (yajl_tok_error, Some yajl_lex_invalid_char, 1))"

text \<open>Blanks and comments are skipped; the first number is the length of what is skipped, the
  second the end of the token, both from the head of the list.\<close>

function ref_lex :: "bool \<Rightarrow> bool \<Rightarrow> bytes \<Rightarrow> nat \<times> lexed" where
  "ref_lex cm v [] = (0, yajl_tok_eof, None, 0)"
| "ref_lex cm v (c # xs) =
     (if is_space c then (let r = ref_lex cm v xs in (Suc (fst r), shift 1 (snd r)))
      else if c = 0x2F then
        (if \<not> cm then (0, yajl_tok_error, Some yajl_lex_unallowed_comment, 0)
         else (case ref_comment xs of
                 (t, e, k) \<Rightarrow>
                   if t = yajl_tok_comment
                   then (let r = ref_lex cm v (drop k xs) in (Suc k + fst r, shift (Suc k) (snd r)))
                   else (0, t, e, Suc k)))
      else (0, ref_tok v c xs))"
  by pat_completeness auto
termination by (relation "measure (\<lambda>(_, _, xs). length xs)") auto

declare ref_lex.simps(2) [simp del]

section \<open>Positions\<close>

text \<open>The characters the lexer sees from the start of its buffer, and the scan state at position
  \<open>p\<close> of them.\<close>

definition blen :: "yajl_lexer \<Rightarrow> nat" where
  "blen l = (if bufInUse l then buf_used (lex_buf l) else 0)"

definition ftext :: "yajl_lexer \<Rightarrow> bytes \<Rightarrow> bytes" where
  "ftext l t = (if bufInUse l then buf_contents (lex_buf l) else []) @ t"

definition at_pos :: "yajl_lexer \<Rightarrow> nat \<Rightarrow> scan" where
  "at_pos l p = (l\<lparr>bufOff := if bufInUse l then min p (blen l) else bufOff l\<rparr>, p - blen l)"

lemma length_ftext: "buf_ok (lex_buf l) \<Longrightarrow> length (ftext l t) = blen l + length t"
  by (simp add: ftext_def blen_def)

lemma readChar_at:
  assumes "buf_ok (lex_buf l)" "p < length (ftext l t)"
  shows "readChar t (at_pos l p) = Some (ftext l t ! p, at_pos l (Suc p))"
proof (cases "bufInUse l \<and> p < blen l")
  case True
  then have "bufInUse l" "p < buf_used (lex_buf l)" by (simp_all add: blen_def split: if_splits)
  then show ?thesis using assms(1)
    by (simp add: readChar_def at_pos_def buffered_def blen_def yajl_buf_len_def ftext_def
        buf_read_contents nth_append min_def Suc_le_eq)
next
  case False
  then show ?thesis using assms
    by (cases "bufInUse l")
      (auto simp: readChar_def at_pos_def buffered_def blen_def yajl_buf_len_def ftext_def
        nth_append Suc_diff_le not_less Let_def)
qed

lemma unreadChar_at: "unreadChar (at_pos l (Suc p)) = at_pos l p"
  by (auto simp: unreadChar_def at_pos_def min_def Let_def blen_def split: if_splits)

lemma set_error_at: "set_error e (at_pos l p) = at_pos (l\<lparr>lex_error := e\<rparr>) p"
  by (simp add: set_error_def at_pos_def blen_def)

text \<open>The outcome of a reference function as one of the code's.\<close>

definition res :: "yajl_lexer \<Rightarrow> nat \<Rightarrow> lexed \<Rightarrow> (yajl_tok \<times> scan) option" where
  "res l p r =
     Some (fst r, at_pos (case fst (snd r) of None \<Rightarrow> l | Some e \<Rightarrow> l\<lparr>lex_error := e\<rparr>)
                         (p + snd (snd r)))"

lemma res_simps [simp]:
  "res l p (t, None, k) = Some (t, at_pos l (p + k))"
  "res l p (t, Some e, k) = Some (t, at_pos (l\<lparr>lex_error := e\<rparr>) (p + k))"
  by (simp_all add: res_def)

lemma res_shift: "res l p (shift n r) = res l (p + n) r"
  by (simp add: res_def add.assoc)

lemma at_pos_fields [simp]:
  "validateUTF8 (fst (at_pos l p)) = validateUTF8 l"
  "allowComments (fst (at_pos l p)) = allowComments l"
  by (simp_all add: at_pos_def)

text \<open>The setting of the simulation: the rest of the input at \<open>p\<close> is \<open>xs\<close>.\<close>

definition seen :: "yajl_lexer \<Rightarrow> bytes \<Rightarrow> nat \<Rightarrow> bytes \<Rightarrow> bool" where
  "seen l t p xs \<longleftrightarrow>
     buf_ok (lex_buf l) \<and> t \<noteq> [] \<and> p \<le> length (ftext l t) \<and> xs = drop p (ftext l t)"

lemma seen_at_eof: "seen l t p xs \<Longrightarrow> at_eof (length t) (at_pos l p) \<longleftrightarrow> xs = []"
  by (cases t) (auto simp: seen_def at_eof_def at_pos_def length_ftext)

lemma seen_Cons:
  assumes "seen l t p (c # xs)"
  shows "seen l t (Suc p) xs" "p < length (ftext l t)" "ftext l t ! p = c"
proof -
  have d: "drop p (ftext l t) = c # xs" using assms by (simp add: seen_def)
  show p: "p < length (ftext l t)"
    by (rule ccontr) (use d in simp)
  show "ftext l t ! p = c" "seen l t (Suc p) xs"
    using d p assms by (auto simp: seen_def drop_nth_Cons)
qed

lemma seen_drop: "seen l t p xs \<Longrightarrow> n \<le> length xs \<Longrightarrow> seen l t (p + n) (drop n xs)"
  by (auto simp: seen_def add.commute)

lemma seen_error: "seen (l\<lparr>lex_error := e\<rparr>) t p xs \<longleftrightarrow> seen l t p xs"
  by (simp add: seen_def ftext_def)

lemma with_char_at:
  assumes "seen l t p xs"
  shows "with_char t (length t) (at_pos l p) k =
    (case xs of [] \<Rightarrow> Some (yajl_tok_eof, at_pos l p) | c # ys \<Rightarrow> k c (at_pos l (Suc p)))"
proof (cases xs)
  case Nil
  then show ?thesis using seen_at_eof [OF assms] by (simp add: with_char_def)
next
  case (Cons c ys)
  with assms have s: "seen l t p (c # ys)" by simp
  have "readChar t (at_pos l p) = Some (c, at_pos l (Suc p))"
    using readChar_at [OF _ seen_Cons(2) [OF s]] seen_Cons(3) [OF s] s by (simp add: seen_def)
  then show ?thesis using seen_at_eof [OF s] Cons by (simp add: with_char_def)
qed

section \<open>The streaming functions implement the reference\<close>

lemma lex_utf8_tail_at:
  "seen l t p xs \<Longrightarrow>
   lex_utf8_tail n t (length t) (at_pos l p) =
     Some (fst (ref_tail n xs), at_pos l (p + snd (ref_tail n xs)))"
  by (induction n xs arbitrary: p rule: ref_tail.induct)
    (auto simp: with_char_at dest: seen_Cons(1))

lemma yajl_lex_utf8_char_at:
  "seen l t p xs \<Longrightarrow>
   yajl_lex_utf8_char t (length t) (at_pos l p) c =
     Some (fst (ref_utf8 c xs), at_pos l (p + snd (ref_utf8 c xs)))"
  by (simp add: yajl_lex_utf8_char_def ref_utf8_def utf8_len_def lex_utf8_tail_at
      del: lex_utf8_tail.simps)

lemma ref_tail_le: "snd (ref_tail n xs) \<le> length xs"
  by (induction n xs rule: ref_tail.induct) auto

lemma ref_utf8_le: "snd (ref_utf8 c xs) \<le> length xs"
  by (auto simp: ref_utf8_def ref_tail_le split: option.splits)

lemma lex_hex4_at:
  "seen l t p xs \<Longrightarrow>
   lex_hex4 n t (length t) (at_pos l p) k =
     (let m = length (takeWhile is_hex (take n xs)) in
      if m = n then k (at_pos l (p + n))
      else if m = length xs then Some (yajl_tok_eof, at_pos l (p + m))
      else Some (yajl_tok_error,
                 at_pos (l\<lparr>lex_error := yajl_lex_string_invalid_hex_char\<rparr>) (p + m)))"
proof (induction n arbitrary: p xs)
  case (Suc n)
  show ?case
  proof (cases xs)
    case Nil
    then show ?thesis using Suc.prems by (simp add: with_char_at)
  next
    case (Cons c ys)
    then show ?thesis
      using Suc.prems Suc.IH [OF seen_Cons(1) [of l t p c ys]]
      by (auto simp: with_char_at unreadChar_at set_error_at is_hex_def Let_def)
  qed
qed simp

text \<open>The fast scan skips bytes the loop would take one by one.\<close>

definition skip_mask :: "bool \<Rightarrow> byte" where
  "skip_mask v = IJC OR NFP OR (if v then NUC else 0)"

definition plain :: "bool \<Rightarrow> byte \<Rightarrow> bool" where
  "plain v c \<longleftrightarrow> charLookup c AND skip_mask v = 0"

lemma table_plain:
  "list_all (\<lambda>(n, w). w AND skip_mask False = 0 \<longrightarrow>
       n \<noteq> 0x22 \<and> n \<noteq> 0x5C \<and> w AND IJC = 0 \<and> (w AND NUC = 0 \<longrightarrow> n < 0x80))
     (zip [0..<256] charLookupTable)"
  by code_simp

lemma length_table: "length charLookupTable = 256"
  by (simp add: charLookupTable_def)

lemma byte_in_table: "(unat (c :: byte), charLookup c) \<in> set (zip [0..<256] charLookupTable)"
  by (auto simp: set_zip length_table charLookup_def intro!: exI [of _ "unat c"])

lemma and_or_zero: "w AND (a OR b) = 0 \<longleftrightarrow> w AND a = 0 \<and> w AND b = (0 :: byte)"
  by (simp add: bit.conj_disj_distrib or_eq_0_iff)

lemma plainD:
  assumes "plain v c"
  shows "c \<noteq> 0x22" "c \<noteq> 0x5C" "charLookup c AND IJC = 0" "v \<Longrightarrow> ref_utf8 c xs = (yajl_tok_string, 0)"
proof -
  have f: "charLookup c AND skip_mask False = 0" "v \<Longrightarrow> charLookup c AND NUC = 0"
    using assms by (auto simp: plain_def skip_mask_def and_or_zero split: if_splits)
  have *: "unat c \<noteq> 0x22 \<and> unat c \<noteq> 0x5C \<and> charLookup c AND IJC = 0 \<and>
      (charLookup c AND NUC = 0 \<longrightarrow> unat c < 0x80)"
    using table_plain [unfolded list_all_iff] byte_in_table [of c] f(1) by blast
  show "c \<noteq> 0x22" "c \<noteq> 0x5C" "charLookup c AND IJC = 0" using * by auto
  show "ref_utf8 c xs = (yajl_tok_string, 0)" if v
    using * f(2) [OF that] by (simp add: ref_utf8_def utf8_len_def byte_le_iff)
qed

lemma ref_string_plain:
  "plain v c \<Longrightarrow> ref_string v esc (c # xs) = shift 1 (ref_string v esc xs)"
  by (cases v) (simp_all add: ref_string.simps(2) plainD)

lemma ref_string_skip:
  "k \<le> length xs \<Longrightarrow> list_all (plain v) (take k xs) \<Longrightarrow>
   ref_string v esc xs = shift k (ref_string v esc (drop k xs))"
proof (induction k arbitrary: xs)
  case (Suc k)
  then show ?case by (cases xs) (auto simp: ref_string_plain)
qed simp

lemma yajl_string_scan_at:
  "(\<forall>i < length ys. get (p + i) = Some (ys ! i)) \<Longrightarrow>
   yajl_string_scan get p (length ys) m =
     Some (length (takeWhile (\<lambda>c. charLookup c AND m = 0) ys))"
proof (induction ys arbitrary: p)
  case (Cons y ys)
  have "get p = Some y" using Cons.prems by (auto dest: spec [of _ 0])
  moreover have "\<forall>i < length ys. get (Suc p + i) = Some (ys ! i)"
    using Cons.prems by (auto dest: spec [of _ "Suc i" for i])
  ultimately show ?case using Cons.IH [of "Suc p"] by simp
qed simp

lemma takeWhile_list_all: "list_all P (take (length (takeWhile P ys)) (ys @ zs))"
  by (induction ys) auto

lemma lex_string_skip_at:
  assumes "seen l t p xs"
  obtains k where "k \<le> length xs" "list_all (plain (validateUTF8 l)) (take k xs)"
    "lex_string_skip t (length t) (at_pos l p) = Some (at_pos l (p + k))"
proof (cases "bufInUse l \<and> p < blen l")
  case True
  let ?ys = "drop p (buf_contents (lex_buf l))"
  let ?k = "length (takeWhile (plain (validateUTF8 l)) ?ys)"
  have b: "buf_ok (lex_buf l)" "p < buf_used (lex_buf l)" "bufInUse l"
    using assms True by (simp_all add: seen_def blen_def split: if_splits)
  have xs: "xs = ?ys @ t" using assms b by (simp add: seen_def ftext_def)
  have k: "?k \<le> length ?ys" by (rule length_takeWhile_le)
  have "yajl_string_scan (buf_read (lex_buf l)) p (length ?ys) (skip_mask (validateUTF8 l)) = Some ?k"
    using b by (subst yajl_string_scan_at) (simp_all add: buf_read_contents plain_def [abs_def])
  then have "lex_string_skip t (length t) (at_pos l p) = Some (at_pos l (p + ?k))"
    using b k by (simp add: lex_string_skip_def at_pos_def blen_def buffered_def
      yajl_buf_len_def skip_mask_def min_def)
  moreover have "list_all (plain (validateUTF8 l)) (take ?k xs)"
    unfolding xs by (rule takeWhile_list_all)
  ultimately show ?thesis using that [of ?k] k xs by simp
next
  case False
  let ?k = "length (takeWhile (plain (validateUTF8 l)) xs)"
  have xs: "xs = drop (p - blen l) t" and off: "\<not> buffered (fst (at_pos l p))"
    using assms False
    by (auto simp: seen_def ftext_def blen_def buffered_def at_pos_def yajl_buf_len_def)
  have k: "?k \<le> length xs" by (rule length_takeWhile_le)
  have bl: "bufInUse l \<longrightarrow> blen l \<le> p" "\<not> bufInUse l \<longrightarrow> blen l = 0"
    using False by (auto simp: blen_def)
  have "lex_string_skip t (length t) (at_pos l p) = Some (at_pos l (p + ?k))"
  proof (cases "p - blen l < length t")
    case True
    have "yajl_string_scan (rd t) (p - blen l) (length xs) (skip_mask (validateUTF8 l)) = Some ?k"
      using xs by (subst yajl_string_scan_at) (simp_all add: plain_def [abs_def])
    moreover have "at_pos l (p + ?k) =
        ((fst (at_pos l p)), p - blen l + ?k)"
      using bl by (auto simp: at_pos_def min_absorb2)
    ultimately show ?thesis using True off xs
      by (simp add: lex_string_skip_def skip_mask_def Let_def at_pos_def)
  next
    case False
    then show ?thesis using off xs by (simp add: lex_string_skip_def at_pos_def Let_def)
  qed
  then show ?thesis using that [of ?k] k takeWhile_list_all [of "plain (validateUTF8 l)" xs "[]"]
    by simp
qed

lemma ref_hex_le: "ref_hex xs \<le> length xs" "ref_hex xs \<le> 4"
proof -
  have "ref_hex xs \<le> length (take 4 xs)" unfolding ref_hex_def by (rule length_takeWhile_le)
  then show "ref_hex xs \<le> length xs" "ref_hex xs \<le> 4" by simp_all
qed

lemma lex_string_loop_at:
  "seen l t p xs \<Longrightarrow>
   lex_string_loop t (length t) esc (at_pos l p) = res l p (ref_string (validateUTF8 l) esc xs)"
proof (induction "length xs" arbitrary: xs p esc rule: less_induct)
  case less
  let ?v = "validateUTF8 l"
  obtain k where k: "k \<le> length xs" "list_all (plain ?v) (take k xs)"
    and skip: "lex_string_skip t (length t) (at_pos l p) = Some (at_pos l (p + k))"
    using lex_string_skip_at [OF less.prems] .
  define zs q where "zs = drop k xs" and "q = p + k"
  have s: "seen l t q zs" unfolding zs_def q_def by (rule seen_drop) (use less.prems k in simp_all)
  have len: "length zs \<le> length xs" by (simp add: zs_def)
  have rs: "res l p (ref_string ?v esc xs) = res l q (ref_string ?v esc zs)"
    by (simp add: ref_string_skip [OF k] res_shift zs_def q_def)
  have IH: "lex_string_loop t (length t) e (at_pos l j) = res l j (ref_string ?v e us)"
    if "length us < length xs" "seen l t j us" for us j e
    using less.hyps that by simp
  show ?case
  proof (cases zs)
    case Nil
    then show ?thesis unfolding rs
      by (subst lex_string_loop.simps) (use s in \<open>simp add: skip q_def with_char_at\<close>)
  next
    case (Cons c ys)
    then have sc: "seen l t (Suc q) ys" and ly: "length ys < length xs"
      using s len seen_Cons(1) by auto
    have hex: "lex_hex4 4 t (length t) (at_pos l (Suc (Suc q))) (lex_string_loop t (length t) True)
        = res l q (if ref_hex us = 4 then shift 6 (ref_string ?v True (drop 4 us))
           else if ref_hex us = length us then (yajl_tok_eof, None, 2 + length us)
           else (yajl_tok_error, Some yajl_lex_string_invalid_hex_char, 2 + ref_hex us))"
      if "seen l t (Suc (Suc q)) us" "length us < length ys" for us
    proof (cases "ref_hex us = 4")
      case True
      have "4 \<le> length us" using True ref_hex_le(1) [of us] by simp
      then have "seen l t (Suc (Suc q) + 4) (drop 4 us)" by (rule seen_drop [OF that(1)])
      then have "lex_string_loop t (length t) True (at_pos l (Suc (Suc q) + 4)) =
          res l (Suc (Suc q) + 4) (ref_string ?v True (drop 4 us))"
        by (rule IH [rotated]) (use that ly in simp)
      then show ?thesis
        using True by (simp add: lex_hex4_at [OF that(1)] ref_hex_def Let_def res_shift add.commute)
    next
      case False
      then show ?thesis
        by (auto simp: lex_hex4_at [OF that(1)] ref_hex_def Let_def add.commute add.left_commute)
    qed
    have esc_case: "(case ys of [] \<Rightarrow> Some (yajl_tok_eof, at_pos l (Suc q))
        | d # us \<Rightarrow> if d = 0x75
            then lex_hex4 4 t (length t) (at_pos l (Suc (Suc q))) (lex_string_loop t (length t) True)
            else if charLookup d AND VEC = 0
            then Some (yajl_tok_error,
              set_error yajl_lex_string_invalid_escaped_char (unreadChar (at_pos l (Suc (Suc q)))))
            else lex_string_loop t (length t) True (at_pos l (Suc (Suc q))))
        = res l q (ref_string ?v esc zs)" if "c = 0x5C"
    proof (cases ys)
      case Nil
      then show ?thesis using that Cons by (simp add: ref_string.simps(2))
    next
      case us: (Cons d us)
      have su: "seen l t (Suc (Suc q)) us" using seen_Cons(1) [of l t "Suc q" d us] sc us by simp
      have "lex_string_loop t (length t) True (at_pos l (Suc (Suc q))) =
          res l (Suc (Suc q)) (ref_string ?v True us)"
        by (rule IH [OF _ su]) (use us ly in simp)
      then show ?thesis
        using that Cons us hex [OF su] unreadChar_at [of l "Suc q"]
        by (simp add: ref_string.simps(2) set_error_at res_shift)
    qed
    show ?thesis
    proof (cases "c = 0x5C")
      case True
      then show ?thesis unfolding rs esc_case [OF True, symmetric] 
        by (subst lex_string_loop.simps)
          (use s sc Cons in \<open>simp add: skip q_def [symmetric] with_char_at\<close>)
    next
      case False
      have "lex_string_loop t (length t) esc (at_pos l (Suc q)) =
          res l (Suc q) (ref_string ?v esc ys)"
        by (rule IH [OF ly sc])
      moreover have "lex_string_loop t (length t) esc (at_pos l (Suc q + snd (ref_utf8 c ys))) =
          res l (Suc q + snd (ref_utf8 c ys)) (ref_string ?v esc (drop (snd (ref_utf8 c ys)) ys))"
        by (rule IH [OF _ seen_drop [OF sc ref_utf8_le]]) (use ly in simp)
      ultimately show ?thesis unfolding rs
        by (subst lex_string_loop.simps)
          (use s sc Cons False in \<open>simp add: skip q_def [symmetric] with_char_at unreadChar_at
            set_error_at ref_string.simps(2) yajl_lex_utf8_char_at res_shift split: prod.split\<close>)
    qed
  qed
qed

lemma ref_digits_Cons [simp]:
  "ref_digits (c # xs) = (if is_digit c then Suc (ref_digits xs) else 0)"
  "ref_digits [] = 0"
  by (simp_all add: ref_digits_def)

lemma ref_digits_le: "ref_digits xs \<le> length xs"
  by (simp add: ref_digits_def length_takeWhile_le)

lemma drop_ref_digits:
  "drop (ref_digits xs) xs = [] \<longleftrightarrow> ref_digits xs = length xs"
  using ref_digits_le [of xs] by auto

text \<open>One character, or a run of digits and one more character, in front of a function that
  implements \<open>f\<close>.\<close>

lemma with_char_ref:
  assumes "seen l t q xs" "f [] = (yajl_tok_eof, None, 0)"
    and "\<And>c ys. xs = c # ys \<Longrightarrow> k c (at_pos l (Suc q)) = res l q (f (c # ys))"
  shows "with_char t (length t) (at_pos l q) k = res l q (f xs)"
  using assms by (cases xs) (simp_all add: with_char_at)

lemma lex_digits_ref:
  assumes "seen l t q xs" "f [] = (yajl_tok_eof, None, 0)"
    and k: "\<And>j c ys. seen l t j (c # ys) \<Longrightarrow> k c (at_pos l (Suc j)) = res l j (f (c # ys))"
  shows "lex_digits t (length t) (at_pos l q) k =
    res l q (shift (ref_digits xs) (f (drop (ref_digits xs) xs)))"
  using assms(1)
proof (induction xs arbitrary: q)
  case Nil
  then show ?case by (subst lex_digits.simps) (simp add: with_char_at assms(2))
next
  case (Cons c xs)
  show ?case
    by (subst lex_digits.simps)
      (use Cons.IH [OF seen_Cons(1) [OF Cons.prems]] k [OF Cons.prems] Cons.prems in
        \<open>simp add: with_char_at res_shift\<close>)
qed

lemma lex_num_end_at: "lex_num_end tok c (at_pos l (Suc q)) = Some (tok, at_pos l q)"
  by (simp add: lex_num_end_def unreadChar_at)

definition ref_end :: "yajl_tok \<Rightarrow> bytes \<Rightarrow> lexed" where
  "ref_end tok xs = (if xs = [] then yajl_tok_eof else tok, None, 0)"

lemma lex_exp_digits_at:
  assumes "seen l t q (c # ys)"
  shows "lex_exp_digits t (length t) c (at_pos l (Suc q)) = res l q (ref_exp_digits (c # ys))"
proof -
  have "lex_digits t (length t) (at_pos l (Suc q)) (lex_num_end yajl_tok_double) =
      res l (Suc q) (shift (ref_digits ys) (ref_end yajl_tok_double (drop (ref_digits ys) ys)))"
    by (rule lex_digits_ref [OF seen_Cons(1) [OF assms]]) (simp_all add: ref_end_def lex_num_end_at)
  then show ?thesis using ref_digits_le [of ys]
    by (auto simp: lex_exp_digits_def ref_exp_digits_def ref_end_def unreadChar_at set_error_at)
qed

lemma lex_exponent_at:
  assumes "seen l t q (c # ys)"
  shows "lex_exponent t (length t) tok c (at_pos l (Suc q)) = res l q (ref_exponent tok (c # ys))"
proof -
  have s: "seen l t (Suc q) ys" by (rule seen_Cons(1) [OF assms])
  let ?f = "\<lambda>zs. case zs of [] \<Rightarrow> (yajl_tok_eof, None, 0)
    | d # us \<Rightarrow> if d = 0x2B \<or> d = 0x2D then shift 1 (ref_exp_digits us) else ref_exp_digits zs"
  have "with_char t (length t) (at_pos l (Suc q)) (\<lambda>c1 s1.
      if c1 = 0x2B \<or> c1 = 0x2D then with_char t (length t) s1 (lex_exp_digits t (length t))
      else lex_exp_digits t (length t) c1 s1) = res l (Suc q) (?f ys)"
  proof (rule with_char_ref [OF s])
    fix d us assume ys: "ys = d # us"
    then have s1: "seen l t (Suc q) (d # us)" "seen l t (Suc (Suc q)) us"
      using s seen_Cons(1) by auto
    have "with_char t (length t) (at_pos l (Suc (Suc q))) (lex_exp_digits t (length t))
        = res l (Suc (Suc q)) (ref_exp_digits us)"
      by (rule with_char_ref [OF s1(2)])
        (use lex_exp_digits_at s1(2) in \<open>auto simp: ref_exp_digits_def Let_def\<close>)
    then show "(if d = 0x2B \<or> d = 0x2D
        then with_char t (length t) (at_pos l (Suc (Suc q))) (lex_exp_digits t (length t))
        else lex_exp_digits t (length t) d (at_pos l (Suc (Suc q)))) = res l (Suc q) (?f (d # us))"
      by (simp add: lex_exp_digits_at [OF s1(1)] res_shift)
  qed simp
  then show ?thesis
    by (simp add: lex_exponent_def ref_exponent_def lex_num_end_at res_shift split: list.split)
qed

lemma lex_fraction_at:
  assumes "seen l t q (c # ys)"
  shows "lex_fraction t (length t) c (at_pos l (Suc q)) = res l q (ref_fraction (c # ys))"
proof -
  have s: "seen l t (Suc q) ys" by (rule seen_Cons(1) [OF assms])
  let ?f = "\<lambda>ys. if ref_digits ys = 0 \<and> ys \<noteq> []
    then (yajl_tok_error, Some yajl_lex_missing_integer_after_decimal, 0)
    else shift (ref_digits ys) (ref_exponent yajl_tok_double (drop (ref_digits ys) ys))"
  have "with_char t (length t) (at_pos l (Suc q)) (\<lambda>c1 s1.
      if is_digit c1 then lex_digits t (length t) s1 (lex_exponent t (length t) yajl_tok_double)
      else Some (yajl_tok_error, set_error yajl_lex_missing_integer_after_decimal (unreadChar s1)))
    = res l (Suc q) (?f ys)"
  proof (rule with_char_ref [OF s])
    fix d us assume ys: "ys = d # us"
    have "lex_digits t (length t) (at_pos l (Suc (Suc q))) (lex_exponent t (length t) yajl_tok_double)
      = res l (Suc (Suc q)) (shift (ref_digits us) (ref_exponent yajl_tok_double (drop (ref_digits us) us)))"
      by (rule lex_digits_ref)
        (use s ys seen_Cons(1) lex_exponent_at in \<open>auto simp: ref_exponent_def\<close>)
    then show "(if is_digit d
        then lex_digits t (length t) (at_pos l (Suc (Suc q))) (lex_exponent t (length t) yajl_tok_double)
        else Some (yajl_tok_error, set_error yajl_lex_missing_integer_after_decimal
               (unreadChar (at_pos l (Suc (Suc q)))))) = res l (Suc q) (?f (d # us))"
      by (simp add: unreadChar_at set_error_at res_shift)
  qed (simp add: ref_exponent_def)
  then show ?thesis
    by (auto simp: lex_fraction_def ref_fraction_def lex_exponent_at [OF assms] res_shift Let_def)
qed

lemma is_digit_nonzero: "c \<noteq> 0x30 \<Longrightarrow> 0x31 \<le> c \<and> c \<le> 0x39 \<longleftrightarrow> is_digit c"
  unfolding is_digit_def by unat_arith

lemma lex_integer_part_at:
  assumes "seen l t q (c # ys)"
  shows "lex_integer_part t (length t) c (at_pos l (Suc q)) = res l q (ref_integer (c # ys))"
proof -
  have s: "seen l t (Suc q) ys" by (rule seen_Cons(1) [OF assms])
  have "with_char t (length t) (at_pos l (Suc q)) (lex_fraction t (length t))
      = res l (Suc q) (ref_fraction ys)"
    by (rule with_char_ref [OF s]) (use s lex_fraction_at in \<open>auto simp: ref_fraction_def\<close>)
  moreover have "lex_digits t (length t) (at_pos l (Suc q)) (lex_fraction t (length t))
      = res l (Suc q) (shift (ref_digits ys) (ref_fraction (drop (ref_digits ys) ys)))"
    by (rule lex_digits_ref [OF s]) (auto simp: ref_fraction_def lex_fraction_at)
  ultimately show ?thesis
    by (simp add: lex_integer_part_def ref_integer_def is_digit_nonzero res_shift unreadChar_at
        set_error_at)
qed

lemma yajl_lex_number_at:
  assumes "seen l t q xs"
  shows "yajl_lex_number t (length t) (at_pos l q) = res l q (ref_number xs)"
  unfolding yajl_lex_number_def
proof (rule with_char_ref [OF assms])
  fix c ys assume xs: "xs = c # ys"
  then have s: "seen l t q (c # ys)" "seen l t (Suc q) ys" using assms seen_Cons(1) by auto
  have "with_char t (length t) (at_pos l (Suc q)) (lex_integer_part t (length t))
      = res l (Suc q) (ref_integer ys)"
    by (rule with_char_ref [OF s(2)]) (use s lex_integer_part_at in \<open>auto simp: ref_integer_def\<close>)
  then show "(if c = 0x2D
      then with_char t (length t) (at_pos l (Suc q)) (lex_integer_part t (length t))
      else lex_integer_part t (length t) c (at_pos l (Suc q))) = res l q (ref_number (c # ys))"
    by (simp add: ref_number_def lex_integer_part_at [OF s(1)] res_shift)
qed (simp add: ref_number_def)

text \<open>Comments and literals.\<close>

lemma lex_line_comment_at:
  "seen l t q xs \<Longrightarrow> lex_line_comment t (length t) (at_pos l q) = res l q (ref_line xs)"
proof (induction xs arbitrary: q)
  case Nil
  then show ?case by (subst lex_line_comment.simps) (simp add: with_char_at ref_line_def)
next
  case (Cons c xs)
  show ?case
    by (subst lex_line_comment.simps)
      (use Cons.IH [OF seen_Cons(1) [OF Cons.prems]] Cons.prems in
        \<open>simp add: with_char_at ref_line_def Let_def\<close>)
qed

lemma lex_block_comment_at:
  "seen l t q xs \<Longrightarrow> lex_block_comment t (length t) (at_pos l q) = res l q (ref_block xs)"
proof (induction xs arbitrary: q rule: ref_block.induct)
  case (1 q)
  then show ?case by (subst lex_block_comment.simps) (simp add: with_char_at)
next
  case (2 c xs)
  have s: "seen l t (Suc q) xs" by (rule seen_Cons(1) [OF 2(3)])
  have IH: "c = 0x2A \<Longrightarrow> xs = d # ys \<Longrightarrow> d \<noteq> 0x2F \<Longrightarrow>
      lex_block_comment t (length t) (at_pos l (Suc q)) = res l (Suc q) (ref_block (d # ys))" for d ys
    using 2(1) [of d ys "Suc q"] s by simp
  show ?case
    by (subst lex_block_comment.simps)
      (use IH 2(2) [OF _ s] s 2(3) in
        \<open>auto simp: with_char_at unreadChar_at res_shift split: list.split\<close>)
qed

lemma yajl_lex_comment_at:
  assumes "seen l t q xs"
  shows "yajl_lex_comment t (length t) (at_pos l q) = res l q (ref_comment xs)"
  unfolding yajl_lex_comment_def
  by (rule with_char_ref [OF assms])
    (use assms seen_Cons(1) in \<open>auto simp: ref_comment_def lex_line_comment_at lex_block_comment_at
      res_shift set_error_at\<close>)

lemma lex_keyword_at:
  "seen l t q xs \<Longrightarrow> lex_keyword want tok t (length t) (at_pos l q) = res l q (ref_keyword want tok xs)"
  by (induction want tok xs arbitrary: q rule: ref_keyword.induct)
    (auto simp: with_char_at unreadChar_at set_error_at res_shift dest: seen_Cons(1))

lemma lex_first_char_at:
  assumes "seen l t q (c # xs)"
  shows "lex_first_char t (length t) c (at_pos l (Suc q)) = res l q (ref_tok (validateUTF8 l) c xs)"
proof -
  have s: "seen l t (Suc q) xs" by (rule seen_Cons(1) [OF assms])
  show ?thesis
    by (simp add: lex_first_char_def ref_tok_def lex_keyword_at [OF s] yajl_lex_string_def
        lex_string_loop_at [OF s] unreadChar_at yajl_lex_number_at [OF assms] res_shift set_error_at
        del: lex_keyword.simps ref_keyword.simps)
qed

section \<open>Incremental lexers\<close>

text \<open>
  What lets a lexer work on chunks: it never consumes more than it is given; \<open>yajl_tok_eof\<close> means
  that all of it was consumed without an error; any other token is final; and a token that was
  not yet complete ends beyond the input seen so far.
\<close>

locale incremental =
  fixes f :: "bytes \<Rightarrow> lexed"
  assumes within: "snd (snd (f xs)) \<le> length xs"
    and at_end: "fst (f xs) = yajl_tok_eof \<Longrightarrow> f xs = (yajl_tok_eof, None, length xs)"
    and settled: "fst (f xs) \<noteq> yajl_tok_eof \<Longrightarrow> f (xs @ ys) = f xs"
    and pending: "fst (f xs) = yajl_tok_eof \<Longrightarrow> length xs \<le> snd (snd (f (xs @ ys)))"

definition incr_on :: "(bytes \<Rightarrow> lexed) \<Rightarrow> bytes \<Rightarrow> bool" where
  "incr_on f xs \<longleftrightarrow>
     snd (snd (f xs)) \<le> length xs \<and>
     (if fst (f xs) = yajl_tok_eof
      then f xs = (yajl_tok_eof, None, length xs) \<and> (\<forall>ys. length xs \<le> snd (snd (f (xs @ ys))))
      else \<forall>ys. f (xs @ ys) = f xs)"

lemma incremental_iff: "incremental f \<longleftrightarrow> (\<forall>xs. incr_on f xs)"
  by (auto simp: incremental_def incr_on_def)

lemma incrementalI: "(\<And>xs. incr_on f xs) \<Longrightarrow> incremental f"
  by (simp add: incremental_iff)

lemma ref_Nil [simp]:
  "ref_exponent tok [] = (yajl_tok_eof, None, 0)" "ref_fraction [] = (yajl_tok_eof, None, 0)"
  "ref_integer [] = (yajl_tok_eof, None, 0)" "ref_number [] = (yajl_tok_eof, None, 0)"
  "ref_comment [] = (yajl_tok_eof, None, 0)"
  by (simp_all add: ref_exponent_def ref_fraction_def ref_integer_def ref_number_def ref_comment_def)

text \<open>The three ways a lexer answers: at the end of the input, at once, or as another lexer does
  after some bytes.\<close>

lemma incr_eof:
  "f xs = (yajl_tok_eof, None, length xs) \<Longrightarrow> (\<And>ys. length xs \<le> snd (snd (f (xs @ ys)))) \<Longrightarrow> incr_on f xs"
  by (simp add: incr_on_def)

lemma incr_Nil: "f [] = (yajl_tok_eof, None, 0) \<Longrightarrow> incr_on f []"
  by (simp add: incr_on_def)

lemma incr_now:
  "(\<And>ys. f (xs @ ys) = r) \<Longrightarrow> fst r \<noteq> yajl_tok_eof \<Longrightarrow> snd (snd r) \<le> length xs \<Longrightarrow> incr_on f xs"
  using append_Nil2 [of xs] by (metis incr_on_def)

lemma incr_step:
  assumes f: "\<And>ys. f (xs @ ys) = shift n (g (zs @ ys))" and zs: "length xs = n + length zs"
    and g: "incr_on g zs"
  shows "incr_on f xs"
proof -
  have "f xs = shift n (g zs)" using f [of "[]"] by simp
  then show ?thesis using g f zs by (auto simp: incr_on_def)
qed

lemma ref_digits_append:
  "ref_digits (xs @ ys) = (if ref_digits xs = length xs then length xs + ref_digits ys else ref_digits xs)"
  using ref_digits_le [of xs] by (induction xs) (auto simp: ref_digits_le)

lemma incr_digits:
  assumes g: "g [] = (yajl_tok_eof, None, 0)" "\<And>zs. incr_on g zs"
  shows "incr_on (\<lambda>xs. shift (ref_digits xs) (g (drop (ref_digits xs) xs))) xs"
proof (cases "ref_digits xs = length xs")
  case True
  then show ?thesis by (intro incr_eof) (simp_all add: g ref_digits_append)
next
  case False
  then show ?thesis
    by (intro incr_step [OF _ _ g(2) [of "drop (ref_digits xs) xs"], of _ _ "ref_digits xs"])
      (use ref_digits_le [of xs] in \<open>simp_all add: ref_digits_append\<close>)
qed

lemma incr_exp_digits: "incr_on ref_exp_digits xs"
proof (cases "ref_digits xs = length xs")
  case True
  then show ?thesis
    by (intro incr_eof) (auto simp: ref_exp_digits_def Let_def ref_digits_append)
next
  case False
  then show ?thesis using ref_digits_le [of xs]
    by (intro incr_now [where r = "ref_exp_digits xs"])
      (auto simp: ref_exp_digits_def Let_def ref_digits_append)
qed

lemma incr_exponent:
  assumes "tok \<noteq> yajl_tok_eof"
  shows "incr_on (ref_exponent tok) xs"
proof (cases xs)
  case (Cons c ys)
  show ?thesis
  proof (cases "c = 0x65 \<or> c = 0x45")
    case e: True
    show ?thesis
    proof (cases ys)
      case Nil
      then show ?thesis using e Cons by (intro incr_eof) (auto simp: ref_exponent_def split: list.split)
    next
      case ys: (Cons d zs)
      show ?thesis
      proof (cases "d = 0x2B \<or> d = 0x2D")
        case True
        then show ?thesis using Cons ys e
          by (intro incr_step [OF _ _ incr_exp_digits [of zs], of _ _ 2]) (auto simp: ref_exponent_def)
      next
        case False
        then show ?thesis using Cons ys e
          by (intro incr_step [OF _ _ incr_exp_digits [of ys], of _ _ 1]) (auto simp: ref_exponent_def)
      qed
    qed
  next
    case False
    then show ?thesis using Cons assms
      by (intro incr_now [where r = "(tok, None, 0)"]) (simp_all add: ref_exponent_def)
  qed
qed (simp add: incr_Nil ref_exponent_def)

lemma incr_fraction: "incr_on ref_fraction xs"
proof (cases xs)
  case (Cons c ys)
  show ?thesis
  proof (cases "c = 0x2E")
    case dot: True
    show ?thesis
    proof (cases "ref_digits ys = 0 \<and> ys \<noteq> []")
      case True
      then show ?thesis using Cons dot
        by (intro incr_now [where r = "(yajl_tok_error, Some yajl_lex_missing_integer_after_decimal, 1)"])
          (auto simp: ref_fraction_def ref_digits_append)
    next
      case False
      have D: "incr_on (\<lambda>ys. shift (ref_digits ys) (ref_exponent yajl_tok_double (drop (ref_digits ys) ys))) ys"
        by (rule incr_digits) (simp_all add: incr_exponent)
      show ?thesis
      proof (cases "ys = []")
        case True
        then show ?thesis using Cons dot
          by (intro incr_eof) (auto simp: ref_fraction_def ref_exponent_def Let_def split: list.split)
      next
        case ne: False
        then show ?thesis using Cons dot False
          by (intro incr_step [OF _ _ D, of _ _ 1]) (auto simp: ref_fraction_def ref_digits_append Let_def)
      qed
    qed
  next
    case False
    then show ?thesis using Cons
      by (intro incr_step [OF _ _ incr_exponent [of yajl_tok_integer xs], of _ _ 0])
        (simp_all add: ref_fraction_def)
  qed
qed (simp add: incr_Nil ref_fraction_def)

lemma incr_integer: "incr_on ref_integer xs"
proof (cases xs)
  case (Cons c ys)
  have D: "incr_on (\<lambda>ys. shift (ref_digits ys) (ref_fraction (drop (ref_digits ys) ys))) xs"
    by (rule incr_digits) (simp_all add: incr_fraction)
  consider "c = 0x30" | "c \<noteq> 0x30" "is_digit c" | "\<not> is_digit c" "c \<noteq> 0x30" by blast
  then show ?thesis
  proof cases
    case 1
    then show ?thesis using Cons
      by (intro incr_step [OF _ _ incr_fraction [of ys], of _ _ 1]) (simp_all add: ref_integer_def)
  next
    case 2
    then show ?thesis using Cons
      by (intro incr_step [OF _ _ D, of _ _ 0]) (simp_all add: ref_integer_def)
  next
    case 3
    then show ?thesis using Cons
      by (intro incr_now [where r = "(yajl_tok_error, Some yajl_lex_missing_integer_after_minus, 0)"])
        (simp_all add: ref_integer_def)
  qed
qed (simp add: incr_Nil ref_integer_def)

lemma incr_number: "incr_on ref_number xs"
proof (cases xs)
  case (Cons c ys)
  show ?thesis
  proof (cases "c = 0x2D")
    case True
    then show ?thesis using Cons
      by (intro incr_step [OF _ _ incr_integer [of ys], of _ _ 1]) (simp_all add: ref_number_def)
  next
    case False
    then show ?thesis using Cons
      by (intro incr_step [OF _ _ incr_integer [of xs], of _ _ 0]) (simp_all add: ref_number_def)
  qed
qed (simp add: incr_Nil ref_number_def)

lemma incr_line: "incr_on ref_line xs"
proof (cases "0x0A \<in> set xs")
  case True
  then have "takeWhile (\<lambda>c. c \<noteq> 0x0A) (xs @ ys) = takeWhile (\<lambda>c. c \<noteq> 0x0A) xs" for ys
    by (simp add: takeWhile_append1)
  moreover have "length (takeWhile (\<lambda>c. c \<noteq> 0x0A) xs) < length xs" using True
    by (induction xs) auto
  ultimately show ?thesis
    by (intro incr_now [where r = "ref_line xs"]) (auto simp: ref_line_def Let_def)
next
  case False
  then have tw: "takeWhile (\<lambda>c. c \<noteq> 0x0A) (xs @ ys) = xs @ takeWhile (\<lambda>c. c \<noteq> 0x0A) ys" for ys
    by (subst takeWhile_append2) auto
  have "length (takeWhile (\<lambda>c. c \<noteq> 0x0A) xs) = length xs"
    using arg_cong [OF tw [of "[]"], of length] by (simp only: append_Nil2 takeWhile.simps)
  with tw show ?thesis by (intro incr_eof) (simp_all add: ref_line_def Let_def)
qed

lemma incr_block: "incr_on ref_block xs"
proof (induction xs rule: ref_block.induct)
  case 1
  then show ?case by (simp add: incr_Nil)
next
  case (2 c xs)
  show ?case
  proof (cases "c = 0x2A")
    case star: True
    show ?thesis
    proof (cases xs)
      case Nil
      then show ?thesis using star by (intro incr_eof) (auto split: list.split)
    next
      case (Cons d ys)
      show ?thesis
      proof (cases "d = 0x2F")
        case True
        then show ?thesis using star Cons
          by (intro incr_now [where r = "(yajl_tok_comment, None, 2)"]) simp_all
      next
        case False
        then show ?thesis using star Cons
          by (intro incr_step [OF _ _ 2(1) [OF star Cons False], of _ _ 1]) simp_all
      qed
    qed
  next
    case False
    then have "ref_block (c # xs @ ys) = shift 1 (ref_block (xs @ ys))" for ys by simp
    then show ?thesis
      by (intro incr_step [OF _ _ 2(2) [OF False], of _ _ 1]) simp_all
  qed
qed

lemma incr_comment: "incr_on ref_comment xs"
proof (cases xs)
  case (Cons c ys)
  consider "c = 0x2F" | "c = 0x2A" | "c \<noteq> 0x2F" "c \<noteq> 0x2A" by blast
  then show ?thesis
  proof cases
    case 1
    then show ?thesis using Cons
      by (intro incr_step [OF _ _ incr_line [of ys], of _ _ 1]) (simp_all add: ref_comment_def)
  next
    case 2
    then show ?thesis using Cons
      by (intro incr_step [OF _ _ incr_block [of ys], of _ _ 1]) (simp_all add: ref_comment_def)
  next
    case 3
    then show ?thesis using Cons
      by (intro incr_now [where r = "(yajl_tok_error, Some yajl_lex_invalid_char, 1)"])
        (simp_all add: ref_comment_def)
  qed
qed (simp add: incr_Nil ref_comment_def)

lemma incr_keyword: "tok \<noteq> yajl_tok_eof \<Longrightarrow> incr_on (ref_keyword want tok) xs"
proof (induction want tok xs rule: ref_keyword.induct)
  case (1 tok xs)
  then show ?case by (intro incr_now [where r = "(tok, None, 0)"]) simp_all
next
  case (2 w want tok)
  then show ?case by (simp add: incr_Nil)
next
  case (3 w want tok c xs)
  show ?case
  proof (cases "c = w")
    case True
    then have "\<not> c \<noteq> w" by simp
    with True show ?thesis
      by (intro incr_step [OF _ _ 3(1) [OF _ 3(2)], of _ _ 1]) simp_all
  next
    case False
    then show ?thesis
      by (intro incr_now [where r = "(yajl_tok_error, Some yajl_lex_invalid_string, 0)"]) simp_all
  qed
qed

text \<open>UTF-8 tails and hex digits in the same style.\<close>

lemma ref_tail_append:
  "fst (ref_tail n xs) \<noteq> yajl_tok_eof \<Longrightarrow> ref_tail n (xs @ ys) = ref_tail n xs"
  "fst (ref_tail n xs) = yajl_tok_eof \<Longrightarrow>
     snd (ref_tail n xs) = length xs \<and> length xs \<le> snd (ref_tail n (xs @ ys))"
  by (induction n xs rule: ref_tail.induct) (auto split: if_splits)

lemma ref_utf8_append:
  "fst (ref_utf8 c xs) \<noteq> yajl_tok_eof \<Longrightarrow> ref_utf8 c (xs @ ys) = ref_utf8 c xs"
  "fst (ref_utf8 c xs) = yajl_tok_eof \<Longrightarrow>
     snd (ref_utf8 c xs) = length xs \<and> length xs \<le> snd (ref_utf8 c (xs @ ys))"
  by (auto simp: ref_utf8_def ref_tail_append split: option.splits)

lemma ref_hex_append:
  "ref_hex xs = 4 \<or> ref_hex xs < length xs \<Longrightarrow> ref_hex (xs @ ys) = ref_hex xs"
proof (cases "4 \<le> length xs")
  case False
  assume "ref_hex xs = 4 \<or> ref_hex xs < length xs"
  then have "length (takeWhile is_hex xs) < length xs"
    using False ref_hex_le(1) [of xs] by (auto simp: ref_hex_def)
  then have "\<not> (\<forall>x\<in>set xs. is_hex x)" by (metis less_irrefl takeWhile_eq_all_conv)
  then have "takeWhile is_hex (xs @ zs) = takeWhile is_hex xs" for zs
    by (metis takeWhile_append1)
  then show ?thesis using False by (simp add: ref_hex_def)
qed (simp add: ref_hex_def)

lemma ref_hex_all:
  assumes "ref_hex xs = length xs"
  shows "length xs \<le> ref_hex (xs @ ys)"
proof -
  have l: "length xs \<le> 4" using assms ref_hex_le(2) [of xs] by simp
  then have "takeWhile is_hex xs = xs"
    using assms takeWhile_eq_take [of is_hex xs] by (simp add: ref_hex_def)
  then have "takeWhile is_hex (xs @ zs) = xs @ takeWhile is_hex zs" for zs
    by (simp add: takeWhile_append2)
  then show ?thesis using l by (simp add: ref_hex_def)
qed

lemma incr_string: "incr_on (ref_string v esc) xs"
proof (induction "length xs" arbitrary: xs esc rule: less_induct)
  case less
  note IH = less
  show ?case
  proof (cases xs)
    case Nil
    then show ?thesis by (simp add: incr_Nil)
  next
    case (Cons c ys)
    consider (quote) "c = 0x22" | (esc) "c = 0x5C" | (bad) "c \<noteq> 0x22" "c \<noteq> 0x5C" "charLookup c AND IJC \<noteq> 0"
      | (other) "c \<noteq> 0x22" "c \<noteq> 0x5C" "charLookup c AND IJC = 0" by blast
    then show ?thesis
    proof cases
      case quote
      then show ?thesis using Cons
        by (intro incr_now [where r = "ref_string v esc [c]"]) (simp_all add: ref_string.simps(2))
    next
      case bad
      then show ?thesis using Cons
        by (intro incr_now [where r = "ref_string v esc [c]"]) (simp_all add: ref_string.simps(2))
    next
      case other
      show ?thesis
      proof (cases v)
        case False
        then show ?thesis using Cons other
          by (intro incr_step [OF _ _ IH [of ys esc], of _ _ 1]) (simp_all add: ref_string.simps(2))
      next
        case v: True
        note other [simp] note v [simp]
        obtain u k where u: "ref_utf8 c ys = (u, k)" by (cases "ref_utf8 c ys") auto
        have k: "k \<le> length ys" using ref_utf8_le [of c ys] u by simp
        show ?thesis
        proof (cases "u = yajl_tok_eof")
          case True
          then have "fst (ref_utf8 c ys) = yajl_tok_eof" by (simp add: u)
          note ap = ref_utf8_append(2) [OF this]
          show ?thesis
          proof (rule incr_eof)
            show "ref_string v esc xs = (yajl_tok_eof, None, length xs)"
              using Cons u True ap by (simp add: ref_string.simps(2))
            show "length xs \<le> snd (snd (ref_string v esc (xs @ zs)))" for zs
              using Cons ap [of zs]
              by (cases "ref_utf8 c (ys @ zs)") (auto simp: ref_string.simps(2))
          qed
        next
          case False
          then have ap: "ref_utf8 c (ys @ zs) = (u, k)" for zs
            using ref_utf8_append(1) [of c ys] u by simp
          show ?thesis
          proof (cases "u = yajl_tok_error")
            case True
            then show ?thesis using Cons ap k
              by (intro incr_now [where r = "(yajl_tok_error, Some yajl_lex_string_invalid_utf8, Suc k)"])
                (simp_all add: ref_string.simps(2))
          next
            case ok: False
            show ?thesis using Cons ap k ok False
              by (intro incr_step [OF _ _ IH [of "drop k ys" esc], of _ _ "Suc k"])
                (simp_all add: ref_string.simps(2))
          qed
        qed
      qed
    next
      case esc
      show ?thesis
      proof (cases ys)
        case Nil
        have "1 \<le> snd (snd (ref_string v esc (0x5C # zs)))" for zs
          by (auto simp: ref_string.simps(2) split: list.split)
        then show ?thesis using Nil Cons esc
          by (intro incr_eof) (simp_all add: ref_string.simps(2))
      next
        case ys: (Cons d us)
        show ?thesis
        proof (cases "d = 0x75")
          case u: True
          consider "ref_hex us = 4" | "ref_hex us \<noteq> 4" "ref_hex us = length us"
            | "ref_hex us \<noteq> 4" "ref_hex us < length us" using ref_hex_le(1) [of us] by linarith
          then show ?thesis
          proof cases
            case 1
            then have "4 \<le> length us" using ref_hex_le(1) [of us] by simp
            then show ?thesis using Cons ys esc u 1
              by (intro incr_step [OF _ _ IH [of "drop 4 us" True], of _ _ 6])
                (simp_all add: ref_string.simps(2) ref_hex_append)
          next
            case 2
            then have "length us \<le> ref_hex (us @ zs)" for zs by (rule_tac ref_hex_all)
            then show ?thesis using Cons ys esc u 2 ref_hex_le(2) [of us]
              by (intro incr_eof) (auto simp: ref_string.simps(2) intro: le_trans)
          next
            case 3
            then show ?thesis using Cons ys esc u ref_hex_append [of us]
              by (intro incr_now [where r = "(yajl_tok_error, Some yajl_lex_string_invalid_hex_char, 2 + ref_hex us)"])
                (simp_all add: ref_string.simps(2))
          qed
        next
          case u: False
          show ?thesis
          proof (cases "charLookup d AND VEC = 0")
            case True
            then show ?thesis using Cons ys esc u
              by (intro incr_now [where r = "(yajl_tok_error, Some yajl_lex_string_invalid_escaped_char, 1)"])
                (simp_all add: ref_string.simps(2))
          next
            case False
            then show ?thesis using Cons ys esc u
              by (intro incr_step [OF _ _ IH [of us True], of _ _ 2]) (simp_all add: ref_string.simps(2))
          qed
        qed
      qed
    qed
  qed
qed

interpretation string_body: incremental "ref_string v esc" for v esc
  by (rule incrementalI) (rule incr_string)

interpretation number_token: incremental ref_number
  by (rule incrementalI) (rule incr_number)

interpretation comment: incremental ref_comment
  by (rule incrementalI) (rule incr_comment)

lemma incr_tok: "incr_on (\<lambda>ys. case ys of [] \<Rightarrow> (yajl_tok_eof, None, 0) | c # zs \<Rightarrow> ref_tok v c zs) xs"
proof (cases xs)
  case Nil
  then show ?thesis by (simp add: incr_Nil)
next
  case (Cons c ys)
  let ?f = "\<lambda>ys. case ys of [] \<Rightarrow> (yajl_tok_eof, None, 0) | c # zs \<Rightarrow> ref_tok v c zs"
  have one: "incr_on ?f xs" if "\<And>zs. ref_tok v c zs = shift 1 (g zs)" "incr_on g ys" for g
    by (rule incr_step [OF _ _ that(2), of _ _ 1]) (simp_all add: Cons that(1))
  consider "c = 0x74" | "c = 0x66" | "c = 0x6E" | "c = 0x22" | "c = 0x2D \<or> is_digit c"
    | "c \<notin> {0x74, 0x66, 0x6E, 0x22, 0x2D}" "\<not> is_digit c" by blast
  then show ?thesis
  proof cases
    case 5
    then have "ref_tok v c zs = ref_number (c # zs)" for zs
      by (auto simp: ref_tok_def is_digit_def)
    then show ?thesis using Cons
      by (intro incr_step [OF _ _ incr_number [of xs], of _ _ 0]) simp_all
  next
    case 6
    then show ?thesis using Cons
      by (intro incr_now [where r = "ref_tok v c []"]) (simp_all add: ref_tok_def)
  qed (rule one, simp add: ref_tok_def del: ref_keyword.simps, rule incr_keyword incr_string, simp?)+
qed

section \<open>One token, incrementally\<close>

lemma ref_lex_within: "ref_lex cm v xs = (q, t, e, k) \<Longrightarrow> q \<le> k \<and> k \<le> length xs"
proof (induction cm v xs arbitrary: q t e k rule: ref_lex.induct)
  case (2 cm v c xs)
  have tok: "snd (snd (ref_tok v c xs)) \<le> length (c # xs)"
    using incr_tok [of v "c # xs"] by (simp add: incr_on_def)
  have com: "snd (snd (ref_comment xs)) \<le> length xs" by (rule comment.within)
  show ?case
  proof (cases "is_space c")
    case True
    then show ?thesis using 2(1) [OF True] 2(3)
      by (cases "ref_lex cm v xs") (auto simp: ref_lex.simps(2))
  next
    case ns: False
    show ?thesis
    proof (cases "c = 0x2F \<and> cm")
      case True
      obtain u d j where j: "ref_comment xs = (u, d, j)" by (cases "ref_comment xs") auto
      have "q \<le> k \<and> k \<le> length (c # xs)" if "u = yajl_tok_comment"
      proof -
        obtain q' t' e' k' where r: "ref_lex cm v (drop j xs) = (q', t', e', k')"
          by (cases "ref_lex cm v (drop j xs)") auto
        have "q' \<le> k' \<and> k' \<le> length (drop j xs)"
          by (rule 2(2)) (use ns True j that r in auto)
        then show ?thesis using 2(3) ns True j that r com by (auto simp: ref_lex.simps(2))
      qed
      then show ?thesis using 2(3) ns True j com by (auto simp: ref_lex.simps(2) split: if_splits)
    next
      case False
      then show ?thesis using 2(3) ns tok by (auto simp: ref_lex.simps(2) split: if_splits)
    qed
  qed
qed simp

lemma ref_lex_settled:
  "fst (snd (ref_lex cm v xs)) \<noteq> yajl_tok_eof \<Longrightarrow> ref_lex cm v (xs @ ys) = ref_lex cm v xs"
proof (induction cm v xs rule: ref_lex.induct)
  case (2 cm v c xs)
  have tok: "fst (ref_tok v c xs) \<noteq> yajl_tok_eof \<Longrightarrow> ref_tok v c (xs @ ys) = ref_tok v c xs"
    using incr_tok [of v "c # xs"] by (simp add: incr_on_def)
  show ?case
  proof (cases "is_space c \<or> c \<noteq> 0x2F \<or> \<not> cm")
    case True
    then show ?thesis using 2(1,3) tok by (auto simp: ref_lex.simps(2) Let_def)
  next
    case False
    obtain u d j where j: "ref_comment xs = (u, d, j)" by (cases "ref_comment xs") auto
    have u: "u \<noteq> yajl_tok_eof" using 2(3) False j by (auto simp: ref_lex.simps(2))
    then have "ref_comment (xs @ ys) = (u, d, j)" using comment.settled [of xs ys] j by simp
    moreover have "j \<le> length xs" using comment.within [of xs] j by simp
    moreover have "ref_lex cm v (drop j xs @ ys) = ref_lex cm v (drop j xs)"
      if "u = yajl_tok_comment"
      by (rule 2(2)) (use False j that 2(3) in \<open>auto simp: ref_lex.simps(2) Let_def\<close>)
    ultimately show ?thesis using False j by (simp add: ref_lex.simps(2))
  qed
qed simp

lemma ref_lex_pending:
  assumes "ref_lex cm v xs = (q, yajl_tok_eof, e, k)"
  shows "e = None" "k = length xs" "ref_lex cm v (drop q xs) = (0, yajl_tok_eof, None, length xs - q)"
    "ref_lex cm v (xs @ ys) = (q + fst (ref_lex cm v (drop q xs @ ys)),
       shift q (snd (ref_lex cm v (drop q xs @ ys))))"
    "length xs \<le> snd (snd (snd (ref_lex cm v (xs @ ys))))"
proof -
  let ?P = "\<lambda>cm v xs q e k. e = None \<and> k = length xs \<and>
    ref_lex cm v (drop q xs) = (0, yajl_tok_eof, None, length xs - q) \<and>
    ref_lex cm v (xs @ ys) = (q + fst (ref_lex cm v (drop q xs @ ys)),
       shift q (snd (ref_lex cm v (drop q xs @ ys)))) \<and>
    length xs \<le> snd (snd (snd (ref_lex cm v (xs @ ys))))"
  have "?P cm v xs q e k" using assms
  proof (induction cm v xs arbitrary: q e k rule: ref_lex.induct)
    case (2 cm v c xs)
    have tok: "fst (ref_tok v c xs) = yajl_tok_eof \<Longrightarrow>
        ref_tok v c xs = (yajl_tok_eof, None, Suc (length xs)) \<and>
        Suc (length xs) \<le> snd (snd (ref_tok v c (xs @ ys)))"
      using incr_tok [of v "c # xs"] by (simp add: incr_on_def)
    show ?case
    proof (cases "is_space c")
      case True
      obtain q' t' e' k' where r: "ref_lex cm v xs = (q', t', e', k')" by (cases "ref_lex cm v xs") auto
      then show ?thesis using 2(1) [OF True, of q' e' k'] 2(3) True by (auto simp: ref_lex.simps(2))
    next
      case ns: False
      show ?thesis
      proof (cases "c = 0x2F")
        case False
        then have "q = 0" "ref_tok v c xs = (yajl_tok_eof, e, k)" using 2(3) ns
          by (simp_all add: ref_lex.simps(2))
        then show ?thesis using ns False tok by (simp add: ref_lex.simps(2))
      next
        case slash: True
        have cm: cm using 2(3) slash ns by (simp add: ref_lex.simps(2) split: if_splits)
        obtain u d j where j: "ref_comment xs = (u, d, j)" by (cases "ref_comment xs") auto
        have jl: "j \<le> length xs" using comment.within [of xs] j by simp
        show ?thesis
        proof (cases "u = yajl_tok_comment")
          case True
          obtain q' t' e' k' where r: "ref_lex cm v (drop j xs) = (q', t', e', k')"
            by (cases "ref_lex cm v (drop j xs)") auto
          have t': "t' = yajl_tok_eof" "e' = e" "q = Suc j + q'" "k = Suc j + k'"
            using 2(3) slash ns cm j True r by (simp_all add: ref_lex.simps(2))
          have IH: "?P cm v (drop j xs) q' e' k'"
            by (rule 2(2)) (use ns slash cm j True r t' in auto)
          have "ref_comment (xs @ ys) = (u, d, j)" using comment.settled [of xs ys] j True by simp
          then have "ref_lex cm v ((c # xs) @ ys) = (let r = ref_lex cm v (drop j xs @ ys) in
              (Suc j + fst r, shift (Suc j) (snd r)))"
            using slash ns cm True jl by (simp add: ref_lex.simps(2))
          then show ?thesis using IH t' jl by (auto simp: Let_def add.commute)
        next
          case False
          then have u: "u = yajl_tok_eof" "d = e" "q = 0" "k = Suc j"
            using 2(3) slash ns cm j by (simp_all add: ref_lex.simps(2))
          then have c: "fst (ref_comment xs) = yajl_tok_eof" using j by simp
          have "length xs \<le> snd (snd (ref_comment (xs @ ys)))" "e = None" "j = length xs"
            using comment.pending [OF c, of ys] comment.at_end [OF c] j u by auto
          then show ?thesis using slash ns cm j u
            by (cases "ref_comment (xs @ ys)") (auto simp: ref_lex.simps(2) Let_def)
        qed
      qed
    qed
  qed simp
  then show "e = None" "k = length xs" "ref_lex cm v (drop q xs) = (0, yajl_tok_eof, None, length xs - q)"
    "ref_lex cm v (xs @ ys) = (q + fst (ref_lex cm v (drop q xs @ ys)),
       shift q (snd (ref_lex cm v (drop q xs @ ys))))"
    "length xs \<le> snd (snd (snd (ref_lex cm v (xs @ ys))))" by blast+
qed

end
