(* ===== verification/Yajl_Lex_Refine.thy ===== *)
theory Yajl_Lex_Refine
  imports Yajl_Lex_Spec
begin

text \<open>
  \<open>yajl_lex_lex\<close> (\<open>jni/yajl/src/yajl_lex.c\<close>) implements the reference lexer of \<open>Yajl_Lex_Spec\<close>: from
  every state the lexer can be in between two calls the call is defined, delivers the token the
  reference lexer finds in the buffered bytes followed by the chunk, and leaves such a state.
\<close>

section \<open>The token loop\<close>

definition note_error :: "yajl_lex_error option \<Rightarrow> yajl_lexer \<Rightarrow> yajl_lexer" where
  "note_error e l = (case e of None \<Rightarrow> l | Some x \<Rightarrow> l\<lparr>lex_error := x\<rparr>)"

lemma res_note: "res l p (t, e, k) = Some (t, at_pos (note_error e l) (p + k))"
  by (cases e) (simp_all add: note_error_def)

lemma note_error_fields [simp]:
  "lex_buf (note_error e l) = lex_buf l" "bufInUse (note_error e l) = bufInUse l"
  "allowComments (note_error e l) = allowComments l" "validateUTF8 (note_error e l) = validateUTF8 l"
  "blen (note_error e l) = blen l" "note_error None l = l"
  "lex_error (note_error e l) = (case e of None \<Rightarrow> lex_error l | Some x \<Rightarrow> x)"
  by (cases e; simp add: note_error_def blen_def)+

definition drop_buffer :: "scan \<Rightarrow> scan" where
  "drop_buffer s = ((fst s)\<lparr>lex_buf := yajl_buf_clear (lex_buf (fst s)), bufInUse := False\<rparr>, snd s)"

lemma snd_at_pos: "snd (at_pos l p) = p - blen l"
  by (simp add: at_pos_def)

lemma seen_pos: "seen l t p xs \<Longrightarrow> p - blen l \<le> length t"
  by (auto simp: seen_def length_ftext)

lemma ref_block_no_error: "fst (snd (ref_block xs)) = None"
proof (induction xs rule: ref_block.induct)
  case (2 c xs)
  show ?case
    by (subst ref_block.simps(2)) (use 2 in \<open>auto simp del: ref_block.simps split: list.split\<close>)
qed simp

lemma ref_block_tok: "fst (ref_block xs) = yajl_tok_eof \<or> fst (ref_block xs) = yajl_tok_comment"
proof (induction xs rule: ref_block.induct)
  case (2 c xs)
  show ?case
    by (subst (1 2) ref_block.simps(2)) (use 2 in \<open>auto simp del: ref_block.simps split: list.split\<close>)
qed simp

lemma ref_comment_ok: "ref_comment xs = (yajl_tok_comment, d, j) \<Longrightarrow> d = None"
  using ref_block_no_error [of "tl xs"]
  by (auto simp: ref_comment_def ref_line_def Let_def shift_def split: list.splits if_splits)

lemma lex_scan_Nil:
  "seen l t p [] \<Longrightarrow> lex_scan t (length t) st (at_pos l p) = Some (yajl_tok_eof, st, at_pos l p)"
  using seen_at_eof [of l t p "[]"] seen_pos [of l t p "[]"]
  by (subst lex_scan.simps) (simp add: snd_at_pos)

lemma lex_scan_Cons:
  assumes "seen l t p (c # xs)"
  shows "lex_scan t (length t) st (at_pos l p) =
    (if is_space c then lex_scan t (length t) (Suc st) (at_pos l (Suc p))
     else if c = 0x2F then
       (if \<not> allowComments l
        then Some (yajl_tok_error, st, at_pos (l\<lparr>lex_error := yajl_lex_unallowed_comment\<rparr>) p)
        else (case ref_comment xs of
                (u, d, j) \<Rightarrow>
                  if u = yajl_tok_comment
                  then lex_scan t (length t) (Suc p + j - blen l) (drop_buffer (at_pos l (Suc p + j)))
                  else Some (u, st, at_pos (note_error d l) (Suc p + j))))
     else (case ref_tok (validateUTF8 l) c xs of
             (u, d, j) \<Rightarrow> Some (u, st, at_pos (note_error d l) (p + j))))"
proof -
  have s: "seen l t (Suc p) xs" and p: "p < length (ftext l t)" and c: "ftext l t ! p = c"
    using seen_Cons [OF assms] by simp_all
  have rd: "readChar t (at_pos l p) = Some (c, at_pos l (Suc p))"
    using readChar_at [OF _ p] c assms by (simp add: seen_def)
  have eof: "\<not> at_eof (length t) (at_pos l p)" using seen_at_eof [OF assms] by simp
  have off: "\<not> length t < snd (at_pos l p)" using seen_pos [OF assms] by (simp add: snd_at_pos not_less)
  have com: "yajl_lex_comment t (length t) (at_pos l (Suc p)) = res l (Suc p) (ref_comment xs)"
    by (rule yajl_lex_comment_at [OF s])
  have tok: "lex_first_char t (length t) c (at_pos l (Suc p)) = res l p (ref_tok (validateUTF8 l) c xs)"
    by (rule lex_first_char_at [OF assms])
  show ?thesis
    using off
    by (subst lex_scan.simps)
      (cases "ref_comment xs"; cases "ref_tok (validateUTF8 l) c xs";
       auto simp: rd eof com tok unreadChar_at set_error_at res_note snd_at_pos drop_buffer_def
        dest: ref_comment_ok)
qed

text \<open>What the loop leaves behind, for the outcome \<open>r\<close> of the reference lexer on \<open>xs\<close>.\<close>

definition scanned ::
  "yajl_lexer \<Rightarrow> bytes \<Rightarrow> bytes \<Rightarrow> nat \<times> lexed \<Rightarrow> (yajl_tok \<times> nat \<times> scan) option \<Rightarrow> bool" where
  "scanned l t xs r out \<longleftrightarrow>
     (case r of (q, tok, e, k) \<Rightarrow>
        \<exists>l' start off'. out = Some (tok, start, (l', off')) \<and>
          lex_error l' = (case e of None \<Rightarrow> lex_error l | Some x \<Rightarrow> x) \<and>
          allowComments l' = allowComments l \<and> validateUTF8 l' = validateUTF8 l \<and>
          buf_ok (lex_buf l') \<and> (bufInUse l' \<longrightarrow> bufInUse l \<and> lex_buf l' = lex_buf l) \<and>
          start \<le> off' \<and> off' \<le> length t \<and>
          drop q xs = (if bufInUse l' then buf_contents (lex_buf l') else []) @ drop start t \<and>
          drop k xs = drop off' t \<and> k - q = blen l' + (off' - start))"

lemma scannedI:
  assumes "out = Some (tok, start, (l', off'))"
    "lex_error l' = (case e of None \<Rightarrow> lex_error l | Some x \<Rightarrow> x)"
    "allowComments l' = allowComments l" "validateUTF8 l' = validateUTF8 l"
    "buf_ok (lex_buf l')" "bufInUse l' \<Longrightarrow> bufInUse l \<and> lex_buf l' = lex_buf l"
    "start \<le> off'" "off' \<le> length t"
    "drop q xs = (if bufInUse l' then buf_contents (lex_buf l') else []) @ drop start t"
    "drop k xs = drop off' t" "k - q = blen l' + (off' - start)"
  shows "scanned l t xs (q, tok, e, k) out"
  unfolding scanned_def prod.case
  by (rule exI [of _ l'], rule exI [of _ start], rule exI [of _ off']) (use assms in simp)

lemma scanned_shift:
  assumes "scanned l1 t (drop n xs) (q, tok, e, k) out" "lex_error l1 = lex_error l"
    "allowComments l1 = allowComments l" "validateUTF8 l1 = validateUTF8 l"
    "bufInUse l1 \<Longrightarrow> bufInUse l \<and> lex_buf l1 = lex_buf l"
  shows "scanned l t xs (n + q, tok, e, n + k) out"
proof -
  obtain l' start off' where *: "out = Some (tok, start, (l', off'))"
    "lex_error l' = (case e of None \<Rightarrow> lex_error l1 | Some x \<Rightarrow> x)"
    "allowComments l' = allowComments l1" "validateUTF8 l' = validateUTF8 l1"
    "buf_ok (lex_buf l')" "bufInUse l' \<longrightarrow> bufInUse l1 \<and> lex_buf l' = lex_buf l1"
    "start \<le> off'" "off' \<le> length t"
    "drop q (drop n xs) = (if bufInUse l' then buf_contents (lex_buf l') else []) @ drop start t"
    "drop k (drop n xs) = drop off' t" "k - q = blen l' + (off' - start)"
    using assms(1) unfolding scanned_def prod.case by blast
  show ?thesis
    by (rule scannedI [OF *(1)])
      (use * assms(2-) in \<open>simp_all add: add.commute option.case_eq_if\<close>)
qed

lemma ftext_empty: "blen l = 0 \<Longrightarrow> buf_ok (lex_buf l) \<Longrightarrow> ftext l t = t"
  using length_buf_contents [of "lex_buf l"]
  by (auto simp: ftext_def blen_def split: if_splits simp del: length_buf_contents)

lemma scanned_here:
  assumes s: "seen l t p xs" and p: "blen l = 0 \<or> p = 0" and k: "blen l \<le> p + k" "k \<le> length xs"
  shows "scanned l t xs (0, tok, e, k) (Some (tok, p - blen l, at_pos (note_error e l) (p + k)))"
proof -
  let ?l = "fst (at_pos (note_error e l) (p + k))"
  have l: "lex_error ?l = (case e of None \<Rightarrow> lex_error l | Some x \<Rightarrow> x)"
    "allowComments ?l = allowComments l" "validateUTF8 ?l = validateUTF8 l"
    "lex_buf ?l = lex_buf l" "bufInUse ?l = bufInUse l" "blen ?l = blen l"
    by (simp_all add: at_pos_def blen_def)
  have b: "buf_ok (lex_buf l)" and xs: "xs = drop p (ftext l t)" using s by (simp_all add: seen_def)
  have len: "length xs = blen l + length t - p" "p \<le> blen l + length t"
    using b xs s by (auto simp: length_ftext seen_def)
  have 1: "xs = (if bufInUse l then buf_contents (lex_buf l) else []) @ drop (p - blen l) t"
  proof (cases "p = 0")
    case True
    then show ?thesis using xs by (simp add: ftext_def)
  next
    case False
    then have z: "blen l = 0" using p by simp
    have "(if bufInUse l then buf_contents (lex_buf l) else []) = []"
      using ftext_empty [OF z b, of t] by (simp add: ftext_def)
    then show ?thesis using xs ftext_empty [OF z b] z by simp
  qed
  have pre: "length (if bufInUse l then buf_contents (lex_buf l) else []) = blen l"
    using b by (simp add: blen_def)
  have 2: "drop k xs = drop (p + k - blen l) t"
  proof (cases "p = 0")
    case True
    then have "drop k xs = drop (k - blen l) t" using 1 pre k by simp
    then show ?thesis using True by simp
  next
    case False
    then show ?thesis using p xs ftext_empty [OF _ b] by (simp add: add.commute)
  qed
  have "at_pos (note_error e l) (p + k) = (?l, p + k - blen l)" by (simp add: at_pos_def)
  then have "Some (tok, p - blen l, at_pos (note_error e l) (p + k))
      = Some (tok, p - blen l, (?l, p + k - blen l))" by simp
  then show ?thesis
    by (rule scannedI) (use l b 1 2 k len p in \<open>simp_all, auto\<close>)
qed

lemma drop_buffer_at:
  assumes "buf_ok (lex_buf l)"
  obtains l1 where "drop_buffer (at_pos l p) = at_pos l1 (p - blen l)" "\<not> bufInUse l1"
    "buf_ok (lex_buf l1)" "lex_error l1 = lex_error l" "allowComments l1 = allowComments l"
    "validateUTF8 l1 = validateUTF8 l"
proof
  let ?l = "l\<lparr>lex_buf := yajl_buf_clear (lex_buf l), bufInUse := False,
    bufOff := bufOff (fst (at_pos l p))\<rparr>"
  show "drop_buffer (at_pos l p) = at_pos ?l (p - blen l)"
    by (simp add: drop_buffer_def at_pos_def blen_def)
qed (use assms in \<open>simp_all add: buf_clear_ok\<close>)

lemma lex_scan_empty:
  "seen l t p xs \<Longrightarrow> blen l = 0 \<Longrightarrow> cm = allowComments l \<Longrightarrow> v = validateUTF8 l \<Longrightarrow>
   scanned l t xs (ref_lex cm v xs) (lex_scan t (length t) p (at_pos l p))"
proof (induction cm v xs arbitrary: l p rule: ref_lex.induct)
  case (1 cm v)
  then show ?case
    using scanned_here [OF 1(1), of 0 yajl_tok_eof None] by (simp add: lex_scan_Nil)
next
  case (2 cm v c xs)
  note here = scanned_here [OF 2(3) disjI1 [OF 2(4)], unfolded 2(4)]
  have s: "seen l t (Suc p) xs" by (rule seen_Cons(1) [OF 2(3)])
  show ?case
  proof (cases "is_space c")
    case True
    obtain q tok e k where r: "ref_lex cm v xs = (q, tok, e, k)" by (cases "ref_lex cm v xs") auto
    have "scanned l t xs (q, tok, e, k) (lex_scan t (length t) (Suc p) (at_pos l (Suc p)))"
      using 2(1) [OF True s 2(4-6)] r by simp
    then have "scanned l t (c # xs) (1 + q, tok, e, 1 + k)
        (lex_scan t (length t) (Suc p) (at_pos l (Suc p)))"
      by (intro scanned_shift [of l]) simp_all
    then show ?thesis using True r by (simp add: lex_scan_Cons [OF 2(3)] ref_lex.simps(2))
  next
    case ns: False
    show ?thesis
    proof (cases "c = 0x2F")
      case slash: True
      show ?thesis
      proof (cases cm)
        case False
        then show ?thesis using ns slash 2(5)
            here [of 0 yajl_tok_error "Some yajl_lex_unallowed_comment"]
          by (simp add: lex_scan_Cons [OF 2(3)] ref_lex.simps(2) note_error_def)
      next
        case cm: True
        obtain u d j where j: "ref_comment xs = (u, d, j)" by (cases "ref_comment xs") auto
        have jl: "j \<le> length xs" using comment.within [of xs] j by simp
        show ?thesis
        proof (cases "u = yajl_tok_comment")
          case True
          have b: "buf_ok (lex_buf l)" using 2(3) by (simp add: seen_def)
          obtain l1 where l1: "drop_buffer (at_pos l (Suc p + j)) = at_pos l1 (Suc p + j)"
            "\<not> bufInUse l1" "buf_ok (lex_buf l1)" "lex_error l1 = lex_error l"
            "allowComments l1 = allowComments l" "validateUTF8 l1 = validateUTF8 l"
            using drop_buffer_at [OF b, of "Suc p + j"] 2(4) by auto
          have s1: "seen l1 t (Suc p + j) (drop j xs)"
            using seen_drop [OF s jl] ftext_empty [OF 2(4) b] l1(2,3)
            by (simp add: seen_def ftext_def)
          obtain q tok e k where r: "ref_lex cm v (drop j xs) = (q, tok, e, k)"
            by (cases "ref_lex cm v (drop j xs)") auto
          have "scanned l1 t (drop j xs) (q, tok, e, k)
              (lex_scan t (length t) (Suc p + j) (at_pos l1 (Suc p + j)))"
            unfolding r [symmetric]
            by (rule 2(2)) (use ns slash cm j True s1 l1 2(5,6) in \<open>auto simp: blen_def\<close>)
          then have "scanned l t (c # xs) (Suc j + q, tok, e, Suc j + k)
              (lex_scan t (length t) (Suc p + j) (at_pos l1 (Suc p + j)))"
            by (intro scanned_shift [of l1]) (simp_all add: l1)
          then show ?thesis using ns slash cm 2(4-6) j True r l1(1)
            by (simp add: lex_scan_Cons [OF 2(3)] ref_lex.simps(2))
        next
          case False
          then show ?thesis using ns slash cm 2(4-6) j here [of "Suc j" u d] jl
            by (simp add: lex_scan_Cons [OF 2(3)] ref_lex.simps(2))
        qed
      qed
    next
      case False
      obtain u d j where j: "ref_tok v c xs = (u, d, j)" by (cases "ref_tok v c xs") auto
      have "j \<le> length (c # xs)" using incr_tok [of v "c # xs"] j by (simp add: incr_on_def)
      then show ?thesis using ns False 2(4-6) j here [of j u d]
        by (simp add: lex_scan_Cons [OF 2(3)] ref_lex.simps(2))
    qed
  qed
qed

text \<open>Between two calls the lexer holds either nothing or the beginning of one token or comment.\<close>

definition lex_ready :: "yajl_lexer \<Rightarrow> bool" where
  "lex_ready l \<longleftrightarrow> buf_ok (lex_buf l) \<and>
     (bufInUse l \<longrightarrow> bufOff l = 0 \<and>
        (\<exists>e k. ref_lex (allowComments l) (validateUTF8 l) (buf_contents (lex_buf l)) = (0, yajl_tok_eof, e, k)))"

lemma lex_ready_alloc [inv_intros]: "lex_ready (yajl_lex_alloc cm v)"
  by (simp add: lex_ready_def yajl_lex_alloc_def)

lemma lex_scan_buffered:
  assumes r: "lex_ready l" and b: "0 < blen l" and t: "t \<noteq> []"
  shows "scanned l t (ftext l t) (ref_lex (allowComments l) (validateUTF8 l) (ftext l t))
    (lex_scan t (length t) 0 (at_pos l 0))"
proof -
  let ?cm = "allowComments l" and ?v = "validateUTF8 l"
  have ok: "buf_ok (lex_buf l)" and use: "bufInUse l" using r b by (auto simp: lex_ready_def blen_def split: if_splits)
  obtain e0 k0 where pend: "ref_lex ?cm ?v (buf_contents (lex_buf l)) = (0, yajl_tok_eof, e0, k0)"
    using r use by (auto simp: lex_ready_def)
  obtain c ys where cs: "buf_contents (lex_buf l) = c # ys"
    using b use ok length_buf_contents [OF ok] by (cases "buf_contents (lex_buf l)") (auto simp: blen_def)
  have bl: "blen l = Suc (length ys)" using cs use length_buf_contents [OF ok] by (simp add: blen_def)
  have F: "ftext l t = c # (ys @ t)" using cs use by (simp add: ftext_def)
  have seen: "seen l t 0 (c # (ys @ t))" using ok t F by (simp add: seen_def)
  note here = scanned_here [OF seen disjI2 [OF refl], unfolded bl, simplified]
  have ns: "\<not> is_space c" using pend cs by (auto simp: ref_lex.simps(2) Let_def)
  show ?thesis
  proof (cases "c = 0x2F")
    case slash: True
    have cm: ?cm using pend cs ns slash by (auto simp: ref_lex.simps(2) split: if_splits)
    have eof: "fst (ref_comment ys) = yajl_tok_eof"
      using pend cs ns slash cm by (auto simp: ref_lex.simps(2) Let_def split: if_splits prod.splits)
    obtain u d j where j: "ref_comment (ys @ t) = (u, d, j)" by (cases "ref_comment (ys @ t)") auto
    have jl: "length ys \<le> j" "j \<le> length (ys @ t)"
      using comment.pending [OF eof, of t] comment.within [of "ys @ t"] j by simp_all
    show ?thesis
    proof (cases "u = yajl_tok_comment")
      case True
      obtain l1 where l1: "drop_buffer (at_pos l (Suc j)) = at_pos l1 (Suc j - blen l)"
        "\<not> bufInUse l1" "buf_ok (lex_buf l1)" "lex_error l1 = lex_error l"
        "allowComments l1 = ?cm" "validateUTF8 l1 = ?v"
        using drop_buffer_at [OF ok, of "Suc j"] by auto
      have s1: "seen l1 t (Suc j - blen l) (drop j (ys @ t))"
        using jl l1(2,3) t bl by (simp add: seen_def ftext_def)
      obtain q tok e k where rr: "ref_lex ?cm ?v (drop j (ys @ t)) = (q, tok, e, k)"
        by (cases "ref_lex ?cm ?v (drop j (ys @ t))") auto
      have "scanned l1 t (drop j (ys @ t)) (q, tok, e, k)
          (lex_scan t (length t) (Suc j - blen l) (at_pos l1 (Suc j - blen l)))"
        unfolding rr [symmetric] by (rule lex_scan_empty [OF s1]) (simp_all add: l1 blen_def)
      then have "scanned l t (c # ys @ t) (Suc j + q, tok, e, Suc j + k)
          (lex_scan t (length t) (Suc j - blen l) (at_pos l1 (Suc j - blen l)))"
        by (intro scanned_shift [of l1]) (simp_all add: l1)
      then show ?thesis using ns slash cm j True rr l1(1)
        by (simp add: lex_scan_Cons [OF seen] ref_lex.simps(2) F)
    next
      case False
      then show ?thesis using ns slash cm j here [of "Suc j" u d] jl
        by (simp add: lex_scan_Cons [OF seen] ref_lex.simps(2) F bl)
    qed
  next
    case False
    have "fst (ref_tok ?v c ys) = yajl_tok_eof" using pend cs ns False by (simp add: ref_lex.simps(2))
    then have jl: "Suc (length ys) \<le> snd (snd (ref_tok ?v c (ys @ t)))"
      "snd (snd (ref_tok ?v c (ys @ t))) \<le> Suc (length (ys @ t))"
      using incr_tok [of ?v "c # ys"] incr_tok [of ?v "c # ys @ t"] by (simp_all add: incr_on_def)
    obtain u d j where j: "ref_tok ?v c (ys @ t) = (u, d, j)" by (cases "ref_tok ?v c (ys @ t)") auto
    then show ?thesis using ns False here [of j u d] jl
      by (simp add: lex_scan_Cons [OF seen] ref_lex.simps(2) F bl)
  qed
qed

lemma lex_scan_ready:
  assumes "lex_ready l" "off \<le> length t" "bufInUse l \<Longrightarrow> off = 0" "t \<noteq> []"
    and xs: "xs = drop off (ftext l t)"
  shows "scanned l t xs (ref_lex (allowComments l) (validateUTF8 l) xs) (lex_scan t (length t) off (l, off))"
proof (cases "blen l = 0")
  case True
  have ok: "buf_ok (lex_buf l)" using assms(1) by (simp add: lex_ready_def)
  have a: "at_pos l off = (l, off)"
    using True assms(1,3) by (auto simp: at_pos_def lex_ready_def)
  have "seen l t off xs" using assms ok by (simp add: seen_def length_ftext)
  from lex_scan_empty [OF this True refl refl] show ?thesis by (simp add: a)
next
  case False
  then have "bufInUse l" by (auto simp: blen_def split: if_splits)
  then have "off = 0" "at_pos l 0 = (l, 0)" using assms(1,3) by (auto simp: at_pos_def lex_ready_def)
  then show ?thesis using lex_scan_buffered [OF assms(1) _ assms(4)] False xs by simp
qed

section \<open>The token call\<close>

lemma those_Some: "None \<notin> set cs \<Longrightarrow> those cs = Some (map the cs)"
proof (induction cs)
  case (Cons a cs)
  then show ?case by (cases a) auto
qed simp

lemma those_eq_map: "those cs = Some s \<Longrightarrow> cs = map Some s"
  by (induction cs arbitrary: s) (auto split: option.splits)

lemma cells_bytes_buf:
  assumes "buf_ok b" "i + n \<le> buf_used b"
  shows "cells_bytes (buf_data b) i n = Some (take n (drop i (buf_contents b)))"
proof (cases "buf_data b")
  case None
  then show ?thesis using assms by (simp add: buf_ok_def cells_bytes_def)
next
  case (Some d)
  note okd = buf_okD [OF assms(1) Some]
  have c: "buf_contents b = map the (take (buf_used b) d)" using Some by (simp add: buf_contents_def)
  have t: "take n (drop i d) = take n (drop i (take (buf_used b) d))"
    using assms(2) by (simp add: drop_take min_def)
  have "None \<notin> set (take n (drop i d))" using okd(5) unfolding t
    by (meson in_set_dropD in_set_takeD)
  moreover have "i + n \<le> length d" using okd(1,2) assms(2) by simp
  ultimately show ?thesis
    using Some t by (auto simp: cells_bytes_def cslice_def those_Some c take_map drop_map)
qed

lemma mem_bytes_byte:
  assumes "mem_bytes m p n = Some s" "k < n"
  shows "mem_byte m p k = Some (s ! k)"
proof -
  have C: "do { cs \<leftarrow> c; x \<leftarrow> rd cs (i + k); x } = Some (s ! k)" if cb: "cells_bytes c i n = Some s" for c i
  proof -
    have n: "n \<noteq> 0" using assms(2) by simp
    obtain cs xs where cs: "c = Some cs" "cslice cs i n = Some xs" "those xs = Some s"
      using cb n by (auto simp: cells_bytes_def opt_simps split: if_splits)
    have xs: "xs = map Some s" by (rule those_eq_map [OF cs(3)])
    have "xs = take n (drop i cs)" "i + n \<le> length cs"
      using cs(2) n by (auto simp: cslice_def split: if_splits)
    moreover from this have "length s = n" using arg_cong [OF xs, of length] by simp
    ultimately have "i + k < length cs" "cs ! (i + k) = xs ! k" "k < length s" using assms(2) by simp_all
    then show ?thesis using cs(1) xs by simp
  qed
  show ?thesis using assms C
    by (cases p) (auto simp: cslice_def rd_def split: if_splits)
qed

text \<open>The text a token call delivers: the characters of the token, without the quotes of a
  string.\<close>

definition tok_body :: "yajl_tok \<Rightarrow> bytes \<Rightarrow> bytes" where
  "tok_body tok s =
     (if tok = yajl_tok_string \<or> tok = yajl_tok_string_with_escapes
      then take (length s - 2) (tl s) else s)"

definition lexed_as ::
  "yajl_lexer \<Rightarrow> bytes \<Rightarrow> bytes \<Rightarrow> nat \<times> lexed \<Rightarrow> (yajl_tok \<times> strptr \<times> nat \<times> scan) option \<Rightarrow> bool" where
  "lexed_as l t xs r out \<longleftrightarrow>
     (case r of (q, tok, e, k) \<Rightarrow>
        \<exists>ptr n l' off'. out = Some (tok, ptr, n, (l', off')) \<and> lex_ready l' \<and> off' \<le> length t \<and>
          lex_error l' = (case e of None \<Rightarrow> lex_error l | Some x \<Rightarrow> x) \<and>
          allowComments l' = allowComments l \<and> validateUTF8 l' = validateUTF8 l \<and>
          (if tok = yajl_tok_eof
           then bufInUse l' \<and> buf_contents (lex_buf l') = drop q xs \<and> off' = length t
           else \<not> bufInUse l' \<and> drop k xs = drop off' t) \<and>
          (tok \<noteq> yajl_tok_eof \<and> tok \<noteq> yajl_tok_error \<longrightarrow>
             n = length (tok_body tok (take (k - q) (drop q xs))) \<and>
             (\<forall>dec. mem_bytes \<lparr>mem_text = t, mem_lex = buf_data (lex_buf l'), mem_dec = dec\<rparr> ptr n
                = Some (tok_body tok (take (k - q) (drop q xs))) \<and>
              (tok = yajl_tok_string \<or> tok = yajl_tok_string_with_escapes \<longrightarrow>
                 mem_bytes \<lparr>mem_text = t, mem_lex = buf_data (lex_buf l'), mem_dec = dec\<rparr> ptr (Suc n)
                   = Some (tok_body tok (take (k - q) (drop q xs)) @ [0x22])))))"

lemma lexed_asI:
  assumes "out = Some (tok, ptr, n, (l', off'))" "lex_ready l'" "off' \<le> length t"
    "lex_error l' = (case e of None \<Rightarrow> lex_error l | Some x \<Rightarrow> x)"
    "allowComments l' = allowComments l" "validateUTF8 l' = validateUTF8 l"
    "tok = yajl_tok_eof \<Longrightarrow> bufInUse l' \<and> buf_contents (lex_buf l') = drop q xs \<and> off' = length t"
    "tok \<noteq> yajl_tok_eof \<Longrightarrow> \<not> bufInUse l' \<and> drop k xs = drop off' t"
    "tok \<noteq> yajl_tok_eof \<Longrightarrow> tok \<noteq> yajl_tok_error \<Longrightarrow>
       n = length (tok_body tok (take (k - q) (drop q xs)))"
    "\<And>dec. tok \<noteq> yajl_tok_eof \<Longrightarrow> tok \<noteq> yajl_tok_error \<Longrightarrow>
       mem_bytes \<lparr>mem_text = t, mem_lex = buf_data (lex_buf l'), mem_dec = dec\<rparr> ptr n
         = Some (tok_body tok (take (k - q) (drop q xs)))"
    "\<And>dec. tok = yajl_tok_string \<or> tok = yajl_tok_string_with_escapes \<Longrightarrow>
       mem_bytes \<lparr>mem_text = t, mem_lex = buf_data (lex_buf l'), mem_dec = dec\<rparr> ptr (Suc n)
         = Some (tok_body tok (take (k - q) (drop q xs)) @ [0x22])"
  shows "lexed_as l t xs (q, tok, e, k) out"
  unfolding lexed_as_def prod.case
  unfolding if_bool_eq_conj
  by (rule exI [of _ ptr], rule exI [of _ n], rule exI [of _ l'], rule exI [of _ off'])
    (use assms in blast)

lemma ref_string_end:
  "fst (ref_string v esc xs) \<in> {yajl_tok_string, yajl_tok_string_with_escapes} \<Longrightarrow>
   1 \<le> snd (snd (ref_string v esc xs))"
proof (cases xs)
  case (Cons c ys)
  show "fst (ref_string v esc xs) \<in> {yajl_tok_string, yajl_tok_string_with_escapes} \<Longrightarrow>
      1 \<le> snd (snd (ref_string v esc xs))"
    unfolding Cons ref_string.simps(2) by (auto split: list.splits prod.splits if_splits)
qed simp

lemma ref_exponent_tok:
  "fst (ref_exponent tok xs) \<in> {yajl_tok_eof, yajl_tok_error, yajl_tok_double, tok}"
  by (simp add: ref_exponent_def ref_exp_digits_def Let_def split: list.split)

lemma ref_fraction_tok:
  "fst (ref_fraction xs) \<in> {yajl_tok_eof, yajl_tok_error, yajl_tok_double, yajl_tok_integer}"
proof (cases xs)
  case (Cons c ys)
  then show ?thesis
    using ref_exponent_tok [of yajl_tok_double "drop (ref_digits ys) ys"]
      ref_exponent_tok [of yajl_tok_integer xs]
    by (auto simp: ref_fraction_def Let_def)
qed simp

lemma ref_integer_tok:
  "fst (ref_integer xs) \<in> {yajl_tok_eof, yajl_tok_error, yajl_tok_double, yajl_tok_integer}"
  using ref_fraction_tok [of "tl xs"] ref_fraction_tok [of "drop (ref_digits xs) xs"]
  by (cases xs) (auto simp: ref_integer_def)

lemma ref_number_tok:
  "fst (ref_number xs) \<in> {yajl_tok_eof, yajl_tok_error, yajl_tok_double, yajl_tok_integer}"
  using ref_integer_tok [of "tl xs"] ref_integer_tok [of xs]
  by (cases xs) (auto simp: ref_number_def)

lemma ref_keyword_tok: "fst (ref_keyword want tok xs) \<in> {tok, yajl_tok_eof, yajl_tok_error}"
  by (induction want tok xs rule: ref_keyword.induct) auto

lemma ref_tok_string:
  assumes "fst (ref_tok v c xs) \<in> {yajl_tok_string, yajl_tok_string_with_escapes}"
  shows "c = 0x22"
proof (rule ccontr)
  assume c: "c \<noteq> 0x22"
  have "fst (ref_number (c # xs)) \<notin> {yajl_tok_string, yajl_tok_string_with_escapes}"
    using ref_number_tok [of "c # xs"] by auto
  moreover have "fst (ref_keyword want yajl_tok_bool xs) \<notin> {yajl_tok_string, yajl_tok_string_with_escapes}"
    "fst (ref_keyword want yajl_tok_null xs) \<notin> {yajl_tok_string, yajl_tok_string_with_escapes}" for want
    using ref_keyword_tok [of want yajl_tok_bool xs] ref_keyword_tok [of want yajl_tok_null xs] by auto
  ultimately show False using assms c
    unfolding ref_tok_def by (simp del: ref_keyword.simps split: if_splits)
qed

lemma tok_body_length:
  assumes "ref_lex cm v xs = (q, tok, e, k)"
    and "tok = yajl_tok_string \<or> tok = yajl_tok_string_with_escapes"
  shows "2 \<le> k - q"
  using assms
proof (induction cm v xs arbitrary: q tok e k rule: ref_lex.induct)
  case (2 cm v c xs)
  have tok: "2 \<le> snd (snd (ref_tok v c xs))"
    if t: "fst (ref_tok v c xs) \<in> {yajl_tok_string, yajl_tok_string_with_escapes}"
    using t ref_tok_string [OF t] ref_string_end [of v False xs] by (simp add: ref_tok_def)
  show ?case
  proof (cases "is_space c")
    case True
    then show ?thesis using 2(3) 2(1) [OF True _ 2(4)] by (cases "ref_lex cm v xs") (auto simp: ref_lex.simps(2) Let_def)
  next
    case ns: False
    show ?thesis
    proof (cases "c = 0x2F \<and> cm")
      case True
      obtain u d j where j: "ref_comment xs = (u, d, j)" by (cases "ref_comment xs") auto
      have com: "fst (ref_comment xs) \<notin> {yajl_tok_string, yajl_tok_string_with_escapes}"
        using ref_block_tok [of "tl xs"]
        by (auto simp: ref_comment_def ref_line_def Let_def split: list.split)
      then have u: "u = yajl_tok_comment" using 2(3,4) ns True j
        by (auto simp: ref_lex.simps(2) split: if_splits)
      obtain q' t' e' k' where r: "ref_lex cm v (drop j xs) = (q', t', e', k')"
        by (cases "ref_lex cm v (drop j xs)") auto
      have "2 \<le> k' - q'"
        by (rule 2(2)) (use ns True j u r 2(3,4) in \<open>auto simp: ref_lex.simps(2)\<close>)
      then show ?thesis using 2(3) ns True j u r by (auto simp: ref_lex.simps(2))
    next
      case False
      then show ?thesis using 2(3,4) ns tok by (auto simp: ref_lex.simps(2) split: if_splits)
    qed
  qed
qed simp

text \<open>A string token ends with its closing quote.\<close>

lemma ref_string_quote:
  "fst (ref_string v esc xs) \<in> {yajl_tok_string, yajl_tok_string_with_escapes} \<Longrightarrow>
   snd (snd (ref_string v esc xs)) = k \<Longrightarrow> drop (k - 1) (take k xs) = [0x22]"
proof (induction "length xs" arbitrary: xs esc k rule: less_induct)
  case less
  have sub: "drop (n + j - 1) (take (n + j) xs) = [0x22]"
    if "ref_string v esc xs = shift n (ref_string v e (drop n xs))" "snd (snd (ref_string v e (drop n xs))) = j"
      "n \<le> length xs" "0 < n" "xs \<noteq> []" for n e j
  proof -
    have f: "fst (ref_string v e (drop n xs)) \<in> {yajl_tok_string, yajl_tok_string_with_escapes}"
      using less.prems(1) that(1) by simp
    have "drop (j - 1) (take j (drop n xs)) = [0x22]"
      by (rule less.hyps [OF _ f that(2)]) (use that in simp)
    moreover have "1 \<le> j" using ref_string_end [OF f] that(2) by simp
    ultimately show ?thesis using that(3) by (simp add: take_drop add.commute)
  qed
  show ?case
  proof (cases xs)
    case (Cons c ys)
    have rw: "ref_string v esc xs = R" if "ref_string v esc (c # ys) = R" for R using that Cons by simp
    consider (quote) "c = 0x22" | (esc) "c = 0x5C" | (other) "c \<noteq> 0x22" "c \<noteq> 0x5C" by blast
    then show ?thesis
    proof cases
      case quote
      then show ?thesis using less.prems Cons by (auto simp: ref_string.simps(2))
    next
      case other
      show ?thesis
      proof (cases v)
        case False
        then have "ref_string v esc xs = shift 1 (ref_string v esc (drop 1 xs))"
          using less.prems(1) other Cons by (auto simp: ref_string.simps(2) split: if_splits)
        then show ?thesis using sub [of 1 esc] less.prems(2) Cons by auto
      next
        case True
        have "ref_string v esc xs = shift (Suc (snd (ref_utf8 c ys))) (ref_string v esc (drop (Suc (snd (ref_utf8 c ys))) xs))"
          using less.prems(1) other Cons True
          by (auto simp: ref_string.simps(2) split: if_splits prod.splits)
        then show ?thesis
          using sub [of "Suc (snd (ref_utf8 c ys))" esc] less.prems(2) Cons ref_utf8_le [of c ys] by auto
      qed
    next
      case esc
      obtain d us where us: "ys = d # us" using less.prems(1) esc Cons
        by (cases ys) (auto simp: ref_string.simps(2))
      show ?thesis
      proof (cases "d = 0x75")
        case True
        then have h: "ref_hex us = 4" using less.prems(1) esc Cons us
          by (auto simp: ref_string.simps(2) split: if_splits)
        then have "ref_string v esc xs = shift 6 (ref_string v True (drop 6 xs))"
          using esc Cons us True by (simp add: ref_string.simps(2))
        moreover have "6 \<le> length xs" using ref_hex_le(1) [of us] h Cons us by simp
        ultimately show ?thesis using sub [of 6 True] less.prems(2) Cons by auto
      next
        case False
        then have "ref_string v esc xs = shift 2 (ref_string v True (drop 2 xs))"
          using less.prems(1) esc Cons us by (auto simp: ref_string.simps(2) split: if_splits)
        then show ?thesis using sub [of 2 True] less.prems(2) Cons us by auto
      qed
    qed
  qed (use less.prems in simp)
qed

lemma ref_lex_quote:
  assumes "ref_lex cm v xs = (q, tok, e, k)" "tok = yajl_tok_string \<or> tok = yajl_tok_string_with_escapes"
  shows "drop (k - 1) (take k xs) = [0x22]"
  using assms
proof (induction cm v xs arbitrary: q tok e k rule: ref_lex.induct)
  case (2 cm v c xs)
  have sub: "drop (n + j - 1) (take (n + j) (c # xs)) = [0x22]"
    if "drop (j - 1) (take j (drop n (c # xs))) = [0x22]" "1 \<le> j" for n j
    using that by (simp add: take_drop add.commute)
  have tok: "c = 0x22 \<and> fst (ref_string v False xs) \<in> {yajl_tok_string, yajl_tok_string_with_escapes}"
    if t: "fst (ref_tok v c xs) \<in> {yajl_tok_string, yajl_tok_string_with_escapes}"
    using t ref_tok_string [OF t] by (simp add: ref_tok_def)
  show ?case
  proof (cases "is_space c")
    case True
    obtain q' t' e' k' where r: "ref_lex cm v xs = (q', t', e', k')" by (cases "ref_lex cm v xs") auto
    have "2 \<le> k'" using tok_body_length [OF r] 2(3,4) True r by (auto simp: ref_lex.simps(2))
    then show ?thesis using sub [of k' 1] 2(3,4) 2(1) [OF True r] True r
      by (auto simp: ref_lex.simps(2))
  next
    case ns: False
    show ?thesis
    proof (cases "c = 0x2F \<and> cm")
      case True
      obtain u d j where j: "ref_comment xs = (u, d, j)" by (cases "ref_comment xs") auto
      have "fst (ref_comment xs) \<notin> {yajl_tok_string, yajl_tok_string_with_escapes}"
        using ref_block_tok [of "tl xs"]
        by (auto simp: ref_comment_def ref_line_def Let_def split: list.split)
      then have u: "u = yajl_tok_comment" using 2(3,4) ns True j
        by (auto simp: ref_lex.simps(2) split: if_splits)
      obtain q' t' e' k' where r: "ref_lex cm v (drop j xs) = (q', t', e', k')"
        by (cases "ref_lex cm v (drop j xs)") auto
      have t': "t' = tok" "k = Suc j + k'" using 2(3) ns True j u r by (auto simp: ref_lex.simps(2))
      have "drop (k' - 1) (take k' (drop j xs)) = [0x22]"
        by (rule 2(2)) (use ns True j u r 2(4) t' in auto)
      moreover have "2 \<le> k'" using tok_body_length [OF r] 2(4) t' by auto
      ultimately show ?thesis using sub [of k' "Suc j"] t' by simp
    next
      case False
      then have t: "ref_tok v c xs = (tok, e, k)" using 2(3,4) ns
        by (auto simp: ref_lex.simps(2) split: if_splits)
      then have c: "c = 0x22" "fst (ref_string v False xs) \<in> {yajl_tok_string, yajl_tok_string_with_escapes}"
        using tok 2(4) by auto
      obtain j where j: "snd (snd (ref_string v False xs)) = j" by simp
      have "k = 1 + j" using t c(1) j by (auto simp: ref_tok_def shift_def)
      then show ?thesis using sub [of j 1] ref_string_quote [OF c(2) j] ref_string_end [OF c(2)] j
        by simp
    qed
  qed
qed simp

lemma lex_finish_ok:
  assumes sc: "scanned l t xs r (Some (tok, start, s))" and r: "r = ref_lex (allowComments l) (validateUTF8 l) xs"
    and room: "blen l + length t < buf_max"
  shows "lexed_as l t xs r (lex_finish t tok start s)"
proof -
  obtain q tok' e k where rr: "r = (q, tok', e, k)" by (cases r) auto
  from sc have tok': "tok' = tok" by (auto simp: scanned_def rr)
  obtain l' off' where s: "s = (l', off')"
    and l': "lex_error l' = (case e of None \<Rightarrow> lex_error l | Some x \<Rightarrow> x)"
      "allowComments l' = allowComments l" "validateUTF8 l' = validateUTF8 l"
      "buf_ok (lex_buf l')" "bufInUse l' \<longrightarrow> bufInUse l \<and> lex_buf l' = lex_buf l"
    and off: "start \<le> off'" "off' \<le> length t"
    and q: "drop q xs = (if bufInUse l' then buf_contents (lex_buf l') else []) @ drop start t"
    and k: "drop k xs = drop off' t" and kq: "k - q = blen l' + (off' - start)"
    using sc unfolding scanned_def rr prod.case by auto
  define pre where "pre = (if bufInUse l' then buf_contents (lex_buf l') else [])"
  have pre: "length pre = blen l'" using l'(4) by (simp add: pre_def blen_def)
  have bl: "blen l' \<le> blen l" using l'(5) by (auto simp: blen_def)
  define T where "T = take (k - q) (drop q xs)"
  have T: "T = pre @ take (off' - start) (drop start t)"
    unfolding T_def kq q pre_def [symmetric] by (simp add: pre)
  have lenT: "length T = k - q" using off by (simp add: T pre kq)
  have sub: "size_sub off' start = off' - start"
    by (rule size_sub_le) (use off room in simp_all)
  have piece: "cslice t start (off' - start) = Some (take (off' - start) (drop start t))"
    by (rule cslice_in) (use off in simp)
  have body: "2 \<le> k - q" if "tok = yajl_tok_string \<or> tok = yajl_tok_string_with_escapes"
    using tok_body_length [OF _ that] r rr tok' by metis
  have quote: "drop 1 T = take (k - q - 2) (drop 1 T) @ [0x22]"
    if S: "tok = yajl_tok_string \<or> tok = yajl_tok_string_with_escapes"
  proof -
    have "drop (k - 1) (take k xs) = [0x22]" using ref_lex_quote [OF _ S] r rr tok' by metis
    moreover have "drop (k - q - 1) T = drop (k - 1) (take k xs)"
    proof -
      have "q + (k - q - 1) = k - 1" "k - q - (k - q - 1) = k - (k - 1)" using body [OF S] by auto
      then show ?thesis unfolding T_def drop_take drop_drop by (simp only: add.commute)
    qed
    ultimately have "drop (k - q - 1) T = [0x22]" by simp
    moreover have "k - q - 2 + 1 = k - q - 1" using body [OF S] by simp
    then have "drop (k - q - 2) (drop 1 T) = drop (k - q - 1) T" by (simp only: drop_drop)
    ultimately show ?thesis using append_take_drop_id [of "k - q - 2" "drop 1 T"] by simp
  qed
  have quote': "take (Suc (k - q - 2)) (drop 1 T) = tok_body tok T @ [0x22]" "Suc (k - q - 2) = k - q - 1"
    if S: "tok = yajl_tok_string \<or> tok = yajl_tok_string_with_escapes"
  proof -
    show e: "Suc (k - q - 2) = k - q - 1" using body [OF S] by simp
    have "take (Suc (k - q - 2)) (drop 1 T) = drop 1 T" unfolding e by (simp add: lenT)
    moreover have "tok_body tok T = take (k - q - 2) (drop 1 T)"
      using S by (simp add: tok_body_def lenT drop_Suc)
    ultimately show "take (Suc (k - q - 2)) (drop 1 T) = tok_body tok T @ [0x22]"
      using quote [OF S] by simp
  qed
  have bodyT: "tok_body tok T = (if tok = yajl_tok_string \<or> tok = yajl_tok_string_with_escapes
      then take (k - q - 2) (drop 1 T) else T)"
    by (simp add: tok_body_def lenT drop_Suc)
  show ?thesis
  proof (cases "tok = yajl_tok_eof \<or> bufInUse l'")
    case True
    define b0 where "b0 = (if bufInUse l' then lex_buf l' else yajl_buf_clear (lex_buf l'))"
    have b0: "buf_ok b0" "buf_contents b0 = pre" "buf_used b0 = blen l'"
      using l'(4) by (auto simp: b0_def pre_def blen_def buf_clear_ok)
    obtain b1 where b1: "yajl_buf_append b0 (take (off' - start) (drop start t)) = Some b1"
      "buf_ok b1" "buf_contents b1 = T" "buf_used b1 = k - q"
      by (rule yajl_buf_append_ok [OF b0(1), of "take (off' - start) (drop start t)"])
        (use b0 room bl off kq T in auto)
    define l1 where "l1 = l'\<lparr>lex_buf := b1, bufInUse := tok = yajl_tok_eof, bufOff := 0\<rparr>"
    have fin: "lex_finish t tok start s =
        (let ptr = (if tok \<noteq> yajl_tok_eof then PLex 0 else PNull);
             n = (if tok \<noteq> yajl_tok_eof then k - q else 0) in
         Some (tok, if tok = yajl_tok_string \<or> tok = yajl_tok_string_with_escapes
                    then (ptr_inc ptr, n - 2, (l1, off')) else (ptr, n, (l1, off'))))"
      using True body
      by (auto simp: lex_finish_def s sub piece b0_def [symmetric] b1 l1_def yajl_buf_len_def Let_def)
    show ?thesis
    proof (cases "tok = yajl_tok_eof")
      case eof: True
      have p: "ref_lex (allowComments l) (validateUTF8 l) xs = (q, yajl_tok_eof, e, k)"
        using r rr tok' eof by simp
      have kl: "k = length xs" by (rule ref_lex_pending(2) [OF p])
      have "off' = length t" using k off(2) kl by simp
      moreover have "T = drop q xs" by (simp add: T_def kl)
      moreover have "lex_ready l1"
        using ref_lex_pending(3) [OF p] b1 \<open>T = drop q xs\<close> l'
        by (simp add: lex_ready_def l1_def eof)
      moreover have "lex_finish t tok start s = Some (tok, PNull, 0, (l1, off'))"
        unfolding fin using eof by simp
      ultimately show ?thesis unfolding rr tok'
        by (intro lexed_asI [where ptr = PNull and n = 0 and l' = l1 and off' = off'])
          (use eof l' b1 in \<open>simp_all add: l1_def\<close>)
    next
      case False
      have m: "cells_bytes (buf_data b1) i n = Some (take n (drop i T))" if "i + n \<le> k - q" for i n
        using cells_bytes_buf [OF b1(2)] that b1(3,4) by simp
      let ?S = "tok = yajl_tok_string \<or> tok = yajl_tok_string_with_escapes"
      have sm: "cells_bytes (buf_data b1) 1 (Suc (k - q - 2)) = Some (tok_body tok T @ [0x22])" if ?S
        using m [of 1 "Suc (k - q - 2)"] quote' [OF that] by simp
      show ?thesis unfolding rr tok'
      proof (rule lexed_asI [where ptr = "if ?S then PLex 1 else PLex 0"
            and n = "if ?S then k - q - 2 else k - q" and l' = l1 and off' = off'])
        show "lex_ready l1" using False b1(2) by (simp add: lex_ready_def l1_def)
      qed (use False l' k off body lenT m [of 0 "k - q"] m [of 1 "k - q - 2"] sm in
          \<open>auto simp: fin l1_def bodyT T_def [symmetric]\<close>)
    qed
  next
    case False
    then have T': "T = take (k - q) (drop start t)" and kq': "k - q = off' - start"
      using T kq pre by (simp_all add: pre_def blen_def)
    have m: "cslice t (start + i) n = Some (take n (drop i T))" if "i + n \<le> k - q" for i n
    proof -
      have "take n (drop (start + i) t) = take n (drop i T)"
        using that by (simp add: T' drop_take min_def add.commute)
      then show ?thesis using that off kq' by (subst cslice_in) auto
    qed
    have fin: "lex_finish t tok start s =
        (let ptr = (if tok \<noteq> yajl_tok_error then PText start else PNull);
             n = (if tok \<noteq> yajl_tok_error then k - q else 0) in
         Some (tok, if tok = yajl_tok_string \<or> tok = yajl_tok_string_with_escapes
                    then (ptr_inc ptr, n - 2, (l', off')) else (ptr, n, (l', off'))))"
      using False body kq' by (auto simp: lex_finish_def s sub Let_def)
    let ?S = "tok = yajl_tok_string \<or> tok = yajl_tok_string_with_escapes"
    have sm: "cslice t (start + 1) (Suc (k - q - 2)) = Some (tok_body tok T @ [0x22])" if ?S
      using m [of 1 "Suc (k - q - 2)"] quote' [OF that] by simp
    show ?thesis unfolding rr tok'
    proof (rule lexed_asI [where ptr = "if tok = yajl_tok_error then PNull else if ?S then PText (Suc start) else PText start"
          and n = "if tok = yajl_tok_error then 0 else if ?S then k - q - 2 else k - q" and l' = l' and off' = off'])
      show "lex_ready l'" using False l' by (simp add: lex_ready_def)
    qed (use False l' k off body lenT m [of 0 "k - q"] m [of 1 "k - q - 2"] sm in
        \<open>auto simp: fin bodyT T_def [symmetric]\<close>)
  qed
qed

theorem yajl_lex_lex_ref:
  assumes "lex_ready l" "off \<le> length t" "bufInUse l \<Longrightarrow> off = 0"
    and "blen l + length t < buf_max"
  shows "lexed_as l t (drop off (ftext l t))
    (ref_lex (allowComments l) (validateUTF8 l) (drop off (ftext l t)))
    (yajl_lex_lex t (length t) (l, off))"
proof (cases "t = []")
  case True
  then have xs: "drop off (ftext l t) = (if bufInUse l then buf_contents (lex_buf l) else [])"
    and off: "off = 0" using assms(2) by (auto simp: ftext_def)
  have ok: "buf_ok (lex_buf l)" using assms(1) by (simp add: lex_ready_def)
  obtain e k where r: "ref_lex (allowComments l) (validateUTF8 l) (drop off (ftext l t)) = (0, yajl_tok_eof, e, k)"
    using assms(1) xs by (cases "bufInUse l") (auto simp: lex_ready_def)
  note p = ref_lex_pending(1,2) [OF r]
  have "lex_scan t (length t) off (l, off) = Some (yajl_tok_eof, 0, (l, 0))"
    using True off by (subst lex_scan.simps) (simp add: at_eof_def)
  moreover have "scanned l t (drop off (ftext l t)) (0, yajl_tok_eof, e, k) (Some (yajl_tok_eof, 0, (l, 0)))"
    by (rule scannedI [OF refl]) (use ok True xs p in \<open>auto simp: blen_def\<close>)
  ultimately show ?thesis using lex_finish_ok [OF _ r [symmetric] assms(4)] r
    by (simp add: yajl_lex_lex_def)
next
  case False
  note sc = lex_scan_ready [OF assms(1-3) False refl]
  then obtain tok start s where "lex_scan t (length t) off (l, off) = Some (tok, start, s)"
    by (auto simp: scanned_def split: prod.splits)
  then show ?thesis using lex_finish_ok [OF _ refl assms(4)] sc by (simp add: yajl_lex_lex_def)
qed

end
