(* ===== verification/Yajl_Parser.thy ===== *)
theory Yajl_Parser
  imports Yajl_Lex Yajl_Decode
begin

text \<open>
  The push parser of \<open>jni/yajl/src/yajl_parser.c\<close>, its state stack (\<open>yajl_bytestack.h\<close>) and the
  public interface of \<open>yajl.c\<close>. One iteration of the loop \<open>around_again\<close> is a step function per
  group of parser states; the loop itself may in principle run forever and is a
  \<open>partial_function\<close>. Client callbacks are functions on the client's context; they see the
  memory the pointers they get point into.

  \<open>errno\<close> is the flag \<open>c_erange\<close> (whether it holds \<open>ERANGE\<close>): it is global, no function of
  the parser resets it, and callbacks are taken not to write it. \<open>strtod\<close> is an argument, as
  doubles stay abstract.
\<close>

section \<open>States and the byte stack\<close>

datatype yajl_state =
    yajl_state_start | yajl_state_parse_complete | yajl_state_parse_error
  | yajl_state_lexical_error | yajl_state_map_start | yajl_state_map_sep
  | yajl_state_map_need_val | yajl_state_map_got_val | yajl_state_map_need_key
  | yajl_state_array_start | yajl_state_array_got_val | yajl_state_array_need_val
  | yajl_state_got_value

datatype yajl_status = yajl_status_ok | yajl_status_client_canceled | yajl_status_error

record yajl_bytestack =
  bs_stack :: "yajl_state option list"
  bs_size :: nat
  bs_used :: nat

abbreviation YAJL_BS_INC :: nat where
  "YAJL_BS_INC \<equiv> 128"

definition yajl_bs_init :: yajl_bytestack where
  "yajl_bs_init = \<lparr>bs_stack = [], bs_size = 0, bs_used = 0\<rparr>"

definition yajl_bs_current :: "yajl_bytestack \<Rightarrow> yajl_state option" where
  "yajl_bs_current obs =
     (if bs_used obs = 0 then None
      else do { c \<leftarrow> rd (bs_stack obs) (bs_used obs - 1); c })"

definition bs_realloc :: "'a option list \<Rightarrow> nat \<Rightarrow> 'a option list" where
  "bs_realloc xs n = take n xs @ replicate (n - length xs) None"

definition yajl_bs_push :: "yajl_bytestack \<Rightarrow> yajl_state \<Rightarrow> yajl_bytestack option" where
  "yajl_bs_push obs st =
     (let obs1 = (if size_sub (bs_size obs) (bs_used obs) = 0
                  then let n = (bs_size obs + YAJL_BS_INC) mod size_mod
                       in obs\<lparr>bs_size := n, bs_stack := bs_realloc (bs_stack obs) n\<rparr>
                  else obs)
      in do { a \<leftarrow> wr (bs_stack obs1) (bs_used obs1) (Some st);
              Some (obs1\<lparr>bs_stack := a, bs_used := Suc (bs_used obs1)\<rparr>) })"

definition yajl_bs_pop :: "yajl_bytestack \<Rightarrow> yajl_bytestack" where
  "yajl_bs_pop obs = obs\<lparr>bs_used := size_pred (bs_used obs)\<rparr>"

definition yajl_bs_set :: "yajl_bytestack \<Rightarrow> yajl_state \<Rightarrow> yajl_bytestack option" where
  "yajl_bs_set obs st =
     (if bs_used obs = 0 then None
      else do { a \<leftarrow> wr (bs_stack obs) (bs_used obs - 1) (Some st); Some (obs\<lparr>bs_stack := a\<rparr>) })"

section \<open>Client memory and callbacks\<close>

text \<open>The C string at the start of a block.\<close>

fun cells_cstr :: "cells \<Rightarrow> bytes option" where
  "cells_cstr [] = None"
| "cells_cstr (c # cs) =
     do { b \<leftarrow> c; if b = 0 then Some [] else do { r \<leftarrow> cells_cstr cs; Some (b # r) } }"

text \<open>A callback returns the new context and whether to go on; \<open>None\<close> inside a field is a
  callback without defined result, an absent field is a \<open>NULL\<close> entry of \<open>yajl_callbacks\<close>.\<close>

record ('c, 'd) yajl_callbacks =
  cb_null :: "('c \<Rightarrow> cmem \<Rightarrow> ('c \<times> bool) option) option"
  cb_boolean :: "('c \<Rightarrow> cmem \<Rightarrow> bool \<Rightarrow> ('c \<times> bool) option) option"
  cb_integer :: "('c \<Rightarrow> cmem \<Rightarrow> 64 word \<Rightarrow> ('c \<times> bool) option) option"
  cb_double :: "('c \<Rightarrow> cmem \<Rightarrow> 'd \<Rightarrow> ('c \<times> bool) option) option"
  cb_number :: "('c \<Rightarrow> cmem \<Rightarrow> strptr \<Rightarrow> nat \<Rightarrow> ('c \<times> bool) option) option"
  cb_string :: "('c \<Rightarrow> cmem \<Rightarrow> strptr \<Rightarrow> nat \<Rightarrow> ('c \<times> bool) option) option"
  cb_start_map :: "('c \<Rightarrow> cmem \<Rightarrow> ('c \<times> bool) option) option"
  cb_map_key :: "('c \<Rightarrow> cmem \<Rightarrow> strptr \<Rightarrow> nat \<Rightarrow> ('c \<times> bool) option) option"
  cb_end_map :: "('c \<Rightarrow> cmem \<Rightarrow> ('c \<times> bool) option) option"
  cb_start_array :: "('c \<Rightarrow> cmem \<Rightarrow> ('c \<times> bool) option) option"
  cb_end_array :: "('c \<Rightarrow> cmem \<Rightarrow> ('c \<times> bool) option) option"

record ('c, 'd) yajl_handle =
  callbacks :: "('c, 'd) yajl_callbacks option"
  hctx :: 'c
  lexer :: "yajl_lexer option"
  parseError :: "string option"
  bytesConsumed :: nat
  decodeBuf :: yajl_buf
  stateStack :: yajl_bytestack
  flags :: "32 word"
  c_erange :: bool

text \<open>What \<open>strtod\<close> returns: the value, whether it is \<open>HUGE_VAL\<close> or \<open>-HUGE_VAL\<close>, and whether
  \<open>errno\<close> is set to \<open>ERANGE\<close>.\<close>

record 'd strtod_result =
  sd_value :: 'd
  sd_huge :: bool
  sd_erange :: bool

section \<open>Flags and allocation\<close>

definition yajl_allow_comments :: "32 word" where "yajl_allow_comments = 0x01"
definition yajl_dont_validate_strings :: "32 word" where "yajl_dont_validate_strings = 0x02"
definition yajl_allow_trailing_garbage :: "32 word" where "yajl_allow_trailing_garbage = 0x04"
definition yajl_allow_multiple_values :: "32 word" where "yajl_allow_multiple_values = 0x08"
definition yajl_allow_partial_values :: "32 word" where "yajl_allow_partial_values = 0x10"

definition has_flag :: "('c, 'd) yajl_handle \<Rightarrow> 32 word \<Rightarrow> bool" where
  "has_flag h f \<longleftrightarrow> flags h AND f \<noteq> 0"

text \<open>\<open>yajl_alloc\<close>; \<open>parseError\<close> stays uninitialised. \<open>erange\<close> is the state of \<open>errno\<close>.\<close>

definition yajl_alloc ::
  "('c, 'd) yajl_callbacks option \<Rightarrow> bool \<Rightarrow> 'c \<Rightarrow> bool \<Rightarrow> ('c, 'd) yajl_handle option" where
  "yajl_alloc cbs complete_afs ctx erange =
     (if \<not> complete_afs then None
      else do { st \<leftarrow> yajl_bs_push yajl_bs_init yajl_state_start;
                Some \<lparr>callbacks = cbs, hctx = ctx, lexer = None, parseError = None,
                      bytesConsumed = 0, decodeBuf = yajl_buf_alloc, stateStack = st, flags = 0,
                      c_erange = erange\<rparr> })"

definition yajl_config ::
  "('c, 'd) yajl_handle \<Rightarrow> 32 word \<Rightarrow> bool \<Rightarrow> bool \<times> ('c, 'd) yajl_handle" where
  "yajl_config h opt v =
     (if opt \<in> {yajl_allow_comments, yajl_dont_validate_strings, yajl_allow_trailing_garbage,
                yajl_allow_multiple_values, yajl_allow_partial_values}
      then (True, h\<lparr>flags := (if v then flags h OR opt else flags h AND NOT opt)\<rparr>)
      else (False, h))"

definition yajl_get_bytes_consumed :: "('c, 'd) yajl_handle option \<Rightarrow> nat" where
  "yajl_get_bytes_consumed h = (case h of None \<Rightarrow> 0 | Some h \<Rightarrow> bytesConsumed h)"

definition yajl_status_to_string :: "yajl_status \<Rightarrow> string" where
  "yajl_status_to_string st =
     (case st of
        yajl_status_ok \<Rightarrow> ''ok, no error''
      | yajl_status_client_canceled \<Rightarrow> ''client canceled parse''
      | yajl_status_error \<Rightarrow> ''parse error'')"

section \<open>Integers\<close>

definition LLONG_MAX :: "64 word" where "LLONG_MAX = 0x7FFFFFFFFFFFFFFF"
definition LLONG_MIN :: "64 word" where "LLONG_MIN = 0x8000000000000000"

definition MAX_VALUE_TO_MULTIPLY :: "64 word" where
  "MAX_VALUE_TO_MULTIPLY = LLONG_MAX div 10 + LLONG_MAX mod 10"

text \<open>
  The digit loop. \<open>ret *= 10\<close> can overflow when \<open>ret\<close> is just below \<open>MAX_VALUE_TO_MULTIPLY\<close>; the
  products here wrap, as they do on the targets. The Boolean says that \<open>errno\<close> was set to
  \<open>ERANGE\<close>.
\<close>

function parse_integer_loop ::
  "(nat \<Rightarrow> byte option) \<Rightarrow> nat \<Rightarrow> bool \<Rightarrow> nat \<Rightarrow> 64 word \<Rightarrow> (64 word \<times> bool) option"
where
  "parse_integer_loop get len neg pos ret =
     (if pos < len then
        (if MAX_VALUE_TO_MULTIPLY <s ret then Some (if neg then LLONG_MIN else LLONG_MAX, True)
         else do { let ret1 = ret * 10;
                   c \<leftarrow> get pos;
                   let d = ucast c - 0x30;
                   if LLONG_MAX - ret1 <s d then Some (if neg then LLONG_MIN else LLONG_MAX, True)
                   else parse_integer_loop get len neg (Suc pos) (ret1 + d) })
      else Some (if neg then - ret else ret, False))"
  by pat_completeness auto
termination by (relation "measure (\<lambda>(_, len, _, pos, _). len - pos)") auto

declare parse_integer_loop.simps [simp del]

definition yajl_parse_integer :: "(nat \<Rightarrow> byte option) \<Rightarrow> nat \<Rightarrow> (64 word \<times> bool) option" where
  "yajl_parse_integer get len =
     do { c0 \<leftarrow> get 0;
          let p1 = (if c0 = 0x2D then 1 else 0);
          c1 \<leftarrow> get p1;
          let p2 = (if c1 = 0x2B then Suc p1 else p1);
          parse_integer_loop get len (c0 = 0x2D) p2 0 }"

section \<open>One iteration of the parser\<close>

datatype ('c, 'd) pstep =
    Return yajl_status "('c, 'd) yajl_handle"
  | Again "('c, 'd) yajl_handle"

definition the_mem :: "bytes \<Rightarrow> ('c, 'd) yajl_handle \<Rightarrow> cmem" where
  "the_mem jsonText h =
     \<lparr>mem_text = jsonText,
      mem_lex = (case lexer h of None \<Rightarrow> None | Some l \<Rightarrow> buf_data (lex_buf l)),
      mem_dec = buf_data (decodeBuf h)\<rparr>"

definition set_top :: "yajl_state \<Rightarrow> ('c, 'd) yajl_handle \<Rightarrow> ('c, 'd) yajl_handle option" where
  "set_top st h = do { b \<leftarrow> yajl_bs_set (stateStack h) st; Some (h\<lparr>stateStack := b\<rparr>) }"

definition pop_state :: "('c, 'd) yajl_handle \<Rightarrow> ('c, 'd) yajl_handle" where
  "pop_state h = h\<lparr>stateStack := yajl_bs_pop (stateStack h)\<rparr>"

definition fail_parse :: "string \<Rightarrow> ('c, 'd) yajl_handle \<Rightarrow> ('c, 'd) yajl_handle option" where
  "fail_parse msg h =
     do { h1 \<leftarrow> set_top yajl_state_parse_error h; Some (h1\<lparr>parseError := Some msg\<rparr>) }"

definition quoted :: "char \<Rightarrow> string" where
  "quoted c = [CHR 0x27, c, CHR 0x27]"

definition restore_offset :: "nat \<Rightarrow> ('c, 'd) yajl_handle \<Rightarrow> ('c, 'd) yajl_handle" where
  "restore_offset n h =
     h\<lparr>bytesConsumed := (if n \<le> bytesConsumed h then bytesConsumed h - n else 0)\<rparr>"

text \<open>\<open>goto around_again\<close> after an update.\<close>

definition again :: "('c, 'd) yajl_handle option \<Rightarrow> ('c, 'd) pstep option" where
  "again h = map_option Again h"

text \<open>\<open>_CC_CHK\<close>: the outcome of a callback, then \<open>k\<close>.\<close>

definition cc_chk ::
  "('c, 'd) yajl_handle \<Rightarrow> ('c \<times> bool) option \<Rightarrow>
   (('c, 'd) yajl_handle \<Rightarrow> ('c, 'd) pstep option) \<Rightarrow> ('c, 'd) pstep option" where
  "cc_chk h r k =
     do { x \<leftarrow> r;
          let h1 = h\<lparr>hctx := fst x\<rparr>;
          if snd x then k h1
          else do { h2 \<leftarrow> fail_parse ''client cancelled parse via callback return value'' h1;
                    Some (Return yajl_status_client_canceled h2) } }"

text \<open>\<open>if (hand->callbacks && hand->callbacks->f) _CC_CHK(...)\<close>.\<close>

definition the_cb ::
  "(('c, 'd) yajl_callbacks \<Rightarrow> 'f option) \<Rightarrow> ('c, 'd) yajl_handle \<Rightarrow> 'f option" where
  "the_cb sel h = (case callbacks h of None \<Rightarrow> None | Some c \<Rightarrow> sel c)"

definition with_cb ::
  "(('c, 'd) yajl_callbacks \<Rightarrow> ('c \<Rightarrow> cmem \<Rightarrow> 'f) option) \<Rightarrow> ('f \<Rightarrow> ('c \<times> bool) option) \<Rightarrow>
   bytes \<Rightarrow> ('c, 'd) yajl_handle \<Rightarrow> (('c, 'd) yajl_handle \<Rightarrow> ('c, 'd) pstep option) \<Rightarrow>
   ('c, 'd) pstep option" where
  "with_cb sel app jsonText h k =
     (case the_cb sel h of
        None \<Rightarrow> k h
      | Some f \<Rightarrow> cc_chk h (app (f (hctx h) (the_mem jsonText h))) k)"

text \<open>\<open>yajl_lex_lex\<close> on the handle's lexer, from and to \<open>*offset\<close>.\<close>

definition next_tok ::
  "bytes \<Rightarrow> nat \<Rightarrow> ('c, 'd) yajl_handle \<Rightarrow>
   (yajl_tok \<times> strptr \<times> nat \<times> ('c, 'd) yajl_handle) option" where
  "next_tok jsonText tlen h =
     do { l \<leftarrow> lexer h;
          r \<leftarrow> yajl_lex_lex jsonText tlen (l, bytesConsumed h);
          let s = snd (snd (snd r));
          Some (fst r, fst (snd r), fst (snd (snd r)),
                h\<lparr>lexer := Some (fst s), bytesConsumed := snd s\<rparr>) }"

text \<open>\<open>yajl_buf_clear(decodeBuf); yajl_string_decode(decodeBuf, buf, bufLen)\<close>; the decoder may look
  at bytes after the token (the closing quote is one), so it gets all of the memory there.\<close>

definition decode_tok ::
  "bytes \<Rightarrow> strptr \<Rightarrow> nat \<Rightarrow> ('c, 'd) yajl_handle \<Rightarrow> ('c, 'd) yajl_handle option" where
  "decode_tok jsonText buf bufLen h =
     do { s \<leftarrow> mem_from (the_mem jsonText h) buf;
          b \<leftarrow> yajl_string_decode (yajl_buf_clear (decodeBuf h)) s bufLen;
          Some (h\<lparr>decodeBuf := b\<rparr>) }"

definition step_integer ::
  "bytes \<Rightarrow> strptr \<Rightarrow> nat \<Rightarrow> ('c, 'd) yajl_handle \<Rightarrow> (('c, 'd) yajl_handle \<Rightarrow> ('c, 'd) pstep option) \<Rightarrow>
   ('c, 'd) pstep option" where
  "step_integer jsonText buf bufLen h k =
     (case the_cb cb_number h of
        Some f \<Rightarrow> cc_chk h (f (hctx h) (the_mem jsonText h) buf bufLen) k
      | None \<Rightarrow>
          (case the_cb cb_integer h of
             None \<Rightarrow> k h
           | Some f \<Rightarrow>
               do { r \<leftarrow> yajl_parse_integer (mem_byte (the_mem jsonText h) buf) bufLen;
                    let h1 = h\<lparr>c_erange := c_erange h \<or> snd r\<rparr>;
                    if (fst r = LLONG_MIN \<or> fst r = LLONG_MAX) \<and> c_erange h1
                    then do { h2 \<leftarrow> fail_parse ''integer overflow'' h1;
                              again (Some (restore_offset bufLen h2)) }
                    else cc_chk h1 (f (hctx h1) (the_mem jsonText h1) (fst r)) k }))"

definition step_double ::
  "(bytes \<Rightarrow> 'd strtod_result) \<Rightarrow> bytes \<Rightarrow> strptr \<Rightarrow> nat \<Rightarrow> ('c, 'd) yajl_handle \<Rightarrow>
   (('c, 'd) yajl_handle \<Rightarrow> ('c, 'd) pstep option) \<Rightarrow> ('c, 'd) pstep option" where
  "step_double strtod jsonText buf bufLen h k =
     (case the_cb cb_number h of
        Some f \<Rightarrow> cc_chk h (f (hctx h) (the_mem jsonText h) buf bufLen) k
      | None \<Rightarrow>
          (case the_cb cb_double h of
             None \<Rightarrow> k h
           | Some f \<Rightarrow>
               do { s \<leftarrow> mem_bytes (the_mem jsonText h) buf bufLen;
                    b \<leftarrow> yajl_buf_append (yajl_buf_clear (decodeBuf h)) s;
                    cs \<leftarrow> buf_data b;
                    num \<leftarrow> cells_cstr cs;
                    let d = strtod num;
                    let h1 = h\<lparr>decodeBuf := b, c_erange := c_erange h \<or> sd_erange d\<rparr>;
                    if sd_huge d \<and> c_erange h1
                    then do { h2 \<leftarrow> fail_parse ''numeric (floating point) overflow'' h1;
                              again (Some (restore_offset bufLen h2)) }
                    else cc_chk h1 (f (hctx h1) (the_mem jsonText h1) (sd_value d)) k }))"

text \<open>"got a value": the transition of the current depth, then the push of the next one.\<close>

definition got_value :: "yajl_state option \<Rightarrow> ('c, 'd) yajl_handle \<Rightarrow> ('c, 'd) pstep option" where
  "got_value push h =
     do { s \<leftarrow> yajl_bs_current (stateStack h);
          h1 \<leftarrow> set_top (if s = yajl_state_start \<or> s = yajl_state_got_value
                         then yajl_state_parse_complete
                         else if s = yajl_state_map_need_val then yajl_state_map_got_val
                         else yajl_state_array_got_val) h;
          case push of
            None \<Rightarrow> Some (Again h1)
          | Some st \<Rightarrow> do { b \<leftarrow> yajl_bs_push (stateStack h1) st;
                            Some (Again (h1\<lparr>stateStack := b\<rparr>)) } }"

text \<open>The inner \<open>switch (tok)\<close> of each group of states, then the group itself.\<close>

definition value_tok ::
  "(bytes \<Rightarrow> 'd strtod_result) \<Rightarrow> bytes \<Rightarrow> yajl_tok \<Rightarrow> strptr \<Rightarrow> nat \<Rightarrow> ('c, 'd) yajl_handle \<Rightarrow>
   ('c, 'd) pstep option" where
  "value_tok strtod jsonText tok buf bufLen h =
     (let unallowed = again (fail_parse ''unallowed token at this point in JSON text'' h) in
      case tok of
            yajl_tok_eof \<Rightarrow> Some (Return yajl_status_ok h)
          | yajl_tok_error \<Rightarrow> again (set_top yajl_state_lexical_error h)
          | yajl_tok_string \<Rightarrow> with_cb cb_string (\<lambda>f. f buf bufLen) jsonText h (got_value None)
          | yajl_tok_string_with_escapes \<Rightarrow>
              (case the_cb cb_string h of
                 None \<Rightarrow> got_value None h
               | Some _ \<Rightarrow>
                   do { h1 \<leftarrow> decode_tok jsonText buf bufLen h;
                        with_cb cb_string (\<lambda>f. f (PDec 0) (yajl_buf_len (decodeBuf h1))) jsonText h1
                          (got_value None) })
          | yajl_tok_bool \<Rightarrow>
              (case the_cb cb_boolean h of
                 None \<Rightarrow> got_value None h
               | Some _ \<Rightarrow>
                   do { c \<leftarrow> mem_byte (the_mem jsonText h) buf 0;
                        with_cb cb_boolean (\<lambda>f. f (c = 0x74)) jsonText h (got_value None) })
          | yajl_tok_null \<Rightarrow> with_cb cb_null (\<lambda>f. f) jsonText h (got_value None)
          | yajl_tok_left_bracket \<Rightarrow>
              with_cb cb_start_map (\<lambda>f. f) jsonText h (got_value (Some yajl_state_map_start))
          | yajl_tok_left_brace \<Rightarrow>
              with_cb cb_start_array (\<lambda>f. f) jsonText h (got_value (Some yajl_state_array_start))
          | yajl_tok_integer \<Rightarrow> step_integer jsonText buf bufLen h (got_value None)
          | yajl_tok_double \<Rightarrow> step_double strtod jsonText buf bufLen h (got_value None)
          | yajl_tok_right_brace \<Rightarrow>
              do { st \<leftarrow> yajl_bs_current (stateStack h);
                   if st = yajl_state_array_start
                   then with_cb cb_end_array (\<lambda>f. f) jsonText h (\<lambda>h1. Some (Again (pop_state h1)))
                   else unallowed }
          | yajl_tok_colon \<Rightarrow> unallowed
          | yajl_tok_comma \<Rightarrow> unallowed
          | yajl_tok_right_bracket \<Rightarrow> unallowed
          | _ \<Rightarrow> again (fail_parse ''invalid token, internal error'' h))"

definition step_value ::
  "(bytes \<Rightarrow> 'd strtod_result) \<Rightarrow> bytes \<Rightarrow> nat \<Rightarrow> ('c, 'd) yajl_handle \<Rightarrow> ('c, 'd) pstep option" where
  "step_value strtod jsonText tlen h =
     do { r \<leftarrow> next_tok jsonText tlen h;
          value_tok strtod jsonText (fst r) (fst (snd r)) (fst (snd (snd r))) (snd (snd (snd r))) }"

definition key_tok ::
  "bytes \<Rightarrow> yajl_tok \<Rightarrow> strptr \<Rightarrow> nat \<Rightarrow> ('c, 'd) yajl_handle \<Rightarrow> ('c, 'd) pstep option" where
  "key_tok jsonText tok buf bufLen h =
     (let sep = (\<lambda>h1. again (set_top yajl_state_map_sep h1));
          bad = again (fail_parse ''invalid object key (must be a string)'' h) in
      case tok of
            yajl_tok_eof \<Rightarrow> Some (Return yajl_status_ok h)
          | yajl_tok_error \<Rightarrow> again (set_top yajl_state_lexical_error h)
          | yajl_tok_string_with_escapes \<Rightarrow>
              (case the_cb cb_map_key h of
                 None \<Rightarrow> sep h
               | Some _ \<Rightarrow>
                   do { h1 \<leftarrow> decode_tok jsonText buf bufLen h;
                        with_cb cb_map_key (\<lambda>f. f (PDec 0) (yajl_buf_len (decodeBuf h1))) jsonText h1
                          sep })
          | yajl_tok_string \<Rightarrow> with_cb cb_map_key (\<lambda>f. f buf bufLen) jsonText h sep
          | yajl_tok_right_bracket \<Rightarrow>
              do { st \<leftarrow> yajl_bs_current (stateStack h);
                   if st = yajl_state_map_start
                   then with_cb cb_end_map (\<lambda>f. f) jsonText h (\<lambda>h1. Some (Again (pop_state h1)))
                   else bad }
          | _ \<Rightarrow> bad)"

definition step_key :: "bytes \<Rightarrow> nat \<Rightarrow> ('c, 'd) yajl_handle \<Rightarrow> ('c, 'd) pstep option" where
  "step_key jsonText tlen h =
     do { r \<leftarrow> next_tok jsonText tlen h;
          key_tok jsonText (fst r) (fst (snd r)) (fst (snd (snd r))) (snd (snd (snd r))) }"

definition sep_tok :: "yajl_tok \<Rightarrow> ('c, 'd) yajl_handle \<Rightarrow> ('c, 'd) pstep option" where
  "sep_tok tok h =
     (case tok of
            yajl_tok_colon \<Rightarrow> again (set_top yajl_state_map_need_val h)
          | yajl_tok_eof \<Rightarrow> Some (Return yajl_status_ok h)
          | yajl_tok_error \<Rightarrow> again (set_top yajl_state_lexical_error h)
          | _ \<Rightarrow> again (fail_parse (''object key and value must be separated by a colon ('' @
                     quoted (CHR '':'') @ '')'') h))"

definition step_sep :: "bytes \<Rightarrow> nat \<Rightarrow> ('c, 'd) yajl_handle \<Rightarrow> ('c, 'd) pstep option" where
  "step_sep jsonText tlen h =
     do { r \<leftarrow> next_tok jsonText tlen h;
          sep_tok (fst r) (snd (snd (snd r))) }"

definition map_got_val_tok ::
  "bytes \<Rightarrow> yajl_tok \<Rightarrow> nat \<Rightarrow> ('c, 'd) yajl_handle \<Rightarrow> ('c, 'd) pstep option" where
  "map_got_val_tok jsonText tok bufLen h =
     (case tok of
            yajl_tok_right_bracket \<Rightarrow>
              with_cb cb_end_map (\<lambda>f. f) jsonText h (\<lambda>h1. Some (Again (pop_state h1)))
          | yajl_tok_comma \<Rightarrow> again (set_top yajl_state_map_need_key h)
          | yajl_tok_eof \<Rightarrow> Some (Return yajl_status_ok h)
          | yajl_tok_error \<Rightarrow> again (set_top yajl_state_lexical_error h)
          | _ \<Rightarrow> again (map_option (restore_offset bufLen)
                   (fail_parse (''after key and value, inside map, I expect '' @ quoted (CHR '','') @
                      '' or '' @ quoted (CHR ''}'')) h)))"

definition step_map_got_val :: "bytes \<Rightarrow> nat \<Rightarrow> ('c, 'd) yajl_handle \<Rightarrow> ('c, 'd) pstep option" where
  "step_map_got_val jsonText tlen h =
     do { r \<leftarrow> next_tok jsonText tlen h;
          map_got_val_tok jsonText (fst r) (fst (snd (snd r))) (snd (snd (snd r))) }"

definition array_got_val_tok ::
  "bytes \<Rightarrow> yajl_tok \<Rightarrow> ('c, 'd) yajl_handle \<Rightarrow> ('c, 'd) pstep option" where
  "array_got_val_tok jsonText tok h =
     (case tok of
            yajl_tok_right_brace \<Rightarrow>
              with_cb cb_end_array (\<lambda>f. f) jsonText h (\<lambda>h1. Some (Again (pop_state h1)))
          | yajl_tok_comma \<Rightarrow> again (set_top yajl_state_array_need_val h)
          | yajl_tok_eof \<Rightarrow> Some (Return yajl_status_ok h)
          | yajl_tok_error \<Rightarrow> again (set_top yajl_state_lexical_error h)
          | _ \<Rightarrow> again (fail_parse (''after array element, I expect '' @ quoted (CHR '','') @ '' or '' @
                     quoted (CHR '']'')) h))"

definition step_array_got_val :: "bytes \<Rightarrow> nat \<Rightarrow> ('c, 'd) yajl_handle \<Rightarrow> ('c, 'd) pstep option" where
  "step_array_got_val jsonText tlen h =
     do { r \<leftarrow> next_tok jsonText tlen h;
          array_got_val_tok jsonText (fst r) (snd (snd (snd r))) }"

definition step_complete :: "bytes \<Rightarrow> nat \<Rightarrow> ('c, 'd) yajl_handle \<Rightarrow> ('c, 'd) pstep option" where
  "step_complete jsonText tlen h0 =
     (if has_flag h0 yajl_allow_multiple_values then again (set_top yajl_state_got_value h0)
      else if \<not> has_flag h0 yajl_allow_trailing_garbage \<and> bytesConsumed h0 \<noteq> tlen then
        do { r \<leftarrow> next_tok jsonText tlen h0;
             let h = snd (snd (snd r));
             if fst r \<noteq> yajl_tok_eof then again (fail_parse ''trailing garbage'' h)
             else Some (Again h) }
      else Some (Return yajl_status_ok h0))"

definition parse_step ::
  "(bytes \<Rightarrow> 'd strtod_result) \<Rightarrow> bytes \<Rightarrow> nat \<Rightarrow> ('c, 'd) yajl_handle \<Rightarrow> ('c, 'd) pstep option" where
  "parse_step strtod jsonText tlen h =
     do { st \<leftarrow> yajl_bs_current (stateStack h);
          case st of
            yajl_state_parse_complete \<Rightarrow> step_complete jsonText tlen h
          | yajl_state_lexical_error \<Rightarrow> Some (Return yajl_status_error h)
          | yajl_state_parse_error \<Rightarrow> Some (Return yajl_status_error h)
          | yajl_state_start \<Rightarrow> step_value strtod jsonText tlen h
          | yajl_state_got_value \<Rightarrow> step_value strtod jsonText tlen h
          | yajl_state_map_need_val \<Rightarrow> step_value strtod jsonText tlen h
          | yajl_state_array_need_val \<Rightarrow> step_value strtod jsonText tlen h
          | yajl_state_array_start \<Rightarrow> step_value strtod jsonText tlen h
          | yajl_state_map_start \<Rightarrow> step_key jsonText tlen h
          | yajl_state_map_need_key \<Rightarrow> step_key jsonText tlen h
          | yajl_state_map_sep \<Rightarrow> step_sep jsonText tlen h
          | yajl_state_map_got_val \<Rightarrow> step_map_got_val jsonText tlen h
          | yajl_state_array_got_val \<Rightarrow> step_array_got_val jsonText tlen h }"

section \<open>The parser and its interface\<close>

partial_function (option) around_again ::
  "(bytes \<Rightarrow> 'd strtod_result) \<Rightarrow> bytes \<Rightarrow> nat \<Rightarrow> ('c, 'd) yajl_handle \<Rightarrow>
   (yajl_status \<times> ('c, 'd) yajl_handle) option"
where
  "around_again strtod jsonText tlen h =
     Option.bind (parse_step strtod jsonText tlen h)
       (\<lambda>r. case r of
              Return st h1 \<Rightarrow> Some (st, h1)
            | Again h1 \<Rightarrow> around_again strtod jsonText tlen h1)"

declare around_again.simps [code]

definition yajl_do_parse ::
  "(bytes \<Rightarrow> 'd strtod_result) \<Rightarrow> bytes \<Rightarrow> nat \<Rightarrow> ('c, 'd) yajl_handle \<Rightarrow>
   (yajl_status \<times> ('c, 'd) yajl_handle) option" where
  "yajl_do_parse strtod jsonText tlen h = around_again strtod jsonText tlen (h\<lparr>bytesConsumed := 0\<rparr>)"

definition yajl_do_finish ::
  "(bytes \<Rightarrow> 'd strtod_result) \<Rightarrow> ('c, 'd) yajl_handle \<Rightarrow>
   (yajl_status \<times> ('c, 'd) yajl_handle) option" where
  "yajl_do_finish strtod h0 =
     do { r \<leftarrow> yajl_do_parse strtod [0x20] 1 h0;
          let h = snd r;
          if fst r \<noteq> yajl_status_ok then Some r
          else do { st \<leftarrow> yajl_bs_current (stateStack h);
                    if st = yajl_state_parse_error \<or> st = yajl_state_lexical_error
                    then Some (yajl_status_error, h)
                    else if st = yajl_state_got_value \<or> st = yajl_state_parse_complete
                    then Some (yajl_status_ok, h)
                    else if \<not> has_flag h yajl_allow_partial_values
                    then do { h1 \<leftarrow> fail_parse ''premature EOF'' h; Some (yajl_status_error, h1) }
                    else Some (yajl_status_ok, h) } }"

definition ensure_lexer :: "('c, 'd) yajl_handle \<Rightarrow> ('c, 'd) yajl_handle" where
  "ensure_lexer h =
     (if lexer h = None
      then h\<lparr>lexer := Some (yajl_lex_alloc (has_flag h yajl_allow_comments)
                             (\<not> has_flag h yajl_dont_validate_strings))\<rparr>
      else h)"

definition yajl_parse ::
  "(bytes \<Rightarrow> 'd strtod_result) \<Rightarrow> ('c, 'd) yajl_handle \<Rightarrow> bytes \<Rightarrow> nat \<Rightarrow>
   (yajl_status \<times> ('c, 'd) yajl_handle) option" where
  "yajl_parse strtod h jsonText tlen = yajl_do_parse strtod jsonText tlen (ensure_lexer h)"

definition yajl_complete_parse ::
  "(bytes \<Rightarrow> 'd strtod_result) \<Rightarrow> ('c, 'd) yajl_handle \<Rightarrow>
   (yajl_status \<times> ('c, 'd) yajl_handle) option" where
  "yajl_complete_parse strtod h = yajl_do_finish strtod (ensure_lexer h)"

end
