(* ===== verification/Yajl_Parser_Spec.thy ===== *)
theory Yajl_Parser_Spec
  imports Yajl_Lex_Refine Yajl_Parser
begin

text \<open>
  A reference parser: the states of \<open>yajl_parser.c\<close> on a list (the innermost depth first), tokens
  of the reference lexer, callbacks applied to token contents. The step on a token is a function
  per group of parser states, as in the code.
\<close>

section \<open>Callbacks on contents\<close>

datatype 'd event =
    E_null | E_boolean bool | E_integer "64 word" | E_double 'd | E_number bytes | E_string bytes
  | E_start_map | E_map_key bytes | E_end_map | E_start_array | E_end_array

definition text_mem :: "bytes \<Rightarrow> cmem" where
  "text_mem s = \<lparr>mem_text = s, mem_lex = None, mem_dec = None\<rparr>"

text \<open>The outer option: is there a callback for the event.\<close>

fun react :: "('c, 'd) yajl_callbacks \<Rightarrow> 'c \<Rightarrow> 'd event \<Rightarrow> ('c \<times> bool) option option" where
  "react cbs c E_null = map_option (\<lambda>f. f c (text_mem [])) (cb_null cbs)"
| "react cbs c (E_boolean b) = map_option (\<lambda>f. f c (text_mem []) b) (cb_boolean cbs)"
| "react cbs c (E_integer i) = map_option (\<lambda>f. f c (text_mem []) i) (cb_integer cbs)"
| "react cbs c (E_double d) = map_option (\<lambda>f. f c (text_mem []) d) (cb_double cbs)"
| "react cbs c (E_number s) =
     map_option (\<lambda>f. f c (text_mem s) (PText 0) (length s)) (cb_number cbs)"
| "react cbs c (E_string s) =
     map_option (\<lambda>f. f c (text_mem s) (PText 0) (length s)) (cb_string cbs)"
| "react cbs c E_start_map = map_option (\<lambda>f. f c (text_mem [])) (cb_start_map cbs)"
| "react cbs c (E_map_key s) =
     map_option (\<lambda>f. f c (text_mem s) (PText 0) (length s)) (cb_map_key cbs)"
| "react cbs c E_end_map = map_option (\<lambda>f. f c (text_mem [])) (cb_end_map cbs)"
| "react cbs c E_start_array = map_option (\<lambda>f. f c (text_mem [])) (cb_start_array cbs)"
| "react cbs c E_end_array = map_option (\<lambda>f. f c (text_mem [])) (cb_end_array cbs)"

text \<open>What a client must satisfy for that: a callback looks at the bytes it is given and at no
  other memory.\<close>

definition by_call :: "('c \<Rightarrow> cmem \<Rightarrow> 'r) \<Rightarrow> bool" where
  "by_call f \<longleftrightarrow> (\<forall>c m. f c m = f c (text_mem []))"

definition by_text :: "('c \<Rightarrow> cmem \<Rightarrow> strptr \<Rightarrow> nat \<Rightarrow> 'r) \<Rightarrow> bool" where
  "by_text f \<longleftrightarrow>
     (\<forall>c m p n s. mem_bytes m p n = Some s \<longrightarrow> f c m p n = f c (text_mem s) (PText 0) (length s))"

locale content_client =
  fixes cbs :: "('c, 'd) yajl_callbacks"
  assumes null: "pred_option by_call (cb_null cbs)"
    and boolean: "pred_option by_call (cb_boolean cbs)"
    and integer: "pred_option by_call (cb_integer cbs)"
    and double: "pred_option by_call (cb_double cbs)"
    and number: "pred_option by_text (cb_number cbs)"
    and string: "pred_option by_text (cb_string cbs)"
    and start_map: "pred_option by_call (cb_start_map cbs)"
    and map_key: "pred_option by_text (cb_map_key cbs)"
    and end_map: "pred_option by_call (cb_end_map cbs)"
    and start_array: "pred_option by_call (cb_start_array cbs)"
    and end_array: "pred_option by_call (cb_end_array cbs)"

section \<open>The reference parser\<close>

record 'c pconf =
  p_stack :: "yajl_state list"
  p_ctx :: 'c
  p_msg :: "string option"
  p_erange :: bool

datatype 'c rstep = R_return yajl_status "'c pconf" | R_go "'c pconf"

definition p_top :: "yajl_state \<Rightarrow> 'c pconf \<Rightarrow> 'c pconf" where
  "p_top st c = c\<lparr>p_stack := st # tl (p_stack c)\<rparr>"

definition p_fail :: "string \<Rightarrow> 'c pconf \<Rightarrow> 'c pconf" where
  "p_fail msg c = (p_top yajl_state_parse_error c)\<lparr>p_msg := Some msg\<rparr>"

definition p_pop :: "'c pconf \<Rightarrow> 'c pconf" where
  "p_pop c = c\<lparr>p_stack := tl (p_stack c)\<rparr>"

definition emit ::
  "('c, 'd) yajl_callbacks \<Rightarrow> 'd event \<Rightarrow> 'c pconf \<Rightarrow> ('c pconf \<Rightarrow> 'c rstep) \<Rightarrow> 'c rstep option" where
  "emit cbs ev c k =
     (case react cbs (p_ctx c) ev of
        None \<Rightarrow> Some (k c)
      | Some r \<Rightarrow>
          do { x \<leftarrow> r;
               let c1 = c\<lparr>p_ctx := fst x\<rparr>;
               Some (if snd x then k c1
                     else R_return yajl_status_client_canceled
                            (p_fail ''client cancelled parse via callback return value'' c1)) })"

definition p_value :: "yajl_state option \<Rightarrow> 'c pconf \<Rightarrow> 'c rstep" where
  "p_value push c =
     (let s = hd (p_stack c);
          c1 = p_top (if s = yajl_state_start \<or> s = yajl_state_got_value
                      then yajl_state_parse_complete
                      else if s = yajl_state_map_need_val then yajl_state_map_got_val
                      else yajl_state_array_got_val) c
      in R_go (case push of None \<Rightarrow> c1 | Some st \<Rightarrow> c1\<lparr>p_stack := st # p_stack c1\<rparr>))"

text \<open>Does the client have a callback for this kind of event.\<close>

definition wants :: "('c, 'd) yajl_callbacks \<Rightarrow> 'd event \<Rightarrow> 'c pconf \<Rightarrow> bool" where
  "wants cbs ev c \<longleftrightarrow> react cbs (p_ctx c) ev \<noteq> None"

definition ref_value ::
  "('c, 'd) yajl_callbacks \<Rightarrow> (bytes \<Rightarrow> 'd strtod_result) \<Rightarrow> yajl_tok \<Rightarrow> bytes \<Rightarrow> 'c pconf \<Rightarrow>
   'c rstep option" where
  "ref_value cbs strtod tok s c =
     (case tok of
        yajl_tok_error \<Rightarrow> Some (R_go (p_top yajl_state_lexical_error c))
      | yajl_tok_string \<Rightarrow> emit cbs (E_string s) c (p_value None)
      | yajl_tok_string_with_escapes \<Rightarrow>
          (if wants cbs (E_string s) c
           then do { d \<leftarrow> ref_decode s; emit cbs (E_string d) c (p_value None) }
           else Some (p_value None c))
      | yajl_tok_bool \<Rightarrow> emit cbs (E_boolean (hd s = 0x74)) c (p_value None)
      | yajl_tok_null \<Rightarrow> emit cbs E_null c (p_value None)
      | yajl_tok_left_bracket \<Rightarrow> emit cbs E_start_map c (p_value (Some yajl_state_map_start))
      | yajl_tok_left_brace \<Rightarrow> emit cbs E_start_array c (p_value (Some yajl_state_array_start))
      | yajl_tok_integer \<Rightarrow>
          (if wants cbs (E_number s) c then emit cbs (E_number s) c (p_value None)
           else if wants cbs (E_integer 0) c
           then do { r \<leftarrow> yajl_parse_integer (rd s) (length s);
                     let c1 = c\<lparr>p_erange := p_erange c \<or> snd r\<rparr>;
                     if (fst r = LLONG_MIN \<or> fst r = LLONG_MAX) \<and> p_erange c1
                     then Some (R_go (p_fail ''integer overflow'' c1))
                     else emit cbs (E_integer (fst r)) c1 (p_value None) }
           else Some (p_value None c))
      | yajl_tok_double \<Rightarrow>
          (if wants cbs (E_number s) c then emit cbs (E_number s) c (p_value None)
           else if cb_double cbs \<noteq> None
           then (let d = strtod (c_str s); c1 = c\<lparr>p_erange := p_erange c \<or> sd_erange d\<rparr> in
                 if sd_huge d \<and> p_erange c1
                 then Some (R_go (p_fail ''numeric (floating point) overflow'' c1))
                 else emit cbs (E_double (sd_value d)) c1 (p_value None))
           else Some (p_value None c))
      | yajl_tok_right_brace \<Rightarrow>
          (if hd (p_stack c) = yajl_state_array_start
           then emit cbs E_end_array c (\<lambda>c1. R_go (p_pop c1))
           else Some (R_go (p_fail ''unallowed token at this point in JSON text'' c)))
      | yajl_tok_colon \<Rightarrow> Some (R_go (p_fail ''unallowed token at this point in JSON text'' c))
      | yajl_tok_comma \<Rightarrow> Some (R_go (p_fail ''unallowed token at this point in JSON text'' c))
      | yajl_tok_right_bracket \<Rightarrow>
          Some (R_go (p_fail ''unallowed token at this point in JSON text'' c))
      | _ \<Rightarrow> Some (R_go (p_fail ''invalid token, internal error'' c)))"

definition ref_key ::
  "('c, 'd) yajl_callbacks \<Rightarrow> yajl_tok \<Rightarrow> bytes \<Rightarrow> 'c pconf \<Rightarrow> 'c rstep option" where
  "ref_key cbs tok s c =
     (let sep = (\<lambda>c1. R_go (p_top yajl_state_map_sep c1));
          bad = Some (R_go (p_fail ''invalid object key (must be a string)'' c)) in
      case tok of
        yajl_tok_error \<Rightarrow> Some (R_go (p_top yajl_state_lexical_error c))
      | yajl_tok_string \<Rightarrow> emit cbs (E_map_key s) c sep
      | yajl_tok_string_with_escapes \<Rightarrow>
          (if wants cbs (E_map_key s) c
           then do { d \<leftarrow> ref_decode s; emit cbs (E_map_key d) c sep } else Some (sep c))
      | yajl_tok_right_bracket \<Rightarrow>
          (if hd (p_stack c) = yajl_state_map_start
           then emit cbs E_end_map c (\<lambda>c1. R_go (p_pop c1)) else bad)
      | _ \<Rightarrow> bad)"

definition ref_sep :: "yajl_tok \<Rightarrow> 'c pconf \<Rightarrow> 'c rstep option" where
  "ref_sep tok c =
     Some (R_go (case tok of
       yajl_tok_colon \<Rightarrow> p_top yajl_state_map_need_val c
     | yajl_tok_error \<Rightarrow> p_top yajl_state_lexical_error c
     | _ \<Rightarrow> p_fail (''object key and value must be separated by a colon ('' @
              quoted (CHR '':'') @ '')'') c))"

definition ref_map_got_val ::
  "('c, 'd) yajl_callbacks \<Rightarrow> yajl_tok \<Rightarrow> 'c pconf \<Rightarrow> 'c rstep option" where
  "ref_map_got_val cbs tok c =
     (case tok of
        yajl_tok_right_bracket \<Rightarrow> emit cbs E_end_map c (\<lambda>c1. R_go (p_pop c1))
      | yajl_tok_comma \<Rightarrow> Some (R_go (p_top yajl_state_map_need_key c))
      | yajl_tok_error \<Rightarrow> Some (R_go (p_top yajl_state_lexical_error c))
      | _ \<Rightarrow> Some (R_go (p_fail (''after key and value, inside map, I expect '' @
               quoted (CHR '','') @ '' or '' @ quoted (CHR ''}'')) c)))"

definition ref_array_got_val ::
  "('c, 'd) yajl_callbacks \<Rightarrow> yajl_tok \<Rightarrow> 'c pconf \<Rightarrow> 'c rstep option" where
  "ref_array_got_val cbs tok c =
     (case tok of
        yajl_tok_right_brace \<Rightarrow> emit cbs E_end_array c (\<lambda>c1. R_go (p_pop c1))
      | yajl_tok_comma \<Rightarrow> Some (R_go (p_top yajl_state_array_need_val c))
      | yajl_tok_error \<Rightarrow> Some (R_go (p_top yajl_state_lexical_error c))
      | _ \<Rightarrow> Some (R_go (p_fail (''after array element, I expect '' @ quoted (CHR '','') @
               '' or '' @ quoted (CHR '']'')) c)))"

text \<open>A token in any state that reads one.\<close>

definition ref_token ::
  "('c, 'd) yajl_callbacks \<Rightarrow> (bytes \<Rightarrow> 'd strtod_result) \<Rightarrow> yajl_tok \<Rightarrow> bytes \<Rightarrow> 'c pconf \<Rightarrow>
   'c rstep option" where
  "ref_token cbs strtod tok s c =
     (let st = hd (p_stack c) in
      if st = yajl_state_parse_complete then Some (R_go (p_fail ''trailing garbage'' c))
      else if st = yajl_state_map_start \<or> st = yajl_state_map_need_key then ref_key cbs tok s c
      else if st = yajl_state_map_sep then ref_sep tok c
      else if st = yajl_state_map_got_val then ref_map_got_val cbs tok c
      else if st = yajl_state_array_got_val then ref_array_got_val cbs tok c
      else ref_value cbs strtod tok s c)"

definition in_error :: "'c pconf \<Rightarrow> bool" where
  "in_error c \<longleftrightarrow> hd (p_stack c) = yajl_state_parse_error \<or> hd (p_stack c) = yajl_state_lexical_error"

text \<open>
  The whole input: status, configuration and the bytes of an incomplete last token. \<open>multi\<close> and
  \<open>trail\<close> are \<open>yajl_allow_multiple_values\<close> and \<open>yajl_allow_trailing_garbage\<close>; \<open>cm\<close> and \<open>v\<close> are
  the lexer's flags.
\<close>

function ref_parse ::
  "('c, 'd) yajl_callbacks \<Rightarrow> (bytes \<Rightarrow> 'd strtod_result) \<Rightarrow> bool \<Rightarrow> bool \<Rightarrow> bool \<Rightarrow> bool \<Rightarrow>
   'c pconf \<Rightarrow> bytes \<Rightarrow> (yajl_status \<times> 'c pconf \<times> bytes) option"
where
  "ref_parse cbs strtod multi trail cm v c xs =
     (if p_stack c = [] then None
      else if in_error c then Some (yajl_status_error, c, [])
      else if hd (p_stack c) = yajl_state_parse_complete \<and> \<not> multi \<and> trail
      then Some (yajl_status_ok, c, [])
      else (let c1 = (if hd (p_stack c) = yajl_state_parse_complete \<and> multi
                      then p_top yajl_state_got_value c else c)
            in case ref_lex cm v xs of
                 (q, tok, e, k) \<Rightarrow>
                   if tok = yajl_tok_eof then Some (yajl_status_ok, c1, drop q xs)
                   else do { r \<leftarrow> ref_token cbs strtod tok (tok_body tok (take (k - q) (drop q xs))) c1;
                             case r of
                               R_return st c2 \<Rightarrow> Some (st, c2, [])
                             | R_go c2 \<Rightarrow>
                                 if k = 0 then Some (yajl_status_error, c2, [])
                                 else ref_parse cbs strtod multi trail cm v c2 (drop k xs) }))"
  by pat_completeness auto
termination
proof (relation "measure (\<lambda>(_, _, _, _, _, _, _, xs). length xs)", goal_cases)
  case (2 cbs strtod multi trail cm v c xs c1 q y tok z e k r c2)
  then show ?case by (cases xs) auto
qed simp

declare ref_parse.simps [simp del]

section \<open>The state stack\<close>

locale state_stack =
  fixes ok :: "'s \<Rightarrow> bool" and abs :: "'s \<Rightarrow> 'a list" and limit :: nat
    and current :: "'s \<Rightarrow> 'a option" and push :: "'s \<Rightarrow> 'a \<Rightarrow> 's option"
    and pop :: "'s \<Rightarrow> 's" and put :: "'s \<Rightarrow> 'a \<Rightarrow> 's option"
  assumes current_eq: "ok s \<Longrightarrow> current s = (case abs s of [] \<Rightarrow> None | x # _ \<Rightarrow> Some x)"
    and push_ok: "ok s \<Longrightarrow> length (abs s) < limit \<Longrightarrow>
      \<exists>s'. push s x = Some s' \<and> ok s' \<and> abs s' = x # abs s"
    and pop_ok: "ok s \<Longrightarrow> abs s \<noteq> [] \<Longrightarrow> ok (pop s) \<and> abs (pop s) = tl (abs s)"
    and put_ok: "ok s \<Longrightarrow> abs s \<noteq> [] \<Longrightarrow> \<exists>s'. put s x = Some s' \<and> ok s' \<and> abs s' = x # tl (abs s)"
begin

lemma current_hd: "ok s \<Longrightarrow> abs s \<noteq> [] \<Longrightarrow> current s = Some (hd (abs s))"
  by (cases "abs s") (simp_all add: current_eq)

lemma current_empty: "ok s \<Longrightarrow> abs s = [] \<Longrightarrow> current s = None"
  by (simp add: current_eq)

lemma pop_push: "ok s \<Longrightarrow> length (abs s) < limit \<Longrightarrow> push s x = Some s' \<Longrightarrow> abs (pop s') = abs s"
  using push_ok [of s x] pop_ok [of s'] by auto

end

definition bs_ok :: "yajl_bytestack \<Rightarrow> bool" where
  "bs_ok b \<longleftrightarrow> bs_size b = length (bs_stack b) \<and> bs_used b \<le> bs_size b \<and>
     bs_size b \<le> buf_max + 128 \<and> None \<notin> set (take (bs_used b) (bs_stack b))"

definition bs_list :: "yajl_bytestack \<Rightarrow> yajl_state list" where
  "bs_list b = rev (map the (take (bs_used b) (bs_stack b)))"

lemma bs_list_Suc:
  "bs_used b = Suc n \<Longrightarrow> n < length (bs_stack b) \<Longrightarrow>
   bs_list b = the (bs_stack b ! n) # rev (map the (take n (bs_stack b)))"
  by (simp add: bs_list_def take_Suc_nth)

interpretation bstack: state_stack bs_ok bs_list buf_max yajl_bs_current yajl_bs_push yajl_bs_pop yajl_bs_set
proof
  fix b :: yajl_bytestack and x :: yajl_state
  assume ok: "bs_ok b"
  then have len: "bs_size b = length (bs_stack b)" "bs_used b \<le> length (bs_stack b)"
    and init: "None \<notin> set (take (bs_used b) (bs_stack b))" by (auto simp: bs_ok_def)
  have ll: "length (bs_list b) = bs_used b" using len by (simp add: bs_list_def)
  show "yajl_bs_current b = (case bs_list b of [] \<Rightarrow> None | x # _ \<Rightarrow> Some x)"
  proof (cases "bs_used b")
    case 0
    then show ?thesis by (simp add: yajl_bs_current_def bs_list_def)
  next
    case (Suc n)
    have "bs_stack b ! n \<in> set (take (bs_used b) (bs_stack b))"
      using Suc len by (simp add: take_Suc_nth)
    then have "bs_stack b ! n \<noteq> None" using init by metis
    then show ?thesis using Suc len by (auto simp: yajl_bs_current_def bs_list_Suc)
  qed
  show "\<exists>s'. yajl_bs_set b x = Some s' \<and> bs_ok s' \<and> bs_list s' = x # tl (bs_list b)" if ne: "bs_list b \<noteq> []"
  proof -
    obtain n where n: "bs_used b = Suc n" using ne by (cases "bs_used b") (auto simp: bs_list_def)
    have t: "take (Suc n) ((bs_stack b)[n := Some x]) = take n (bs_stack b) @ [Some x]"
      using n len by (simp add: take_Suc_nth)
    have "set (take n (bs_stack b)) \<subseteq> set (take (bs_used b) (bs_stack b))"
      using n by (simp add: set_take_subset_set_take)
    then have "None \<notin> set (take n (bs_stack b))" using init by blast
    then show ?thesis using ok n len t
      by (auto simp: yajl_bs_set_def bs_ok_def bs_list_def take_Suc_nth)
  qed
  show "bs_ok (yajl_bs_pop b) \<and> bs_list (yajl_bs_pop b) = tl (bs_list b)" if ne: "bs_list b \<noteq> []"
  proof -
    obtain n where n: "bs_used b = Suc n" using ne by (cases "bs_used b") (auto simp: bs_list_def)
    have "set (take n (bs_stack b)) \<subseteq> set (take (bs_used b) (bs_stack b))"
      using n by (simp add: set_take_subset_set_take)
    then show ?thesis using ok n len init
      by (auto simp: yajl_bs_pop_def bs_ok_def bs_list_def take_Suc_nth)
  qed
  show "\<exists>s'. yajl_bs_push b x = Some s' \<and> bs_ok s' \<and> bs_list s' = x # bs_list b"
    if "length (bs_list b) < buf_max"
  proof -
    have u: "bs_used b < buf_max" using that ll by simp
    define b1 where "b1 = (if bs_size b = bs_used b
      then b\<lparr>bs_size := bs_size b + 128, bs_stack := bs_stack b @ replicate 128 None\<rparr> else b)"
    have sub: "size_sub (bs_size b) (bs_used b) = bs_size b - bs_used b"
      by (rule size_sub_le) (use ok in \<open>simp_all add: bs_ok_def\<close>)
    have b1: "bs_used b1 = bs_used b" "bs_used b1 < length (bs_stack b1)" "bs_size b1 = length (bs_stack b1)"
      "bs_size b1 \<le> buf_max + 128" "take (bs_used b) (bs_stack b1) = take (bs_used b) (bs_stack b)"
      using ok u by (auto simp: b1_def bs_ok_def)
    have full: "size_sub (bs_size b) (bs_used b) = 0 \<longleftrightarrow> bs_size b = bs_used b"
      using sub len by auto
    have grown: "(if size_sub (bs_size b) (bs_used b) = 0
        then let n = (bs_size b + YAJL_BS_INC) mod size_mod
             in b\<lparr>bs_size := n, bs_stack := bs_realloc (bs_stack b) n\<rparr>
        else b) = b1"
      unfolding full b1_def using ok u by (auto simp: bs_realloc_def bs_ok_def Let_def)
    have "yajl_bs_push b x = Some (b1\<lparr>bs_stack := (bs_stack b1)[bs_used b := Some x], bs_used := Suc (bs_used b)\<rparr>)"
      using b1(1,2) by (simp add: yajl_bs_push_def grown Let_def)
    then show ?thesis using b1 init
      by (auto simp: bs_ok_def bs_list_def take_Suc_nth)
  qed
qed

section \<open>Handles and configurations\<close>

definition hrel ::
  "('c, 'd) yajl_callbacks \<Rightarrow> 32 word \<Rightarrow> bool \<Rightarrow> bool \<Rightarrow> ('c, 'd) yajl_handle \<Rightarrow> 'c pconf \<Rightarrow> bool" where
  "hrel cbs fl cm v h c \<longleftrightarrow>
     callbacks h = Some cbs \<and> flags h = fl \<and> hctx h = p_ctx c \<and> bs_ok (stateStack h) \<and>
     bs_list (stateStack h) = p_stack c \<and> parseError h = p_msg c \<and> c_erange h = p_erange c \<and>
     buf_ok (decodeBuf h) \<and>
     (\<exists>l. lexer h = Some l \<and> lex_ready l \<and> allowComments l = cm \<and> validateUTF8 l = v)"

definition keeps :: "('c, 'd) yajl_handle \<Rightarrow> ('c, 'd) yajl_handle \<Rightarrow> bool" where
  "keeps h h' \<longleftrightarrow> lexer h' = lexer h \<and> bytesConsumed h' = bytesConsumed h"

lemma keeps_refl [simp]: "keeps h h"
  by (simp add: keeps_def)

text \<open>A step of the code answers as the reference step \<open>r\<close>.\<close>

definition steps_as ::
  "(('c, 'd) yajl_handle \<Rightarrow> 'c pconf \<Rightarrow> bool) \<Rightarrow> ('c, 'd) yajl_handle \<Rightarrow> ('c, 'd) pstep option \<Rightarrow>
   'c rstep option \<Rightarrow> bool" where
  "steps_as R h out r \<longleftrightarrow>
     (case r of
        None \<Rightarrow> out = None
      | Some (R_return st c) \<Rightarrow> \<exists>h'. out = Some (Return st h') \<and> R h' c
      | Some (R_go c) \<Rightarrow> \<exists>h'. out = Some (Again h') \<and> R h' c \<and> (keeps h h' \<or> in_error c))"

lemma steps_as_simps [simp]:
  "steps_as R h out None \<longleftrightarrow> out = None"
  "steps_as R h out (Some (R_return st c)) \<longleftrightarrow> (\<exists>h'. out = Some (Return st h') \<and> R h' c)"
  "steps_as R h out (Some (R_go c)) \<longleftrightarrow>
     (\<exists>h'. out = Some (Again h') \<and> R h' c \<and> (keeps h h' \<or> in_error c))"
  by (simp_all add: steps_as_def)

lemma set_top_rel:
  assumes "hrel cbs fl cm v h c" "p_stack c \<noteq> []"
  obtains h' where "set_top st h = Some h'" "hrel cbs fl cm v h' (p_top st c)" "keeps h h'"
proof -
  obtain b where "yajl_bs_set (stateStack h) st = Some b" "bs_ok b" "bs_list b = st # tl (p_stack c)"
    using bstack.put_ok [of "stateStack h" st] assms by (auto simp: hrel_def)
  then show thesis using that [of "h\<lparr>stateStack := b\<rparr>"] assms(1)
    by (simp add: set_top_def hrel_def keeps_def p_top_def)
qed

lemma fail_parse_rel:
  assumes "hrel cbs fl cm v h c" "p_stack c \<noteq> []"
  obtains h' where "fail_parse msg h = Some h'" "hrel cbs fl cm v h' (p_fail msg c)" "keeps h h'"
proof -
  obtain h1 where "set_top yajl_state_parse_error h = Some h1"
    "hrel cbs fl cm v h1 (p_top yajl_state_parse_error c)" "keeps h h1"
    by (rule set_top_rel [OF assms])
  then show thesis using that [of "h1\<lparr>parseError := Some msg\<rparr>"]
    by (simp add: fail_parse_def hrel_def keeps_def p_fail_def)
qed

lemma pop_state_rel:
  assumes "hrel cbs fl cm v h c" "p_stack c \<noteq> []"
  shows "hrel cbs fl cm v (pop_state h) (p_pop c)" "keeps h (pop_state h)"
  using bstack.pop_ok [of "stateStack h"] assms
  by (auto simp: pop_state_def hrel_def keeps_def p_pop_def)

lemma in_error_fail [simp]: "in_error (p_fail msg c)" "in_error (p_top yajl_state_lexical_error c)"
  by (simp_all add: in_error_def p_fail_def p_top_def)

lemma current_rel:
  "hrel cbs fl cm v h c \<Longrightarrow> p_stack c \<noteq> [] \<Longrightarrow> yajl_bs_current (stateStack h) = Some (hd (p_stack c))"
  using bstack.current_hd [of "stateStack h"] by (simp add: hrel_def)

lemma keeps_trans: "keeps h h1 \<Longrightarrow> keeps h1 h2 \<Longrightarrow> keeps h h2"
  by (simp add: keeps_def)

lemma again_set_top_rel:
  assumes "hrel cbs fl cm v h c" "p_stack c \<noteq> []" "keeps h0 h"
  shows "steps_as (hrel cbs fl cm v) h0 (again (set_top st h)) (Some (R_go (p_top st c)))"
proof -
  obtain h' where "set_top st h = Some h'" "hrel cbs fl cm v h' (p_top st c)" "keeps h h'"
    by (rule set_top_rel [OF assms(1,2)])
  then show ?thesis using keeps_trans [OF assms(3)] by (simp add: again_def)
qed

lemma again_fail_rel:
  assumes "hrel cbs fl cm v h c" "p_stack c \<noteq> []"
  shows "steps_as (hrel cbs fl cm v) h0 (again (fail_parse msg h)) (Some (R_go (p_fail msg c)))"
    "steps_as (hrel cbs fl cm v) h0 (again (map_option (restore_offset n) (fail_parse msg h)))
       (Some (R_go (p_fail msg c)))"
proof -
  obtain h' where h': "fail_parse msg h = Some h'" "hrel cbs fl cm v h' (p_fail msg c)"
    using fail_parse_rel [OF assms] .
  then show "steps_as (hrel cbs fl cm v) h0 (again (fail_parse msg h)) (Some (R_go (p_fail msg c)))"
    by (simp add: again_def)
  have "hrel cbs fl cm v (restore_offset n h') (p_fail msg c)"
    using h'(2) by (simp add: restore_offset_def hrel_def)
  then show "steps_as (hrel cbs fl cm v) h0 (again (map_option (restore_offset n) (fail_parse msg h)))
      (Some (R_go (p_fail msg c)))"
    using h'(1) by (simp add: again_def)
qed

lemma got_value_rel:
  assumes h: "hrel cbs fl cm v h c" "p_stack c \<noteq> []" "keeps h0 h"
    and room: "length (p_stack c) < buf_max"
  shows "steps_as (hrel cbs fl cm v) h0 (got_value push h) (Some (p_value push c))"
proof -
  let ?s = "hd (p_stack c)"
  let ?st = "if ?s = yajl_state_start \<or> ?s = yajl_state_got_value then yajl_state_parse_complete
      else if ?s = yajl_state_map_need_val then yajl_state_map_got_val else yajl_state_array_got_val"
  obtain h1 where h1: "set_top ?st h = Some h1" "hrel cbs fl cm v h1 (p_top ?st c)" "keeps h h1"
    by (rule set_top_rel [OF h(1,2)])
  have g: "got_value push h = (case push of None \<Rightarrow> Some (Again h1)
      | Some st \<Rightarrow> do { b \<leftarrow> yajl_bs_push (stateStack h1) st; Some (Again (h1\<lparr>stateStack := b\<rparr>)) })"
    unfolding got_value_def current_rel [OF h(1,2)] using h1(1) by (simp del: if_split)
  show ?thesis
  proof (cases push)
    case None
    then show ?thesis using g h1 keeps_trans [OF h(3) h1(3)] by (simp add: p_value_def Let_def)
  next
    case (Some st)
    have "length (bs_list (stateStack h1)) < buf_max"
      using h1(2) room by (simp add: hrel_def p_top_def)
    then obtain b where "yajl_bs_push (stateStack h1) st = Some b" "bs_ok b"
      "bs_list b = st # bs_list (stateStack h1)"
      using bstack.push_ok [of "stateStack h1" st] h1(2) by (auto simp: hrel_def)
    moreover from this have "hrel cbs fl cm v (h1\<lparr>stateStack := b\<rparr>)
        ((p_top ?st c)\<lparr>p_stack := st # p_stack (p_top ?st c)\<rparr>)"
      using h1(2) by (simp add: hrel_def)
    moreover have "keeps h0 (h1\<lparr>stateStack := b\<rparr>)"
      using keeps_trans [OF h(3) h1(3)] by (simp add: keeps_def)
    ultimately show ?thesis using Some g by (simp add: p_value_def Let_def)
  qed
qed

section \<open>Callbacks in the code and in the reference\<close>

lemma with_cb_rel:
  assumes h: "hrel cbs fl cm v h c" "p_stack c \<noteq> []"
    and react: "react cbs (p_ctx c) ev = map_option (\<lambda>f. app (f (p_ctx c) (the_mem t h))) (sel cbs)"
    and k: "\<And>h' c'. hrel cbs fl cm v h' c' \<Longrightarrow> keeps h h' \<Longrightarrow> p_stack c' = p_stack c \<Longrightarrow>
      steps_as (hrel cbs fl cm v) h0 (k h') (Some (k' c'))"
  shows "steps_as (hrel cbs fl cm v) h0 (with_cb sel app t h k) (emit cbs ev c k')"
proof -
  have cb: "the_cb sel h = sel cbs" and ctx: "hctx h = p_ctx c"
    using h(1) by (simp_all add: the_cb_def hrel_def)
  show ?thesis
  proof (cases "sel cbs")
    case None
    then show ?thesis using k [OF h(1)] react by (simp add: with_cb_def cb emit_def)
  next
    case (Some f)
    show ?thesis
    proof (cases "app (f (p_ctx c) (the_mem t h))")
      case None
      then show ?thesis using Some react by (simp add: with_cb_def cb emit_def cc_chk_def ctx)
    next
      case x: (Some x)
      let ?h1 = "h\<lparr>hctx := fst x\<rparr>" and ?c1 = "c\<lparr>p_ctx := fst x\<rparr>"
      have h1: "hrel cbs fl cm v ?h1 ?c1" "keeps h ?h1" "p_stack ?c1 \<noteq> []"
        using h by (simp_all add: hrel_def keeps_def)
      show ?thesis
      proof (cases "snd x")
        case True
        then show ?thesis using Some x react k [OF h1(1,2)]
          by (simp add: with_cb_def cb emit_def cc_chk_def ctx Let_def)
      next
        case False
        obtain h2 where "fail_parse ''client cancelled parse via callback return value'' ?h1 = Some h2"
          "hrel cbs fl cm v h2 (p_fail ''client cancelled parse via callback return value'' ?c1)"
          by (rule fail_parse_rel [OF h1(1,3)])
        then show ?thesis using Some x react False
          by (simp add: with_cb_def cb emit_def cc_chk_def ctx Let_def)
      qed
    qed
  qed
qed

lemma call_any_mem:
  assumes "pred_option by_call f"
  shows "map_option (\<lambda>f. g (f c (text_mem []))) f = map_option (\<lambda>f. g (f c m)) f"
proof (cases f)
  case (Some x)
  then have "x c m = x c (text_mem [])" using assms unfolding by_call_def by simp
  then show ?thesis using Some by simp
qed simp

context content_client begin

lemma react_call:
  "react cbs c E_null = map_option (\<lambda>f. f c m) (cb_null cbs)"
  "react cbs c (E_boolean b) = map_option (\<lambda>f. f c m b) (cb_boolean cbs)"
  "react cbs c (E_integer i) = map_option (\<lambda>f. f c m i) (cb_integer cbs)"
  "react cbs c (E_double d) = map_option (\<lambda>f. f c m d) (cb_double cbs)"
  "react cbs c E_start_map = map_option (\<lambda>f. f c m) (cb_start_map cbs)"
  "react cbs c E_end_map = map_option (\<lambda>f. f c m) (cb_end_map cbs)"
  "react cbs c E_start_array = map_option (\<lambda>f. f c m) (cb_start_array cbs)"
  "react cbs c E_end_array = map_option (\<lambda>f. f c m) (cb_end_array cbs)"
  unfolding react.simps
  by (rule call_any_mem [OF null, of "\<lambda>r. r"] call_any_mem [OF boolean, of "\<lambda>r. r b"]
      call_any_mem [OF integer, of "\<lambda>r. r i"] call_any_mem [OF double, of "\<lambda>r. r d"]
      call_any_mem [OF start_map, of "\<lambda>r. r"] call_any_mem [OF end_map, of "\<lambda>r. r"]
      call_any_mem [OF start_array, of "\<lambda>r. r"] call_any_mem [OF end_array, of "\<lambda>r. r"])+

lemma react_text:
  assumes "mem_bytes m p n = Some s" "n = length s"
  shows "react cbs c (E_number s) = map_option (\<lambda>f. f c m p n) (cb_number cbs)"
    "react cbs c (E_string s) = map_option (\<lambda>f. f c m p n) (cb_string cbs)"
    "react cbs c (E_map_key s) = map_option (\<lambda>f. f c m p n) (cb_map_key cbs)"
  using number string map_key assms
  by (auto simp: by_text_def intro!: option.map_cong0)

end

section \<open>Tokens in the code and in the reference\<close>

definition delivered ::
  "bytes \<Rightarrow> ('c, 'd) yajl_handle \<Rightarrow> yajl_tok \<Rightarrow> strptr \<Rightarrow> nat \<Rightarrow> bytes \<Rightarrow> bool" where
  "delivered t h tok ptr n s \<longleftrightarrow>
     (tok \<noteq> yajl_tok_eof \<and> tok \<noteq> yajl_tok_error \<longrightarrow>
        n = length s \<and> mem_bytes (the_mem t h) ptr n = Some s \<and> 5 * Suc (length s) < buf_max \<and>
        (tok = yajl_tok_string_with_escapes \<longrightarrow>
           (\<exists>r. mem_from (the_mem t h) ptr = Some (s @ 0x22 # r))) \<and>
        (tok = yajl_tok_bool \<or> tok = yajl_tok_integer \<or> tok = yajl_tok_double \<longrightarrow> s \<noteq> []) \<and>
        (tok = yajl_tok_integer \<longrightarrow> hd s = 0x2D \<longrightarrow> 2 \<le> length s))"

lemma deliveredD:
  assumes "delivered t h tok ptr n s" "tok \<noteq> yajl_tok_eof" "tok \<noteq> yajl_tok_error"
  shows "n = length s" "mem_bytes (the_mem t h) ptr n = Some s" "5 * Suc (length s) < buf_max"
    "tok = yajl_tok_string_with_escapes \<Longrightarrow> \<exists>r. mem_from (the_mem t h) ptr = Some (s @ 0x22 # r)"
    "tok = yajl_tok_bool \<or> tok = yajl_tok_integer \<or> tok = yajl_tok_double \<Longrightarrow> s \<noteq> []"
    "tok = yajl_tok_integer \<Longrightarrow> hd s = 0x2D \<Longrightarrow> 2 \<le> length s"
  using assms by (auto simp: delivered_def)

lemma hrel_decodeBuf:
  "hrel cbs fl cm v h c \<Longrightarrow> buf_ok b \<Longrightarrow> hrel cbs fl cm v (h\<lparr>decodeBuf := b\<rparr>) c"
  by (simp add: hrel_def)

lemma decode_tok_rel:
  assumes h: "hrel cbs fl cm v h c" and d: "delivered t h yajl_tok_string_with_escapes ptr n s"
  shows "case ref_decode s of
      None \<Rightarrow> decode_tok t ptr n h = None
    | Some out \<Rightarrow> \<exists>h1. decode_tok t ptr n h = Some h1 \<and> hrel cbs fl cm v h1 c \<and> keeps h h1 \<and>
        mem_bytes (the_mem t h1) (PDec 0) (yajl_buf_len (decodeBuf h1)) = Some out \<and>
        yajl_buf_len (decodeBuf h1) = length out"
proof -
  note D = deliveredD [OF d, simplified]
  obtain r where r: "mem_from (the_mem t h) ptr = Some (s @ 0x22 # r)" using D(4) by blast
  have ok: "buf_ok (decodeBuf h)" using h by (simp add: hrel_def)
  note cl = buf_clear_ok [OF ok]
  have room: "buf_room (yajl_buf_clear (decodeBuf h)) (5 * Suc (length s))"
    using cl D(3) by (simp add: buf_room_def)
  have dec: "decode_tok t ptr n h =
      map_option (\<lambda>b. h\<lparr>decodeBuf := b\<rparr>)
        (yajl_string_decode (yajl_buf_clear (decodeBuf h)) (s @ 0x22 # r) (length s))"
    using r D(1) by (cases "yajl_string_decode (yajl_buf_clear (decodeBuf h)) (s @ 0x22 # r) (length s)")
      (simp_all add: decode_tok_def)
  show ?thesis
  proof (cases "ref_decode s")
    case None
    then show ?thesis using yajl_string_decode_ref [OF room, of r] dec by simp
  next
    case (Some out)
    then obtain b where b: "yajl_string_decode (yajl_buf_clear (decodeBuf h)) (s @ 0x22 # r) (length s) = Some b"
      "buf_ok b" "buf_contents b = out"
      using yajl_string_decode_ref [OF room, of r] cl by (auto simp: buf_room_def)
    have len: "length out = buf_used b" using b(2,3) by auto
    have "cells_bytes (buf_data b) 0 (buf_used b) = Some out"
      using cells_bytes_buf [OF b(2), of 0 "buf_used b"] b(2,3) len by simp
    then show ?thesis using Some dec b len hrel_decodeBuf [OF h b(2)]
      by (simp add: keeps_def the_mem_def yajl_buf_len_def)
  qed
qed

lemma parse_integer_loop_cong:
  "(\<And>k. k < len \<Longrightarrow> get k = get' k) \<Longrightarrow>
   parse_integer_loop get len neg pos ret = parse_integer_loop get' len neg pos ret"
proof (induction get len neg pos ret rule: parse_integer_loop.induct)
  case (1 get len neg pos ret)
  show ?case
  proof (cases "pos < len \<and> \<not> MAX_VALUE_TO_MULTIPLY <s ret")
    case True
    then have g: "get pos = get' pos" using 1(2) by simp
    show ?thesis
    proof (cases "get' pos")
      case None
      then show ?thesis using True g by (subst (1 2) parse_integer_loop.simps) simp
    next
      case (Some c)
      then show ?thesis using True g 1(1) [OF _ _ refl _ refl _ 1(2), of c]
        by (subst (1 2) parse_integer_loop.simps) (simp add: Let_def)
    qed
  next
    case False
    then show ?thesis by (subst (1 2) parse_integer_loop.simps) auto
  qed
qed

lemma yajl_parse_integer_cong:
  assumes "\<And>k. k < length s \<Longrightarrow> get k = Some (s ! k)" "s \<noteq> []" "hd s = 0x2D \<longrightarrow> 2 \<le> length s"
  shows "yajl_parse_integer get (length s) = yajl_parse_integer (rd s) (length s)"
proof -
  have "parse_integer_loop get (length s) neg pos ret = parse_integer_loop (rd s) (length s) neg pos ret" for neg pos ret
    by (rule parse_integer_loop_cong) (simp add: assms(1))
  moreover have "get 0 = rd s 0" using assms(1,2) by simp
  moreover have "get (Suc 0) = rd s (Suc 0)" if "s ! 0 = 0x2D"
    using assms that by (simp add: hd_conv_nth)
  ultimately show ?thesis
    using assms(2) by (cases "s ! 0 = 0x2D") (auto simp: yajl_parse_integer_def Let_def)
qed

lemma cells_cstr_map': "cells_cstr (map Some xs @ Some 0 # t) = Some (c_str xs)"
  by (induction xs) (auto simp: c_str_def)

lemma append_cstr:
  assumes "buf_ok b" "length s < buf_max" "s \<noteq> []"
  obtains b' d where "yajl_buf_append (yajl_buf_clear b) s = Some b'" "buf_ok b'"
    "buf_data b' = Some d" "cells_cstr d = Some (c_str s)"
proof -
  note cl = buf_clear_ok [OF assms(1)]
  obtain b' where b': "yajl_buf_append (yajl_buf_clear b) s = Some b'" "buf_ok b'"
    "buf_contents b' = s" "buf_used b' = length s" "buf_terminated b'"
    by (rule yajl_buf_append_ok [OF cl(1), of s]) (use cl assms in auto)
  obtain d where d: "buf_data b' = Some d"
    using b'(2-4) assms(3) by (cases "buf_data b'") (auto simp: buf_ok_def)
  note okd = buf_okD [OF b'(2) d]
  have m: "map the (take (length s) d) = s" using b'(3,4) d by (simp add: buf_contents_def)
  have "take (length s) d = map Some (map the (take (length s) d))"
    by (rule those_eq_map [OF those_Some]) (use okd(5) b'(4) in simp)
  then have t: "take (length s) d = map Some s" using m by simp
  have lt: "length s < length d" using okd(1,2) b'(4) by simp
  have "d ! length s = Some 0"
    using b'(5) d b'(4) lt by (auto simp: buf_terminated_def buf_read_def opt_simps)
  then have "d = map Some s @ Some 0 # drop (Suc (length s)) d"
    using t lt by (metis append_take_drop_id drop_nth_Cons)
  then have "cells_cstr d = Some (c_str s)" by (metis cells_cstr_map')
  then show thesis using that b' d by blast
qed

lemma the_cb_rel: "hrel cbs fl cm v h c \<Longrightarrow> the_cb sel h = sel cbs"
  by (simp add: hrel_def the_cb_def)

lemma the_cb_update [simp]:
  "the_cb sel (h\<lparr>c_erange := x\<rparr>) = the_cb sel h" "the_cb sel (h\<lparr>decodeBuf := b\<rparr>) = the_cb sel h"
  by (simp_all add: the_cb_def)

lemma ctx_rel: "hrel cbs fl cm v h c \<Longrightarrow> hctx h = p_ctx c"
  by (simp add: hrel_def)

lemma wants_simps [simp]:
  "wants cbs (E_string s) c \<longleftrightarrow> cb_string cbs \<noteq> None"
  "wants cbs (E_map_key s) c \<longleftrightarrow> cb_map_key cbs \<noteq> None"
  "wants cbs (E_number s) c \<longleftrightarrow> cb_number cbs \<noteq> None"
  "wants cbs (E_integer i) c \<longleftrightarrow> cb_integer cbs \<noteq> None"
  by (simp_all add: wants_def)

lemma restore_offset_rel:
  "hrel cbs fl cm v h c \<Longrightarrow> hrel cbs fl cm v (restore_offset n h) c"
  by (simp add: restore_offset_def hrel_def)

context content_client begin

lemma call_rel:
  assumes h: "hrel cbs fl cm v h c" "p_stack c \<noteq> []"
    and ev: "react cbs (p_ctx c) ev = map_option (\<lambda>f. app (f (p_ctx c) (the_mem t h))) (sel cbs)"
    and keep: "keeps h0 h" and room: "length (p_stack c) < buf_max"
  shows "steps_as (hrel cbs fl cm v) h0 (with_cb sel app t h (got_value push)) (emit cbs ev c (p_value push))"
  by (rule with_cb_rel [where app = app and sel = sel, OF h ev])
    (use h room keep keeps_trans in \<open>auto intro!: got_value_rel\<close>)

lemma pop_call_rel:
  assumes h: "hrel cbs fl cm v h c" "p_stack c \<noteq> []"
    and ev: "react cbs (p_ctx c) ev = map_option (\<lambda>f. app (f (p_ctx c) (the_mem t h))) (sel cbs)"
  shows "steps_as (hrel cbs fl cm v) h (with_cb sel app t h (\<lambda>h1. Some (Again (pop_state h1))))
    (emit cbs ev c (\<lambda>c1. R_go (p_pop c1)))"
proof (rule with_cb_rel [where app = app and sel = sel, OF h ev])
  fix h' c' assume "hrel cbs fl cm v h' c'" "keeps h h'" "p_stack c' = p_stack c"
  then show "steps_as (hrel cbs fl cm v) h (Some (Again (pop_state h'))) (Some (R_go (p_pop c')))"
    using pop_state_rel [of cbs fl cm v h' c'] h(2) keeps_trans by auto
qed

lemma integer_rel:
  assumes h: "hrel cbs fl cm v h c" "p_stack c \<noteq> []" "length (p_stack c) < buf_max"
    and d: "delivered t h yajl_tok_integer ptr n s"
  shows "steps_as (hrel cbs fl cm v) h (step_integer t ptr n h (got_value None))
    (ref_value cbs strtod yajl_tok_integer s c)"
proof -
  note D = deliveredD [OF d, simplified]
  note cb = the_cb_rel [OF h(1)]
  have num: "steps_as (hrel cbs fl cm v) h (with_cb cb_number (\<lambda>f. f ptr n) t h (got_value None))
      (emit cbs (E_number s) c (p_value None))"
    by (rule call_rel [OF h(1,2) _ keeps_refl h(3)]) (rule react_text(1) [OF D(2,1)])
  have int: "yajl_parse_integer (mem_byte (the_mem t h) ptr) n = yajl_parse_integer (rd s) (length s)"
    unfolding D(1)
    by (rule yajl_parse_integer_cong) (use mem_bytes_byte [OF D(2)] D(1,5,6) in auto)
  show ?thesis
  proof (cases "cb_number cbs")
    case (Some f)
    then show ?thesis using num
      by (simp add: step_integer_def ref_value_def cb with_cb_def)
  next
    case None
    show ?thesis
    proof (cases "cb_integer cbs")
      case i: None
      then show ?thesis using None got_value_rel [OF h(1,2) keeps_refl h(3)]
        by (simp add: step_integer_def ref_value_def cb)
    next
      case f: (Some f)
      show ?thesis
      proof (cases "yajl_parse_integer (rd s) (length s)")
        case n: None
        then show ?thesis using None f int
          by (simp add: step_integer_def ref_value_def cb)
      next
        case r: (Some r)
        let ?h1 = "h\<lparr>c_erange := c_erange h \<or> snd r\<rparr>" and ?c1 = "c\<lparr>p_erange := p_erange c \<or> snd r\<rparr>"
        have h1: "hrel cbs fl cm v ?h1 ?c1" "keeps h ?h1" "p_stack ?c1 \<noteq> []" "length (p_stack ?c1) < buf_max"
          using h by (simp_all add: hrel_def keeps_def)
        have er: "c_erange ?h1 = p_erange ?c1" and e: "c_erange h = p_erange c"
          using h1(1) h(1) by (simp_all add: hrel_def)
        show ?thesis
        proof (cases "(fst r = LLONG_MIN \<or> fst r = LLONG_MAX) \<and> p_erange ?c1")
          case True
          obtain h2 where h2: "fail_parse ''integer overflow'' ?h1 = Some h2" "hrel cbs fl cm v h2 (p_fail ''integer overflow'' ?c1)"
            by (rule fail_parse_rel [OF h1(1,3)])
          then show ?thesis using None f int r True er restore_offset_rel [OF h2(2), of n]
            by (simp add: step_integer_def ref_value_def cb again_def Let_def)
        next
          case False
          have "steps_as (hrel cbs fl cm v) h
              (with_cb cb_integer (\<lambda>g. g (fst r)) t ?h1 (got_value None))
              (emit cbs (E_integer (fst r)) ?c1 (p_value None))"
            by (rule call_rel [OF h1(1,3) _ h1(2,4)]) (rule react_call(3))
          moreover have F: "\<not> ((fst r = LLONG_MIN \<or> fst r = LLONG_MAX) \<and> (p_erange c \<or> snd r))"
            using False by simp
          ultimately show ?thesis using None f int r e
            by (simp add: step_integer_def ref_value_def cb with_cb_def Let_def F)
        qed
      qed
    qed
  qed
qed

lemma double_rel:
  assumes h: "hrel cbs fl cm v h c" "p_stack c \<noteq> []" "length (p_stack c) < buf_max"
    and d: "delivered t h yajl_tok_double ptr n s"
  shows "steps_as (hrel cbs fl cm v) h (step_double strtod t ptr n h (got_value None))
    (ref_value cbs strtod yajl_tok_double s c)"
proof -
  note D = deliveredD [OF d, simplified]
  note cb = the_cb_rel [OF h(1)]
  have num: "steps_as (hrel cbs fl cm v) h (with_cb cb_number (\<lambda>f. f ptr n) t h (got_value None))
      (emit cbs (E_number s) c (p_value None))"
    by (rule call_rel [OF h(1,2) _ keeps_refl h(3)]) (rule react_text(1) [OF D(2,1)])
  show ?thesis
  proof (cases "cb_number cbs")
    case (Some f)
    then show ?thesis using num by (simp add: step_double_def ref_value_def cb with_cb_def)
  next
    case None
    show ?thesis
    proof (cases "cb_double cbs")
      case i: None
      then show ?thesis using None got_value_rel [OF h(1,2) keeps_refl h(3)]
        by (simp add: step_double_def ref_value_def cb)
    next
      case f: (Some f)
      have ok: "buf_ok (decodeBuf h)" using h(1) by (simp add: hrel_def)
      obtain b dd where b: "yajl_buf_append (yajl_buf_clear (decodeBuf h)) s = Some b" "buf_ok b"
        "buf_data b = Some dd" "cells_cstr dd = Some (c_str s)"
        by (rule append_cstr [OF ok, of s]) (use D in auto)
      let ?r = "strtod (c_str s)"
      let ?h1 = "h\<lparr>decodeBuf := b, c_erange := c_erange h \<or> sd_erange ?r\<rparr>"
        and ?c1 = "c\<lparr>p_erange := p_erange c \<or> sd_erange ?r\<rparr>"
      have h1: "hrel cbs fl cm v ?h1 ?c1" "keeps h ?h1" "p_stack ?c1 \<noteq> []" "length (p_stack ?c1) < buf_max"
        using h b(2) by (simp_all add: hrel_def keeps_def)
      have er: "c_erange ?h1 = p_erange ?c1" and e: "c_erange h = p_erange c"
        using h1(1) h(1) by (simp_all add: hrel_def)
      show ?thesis
      proof (cases "sd_huge ?r \<and> p_erange ?c1")
        case True
        obtain h2 where h2: "fail_parse ''numeric (floating point) overflow'' ?h1 = Some h2" "hrel cbs fl cm v h2 (p_fail ''numeric (floating point) overflow'' ?c1)"
          by (rule fail_parse_rel [OF h1(1,3)])
        then show ?thesis using None f b D True er restore_offset_rel [OF h2(2), of n]
          by (simp add: step_double_def ref_value_def cb again_def Let_def)
      next
        case False
        have "steps_as (hrel cbs fl cm v) h
            (with_cb cb_double (\<lambda>g. g (sd_value ?r)) t ?h1 (got_value None))
            (emit cbs (E_double (sd_value ?r)) ?c1 (p_value None))"
          by (rule call_rel [OF h1(1,3) _ h1(2,4)]) (rule react_call(4))
        moreover have F: "\<not> (sd_huge ?r \<and> (p_erange c \<or> sd_erange ?r))"
          using False by simp
        ultimately show ?thesis using None f b D e
          by (simp add: step_double_def ref_value_def cb with_cb_def Let_def F)
      qed
    qed
  qed
qed

lemma value_tok_rel:
  assumes h: "hrel cbs fl cm v h c" "p_stack c \<noteq> []" "length (p_stack c) < buf_max"
    and d: "delivered t h tok ptr n s" and tok: "tok \<noteq> yajl_tok_eof"
  shows "steps_as (hrel cbs fl cm v) h (value_tok strtod t tok ptr n h) (ref_value cbs strtod tok s c)"
proof -
  note cb = the_cb_rel [OF h(1)]
  note fail = again_fail_rel(1) [OF h(1,2)]
  note call = call_rel [OF h(1,2) _ keeps_refl h(3)]
  show ?thesis
  proof (cases tok)
    case yajl_tok_error
    then show ?thesis using again_set_top_rel [OF h(1,2) keeps_refl]
      by (simp add: value_tok_def ref_value_def del: steps_as_simps)
  next
    case yajl_tok_string
    note D = deliveredD [OF d, unfolded yajl_tok_string, simplified]
    have "steps_as (hrel cbs fl cm v) h (with_cb cb_string (\<lambda>f. f ptr n) t h (got_value None))
        (emit cbs (E_string s) c (p_value None))"
      by (rule call [where app = "\<lambda>f. f ptr n"]) (rule react_text(2) [OF D(2,1)])
    then show ?thesis using yajl_tok_string by (simp add: value_tok_def ref_value_def)
  next
    case yajl_tok_string_with_escapes
    note d' = d [unfolded yajl_tok_string_with_escapes]
    show ?thesis
    proof (cases "cb_string cbs")
      case None
      then show ?thesis using yajl_tok_string_with_escapes got_value_rel [OF h(1,2) keeps_refl h(3)]
        by (simp add: value_tok_def ref_value_def cb)
    next
      case f: (Some f)
      show ?thesis
      proof (cases "ref_decode s")
        case None
        then show ?thesis using yajl_tok_string_with_escapes f decode_tok_rel [OF h(1) d']
          by (simp add: value_tok_def ref_value_def cb)
      next
        case (Some out)
        then obtain h1 where h1: "decode_tok t ptr n h = Some h1" "hrel cbs fl cm v h1 c" "keeps h h1"
          "mem_bytes (the_mem t h1) (PDec 0) (yajl_buf_len (decodeBuf h1)) = Some out"
          "yajl_buf_len (decodeBuf h1) = length out"
          using decode_tok_rel [OF h(1) d'] by auto
        have "steps_as (hrel cbs fl cm v) h
            (with_cb cb_string (\<lambda>f. f (PDec 0) (yajl_buf_len (decodeBuf h1))) t h1 (got_value None))
            (emit cbs (E_string out) c (p_value None))"
          by (rule call_rel [where app = "\<lambda>f. f (PDec 0) (yajl_buf_len (decodeBuf h1))", OF h1(2) h(2) _ h1(3) h(3)])
            (rule react_text(2) [OF h1(4,5)])
        then show ?thesis using yajl_tok_string_with_escapes f Some h1(1)
          by (simp add: value_tok_def ref_value_def cb)
      qed
    qed
  next
    case yajl_tok_bool
    note D = deliveredD [OF d, unfolded yajl_tok_bool, simplified]
    have byte: "mem_byte (the_mem t h) ptr 0 = Some (hd s)"
      using mem_bytes_byte [OF D(2), of 0] D(1,5) by (simp add: hd_conv_nth)
    have "steps_as (hrel cbs fl cm v) h (with_cb cb_boolean (\<lambda>f. f (hd s = 0x74)) t h (got_value None))
        (emit cbs (E_boolean (hd s = 0x74)) c (p_value None))"
      by (rule call [where app = "\<lambda>f. f (hd s = 0x74)"]) (rule react_call(2))
    moreover have "emit cbs (E_boolean (hd s = 0x74)) c (p_value None) = Some (p_value None c)"
      if "cb_boolean cbs = None" using that by (simp add: emit_def)
    ultimately show ?thesis using yajl_tok_bool byte got_value_rel [OF h(1,2) keeps_refl h(3), of None]
      by (simp add: value_tok_def ref_value_def cb split: option.split)
  next
    case yajl_tok_null
    have "steps_as (hrel cbs fl cm v) h (with_cb cb_null (\<lambda>f. f) t h (got_value None))
        (emit cbs E_null c (p_value None))"
      by (rule call [where app = "\<lambda>f. f"]) (rule react_call(1))
    then show ?thesis using yajl_tok_null by (simp add: value_tok_def ref_value_def)
  next
    case yajl_tok_left_bracket
    have "steps_as (hrel cbs fl cm v) h
        (with_cb cb_start_map (\<lambda>f. f) t h (got_value (Some yajl_state_map_start)))
        (emit cbs E_start_map c (p_value (Some yajl_state_map_start)))"
      by (rule call [where app = "\<lambda>f. f"]) (rule react_call(5))
    then show ?thesis using yajl_tok_left_bracket by (simp add: value_tok_def ref_value_def)
  next
    case yajl_tok_left_brace
    have "steps_as (hrel cbs fl cm v) h
        (with_cb cb_start_array (\<lambda>f. f) t h (got_value (Some yajl_state_array_start)))
        (emit cbs E_start_array c (p_value (Some yajl_state_array_start)))"
      by (rule call [where app = "\<lambda>f. f"]) (rule react_call(7))
    then show ?thesis using yajl_tok_left_brace by (simp add: value_tok_def ref_value_def)
  next
    case yajl_tok_integer
    then show ?thesis using integer_rel [OF h] d by (simp add: value_tok_def)
  next
    case yajl_tok_double
    then show ?thesis using double_rel [OF h] d by (simp add: value_tok_def)
  next
    case yajl_tok_right_brace
    have "steps_as (hrel cbs fl cm v) h (with_cb cb_end_array (\<lambda>f. f) t h (\<lambda>h1. Some (Again (pop_state h1))))
        (emit cbs E_end_array c (\<lambda>c1. R_go (p_pop c1)))"
      by (rule pop_call_rel [where app = "\<lambda>f. f", OF h(1,2)]) (rule react_call(8))
    then show ?thesis using yajl_tok_right_brace fail current_rel [OF h(1,2)]
      by (simp add: value_tok_def ref_value_def del: steps_as_simps)
  qed (use fail tok in \<open>simp_all add: value_tok_def ref_value_def del: steps_as_simps\<close>)
qed

lemma key_tok_rel:
  assumes h: "hrel cbs fl cm v h c" "p_stack c \<noteq> []"
    and d: "delivered t h tok ptr n s" and tok: "tok \<noteq> yajl_tok_eof"
  shows "steps_as (hrel cbs fl cm v) h (key_tok t tok ptr n h) (ref_key cbs tok s c)"
proof -
  note cb = the_cb_rel [OF h(1)]
  note fail = again_fail_rel(1) [OF h(1,2)]
  have sep: "steps_as (hrel cbs fl cm v) h (again (set_top yajl_state_map_sep h'))
      (Some (R_go (p_top yajl_state_map_sep c')))"
    if "hrel cbs fl cm v h' c'" "keeps h h'" "p_stack c' = p_stack c" for h' c'
    by (rule again_set_top_rel) (use that h(2) in auto)
  show ?thesis
  proof (cases tok)
    case yajl_tok_error
    then show ?thesis using again_set_top_rel [OF h(1,2) keeps_refl]
      by (simp add: key_tok_def ref_key_def del: steps_as_simps)
  next
    case yajl_tok_string
    note D = deliveredD [OF d, unfolded yajl_tok_string, simplified]
    have "steps_as (hrel cbs fl cm v) h
        (with_cb cb_map_key (\<lambda>f. f ptr n) t h (\<lambda>h1. again (set_top yajl_state_map_sep h1)))
        (emit cbs (E_map_key s) c (\<lambda>c1. R_go (p_top yajl_state_map_sep c1)))"
      by (rule with_cb_rel [where app = "\<lambda>f. f ptr n" and sel = cb_map_key and t = t, OF h react_text(3) [OF D(2,1)]]) (rule sep)
    then show ?thesis using yajl_tok_string by (simp add: key_tok_def ref_key_def)
  next
    case yajl_tok_string_with_escapes
    note d' = d [unfolded yajl_tok_string_with_escapes]
    show ?thesis
    proof (cases "cb_map_key cbs")
      case None
      then show ?thesis using yajl_tok_string_with_escapes sep [OF h(1) keeps_refl refl]
        by (simp add: key_tok_def ref_key_def cb del: steps_as_simps)
    next
      case f: (Some f)
      show ?thesis
      proof (cases "ref_decode s")
        case None
        then show ?thesis using yajl_tok_string_with_escapes f decode_tok_rel [OF h(1) d']
          by (simp add: key_tok_def ref_key_def cb)
      next
        case (Some out)
        then obtain h1 where h1: "decode_tok t ptr n h = Some h1" "hrel cbs fl cm v h1 c" "keeps h h1"
          "mem_bytes (the_mem t h1) (PDec 0) (yajl_buf_len (decodeBuf h1)) = Some out"
          "yajl_buf_len (decodeBuf h1) = length out"
          using decode_tok_rel [OF h(1) d'] by auto
        have "steps_as (hrel cbs fl cm v) h
            (with_cb cb_map_key (\<lambda>f. f (PDec 0) (yajl_buf_len (decodeBuf h1))) t h1
              (\<lambda>h1. again (set_top yajl_state_map_sep h1)))
            (emit cbs (E_map_key out) c (\<lambda>c1. R_go (p_top yajl_state_map_sep c1)))"
          by (rule with_cb_rel [where app = "\<lambda>f. f (PDec 0) (yajl_buf_len (decodeBuf h1))" and sel = cb_map_key and t = t,
                OF h1(2) h(2) react_text(3) [OF h1(4,5)]])
            (rule sep, use h1(3) keeps_trans in auto)
        then show ?thesis using yajl_tok_string_with_escapes f Some h1(1)
          by (simp add: key_tok_def ref_key_def cb)
      qed
    qed
  next
    case yajl_tok_right_bracket
    have "steps_as (hrel cbs fl cm v) h (with_cb cb_end_map (\<lambda>f. f) t h (\<lambda>h1. Some (Again (pop_state h1))))
        (emit cbs E_end_map c (\<lambda>c1. R_go (p_pop c1)))"
      by (rule pop_call_rel [where app = "\<lambda>f. f", OF h(1,2)]) (rule react_call(6))
    then show ?thesis using yajl_tok_right_bracket fail current_rel [OF h(1,2)]
      by (simp add: key_tok_def ref_key_def del: steps_as_simps)
  qed (use fail tok in \<open>simp_all add: key_tok_def ref_key_def del: steps_as_simps\<close>)
qed

lemma map_got_val_tok_rel:
  assumes h: "hrel cbs fl cm v h c" "p_stack c \<noteq> []" and tok: "tok \<noteq> yajl_tok_eof"
  shows "steps_as (hrel cbs fl cm v) h (map_got_val_tok t tok n h) (ref_map_got_val cbs tok c)"
proof -
  have "steps_as (hrel cbs fl cm v) h (with_cb cb_end_map (\<lambda>f. f) t h (\<lambda>h1. Some (Again (pop_state h1))))
      (emit cbs E_end_map c (\<lambda>c1. R_go (p_pop c1)))"
    by (rule pop_call_rel [where app = "\<lambda>f. f", OF h(1,2)]) (rule react_call(6))
  then show ?thesis
    using again_fail_rel(2) [OF h] again_set_top_rel [OF h keeps_refl] tok
    by (cases tok) (simp_all add: map_got_val_tok_def ref_map_got_val_def del: steps_as_simps)
qed

lemma array_got_val_tok_rel:
  assumes h: "hrel cbs fl cm v h c" "p_stack c \<noteq> []" and tok: "tok \<noteq> yajl_tok_eof"
  shows "steps_as (hrel cbs fl cm v) h (array_got_val_tok t tok h) (ref_array_got_val cbs tok c)"
proof -
  have "steps_as (hrel cbs fl cm v) h (with_cb cb_end_array (\<lambda>f. f) t h (\<lambda>h1. Some (Again (pop_state h1))))
      (emit cbs E_end_array c (\<lambda>c1. R_go (p_pop c1)))"
    by (rule pop_call_rel [where app = "\<lambda>f. f", OF h(1,2)]) (rule react_call(8))
  then show ?thesis
    using again_fail_rel(1) [OF h] again_set_top_rel [OF h keeps_refl] tok
    by (cases tok) (simp_all add: array_got_val_tok_def ref_array_got_val_def del: steps_as_simps)
qed

end

lemma sep_tok_rel:
  assumes h: "hrel cbs fl cm v h c" "p_stack c \<noteq> []" and tok: "tok \<noteq> yajl_tok_eof"
  shows "steps_as (hrel cbs fl cm v) h (sep_tok tok h) (ref_sep tok c)"
  using again_fail_rel(1) [OF h] again_set_top_rel [OF h keeps_refl] tok
  by (cases tok) (simp_all add: sep_tok_def ref_sep_def del: steps_as_simps)

section \<open>The lexer call of the parser\<close>

lemma cells_from_bytes:
  assumes "cells_bytes c i n = Some s" "n \<noteq> 0"
  shows "\<exists>r. cells_from c i = Some (s @ r)"
proof -
  obtain cs xs where cs: "c = Some cs" "cslice cs i n = Some xs" "those xs = Some s"
    using assms by (auto simp: cells_bytes_def opt_simps split: if_splits)
  have "xs = map Some s" by (rule those_eq_map [OF cs(3)])
  moreover have "xs = take n (drop i cs)" using cs(2) assms(2) by (auto simp: cslice_def split: if_splits)
  ultimately have d: "drop i cs = map Some s @ drop n (drop i cs)" by (metis append_take_drop_id)
  have "takeWhile (\<lambda>c. c \<noteq> None) (map Some s @ ys) = map Some s @ takeWhile (\<lambda>c. c \<noteq> None) ys" for ys
    by (rule takeWhile_append2) auto
  from this [of "drop n (drop i cs)"]
  have "takeWhile (\<lambda>c. c \<noteq> None) (drop i cs) = map Some s @ takeWhile (\<lambda>c. c \<noteq> None) (drop n (drop i cs))"
    by (simp only: d [symmetric])
  then show ?thesis using cs(1) by (simp add: cells_from_def comp_def)
qed

lemma mem_bytes_from:
  assumes "mem_bytes m p (Suc n) = Some s"
  shows "\<exists>r. mem_from m p = Some (s @ r)"
proof (cases p)
  case (PText i)
  then have "s = take (Suc n) (drop i (mem_text m))"
    using assms by (auto simp: cslice_def split: if_splits)
  then show ?thesis using PText by (metis append_take_drop_id mem_from.simps(2))
qed (use assms cells_from_bytes [of _ _ "Suc n" s] in auto)

lemma ref_integer_len:
  "fst (ref_integer xs) \<in> {yajl_tok_integer, yajl_tok_double} \<Longrightarrow> 1 \<le> snd (snd (ref_integer xs))"
  by (cases xs) (auto simp: ref_integer_def split: if_splits)

lemma ref_number_len:
  "fst (ref_number xs) \<in> {yajl_tok_integer, yajl_tok_double} \<Longrightarrow>
   1 \<le> snd (snd (ref_number xs)) \<and> (hd xs = 0x2D \<longrightarrow> 2 \<le> snd (snd (ref_number xs)))"
  using ref_integer_len [of xs] ref_integer_len [of "tl xs"]
  by (cases xs) (auto simp: ref_number_def split: if_splits)

lemma ref_tok_len:
  assumes "fst (ref_tok v c xs) \<noteq> yajl_tok_eof" "fst (ref_tok v c xs) \<noteq> yajl_tok_error"
  shows "1 \<le> snd (snd (ref_tok v c xs))"
    and "fst (ref_tok v c xs) = yajl_tok_integer \<Longrightarrow> c = 0x2D \<Longrightarrow> 2 \<le> snd (snd (ref_tok v c xs))"
proof -
  have "1 \<le> snd (snd (ref_number (c # xs)))" if "ref_tok v c xs = ref_number (c # xs)"
    using assms that ref_number_tok [of "c # xs"] ref_number_len [of "c # xs"] by auto
  moreover have "ref_tok v c xs = ref_number (c # xs) \<or> 1 \<le> snd (snd (ref_tok v c xs))"
    by (simp add: ref_tok_def del: ref_keyword.simps)
  ultimately show "1 \<le> snd (snd (ref_tok v c xs))" by metis
  show "2 \<le> snd (snd (ref_tok v c xs))" if "fst (ref_tok v c xs) = yajl_tok_integer" "c = 0x2D"
    using that ref_number_len [of "c # xs"] by (simp add: ref_tok_def is_digit_def)
qed

lemma ref_comment_tok:
  "fst (ref_comment xs) \<in> {yajl_tok_eof, yajl_tok_error, yajl_tok_comment}"
  using ref_block_tok [of "tl xs"]
  by (auto simp: ref_comment_def ref_line_def Let_def split: list.split)

lemma ref_lex_shape:
  assumes "ref_lex cm v xs = (q, tok, e, k)" "tok \<noteq> yajl_tok_eof" "tok \<noteq> yajl_tok_error"
  shows "q < k \<and> (tok = yajl_tok_integer \<longrightarrow> hd (drop q xs) = 0x2D \<longrightarrow> q + 2 \<le> k)"
  using assms
proof (induction cm v xs arbitrary: q tok e k rule: ref_lex.induct)
  case (2 cm v c xs)
  show ?case
  proof (cases "is_space c")
    case True
    obtain q' t' e' k' where r: "ref_lex cm v xs = (q', t', e', k')" by (cases "ref_lex cm v xs") auto
    then show ?thesis using 2(1) [OF True r] 2(3-5) True by (auto simp: ref_lex.simps(2))
  next
    case ns: False
    show ?thesis
    proof (cases "c = 0x2F \<and> cm")
      case True
      obtain u d j where j: "ref_comment xs = (u, d, j)" by (cases "ref_comment xs") auto
      have u: "u = yajl_tok_comment" using 2(3-5) ns True j ref_comment_tok [of xs]
        by (auto simp: ref_lex.simps(2) split: if_splits)
      obtain q' t' e' k' where r: "ref_lex cm v (drop j xs) = (q', t', e', k')"
        by (cases "ref_lex cm v (drop j xs)") auto
      have t': "t' = tok" "q = Suc j + q'" "k = Suc j + k'"
        using 2(3) ns True j u r by (auto simp: ref_lex.simps(2))
      have "q' < k' \<and> (tok = yajl_tok_integer \<longrightarrow> hd (drop q' (drop j xs)) = 0x2D \<longrightarrow> q' + 2 \<le> k')"
        by (rule 2(2)) (use ns True j u r 2(4,5) t' in auto)
      then show ?thesis using t' by (simp add: add.commute)
    next
      case False
      then have "q = 0" "ref_tok v c xs = (tok, e, k)" using 2(3-5) ns
        by (auto simp: ref_lex.simps(2) split: if_splits)
      then show ?thesis using ref_tok_len [of v c xs] 2(4,5) by auto
    qed
  qed
qed simp

lemma tok_body_le: "length (tok_body tok s) \<le> length s"
  by (simp add: tok_body_def)

lemma next_tok_rel:
  assumes h: "hrel cbs fl cm v h c" and l: "lexer h = Some l"
    and off: "bytesConsumed h \<le> length t" "bufInUse l \<Longrightarrow> bytesConsumed h = 0"
    and room: "5 * Suc (blen l + length t) < buf_max"
    and r: "ref_lex cm v (drop (bytesConsumed h) (ftext l t)) = (q, tok, e, k)"
  obtains ptr n h' l' where "next_tok t (length t) h = Some (tok, ptr, n, h')"
    "hrel cbs fl cm v h' c" "lexer h' = Some l'" "bytesConsumed h' \<le> length t"
    "tok = yajl_tok_eof \<Longrightarrow> bufInUse l' \<and>
       buf_contents (lex_buf l') = drop q (drop (bytesConsumed h) (ftext l t)) \<and>
       bytesConsumed h' = length t"
    "tok \<noteq> yajl_tok_eof \<Longrightarrow> \<not> bufInUse l' \<and>
       drop k (drop (bytesConsumed h) (ftext l t)) = drop (bytesConsumed h') t"
    "delivered t h' tok ptr n (tok_body tok (take (k - q) (drop q (drop (bytesConsumed h) (ftext l t)))))"
proof -
  let ?xs = "drop (bytesConsumed h) (ftext l t)"
  have lr: "lex_ready l" "allowComments l = cm" "validateUTF8 l = v" using h l by (auto simp: hrel_def)
  have "lexed_as l t ?xs (q, tok, e, k) (yajl_lex_lex t (length t) (l, bytesConsumed h))"
    using yajl_lex_lex_ref [OF lr(1) off] room lr r by simp
  then obtain ptr n l' off' where out: "yajl_lex_lex t (length t) (l, bytesConsumed h) = Some (tok, ptr, n, (l', off'))"
    and l': "lex_ready l'" "off' \<le> length t" "allowComments l' = cm" "validateUTF8 l' = v"
    and eof: "if tok = yajl_tok_eof
           then bufInUse l' \<and> buf_contents (lex_buf l') = drop q ?xs \<and> off' = length t
           else \<not> bufInUse l' \<and> drop k ?xs = drop off' t"
    and mem: "tok \<noteq> yajl_tok_eof \<and> tok \<noteq> yajl_tok_error \<longrightarrow>
             n = length (tok_body tok (take (k - q) (drop q ?xs))) \<and>
             (\<forall>dec. mem_bytes \<lparr>mem_text = t, mem_lex = buf_data (lex_buf l'), mem_dec = dec\<rparr> ptr n
                = Some (tok_body tok (take (k - q) (drop q ?xs))) \<and>
              (tok = yajl_tok_string \<or> tok = yajl_tok_string_with_escapes \<longrightarrow>
                 mem_bytes \<lparr>mem_text = t, mem_lex = buf_data (lex_buf l'), mem_dec = dec\<rparr> ptr (Suc n)
                   = Some (tok_body tok (take (k - q) (drop q ?xs)) @ [0x22])))"
    unfolding lexed_as_def prod.case using lr(2,3) by auto
  define h' where "h' = h\<lparr>lexer := Some l', bytesConsumed := off'\<rparr>"
  define s where "s = tok_body tok (take (k - q) (drop q ?xs))"
  have nt: "next_tok t (length t) h = Some (tok, ptr, n, h')"
    using l out by (simp add: next_tok_def h'_def)
  have m: "the_mem t h' = \<lparr>mem_text = t, mem_lex = buf_data (lex_buf l'), mem_dec = buf_data (decodeBuf h)\<rparr>"
    by (simp add: the_mem_def h'_def)
  have "delivered t h' tok ptr n s"
  proof (cases "tok = yajl_tok_eof \<or> tok = yajl_tok_error")
    case False
    have body: "n = length s" "mem_bytes (the_mem t h') ptr n = Some s"
      and quote: "tok = yajl_tok_string_with_escapes \<Longrightarrow> mem_bytes (the_mem t h') ptr (Suc n) = Some (s @ [0x22])"
      using mem False unfolding m s_def by blast+
    have xs: "length ?xs \<le> blen l + length t" using lr(1) by (simp add: lex_ready_def length_ftext)
    have kq: "q \<le> k" "k \<le> length ?xs" using ref_lex_within [OF r] by auto
    have "length s \<le> length (take (k - q) (drop q ?xs))" unfolding s_def by (rule tok_body_le)
    also have "\<dots> \<le> length ?xs" by simp
    finally have "length s \<le> length ?xs" .
    then have "length s \<le> blen l + length t" using xs by (rule le_trans)
    then have small: "5 * Suc (length s) < buf_max" using room by simp
    note shape = ref_lex_shape [OF r]
    have s': "length s = k - q" "q < length ?xs \<Longrightarrow> q < k \<Longrightarrow> hd s = hd (drop q ?xs)"
      if "tok \<noteq> yajl_tok_string" "tok \<noteq> yajl_tok_string_with_escapes"
      using that kq by (simp_all add: s_def tok_body_def)
    have from1: "\<exists>r. mem_from (the_mem t h') ptr = Some (s @ 0x22 # r)" if "tok = yajl_tok_string_with_escapes"
      using mem_bytes_from [OF quote [OF that]] by auto
    show ?thesis using False body small from1 shape s' kq
      by (auto simp: delivered_def)
  qed (auto simp: delivered_def)
  moreover have "hrel cbs fl cm v h' c" using h l' by (simp add: hrel_def h'_def)
  ultimately show thesis
    by (intro that [OF nt]) (use l' eof in \<open>auto simp: h'_def s_def split: if_splits\<close>)
qed

end
