(* ===== verification/Yajl_Parser_Refine.thy ===== *)
theory Yajl_Parser_Refine imports Yajl_Parser_Spec begin

text \<open>
  The loop of \<open>yajl_do_parse\<close> (\<open>jni/yajl/src/yajl_parser.c\<close>) implements the reference parser of
  \<open>Yajl_Parser_Spec\<close> for every client that only looks at the bytes it is given.
\<close>

section \<open>The loop\<close>

lemma around_again_None: "parse_step strtod t n h = None \<Longrightarrow> around_again strtod t n h = None"
  by (subst around_again.simps) simp

lemma around_again_Return:
  "parse_step strtod t n h = Some (Return st h1) \<Longrightarrow> around_again strtod t n h = Some (st, h1)"
  by (subst around_again.simps) simp

lemma around_again_Again:
  "parse_step strtod t n h = Some (Again h1) \<Longrightarrow> around_again strtod t n h = around_again strtod t n h1"
  by (subst around_again.simps) simp

text \<open>A step pushes at most one state, and it returns only when the client cancels.\<close>

definition grows_by_one :: "'c pconf \<Rightarrow> 'c rstep option \<Rightarrow> bool" where
  "grows_by_one c r \<longleftrightarrow>
     (\<forall>c2. r = Some (R_go c2) \<longrightarrow> length (p_stack c2) \<le> Suc (length (p_stack c))) \<and>
     (\<forall>st c2. r = Some (R_return st c2) \<longrightarrow> st = yajl_status_client_canceled)"

lemma grows_simps:
  assumes "p_stack c1 = p_stack c" "p_stack c \<noteq> []"
  shows "grows_by_one c (Some (R_go (p_top st c1)))" "grows_by_one c (Some (R_go (p_fail msg c1)))"
    "grows_by_one c (Some (R_go (p_pop c1)))" "grows_by_one c (Some (p_value push c1))"
    "grows_by_one c (Some (R_return yajl_status_client_canceled c2))"
  using assms
  by (auto simp: grows_by_one_def p_top_def p_fail_def p_pop_def p_value_def Let_def split: option.split)

lemma grows_emit:
  assumes "p_stack c1 = p_stack c" "\<And>c3. p_stack c3 = p_stack c \<Longrightarrow> grows_by_one c (Some (k c3))"
  shows "grows_by_one c (emit cbs ev c1 k)"
proof (cases "react cbs (p_ctx c1) ev")
  case None
  then show ?thesis using assms(2) [OF assms(1)] by (simp add: emit_def)
next
  case (Some r)
  show ?thesis
  proof (cases r)
    case (Some x)
    have "grows_by_one c (Some (k (c1\<lparr>p_ctx := fst x\<rparr>)))" by (rule assms(2)) (simp add: assms(1))
    then show ?thesis using \<open>react _ _ _ = Some r\<close> Some
      by (simp add: emit_def Let_def) (simp add: grows_by_one_def)
  qed (use Some in \<open>simp add: emit_def grows_by_one_def\<close>)
qed

lemma ref_token_grows:
  assumes "p_stack c \<noteq> []"
  shows "grows_by_one c (ref_token cbs strtod tok s c)"
proof -
  note g = grows_simps [OF _ assms] grows_emit
  have dec: "grows_by_one c (do { d \<leftarrow> ref_decode s; f d })" if "\<And>d. grows_by_one c (f d)" for f
    using that by (cases "ref_decode s") (simp_all add: grows_by_one_def)
  have "grows_by_one c (ref_value cbs strtod tok s c)"
  proof (cases "tok = yajl_tok_integer")
    case True
    show ?thesis
    proof (cases "yajl_parse_integer (rd s) (length s)")
      case None
      then show ?thesis using True by (auto simp: ref_value_def intro!: g) (simp add: grows_by_one_def)
    next
      case (Some r)
      then show ?thesis using True by (auto simp: ref_value_def Let_def intro!: g)
    qed
  qed (cases tok; auto simp: ref_value_def Let_def intro!: g dec)
  moreover have "grows_by_one c (ref_key cbs tok s c)"
    by (cases tok) (auto simp: ref_key_def Let_def intro!: g dec)
  moreover have "grows_by_one c (ref_sep tok c)"
    by (cases tok) (auto simp: ref_sep_def intro!: g)
  moreover have "grows_by_one c (ref_map_got_val cbs tok c)"
    by (cases tok) (auto simp: ref_map_got_val_def intro!: g)
  moreover have "grows_by_one c (ref_array_got_val cbs tok c)"
    by (cases tok) (auto simp: ref_array_got_val_def intro!: g)
  ultimately show ?thesis by (simp add: ref_token_def Let_def g)
qed

lemma ref_token_error:
  assumes "ref_token cbs strtod yajl_tok_error s c = Some r"
  shows "\<exists>c2. r = R_go c2 \<and> in_error c2 \<and> p_stack c2 \<noteq> []"
  using assms
  by (auto simp: ref_token_def Let_def ref_value_def ref_key_def ref_sep_def ref_map_got_val_def
      ref_array_got_val_def p_top_def p_fail_def in_error_def split: if_splits)

text \<open>The bytes of an incomplete token the lexer keeps for the next chunk.\<close>

definition kept :: "('c, 'd) yajl_handle \<Rightarrow> bytes" where
  "kept h = (case lexer h of
     None \<Rightarrow> [] | Some l \<Rightarrow> if bufInUse l then buf_contents (lex_buf l) else [])"

text \<open>The code's answer for an answer of the reference parser.\<close>

definition parses_as ::
  "(('c, 'd) yajl_handle \<Rightarrow> 'c pconf \<Rightarrow> bool) \<Rightarrow> (yajl_status \<times> ('c, 'd) yajl_handle) option \<Rightarrow>
   (yajl_status \<times> 'c pconf \<times> bytes) option \<Rightarrow> bool" where
  "parses_as R out r \<longleftrightarrow>
     (case r of
        None \<Rightarrow> out = None
      | Some (st, c, p) \<Rightarrow> \<exists>h'. out = Some (st, h') \<and> R h' c \<and>
          (st = yajl_status_ok \<longrightarrow> kept h' = p))"

definition dispatch ::
  "(bytes \<Rightarrow> 'd strtod_result) \<Rightarrow> yajl_state \<Rightarrow> bytes \<Rightarrow> yajl_tok \<Rightarrow> strptr \<Rightarrow> nat \<Rightarrow>
   ('c, 'd) yajl_handle \<Rightarrow> ('c, 'd) pstep option" where
  "dispatch strtod st t tok ptr n h =
     (if st = yajl_state_map_start \<or> st = yajl_state_map_need_key then key_tok t tok ptr n h
      else if st = yajl_state_map_sep then sep_tok tok h
      else if st = yajl_state_map_got_val then map_got_val_tok t tok n h
      else if st = yajl_state_array_got_val then array_got_val_tok t tok h
      else value_tok strtod t tok ptr n h)"

lemma parse_step_dispatch:
  assumes "yajl_bs_current (stateStack h) = Some st" "next_tok t n h = Some (tok, ptr, m, h')"
    "st \<notin> {yajl_state_parse_complete, yajl_state_parse_error, yajl_state_lexical_error}"
  shows "parse_step strtod t n h = dispatch strtod st t tok ptr m h'"
  using assms
  by (cases st) (simp_all add: parse_step_def dispatch_def step_value_def step_key_def step_sep_def
      step_map_got_val_def step_array_got_val_def)

lemma dispatch_eof: "dispatch strtod st t yajl_tok_eof ptr n h = Some (Return yajl_status_ok h)"
  by (simp add: dispatch_def value_tok_def key_tok_def sep_tok_def map_got_val_tok_def array_got_val_tok_def)

context content_client begin

lemma dispatch_rel:
  assumes h: "hrel cbs fl cm v h c" "p_stack c \<noteq> []" "length (p_stack c) < buf_max"
    and d: "delivered t h tok ptr n s" and tok: "tok \<noteq> yajl_tok_eof"
    and st: "hd (p_stack c) \<noteq> yajl_state_parse_complete"
  shows "steps_as (hrel cbs fl cm v) h (dispatch strtod (hd (p_stack c)) t tok ptr n h)
    (ref_token cbs strtod tok s c)"
  using value_tok_rel [OF h d tok] key_tok_rel [OF h(1,2) d tok] sep_tok_rel [OF h(1,2) tok]
    map_got_val_tok_rel [OF h(1,2) tok] array_got_val_tok_rel [OF h(1,2) tok] st
  by (simp add: dispatch_def ref_token_def Let_def del: steps_as_simps)

text \<open>A token read outside the complete state, from the call of the lexer on.\<close>

lemma loop_token:
  assumes h: "hrel cbs fl cm v h c" "p_stack c \<noteq> []"
    and l: "lexer h = Some l" "bytesConsumed h \<le> length t" "bufInUse l \<Longrightarrow> bytesConsumed h = 0"
    and room: "5 * Suc (blen l + length t) < buf_max" "length (p_stack c) < buf_max"
    and r: "ref_lex cm v (drop (bytesConsumed h) (ftext l t)) = (q, tok, e, k)" "tok \<noteq> yajl_tok_eof"
    and st: "hd (p_stack c) \<notin> {yajl_state_parse_complete, yajl_state_parse_error, yajl_state_lexical_error}"
    and s: "s = tok_body tok (take (k - q) (drop q (drop (bytesConsumed h) (ftext l t))))"
  obtains h1 l1 where "steps_as (hrel cbs fl cm v) h1 (parse_step strtod t (length t) h) (ref_token cbs strtod tok s c)"
    "lexer h1 = Some l1" "\<not> bufInUse l1" "bytesConsumed h1 \<le> length t"
    "drop k (drop (bytesConsumed h) (ftext l t)) = drop (bytesConsumed h1) t"
proof -
  obtain ptr n h1 l1 where nt: "next_tok t (length t) h = Some (tok, ptr, n, h1)"
    "hrel cbs fl cm v h1 c" "lexer h1 = Some l1" "bytesConsumed h1 \<le> length t" "\<not> bufInUse l1"
    "drop k (drop (bytesConsumed h) (ftext l t)) = drop (bytesConsumed h1) t"
    "delivered t h1 tok ptr n s"
    unfolding s
    by (rule next_tok_rel [OF h(1) l(1,2) l(3) room(1) r(1)]) (use r(2) in auto)
  have "parse_step strtod t (length t) h = dispatch strtod (hd (p_stack c)) t tok ptr n h1"
    by (rule parse_step_dispatch [OF current_rel [OF h] nt(1) st])
  moreover have "steps_as (hrel cbs fl cm v) h1 (dispatch strtod (hd (p_stack c)) t tok ptr n h1)
      (ref_token cbs strtod tok s c)"
    by (rule dispatch_rel [OF nt(2) h(2) room(2) nt(7) r(2)]) (use st in simp)
  ultimately show thesis using that [of h1 l1] nt by simp
qed

end

lemma loop_error:
  assumes "hrel cbs fl cm v h c" "in_error c" "p_stack c \<noteq> []"
  shows "around_again strtod t n h = Some (yajl_status_error, h)"
  by (rule around_again_Return)
    (use assms current_rel [OF assms(1,3)] in \<open>auto simp: parse_step_def in_error_def\<close>)

lemma ref_parse_error:
  "in_error c \<Longrightarrow> p_stack c \<noteq> [] \<Longrightarrow>
   ref_parse cbs strtod multi trail cm v c xs = Some (yajl_status_error, c, [])"
  by (subst ref_parse.simps) simp

definition unread :: "('c, 'd) yajl_handle \<Rightarrow> bytes \<Rightarrow> bytes" where
  "unread h t = (case lexer h of None \<Rightarrow> [] | Some l \<Rightarrow> drop (bytesConsumed h) (ftext l t))"

definition in_chunk :: "('c, 'd) yajl_handle \<Rightarrow> bytes \<Rightarrow> bool" where
  "in_chunk h t \<longleftrightarrow>
     bytesConsumed h \<le> length t \<and>
     (\<forall>l. lexer h = Some l \<longrightarrow> (bufInUse l \<longrightarrow> bytesConsumed h = 0) \<and> 5 * Suc (blen l + length t) < buf_max)"

lemma unread_keeps:
  "keeps h h' \<Longrightarrow> unread h' t = unread h t" "keeps h h' \<Longrightarrow> in_chunk h' t = in_chunk h t"
  by (simp_all add: keeps_def unread_def in_chunk_def split: option.split)

lemma unread_at:
  "lexer h = Some l \<Longrightarrow> \<not> bufInUse l \<Longrightarrow> unread h t = drop (bytesConsumed h) t"
  by (simp add: unread_def ftext_def)

lemma no_stack:
  "hrel cbs fl cm v h c \<Longrightarrow> p_stack c = [] \<Longrightarrow> around_again strtod t n h = None"
  using bstack.current_empty [of "stateStack h"]
  by (intro around_again_None) (simp add: parse_step_def hrel_def)

context content_client begin

theorem around_again_ref:
  assumes "hrel cbs fl cm v h c" "in_chunk h t" "length (p_stack c) + length (unread h t) < buf_max"
    and "trail \<and> \<not> multi \<and> hd (p_stack c) = yajl_state_parse_complete \<longrightarrow> kept h = []"
    and fl: "multi \<longleftrightarrow> fl AND yajl_allow_multiple_values \<noteq> 0" "trail \<longleftrightarrow> fl AND yajl_allow_trailing_garbage \<noteq> 0"
  shows "parses_as (hrel cbs fl cm v) (around_again strtod t (length t) h)
    (ref_parse cbs strtod multi trail cm v c (unread h t))"
  using assms(1-4)
proof (induction "length (unread h t)" arbitrary: c h rule: less_induct)
  case less
  let ?R = "hrel cbs fl cm v"
  let ?xs = "unread h t"
  have token: "parses_as ?R (around_again strtod t (length t) h')
      (case ref_lex cm v ?xs of
         (q, tok, e, k) \<Rightarrow>
           if tok = yajl_tok_eof then Some (yajl_status_ok, c', drop q ?xs)
           else do { r \<leftarrow> ref_token cbs strtod tok (tok_body tok (take (k - q) (drop q ?xs))) c';
                     case r of
                       R_return st c2 \<Rightarrow> Some (st, c2, [])
                     | R_go c2 \<Rightarrow>
                         if k = 0 then Some (yajl_status_error, c2, [])
                         else ref_parse cbs strtod multi trail cm v c2 (drop k ?xs) })"
    if h': "?R h' c'" "p_stack c' \<noteq> []" "keeps h h'" "length (p_stack c') = length (p_stack c)"
      and st: "hd (p_stack c') \<notin> {yajl_state_parse_complete, yajl_state_parse_error, yajl_state_lexical_error}"
    for h' c'
  proof -
    obtain l where l: "lexer h' = Some l" using h'(1) by (auto simp: hrel_def)
    have xs: "?xs = drop (bytesConsumed h') (ftext l t)"
      using unread_keeps(1) [OF h'(3), of t] l by (simp add: unread_def)
    have ch: "bytesConsumed h' \<le> length t" "bufInUse l \<Longrightarrow> bytesConsumed h' = 0"
      "5 * Suc (blen l + length t) < buf_max"
      using less.prems(2) unread_keeps(2) [OF h'(3), of t] l by (auto simp: in_chunk_def)
    obtain q tok e k where r: "ref_lex cm v ?xs = (q, tok, e, k)" by (cases "ref_lex cm v ?xs") auto
    have room: "length (p_stack c') < buf_max" using h'(4) less.prems(3) by simp
    show ?thesis
    proof (cases "tok = yajl_tok_eof")
      case True
      obtain ptr n h1 l1 where nt: "next_tok t (length t) h' = Some (tok, ptr, n, h1)" "?R h1 c'"
        "lexer h1 = Some l1" "bufInUse l1" "buf_contents (lex_buf l1) = drop q ?xs"
        by (rule next_tok_rel [OF h'(1) l ch(1) ch(2) ch(3) r [unfolded xs]]) (use True xs in auto)
      have "parse_step strtod t (length t) h' = Some (Return yajl_status_ok h1)"
        using parse_step_dispatch [OF current_rel [OF h'(1,2)] nt(1) st] True by (simp add: dispatch_eof)
      from around_again_Return [OF this] show ?thesis
        using nt(2-5) r True by (simp add: parses_as_def kept_def)
    next
      case False
      define s where "s = tok_body tok (take (k - q) (drop q ?xs))"
      obtain h1 l1 where h1: "steps_as ?R h1 (parse_step strtod t (length t) h') (ref_token cbs strtod tok s c')"
        "lexer h1 = Some l1" "\<not> bufInUse l1" "bytesConsumed h1 \<le> length t" "drop k ?xs = drop (bytesConsumed h1) t"
        by (rule loop_token [OF h'(1,2) l ch(1) ch(2) ch(3) room r [unfolded xs] False st, of s])
          (use xs s_def in auto)
      have tame: "grows_by_one c' (ref_token cbs strtod tok s c')" by (rule ref_token_grows [OF h'(2)])
      show ?thesis
      proof (cases "ref_token cbs strtod tok s c'")
        case None
        then show ?thesis using h1(1) r False s_def
          by (simp add: parses_as_def around_again_None)
      next
        case (Some rr)
        show ?thesis
        proof (cases rr)
          case (R_return st' c2)
          then show ?thesis using h1(1) r False Some s_def tame
            by (auto simp: parses_as_def around_again_Return grows_by_one_def)
        next
          case (R_go c2)
          obtain h2 where h2: "parse_step strtod t (length t) h' = Some (Again h2)" "?R h2 c2"
            "keeps h1 h2 \<or> in_error c2"
            using h1(1) Some R_go by auto
          have out: "around_again strtod t (length t) h' = around_again strtod t (length t) h2"
            by (rule around_again_Again [OF h2(1)])
          have err: "k = 0 \<Longrightarrow> in_error c2 \<and> p_stack c2 \<noteq> []"
          proof -
            assume "k = 0"
            then have "tok = yajl_tok_error" using ref_lex_shape [OF r False] by auto
            then show "in_error c2 \<and> p_stack c2 \<noteq> []" using ref_token_error Some R_go by blast
          qed
          have rest: "parses_as ?R (around_again strtod t (length t) h2)
              (if k = 0 then Some (yajl_status_error, c2, [])
               else ref_parse cbs strtod multi trail cm v c2 (drop k ?xs))"
          proof -
            consider (none) "p_stack c2 = []" | (bad) "p_stack c2 \<noteq> []" "in_error c2"
              | (go) "p_stack c2 \<noteq> []" "\<not> in_error c2" by blast
            then show ?thesis
            proof cases
              case none
              then have "ref_parse cbs strtod multi trail cm v c2 (drop k ?xs) = None"
                by (subst ref_parse.simps) simp
              then show ?thesis using none err no_stack [OF h2(2) none] by (auto simp: parses_as_def)
            next
              case bad
              then show ?thesis using loop_error [OF h2(2) bad(2,1)] h2(2)
                by (simp add: parses_as_def ref_parse_error)
            next
              case go
              then have k: "0 < k" using err by auto
              have keep: "keeps h1 h2" using h2(3) go by simp
              have u: "unread h2 t = drop k ?xs"
                using unread_keeps(1) [OF keep] unread_at [OF h1(2,3)] h1(5) by simp
              have "k \<le> length ?xs" using ref_lex_within [OF r] by simp
              then have lt: "length (unread h2 t) < length ?xs" using u k by simp
              have "in_chunk h2 t"
                using unread_keeps(2) [OF keep] h1(2-4) ch(3) by (simp add: in_chunk_def blen_def)
              moreover have "length (p_stack c2) \<le> Suc (length (p_stack c))"
                using tame Some R_go h'(4) by (simp add: grows_by_one_def)
              then have "length (p_stack c2) + length (unread h2 t) < buf_max"
                using lt less.prems(3) by simp
              moreover have "kept h2 = []" using keep h1(2,3) by (simp add: kept_def keeps_def)
              ultimately have "parses_as ?R (around_again strtod t (length t) h2)
                  (ref_parse cbs strtod multi trail cm v c2 (unread h2 t))"
                by (intro less.hyps [OF lt h2(2)]) simp_all
              then show ?thesis using k u by simp
            qed
          qed
          then show ?thesis using r False Some R_go s_def out by simp
        qed
      qed
    qed
  qed
  consider (none) "p_stack c = []" | (bad) "p_stack c \<noteq> []" "in_error c"
    | (complete) "p_stack c \<noteq> []" "hd (p_stack c) = yajl_state_parse_complete"
    | (other) "p_stack c \<noteq> []" "\<not> in_error c" "hd (p_stack c) \<noteq> yajl_state_parse_complete" by blast
  then show ?case
  proof cases
    case none
    then have "ref_parse cbs strtod multi trail cm v c ?xs = None" by (subst ref_parse.simps) simp
    then show ?thesis using no_stack [OF less.prems(1) none] by (simp add: parses_as_def)
  next
    case bad
    then show ?thesis using loop_error [OF less.prems(1) bad(2,1)] less.prems(1)
      by (simp add: parses_as_def ref_parse_error)
  next
    case other
    then have "hd (p_stack c) \<notin> {yajl_state_parse_complete, yajl_state_parse_error, yajl_state_lexical_error}"
      by (simp add: in_error_def)
    from token [OF less.prems(1) other(1) keeps_refl refl this] show ?thesis using other
      by (subst ref_parse.simps) (simp add: Let_def)
  next
    case complete
    then have ne: "\<not> in_error c" by (simp add: in_error_def)
    have cur: "parse_step strtod t (length t) h = step_complete t (length t) h"
      using current_rel [OF less.prems(1) complete(1)] complete(2) by (simp add: parse_step_def)
    have flags: "has_flag h yajl_allow_multiple_values = multi" "has_flag h yajl_allow_trailing_garbage = trail"
      using less.prems(1) fl by (simp_all add: has_flag_def hrel_def)
    show ?thesis
    proof (cases multi)
      case True
      obtain h1 where h1: "set_top yajl_state_got_value h = Some h1"
        "?R h1 (p_top yajl_state_got_value c)" "keeps h h1"
        by (rule set_top_rel [OF less.prems(1) complete(1)])
      have "around_again strtod t (length t) h = around_again strtod t (length t) h1"
        by (rule around_again_Again) (use cur flags True h1(1) in \<open>simp add: step_complete_def again_def\<close>)
      moreover have top: "p_stack (p_top yajl_state_got_value c) \<noteq> []"
        "length (p_stack (p_top yajl_state_got_value c)) = length (p_stack c)"
        "hd (p_stack (p_top yajl_state_got_value c)) = yajl_state_got_value"
        using complete(1) by (simp_all add: p_top_def)
      ultimately show ?thesis
        using token [OF h1(2) top(1) h1(3) top(2)] top(3) complete ne True
        by (subst ref_parse.simps) (simp add: Let_def)
    next
      case m: False
      show ?thesis
      proof (cases trail)
        case True
        then have "around_again strtod t (length t) h = Some (yajl_status_ok, h)"
          by (intro around_again_Return) (use cur flags m in \<open>simp add: step_complete_def\<close>)
        then show ?thesis using True m complete ne less.prems(1,4)
          by (subst ref_parse.simps) (simp add: parses_as_def)
      next
        case tr: False
        obtain l where l: "lexer h = Some l" "lex_ready l" "allowComments l = cm" "validateUTF8 l = v"
          using less.prems(1) by (auto simp: hrel_def)
        have xs: "?xs = drop (bytesConsumed h) (ftext l t)" using l by (simp add: unread_def)
        have ch: "bytesConsumed h \<le> length t" "bufInUse l \<Longrightarrow> bytesConsumed h = 0"
          "5 * Suc (blen l + length t) < buf_max"
          using less.prems(2) l by (auto simp: in_chunk_def)
        obtain q tok e k where r: "ref_lex cm v ?xs = (q, tok, e, k)" by (cases "ref_lex cm v ?xs") auto
        have "in_error (p_fail ''trailing garbage'' c)" "p_stack (p_fail ''trailing garbage'' c) \<noteq> []"
          by (simp_all add: in_error_def p_fail_def p_top_def)
        note bad = ref_parse_error [OF this]
        have ref: "ref_parse cbs strtod multi trail cm v c ?xs =
            (if tok = yajl_tok_eof then Some (yajl_status_ok, c, drop q ?xs)
             else Some (yajl_status_error, p_fail ''trailing garbage'' c, []))"
          using complete ne m tr r by (subst ref_parse.simps) (simp add: ref_token_def bad)
        show ?thesis
        proof (cases "bytesConsumed h = length t")
          case True
          have "around_again strtod t (length t) h = Some (yajl_status_ok, h)"
            by (rule around_again_Return) (use cur flags m tr True in \<open>simp add: step_complete_def\<close>)
          moreover have "tok = yajl_tok_eof \<and> drop q ?xs = kept h"
          proof (cases "bufInUse l")
            case use: True
            then have "?xs = buf_contents (lex_buf l)" using xs ch(2) True by (simp add: ftext_def)
            then show ?thesis using l use r by (auto simp: kept_def lex_ready_def)
          next
            case False
            then have "?xs = []" using xs True by (simp add: ftext_def)
            then show ?thesis using l False r by (simp add: kept_def)
          qed
          ultimately show ?thesis using ref less.prems(1) by (simp add: parses_as_def)
        next
          case off: False
          show ?thesis
          proof (cases "tok = yajl_tok_eof")
            case True
            obtain ptr n h1 l1 where nt: "next_tok t (length t) h = Some (tok, ptr, n, h1)" "?R h1 c"
              "lexer h1 = Some l1" "bufInUse l1" "buf_contents (lex_buf l1) = drop q ?xs" "bytesConsumed h1 = length t"
              by (rule next_tok_rel [OF less.prems(1) l(1) ch(1) ch(2) ch(3) r [unfolded xs]])
                (use True xs in auto)
            have "around_again strtod t (length t) h = around_again strtod t (length t) h1"
              by (rule around_again_Again) (use cur flags m tr off nt(1) True in \<open>simp add: step_complete_def\<close>)
            also have "parse_step strtod t (length t) h1 = Some (Return yajl_status_ok h1)"
              using current_rel [OF nt(2) complete(1)] complete(2) nt(2,6) fl m tr
              by (simp add: parse_step_def step_complete_def has_flag_def hrel_def)
            then have "around_again strtod t (length t) h1 = Some (yajl_status_ok, h1)"
              by (rule around_again_Return)
            finally show ?thesis using ref True nt by (simp add: parses_as_def kept_def)
          next
            case False
            obtain ptr n h1 where nt: "next_tok t (length t) h = Some (tok, ptr, n, h1)" "?R h1 c"
              by (rule next_tok_rel [OF less.prems(1) l(1) ch(1) ch(2) ch(3) r [unfolded xs]]) auto
            obtain h2 where h2: "fail_parse ''trailing garbage'' h1 = Some h2"
              "?R h2 (p_fail ''trailing garbage'' c)"
              by (rule fail_parse_rel [OF nt(2) complete(1)])
            have "around_again strtod t (length t) h = around_again strtod t (length t) h2"
              by (rule around_again_Again)
                (use cur flags m tr off nt(1) False h2(1) in \<open>simp add: step_complete_def again_def\<close>)
            also have "\<dots> = Some (yajl_status_error, h2)"
              by (rule loop_error [OF h2(2)]) (simp_all add: p_fail_def p_top_def in_error_def)
            finally show ?thesis using ref False h2(2) by (simp add: parses_as_def)
          qed
        qed
      qed
    qed
  qed
qed

end

end
