(* ===== verification/Yajl_Chunks.thy ===== *)
theory Yajl_Chunks imports Yajl_Parser_Refine begin

text \<open>
  Documents given in pieces: \<open>yajl_parse\<close> on any number of chunks and \<open>yajl_complete_parse\<close> at the
  end answer as the reference parser on the concatenation.
\<close>

section \<open>The reference parser on a split input\<close>

lemma ref_token_return:
  "p_stack c \<noteq> [] \<Longrightarrow> ref_token cbs strtod tok s c = Some (R_return st c2) \<Longrightarrow> st = yajl_status_client_canceled"
  using ref_token_grows [of c cbs strtod tok s] by (simp add: grows_by_one_def)

text \<open>The step of the loop that reads a token, from a state that reads one.\<close>

definition reads :: "bool \<Rightarrow> bool \<Rightarrow> 'c pconf \<Rightarrow> bool" where
  "reads multi trail c \<longleftrightarrow>
     p_stack c \<noteq> [] \<and> \<not> in_error c \<and>
     (hd (p_stack c) = yajl_state_parse_complete \<longrightarrow> \<not> multi \<and> \<not> trail)"

definition ref_read ::
  "('c, 'd) yajl_callbacks \<Rightarrow> (bytes \<Rightarrow> 'd strtod_result) \<Rightarrow> bool \<Rightarrow> bool \<Rightarrow> bool \<Rightarrow> bool \<Rightarrow>
   'c pconf \<Rightarrow> bytes \<Rightarrow> (yajl_status \<times> 'c pconf \<times> bytes) option" where
  "ref_read cbs strtod multi trail cm v c xs =
     (case ref_lex cm v xs of
        (q, tok, e, k) \<Rightarrow>
          if tok = yajl_tok_eof then Some (yajl_status_ok, c, drop q xs)
          else do { r \<leftarrow> ref_token cbs strtod tok (tok_body tok (take (k - q) (drop q xs))) c;
                    case r of
                      R_return st c2 \<Rightarrow> Some (st, c2, [])
                    | R_go c2 \<Rightarrow>
                        if k = 0 then Some (yajl_status_error, c2, [])
                        else ref_parse cbs strtod multi trail cm v c2 (drop k xs) })"

lemma ref_parse_reads:
  "reads multi trail c \<Longrightarrow> ref_parse cbs strtod multi trail cm v c xs = ref_read cbs strtod multi trail cm v c xs"
  unfolding ref_read_def by (subst ref_parse.simps) (auto simp: reads_def Let_def)

lemma ref_parse_cases:
  obtains (empty) "p_stack c = []" "\<And>xs. ref_parse cbs strtod multi trail cm v c xs = None"
  | (error) "p_stack c \<noteq> []" "in_error c" "\<And>xs. ref_parse cbs strtod multi trail cm v c xs = Some (yajl_status_error, c, [])"
  | (complete) "p_stack c \<noteq> []" "\<not> in_error c \<and> hd (p_stack c) = yajl_state_parse_complete \<and> trail \<and> \<not> multi"
      "\<And>xs. ref_parse cbs strtod multi trail cm v c xs = Some (yajl_status_ok, c, [])"
  | (read) c1 where "p_stack c \<noteq> []"
      "length (p_stack c1) = length (p_stack c) \<and> (c1 = c \<or> hd (p_stack c) = yajl_state_parse_complete \<and> c1 = p_top yajl_state_got_value c)"
      "reads multi trail c1"
      "\<And>xs. ref_parse cbs strtod multi trail cm v c xs = ref_read cbs strtod multi trail cm v c1 xs"
proof (cases "p_stack c = []")
  case True
  then show thesis by (intro empty) (simp_all add: ref_parse.simps)
next
  case ne: False
  show thesis
  proof (cases "in_error c")
    case True
    then show thesis by (intro error) (simp_all add: ref_parse_error ne)
  next
    case ok: False
    show thesis
    proof (cases "hd (p_stack c) = yajl_state_parse_complete \<and> (multi \<or> trail)")
      case False
      then have "reads multi trail c" using ne ok by (simp add: reads_def)
      then show thesis by (intro read [of c]) (simp_all add: ref_parse_reads ne)
    next
      case c: True
      show thesis
      proof (cases multi)
        case True
        let ?c = "p_top yajl_state_got_value c"
        have top: "p_stack ?c \<noteq> []" "hd (p_stack ?c) = yajl_state_got_value" "length (p_stack ?c) = length (p_stack c)"
          using ne by (simp_all add: p_top_def)
        then have r: "reads multi trail ?c" by (simp add: reads_def in_error_def)
        have "ref_parse cbs strtod multi trail cm v c xs = ref_read cbs strtod multi trail cm v ?c xs" for xs
          unfolding ref_read_def using c ne ok True by (subst ref_parse.simps) (simp add: Let_def)
        then show thesis using c by (intro read [OF ne _ r]) (simp_all add: top(3))
      next
        case False
        then show thesis using c ne ok by (intro complete) (simp_all add: ref_parse.simps)
      qed
    qed
  qed
qed

lemma ref_error_stays:
  assumes "ref_token cbs strtod yajl_tok_error s c = Some r"
  obtains c2 where "r = R_go c2" "\<And>xs. ref_parse cbs strtod multi trail cm v c2 xs = Some (yajl_status_error, c2, [])"
  using ref_token_error [OF assms] ref_parse_error by blast

lemma ref_lex_zero: "ref_lex cm v xs = (q, tok, e, 0) \<Longrightarrow> tok \<noteq> yajl_tok_eof \<Longrightarrow> tok = yajl_tok_error"
  using ref_lex_shape [of cm v xs q tok e 0] by auto

theorem ref_parse_append:
  "ref_parse cbs strtod multi trail cm v c (a @ b) =
     Option.bind (ref_parse cbs strtod multi trail cm v c a)
       (\<lambda>(st, c', p). if st = yajl_status_ok then ref_parse cbs strtod multi trail cm v c' (p @ b)
                      else Some (st, c', p))"
proof (induction "length a" arbitrary: a c rule: less_induct)
  case less
  let ?P = "ref_parse cbs strtod multi trail cm v"
  let ?L = "ref_read cbs strtod multi trail cm v"
  show ?case
  proof (rule ref_parse_cases [of c cbs strtod multi trail cm v], goal_cases)
    case (4 c1)
    note read = 4
    obtain q tok e k where r: "ref_lex cm v a = (q, tok, e, k)" by (cases "ref_lex cm v a") auto
    show ?thesis
    proof (cases "tok = yajl_tok_eof")
      case False
      have ab: "ref_lex cm v (a @ b) = (q, tok, e, k)" using ref_lex_settled [of cm v a b] r False by simp
      have k: "q \<le> k" "k \<le> length a" using ref_lex_within [OF r] by auto
      have body: "take (k - q) (drop q (a @ b)) = take (k - q) (drop q a)" "drop k (a @ b) = drop k a @ b"
        using k by simp_all
      show ?thesis
      proof (cases "ref_token cbs strtod tok (tok_body tok (take (k - q) (drop q a))) c1")
        case None
        then show ?thesis using r ab False read(4) body by (simp add: ref_read_def del: take_append drop_append)
      next
        case (Some rr)
        show ?thesis
        proof (cases rr)
          case (R_return st c2)
          then have "st \<noteq> yajl_status_ok" using ref_token_return [OF _ Some [unfolded R_return]] read(3) by (auto simp: reads_def)
          then show ?thesis using r ab False read(4) body Some R_return by (simp add: ref_read_def del: take_append drop_append)
        next
          case (R_go c2)
          have "drop k a @ b = drop k (a @ b)" using body by simp
          have "0 < k \<Longrightarrow> ?P c2 (drop k a @ b) = Option.bind (?P c2 (drop k a))
             (\<lambda>(st, c', p). if st = yajl_status_ok then ?P c' (p @ b) else Some (st, c', p))"
            by (rule less) (use k in simp)
          then show ?thesis using r ab False read(4) body Some R_go
            by (simp add: ref_read_def del: take_append drop_append)
        qed
      qed
    next
      case True
      have a: "?P c a = Some (yajl_status_ok, c1, drop q a)" using r True read(4) by (simp add: ref_read_def)
      obtain q' tok' e' k' where r': "ref_lex cm v (drop q a @ b) = (q', tok', e', k')"
        by (cases "ref_lex cm v (drop q a @ b)") auto
      have q: "q \<le> length a" using ref_lex_within [OF r] by simp
      have ab: "ref_lex cm v (a @ b) = (q + q', tok', e', q + k')"
        using ref_lex_pending(4) [OF r [unfolded True], of b] r' by simp
      have split: "drop (q + n) (a @ b) = drop n (drop q a @ b)" for n using q by (simp add: add.commute)
      have "?L c1 (a @ b) = ?L c1 (drop q a @ b)"
      proof (cases "tok' \<noteq> yajl_tok_eof \<and> k' = 0")
        case True
        then have "tok' = yajl_tok_error" using ref_lex_zero r' by blast
        show ?thesis
        proof (cases "ref_token cbs strtod tok' (tok_body tok' (take (k' - q') (drop q' (drop q a @ b)))) c1")
          case None
          then show ?thesis using r' ab True split by (simp add: ref_read_def del: drop_append)
        next
          case (Some rr)
          then obtain c2 where "rr = R_go c2" "\<And>xs. ?P c2 xs = Some (yajl_status_error, c2, [])"
            using ref_error_stays \<open>tok' = _\<close> by metis
          then show ?thesis using r' ab True split Some by (simp add: ref_read_def del: drop_append)
        qed
      next
        case False
        then show ?thesis using r' ab split by (auto simp: ref_read_def simp del: drop_append)
      qed
      then show ?thesis using a by (simp add: read(4) ref_parse_reads [OF read(3)])
    qed
  qed simp_all
qed

text \<open>Nothing is pending after an answer other than \<open>ok\<close>; the depth is bounded by the input read.\<close>

lemma ref_parse_bounds:
  assumes "ref_parse cbs strtod multi trail cm v c xs = Some (yajl_status_ok, c', p)"
  shows "length (p_stack c') + length p \<le> length (p_stack c) + length xs"
  using assms
proof (induction "length xs" arbitrary: xs c rule: less_induct)
  case less
  show ?case
  proof (rule ref_parse_cases [of c cbs strtod multi trail cm v], goal_cases)
    case (4 c1)
    note read = 4
    obtain q tok e k where r: "ref_lex cm v xs = (q, tok, e, k)" by (cases "ref_lex cm v xs") auto
    show ?thesis
    proof (cases "tok = yajl_tok_eof")
      case True
      then show ?thesis using r read less.prems ref_lex_within [OF r] by (auto simp: ref_read_def)
    next
      case False
      have k: "k \<le> length xs" using ref_lex_within [OF r] by simp
      have c1: "p_stack c1 \<noteq> []" using read(3) by (simp add: reads_def)
      obtain rr where rr: "ref_token cbs strtod tok (tok_body tok (take (k - q) (drop q xs))) c1 = Some rr"
        using r False read(4) less.prems by (cases "ref_token cbs strtod tok (tok_body tok (take (k - q) (drop q xs))) c1")
          (simp_all add: ref_read_def)
      have g: "grows_by_one c1 (Some rr)" using ref_token_grows [OF c1] rr by metis
      show ?thesis
      proof (cases rr)
        case (R_return st c2)
        then show ?thesis using g r False read(4) less.prems rr by (simp add: ref_read_def grows_by_one_def)
      next
        case (R_go c2)
        then have "0 < k" "ref_parse cbs strtod multi trail cm v c2 (drop k xs) = Some (yajl_status_ok, c', p)"
          using r False read(4) less.prems rr by (auto simp: ref_read_def split: if_splits)
        then have "length (p_stack c') + length p \<le> length (p_stack c2) + length (drop k xs)"
          by (intro less.hyps) (use k in auto)
        moreover have "length (p_stack c2) \<le> Suc (length (p_stack c))"
          using g R_go read(2) by (simp add: grows_by_one_def)
        ultimately show ?thesis using k \<open>0 < k\<close> by simp
      qed
    qed
  qed (use less.prems in simp_all)
qed


section \<open>The calls of a client\<close>

text \<open>The chunks of a document, given as long as the answer is \<open>ok\<close>, and the end of the input.\<close>

fun feed ::
  "(bytes \<Rightarrow> 'd strtod_result) \<Rightarrow> ('c, 'd) yajl_handle \<Rightarrow> bytes list \<Rightarrow>
   (yajl_status \<times> ('c, 'd) yajl_handle) option" where
  "feed strtod h [] = Some (yajl_status_ok, h)"
| "feed strtod h (t # ts) =
     do { r \<leftarrow> yajl_parse strtod h t (length t);
          if fst r = yajl_status_ok then feed strtod (snd r) ts else Some r }"

definition parse_chunks ::
  "(bytes \<Rightarrow> 'd strtod_result) \<Rightarrow> ('c, 'd) yajl_handle \<Rightarrow> bytes list \<Rightarrow>
   (yajl_status \<times> ('c, 'd) yajl_handle) option" where
  "parse_chunks strtod h ts =
     do { r \<leftarrow> feed strtod h ts;
          if fst r = yajl_status_ok then yajl_complete_parse strtod (snd r) else Some r }"

text \<open>What a client observes: status, its context, the parser's states and the error message.\<close>

definition seen_by_client ::
  "yajl_status \<times> ('c, 'd) yajl_handle \<Rightarrow> yajl_status \<times> 'c \<times> yajl_state list \<times> string option" where
  "seen_by_client r = (fst r, hctx (snd r), bs_list (stateStack (snd r)), parseError (snd r))"

definition seen_in_ref ::
  "yajl_status \<times> 'c pconf \<Rightarrow> yajl_status \<times> 'c \<times> yajl_state list \<times> string option" where
  "seen_in_ref r = (fst r, p_ctx (snd r), p_stack (snd r), p_msg (snd r))"

definition ref_start :: "'c \<Rightarrow> bool \<Rightarrow> 'c pconf" where
  "ref_start ctx erange = \<lparr>p_stack = [yajl_state_start], p_ctx = ctx, p_msg = None, p_erange = erange\<rparr>"

text \<open>The verdict at the end of the input; \<open>partial\<close> is \<open>yajl_allow_partial_values\<close>.\<close>

definition ref_verdict :: "bool \<Rightarrow> 'c pconf \<Rightarrow> yajl_status \<times> 'c pconf" where
  "ref_verdict partial c =
     (if in_error c then (yajl_status_error, c)
      else if hd (p_stack c) = yajl_state_got_value \<or> hd (p_stack c) = yajl_state_parse_complete
      then (yajl_status_ok, c)
      else if \<not> partial then (yajl_status_error, p_fail ''premature EOF'' c)
      else (yajl_status_ok, c))"

definition ref_document ::
  "('c, 'd) yajl_callbacks \<Rightarrow> (bytes \<Rightarrow> 'd strtod_result) \<Rightarrow> 32 word \<Rightarrow> 'c pconf \<Rightarrow> bytes \<Rightarrow>
   (yajl_status \<times> 'c pconf) option" where
  "ref_document cbs strtod fl c xs =
     do { r \<leftarrow> ref_parse cbs strtod (fl AND yajl_allow_multiple_values \<noteq> 0)
                  (fl AND yajl_allow_trailing_garbage \<noteq> 0) (fl AND yajl_allow_comments \<noteq> 0)
                  (fl AND yajl_dont_validate_strings = 0) c (xs @ [0x20]);
          if fst r = yajl_status_ok
          then Some (ref_verdict (fl AND yajl_allow_partial_values \<noteq> 0) (fst (snd r)))
          else Some (fst r, fst (snd r)) }"


section \<open>The calls refine the reference\<close>

text \<open>The flags, as the reference parser takes them.\<close>

definition modes :: "32 word \<Rightarrow> bool \<Rightarrow> bool \<Rightarrow> bool \<Rightarrow> bool \<Rightarrow> bool" where
  "modes fl cm v multi trail \<longleftrightarrow>
     (cm \<longleftrightarrow> fl AND yajl_allow_comments \<noteq> 0) \<and> (v \<longleftrightarrow> fl AND yajl_dont_validate_strings = 0) \<and>
     (multi \<longleftrightarrow> fl AND yajl_allow_multiple_values \<noteq> 0) \<and>
     (trail \<longleftrightarrow> fl AND yajl_allow_trailing_garbage \<noteq> 0)"

text \<open>A configuration with the bytes of an incomplete token: no further step is possible.\<close>

definition settled :: "bool \<Rightarrow> bool \<Rightarrow> bool \<Rightarrow> bool \<Rightarrow> 'c pconf \<Rightarrow> bytes \<Rightarrow> bool" where
  "settled cm v multi trail c p \<longleftrightarrow>
     reads multi trail c \<and> (\<exists>e k. ref_lex cm v p = (0, yajl_tok_eof, e, k)) \<or>
     p_stack c \<noteq> [] \<and> \<not> in_error c \<and> hd (p_stack c) = yajl_state_parse_complete \<and> trail \<and> \<not> multi \<and> p = []"

lemma settled_parse:
  "settled cm v multi trail c p \<Longrightarrow>
   ref_parse cbs strtod multi trail cm v c p = Some (yajl_status_ok, c, p)"
  unfolding settled_def
proof (elim disjE conjE exE)
  fix e k assume "reads multi trail c" "ref_lex cm v p = (0, yajl_tok_eof, e, k)"
  then show ?thesis by (simp add: ref_parse_reads ref_read_def)
qed (subst ref_parse.simps, simp)

lemma ref_parse_settles:
  "ref_parse cbs strtod multi trail cm v c xs = Some (yajl_status_ok, c', p) \<Longrightarrow> settled cm v multi trail c' p"
proof (induction "length xs" arbitrary: xs c rule: less_induct)
  case less
  have eof: "reads multi trail c1 \<Longrightarrow> ref_lex cm v xs = (q, yajl_tok_eof, e, k) \<Longrightarrow>
      settled cm v multi trail c1 (drop q xs)" for c1 q e k
    using ref_lex_pending(3) by (fastforce simp: settled_def)
  show ?case
  proof (rule ref_parse_cases [of c cbs strtod multi trail cm v], goal_cases)
    case 3
    then show ?case using less.prems by (simp add: settled_def)
  next
    case (4 c1)
    obtain q tok e k where r: "ref_lex cm v xs = (q, tok, e, k)" by (cases "ref_lex cm v xs") auto
    show ?thesis
    proof (cases "tok = yajl_tok_eof")
      case True
      then show ?thesis using eof [OF 4(3)] r less.prems 4(4) by (simp add: ref_read_def)
    next
      case False
      let ?r = "ref_token cbs strtod tok (tok_body tok (take (k - q) (drop q xs))) c1"
      have k: "k \<le> length xs" using ref_lex_within [OF r] by simp
      obtain rr where rr: "?r = Some rr"
        using r False 4(4) less.prems by (cases ?r) (simp_all add: ref_read_def)
      show ?thesis
      proof (cases rr)
        case (R_return st c2)
        then show ?thesis using ref_token_return [OF _ rr [unfolded R_return]] r False 4(3,4) less.prems rr
          by (auto simp: ref_read_def reads_def)
      next
        case (R_go c2)
        then have "0 < k" "ref_parse cbs strtod multi trail cm v c2 (drop k xs) = Some (yajl_status_ok, c', p)"
          using r False 4(4) less.prems rr by (auto simp: ref_read_def split: if_splits)
        then show ?thesis by (intro less.hyps [of "drop k xs" c2]) (use k in auto)
      qed
    qed
  qed (use less.prems in simp_all)
qed

text \<open>A handle between two calls, in configuration \<open>c\<close> with the bytes \<open>p\<close> pending.\<close>

definition between ::
  "('c, 'd) yajl_callbacks \<Rightarrow> 32 word \<Rightarrow> bool \<Rightarrow> bool \<Rightarrow> bool \<Rightarrow> bool \<Rightarrow> ('c, 'd) yajl_handle \<Rightarrow> 'c pconf \<Rightarrow> bytes \<Rightarrow> bool"
where
  "between cbs fl cm v multi trail h c p \<longleftrightarrow>
     hrel cbs fl cm v (ensure_lexer h) c \<and> kept (ensure_lexer h) = p \<and> settled cm v multi trail c p"

lemma between_alloc:
  assumes "yajl_alloc (Some cbs) True ctx erange = Some h" "modes fl cm v multi trail"
  shows "between cbs fl cm v multi trail (h\<lparr>flags := fl\<rparr>) (ref_start ctx erange) []"
proof -
  have "bs_ok yajl_bs_init" "bs_list yajl_bs_init = []"
    by (simp_all add: bs_ok_def bs_list_def yajl_bs_init_def)
  then obtain b where b: "yajl_bs_push yajl_bs_init yajl_state_start = Some b" "bs_ok b" "bs_list b = [yajl_state_start]"
    using bstack.push_ok [of yajl_bs_init yajl_state_start] by auto
  have "lex_ready (yajl_lex_alloc cm v)" "\<not> bufInUse (yajl_lex_alloc cm v)"
    "allowComments (yajl_lex_alloc cm v) = cm" "validateUTF8 (yajl_lex_alloc cm v) = v"
    by (rule lex_ready_alloc) (simp_all add: yajl_lex_alloc_def)
  moreover have "ensure_lexer (h\<lparr>flags := fl\<rparr>) = h\<lparr>flags := fl, lexer := Some (yajl_lex_alloc cm v)\<rparr>"
    using assms by (auto simp: yajl_alloc_def ensure_lexer_def has_flag_def modes_def b(1))
  ultimately show ?thesis using assms(1) b
    by (auto simp: yajl_alloc_def between_def hrel_def ref_start_def kept_def settled_def reads_def in_error_def)
qed

lemma ensure_lexer_idem: "lexer h \<noteq> None \<Longrightarrow> ensure_lexer h = h"
  by (simp add: ensure_lexer_def)

lemma kept_length:
  "hrel cbs fl cm v h c \<Longrightarrow> lexer h = Some l \<Longrightarrow> blen l = length (kept h)"
  using length_buf_contents by (fastforce simp: hrel_def lex_ready_def blen_def kept_def)

lemma parses_as_cases:
  assumes "parses_as (hrel cbs fl cm v) out r"
  obtains (undefined) "out = None" "r = None"
  | (result) st h' c' p where "out = Some (st, h')" "r = Some (st, c', p)" "hrel cbs fl cm v h' c'"
      "lexer h' \<noteq> None" "st = yajl_status_ok \<Longrightarrow> kept h' = p"
proof (cases r)
  case None
  then show thesis using undefined assms by (simp add: parses_as_def)
next
  case (Some x)
  obtain st c' p where x: "x = (st, c', p)" by (cases x) auto
  then obtain h' where "out = Some (st, h')" "hrel cbs fl cm v h' c'" "st = yajl_status_ok \<longrightarrow> kept h' = p"
    using assms Some by (auto simp: parses_as_def)
  then show thesis using result [of st h' c' p] Some x by (auto simp: hrel_def)
qed

context content_client begin

lemma yajl_do_parse_ref:
  assumes b: "between cbs fl cm v multi trail h c p" and l: "lexer h \<noteq> None" and m: "modes fl cm v multi trail"
    and room: "5 * Suc (length p + length t) < buf_max" "length (p_stack c) + length p + length t < buf_max"
  shows "parses_as (hrel cbs fl cm v) (yajl_do_parse strtod t (length t) h)
    (ref_parse cbs strtod multi trail cm v c (p @ t))"
proof -
  let ?h = "h\<lparr>bytesConsumed := 0\<rparr>"
  have h: "hrel cbs fl cm v ?h c" "kept ?h = p" "settled cm v multi trail c p"
    using b l by (simp_all add: between_def ensure_lexer_idem hrel_def kept_def)
  obtain x where x: "lexer h = Some x" using l by auto
  have bl: "blen x = length p" using kept_length [OF h(1)] x h(2) by simp
  have u: "unread ?h t = p @ t" using h(2) x by (auto simp: unread_def ftext_def kept_def)
  have chunk: "in_chunk ?h t" using room(1) x bl by (simp add: in_chunk_def)
  have "trail \<and> \<not> multi \<and> hd (p_stack c) = yajl_state_parse_complete \<longrightarrow> kept ?h = []"
    using h(2,3) by (auto simp: settled_def reads_def)
  from around_again_ref [OF h(1) chunk _ this] show ?thesis
    using room(2) m unfolding u modes_def yajl_do_parse_def by simp
qed

text \<open>One call of \<open>yajl_parse\<close>.\<close>

lemma yajl_parse_ref:
  assumes b: "between cbs fl cm v multi trail h c p" and m: "modes fl cm v multi trail"
    and room: "5 * Suc (length (p_stack c) + length p + length t) < buf_max"
  shows "parses_as (hrel cbs fl cm v) (yajl_parse strtod h t (length t))
    (ref_parse cbs strtod multi trail cm v c (p @ t))"
proof -
  have l: "lexer (ensure_lexer h) \<noteq> None" by (simp add: ensure_lexer_def)
  then have "between cbs fl cm v multi trail (ensure_lexer h) c p"
    using b by (simp add: between_def ensure_lexer_idem)
  from yajl_do_parse_ref [OF this l m] show ?thesis using room by (simp add: yajl_parse_def)
qed

lemma between_next:
  assumes "ref_parse cbs strtod multi trail cm v c xs = Some (yajl_status_ok, c', p)"
    and "hrel cbs fl cm v h c'" "lexer h \<noteq> None" "kept h = p"
  shows "between cbs fl cm v multi trail h c' p"
  using assms(2-4) ref_parse_settles [OF assms(1)] by (simp add: between_def ensure_lexer_idem)


definition feeds_as ::
  "(('c, 'd) yajl_handle \<Rightarrow> 'c pconf \<Rightarrow> bool) \<Rightarrow> (('c, 'd) yajl_handle \<Rightarrow> 'c pconf \<Rightarrow> bytes \<Rightarrow> bool) \<Rightarrow>
   (yajl_status \<times> ('c, 'd) yajl_handle) option \<Rightarrow> (yajl_status \<times> 'c pconf \<times> bytes) option \<Rightarrow> bool" where
  "feeds_as R B out r \<longleftrightarrow>
     (case r of None \<Rightarrow> out = None
      | Some (st, c, p) \<Rightarrow> \<exists>h. out = Some (st, h) \<and> (if st = yajl_status_ok then B h c p else R h c))"

lemma feed_ref:
  assumes "between cbs fl cm v multi trail h c p" "modes fl cm v multi trail"
    "5 * Suc (length (p_stack c) + length p + length (concat ts)) < buf_max"
  shows "feeds_as (hrel cbs fl cm v) (between cbs fl cm v multi trail) (feed strtod h ts)
    (ref_parse cbs strtod multi trail cm v c (p @ concat ts))"
  using assms(1,3)
proof (induction ts arbitrary: h c p)
  case Nil
  then show ?case using settled_parse [of cm v multi trail c p cbs strtod] by (simp add: between_def feeds_as_def)
next
  case (Cons t ts)
  let ?P = "ref_parse cbs strtod multi trail cm v"
  have app: "?P c (p @ concat (t # ts)) = Option.bind (?P c (p @ t))
     (\<lambda>(st, c', p'). if st = yajl_status_ok then ?P c' (p' @ concat ts) else Some (st, c', p'))"
    using ref_parse_append [of _ _ _ _ _ _ c "p @ t" "concat ts"] by simp
  have "parses_as (hrel cbs fl cm v) (yajl_parse strtod h t (length t)) (?P c (p @ t))"
    by (rule yajl_parse_ref [OF Cons.prems(1) assms(2)]) (use Cons.prems(2) in simp_all)
  then show ?case
  proof (cases rule: parses_as_cases)
    case undefined
    then show ?thesis unfolding app by (simp add: feeds_as_def)
  next
    case (result st h' c' p')
    show ?thesis
    proof (cases "st = yajl_status_ok")
      case False
      then show ?thesis using result(1-3) unfolding app by (simp add: feeds_as_def)
    next
      case ok: True
      have r: "?P c (p @ t) = Some (yajl_status_ok, c', p')" using result(2) ok by simp
      have "length (p_stack c') + length p' \<le> length (p_stack c) + length (p @ t)"
        by (rule ref_parse_bounds [OF r])
      then have "5 * Suc (length (p_stack c') + length p' + length (concat ts)) < buf_max"
        using Cons.prems(2) by simp
      from Cons.IH [OF between_next [OF r result(3-5)] this] show ?thesis
        using ok result(1) r unfolding app by simp
    qed
  qed
qed

lemma yajl_complete_parse_ref:
  assumes b: "between cbs fl cm v multi trail h c p" and m: "modes fl cm v multi trail"
    and room: "5 * Suc (Suc (length (p_stack c) + length p)) < buf_max"
  shows "map_option seen_by_client (yajl_complete_parse strtod h) =
    map_option seen_in_ref (do { r \<leftarrow> ref_parse cbs strtod multi trail cm v c (p @ [0x20]);
       if fst r = yajl_status_ok then Some (ref_verdict (fl AND yajl_allow_partial_values \<noteq> 0) (fst (snd r)))
       else Some (fst r, fst (snd r)) })"
proof -
  have l: "lexer (ensure_lexer h) \<noteq> None" by (simp add: ensure_lexer_def)
  then have "between cbs fl cm v multi trail (ensure_lexer h) c p"
    using b by (simp add: between_def ensure_lexer_idem)
  from yajl_do_parse_ref [OF this l m, of "[0x20]" strtod]
  have "parses_as (hrel cbs fl cm v) (yajl_do_parse strtod [0x20] 1 (ensure_lexer h))
      (ref_parse cbs strtod multi trail cm v c (p @ [0x20]))"
    using room by simp
  then show ?thesis
  proof (cases rule: parses_as_cases)
    case undefined
    then show ?thesis by (simp add: yajl_complete_parse_def yajl_do_finish_def)
  next
    case (result st h' c' p')
    note seen = seen_by_client_def seen_in_ref_def
    have eqs: "hctx h' = p_ctx c'" "bs_list (stateStack h') = p_stack c'" "parseError h' = p_msg c'" "flags h' = fl"
      using result(3) by (simp_all add: hrel_def)
    show ?thesis
    proof (cases "st = yajl_status_ok")
      case False
      then show ?thesis using result(1,2) eqs
        by (simp add: yajl_complete_parse_def yajl_do_finish_def Let_def seen)
    next
      case True
      then have "settled cm v multi trail c' p'" using ref_parse_settles result(2) by blast
      then have ne: "p_stack c' \<noteq> []" "\<not> in_error c'" by (auto simp: settled_def reads_def)
      obtain h2 where h2: "fail_parse ''premature EOF'' h' = Some h2" "hrel cbs fl cm v h2 (p_fail ''premature EOF'' c')"
        by (rule fail_parse_rel [OF result(3) ne(1)])
      have "hctx h2 = p_ctx (p_fail ''premature EOF'' c')" "bs_list (stateStack h2) = p_stack (p_fail ''premature EOF'' c')"
        "parseError h2 = p_msg (p_fail ''premature EOF'' c')"
        using h2(2) by (simp_all add: hrel_def)
      moreover have "hd (p_stack c') \<noteq> yajl_state_parse_error" "hd (p_stack c') \<noteq> yajl_state_lexical_error"
        using ne(2) by (simp_all add: in_error_def)
      ultimately show ?thesis using result(1,2) eqs True current_rel [OF result(3) ne(1)] ne h2(1)
        by (simp add: yajl_complete_parse_def yajl_do_finish_def Let_def seen ref_verdict_def has_flag_def)
    qed
  qed
qed

lemma parse_chunks_ref:
  assumes h: "yajl_alloc (Some cbs) True ctx erange = Some h"
    and room: "5 * (length (concat ts) + 3) < buf_max"
  shows "map_option seen_by_client (parse_chunks strtod (h\<lparr>flags := fl\<rparr>) ts) =
    map_option seen_in_ref (ref_document cbs strtod fl (ref_start ctx erange) (concat ts))"
proof -
  obtain cm v multi trail where m: "modes fl cm v multi trail" by (simp add: modes_def)
  let ?P = "ref_parse cbs strtod multi trail cm v" and ?c = "ref_start ctx erange"
  note b = between_alloc [OF h m]
  have eqs: "(fl AND yajl_allow_comments \<noteq> 0) = cm" "(fl AND yajl_dont_validate_strings = 0) = v"
    "(fl AND yajl_allow_multiple_values \<noteq> 0) = multi" "(fl AND yajl_allow_trailing_garbage \<noteq> 0) = trail"
    using m by (auto simp: modes_def)
  have D: "ref_document cbs strtod fl ?c (concat ts) =
      Option.bind (Option.bind (?P ?c (concat ts))
        (\<lambda>(st, c', p). if st = yajl_status_ok then ?P c' (p @ [0x20]) else Some (st, c', p)))
      (\<lambda>r. if fst r = yajl_status_ok
           then Some (ref_verdict (fl AND yajl_allow_partial_values \<noteq> 0) (fst (snd r)))
           else Some (fst r, fst (snd r)))"
    unfolding ref_document_def eqs ref_parse_append [of cbs strtod _ _ _ _ "ref_start ctx erange" "concat ts"] ..
  have len: "length (p_stack ?c) = 1" by (simp add: ref_start_def)
  from feed_ref [OF b m, of ts strtod]
  have F: "feeds_as (hrel cbs fl cm v) (between cbs fl cm v multi trail) (feed strtod (h\<lparr>flags := fl\<rparr>) ts) (?P ?c (concat ts))"
    using room len by simp
  show ?thesis
  proof (cases "?P ?c (concat ts)")
    case None
    then show ?thesis using F D by (simp add: feeds_as_def parse_chunks_def)
  next
    case (Some r)
    obtain st c' p where r: "r = (st, c', p)" by (cases r) auto
    obtain h' where h': "feed strtod (h\<lparr>flags := fl\<rparr>) ts = Some (st, h')"
      "if st = yajl_status_ok then between cbs fl cm v multi trail h' c' p else hrel cbs fl cm v h' c'"
      using F Some r by (auto simp: feeds_as_def)
    show ?thesis
    proof (cases "st = yajl_status_ok")
      case False
      then show ?thesis using h' D Some r
        by (simp add: parse_chunks_def seen_by_client_def seen_in_ref_def hrel_def)
    next
      case True
      then have "length (p_stack c') + length p \<le> 1 + length (concat ts)"
        using ref_parse_bounds Some r len by metis
      then have "5 * Suc (Suc (length (p_stack c') + length p)) < buf_max" using room by simp
      from yajl_complete_parse_ref [OF _ m this, of h' strtod] show ?thesis
        using h' D Some r True by (simp add: parse_chunks_def)
    qed
  qed
qed

end

end
