(* ===== verification/Yajl_Total.thy ===== *)
theory Yajl_Total imports Yajl_Chunks begin

text \<open>
  When the parser of \<open>jni/yajl/src\<close> has a defined result: always, unless a client callback has none
  or the text holds the escape of a high surrogate followed by an escape other than \<open>\u\<close>, which the
  decoder reads from the wrong byte on.
\<close>

section \<open>Strings the decoder accepts\<close>

text \<open>The body of a string token: plain bytes and well-formed escapes.\<close>

fun string_body :: "bytes \<Rightarrow> bool" where
  "string_body [] = True"
| "string_body (c # xs) =
     (if c = 0x5C
      then (case xs of
              [] \<Rightarrow> False
            | d # ys \<Rightarrow> if d = 0x75 then ref_hex ys = 4 \<and> string_body (drop 4 ys)
                        else charLookup d AND VEC \<noteq> 0 \<and> string_body ys)
      else c \<noteq> 0x22 \<and> string_body xs)"

declare string_body.simps(2) [simp del]

text \<open>The escape of a high surrogate directly before an escape other than \<open>\u\<close>.\<close>

definition high_surrogate :: "bytes \<Rightarrow> bool" where
  "high_surrogate h \<longleftrightarrow> (\<exists>cp. hexToDigit 0 h 0 = Some cp \<and> cp AND 0xFC00 = 0xD800)"

fun broken_pair :: "bytes \<Rightarrow> bool" where
  "broken_pair [] = False"
| "broken_pair (c # xs) =
     (c = 0x5C \<and> take 1 xs = [0x75] \<and> high_surrogate (take 4 (drop 1 xs)) \<and>
        take 1 (drop 5 xs) = [0x5C] \<and> take 1 (drop 6 xs) \<noteq> [0x75] \<and> 6 < length xs
      \<or> broken_pair xs)"

lemma hex_loop_prefix:
  "i + n \<le> length s \<Longrightarrow> hex_loop n v (s @ t) i = hex_loop n v s i"
  by (induction n arbitrary: v i) (simp_all add: nth_append)

lemma hex_loop_drop: "hex_loop n v s (k + i) = hex_loop n v (drop k s) i"
proof (induction n arbitrary: v i)
  case (Suc n)
  have "rd s (k + i) = rd (drop k s) i" by (auto simp: rd_def)
  then show ?case using Suc [of _ "Suc i"] by simp
qed simp

lemma hexToDigit_drop: "hexToDigit v s k = hexToDigit v (drop k s) 0"
  using hex_loop_drop [of 4 v s k 0] by (simp add: hexToDigit_def)

lemma hexToDigit_take: "4 \<le> length s \<Longrightarrow> hexToDigit v s 0 = hexToDigit v (take 4 s) 0"
  using hex_loop_prefix [of 0 4 "take 4 s" v "drop 4 s"] by (simp add: hexToDigit_def)

lemma hex_table:
  "list_all (\<lambda>(n, w). w AND VHC \<noteq> 0 \<longrightarrow> hex_nibble (word_of_nat n) \<noteq> None) (zip [0..<256] charLookupTable)"
  by code_simp

lemma escape_table:
  "list_all (\<lambda>(n, w). w AND VEC \<noteq> 0 \<longrightarrow> n \<in> set [0x72, 0x6E, 0x5C, 0x2F, 0x22, 0x66, 0x62, 0x74])
     (zip [0..<256] charLookupTable)"
  by code_simp

lemma is_hex_nibble: "is_hex c \<Longrightarrow> hex_nibble c \<noteq> None"
  using hex_table [unfolded list_all_iff] byte_in_table [of c] by (force simp: is_hex_def)

lemma hex_loop_total: "list_all is_hex (take n (drop i s)) \<Longrightarrow> i + n \<le> length s \<Longrightarrow> hex_loop n v s i \<noteq> None"
proof (induction n arbitrary: v i)
  case (Suc n)
  then have "drop i s = s ! i # drop (Suc i) s" by (simp add: Cons_nth_drop_Suc)
  then have "is_hex (s ! i)" "list_all is_hex (take n (drop (Suc i) s))" using Suc.prems by simp_all
  moreover from this obtain d where "hex_nibble (s ! i) = Some d" using is_hex_nibble by blast
  ultimately show ?case using Suc.IH [of "Suc i"] Suc.prems(2) by simp
qed simp

lemma ref_hex_4: "ref_hex xs = 4 \<Longrightarrow> 4 \<le> length xs \<and> list_all is_hex (take 4 xs)"
proof -
  assume h: "ref_hex xs = 4"
  have "length (takeWhile is_hex (take 4 xs)) \<le> length (take 4 xs)" by (rule length_takeWhile_le)
  then have l: "length (take 4 xs) = 4" using h by (simp add: ref_hex_def min_def split: if_splits)
  then have "takeWhile is_hex (take 4 xs) = take 4 xs"
    using h by (metis ref_hex_def takeWhile_eq_take take_all order_refl)
  then show ?thesis using l by (auto simp: list_all_iff takeWhile_eq_all_conv)
qed

lemma hexToDigit_total: "ref_hex xs = 4 \<Longrightarrow> hexToDigit v xs 0 \<noteq> None"
  using hex_loop_total [of 4 0 xs v] ref_hex_4 [of xs] by (simp add: hexToDigit_def)

lemma broken_pair_drop: "broken_pair (drop n xs) \<Longrightarrow> broken_pair xs"
proof (induction n arbitrary: xs)
  case (Suc n)
  then show ?case by (cases xs) auto
qed simp

text \<open>An escape of such a body, at index \<open>e\<close> of the backslash.\<close>

lemma decode_escape_total:
  assumes e: "drop e s = 0x5C # d # ys" and body: "string_body (drop e s)" and ok: "\<not> broken_pair s"
  shows "\<exists>u e'. decode_escape (s @ [0x22]) (Suc e) = Some (u, e') \<and>
    (Suc e' \<le> length s \<and> string_body (drop (Suc e') s) \<or> Suc e' = Suc (length s))"
proof -
  have len: "length s = e + 2 + length ys" using arg_cong [OF e, of length] by simp
  have dr: "drop (e + n) s = drop n (0x5C # d # ys)" for n
    using arg_cong [OF e, of "drop n"] by (simp add: add.commute)
  have rd: "rd (s @ [0x22]) (e + n) = (if n < 2 + length ys then Some ((0x5C # d # ys) ! n) else rd [0x22] (n - 2 - length ys))" for n
    using arg_cong [OF e, of "\<lambda>x. x ! n"] len by (auto simp: rd_def nth_append)
  have d: "rd (s @ [0x22]) (Suc e) = Some d" using rd [of 1] by simp
  show ?thesis
  proof (cases "d = 0x75")
    case False
    then have b: "charLookup d AND VEC \<noteq> 0" "string_body ys" using body e by (auto simp: string_body.simps(2))
    then have "unat d \<in> set [0x72, 0x6E, 0x5C, 0x2F, 0x22, 0x66, 0x62, 0x74]"
      using escape_table [unfolded list_all_iff] byte_in_table [of d] by blast
    then have "d \<in> set [0x72, 0x6E, 0x5C, 0x2F, 0x22, 0x66, 0x62, 0x74]"
      by (auto simp: word_unat_eq_iff)
    then obtain u where "decode_escape (s @ [0x22]) (Suc e) = Some (u, Suc e)"
      using d by (auto simp: decode_escape_def)
    then show ?thesis using b dr [of 2] len by simp
  next
    case True
    then have b: "ref_hex ys = 4" "string_body (drop 4 ys)" using body e by (auto simp: string_body.simps(2))
    note four = ref_hex_4 [OF b(1)]
    define zs where "zs = drop 4 ys"
    have dz: "drop (e + 6 + n) s = drop n zs" for n 
  proof -
    have "drop (e + Suc (Suc (4 + n))) s = drop (4 + n) ys" unfolding dr drop_Suc_Cons ..
    then show ?thesis by (simp add: zs_def ac_simps)
  qed
    have lz: "length s = e + 6 + length zs" using len four by (simp add: zs_def)
    obtain cp where cp: "hexToDigit 0 (take 4 ys) 0 = Some cp"
      using hexToDigit_total [OF b(1), of 0] hexToDigit_take [of ys 0] four by auto
    have hex: "hexToDigit 0 (s @ [0x22]) (e + n) = hexToDigit 0 (take 4 xs) 0"
      if "drop (e + n) s = xs" "4 \<le> length xs" "e + n \<le> length s" for n xs
      using hexToDigit_drop [of 0 "s @ [0x22]" "e + n"] hexToDigit_take [of "xs @ [0x22]" 0] that by simp
    have h: "hexToDigit 0 (s @ [0x22]) (Suc e + 1) = Some cp"
      using hex [of 2 ys] dr [of 2] four len cp by simp
    have de: "decode_escape (s @ [0x22]) (Suc e) = decode_unicode (s @ [0x22]) (Suc e)"
      using d True by (simp add: decode_escape_def)
    show ?thesis
    proof (cases "cp AND 0xFC00 = 0xD800")
      case False
      then obtain u where "decode_unicode (s @ [0x22]) (Suc e) = Some (u, e + 5)"
        using h by (simp add: decode_unicode_def Let_def)
      then show ?thesis using de b(2) dz [of 0] lz by (simp add: zs_def ac_simps)
    next
      case sur: True
      have f: "rd (s @ [0x22]) (e + 6 + n) = rd (zs @ [0x22]) n" for n
        using arg_cong [OF dz [of 0], of "\<lambda>x. x ! n"] lz by (auto simp: rd_def nth_append)
      have lone: "\<exists>u. decode_unicode (s @ [0x22]) (Suc e) = Some (u, e + 6)"
        if "followed_by_u (s @ [0x22]) (e + 6) = Some False"
        using h sur that by (simp add: decode_unicode_def Let_def ac_simps)
      show ?thesis
      proof (cases zs)
        case Nil
        then have "followed_by_u (s @ [0x22]) (e + 6) = Some False" using f [of 0] by (simp add: followed_by_u_def)
        from lone [OF this] show ?thesis using de lz Nil by auto
      next
        case (Cons z ws)
        show ?thesis
        proof (cases "z = 0x5C")
          case False
          then have "followed_by_u (s @ [0x22]) (e + 6) = Some False"
            using f [of 0] Cons by (simp add: followed_by_u_def)
          from lone [OF this] show ?thesis
            using de lz Cons False b(2) dz [of 1] by (auto simp: zs_def [symmetric] string_body.simps(2))
        next
          case True
          then obtain w vs where w: "ws = w # vs" using b(2) Cons by (auto simp: zs_def [symmetric] string_body.simps(2) split: list.splits)
          have "w = 0x75"
          proof (rule ccontr)
            assume "w \<noteq> 0x75"
            moreover have y: "drop 4 ys = 0x5C # w # vs" using Cons True w by (simp add: zs_def)
            moreover have "drop 5 ys = w # vs" "length ys = 6 + length vs"
              using arg_cong [OF y, of tl] arg_cong [OF y, of length] four by (simp_all add: tl_drop flip: drop_Suc)
            ultimately have "broken_pair (drop e s)"
              using e \<open>d = 0x75\<close> cp sur
              by (simp add: high_surrogate_def drop_Cons')
            then show False using ok broken_pair_drop by blast
          qed
          then have v: "ref_hex vs = 4" "string_body (drop 4 vs)"
            using b(2) Cons True w by (auto simp: zs_def [symmetric] string_body.simps(2))
          note four' = ref_hex_4 [OF v(1)]
          have "followed_by_u (s @ [0x22]) (e + 6) = Some True"
            using f [of 0] f [of 1] Cons True w \<open>w = 0x75\<close> by (simp add: followed_by_u_def)
          moreover obtain cp' where "hexToDigit 0 (s @ [0x22]) (e + 8) = Some cp'"
            using hex [of 8 vs] dz [of 2] Cons w lz four' hexToDigit_total [OF v(1), of 0] hexToDigit_take [of vs 0]
            by (auto simp: ac_simps)
          ultimately obtain u where "decode_unicode (s @ [0x22]) (Suc e) = Some (u, e + 11)"
            using h sur by (simp add: decode_unicode_def Let_def ac_simps)
          then show ?thesis using de v dz [of 6] Cons w lz four' by simp
        qed
      qed
    qed
  qed
qed


lemma ref_decode_loop_total:
  assumes "\<not> broken_pair s" "beg \<le> e" "e \<le> length s \<and> string_body (drop e s) \<or> e = Suc (length s) \<and> beg = e"
  shows "ref_decode_loop (s @ [0x22]) (length s) beg e \<noteq> None"
  using assms(2,3)
proof (induction "Suc (length s) - e" arbitrary: beg e rule: less_induct)
  case less
  show ?case
  proof (cases "e < length s")
    case False
    then have "cslice (s @ [0x22]) beg (e - beg) \<noteq> None" using less.prems by (auto simp: cslice_def)
    then show ?thesis using False by (subst ref_decode_loop.simps) simp
  next
    case True
    then obtain c xs where c: "drop e s = c # xs" by (cases "drop e s") auto
    then have r: "rd (s @ [0x22]) e = Some c" "drop (Suc e) s = xs"
      using True by (auto simp: rd_def nth_append drop_Suc tl_drop [symmetric] simp flip: hd_drop_conv_nth)
    have b: "string_body (c # xs)" using less.prems True c by auto
    have sl: "cslice (s @ [0x22]) beg (e - beg) \<noteq> None" using less.prems True by (auto simp: cslice_def)
    show ?thesis
    proof (cases "c = 0x5C")
      case False
      then have "ref_decode_loop (s @ [0x22]) (length s) beg (Suc e) \<noteq> None"
        using b r(2) less.prems(1) True by (intro less.hyps) (auto simp: string_body.simps(2))
      then show ?thesis using False True r(1) by (subst ref_decode_loop.simps) simp
    next
      case esc: True
      then obtain d ys where xs: "xs = d # ys" using b by (auto simp: string_body.simps(2) split: list.splits)
      obtain u e' where u: "decode_escape (s @ [0x22]) (Suc e) = Some (u, e')"
        "Suc e' \<le> length s \<and> string_body (drop (Suc e') s) \<or> Suc e' = Suc (length s)"
        using decode_escape_total [of e s d ys] c xs esc b assms(1) by auto
      have "Suc e \<le> e'" by (rule decode_escape_advances [OF u(1)])
      then have "ref_decode_loop (s @ [0x22]) (length s) (Suc e') (Suc e') \<noteq> None"
        using u(2) True by (intro less.hyps) auto
      then show ?thesis using sl esc True r(1) u(1) by (subst ref_decode_loop.simps) auto
    qed
  qed
qed

lemma ref_decode_total: "string_body s \<Longrightarrow> \<not> broken_pair s \<Longrightarrow> ref_decode s \<noteq> None"
  using ref_decode_loop_total [of s 0 0] by (simp add: ref_decode_def)

section \<open>The lexer accepts nothing else\<close>

lemma string_body_high: "\<forall>c\<in>set xs. c \<noteq> 0x5C \<and> c \<noteq> 0x22 \<Longrightarrow> string_body (xs @ ys) = string_body ys"
  by (induction xs) (auto simp: string_body.simps(2))

lemma ref_tail_high:
  "ref_tail n xs = (yajl_tok_string, k) \<Longrightarrow> k \<le> length xs \<and> (\<forall>c\<in>set (take k xs). c \<noteq> 0x5C \<and> c \<noteq> 0x22)"
proof (induction n xs arbitrary: k rule: ref_tail.induct)
  case (3 n c xs)
  have high: "drop_bit 6 c = 0x2 \<Longrightarrow> c \<noteq> 0x5C \<and> c \<noteq> 0x22" by auto
  show ?case using 3 high by (cases "ref_tail n xs") (auto split: if_splits)
qed auto

lemma ref_utf8_tok: "fst (ref_utf8 c xs) \<in> {yajl_tok_string, yajl_tok_eof, yajl_tok_error}"
proof -
  have "fst (ref_tail n xs) \<in> {yajl_tok_string, yajl_tok_eof, yajl_tok_error}" for n
    by (induction n xs rule: ref_tail.induct) auto
  then show ?thesis by (auto simp: ref_utf8_def split: option.split)
qed

lemma string_body_unicode:
  assumes "ref_hex ys = 4"
  shows "string_body ((0x5C # 0x75 # take 4 ys) @ zs) = string_body zs"
proof -
  have "take 4 (take 4 ys @ zs) = take 4 ys" using ref_hex_4 [OF assms] by simp
  then have "ref_hex (take 4 ys @ zs) = 4" using assms by (simp only: ref_hex_def)
  then show ?thesis using ref_hex_4 [OF assms] by (simp add: string_body.simps(2))
qed

lemma ref_string_body:
  "ref_string v esc xs = (tok, e, k) \<Longrightarrow> tok = yajl_tok_string \<or> tok = yajl_tok_string_with_escapes \<Longrightarrow>
   1 \<le> k \<and> k \<le> length xs \<and> string_body (take (k - 1) xs)"
proof (induction "length xs" arbitrary: xs esc tok e k rule: less_induct)
  case less
  have step: ?case if "ref_string v esc xs = shift (length pre) (ref_string v esc' rest)" "xs = pre @ rest" "pre \<noteq> []"
      "\<And>zs. string_body (pre @ zs) = string_body zs" for pre rest esc'
  proof -
    note sh = that(1)
    obtain k' where r: "ref_string v esc' rest = (tok, e, k')" "k = length pre + k'"
      using sh less.prems(1) by (cases "ref_string v esc' rest") auto
    have "1 \<le> k' \<and> k' \<le> length rest \<and> string_body (take (k' - 1) rest)"
      by (rule less.hyps [OF _ r(1) less.prems(2)]) (use that(2,3) in simp)
    moreover from this have "take (k - 1) xs = pre @ take (k' - 1) rest" using that(2) r(2) by (cases k') simp_all
    ultimately show ?thesis using that r(2) by simp
  qed
  show ?case
  proof (cases xs)
    case Nil
    then show ?thesis using less.prems by auto
  next
    case (Cons c ys)
    consider "c = 0x22" | (esc) "c = 0x5C" | (plain) "c \<noteq> 0x22" "c \<noteq> 0x5C" by blast
    then show ?thesis
    proof cases
      case 1
      then show ?thesis using less.prems Cons by (auto simp: ref_string.simps(2))
    next
      case esc
      then obtain d zs where ys: "ys = d # zs"
        using less.prems Cons by (auto simp: ref_string.simps(2) split: list.splits)
      show ?thesis
      proof (cases "d = 0x75")
        case True
        then have h: "ref_hex zs = 4"
          using less.prems esc Cons ys by (auto simp: ref_string.simps(2) split: if_splits)
        show ?thesis
          by (rule step [of "0x5C # 0x75 # take 4 zs" True "drop 4 zs"])
            (use h True esc Cons ys ref_hex_4 [OF h] string_body_unicode [OF h] in \<open>simp_all add: ref_string.simps(2)\<close>)
      next
        case False
        then have vec: "charLookup d AND VEC \<noteq> 0"
          using less.prems esc Cons ys by (auto simp: ref_string.simps(2))
        show ?thesis
          by (rule step [of "[0x5C, d]" True zs])
            (use vec False esc Cons ys in \<open>simp_all add: ref_string.simps(2) string_body.simps(2) flip: numeral_2_eq_2\<close>)
      qed
    next
      case plain
      have ijc: "charLookup c AND IJC = 0"
        using less.prems Cons plain by (auto simp: ref_string.simps(2) split: if_splits)
      show ?thesis
      proof (cases v)
        case False
        show ?thesis
          by (rule step [of "[c]" esc ys])
            (use False ijc plain Cons in \<open>simp_all add: ref_string.simps(2) string_body.simps(2)\<close>)
      next
        case True
        obtain t n where u: "ref_utf8 c ys = (t, n)" by (cases "ref_utf8 c ys") auto
        have t: "t = yajl_tok_string"
          using less.prems Cons plain ijc True u ref_utf8_tok [of c ys]
          by (auto simp: ref_string.simps(2) split: if_splits)
        have high: "n \<le> length ys \<and> (\<forall>b\<in>set (take n ys). b \<noteq> 0x5C \<and> b \<noteq> 0x22)"
          using u t ref_tail_high by (auto simp: ref_utf8_def split: option.splits)
        show ?thesis
          by (rule step [of "c # take n ys" esc "drop n ys"])
            (use True ijc plain Cons u t high string_body_high [of "c # take n ys"] in \<open>simp_all add: ref_string.simps(2)\<close>)
      qed
    qed
  qed
qed


lemma ref_lex_body:
  assumes "ref_lex cm v xs = (q, yajl_tok_string_with_escapes, e, k)"
  shows "string_body (tok_body yajl_tok_string_with_escapes (take (k - q) (drop q xs)))"
  using assms
proof (induction cm v xs arbitrary: q e k rule: ref_lex.induct)
  case (2 cm v c xs)
  have sub: ?case if "ref_lex cm v (drop n (c # xs)) = (q', yajl_tok_string_with_escapes, e', k')" "q = n + q'" "k = n + k'"
      "string_body (tok_body yajl_tok_string_with_escapes (take (k' - q') (drop q' (drop n (c # xs)))))" for n q' e' k'
    using that by (simp add: add.commute)
  show ?case
  proof (cases "is_space c")
    case True
    obtain q' t e' k' where r: "ref_lex cm v xs = (q', t, e', k')" by (cases "ref_lex cm v xs") auto
    then have "t = yajl_tok_string_with_escapes" "q = 1 + q'" "k = 1 + k'"
      using "2.prems" True by (auto simp: ref_lex.simps(2))
    then show ?thesis using sub [of 1 q' e' k'] "2.IH"(1) [OF True] r by simp
  next
    case ns: False
    show ?thesis
    proof (cases "c = 0x2F \<and> cm")
      case True
      obtain u d j where j: "ref_comment xs = (u, d, j)" by (cases "ref_comment xs") auto
      have u: "u = yajl_tok_comment"
        using "2.prems" ns True j ref_comment_tok [of xs] by (auto simp: ref_lex.simps(2) split: if_splits)
      obtain q' t e' k' where r: "ref_lex cm v (drop j xs) = (q', t, e', k')" by (cases "ref_lex cm v (drop j xs)") auto
      then have "t = yajl_tok_string_with_escapes" "q = Suc j + q'" "k = Suc j + k'"
        using "2.prems" ns True j u by (auto simp: ref_lex.simps(2))
      then show ?thesis using sub [of "Suc j" q' e' k'] "2.IH"(2) [OF ns] True j u r by simp
    next
      case False
      then have t: "ref_tok v c xs = (yajl_tok_string_with_escapes, e, k)" "q = 0"
        using "2.prems" ns by (auto simp: ref_lex.simps(2) Let_def split: prod.splits if_splits)
      then have "c = 0x22" using ref_tok_string [of v c xs] by simp
      then obtain k' where k': "ref_string v False xs = (yajl_tok_string_with_escapes, e, k')" "k = Suc k'"
        using t by (cases "ref_string v False xs") (auto simp: ref_tok_def)
      have "1 \<le> k' \<and> k' \<le> length xs \<and> string_body (take (k' - 1) xs)"
        by (rule ref_string_body [OF k'(1)]) simp
      moreover from this have "tok_body yajl_tok_string_with_escapes (take k (c # xs)) = take (k' - 1) xs"
        using k'(2) by (simp add: tok_body_def min_absorb1 min_absorb2 diff_le_self)
      ultimately show ?thesis using t(2) by simp
    qed
  qed
qed simp

lemma broken_pair_take: "broken_pair (take n xs) \<Longrightarrow> broken_pair xs"
proof (induction xs arbitrary: n)
  case (Cons c xs)
  then obtain m where n: "n = Suc m" by (cases n) auto
  show ?case
  proof (cases "broken_pair (take m xs)")
    case True
    then show ?thesis using Cons.IH by simp
  next
    case False
    have "broken_pair (c # take m xs)" using Cons.prems n by (simp only: take_Suc_Cons)
    with False have p: "c = 0x5C \<and> take 1 (take m xs) = [0x75] \<and> high_surrogate (take 4 (drop 1 (take m xs))) \<and>
        take 1 (drop 5 (take m xs)) = [0x5C] \<and> take 1 (drop 6 (take m xs)) \<noteq> [0x75] \<and> 6 < length (take m xs)"
      unfolding broken_pair.simps(2) by blast
    then have m: "6 < m" "6 < length xs" by simp_all
    have "take 1 (drop 6 (take m xs)) = take 1 (drop 6 xs)" "take 1 (drop 5 (take m xs)) = take 1 (drop 5 xs)"
      "take 4 (drop 1 (take m xs)) = take 4 (drop 1 xs)" "take 1 (take m xs) = take 1 xs"
      using m(1) by (simp_all only: drop_take take_take min_def) simp_all
    note eqs = this
    show ?thesis using p [unfolded eqs] m(2) by simp
  qed
qed simp

section \<open>Totality\<close>

definition client_total :: "('c, 'd) yajl_callbacks \<Rightarrow> bool" where
  "client_total cbs \<longleftrightarrow> (\<forall>c ev. react cbs c ev \<noteq> Some None)"

text \<open>The bottom of the stack is the state of the document.\<close>

definition rooted :: "yajl_state list \<Rightarrow> bool" where
  "rooted st \<longleftrightarrow> st \<noteq> [] \<and>
     last st \<in> {yajl_state_start, yajl_state_got_value, yajl_state_parse_complete,
                yajl_state_parse_error, yajl_state_lexical_error}"

definition stays_rooted :: "'c rstep option \<Rightarrow> bool" where
  "stays_rooted r \<longleftrightarrow> (case r of Some (R_go c2) \<Rightarrow> rooted (p_stack c2) | Some _ \<Rightarrow> True | None \<Rightarrow> False)"

lemma rooted_simps:
  assumes "rooted (p_stack c)"
  shows "rooted (p_stack (p_fail msg c))" "rooted (p_stack (p_top yajl_state_lexical_error c))"
    "hd (p_stack c) \<notin> {yajl_state_start, yajl_state_got_value, yajl_state_parse_complete,
       yajl_state_parse_error, yajl_state_lexical_error} \<Longrightarrow> rooted (p_stack (p_pop c))"
    "hd (p_stack c) \<notin> {yajl_state_start, yajl_state_got_value, yajl_state_parse_complete,
       yajl_state_parse_error, yajl_state_lexical_error} \<Longrightarrow> rooted (p_stack (p_top st c))"
proof -
  obtain x xs where "p_stack c = x # xs" using assms by (cases "p_stack c") (simp_all add: rooted_def)
  then show "rooted (p_stack (p_fail msg c))" "rooted (p_stack (p_top yajl_state_lexical_error c))"
    "hd (p_stack c) \<notin> {yajl_state_start, yajl_state_got_value, yajl_state_parse_complete,
       yajl_state_parse_error, yajl_state_lexical_error} \<Longrightarrow> rooted (p_stack (p_pop c))"
    "hd (p_stack c) \<notin> {yajl_state_start, yajl_state_got_value, yajl_state_parse_complete,
       yajl_state_parse_error, yajl_state_lexical_error} \<Longrightarrow> rooted (p_stack (p_top st c))"
    using assms by (cases "xs = []"; simp add: rooted_def p_fail_def p_top_def p_pop_def)+
qed

lemma rooted_value:
  assumes "rooted (p_stack c)" "hd (p_stack c) \<noteq> yajl_state_parse_complete" "\<not> in_error c"
  shows "stays_rooted (Some (p_value push c))"
  using assms by (cases "p_stack c") (auto simp: stays_rooted_def rooted_def p_value_def p_top_def in_error_def Let_def
      split: option.split)

lemma emit_rooted:
  assumes "client_total cbs" "\<And>x. stays_rooted (Some (k (c\<lparr>p_ctx := x\<rparr>)))" "stays_rooted (Some (k c))"
  shows "stays_rooted (emit cbs ev c k)"
proof (cases "react cbs (p_ctx c) ev")
  case None
  then show ?thesis using assms(3) by (simp add: emit_def)
next
  case (Some r)
  then obtain x where r: "r = Some x" using assms(1) by (cases r) (auto simp: client_total_def)
  show ?thesis
    using Some r assms(2) [of "fst x"] by (cases "snd x") (simp_all add: emit_def Let_def stays_rooted_def)
qed

text \<open>A token whose string, if it is escaped, decodes, and whose number is not empty.\<close>

definition fair_token :: "yajl_tok \<Rightarrow> bytes \<Rightarrow> bool" where
  "fair_token tok s \<longleftrightarrow>
     (tok = yajl_tok_string_with_escapes \<longrightarrow> ref_decode s \<noteq> None) \<and>
     (tok = yajl_tok_integer \<longrightarrow> s \<noteq> [] \<and> (hd s = 0x2D \<longrightarrow> 2 \<le> length s))"

lemma parse_integer_loop_total: "parse_integer_loop (rd s) (length s) neg pos ret \<noteq> None"
proof (induction "length s - pos" arbitrary: pos ret rule: less_induct)
  case less
  show ?case
  proof (cases "pos < length s")
    case True
    then have "parse_integer_loop (rd s) (length s) neg (Suc pos) r \<noteq> None" for r by (intro less) auto
    then show ?thesis using True by (subst parse_integer_loop.simps) (auto simp: Let_def)
  qed (simp add: parse_integer_loop.simps)
qed

lemma yajl_parse_integer_total:
  "s \<noteq> [] \<Longrightarrow> (hd s = 0x2D \<longrightarrow> 2 \<le> length s) \<Longrightarrow> yajl_parse_integer (rd s) (length s) \<noteq> None"
  using parse_integer_loop_total by (auto simp: yajl_parse_integer_def Let_def rd_def hd_conv_nth)

lemma stays_rooted_cases: "stays_rooted (Some (R_go c)) \<longleftrightarrow> rooted (p_stack c)" "stays_rooted (Some (R_return st c))"
  by (simp_all add: stays_rooted_def)

lemma emit_value_rooted:
  assumes "client_total cbs" "rooted (p_stack c)" "hd (p_stack c) \<noteq> yajl_state_parse_complete" "\<not> in_error c"
  shows "stays_rooted (emit cbs ev c (p_value push))"
proof (rule emit_rooted [OF assms(1)])
  show "stays_rooted (Some (p_value push (c\<lparr>p_ctx := x\<rparr>)))" for x
    by (rule rooted_value) (use assms in \<open>simp_all add: in_error_def\<close>)
qed (rule rooted_value [OF assms(2-4)])

lemma emit_pop_rooted:
  assumes "client_total cbs" "rooted (p_stack c)"
    "hd (p_stack c) \<notin> {yajl_state_start, yajl_state_got_value, yajl_state_parse_complete,
       yajl_state_parse_error, yajl_state_lexical_error}"
  shows "stays_rooted (emit cbs ev c (\<lambda>c1. R_go (p_pop c1)))"
    "stays_rooted (emit cbs ev c (\<lambda>c1. R_go (p_top st c1)))"
  using rooted_simps(3,4) [OF assms(2,3)]
  by (intro emit_rooted [OF assms(1)]; simp add: stays_rooted_cases p_pop_def p_top_def)+

lemma ref_value_rooted:
  assumes cbs: "client_total cbs" and c: "rooted (p_stack c)" "\<not> in_error c" "hd (p_stack c) \<noteq> yajl_state_parse_complete"
    and tok: "fair_token tok s"
  shows "stays_rooted (ref_value cbs strtod tok s c)"
proof -
  note go = rooted_simps(1,2) [OF c(1)]
  note val = rooted_value [OF c(1,3,2)] emit_value_rooted [OF cbs c(1,3,2)]
  have er: "stays_rooted (emit cbs ev (c\<lparr>p_erange := e\<rparr>) (p_value push))" for ev e push
    using c by (intro emit_value_rooted [OF cbs]) (simp_all add: in_error_def)
  have "p_stack (p_fail msg (c\<lparr>p_erange := e\<rparr>)) = p_stack (p_fail msg c)" for msg e
    by (simp add: p_fail_def p_top_def)
  then have ef: "stays_rooted (Some (R_go (p_fail msg (c\<lparr>p_erange := e\<rparr>))))" for msg e
    using go(1) by (simp add: stays_rooted_cases)
  show ?thesis
  proof (cases tok)
    case yajl_tok_integer
    then obtain r where "yajl_parse_integer (rd s) (length s) = Some r"
      using tok yajl_parse_integer_total [of s] by (auto simp: fair_token_def)
    then show ?thesis using yajl_tok_integer val er ef by (simp add: ref_value_def Let_def stays_rooted_cases)
  next
    case yajl_tok_string_with_escapes
    then obtain d where "ref_decode s = Some d" using tok by (auto simp: fair_token_def)
    then show ?thesis using yajl_tok_string_with_escapes val by (simp add: ref_value_def)
  next
    case yajl_tok_right_brace
    have "hd (p_stack c) = yajl_state_array_start \<Longrightarrow> stays_rooted (emit cbs E_end_array c (\<lambda>c1. R_go (p_pop c1)))"
      by (rule emit_pop_rooted [OF cbs c(1)]) simp
    then show ?thesis using yajl_tok_right_brace go by (simp add: ref_value_def stays_rooted_cases)
  qed (use val er ef go in \<open>simp_all add: ref_value_def Let_def stays_rooted_cases\<close>)
qed

lemma ref_token_rooted:
  assumes cbs: "client_total cbs" and c: "rooted (p_stack c)" "\<not> in_error c" and tok: "fair_token tok s"
  shows "stays_rooted (ref_token cbs strtod tok s c)"
proof -
  let ?st = "hd (p_stack c)"
  note go = rooted_simps [OF c(1)]
  consider (finished) "?st = yajl_state_parse_complete"
    | (val) "?st \<in> {yajl_state_start, yajl_state_got_value, yajl_state_map_need_val, yajl_state_array_need_val, yajl_state_array_start}"
    | (nested) "?st \<in> {yajl_state_map_start, yajl_state_map_need_key, yajl_state_map_sep, yajl_state_map_got_val, yajl_state_array_got_val}"
    using c(2) by (cases ?st) (auto simp: in_error_def)
  then show ?thesis
  proof cases
    case finished
    then show ?thesis using go by (simp add: ref_token_def stays_rooted_cases)
  next
    case val
    then show ?thesis using ref_value_rooted [OF cbs c _ tok, of strtod] by (auto simp: ref_token_def Let_def)
  next
    case nested
    then have n: "?st \<notin> {yajl_state_start, yajl_state_got_value, yajl_state_parse_complete,
       yajl_state_parse_error, yajl_state_lexical_error}" by auto
    note st = go(1,2) go(4) [OF n] emit_pop_rooted [OF cbs c(1) n]
    have "stays_rooted (ref_key cbs tok s c)"
    proof (cases tok)
      case yajl_tok_string_with_escapes
      then obtain d where "ref_decode s = Some d" using tok by (auto simp: fair_token_def)
      then show ?thesis using yajl_tok_string_with_escapes st by (simp add: ref_key_def Let_def stays_rooted_cases)
    qed (use st in \<open>simp_all add: ref_key_def Let_def stays_rooted_cases\<close>)
    moreover have "stays_rooted (ref_sep tok c)"
      by (cases tok) (use st in \<open>simp_all add: ref_sep_def stays_rooted_cases\<close>)
    moreover have "stays_rooted (ref_map_got_val cbs tok c)"
      by (cases tok) (use st in \<open>simp_all add: ref_map_got_val_def stays_rooted_cases\<close>)
    moreover have "stays_rooted (ref_array_got_val cbs tok c)"
      by (cases tok) (use st in \<open>simp_all add: ref_array_got_val_def stays_rooted_cases\<close>)
    ultimately show ?thesis using nested by (auto simp: ref_token_def Let_def)
  qed
qed

lemma fair_token_lexed:
  assumes r: "ref_lex cm v xs = (q, tok, e, k)" "tok \<noteq> yajl_tok_eof" and xs: "\<not> broken_pair xs"
  shows "fair_token tok (tok_body tok (take (k - q) (drop q xs)))"
proof -
  let ?t = "take (k - q) (drop q xs)"
  have k: "q \<le> k" "k \<le> length xs" using ref_lex_within [OF r(1)] by auto
  have "ref_decode (tok_body tok ?t) \<noteq> None" if "tok = yajl_tok_string_with_escapes"
  proof (rule ref_decode_total)
    show "string_body (tok_body tok ?t)" using ref_lex_body r(1) that by blast
    have "tok_body tok ?t = take (length ?t - 2) (drop 1 ?t)" using that by (simp add: tok_body_def drop_Suc)
    then show "\<not> broken_pair (tok_body tok ?t)" using xs broken_pair_take broken_pair_drop by metis
  qed
  moreover have "tok_body tok ?t = ?t \<and> ?t \<noteq> [] \<and> (hd ?t = 0x2D \<longrightarrow> 2 \<le> length ?t)" if "tok = yajl_tok_integer"
    using that ref_lex_shape [OF r] k by (auto simp: tok_body_def)
  ultimately show ?thesis unfolding fair_token_def by metis
qed

lemma ref_parse_total:
  assumes cbs: "client_total cbs" and c: "rooted (p_stack c)" and xs: "\<not> broken_pair xs"
  shows "ref_parse cbs strtod multi trail cm v c xs \<noteq> None"
  using c xs
proof (induction "length xs" arbitrary: xs c rule: less_induct)
  case less
  show ?case
  proof (rule ref_parse_cases [of c cbs strtod multi trail cm v], goal_cases)
    case 1
    then show ?thesis using less.prems by (simp add: rooted_def)
  next
    case (4 c1)
    have "rooted (p_stack c1)"
    proof (cases "c1 = c")
      case False
      then have "c1 = p_top yajl_state_got_value c" using 4(2) by simp
      then show ?thesis using less.prems(1) by (cases "p_stack c") (auto simp: rooted_def p_top_def)
    qed (use less.prems(1) in simp)
    moreover have "\<not> in_error c1" using 4(3) by (simp add: reads_def)
    ultimately have c1: "rooted (p_stack c1)" "\<not> in_error c1" by simp_all
    obtain q tok e k where r: "ref_lex cm v xs = (q, tok, e, k)" by (cases "ref_lex cm v xs") auto
    let ?s = "tok_body tok (take (k - q) (drop q xs))"
    show ?thesis
    proof (cases "tok = yajl_tok_eof")
      case True
      then show ?thesis using r 4(4) by (simp add: ref_read_def)
    next
      case False
      have fair: "fair_token tok ?s" by (rule fair_token_lexed [OF r False less.prems(2)])
      then have sr: "stays_rooted (ref_token cbs strtod tok ?s c1)" by (rule ref_token_rooted [OF cbs c1])
      have k: "k \<le> length xs" using ref_lex_within [OF r] by simp
      show ?thesis
      proof (cases "ref_token cbs strtod tok ?s c1")
        case None
        then show ?thesis using sr by (simp add: stays_rooted_def)
      next
        case (Some rr)
        show ?thesis
        proof (cases rr)
          case (R_return st c2)
          then show ?thesis using r False 4(4) Some by (simp add: ref_read_def)
        next
          case (R_go c2)
          have "0 < k \<Longrightarrow> ref_parse cbs strtod multi trail cm v c2 (drop k xs) \<noteq> None"
            by (rule less.hyps) (use sr Some R_go k less.prems(2) broken_pair_drop in \<open>auto simp: stays_rooted_def\<close>)
          then show ?thesis using r False 4(4) Some R_go by (simp add: ref_read_def)
        qed
      qed
    qed
  qed simp_all
qed

end
