(* ===== verification/Yajl_Error.thy ===== *)
theory Yajl_Error
  imports Yajl_Parser
begin

text \<open>
  The error message of \<open>yajl_render_error_string\<close> (\<open>jni/yajl/src/yajl_parser.c\<close>,
  \<open>yajl_get_error\<close> in \<open>yajl.c\<close>): the kind of error and, when verbose, a window of the input
  written into the 72-byte array \<open>text\<close> with an arrow below it.
\<close>

definition arrow :: bytes where
  "arrow = ascii (replicate 21 CHR 0x20 @ ''(right here) ------^'' @ [CHR 0x0A])"

definition error_label :: "('c, 'd) yajl_handle \<Rightarrow> (string \<times> string option) option" where
  "error_label h =
     do { st \<leftarrow> yajl_bs_current (stateStack h);
          if st = yajl_state_parse_error
          then do { e \<leftarrow> parseError h; Some (''parse'', Some e) }
          else if st = yajl_state_lexical_error
          then Some (''lexical'',
                 Some (case yajl_lex_get_error (lexer h) of
                         None \<Rightarrow> ''unknown error code''
                       | Some e \<Rightarrow> yajl_lex_error_to_string e))
          else Some (''unknown'', None) }"

text \<open>\<open>for (i = 0; i < n; i++) text[i] = ' '\<close>\<close>

fun put_spaces :: "nat \<Rightarrow> nat \<Rightarrow> cells \<Rightarrow> cells option" where
  "put_spaces 0 i t = Some t"
| "put_spaces (Suc n) i t = do { t1 \<leftarrow> wr t i (Some 0x20); put_spaces n (Suc i) t1 }"

text \<open>The copy of \<open>n\<close> bytes of the window; the result carries the last \<open>i\<close>.\<close>

fun put_window :: "bytes \<Rightarrow> nat \<Rightarrow> nat \<Rightarrow> nat \<Rightarrow> cells \<Rightarrow> (nat \<times> cells) option" where
  "put_window jsonText 0 start i t = Some (i, t)"
| "put_window jsonText (Suc n) start i t =
     do { c \<leftarrow> rd jsonText start;
          t1 \<leftarrow> wr t i (Some (if c \<noteq> 0x0A \<and> c \<noteq> 0x0D then c else 0x20));
          put_window jsonText n (Suc start) (Suc i) t1 }"

definition window_start :: "nat \<Rightarrow> nat" where
  "window_start offset = (if 30 \<le> offset then offset - 30 else 0)"

definition window_end :: "nat \<Rightarrow> nat \<Rightarrow> nat" where
  "window_end offset tlen =
     (let e = (offset + 30) mod size_mod in if tlen < e then tlen else e)"

definition verbose_text :: "nat \<Rightarrow> bytes \<Rightarrow> nat \<Rightarrow> bytes option" where
  "verbose_text offset jsonText tlen =
     (let spacesNeeded = (if offset < 30 then 40 - offset else 10);
          start = window_start offset
      in do { t1 \<leftarrow> put_spaces spacesNeeded 0 (replicate 72 None);
              r \<leftarrow> put_window jsonText (window_end offset tlen - start) start spacesNeeded t1;
              t2 \<leftarrow> (if fst r \<le> 71 then wr (snd r) (fst r) (Some 0x0A) else None);
              t3 \<leftarrow> wr t2 (Suc (fst r)) (Some 0);
              cells_cstr t3 })"

definition yajl_render_error_string ::
  "('c, 'd) yajl_handle \<Rightarrow> bytes \<Rightarrow> nat \<Rightarrow> bool \<Rightarrow> bytes option" where
  "yajl_render_error_string h jsonText tlen verbose =
     do { lab \<leftarrow> error_label h;
          let str = ascii (fst lab) @ ascii '' error'' @
                    (case snd lab of None \<Rightarrow> [] | Some e \<Rightarrow> ascii '': '' @ ascii e) @ [0x0A];
          if verbose
          then do { t \<leftarrow> verbose_text (bytesConsumed h) jsonText tlen; Some (str @ t @ arrow) }
          else Some str }"

section \<open>The window\<close>

lemma put_spaces_ok:
  "i + n \<le> length t \<Longrightarrow>
   put_spaces n i t = Some (take i t @ replicate n (Some 0x20) @ drop (i + n) t)"
proof (induction n arbitrary: i t)
  case (Suc n)
  let ?t = "t[i := Some 0x20]"
  have "put_spaces n (Suc i) ?t =
      Some (take (Suc i) ?t @ replicate n (Some 0x20) @ drop (Suc i + n) ?t)"
    by (rule Suc.IH) (use Suc.prems in simp)
  moreover have "take (Suc i) ?t = take i t @ [Some 0x20]"
    using Suc.prems by (simp add: take_Suc_nth)
  ultimately show ?case using Suc.prems by simp
qed simp

definition shown :: "byte \<Rightarrow> byte" where
  "shown c = (if c \<noteq> 0x0A \<and> c \<noteq> 0x0D then c else 0x20)"

lemma put_window_ok:
  "i + n \<le> length t \<Longrightarrow> start + n \<le> length s \<Longrightarrow>
   put_window s n start i t =
     Some (i + n, take i t @ map (Some \<circ> shown) (take n (drop start s)) @ drop (i + n) t)"
proof (induction n arbitrary: i start t)
  case (Suc n)
  let ?t = "t[i := Some (shown (s ! start))]"
  have "put_window s n (Suc start) (Suc i) ?t =
      Some (Suc i + n, take (Suc i) ?t @ map (Some \<circ> shown) (take n (drop (Suc start) s)) @
        drop (Suc i + n) ?t)"
    by (rule Suc.IH) (use Suc.prems in simp_all)
  moreover have "take (Suc i) ?t = take i t @ [Some (shown (s ! start))]"
    using Suc.prems by (simp add: take_Suc_nth)
  moreover have "take (Suc n) (drop start s) = s ! start # take n (drop (Suc start) s)"
    using Suc.prems by (simp add: drop_nth_Cons)
  ultimately show ?case using Suc.prems by (simp add: shown_def)
qed simp

lemma cells_cstr_map: "cells_cstr (map Some xs @ Some 0 # t) = Some (c_str (xs @ [0]))"
  by (induction xs) (auto simp: c_str_def)

definition window :: "nat \<Rightarrow> bytes \<Rightarrow> bytes" where
  "window offset s =
     map shown (take (min (length s) (offset + 30) - window_start offset) (drop (window_start offset) s))"

lemma verbose_text_ok:
  assumes "offset \<le> length s" "length s + 30 < size_mod"
  shows "verbose_text offset s (length s) =
    Some (c_str (replicate (if offset < 30 then 40 - offset else 10) 0x20 @ window offset s @ [0x0A, 0]))"
proof -
  define k where "k = (if offset < 30 then 40 - offset else 10)"
  define n where "n = min (length s) (offset + 30) - window_start offset"
  have e: "window_end offset (length s) - window_start offset = n"
    using assms by (auto simp: window_end_def n_def Let_def min_def)
  have k: "k + n \<le> 70" "window_start offset + n \<le> length s"
    using assms by (auto simp: k_def n_def window_start_def min_def)
  have w: "window offset s = map shown (take n (drop (window_start offset) s))"
    by (simp add: window_def n_def)
  have len: "length (window offset s) = n" using k by (simp add: w)
  let ?a = "replicate k (Some 0x20) @ map (Some \<circ> shown) (take n (drop (window_start offset) s))"
  have la: "length ?a = k + n" using k by simp
  have 1: "put_spaces k 0 (replicate 72 None) = Some (replicate k (Some 0x20) @ replicate (72 - k) None)"
    using k put_spaces_ok [of 0 k "replicate 72 None"] by simp
  have 2: "put_window s n (window_start offset) k (replicate k (Some 0x20) @ replicate (72 - k) None)
      = Some (k + n, ?a @ replicate (72 - (k + n)) None)"
    using k by (subst put_window_ok) simp_all
  define m where "m = 70 - (k + n)"
  have m: "72 - (k + n) = Suc (Suc m)" using k by (simp add: m_def)
  have 3: "wr (?a @ replicate (Suc (Suc m)) None) (k + n) (Some 0x0A)
      = Some (?a @ Some 0x0A # replicate (Suc m) None)"
    using la by (simp add: wr_def list_update_append)
  have 4: "wr (?a @ Some 0x0A # replicate (Suc m) None) (Suc (k + n)) (Some 0)
      = Some (?a @ Some 0x0A # Some 0 # replicate m None)"
    using la by (simp add: wr_def list_update_append)
  have 5: "?a @ Some 0x0A # Some 0 # replicate m None
      = map Some (replicate k 0x20 @ window offset s @ [0x0A]) @ Some 0 # replicate m None"
    by (simp add: w comp_def)
  have 6: "cells_cstr (?a @ Some 0x0A # Some 0 # replicate m None)
      = Some (c_str (replicate k 0x20 @ window offset s @ [0x0A, 0]))"
    unfolding 5 cells_cstr_map by simp
  have 71: "k + n \<le> 71" using k by simp
  show ?thesis
    unfolding verbose_text_def Let_def e k_def [symmetric] 1 bind.bind_lunit 2 fst_conv snd_conv
      if_P [OF 71] m 3 4 6 ..
qed

text \<open>No input and no offset inside it makes the message overrun \<open>text\<close>.\<close>

section \<open>Properties\<close>

text \<open>
  C30: in the states with a recorded error the verbose message is always produced (the 72-byte
  array is never overrun and \<open>assert(i <= 71)\<close> never fails): it is the one-line message, then
  the window of at most 60 bytes around the offset with newlines shown as blanks and padded so
  that the offset falls in column 40, cut at the first NUL of the input, then the arrow.
\<close>

theorem yajl_render_error_string_window:
  assumes "error_label h = Some (kind, msg)"
    and "bytesConsumed h \<le> length s" "length s + 30 < size_mod"
  shows "yajl_render_error_string h s (length s) True =
    Some (ascii kind @ ascii '' error'' @
          (case msg of None \<Rightarrow> [] | Some e \<Rightarrow> ascii '': '' @ ascii e) @ [0x0A] @
          c_str (replicate (if bytesConsumed h < 30 then 40 - bytesConsumed h else 10) 0x20 @
                 window (bytesConsumed h) s @ [0x0A, 0]) @ arrow)
    \<and> length (window (bytesConsumed h) s) \<le> 60"
proof
  show "length (window (bytesConsumed h) s) \<le> 60"
    by (auto simp: window_def window_start_def min_def)
qed (simp add: yajl_render_error_string_def assms verbose_text_ok)

text \<open>A handle that rejected the third byte of \<open>[1}\<close>.\<close>

definition failed_handle :: "(unit, unit) yajl_handle" where
  "failed_handle = \<lparr>callbacks = None, hctx = (), lexer = None, parseError = Some ''unallowed token'', bytesConsumed = 2,
     decodeBuf = yajl_buf_alloc, stateStack = \<lparr>bs_stack = [Some yajl_state_parse_error], bs_size = 1, bs_used = 1\<rparr>,
     flags = 0, c_erange = False\<rparr>"

lemma yajl_render_error_string_window_witness:
  "\<exists>msg. yajl_render_error_string failed_handle [0x5B, 0x31, 0x7D] 3 True =
     Some (msg @ [0x0A] @ replicate 38 0x20 @ [0x5B, 0x31, 0x7D, 0x0A] @ arrow)"
proof -
  have l: "error_label failed_handle = Some (''parse'', Some ''unallowed token'')"
    by (simp add: error_label_def failed_handle_def yajl_bs_current_def rd_def)
  have w: "window 2 [0x5B, 0x31, 0x7D] = [0x5B, 0x31, 0x7D]"
    by (simp add: window_def window_start_def shown_def)
  have s: "c_str (replicate 38 0x20 @ [0x5B, 0x31, 0x7D] @ [0x0A, 0]) = replicate 38 0x20 @ [0x5B, 0x31, 0x7D, 0x0A]"
    by code_simp
  have "yajl_render_error_string failed_handle [0x5B, 0x31, 0x7D] (length [0x5B, 0x31, 0x7D :: byte]) True =
    Some (ascii ''parse'' @ ascii '' error'' @ (ascii '': '' @ ascii ''unallowed token'') @ [0x0A] @
      (replicate 38 0x20 @ [0x5B, 0x31, 0x7D, 0x0A]) @ arrow)"
    using yajl_render_error_string_window [OF l, of "[0x5B, 0x31, 0x7D]"]
    by (simp add: failed_handle_def w s del: append_Cons replicate.simps)
  then show ?thesis by (metis append.assoc length_Cons list.size(3) numeral_3_eq_3)
qed

end
