(* ===== verification/Yajl_Tree.thy ===== *)
theory Yajl_Tree
  imports Yajl_Error
begin

text \<open>
  The document tree of \<open>jni/yajl/src/yajl_tree.c\<close>, built by parser callbacks on a context stack.
  Tree nodes are owned by exactly one parent (or the stack), so they are values here; allocation
  is taken to succeed. The numeric content of a double stays abstract.
\<close>

section \<open>Values and the context\<close>

record 'd yajl_number =
  num_i :: "64 word"
  num_d :: 'd
  num_r :: bytes
  num_int_valid :: bool
  num_double_valid :: bool

datatype 'd yajl_val =
    Yajl_string bytes
  | Yajl_number "'d yajl_number"
  | Yajl_object "(bytes \<times> 'd yajl_val) list"
  | Yajl_array "'d yajl_val list"
  | Yajl_true
  | Yajl_false
  | Yajl_null

fun yajl_type :: "'d yajl_val \<Rightarrow> nat" where
  "yajl_type (Yajl_string _) = 1"
| "yajl_type (Yajl_number _) = 2"
| "yajl_type (Yajl_object _) = 3"
| "yajl_type (Yajl_array _) = 4"
| "yajl_type Yajl_true = 5"
| "yajl_type Yajl_false = 6"
| "yajl_type Yajl_null = 7"

abbreviation yajl_t_any :: nat where
  "yajl_t_any \<equiv> 8"

record 'd stack_elem =
  se_key :: "bytes option"
  se_value :: "'d yajl_val"

text \<open>\<open>errbuf\<close> is \<open>NULL\<close> or the C string in the client's buffer of \<open>errbuf_size\<close> bytes.\<close>

record 'd tree_ctx =
  ctx_stack :: "'d stack_elem list"
  ctx_root :: "'d yajl_val option"
  errbuf :: "bytes option"
  errbuf_size :: nat

text \<open>\<open>snprintf(buf, size, "%s", msg)\<close>\<close>

definition snprintf_s :: "bytes \<Rightarrow> nat \<Rightarrow> bytes \<Rightarrow> bytes" where
  "snprintf_s old sz msg = (if sz = 0 then old else take (sz - 1) (c_str (msg @ [0])))"

definition put_errbuf :: "string \<Rightarrow> 'd tree_ctx \<Rightarrow> 'd tree_ctx" where
  "put_errbuf msg c =
     (case errbuf c of
        None \<Rightarrow> c
      | Some old \<Rightarrow> c\<lparr>errbuf := Some (snprintf_s old (errbuf_size c) (ascii msg))\<rparr>)"

text \<open>\<open>%#04x\<close> of a type code below 16\<close>

definition hex04 :: "nat \<Rightarrow> string" where
  "hex04 n = ''0x0'' @ [char_of (n + 48)]"

section \<open>The context stack\<close>

definition context_push :: "'d tree_ctx \<Rightarrow> 'd yajl_val \<Rightarrow> 'd tree_ctx option" where
  "context_push c v =
     (if ctx_stack c = [] \<or> yajl_type v = 3 \<or> yajl_type v = 4
      then Some (c\<lparr>ctx_stack := \<lparr>se_key = None, se_value = v\<rparr> # ctx_stack c\<rparr>)
      else None)"

definition context_pop :: "'d tree_ctx \<Rightarrow> 'd yajl_val option \<times> 'd tree_ctx" where
  "context_pop c =
     (case ctx_stack c of
        [] \<Rightarrow> (None, put_errbuf ''context_pop: Bottom of stack reached prematurely'' c)
      | e # rest \<Rightarrow> (Some (se_value e), c\<lparr>ctx_stack := rest\<rparr>))"

fun object_add_keyval :: "'d yajl_val \<Rightarrow> bytes \<Rightarrow> 'd yajl_val \<Rightarrow> 'd yajl_val option" where
  "object_add_keyval (Yajl_object kvs) key v = Some (Yajl_object (kvs @ [(key, v)]))"
| "object_add_keyval _ key v = None"

fun array_add_value :: "'d yajl_val \<Rightarrow> 'd yajl_val \<Rightarrow> 'd yajl_val option" where
  "array_add_value (Yajl_array vs) v = Some (Yajl_array (vs @ [v]))"
| "array_add_value _ v = None"

text \<open>The Boolean is \<open>context_add_value(...) == 0\<close>; the other result is \<open>EINVAL\<close>.\<close>

definition context_add_value :: "'d tree_ctx \<Rightarrow> 'd yajl_val \<Rightarrow> (bool \<times> 'd tree_ctx) option" where
  "context_add_value c v =
     (case ctx_stack c of
        [] \<Rightarrow> (if ctx_root c = None then Some (True, c\<lparr>ctx_root := Some v\<rparr>) else None)
      | e # rest \<Rightarrow>
          (case se_value e of
             Yajl_object _ \<Rightarrow>
               (case se_key e of
                  None \<Rightarrow>
                    (case v of
                       Yajl_string s \<Rightarrow> Some (True, c\<lparr>ctx_stack := e\<lparr>se_key := Some s\<rparr> # rest\<rparr>)
                     | _ \<Rightarrow> Some (False, put_errbuf (''context_add_value: Object key is not a string ('' @
                                hex04 (yajl_type v) @ '')'') c))
                | Some key \<Rightarrow>
                    do { o' \<leftarrow> object_add_keyval (se_value e) key v;
                         Some (True, c\<lparr>ctx_stack := e\<lparr>se_key := None, se_value := o'\<rparr> # rest\<rparr>) })
           | Yajl_array _ \<Rightarrow>
               do { a \<leftarrow> array_add_value (se_value e) v;
                    Some (True, c\<lparr>ctx_stack := e\<lparr>se_value := a\<rparr> # rest\<rparr>) }
           | other \<Rightarrow> Some (False, put_errbuf (''context_add_value: Cannot add value to a value of type '' @
                        hex04 (yajl_type other) @ '' (not a composite type)'') c)))"

section \<open>The callbacks\<close>

definition add_and_go :: "'d tree_ctx \<Rightarrow> 'd yajl_val \<Rightarrow> ('d tree_ctx \<times> bool) option" where
  "add_and_go c v = do { r \<leftarrow> context_add_value c v; Some (snd r, fst r) }"

definition handle_string :: "'d tree_ctx \<Rightarrow> cmem \<Rightarrow> strptr \<Rightarrow> nat \<Rightarrow> ('d tree_ctx \<times> bool) option" where
  "handle_string c m p n = do { s \<leftarrow> mem_bytes m p n; add_and_go c (Yajl_string s) }"

text \<open>\<open>strtod\<close> with its end pointer, as an offset into the string.\<close>

definition handle_number ::
  "(bytes \<Rightarrow> 'd strtod_result \<times> nat) \<Rightarrow> 'd tree_ctx \<Rightarrow> cmem \<Rightarrow> strptr \<Rightarrow> nat \<Rightarrow>
   ('d tree_ctx \<times> bool) option" where
  "handle_number strtod_end c m p n =
     do { s \<leftarrow> mem_bytes m p n;
          let r = s @ [0];
          i \<leftarrow> yajl_parse_integer (rd r) (length (c_str r));
          let d = strtod_end (c_str r);
          e \<leftarrow> rd r (snd d);
          add_and_go c (Yajl_number \<lparr>num_i = fst i, num_d = sd_value (fst d), num_r = s,
            num_int_valid = False, num_double_valid = (\<not> sd_erange (fst d) \<and> e = 0)\<rparr>) }"

definition handle_start_map :: "'d tree_ctx \<Rightarrow> cmem \<Rightarrow> ('d tree_ctx \<times> bool) option" where
  "handle_start_map c m = do { c1 \<leftarrow> context_push c (Yajl_object []); Some (c1, True) }"

definition handle_start_array :: "'d tree_ctx \<Rightarrow> cmem \<Rightarrow> ('d tree_ctx \<times> bool) option" where
  "handle_start_array c m = do { c1 \<leftarrow> context_push c (Yajl_array []); Some (c1, True) }"

definition handle_end :: "'d tree_ctx \<Rightarrow> cmem \<Rightarrow> ('d tree_ctx \<times> bool) option" where
  "handle_end c m =
     (case context_pop c of
        (None, c1) \<Rightarrow> Some (c1, False)
      | (Some v, c1) \<Rightarrow> add_and_go c1 v)"

definition handle_boolean :: "'d tree_ctx \<Rightarrow> cmem \<Rightarrow> bool \<Rightarrow> ('d tree_ctx \<times> bool) option" where
  "handle_boolean c m b = add_and_go c (if b then Yajl_true else Yajl_false)"

definition handle_null :: "'d tree_ctx \<Rightarrow> cmem \<Rightarrow> ('d tree_ctx \<times> bool) option" where
  "handle_null c m = add_and_go c Yajl_null"

definition tree_callbacks ::
  "(bytes \<Rightarrow> 'd strtod_result \<times> nat) \<Rightarrow> ('d tree_ctx, 'd) yajl_callbacks" where
  "tree_callbacks strtod_end =
     \<lparr>cb_null = Some handle_null, cb_boolean = Some handle_boolean, cb_integer = None,
      cb_double = None, cb_number = Some (handle_number strtod_end), cb_string = Some handle_string,
      cb_start_map = Some handle_start_map, cb_map_key = Some handle_string,
      cb_end_map = Some handle_end, cb_start_array = Some handle_start_array,
      cb_end_array = Some handle_end\<rparr>"

section \<open>The public functions\<close>

text \<open>
  \<open>yajl_tree_parse\<close> on a C string \<open>input\<close>: the tree (\<open>None\<close> is \<open>NULL\<close>) and the error buffer. The
  status of \<open>yajl_parse\<close> is overwritten by the one of \<open>yajl_complete_parse\<close>.
\<close>

definition yajl_tree_parse ::
  "(bytes \<Rightarrow> 'd strtod_result \<times> nat) \<Rightarrow> bytes \<Rightarrow> bytes option \<Rightarrow> nat \<Rightarrow> bool \<Rightarrow>
   ('d yajl_val option \<times> bytes option) option" where
  "yajl_tree_parse strtod_end input error_buffer error_buffer_size erange =
     do { let ctx0 = \<lparr>ctx_stack = [], ctx_root = None,
                      errbuf = map_option (\<lambda>_. []) error_buffer, errbuf_size = error_buffer_size\<rparr>;
          h0 \<leftarrow> yajl_alloc (Some (tree_callbacks strtod_end)) True ctx0 erange;
          let h1 = snd (yajl_config h0 yajl_allow_comments True);
          r1 \<leftarrow> yajl_parse (fst \<circ> strtod_end) h1 input (length input);
          r2 \<leftarrow> yajl_complete_parse (fst \<circ> strtod_end) (snd r1);
          let h = snd r2;
          if fst r2 \<noteq> yajl_status_ok
          then (case errbuf (hctx h) of
                  None \<Rightarrow> Some (None, None)
                | Some old \<Rightarrow>
                    if error_buffer_size = 0 then Some (None, Some old)
                    else do { msg \<leftarrow> yajl_render_error_string h input (length input) True;
                              Some (None, Some (snprintf_s old error_buffer_size msg)) })
          else Some (ctx_root (hctx h), errbuf (hctx h)) }"

text \<open>
  \<open>n->u.object.len\<close> read from any node: nodes are zeroed when allocated and on the 32-bit targets
  the word lies beyond the members of strings and arrays, and over the low word of \<open>number.d\<close>
  (\<open>dlow\<close>).
\<close>

fun union_len :: "('d \<Rightarrow> nat) \<Rightarrow> 'd yajl_val \<Rightarrow> nat" where
  "union_len dlow (Yajl_object kvs) = length kvs"
| "union_len dlow (Yajl_number num) = dlow (num_d num)"
| "union_len dlow _ = 0"

text \<open>The search loop: the index \<open>i\<close> at its end, and \<open>n\<close>.\<close>

fun find_key :: "bytes \<Rightarrow> (bytes \<times> 'd yajl_val) list \<Rightarrow> nat \<Rightarrow> 'd yajl_val \<Rightarrow> nat \<times> 'd yajl_val" where
  "find_key p [] i n = (i, n)"
| "find_key p ((k, v) # kvs) i n =
     (if c_str (k @ [0]) = p then (i, v) else find_key p kvs (Suc i) n)"

fun yajl_tree_get :: "('d \<Rightarrow> nat) \<Rightarrow> 'd yajl_val \<Rightarrow> bytes list \<Rightarrow> nat \<Rightarrow> 'd yajl_val option" where
  "yajl_tree_get dlow n [] ty = (if ty \<noteq> yajl_t_any \<and> ty \<noteq> yajl_type n then None else Some n)"
| "yajl_tree_get dlow n (p # path) ty =
     (case n of
        Yajl_object kvs \<Rightarrow>
          (let r = find_key p kvs 0 n
           in if fst r = union_len dlow (snd r) then None else yajl_tree_get dlow (snd r) path ty)
      | _ \<Rightarrow> None)"

end
