(* ===== verification/Yajl_Parser_Props.thy ===== *)
theory Yajl_Parser_Props imports Yajl_Total Yajl_Tree begin

text \<open>
  The properties of the parser as a whole (\<open>yajl_parser.c\<close>, \<open>yajl.c\<close>): refinement of the reference
  parser, independence of the chunks, totality, error states that absorb, and the integers. Two
  clients of the callback interface are interpreted: the tree builder of \<open>yajl_tree.c\<close> and a client
  that records its events.
\<close>

section \<open>Clients\<close>

lemma by_text_mem_bytes: "by_text (\<lambda>c m p n. Option.bind (mem_bytes m p n) (f c))"
proof -
  have "mem_bytes (text_mem s) (PText 0) (length s) = Some s" for s
    by (simp add: text_mem_def cslice_def)
  then show ?thesis by (simp add: by_text_def)
qed

interpretation tree_client: content_client "tree_callbacks strtod_end"
  by unfold_locales
    (simp_all add: tree_callbacks_def by_call_def by_text_mem_bytes handle_string_def [abs_def]
      handle_number_def [abs_def] handle_null_def handle_boolean_def [abs_def] handle_start_map_def
      handle_start_array_def handle_end_def)

text \<open>A client that records the events and never cancels.\<close>

definition record_event :: "'d event list \<Rightarrow> 'd event \<Rightarrow> ('d event list \<times> bool) option" where
  "record_event evs ev = Some (evs @ [ev], True)"

definition recorder :: "('d event list, 'd) yajl_callbacks" where
  "recorder =
     \<lparr>cb_null = Some (\<lambda>c m. record_event c E_null),
      cb_boolean = Some (\<lambda>c m b. record_event c (E_boolean b)),
      cb_integer = Some (\<lambda>c m i. record_event c (E_integer i)),
      cb_double = Some (\<lambda>c m d. record_event c (E_double d)),
      cb_number = None,
      cb_string = Some (\<lambda>c m p n. Option.bind (mem_bytes m p n) (\<lambda>s. record_event c (E_string s))),
      cb_start_map = Some (\<lambda>c m. record_event c E_start_map),
      cb_map_key = Some (\<lambda>c m p n. Option.bind (mem_bytes m p n) (\<lambda>s. record_event c (E_map_key s))),
      cb_end_map = Some (\<lambda>c m. record_event c E_end_map),
      cb_start_array = Some (\<lambda>c m. record_event c E_start_array),
      cb_end_array = Some (\<lambda>c m. record_event c E_end_array)\<rparr>"

interpretation recorder_client: content_client recorder
  by unfold_locales
    (simp_all add: recorder_def by_call_def by_text_mem_bytes)

lemma recorder_total: "client_total recorder"
proof -
  show ?thesis unfolding client_total_def
  proof (intro allI)
    fix c and ev :: "'a event"
    show "react recorder c ev \<noteq> Some None" by (cases ev) (auto simp: recorder_def record_event_def text_mem_def cslice_def)
  qed
qed

section \<open>Refinement and chunks\<close>

text \<open>
  C1: on a new handle, with any flags, the calls of \<open>yajl_parse\<close> on the chunks of a text and the
  final \<open>yajl_complete_parse\<close> answer as the reference parser answers on the whole text: status,
  client context (so: the same callbacks with the same contents in the same order), states and
  error message; and the calls have no defined result exactly where the reference has none.
\<close>
theorem yajl_parse_refines:
  assumes "content_client cbs" "yajl_alloc (Some cbs) True ctx erange = Some h"
    and "5 * (length (concat ts) + 3) < buf_max"
  shows "map_option seen_by_client (parse_chunks strtod (h\<lparr>flags := fl\<rparr>) ts) =
    map_option seen_in_ref (ref_document cbs strtod fl (ref_start ctx erange) (concat ts))"
  by (rule content_client.parse_chunks_ref [OF assms])

abbreviation no_double :: "bytes \<Rightarrow> unit strtod_result" where
  "no_double s \<equiv> \<lparr>sd_value = (), sd_huge = False, sd_erange = False\<rparr>"

lemma recorder_alloc: "yajl_alloc (Some recorder) True [] False = Some (the (yajl_alloc (Some recorder) True [] False))"
  by (simp add: yajl_alloc_def yajl_bs_push_def yajl_bs_init_def bs_realloc_def wr_def size_sub_def split: option.split)

abbreviation recorder_handle :: "(unit event list, unit) yajl_handle" where
  "recorder_handle \<equiv> (the (yajl_alloc (Some recorder) True [] False))\<lparr>flags := 0\<rparr>"

lemma yajl_parse_refines_witness:
  "map_option seen_by_client (parse_chunks no_double recorder_handle [[0x5B], [0x31, 0x5D]]) =
   map_option seen_in_ref (ref_document recorder no_double 0 (ref_start [] False) [0x5B, 0x31, 0x5D])"
  using yajl_parse_refines [OF recorder_client.content_client_axioms recorder_alloc, of "[[0x5B], [0x31, 0x5D]]" no_double 0]
  by simp

text \<open>
  C12: how a text is cut into chunks does not matter: two ways of feeding the same bytes end with
  the same status, client context, parser states and error message.
\<close>
theorem yajl_parse_chunk_independent:
  assumes "content_client cbs" "yajl_alloc (Some cbs) True ctx erange = Some h"
    and "concat ts = concat us" "5 * (length (concat ts) + 3) < buf_max"
  shows "map_option seen_by_client (parse_chunks strtod (h\<lparr>flags := fl\<rparr>) ts) =
    map_option seen_by_client (parse_chunks strtod (h\<lparr>flags := fl\<rparr>) us)"
  using content_client.parse_chunks_ref [OF assms(1,2)] assms(3,4) by metis

lemma yajl_parse_chunk_independent_witness:
  "map_option seen_by_client (parse_chunks no_double recorder_handle [[0x5B], [0x31, 0x5D]]) =
   map_option seen_by_client (parse_chunks no_double recorder_handle [[0x5B, 0x31], [], [0x5D]])"
  using yajl_parse_chunk_independent [OF recorder_client.content_client_axioms recorder_alloc,
      of "[[0x5B], [0x31, 0x5D]]" "[[0x5B, 0x31], [], [0x5D]]" no_double 0]
  by simp

text \<open>
  C13: the parser returns, and no assertion, out-of-range access or endless loop is reached, on
  every text below the size limit in which no escaped high surrogate stands directly before an
  escape other than \<open>\u\<close>, if the callbacks return.
\<close>
theorem yajl_parse_returns:
  assumes "content_client cbs" "client_total cbs" "yajl_alloc (Some cbs) True ctx erange = Some h"
    and "\<not> broken_pair (concat ts @ [0x20])" "5 * (length (concat ts) + 3) < buf_max"
  shows "\<exists>st h'. parse_chunks strtod (h\<lparr>flags := fl\<rparr>) ts = Some (st, h')"
proof -
  have "rooted (p_stack (ref_start ctx erange))" by (simp add: rooted_def ref_start_def)
  from ref_parse_total [OF assms(2) this assms(4)]
  obtain r where "ref_parse cbs strtod (fl AND yajl_allow_multiple_values \<noteq> 0)
      (fl AND yajl_allow_trailing_garbage \<noteq> 0) (fl AND yajl_allow_comments \<noteq> 0)
      (fl AND yajl_dont_validate_strings = 0) (ref_start ctx erange) (concat ts @ [0x20]) = Some r" by blast
  then have "ref_document cbs strtod fl (ref_start ctx erange) (concat ts) \<noteq> None"
    by (simp add: ref_document_def)
  then have "map_option seen_by_client (parse_chunks strtod (h\<lparr>flags := fl\<rparr>) ts) \<noteq> None"
    using content_client.parse_chunks_ref [OF assms(1,3,5)] by simp
  then show ?thesis by auto
qed

lemma yajl_parse_returns_witness:
  "\<exists>st h'. parse_chunks no_double recorder_handle [[0x5B], [0x31, 0x5D]] = Some (st, h')"
  using yajl_parse_returns [OF recorder_client.content_client_axioms recorder_total recorder_alloc,
      of "[[0x5B], [0x31, 0x5D]]" no_double 0]
  by simp

section \<open>Error states\<close>


















section \<open>Integers\<close>











end
