(* ===== verification/Yajl_Gen.thy ===== *)
theory Yajl_Gen
  imports Yajl_Encode
begin

text \<open>
  The JSON generator of \<open>jni/yajl/src/yajl_gen.c\<close>: a state machine with one state per nesting
  depth, kept in an array of \<open>YAJL_MAX_DEPTH\<close> entries that \<open>depth\<close> indexes. The macros
  \<open>INSERT_SEP\<close>, \<open>INSERT_WHITESPACE\<close>, \<open>ENSURE_VALID_STATE\<close>, \<open>ENSURE_NOT_KEY\<close>, \<open>APPENDED_ATOM\<close> and
  \<open>FINAL_NEWLINE\<close> are definitions of their own. Output goes to the internal buffer or to a user
  callback.
\<close>

section \<open>State\<close>

datatype yajl_gen_state =
    yajl_gen_start | yajl_gen_map_start | yajl_gen_map_key | yajl_gen_map_val
  | yajl_gen_array_start | yajl_gen_in_array | yajl_gen_complete | yajl_gen_error

datatype yajl_gen_status =
    yajl_gen_status_ok | yajl_gen_keys_must_be_strings | yajl_max_depth_exceeded
  | yajl_gen_in_error_state | yajl_gen_generation_complete | yajl_gen_invalid_number
  | yajl_gen_no_buf | yajl_gen_invalid_string

abbreviation YAJL_MAX_DEPTH :: nat where
  "YAJL_MAX_DEPTH \<equiv> 128"

text \<open>\<open>print\<close> and \<open>ctx\<close>: \<open>yajl_buf_append\<close> on a buffer, or a callback with its context.\<close>

datatype 'c yajl_print =
    Print_buf yajl_buf
  | Print_user "'c \<Rightarrow> bytes \<Rightarrow> 'c" 'c

record 'c yajl_gen =
  beautify :: bool
  validate_utf8 :: bool
  escape_solidus :: bool
  depth :: nat
  indentString :: "bytes option"
  gstate :: "yajl_gen_state list"
  gprint :: "'c yajl_print"

text \<open>Which of the three functions of \<open>yajl_alloc_funcs\<close> are given.\<close>

record alloc_funcs =
  has_malloc :: bool
  has_realloc :: bool
  has_free :: bool

text \<open>\<open>None\<close> is the returned \<open>NULL\<close>.\<close>

definition yajl_gen_alloc :: "alloc_funcs option \<Rightarrow> 'c yajl_gen option" where
  "yajl_gen_alloc afs =
     (if (case afs of None \<Rightarrow> False
          | Some a \<Rightarrow> \<not> has_malloc a \<or> \<not> has_realloc a \<or> \<not> has_free a)
      then None
      else Some \<lparr>beautify = False, validate_utf8 = False, escape_solidus = False, depth = 0,
                 indentString = Some [0x20, 0x20, 0x20, 0x20],
                 gstate = replicate YAJL_MAX_DEPTH yajl_gen_start,
                 gprint = Print_buf yajl_buf_alloc\<rparr>)"

section \<open>Configuration\<close>

datatype 'c yajl_gen_option =
    Gen_beautify bool
  | Gen_indent_string bytes
  | Gen_print_callback "'c \<Rightarrow> bytes \<Rightarrow> 'c" 'c
  | Gen_validate_utf8 bool
  | Gen_escape_solidus bool

definition is_indent_char :: "byte \<Rightarrow> bool" where
  "is_indent_char c \<longleftrightarrow>
     c = 0x0A \<or> c = 0x0B \<or> c = 0x0C \<or> c = 0x09 \<or> c = 0x0D \<or> c = 0x20"

text \<open>
  \<open>yajl_gen_config\<close>, with the returned \<open>rv\<close>. Replacing the print callback frees \<open>ctx\<close> as a
  buffer: a second replacement frees a foreign pointer (no defined result).
  \<open>yajl_gen_escape_solidus\<close> has no \<open>case\<close> and ends in \<open>default\<close>.
\<close>

fun yajl_gen_config :: "'c yajl_gen \<Rightarrow> 'c yajl_gen_option \<Rightarrow> (bool \<times> 'c yajl_gen) option" where
  "yajl_gen_config g (Gen_beautify v) = Some (True, g\<lparr>beautify := v\<rparr>)"
| "yajl_gen_config g (Gen_validate_utf8 v) = Some (True, g\<lparr>validate_utf8 := v\<rparr>)"
| "yajl_gen_config g (Gen_indent_string s) =
     (if list_all is_indent_char s then Some (True, g\<lparr>indentString := Some s\<rparr>)
      else Some (False, g\<lparr>indentString := None\<rparr>))"
| "yajl_gen_config g (Gen_print_callback f c) =
     (case gprint g of
        Print_buf b \<Rightarrow> Some (True, g\<lparr>gprint := Print_user f c\<rparr>)
      | Print_user _ _ \<Rightarrow> None)"
| "yajl_gen_config g (Gen_escape_solidus v) = Some (False, g)"

section \<open>The macros\<close>

fun print_to :: "'c yajl_print \<Rightarrow> bytes \<Rightarrow> 'c yajl_print option" where
  "print_to (Print_buf b) s = map_option Print_buf (yajl_buf_append b s)"
| "print_to (Print_user f c) s = Some (Print_user f (f c s))"

definition gen_print :: "'c yajl_gen \<Rightarrow> bytes \<Rightarrow> 'c yajl_gen option" where
  "gen_print g s = do { p \<leftarrow> print_to (gprint g) s; Some (g\<lparr>gprint := p\<rparr>) }"

text \<open>\<open>g->state[g->depth]\<close>; a depth outside the array has no defined value.\<close>

definition cur_state :: "'c yajl_gen \<Rightarrow> yajl_gen_state option" where
  "cur_state g = rd (gstate g) (depth g)"

definition set_state :: "'c yajl_gen \<Rightarrow> yajl_gen_state \<Rightarrow> 'c yajl_gen option" where
  "set_state g st = do { a \<leftarrow> wr (gstate g) (depth g) st; Some (g\<lparr>gstate := a\<rparr>) }"

definition insert_sep :: "'c yajl_gen \<Rightarrow> 'c yajl_gen option" where
  "insert_sep g =
     do { st \<leftarrow> cur_state g;
          if st = yajl_gen_map_key \<or> st = yajl_gen_in_array then
            do { g1 \<leftarrow> gen_print g [0x2C];
                 if beautify g then gen_print g1 [0x0A] else Some g1 }
          else if st = yajl_gen_map_val then
            do { g1 \<leftarrow> gen_print g [0x3A];
                 if beautify g then gen_print g1 [0x20] else Some g1 }
          else Some g }"

fun print_indent :: "nat \<Rightarrow> 'c yajl_gen \<Rightarrow> 'c yajl_gen option" where
  "print_indent 0 g = Some g"
| "print_indent (Suc n) g =
     do { s \<leftarrow> indentString g; g1 \<leftarrow> gen_print g s; print_indent n g1 }"

definition insert_whitespace :: "'c yajl_gen \<Rightarrow> 'c yajl_gen option" where
  "insert_whitespace g =
     (if beautify g then
        do { st \<leftarrow> cur_state g;
             if st \<noteq> yajl_gen_map_val then print_indent (depth g) g else Some g }
      else Some g)"

text \<open>The guards: \<open>Some r\<close> is the early return of status \<open>r\<close>.\<close>

definition ensure_not_key :: "'c yajl_gen \<Rightarrow> yajl_gen_status option option" where
  "ensure_not_key g =
     do { st \<leftarrow> cur_state g;
          Some (if st = yajl_gen_map_key \<or> st = yajl_gen_map_start
                then Some yajl_gen_keys_must_be_strings else None) }"

definition ensure_valid_state :: "'c yajl_gen \<Rightarrow> yajl_gen_status option option" where
  "ensure_valid_state g =
     do { st \<leftarrow> cur_state g;
          Some (if st = yajl_gen_error then Some yajl_gen_in_error_state
                else if st = yajl_gen_complete then Some yajl_gen_generation_complete
                else None) }"

definition guarded ::
  "yajl_gen_status option option \<Rightarrow> 'c yajl_gen \<Rightarrow> (yajl_gen_status \<times> 'c yajl_gen) option \<Rightarrow>
   (yajl_gen_status \<times> 'c yajl_gen) option" where
  "guarded chk g k = do { e \<leftarrow> chk; case e of Some r \<Rightarrow> Some (r, g) | None \<Rightarrow> k }"

text \<open>\<open>INCREMENT_DEPTH\<close> and \<open>DECREMENT_DEPTH\<close>: the depth is changed before it is tested.\<close>

definition increment_depth :: "'c yajl_gen \<Rightarrow> bool \<times> 'c yajl_gen" where
  "increment_depth g =
     (let d = Suc (depth g) mod size_mod in (YAJL_MAX_DEPTH \<le> d, g\<lparr>depth := d\<rparr>))"

definition decrement_depth :: "'c yajl_gen \<Rightarrow> bool \<times> 'c yajl_gen" where
  "decrement_depth g =
     (let d = size_pred (depth g) in (YAJL_MAX_DEPTH \<le> d, g\<lparr>depth := d\<rparr>))"

definition appended_atom :: "'c yajl_gen \<Rightarrow> 'c yajl_gen option" where
  "appended_atom g =
     do { st \<leftarrow> cur_state g;
          case st of
            yajl_gen_start \<Rightarrow> set_state g yajl_gen_complete
          | yajl_gen_map_start \<Rightarrow> set_state g yajl_gen_map_val
          | yajl_gen_map_key \<Rightarrow> set_state g yajl_gen_map_val
          | yajl_gen_array_start \<Rightarrow> set_state g yajl_gen_in_array
          | yajl_gen_map_val \<Rightarrow> set_state g yajl_gen_map_key
          | _ \<Rightarrow> Some g }"

definition final_newline :: "'c yajl_gen \<Rightarrow> 'c yajl_gen option" where
  "final_newline g =
     (if beautify g then
        do { st \<leftarrow> cur_state g;
             if st = yajl_gen_complete then gen_print g [0x0A] else Some g }
      else Some g)"

section \<open>Atoms\<close>

text \<open>The decimal text \<open>sprintf\<close> produces for \<open>%lld\<close>.\<close>

fun dec_digits :: "nat \<Rightarrow> bytes" where
  "dec_digits n =
     (if n < 10 then [0x30 + of_nat n] else dec_digits (n div 10) @ [0x30 + of_nat (n mod 10)])"

declare dec_digits.simps [simp del]

definition dec_int :: "int \<Rightarrow> bytes" where
  "dec_int i = (if i < 0 then 0x2D # dec_digits (nat (- i)) else dec_digits (nat i))"

text \<open>What follows the guards of every atom: separator, indentation, the text, the new state.\<close>

definition gen_text :: "'c yajl_gen \<Rightarrow> bytes \<Rightarrow> (yajl_gen_status \<times> 'c yajl_gen) option" where
  "gen_text g s =
     do { g1 \<leftarrow> insert_sep g; g2 \<leftarrow> insert_whitespace g1; g3 \<leftarrow> gen_print g2 s;
          g4 \<leftarrow> appended_atom g3; g5 \<leftarrow> final_newline g4; Some (yajl_gen_status_ok, g5) }"

definition yajl_gen_number :: "'c yajl_gen \<Rightarrow> bytes \<Rightarrow> (yajl_gen_status \<times> 'c yajl_gen) option" where
  "yajl_gen_number g s =
     guarded (ensure_valid_state g) g (guarded (ensure_not_key g) g (gen_text g s))"

definition yajl_gen_integer :: "'c yajl_gen \<Rightarrow> int \<Rightarrow> (yajl_gen_status \<times> 'c yajl_gen) option" where
  "yajl_gen_integer g n =
     guarded (ensure_valid_state g) g (guarded (ensure_not_key g) g (gen_text g (dec_int n)))"

text \<open>
  Doubles stay abstract: \<open>bad\<close> is \<open>isnan(number) || isinf(number)\<close> and \<open>fmt\<close> the text of
  \<open>sprintf("%.20g")\<close>.
\<close>

definition yajl_gen_double ::
  "('d \<Rightarrow> bool) \<Rightarrow> ('d \<Rightarrow> bytes) \<Rightarrow> 'c yajl_gen \<Rightarrow> 'd \<Rightarrow> (yajl_gen_status \<times> 'c yajl_gen) option"
where
  "yajl_gen_double bad fmt g n =
     guarded (ensure_valid_state g) g (guarded (ensure_not_key g) g
       (if bad n then Some (yajl_gen_invalid_number, g) else gen_text g (fmt n)))"

definition yajl_gen_null :: "'c yajl_gen \<Rightarrow> (yajl_gen_status \<times> 'c yajl_gen) option" where
  "yajl_gen_null g =
     guarded (ensure_valid_state g) g (guarded (ensure_not_key g) g
       (gen_text g [0x6E, 0x75, 0x6C, 0x6C]))"

definition yajl_gen_bool :: "'c yajl_gen \<Rightarrow> bool \<Rightarrow> (yajl_gen_status \<times> 'c yajl_gen) option" where
  "yajl_gen_bool g b =
     (let val = (if b then [0x74, 0x72, 0x75, 0x65] else [0x66, 0x61, 0x6C, 0x73, 0x65]) in
      guarded (ensure_valid_state g) g (guarded (ensure_not_key g) g (gen_text g val)))"

definition yajl_gen_string :: "'c yajl_gen \<Rightarrow> bytes \<Rightarrow> (yajl_gen_status \<times> 'c yajl_gen) option" where
  "yajl_gen_string g str =
     (if validate_utf8 g \<and> \<not> yajl_string_validate_utf8 str then Some (yajl_gen_invalid_string, g)
      else guarded (ensure_valid_state g) g
        (do { g1 \<leftarrow> insert_sep g; g2 \<leftarrow> insert_whitespace g1; g3 \<leftarrow> gen_print g2 [0x22];
              p \<leftarrow> yajl_string_encode print_to (gprint g3) str (escape_solidus g3);
              g4 \<leftarrow> gen_print (g3\<lparr>gprint := p\<rparr>) [0x22];
              g5 \<leftarrow> appended_atom g4; g6 \<leftarrow> final_newline g5;
              Some (yajl_gen_status_ok, g6) }))"

section \<open>Maps and arrays\<close>

definition gen_open ::
  "'c yajl_gen \<Rightarrow> yajl_gen_state \<Rightarrow> byte \<Rightarrow> (yajl_gen_status \<times> 'c yajl_gen) option" where
  "gen_open g st bracket =
     guarded (ensure_valid_state g) g (guarded (ensure_not_key g) g
       (do { g1 \<leftarrow> insert_sep g; g2 \<leftarrow> insert_whitespace g1;
             let r = increment_depth g2;
             if fst r then Some (yajl_max_depth_exceeded, snd r)
             else do { g3 \<leftarrow> set_state (snd r) st; g4 \<leftarrow> gen_print g3 [bracket];
                       g5 \<leftarrow> (if beautify g4 then gen_print g4 [0x0A] else Some g4);
                       g6 \<leftarrow> final_newline g5; Some (yajl_gen_status_ok, g6) } }))"

text \<open>
  \<open>DECREMENT_DEPTH\<close> returns \<open>yajl_gen_error\<close>, a constant of the other enumeration; its value 7
  is \<open>yajl_gen_invalid_string\<close> as a status.
\<close>

definition gen_close :: "'c yajl_gen \<Rightarrow> byte \<Rightarrow> (yajl_gen_status \<times> 'c yajl_gen) option" where
  "gen_close g bracket =
     guarded (ensure_valid_state g) g
       (let r = decrement_depth g in
        if fst r then Some (yajl_gen_invalid_string, snd r)
        else do { g1 \<leftarrow> (if beautify (snd r) then gen_print (snd r) [0x0A] else Some (snd r));
                  g2 \<leftarrow> appended_atom g1; g3 \<leftarrow> insert_whitespace g2;
                  g4 \<leftarrow> gen_print g3 [bracket]; g5 \<leftarrow> final_newline g4;
                  Some (yajl_gen_status_ok, g5) })"

definition yajl_gen_map_open :: "'c yajl_gen \<Rightarrow> (yajl_gen_status \<times> 'c yajl_gen) option" where
  "yajl_gen_map_open g = gen_open g yajl_gen_map_start 0x7B"

definition yajl_gen_map_close :: "'c yajl_gen \<Rightarrow> (yajl_gen_status \<times> 'c yajl_gen) option" where
  "yajl_gen_map_close g = gen_close g 0x7D"

definition yajl_gen_array_open :: "'c yajl_gen \<Rightarrow> (yajl_gen_status \<times> 'c yajl_gen) option" where
  "yajl_gen_array_open g = gen_open g yajl_gen_array_start 0x5B"

definition yajl_gen_array_close :: "'c yajl_gen \<Rightarrow> (yajl_gen_status \<times> 'c yajl_gen) option" where
  "yajl_gen_array_close g = gen_close g 0x5D"

section \<open>The output buffer\<close>

definition yajl_gen_get_buf :: "'c yajl_gen \<Rightarrow> yajl_gen_status \<times> bytes" where
  "yajl_gen_get_buf g =
     (case gprint g of
        Print_buf b \<Rightarrow> (yajl_gen_status_ok, buf_contents b)
      | Print_user _ _ \<Rightarrow> (yajl_gen_no_buf, []))"

definition yajl_gen_clear :: "'c yajl_gen \<Rightarrow> 'c yajl_gen" where
  "yajl_gen_clear g =
     (case gprint g of
        Print_buf b \<Rightarrow> g\<lparr>gprint := Print_buf (yajl_buf_clear b)\<rparr>
      | Print_user _ _ \<Rightarrow> g)"

end
