(* ===== verification/Wy_Array.thy ===== *)
theory Wy_Array imports Prelude begin

text \<open>
  The array of pointers of \<open>WiEngine/impl/common/wyArray.cpp\<close>: a block of \<open>max\<close> cells of which the
  first \<open>num\<close> are in use, and a flag \<open>locked\<close> that iteration sets and that makes most modifying
  operations return at once. A pointer is an option, \<open>None\<close> is \<open>NULL\<close>. Indices given by the
  caller are C \<open>int\<close>s and may be negative; \<open>None\<close> as a result of an operation is no defined
  result.
\<close>

section \<open>The structure\<close>

type_synonym 'p ptr = "'p option"

record 'p wyArray =
  num :: nat
  max_size :: nat
  cells :: "'p ptr option list"
  locked :: bool

text \<open>\<open>realloc(arr->arr, arr->max * sizeof(void*))\<close> after \<open>arr->max *= 2\<close>, on 32 bits: the size wraps
  to 0 at \<open>2 ^ 30\<close> elements.\<close>

definition array_grow :: "'p wyArray \<Rightarrow> 'p wyArray option" where
  "array_grow a =
     (let m = 2 * max_size a in
      if 4 * m < size_mod
      then Some (a\<lparr>max_size := m, cells := take m (cells a) @ replicate (m - length (cells a)) None\<rparr>)
      else None)"

definition array_ensure :: "'p wyArray \<Rightarrow> 'p wyArray option" where
  "array_ensure a = (if num a = max_size a then array_grow a else Some a)"

section \<open>Operations\<close>

definition wyArrayIsEmpty :: "'p wyArray option \<Rightarrow> bool" where
  "wyArrayIsEmpty a = (case a of None \<Rightarrow> True | Some a \<Rightarrow> num a = 0)"

definition wyArrayNew :: "int \<Rightarrow> 'p wyArray option" where
  "wyArrayNew sz =
     (let n = (if sz \<noteq> 0 then sz else 4) in
      if 0 \<le> n \<and> 4 * n < int size_mod
      then Some \<lparr>num = 0, max_size = nat n, cells = replicate (nat n) None, locked = False\<rparr>
      else None)"

text \<open>Does \<open>wyArrayDestroy\<close> free the array?\<close>

definition wyArrayDestroy :: "'p wyArray \<Rightarrow> bool" where
  "wyArrayDestroy a \<longleftrightarrow> \<not> locked a"

definition wyArrayPush :: "'p wyArray \<Rightarrow> 'p ptr \<Rightarrow> 'p wyArray option" where
  "wyArrayPush a obj =
     (if locked a then Some a
      else do { a1 \<leftarrow> array_ensure a;
                c \<leftarrow> wr (cells a1) (num a1) (Some obj);
                Some (a1\<lparr>cells := c, num := Suc (num a1)\<rparr>) })"

definition wyArrayClear :: "'p wyArray \<Rightarrow> 'p wyArray option" where
  "wyArrayClear a =
     (if num a \<le> length (cells a)
      then Some (a\<lparr>cells := replicate (num a) (Some None) @ drop (num a) (cells a), num := 0\<rparr>)
      else None)"

text \<open>The returned pointer and the array; the array pointer itself may be \<open>NULL\<close>.\<close>

definition wyArrayPop :: "'p wyArray option \<Rightarrow> ('p ptr \<times> 'p wyArray option) option" where
  "wyArrayPop arr =
     (case arr of
        None \<Rightarrow> Some (None, None)
      | Some a \<Rightarrow>
          if locked a then Some (None, Some a)
          else if num a = 0 then Some (None, Some a)
          else do { v \<leftarrow> rd (cells a) (num a - 1);
                    value \<leftarrow> v;
                    c \<leftarrow> wr (cells a) (num a - 1) (Some None);
                    Some (value, Some (a\<lparr>num := num a - 1, cells := c\<rparr>)) })"

definition wyArrayPeek :: "'p wyArray \<Rightarrow> 'p ptr option" where
  "wyArrayPeek a = (if num a = 0 then Some None else do { v \<leftarrow> rd (cells a) (num a - 1); v })"

definition wyArrayGet :: "'p wyArray \<Rightarrow> int \<Rightarrow> 'p ptr option" where
  "wyArrayGet a idx =
     (if idx < 0 \<or> int (num a) \<le> idx then Some None else do { v \<leftarrow> rd (cells a) (nat idx); v })"

definition wyArrayInsert :: "'p wyArray \<Rightarrow> 'p ptr \<Rightarrow> int \<Rightarrow> 'p wyArray option" where
  "wyArrayInsert a obj idx =
     (if idx < 0 \<or> int (num a) < idx then Some a
      else if locked a then Some a
      else if idx = int (num a) then wyArrayPush a obj
      else do { a1 \<leftarrow> array_ensure a;
                moved \<leftarrow> cslice (cells a1) (nat idx) (num a1 - nat idx);
                c \<leftarrow> mem_write (cells a1) (nat idx + 1) moved;
                c1 \<leftarrow> wr c (nat idx) (Some obj);
                Some (a1\<lparr>cells := c1, num := Suc (num a1)\<rparr>) })"

definition wyArrayDeleteIndex :: "'p wyArray \<Rightarrow> int \<Rightarrow> ('p ptr \<times> 'p wyArray) option" where
  "wyArrayDeleteIndex a idx =
     (if idx < 0 \<or> int (num a) \<le> idx then Some (None, a)
      else if locked a then Some (None, a)
      else do { v \<leftarrow> rd (cells a) (nat idx);
                ret \<leftarrow> v;
                c \<leftarrow> (if idx < int (num a) - 1
                     then do { moved \<leftarrow> cslice (cells a) (nat idx + 1) (num a - nat idx - 1);
                               mem_write (cells a) (nat idx) moved }
                     else Some (cells a));
                Some (ret, a\<lparr>cells := c, num := num a - 1\<rparr>) })"

text \<open>The comparison of a search: pointer equality, or the comparator on the element.\<close>

definition array_match :: "('p ptr \<Rightarrow> 'p ptr \<Rightarrow> bool) option \<Rightarrow> 'p ptr \<Rightarrow> 'p ptr \<Rightarrow> bool" where
  "array_match comparator elt obj = (case comparator of None \<Rightarrow> elt = obj | Some f \<Rightarrow> f elt obj)"

text \<open>The search loop from index \<open>i\<close>: the index of the first match, or \<open>num\<close>.\<close>

function array_search ::
  "'p wyArray \<Rightarrow> 'p ptr \<Rightarrow> ('p ptr \<Rightarrow> 'p ptr \<Rightarrow> bool) option \<Rightarrow> nat \<Rightarrow> nat option" where
  "array_search a obj comparator i =
     (if i < num a
      then do { v \<leftarrow> rd (cells a) i; elt \<leftarrow> v;
                if array_match comparator elt obj then Some i
                else array_search a obj comparator (Suc i) }
      else Some (num a))"
  by pat_completeness auto
termination by (relation "measure (\<lambda>(a, _, _, i). num a - i)") auto

declare array_search.simps [simp del]

definition wyArrayIndexOf ::
  "'p wyArray \<Rightarrow> 'p ptr \<Rightarrow> ('p ptr \<Rightarrow> 'p ptr \<Rightarrow> bool) option \<Rightarrow> int option" where
  "wyArrayIndexOf a obj comparator =
     do { i \<leftarrow> array_search a obj comparator 0; Some (if i < num a then int i else -1) }"

definition wyArrayDeleteObj ::
  "'p wyArray \<Rightarrow> 'p ptr \<Rightarrow> ('p ptr \<Rightarrow> 'p ptr \<Rightarrow> bool) option \<Rightarrow> ('p ptr \<times> 'p wyArray) option" where
  "wyArrayDeleteObj a obj comparator =
     (if locked a then Some (None, a)
      else do { i \<leftarrow> array_search a obj comparator 0;
                if i < num a then wyArrayDeleteIndex a (int i) else Some (None, a) })"

section \<open>Operations on two arrays\<close>

text \<open>\<open>wyArrayPushAll\<close> and \<open>wyArrayRemoveAllIn\<close> on two different arrays, from index \<open>i\<close> on.\<close>

function push_all_from :: "nat \<Rightarrow> 'p wyArray \<Rightarrow> 'p wyArray \<Rightarrow> 'p wyArray option" where
  "push_all_from i src dst =
     (if i < num src
      then do { obj \<leftarrow> wyArrayGet src (int i); d \<leftarrow> wyArrayPush dst obj; push_all_from (Suc i) src d }
      else Some dst)"
  by pat_completeness auto
termination by (relation "measure (\<lambda>(i, src, _). num src - i)") auto

definition wyArrayPushAll :: "'p wyArray \<Rightarrow> 'p wyArray \<Rightarrow> 'p wyArray option" where
  "wyArrayPushAll src dst = push_all_from 0 src dst"

function remove_all_from :: "nat \<Rightarrow> 'p wyArray \<Rightarrow> 'p wyArray \<Rightarrow> 'p wyArray option" where
  "remove_all_from i src removeList =
     (if i < num removeList
      then do { obj \<leftarrow> wyArrayGet removeList (int i);
                r \<leftarrow> wyArrayDeleteObj src obj None;
                remove_all_from (Suc i) (snd r) removeList }
      else Some src)"
  by pat_completeness auto
termination by (relation "measure (\<lambda>(i, _, l). num l - i)") auto

definition wyArrayRemoveAllIn :: "'p wyArray \<Rightarrow> 'p wyArray \<Rightarrow> 'p wyArray option" where
  "wyArrayRemoveAllIn src removeList = remove_all_from 0 src removeList"

declare push_all_from.simps [simp del] remove_all_from.simps [simp del]

text \<open>The same loops when both arguments are the same array: the bound moves with the array.\<close>

partial_function (option) push_all_self :: "nat \<Rightarrow> 'p wyArray \<Rightarrow> 'p wyArray option" where
  "push_all_self i a =
     (if i < num a
      then Option.bind (wyArrayGet a (int i)) (\<lambda>obj.
             Option.bind (wyArrayPush a obj) (\<lambda>a1. push_all_self (Suc i) a1))
      else Some a)"

declare push_all_self.simps [code]

section \<open>Iteration\<close>

text \<open>
  \<open>wyArrayEach\<close> sets \<open>locked\<close>, calls the iterator on each element and resets \<open>locked\<close>. The iterator
  gets the array as it is and may change it together with its own state \<open>data\<close>; it answers whether
  to go on.
\<close>

type_synonym ('p, 's) array_iterator =
  "'p wyArray \<Rightarrow> 'p ptr \<Rightarrow> nat \<Rightarrow> 's \<Rightarrow> ('p wyArray \<times> 's \<times> bool) option"

partial_function (option) each_from ::
  "('p, 's) array_iterator \<Rightarrow> nat \<Rightarrow> 'p wyArray \<Rightarrow> 's \<Rightarrow> ('p wyArray \<times> 's) option" where
  "each_from f i a s =
     (if i < num a
      then Option.bind (Option.bind (rd (cells a) i) (\<lambda>v. v)) (\<lambda>elt.
             Option.bind (f a elt i s) (\<lambda>r.
               if snd (snd r) then each_from f (Suc i) (fst r) (fst (snd r))
               else Some (fst r, fst (snd r))))
      else Some (a, s))"

declare each_from.simps [code]

definition wyArrayEach ::
  "('p, 's) array_iterator \<Rightarrow> 'p wyArray \<Rightarrow> 's \<Rightarrow> ('p wyArray \<times> 's) option" where
  "wyArrayEach f a s =
     do { r \<leftarrow> each_from f 0 (a\<lparr>locked := True\<rparr>) s; Some ((fst r)\<lparr>locked := False\<rparr>, snd r) }"

text \<open>\<open>wyArrayConcurrentEach\<close>: over a copy of the elements, without the lock.\<close>

fun each_copy ::
  "('p, 's) array_iterator \<Rightarrow> nat \<Rightarrow> 'p ptr option list \<Rightarrow> 'p wyArray \<Rightarrow> 's \<Rightarrow> ('p wyArray \<times> 's) option" where
  "each_copy f i [] a s = Some (a, s)"
| "each_copy f i (v # vs) a s =
     do { elt \<leftarrow> v; r \<leftarrow> f a elt i s;
          if snd (snd r) then each_copy f (Suc i) vs (fst r) (fst (snd r))
          else Some (fst r, fst (snd r)) }"

definition wyArrayConcurrentEach ::
  "('p, 's) array_iterator \<Rightarrow> 'p wyArray \<Rightarrow> 's \<Rightarrow> ('p wyArray \<times> 's) option" where
  "wyArrayConcurrentEach f a s =
     do { copy \<leftarrow> cslice (cells a) 0 (num a); each_copy f 0 copy a s }"

section \<open>The invariant and the contents\<close>

definition array_ok :: "'p wyArray \<Rightarrow> bool" where
  "array_ok a \<longleftrightarrow>
     length (cells a) = max_size a \<and> 0 < max_size a \<and> 4 * max_size a < size_mod \<and>
     num a \<le> max_size a \<and> None \<notin> set (take (num a) (cells a))"

definition elems :: "'p wyArray \<Rightarrow> 'p ptr list" where
  "elems a = map the (take (num a) (cells a))"

text \<open>Below this many elements an array can always grow.\<close>

abbreviation array_limit :: nat where "array_limit \<equiv> 536870912"

lemma length_elems: "array_ok a \<Longrightarrow> length (elems a) = num a"
  by (simp add: array_ok_def elems_def)

text \<open>An array as its elements and the cells behind them.\<close>

lemma array_okE:
  assumes "array_ok a"
  obtains rest where "cells a = map Some (elems a) @ rest" "length rest = max_size a - num a"
    "num a = length (elems a)" "num a \<le> max_size a" "0 < max_size a" "4 * max_size a < size_mod"
proof -
  have "map (\<lambda>c. Some (the c)) xs = xs" if "None \<notin> set xs" for xs :: "'a ptr option list"
    using that by (induction xs) auto
  then have "take (num a) (cells a) = map Some (elems a)"
    using assms by (simp add: array_ok_def elems_def comp_def)
  then have "cells a = map Some (elems a) @ drop (num a) (cells a)" by (metis append_take_drop_id)
  then show thesis using assms by (intro that [of "drop (num a) (cells a)"]) (simp_all add: array_ok_def elems_def)
qed

lemma array_okI:
  assumes "cells a = map Some xs @ rest" "num a = length xs" "length xs + length rest = max_size a"
    "0 < max_size a" "4 * max_size a < size_mod"
  shows "array_ok a \<and> elems a = xs"
  using assms by (auto simp: array_ok_def elems_def comp_def)

lemma cell_elems: "array_ok a \<Longrightarrow> i < num a \<Longrightarrow> rd (cells a) i = Some (Some (elems a ! i))"
  by (rule array_okE [of a]) (simp_all add: nth_append)

lemma elems_cong: "num b = num a \<Longrightarrow> cells b = cells a \<Longrightarrow> elems b = elems a"
  by (simp add: elems_def)

lemma array_ok_locked [simp]: "array_ok (a\<lparr>locked := b\<rparr>) \<longleftrightarrow> array_ok a" "elems (a\<lparr>locked := b\<rparr>) = elems a"
  by (simp_all add: array_ok_def elems_def)

lemma array_new_ok:
  assumes "0 \<le> sz" "4 * sz < int size_mod"
  shows "\<exists>a. wyArrayNew sz = Some a \<and> array_ok a \<and> elems a = [] \<and> \<not> locked a"
  using assms by (auto simp: wyArrayNew_def array_ok_def elems_def Let_def)

lemma array_ensure_ok:
  assumes "array_ok a" "num a < array_limit"
  shows "\<exists>a1. array_ensure a = Some a1 \<and> array_ok a1 \<and> elems a1 = elems a \<and> num a1 = num a \<and>
    num a1 < max_size a1 \<and> locked a1 = locked a"
proof (cases "num a = max_size a")
  case True
  then show ?thesis using assms by (auto simp: array_ensure_def array_grow_def Let_def array_ok_def elems_def)
next
  case False
  then show ?thesis using assms by (auto simp: array_ensure_def array_ok_def)
qed

lemma wyArrayPush_ok:
  assumes "array_ok a" "num a < array_limit" "\<not> locked a"
  shows "\<exists>a'. wyArrayPush a x = Some a' \<and> array_ok a' \<and> elems a' = elems a @ [x] \<and> \<not> locked a'"
proof -
  obtain a1 where a1: "array_ensure a = Some a1" "array_ok a1" "elems a1 = elems a" "num a1 = num a"
    "num a1 < max_size a1" "\<not> locked a1"
    using array_ensure_ok [OF assms(1,2)] assms(3) by auto
  from a1(2) obtain rest where r: "cells a1 = map Some (elems a) @ rest" "length rest = max_size a1 - num a1"
    "num a1 = length (elems a)" "0 < max_size a1" "4 * max_size a1 < size_mod"
    by (rule array_okE) (simp add: a1(3))
  then obtain c rest' where "rest = c # rest'" using a1(5) by (cases rest) auto
  then have "wyArrayPush a x = Some (a1\<lparr>cells := map Some (elems a @ [x]) @ rest', num := Suc (num a1)\<rparr>)"
    using a1(1) r assms(3) \<open>rest = _\<close> by (simp add: wyArrayPush_def list_update_append)
  moreover have "array_ok (a1\<lparr>cells := map Some (elems a @ [x]) @ rest', num := Suc (num a1)\<rparr>) \<and>
      elems (a1\<lparr>cells := map Some (elems a @ [x]) @ rest', num := Suc (num a1)\<rparr>) = elems a @ [x]"
    by (rule array_okI) (use r a1(5) \<open>rest = _\<close> in auto)
  ultimately show ?thesis using a1(6) by auto
qed

lemma wyArrayInsert_ok:
  assumes "array_ok a" "num a < array_limit" "\<not> locked a" "elems a = xs @ ys"
  shows "\<exists>a'. wyArrayInsert a x (int (length xs)) = Some a' \<and> array_ok a' \<and> elems a' = xs @ x # ys \<and> \<not> locked a'"
proof (cases ys)
  case Nil
  then have "int (length xs) = int (num a)" using length_elems [OF assms(1)] assms(4) by simp
  then show ?thesis using wyArrayPush_ok [OF assms(1-3), of x] assms Nil by (simp add: wyArrayInsert_def)
next
  case (Cons y zs)
  obtain a1 where a1: "array_ensure a = Some a1" "array_ok a1" "elems a1 = elems a" "num a1 = num a"
    "num a1 < max_size a1" "\<not> locked a1"
    using array_ensure_ok [OF assms(1,2)] assms(3) by auto
  from a1(2) obtain rest where r: "cells a1 = map Some (xs @ ys) @ rest" "length rest = max_size a1 - num a1"
    "num a1 = length (xs @ ys)" "0 < max_size a1" "4 * max_size a1 < size_mod"
    by (rule array_okE) (simp add: a1(3) assms(4))
  then obtain c rest' where rest: "rest = c # rest'" using a1(5) by (cases rest) auto
  have na: "num a = length xs + Suc (length zs)" "num a1 = length xs + Suc (length zs)"
    using r(3) a1(4) Cons by simp_all
  have w: "wyArrayInsert a x (int (length xs)) =
      Some (a1\<lparr>cells := map Some (xs @ x # ys) @ rest', num := Suc (num a1)\<rparr>)"
    using a1(1) r(1) assms(3) rest Cons
    by (simp add: na wyArrayInsert_def cslice_def mem_write_def list_update_append)
  moreover have "array_ok (a1\<lparr>cells := map Some (xs @ x # ys) @ rest', num := Suc (num a1)\<rparr>) \<and>
      elems (a1\<lparr>cells := map Some (xs @ x # ys) @ rest', num := Suc (num a1)\<rparr>) = xs @ x # ys"
    by (rule array_okI) (use r a1(5) rest in auto)
  ultimately show ?thesis using a1(6) by auto
qed

lemma wyArrayDeleteIndex_ok:
  assumes "array_ok a" "\<not> locked a" "elems a = xs @ x # ys"
  shows "\<exists>a'. wyArrayDeleteIndex a (int (length xs)) = Some (x, a') \<and> array_ok a' \<and> elems a' = xs @ ys \<and> \<not> locked a'"
proof -
  from assms(1) obtain rest where r: "cells a = map Some (xs @ x # ys) @ rest" "length rest = max_size a - num a"
    "num a = length (xs @ x # ys)" "num a \<le> max_size a" "0 < max_size a" "4 * max_size a < size_mod"
    by (rule array_okE) (simp add: assms(3))
  let ?c = "last (Some x # map Some ys)"
  have c: "(if int (length xs) < int (num a) - 1
       then do { moved \<leftarrow> cslice (cells a) (length xs + 1) (num a - length xs - 1); mem_write (cells a) (length xs) moved }
       else Some (cells a)) = Some (map Some (xs @ ys) @ ?c # rest)"
  proof (cases ys rule: rev_cases)
    case Nil
    then show ?thesis using r by simp
  next
    case (snoc zs z)
    then show ?thesis using r by (simp add: cslice_def mem_write_def)
  qed
  have "wyArrayDeleteIndex a (int (length xs)) =
      Some (x, a\<lparr>cells := map Some (xs @ ys) @ ?c # rest, num := num a - 1\<rparr>)"
    unfolding wyArrayDeleteIndex_def nat_int c using assms(2) r(3) by (simp add: r(1) nth_append)
  moreover have "array_ok (a\<lparr>cells := map Some (xs @ ys) @ ?c # rest, num := num a - 1\<rparr>) \<and>
      elems (a\<lparr>cells := map Some (xs @ ys) @ ?c # rest, num := num a - 1\<rparr>) = xs @ ys"
    by (rule array_okI) (use r in auto)
  ultimately show ?thesis using assms(2) by auto
qed


lemma wyArrayPop_ok:
  assumes "array_ok a" "\<not> locked a" "elems a = xs @ [x]"
  shows "\<exists>a'. wyArrayPop (Some a) = Some (x, Some a') \<and> array_ok a' \<and> elems a' = xs \<and> \<not> locked a'"
proof -
  from assms(1) obtain rest where r: "cells a = map Some (xs @ [x]) @ rest" "length rest = max_size a - num a"
    "num a = Suc (length xs)" "num a \<le> max_size a" "0 < max_size a" "4 * max_size a < size_mod"
    by (rule array_okE) (simp add: assms(3))
  have "wyArrayPop (Some a) = Some (x, Some (a\<lparr>num := num a - 1, cells := map Some xs @ Some None # rest\<rparr>))"
    using assms(2) by (simp add: wyArrayPop_def r(1,3) nth_append list_update_append)
  moreover have "array_ok (a\<lparr>num := num a - 1, cells := map Some xs @ Some None # rest\<rparr>) \<and>
      elems (a\<lparr>num := num a - 1, cells := map Some xs @ Some None # rest\<rparr>) = xs"
    by (rule array_okI) (use r in auto)
  ultimately show ?thesis using assms(2) by auto
qed

lemma wyArrayPop_empty:
  "array_ok a \<Longrightarrow> elems a = [] \<Longrightarrow> wyArrayPop (Some a) = Some (None, Some a)"
  using length_elems [of a] by (simp add: wyArrayPop_def)

lemma wyArrayPeek_ok:
  assumes "array_ok a"
  shows "wyArrayPeek a = Some (if elems a = [] then None else last (elems a))"
proof (cases "num a = 0")
  case True
  then show ?thesis using length_elems [OF assms] by (simp add: wyArrayPeek_def)
next
  case False
  then have "elems a \<noteq> []" using length_elems [OF assms] by auto
  then show ?thesis using False cell_elems [OF assms, of "num a - 1"] length_elems [OF assms]
    by (simp add: wyArrayPeek_def last_conv_nth)
qed

lemma wyArrayGet_ok:
  "array_ok a \<Longrightarrow> wyArrayGet a idx = Some (if 0 \<le> idx \<and> idx < int (length (elems a)) then elems a ! nat idx else None)"
  using cell_elems [of a "nat idx"] length_elems [of a] by (auto simp: wyArrayGet_def)

lemma wyArrayClear_ok:
  "array_ok a \<Longrightarrow> \<exists>a'. wyArrayClear a = Some a' \<and> array_ok a' \<and> elems a' = [] \<and> locked a' = locked a"
  by (auto simp: wyArrayClear_def array_ok_def elems_def)

text \<open>The position of the first match, or the length.\<close>

definition first_match :: "('p ptr \<Rightarrow> 'p ptr \<Rightarrow> bool) option \<Rightarrow> 'p ptr \<Rightarrow> 'p ptr list \<Rightarrow> nat" where
  "first_match comparator obj xs = length (takeWhile (\<lambda>x. \<not> array_match comparator x obj) xs)"

lemma array_search_ok:
  assumes "array_ok a"
  shows "i \<le> num a \<Longrightarrow> array_search a obj comparator i = Some (i + first_match comparator obj (drop i (elems a)))"
proof (induction "num a - i" arbitrary: i)
  case 0
  then show ?case using length_elems [OF assms] by (subst array_search.simps) (simp add: first_match_def)
next
  case (Suc n)
  then have i: "i < num a" by simp
  have "drop i (elems a) = elems a ! i # drop (Suc i) (elems a)"
    using i length_elems [OF assms] by (simp add: Cons_nth_drop_Suc)
  moreover have "array_search a obj comparator (Suc i) = Some (Suc i + first_match comparator obj (drop (Suc i) (elems a)))"
    using Suc by (intro Suc.hyps(1)) simp_all
  ultimately show ?case using i cell_elems [OF assms i] by (subst array_search.simps) (simp add: first_match_def)
qed

lemma first_match_le: "first_match comparator obj xs \<le> length xs"
  by (simp add: first_match_def length_takeWhile_le)

lemma first_match_split:
  assumes "first_match comparator obj xs < length xs"
  obtains p x q where "xs = p @ x # q" "length p = first_match comparator obj xs" "array_match comparator x obj"
    "\<forall>y\<in>set p. \<not> array_match comparator y obj"
proof -
  let ?P = "\<lambda>x. \<not> array_match comparator x obj"
  have "takeWhile ?P xs @ dropWhile ?P xs = xs" by simp
  moreover have "dropWhile ?P xs \<noteq> []" using assms by (metis append_Nil2 calculation first_match_def less_irrefl)
  then obtain x q where d: "dropWhile ?P xs = x # q" by (cases "dropWhile ?P xs") auto
  moreover have "array_match comparator x obj" using hd_dropWhile [of ?P xs] d by simp
  ultimately show thesis by (intro that [of "takeWhile ?P xs" x q]) (auto simp: first_match_def dest: set_takeWhileD)
qed

text \<open>Deletion of the first match, on lists.\<close>

definition delete_match ::
  "('p ptr \<Rightarrow> 'p ptr \<Rightarrow> bool) option \<Rightarrow> 'p ptr \<Rightarrow> 'p ptr list \<Rightarrow> 'p ptr \<times> 'p ptr list" where
  "delete_match comparator obj xs =
     (let i = first_match comparator obj xs in
      if i < length xs then (xs ! i, take i xs @ drop (Suc i) xs) else (None, xs))"

lemma wyArrayDeleteObj_ok:
  assumes "array_ok a" "\<not> locked a"
  shows "\<exists>a'. wyArrayDeleteObj a obj comparator = Some (fst (delete_match comparator obj (elems a)), a') \<and>
    array_ok a' \<and> elems a' = snd (delete_match comparator obj (elems a)) \<and> \<not> locked a'"
proof (cases "first_match comparator obj (elems a) < length (elems a)")
  case True
  then obtain p x q where s: "elems a = p @ x # q" "length p = first_match comparator obj (elems a)"
    by (rule first_match_split)
  have "array_search a obj comparator 0 = Some (length p)" using array_search_ok [OF assms(1), of 0] s(2) by simp
  moreover have "delete_match comparator obj (elems a) = (x, p @ q)"
    unfolding delete_match_def Let_def s(2) [symmetric] by (simp add: s(1))
  moreover have "length p < num a" using True s(2) length_elems [OF assms(1)] by simp
  ultimately show ?thesis using wyArrayDeleteIndex_ok [OF assms s(1)] assms(2)
    by (auto simp: wyArrayDeleteObj_def)
next
  case False
  then show ?thesis using array_search_ok [OF assms(1), of 0] assms length_elems [OF assms(1)]
      first_match_le [of comparator obj "elems a"]
    by (simp add: wyArrayDeleteObj_def delete_match_def Let_def)
qed

lemma wyArrayIndexOf_ok:
  "array_ok a \<Longrightarrow> wyArrayIndexOf a obj comparator =
     Some (let i = first_match comparator obj (elems a) in if i < length (elems a) then int i else -1)"
  using array_search_ok [of a 0 obj comparator] length_elems [of a] by (simp add: wyArrayIndexOf_def Let_def)

text \<open>A locked array refuses every change but \<open>wyArrayClear\<close>.\<close>

lemma locked_refuses:
  assumes "locked a"
  shows "wyArrayPush a x = Some a" "wyArrayInsert a x i = Some a" "wyArrayDeleteIndex a i = Some (None, a)"
    "wyArrayDeleteObj a x comparator = Some (None, a)" "wyArrayPop (Some a) = Some (None, Some a)"
  using assms by (simp_all add: wyArrayPush_def wyArrayInsert_def wyArrayDeleteIndex_def wyArrayDeleteObj_def wyArrayPop_def)

section \<open>The interface\<close>

text \<open>What the other components use: a sequence that is extended, searched and shrunk.\<close>

locale pointer_sequence =
  fixes ok :: "'a \<Rightarrow> bool" and abs :: "'a \<Rightarrow> 'e list" and limit :: nat
    and push :: "'a \<Rightarrow> 'e \<Rightarrow> 'a option" and pop :: "'a \<Rightarrow> ('e \<times> 'a) option"
    and insert_at :: "'a \<Rightarrow> 'e \<Rightarrow> nat \<Rightarrow> 'a option" and delete_at :: "'a \<Rightarrow> nat \<Rightarrow> ('e \<times> 'a) option"
  assumes push: "ok a \<Longrightarrow> length (abs a) < limit \<Longrightarrow> \<exists>a'. push a x = Some a' \<and> ok a' \<and> abs a' = abs a @ [x]"
    and pop: "ok a \<Longrightarrow> abs a = xs @ [x] \<Longrightarrow> \<exists>a'. pop a = Some (x, a') \<and> ok a' \<and> abs a' = xs"
    and insert_at: "ok a \<Longrightarrow> length (abs a) < limit \<Longrightarrow> abs a = xs @ ys \<Longrightarrow>
      \<exists>a'. insert_at a x (length xs) = Some a' \<and> ok a' \<and> abs a' = xs @ x # ys"
    and delete_at: "ok a \<Longrightarrow> abs a = xs @ x # ys \<Longrightarrow>
      \<exists>a'. delete_at a (length xs) = Some (x, a') \<and> ok a' \<and> abs a' = xs @ ys"
begin

fun push_list :: "'e list \<Rightarrow> 'a \<Rightarrow> 'a option" where
  "push_list [] a = Some a"
| "push_list (x # xs) a = Option.bind (push a x) (push_list xs)"

lemma push_list:
  "ok a \<Longrightarrow> length (abs a) + length xs \<le> limit \<Longrightarrow> \<exists>a'. push_list xs a = Some a' \<and> ok a' \<and> abs a' = abs a @ xs"
proof (induction xs arbitrary: a)
  case (Cons x xs)
  then obtain a1 where a1: "push a x = Some a1" "ok a1" "abs a1 = abs a @ [x]" using push [of a x] by auto
  then show ?case using Cons.IH [OF a1(2)] Cons.prems(2) by auto
qed simp

lemma push_pop: "ok a \<Longrightarrow> length (abs a) < limit \<Longrightarrow> \<exists>a1 a2. push a x = Some a1 \<and> pop a1 = Some (x, a2) \<and> ok a2 \<and> abs a2 = abs a"
  using push [of a x] pop by metis

lemma insert_delete:
  assumes "ok a" "length (abs a) < limit" "k \<le> length (abs a)"
  shows "\<exists>a1 a2. insert_at a x k = Some a1 \<and> delete_at a1 k = Some (x, a2) \<and> ok a2 \<and> abs a2 = abs a"
proof -
  have s: "abs a = take k (abs a) @ drop k (abs a)" "length (take k (abs a)) = k" using assms(3) by simp_all
  obtain a1 where a1: "insert_at a x k = Some a1" "ok a1" "abs a1 = take k (abs a) @ x # drop k (abs a)"
    using insert_at [OF assms(1,2) s(1), of x] s(2) by auto
  then show ?thesis using delete_at [OF a1(2,3)] s by auto
qed

end

definition unlocked_ok :: "'p wyArray \<Rightarrow> bool" where
  "unlocked_ok a \<longleftrightarrow> array_ok a \<and> \<not> locked a"

definition pop_some :: "'p wyArray \<Rightarrow> ('p ptr \<times> 'p wyArray) option" where
  "pop_some a = Option.bind (wyArrayPop (Some a)) (\<lambda>r. map_option (Pair (fst r)) (snd r))"

interpretation wy_array: pointer_sequence unlocked_ok elems array_limit wyArrayPush pop_some
  "\<lambda>a x k. wyArrayInsert a x (int k)" "\<lambda>a k. wyArrayDeleteIndex a (int k)"
proof (unfold_locales, goal_cases)
  case (1 a x)
  then show ?case using wyArrayPush_ok [of a x] length_elems [of a] by (auto simp: unlocked_ok_def)
next
  case (2 a xs x)
  then show ?case using wyArrayPop_ok [of a xs x] by (auto simp: unlocked_ok_def pop_some_def)
next
  case (3 a xs ys x)
  then show ?case using wyArrayInsert_ok [of a xs ys x] length_elems [of a] by (auto simp: unlocked_ok_def)
next
  case (4 a xs x ys)
  then show ?case using wyArrayDeleteIndex_ok [of a xs x ys] by (auto simp: unlocked_ok_def)
qed

section \<open>Sequences of operations\<close>

text \<open>A client's calls, with the C \<open>int\<close> indices as they are given.\<close>

datatype 'p array_request =
  Push "'p ptr" | Insert "'p ptr" int | DeleteIndex int | DeleteObj "'p ptr" | Pop | Clear | Peek | Get int | IndexOf "'p ptr"

datatype 'p array_answer = Nothing | Pointer "'p ptr" | Index int

fun array_call :: "'p array_request \<Rightarrow> 'p wyArray \<Rightarrow> ('p array_answer \<times> 'p wyArray) option" where
  "array_call (Push x) a = do { a1 \<leftarrow> wyArrayPush a x; Some (Nothing, a1) }"
| "array_call (Insert x i) a = do { a1 \<leftarrow> wyArrayInsert a x i; Some (Nothing, a1) }"
| "array_call (DeleteIndex i) a = do { r \<leftarrow> wyArrayDeleteIndex a i; Some (Pointer (fst r), snd r) }"
| "array_call (DeleteObj x) a = do { r \<leftarrow> wyArrayDeleteObj a x None; Some (Pointer (fst r), snd r) }"
| "array_call Pop a = do { r \<leftarrow> pop_some a; Some (Pointer (fst r), snd r) }"
| "array_call Clear a = do { a1 \<leftarrow> wyArrayClear a; Some (Nothing, a1) }"
| "array_call Peek a = do { x \<leftarrow> wyArrayPeek a; Some (Pointer x, a) }"
| "array_call (Get i) a = do { x \<leftarrow> wyArrayGet a i; Some (Pointer x, a) }"
| "array_call (IndexOf x) a = do { i \<leftarrow> wyArrayIndexOf a x None; Some (Index i, a) }"

fun array_calls :: "'p array_request list \<Rightarrow> 'p wyArray \<Rightarrow> ('p array_answer list \<times> 'p wyArray) option" where
  "array_calls [] a = Some ([], a)"
| "array_calls (c # cs) a =
     do { (r, a1) \<leftarrow> array_call c a; (rs, a2) \<leftarrow> array_calls cs a1; Some (r # rs, a2) }"

text \<open>The same calls on a list.\<close>

definition list_at :: "'p ptr list \<Rightarrow> int \<Rightarrow> 'p ptr" where
  "list_at xs i = (if 0 \<le> i \<and> i < int (length xs) then xs ! nat i else None)"

fun list_call :: "'p array_request \<Rightarrow> 'p ptr list \<Rightarrow> 'p array_answer \<times> 'p ptr list" where
  "list_call (Push x) xs = (Nothing, xs @ [x])"
| "list_call (Insert x i) xs =
     (Nothing, if 0 \<le> i \<and> i \<le> int (length xs) then take (nat i) xs @ x # drop (nat i) xs else xs)"
| "list_call (DeleteIndex i) xs =
     (Pointer (list_at xs i), if 0 \<le> i \<and> i < int (length xs) then take (nat i) xs @ drop (Suc (nat i)) xs else xs)"
| "list_call (DeleteObj x) xs = (Pointer (if x \<in> set xs then x else None), remove1 x xs)"
| "list_call Pop xs = (Pointer (if xs = [] then None else last xs), butlast xs)"
| "list_call Clear xs = (Nothing, [])"
| "list_call Peek xs = (Pointer (if xs = [] then None else last xs), xs)"
| "list_call (Get i) xs = (Pointer (list_at xs i), xs)"
| "list_call (IndexOf x) xs = (Index (if x \<in> set xs then int (length (takeWhile (\<lambda>y. y \<noteq> x) xs)) else -1), xs)"

fun list_calls :: "'p array_request list \<Rightarrow> 'p ptr list \<Rightarrow> 'p array_answer list \<times> 'p ptr list" where
  "list_calls [] xs = ([], xs)"
| "list_calls (c # cs) xs =
     (let (r, ys) = list_call c xs; (rs, zs) = list_calls cs ys in (r # rs, zs))"

lemma first_match_mem: "first_match None x xs < length xs \<longleftrightarrow> x \<in> set xs"
  by (induction xs) (auto simp: first_match_def array_match_def)

lemma delete_match_remove1:
  "delete_match None x xs = (if x \<in> set xs then x else None, remove1 x xs)"
proof (cases "x \<in> set xs")
  case True
  then have "first_match None x xs < length xs" by (simp add: first_match_mem)
  then obtain p y q where s: "xs = p @ y # q" "length p = first_match None x xs" "array_match None y x"
    "\<forall>z\<in>set p. \<not> array_match None z x"
    by (rule first_match_split)
  then have "y = x" "x \<notin> set p" by (auto simp: array_match_def)
  then show ?thesis unfolding delete_match_def Let_def s(2) [symmetric] by (simp add: s(1) remove1_append)
next
  case False
  then show ?thesis using first_match_mem [of x xs] by (simp add: delete_match_def remove1_idem Let_def)
qed

text \<open>One call on an unlocked array answers and changes the contents as on lists.\<close>

definition array_step :: "'p array_request \<Rightarrow> 'p wyArray \<Rightarrow> bool" where
  "array_step c a \<longleftrightarrow>
     (\<exists>a'. array_call c a = Some (fst (list_call c (elems a)), a') \<and> unlocked_ok a' \<and>
           elems a' = snd (list_call c (elems a)))"

lemma array_step_push: "unlocked_ok a \<Longrightarrow> length (elems a) < array_limit \<Longrightarrow> array_step (Push x) a"
  using wy_array.push [of a x] by (auto simp: array_step_def)

lemma array_step_insert:
  assumes "unlocked_ok a" "length (elems a) < array_limit"
  shows "array_step (Insert x i) a"
proof (cases "0 \<le> i \<and> i \<le> int (length (elems a))")
  case True
  then have "elems a = take (nat i) (elems a) @ drop (nat i) (elems a)" "length (take (nat i) (elems a)) = nat i"
    by (simp_all add: nat_le_iff)
  then show ?thesis using wy_array.insert_at [OF assms, of "take (nat i) (elems a)" "drop (nat i) (elems a)" x] True
    by (auto simp: array_step_def)
next
  case False
  moreover have "num a = length (elems a)" using length_elems [of a] assms(1) by (simp add: unlocked_ok_def)
  ultimately show ?thesis using assms(1) by (auto simp: array_step_def wyArrayInsert_def)
qed

lemma array_step_delete:
  assumes "unlocked_ok a"
  shows "array_step (DeleteIndex i) a"
proof (cases "0 \<le> i \<and> i < int (length (elems a))")
  case True
  then have "elems a = take (nat i) (elems a) @ elems a ! nat i # drop (Suc (nat i)) (elems a)"
    "length (take (nat i) (elems a)) = nat i"
    by (auto simp: id_take_nth_drop [symmetric] nat_less_iff)
  then show ?thesis
    using wy_array.delete_at [OF assms, of "take (nat i) (elems a)" "elems a ! nat i" "drop (Suc (nat i)) (elems a)"] True
    by (auto simp: array_step_def list_at_def)
next
  case False
  moreover have "num a = length (elems a)" using length_elems [of a] assms(1) by (simp add: unlocked_ok_def)
  ultimately show ?thesis using assms(1) by (auto simp: array_step_def wyArrayDeleteIndex_def list_at_def)
qed

lemma array_step_delete_obj: "unlocked_ok a \<Longrightarrow> array_step (DeleteObj x) a"
  using wyArrayDeleteObj_ok [of a x None] by (auto simp: array_step_def unlocked_ok_def delete_match_remove1)

lemma array_step_pop:
  assumes "unlocked_ok a"
  shows "array_step Pop a"
proof (cases "elems a" rule: rev_cases)
  case Nil
  then show ?thesis using assms wyArrayPop_empty [of a] by (auto simp: array_step_def unlocked_ok_def pop_some_def)
next
  case (snoc xs x)
  then show ?thesis using wy_array.pop [OF assms, of xs x] by (auto simp: array_step_def)
qed

lemma array_step_read:
  assumes "unlocked_ok a"
  shows "array_step Peek a" "array_step (Get i) a" "array_step (IndexOf x) a"
  using assms wyArrayPeek_ok [of a] wyArrayGet_ok [of a i] wyArrayIndexOf_ok [of a x None] first_match_mem [of x "elems a"]
  by (auto simp: array_step_def unlocked_ok_def list_at_def Let_def first_match_def array_match_def)

lemma array_step_clear: "unlocked_ok a \<Longrightarrow> array_step Clear a"
  using wyArrayClear_ok [of a] by (auto simp: array_step_def unlocked_ok_def)

lemma array_step: "unlocked_ok a \<Longrightarrow> length (elems a) < array_limit \<Longrightarrow> array_step c a"
  by (cases c) (simp_all add: array_step_push array_step_insert array_step_delete array_step_delete_obj
      array_step_pop array_step_read array_step_clear)

lemma list_call_length: "length (snd (list_call c xs)) \<le> Suc (length xs)"
  by (cases c) (auto simp: length_remove1)

text \<open>
  C11: Any sequence of calls on an unlocked array gives exactly the answers and the final contents
  that the same calls give on a list, as long as the array stays below \<open>2 ^ 29\<close> elements; indices
  outside the array (negative ones included) answer \<open>NULL\<close> and change nothing.
\<close>

theorem wyArray_calls_refine:
  assumes "array_ok a" "\<not> locked a" "length (elems a) + length cs \<le> array_limit"
  shows "\<exists>a'. array_calls cs a = Some (fst (list_calls cs (elems a)), a') \<and> array_ok a' \<and> \<not> locked a' \<and>
    elems a' = snd (list_calls cs (elems a))"
  using assms
proof (induction cs arbitrary: a)
  case (Cons c cs)
  then have "array_step c a" by (intro array_step) (simp_all add: unlocked_ok_def)
  then obtain a1 where a1: "array_call c a = Some (fst (list_call c (elems a)), a1)" "unlocked_ok a1"
    "elems a1 = snd (list_call c (elems a))"
    by (auto simp: array_step_def)
  moreover have "length (elems a1) + length cs \<le> array_limit"
    using list_call_length [of c "elems a"] a1(3) Cons.prems(3) by simp
  ultimately show ?case using Cons.IH [of a1] by (auto simp: unlocked_ok_def Let_def case_prod_beta)
qed simp

definition two_of_four :: "nat wyArray" where
  "two_of_four = \<lparr>num = 2, max_size = 4, cells = [Some (Some 7), Some None, None, None], locked = False\<rparr>"

lemma two_of_four: "array_ok two_of_four" "elems two_of_four = [Some 7, None]" "\<not> locked two_of_four"
  by (simp_all add: two_of_four_def array_ok_def elems_def)

lemma wyArray_calls_refine_witness:
  "\<exists>a'. array_calls [Push (Some 9), Insert (Some 3) 1, DeleteIndex (-1), DeleteObj (Some 7), Pop] two_of_four =
    Some ([Nothing, Nothing, Pointer None, Pointer (Some 7), Pointer (Some 9)], a') \<and> elems a' = [Some 3, None]"
  using wyArray_calls_refine [of two_of_four "[Push (Some 9), Insert (Some 3) 1, DeleteIndex (-1), DeleteObj (Some 7), Pop]"]
  by (auto simp: two_of_four list_at_def)

section \<open>Iteration under the lock\<close>

text \<open>A fold that stops at the first element for which the callback answers false.\<close>

fun fold_until :: "('p ptr \<Rightarrow> nat \<Rightarrow> 's \<Rightarrow> 's \<times> bool) \<Rightarrow> nat \<Rightarrow> 'p ptr list \<Rightarrow> 's \<Rightarrow> 's" where
  "fold_until g i [] s = s"
| "fold_until g i (x # xs) s =
     (if snd (g x i s) then fold_until g (Suc i) xs (fst (g x i s)) else fst (g x i s))"

text \<open>An iterator that makes a call on the array and ignores the answer.\<close>

definition calling :: "('p ptr \<Rightarrow> nat \<Rightarrow> 's \<Rightarrow> 'p array_request) \<Rightarrow> ('p ptr \<Rightarrow> nat \<Rightarrow> 's \<Rightarrow> 's \<times> bool) \<Rightarrow>
    ('p, 's) array_iterator" where
  "calling h g a x i s = do { (_, a1) \<leftarrow> array_call (h x i s) a; Some (a1, g x i s) }"

lemma locked_call:
  assumes "array_ok a" "locked a" "c \<noteq> Clear"
  shows "\<exists>r. array_call c a = Some (r, a)"
  using assms locked_refuses [of a] wyArrayPeek_ok [of a] wyArrayGet_ok [of a] wyArrayIndexOf_ok [of a]
  by (cases c) (auto simp: pop_some_def)

lemma each_from_unchanging:
  assumes "array_ok a" "\<And>x i s. f a x i s = Some (a, g x i s)"
  shows "i \<le> num a \<Longrightarrow> each_from f i a s = Some (a, fold_until g i (drop i (elems a)) s)"
proof (induction "num a - i" arbitrary: i s)
  case 0
  then show ?case using length_elems [OF assms(1)] by (simp add: each_from.simps)
next
  case (Suc n)
  then have i: "i < num a" by simp
  let ?x = "elems a ! i"
  have d: "drop i (elems a) = ?x # drop (Suc i) (elems a)"
    using i length_elems [OF assms(1)] by (simp add: Cons_nth_drop_Suc)
  have "each_from f (Suc i) a s' = Some (a, fold_until g (Suc i) (drop (Suc i) (elems a)) s')" for s'
    using Suc by (intro Suc.hyps(1)) simp_all
  then show ?case using i cell_elems [OF assms(1) i] by (subst each_from.simps) (simp add: d assms(2))
qed

lemma calling_locked:
  "array_ok a \<Longrightarrow> locked a \<Longrightarrow> (\<And>x i s. h x i s \<noteq> Clear) \<Longrightarrow> calling h g a x i s = Some (a, g x i s)"
  using locked_call [of a "h x i s"] by (auto simp: calling_def)

text \<open>
  While \<open>wyArrayEach\<close> runs, every call its iterator makes on the array, but \<open>wyArrayClear\<close>, is
  refused: the iterator sees each element of the original array once and in order, up to the first
  one it answers false for, and the array comes out with the same elements and unlocked.
\<close>

theorem wyArrayEach_locked:
  assumes "array_ok a" "\<And>x i s. h x i s \<noteq> Clear"
  shows "wyArrayEach (calling h g) a s = Some (a\<lparr>locked := False\<rparr>, fold_until g 0 (elems a) s)"
proof -
  have "calling h g (a\<lparr>locked := True\<rparr>) x i s = Some (a\<lparr>locked := True\<rparr>, g x i s)" for x i s
    by (rule calling_locked) (simp_all add: assms)
  then show ?thesis using each_from_unchanging [of "a\<lparr>locked := True\<rparr>" "calling h g" g 0 s] assms(1)
    by (simp add: wyArrayEach_def)
qed

lemma wyArrayEach_locked_witness:
  "wyArrayEach (calling (\<lambda>x i s. Push x) (\<lambda>x i s. (s @ [x], True))) two_of_four [] =
    Some (two_of_four, [Some 7, None])"
proof -
  have "two_of_four\<lparr>locked := False\<rparr> = two_of_four" by (simp add: two_of_four_def)
  then show ?thesis
    using wyArrayEach_locked [OF two_of_four(1), of "\<lambda>x i s. Push x" "\<lambda>x i s. (s @ [x], True)" "[]"]
    by (simp add: two_of_four)
qed

text \<open>
  The lock is a flag and not a count: an iteration nested in another one on the same array
  resets it, so that a push later in the outer iterator takes effect while the outer iteration is
  still running.
\<close>

theorem wyArrayEach_nested_unlocks:
  fixes s :: 's and a :: "'p wyArray"
  assumes "array_ok a" "num a < array_limit" "elems a \<noteq> []"
  shows "\<exists>a'. wyArrayEach (\<lambda>a x i s. do { (a1, _) \<leftarrow> wyArrayEach (\<lambda>a x i s. Some (a, s, True)) a s;
                                        a2 \<leftarrow> wyArrayPush a1 y; Some (a2, s, False) }) a s = Some (a', s) \<and>
    elems a' = elems a @ [y]"
proof -
  let ?u = "a\<lparr>locked := False\<rparr>"
  have inner: "wyArrayEach (\<lambda>a x i s. Some (a, s, True)) (a\<lparr>locked := True\<rparr>) s' = Some (?u, s'')"
    if "s'' = fold_until (\<lambda>x i s. (s, True)) 0 (elems a) s'" for s' s'' :: 's
    using each_from_unchanging [of "a\<lparr>locked := True\<rparr>" "\<lambda>a x i s. Some (a, s, True)" "\<lambda>x i s. (s, True)" 0 s'] assms(1) that
    by (simp add: wyArrayEach_def)
  have same: "fold_until (\<lambda>x i s. (s, True)) k xs s' = s'" for k and xs :: "'p ptr list" and s' :: 's
    by (induction xs arbitrary: k) simp_all
  obtain a2 where a2: "wyArrayPush ?u y = Some a2" "elems a2 = elems a @ [y]"
    using wyArrayPush_ok [of ?u y] assms by auto
  have n: "0 < num a" using assms(3) length_elems [OF assms(1)] by (cases "num a") auto
  obtain x where x: "rd (cells a) 0 = Some (Some x)" using cell_elems [OF assms(1) n] by blast
  then show ?thesis
    by (intro exI [of _ "a2\<lparr>locked := False\<rparr>"])
      (simp add: wyArrayEach_def [of _ a] each_from.simps [of _ 0] n inner [OF refl] same a2 del: rd_in)
qed

lemma wyArrayEach_nested_unlocks_witness:
  "\<exists>a'. wyArrayEach (\<lambda>a x i s. do { (a1, _) \<leftarrow> wyArrayEach (\<lambda>a x i s. Some (a, s, True)) a s;
                                        a2 \<leftarrow> wyArrayPush a1 (Some 5); Some (a2, s, False) }) two_of_four () = Some (a', ()) \<and>
    elems a' = [Some 7, None, Some 5]"
  using wyArrayEach_nested_unlocks [of two_of_four "Some 5" "()"] two_of_four by (auto simp: two_of_four_def)

section \<open>Two arrays\<close>

text \<open>
  Pushing all of an array onto another appends its elements in order, and removing all elements
  of one array from another removes the first occurrence of each in turn.
\<close>

theorem wyArrayPushAll_RemoveAllIn:
  assumes "array_ok a" "array_ok b" "\<not> locked b" "length (elems a) + length (elems b) \<le> array_limit"
  shows "\<exists>c d. wyArrayPushAll a b = Some c \<and> elems c = elems b @ elems a \<and>
    wyArrayRemoveAllIn c a = Some d \<and> elems d = fold remove1 (elems a) (elems c) \<and> array_ok d"
proof -
  have n: "num a = length (elems a)" using length_elems [OF assms(1)] by simp
  have push: "\<exists>c. push_all_from i a b' = Some c \<and> unlocked_ok c \<and> elems c = elems b' @ drop i (elems a)"
    if "unlocked_ok b'" "i \<le> num a" "length (elems b') + (num a - i) \<le> array_limit" for i b'
    using that
  proof (induction "num a - i" arbitrary: i b')
    case 0
    then show ?case using n by (subst push_all_from.simps) simp
  next
    case (Suc m)
    then have i: "i < num a" by simp
    have "length (elems b') < array_limit" using Suc.prems(3) i by linarith
    then obtain b1 where b1: "wyArrayPush b' (elems a ! i) = Some b1" "unlocked_ok b1" "elems b1 = elems b' @ [elems a ! i]"
      using wy_array.push [OF Suc.prems(1), of "elems a ! i"] by auto
    have "\<exists>c. push_all_from (Suc i) a b1 = Some c \<and> unlocked_ok c \<and> elems c = elems b1 @ drop (Suc i) (elems a)"
      using Suc b1 by (intro Suc.hyps(1)) simp_all
    then show ?case using i n b1 assms(1)
      by (subst push_all_from.simps) (simp add: wyArrayGet_ok Cons_nth_drop_Suc)
  qed
  have rem: "\<exists>d. remove_all_from i c a = Some d \<and> unlocked_ok d \<and> elems d = fold remove1 (drop i (elems a)) (elems c)"
    if "unlocked_ok c" "i \<le> num a" for i c
    using that
  proof (induction "num a - i" arbitrary: i c)
    case 0
    then show ?case using n by (subst remove_all_from.simps) simp
  next
    case (Suc m)
    then have i: "i < num a" by simp
    obtain c1 r where c1: "wyArrayDeleteObj c (elems a ! i) None = Some (r, c1)" "unlocked_ok c1" "elems c1 = remove1 (elems a ! i) (elems c)"
      using array_step_delete_obj [OF Suc.prems(1), of "elems a ! i"]
      by (auto simp: array_step_def Option.bind_eq_Some_conv)
    have "\<exists>d. remove_all_from (Suc i) c1 a = Some d \<and> unlocked_ok d \<and> elems d = fold remove1 (drop (Suc i) (elems a)) (elems c1)"
      using Suc c1 by (intro Suc.hyps(1)) simp_all
    moreover have "drop i (elems a) = elems a ! i # drop (Suc i) (elems a)" using i n by (simp add: Cons_nth_drop_Suc)
    ultimately show ?case using i n c1 assms(1)
      by (subst remove_all_from.simps) (simp add: wyArrayGet_ok)
  qed
  obtain c where c: "wyArrayPushAll a b = Some c" "unlocked_ok c" "elems c = elems b @ elems a"
    using push [of b 0] assms n by (auto simp: wyArrayPushAll_def unlocked_ok_def)
  then show ?thesis using rem [of c 0] by (auto simp: wyArrayRemoveAllIn_def unlocked_ok_def)
qed

lemma wyArrayPushAll_RemoveAllIn_witness:
  "\<exists>c d. wyArrayPushAll two_of_four two_of_four = Some c \<and> elems c = [Some 7, None, Some 7, None] \<and>
    wyArrayRemoveAllIn c two_of_four = Some d \<and> elems d = [Some 7, None]"
  using wyArrayPushAll_RemoveAllIn [of two_of_four two_of_four] two_of_four by auto

text \<open>
  Pushing all of a nonempty unlocked array onto itself never comes to an end: the loop's bound
  grows with every push (and past \<open>2 ^ 29\<close> elements the size given to \<open>realloc\<close> wraps).
\<close>

theorem wyArrayPushAll_self_diverges:
  assumes "array_ok a" "\<not> locked a" "elems a \<noteq> []"
  shows "push_all_self 0 a = None"
proof -
  have grow: "array_ok a1 \<and> \<not> locked a1 \<and> num a1 = Suc (num b)"
    if "array_ok b" "\<not> locked b" "wyArrayPush b y = Some a1" for b a1 :: "'a wyArray" and y
    using that by (auto simp: wyArrayPush_def array_ensure_def array_grow_def Let_def array_ok_def Option.bind_eq_Some_conv
        wr_def take_Suc_conv_app_nth split: if_splits)
  have "push_all_self i b = None" if "array_ok b" "\<not> locked b" "i < num b" for i and b :: "'a wyArray"
    using that
  proof (induction "size_mod - num b" arbitrary: i b rule: less_induct)
    case less
    show ?case
    proof (cases "wyArrayPush b (elems b ! i)")
      case None
      then show ?thesis using less.prems length_elems [OF less.prems(1)] by (subst push_all_self.simps) (simp add: wyArrayGet_ok)
    next
      case (Some a1)
      note g = grow [OF less.prems(1,2) Some]
      then have "num b < size_mod" using less.prems(1) by (simp add: array_ok_def)
      then have "push_all_self (Suc i) a1 = None" using g less by (intro less.hyps) simp_all
      then show ?thesis using Some less.prems length_elems [OF less.prems(1)]
        by (subst push_all_self.simps) (simp add: wyArrayGet_ok)
    qed
  qed
  moreover have "0 < num a" using assms(3) length_elems [OF assms(1)] by (cases "num a") auto
  ultimately show ?thesis using assms(1,2) by blast
qed

lemma wyArrayPushAll_self_diverges_witness: "push_all_self 0 two_of_four = None"
  by (rule wyArrayPushAll_self_diverges) (simp_all add: two_of_four)

end
