(* ===== verification/Wy_HashSet.thy ===== *)
theory Wy_HashSet imports Wy_Array "HOL-Library.Multiset" begin

text \<open>
  The chained hash set of \<open>WiEngine/impl/common/wyHashSet.cpp\<close>. A bin has an identity (the buffer it
  was carved from and its index there), the hash it was inserted with and an element; a chain is
  the list of its bins from \<open>table[i]\<close> along \<open>next\<close>, and so are the recycled bins. The callbacks
  \<open>eql\<close>, \<open>trans\<close> and the iterators do not touch the hs. \<open>None\<close> is no defined result.
\<close>

section \<open>Prime sizes\<close>

definition primes :: "int list" where
  "primes = [5, 13, 23, 47, 97, 193, 389, 769, 1543, 3079, 6151, 12289, 24593, 49157, 98317, 196613,
     393241, 786433, 1572869, 3145739, 6291469, 12582917, 25165843, 50331653, 100663319, 201326611,
     402653189, 805306457, 1610612741, 0]"

text \<open>The loop stops at the first entry \<open>n\<close> is not above; behind the final 0 there is no entry.\<close>

fun next_prime_in :: "int list \<Rightarrow> int \<Rightarrow> int option" where
  "next_prime_in [] n = None"
| "next_prime_in (p # ps) n = (if p < n then next_prime_in ps n else Some p)"

definition next_prime :: "int \<Rightarrow> int option" where
  "next_prime n = next_prime_in primes n"

section \<open>The structure\<close>

record 'e wyHashSetBin =
  bin_id :: "nat \<times> nat"
  elt :: "'e ptr"
  hash :: nat

record ('k, 'd, 'e) wyHashSet =
  entries :: nat
  table_size :: nat
  eql :: "'k \<Rightarrow> 'e ptr \<Rightarrow> bool"
  trans_func :: "'k \<Rightarrow> 'd \<Rightarrow> 'e ptr"
  default_value :: "'e ptr"
  table :: "'e wyHashSetBin list list"
  pooledBins :: "'e wyHashSetBin list"
  allocatedBuffers :: "nat wyArray"

text \<open>\<open>BUFFER_BYTES / sizeof(wyHashSetBin)\<close>: 12 bytes per bin on 32 bits.\<close>

definition bins_per_buffer :: nat where
  "bins_per_buffer = 32 * 1024 div 12"

definition recycleBin :: "('k, 'd, 'e) wyHashSet \<Rightarrow> 'e wyHashSetBin \<Rightarrow> ('k, 'd, 'e) wyHashSet" where
  "recycleBin hs bin = hs\<lparr>pooledBins := bin\<lparr>elt := None\<rparr> # pooledBins hs\<rparr>"

text \<open>A bin from the pool; an empty pool is refilled with the bins of a new buffer but the first.\<close>

definition new_bin :: "nat \<Rightarrow> nat \<Rightarrow> 'e wyHashSetBin" where
  "new_bin b i = \<lparr>bin_id = (b, i), elt = None, hash = 0\<rparr>"

definition getUnusedBin :: "('k, 'd, 'e) wyHashSet \<Rightarrow> ('e wyHashSetBin \<times> ('k, 'd, 'e) wyHashSet) option" where
  "getUnusedBin hs =
     (case pooledBins hs of
        bin # pool \<Rightarrow> Some (bin, hs\<lparr>pooledBins := pool\<rparr>)
      | [] \<Rightarrow>
          do { let b = num (allocatedBuffers hs);
               buffers \<leftarrow> wyArrayPush (allocatedBuffers hs) (Some b);
               Some (new_bin b 0,
                 fold (\<lambda>i s. recycleBin s (new_bin b i)) [1..<bins_per_buffer] (hs\<lparr>allocatedBuffers := buffers\<rparr>)) })"

definition setIsFull :: "('k, 'd, 'e) wyHashSet \<Rightarrow> bool" where
  "setIsFull hs \<longleftrightarrow> table_size hs \<le> entries hs"

text \<open>\<open>calloc\<close> of a table of \<open>n\<close> pointers.\<close>

definition table_calloc :: "int \<Rightarrow> 'e wyHashSetBin list list option" where
  "table_calloc n = (if 0 < n \<and> 4 * n < int size_mod then Some (replicate (nat n) []) else None)"

definition wyHashSetNew ::
  "int \<Rightarrow> ('k \<Rightarrow> 'e ptr \<Rightarrow> bool) \<Rightarrow> ('k \<Rightarrow> 'd \<Rightarrow> 'e ptr) \<Rightarrow> ('k, 'd, 'e) wyHashSet option" where
  "wyHashSetNew sz eqlFunc transFunc =
     do { n \<leftarrow> next_prime sz;
          t \<leftarrow> table_calloc n;
          buffers \<leftarrow> wyArrayNew 0;
          Some \<lparr>entries = 0, table_size = nat n, eql = eqlFunc, trans_func = transFunc, default_value = None,
                table = t, pooledBins = [], allocatedBuffers = buffers\<rparr> }"

text \<open>\<open>wyHashSetDestroy\<close>: the buffers it frees, in order.\<close>

definition wyHashSetDestroy :: "('k, 'd, 'e) wyHashSet \<Rightarrow> nat ptr list option" where
  "wyHashSetDestroy hs =
     do { r \<leftarrow> wyArrayEach (\<lambda>a buffer i freed. Some (a, freed @ [buffer], True)) (allocatedBuffers hs) [];
          Some (snd r) }"

section \<open>Growing\<close>

text \<open>The bins of one chain, in order, to the front of their chains in the new table.\<close>

fun rehash_chain :: "nat \<Rightarrow> 'e wyHashSetBin list \<Rightarrow> 'e wyHashSetBin list list \<Rightarrow> 'e wyHashSetBin list list option" where
  "rehash_chain newSize [] t = Some t"
| "rehash_chain newSize (bin # bins) t =
     do { chain \<leftarrow> rd t (hash bin mod newSize);
          t1 \<leftarrow> wr t (hash bin mod newSize) (bin # chain);
          rehash_chain newSize bins t1 }"

fun rehash :: "nat \<Rightarrow> 'e wyHashSetBin list list \<Rightarrow> 'e wyHashSetBin list list \<Rightarrow> 'e wyHashSetBin list list option" where
  "rehash newSize [] t = Some t"
| "rehash newSize (chain # chs) t = do { t1 \<leftarrow> rehash_chain newSize chain t; rehash newSize chs t1 }"

definition wyHashSetResize :: "('k, 'd, 'e) wyHashSet \<Rightarrow> ('k, 'd, 'e) wyHashSet option" where
  "wyHashSetResize hs =
     do { newSize \<leftarrow> next_prime (int (table_size hs) + 1);
          newTable \<leftarrow> table_calloc newSize;
          t \<leftarrow> rehash (nat newSize) (table hs) newTable;
          Some (hs\<lparr>table := t, table_size := nat newSize\<rparr>) }"

section \<open>Lookup, insertion and removal\<close>

text \<open>\<open>while(bin && !eqlFunc(ptr, bin->elt)) bin = bin->next\<close>\<close>

fun find_bin :: "('k \<Rightarrow> 'e ptr \<Rightarrow> bool) \<Rightarrow> 'k \<Rightarrow> 'e wyHashSetBin list \<Rightarrow> 'e wyHashSetBin option" where
  "find_bin eqlFunc ptr [] = None"
| "find_bin eqlFunc ptr (bin # bins) = (if eqlFunc ptr (elt bin) then Some bin else find_bin eqlFunc ptr bins)"

definition wyHashSetCustomInsert ::
  "('k, 'd, 'e) wyHashSet \<Rightarrow> nat \<Rightarrow> 'k \<Rightarrow> 'd \<Rightarrow> ('k \<Rightarrow> 'd \<Rightarrow> 'e ptr) \<Rightarrow> ('k \<Rightarrow> 'e ptr \<Rightarrow> bool) \<Rightarrow>
   ('e ptr \<times> ('k, 'd, 'e) wyHashSet) option" where
  "wyHashSetCustomInsert hs hsh ptr data transFunc eqlFunc =
     do { let idx = hsh mod table_size hs;
          chain \<leftarrow> rd (table hs) idx;
          case find_bin eqlFunc ptr chain of
            Some bin \<Rightarrow> Some (elt bin, hs)
          | None \<Rightarrow>
              do { (unused, s1) \<leftarrow> getUnusedBin hs;
                   let bin = unused\<lparr>hash := hsh, elt := transFunc ptr data\<rparr>;
                   chain1 \<leftarrow> rd (table s1) idx;
                   t \<leftarrow> wr (table s1) idx (bin # chain1);
                   let s2 = s1\<lparr>table := t, entries := Suc (entries s1)\<rparr>;
                   s3 \<leftarrow> (if setIsFull s2 then wyHashSetResize s2 else Some s2);
                   Some (elt bin, s3) } }"

definition wyHashSetInsert ::
  "('k, 'd, 'e) wyHashSet \<Rightarrow> nat \<Rightarrow> 'k \<Rightarrow> 'd \<Rightarrow> ('e ptr \<times> ('k, 'd, 'e) wyHashSet) option" where
  "wyHashSetInsert hs hsh ptr data = wyHashSetCustomInsert hs hsh ptr data (trans_func hs) (eql hs)"

text \<open>The loop of the removal: the bin found, if any, and the chain without it.\<close>

fun unlink_bin :: "('k \<Rightarrow> 'e ptr \<Rightarrow> bool) \<Rightarrow> 'k \<Rightarrow> 'e wyHashSetBin list \<Rightarrow>
    ('e wyHashSetBin \<times> 'e wyHashSetBin list) option" where
  "unlink_bin eqlFunc ptr [] = None"
| "unlink_bin eqlFunc ptr (bin # bins) =
     (if eqlFunc ptr (elt bin) then Some (bin, bins)
      else map_option (\<lambda>r. (fst r, bin # snd r)) (unlink_bin eqlFunc ptr bins))"

definition wyHashSetCustomRemove ::
  "('k, 'd, 'e) wyHashSet \<Rightarrow> nat \<Rightarrow> 'k \<Rightarrow> ('k \<Rightarrow> 'e ptr \<Rightarrow> bool) \<Rightarrow> ('e ptr \<times> ('k, 'd, 'e) wyHashSet) option" where
  "wyHashSetCustomRemove hs hsh ptr eqlFunc =
     do { let idx = hsh mod table_size hs;
          chain \<leftarrow> rd (table hs) idx;
          case unlink_bin eqlFunc ptr chain of
            None \<Rightarrow> Some (None, hs)
          | Some (bin, rest) \<Rightarrow>
              do { t \<leftarrow> wr (table hs) idx rest;
                   Some (elt bin, recycleBin (hs\<lparr>table := t, entries := entries hs - 1\<rparr>) bin) } }"

definition wyHashSetRemove ::
  "('k, 'd, 'e) wyHashSet \<Rightarrow> nat \<Rightarrow> 'k \<Rightarrow> ('e ptr \<times> ('k, 'd, 'e) wyHashSet) option" where
  "wyHashSetRemove hs hsh ptr = wyHashSetCustomRemove hs hsh ptr (eql hs)"

definition wyHashSetCustomFind ::
  "('k, 'd, 'e) wyHashSet \<Rightarrow> nat \<Rightarrow> 'k \<Rightarrow> ('k \<Rightarrow> 'e ptr \<Rightarrow> bool) \<Rightarrow> 'e ptr option" where
  "wyHashSetCustomFind hs hsh ptr eqlFunc =
     do { chain \<leftarrow> rd (table hs) (hsh mod table_size hs);
          Some (case find_bin eqlFunc ptr chain of Some bin \<Rightarrow> elt bin | None \<Rightarrow> default_value hs) }"

definition wyHashSetFind :: "('k, 'd, 'e) wyHashSet \<Rightarrow> nat \<Rightarrow> 'k \<Rightarrow> 'e ptr option" where
  "wyHashSetFind hs hsh ptr = wyHashSetCustomFind hs hsh ptr (eql hs)"

section \<open>Iteration\<close>

text \<open>The callback answers whether to go on; one chain, then the chains from index \<open>i\<close>.\<close>

fun each_bin :: "('e ptr \<Rightarrow> 's \<Rightarrow> bool \<times> 's) \<Rightarrow> 'e wyHashSetBin list \<Rightarrow> 's \<Rightarrow> bool \<times> 's" where
  "each_bin func [] data = (False, data)"
| "each_bin func (bin # bins) data =
     (let (more, data1) = func (elt bin) data in if more then each_bin func bins data1 else (True, data1))"

fun each_chain :: "('e ptr \<Rightarrow> 's \<Rightarrow> bool \<times> 's) \<Rightarrow> 'e wyHashSetBin list list \<Rightarrow> 's \<Rightarrow> 's" where
  "each_chain func [] data = data"
| "each_chain func (chain # chs) data =
     (let (satisfied, data1) = each_bin func chain data in if satisfied then data1 else each_chain func chs data1)"

definition wyHashSetEach :: "('k, 'd, 'e) wyHashSet \<Rightarrow> ('e ptr \<Rightarrow> 's \<Rightarrow> bool \<times> 's) \<Rightarrow> 's \<Rightarrow> 's" where
  "wyHashSetEach hs func data = each_chain func (take (table_size hs) (table hs)) data"

text \<open>The filter on one chain: the bins it keeps, and the set with the others recycled.\<close>

fun filter_chain :: "('e ptr \<Rightarrow> 's \<Rightarrow> bool \<times> 's) \<Rightarrow> 'e wyHashSetBin list \<Rightarrow> ('k, 'd, 'e) wyHashSet \<Rightarrow> 's \<Rightarrow>
    'e wyHashSetBin list \<times> ('k, 'd, 'e) wyHashSet \<times> 's" where
  "filter_chain func [] hs data = ([], hs, data)"
| "filter_chain func (bin # bins) hs data =
     (let (keep, data1) = func (elt bin) data in
      if keep then (let (kept, r) = filter_chain func bins hs data1 in (bin # kept, r))
      else filter_chain func bins (recycleBin (hs\<lparr>entries := entries hs - 1\<rparr>) bin) data1)"

fun filter_chains :: "('e ptr \<Rightarrow> 's \<Rightarrow> bool \<times> 's) \<Rightarrow> nat list \<Rightarrow> ('k, 'd, 'e) wyHashSet \<Rightarrow> 's \<Rightarrow>
    (('k, 'd, 'e) wyHashSet \<times> 's) option" where
  "filter_chains func [] hs data = Some (hs, data)"
| "filter_chains func (i # is) hs data =
     do { chain \<leftarrow> rd (table hs) i;
          let (kept, s1, data1) = filter_chain func chain hs data;
          t \<leftarrow> wr (table s1) i kept;
          filter_chains func is (s1\<lparr>table := t\<rparr>) data1 }"

definition wyHashSetFilter :: "('k, 'd, 'e) wyHashSet \<Rightarrow> ('e ptr \<Rightarrow> 's \<Rightarrow> bool \<times> 's) \<Rightarrow> 's \<Rightarrow>
    (('k, 'd, 'e) wyHashSet \<times> 's) option" where
  "wyHashSetFilter hs func data = filter_chains func [0..<table_size hs] hs data"

section \<open>The invariant\<close>

definition chains_ok :: "nat \<Rightarrow> 'e wyHashSetBin list list \<Rightarrow> bool" where
  "chains_ok n t \<longleftrightarrow> length t = n \<and> (\<forall>i<n. \<forall>b\<in>set (t ! i). hash b mod n = i)"

definition bins :: "('k, 'd, 'e) wyHashSet \<Rightarrow> 'e wyHashSetBin multiset" where
  "bins hs = mset (concat (table hs))"

text \<open>The identities of all bins of the first \<open>n\<close> buffers.\<close>

definition bin_ids :: "nat \<Rightarrow> (nat \<times> nat) multiset" where
  "bin_ids n = mset (List.product [0..<n] [0..<bins_per_buffer])"

text \<open>Every allocated bin is in exactly one chain, or in the pool.\<close>

definition bins_ok :: "('k, 'd, 'e) wyHashSet \<Rightarrow> bool" where
  "bins_ok hs \<longleftrightarrow>
     unlocked_ok (allocatedBuffers hs) \<and>
     elems (allocatedBuffers hs) = map Some [0..<num (allocatedBuffers hs)] \<and>
     image_mset bin_id (bins hs) + image_mset bin_id (mset (pooledBins hs)) = bin_ids (num (allocatedBuffers hs))"

definition hashset_ok :: "('k, 'd, 'e) wyHashSet \<Rightarrow> bool" where
  "hashset_ok hs \<longleftrightarrow>
     int (table_size hs) \<in> set primes \<and> 0 < table_size hs \<and> chains_ok (table_size hs) (table hs) \<and>
     entries hs = size (bins hs) \<and> entries hs < table_size hs \<and> bins_ok hs"

text \<open>The table can grow below this size: the next one must not overflow \<open>calloc\<close>.\<close>

abbreviation table_limit :: nat where "table_limit \<equiv> 805306457"

text \<open>Below this many entries an insertion never has to grow a table of the limit's size.\<close>

abbreviation entry_limit :: nat where "entry_limit \<equiv> 402653189"

section \<open>Sizes\<close>

lemma next_prime_in_spec:
  "\<exists>p\<in>set ps. n \<le> p \<Longrightarrow> sorted ps \<Longrightarrow>
   \<exists>p. next_prime_in ps n = Some p \<and> p \<in> set ps \<and> n \<le> p \<and> (\<forall>q\<in>set ps. n \<le> q \<longrightarrow> p \<le> q)"
  by (induction ps) force+

lemma primes_bounds: "p \<in> set primes \<Longrightarrow> 0 \<le> p \<and> p \<le> 1610612741"
  by (auto simp: primes_def)

lemma next_prime_Some:
  assumes "n \<le> 1610612741"
  shows "\<exists>p. next_prime n = Some p \<and> p \<in> set primes \<and> 0 < p \<and> n \<le> p \<and> (\<forall>q\<in>set primes. 0 < q \<and> n \<le> q \<longrightarrow> p \<le> q)"
proof -
  have s: "next_prime_in (ps @ [0]) n = next_prime_in ps n" if "\<exists>p\<in>set ps. n \<le> p" for ps
    using that by (induction ps) auto
  have p: "primes = butlast primes @ [0]" by (simp add: primes_def)
  have e: "\<exists>p\<in>set (butlast primes). n \<le> p" using assms by (simp add: primes_def)
  have "sorted (butlast primes)" by (simp add: primes_def)
  from next_prime_in_spec [OF e this] obtain q where q: "next_prime_in (butlast primes) n = Some q"
    "q \<in> set (butlast primes)" "n \<le> q" "\<forall>r\<in>set (butlast primes). n \<le> r \<longrightarrow> q \<le> r"
    by blast
  have "next_prime n = Some q" unfolding next_prime_def by (subst p) (use s [OF e] q(1) in simp)
  moreover have "r \<in> set (butlast primes) \<longleftrightarrow> r \<in> set primes \<and> 0 < r" for r by (auto simp: primes_def)
  ultimately show ?thesis using q by (intro exI [of _ q]) auto
qed

lemma next_prime_None: "1610612741 < n \<Longrightarrow> next_prime n = None"
  by (simp add: next_prime_def primes_def)

lemma next_size:
  assumes "int n \<in> set primes" "n < table_limit"
  shows "\<exists>m. next_prime (int n + 1) = Some (int m) \<and> n < m \<and> int m \<in> set primes \<and> 0 < m \<and> 4 * m < size_mod"
proof -
  have n: "int n \<le> 402653189" using assms by (auto simp: primes_def)
  then obtain p where p: "next_prime (int n + 1) = Some p" "p \<in> set primes" "0 < p" "int n + 1 \<le> p"
    "\<forall>q\<in>set primes. 0 < q \<and> int n + 1 \<le> q \<longrightarrow> p \<le> q"
    using next_prime_Some [of "int n + 1"] by auto
  have "p \<le> 805306457" using p(5) n by (simp add: primes_def)
  then show ?thesis using p by (intro exI [of _ "nat p"]) auto
qed

section \<open>Tables\<close>

lemma mset_concat_update:
  "i < length t \<Longrightarrow> mset (concat (t[i := c])) + mset (t ! i) = mset (concat t) + mset c"
proof (induction t arbitrary: i)
  case (Cons x t)
  then show ?case by (cases i) auto
qed simp

lemma mset_concat_push: "i < length t \<Longrightarrow> mset (concat (t[i := b # t ! i])) = add_mset b (mset (concat t))"
  using mset_concat_update [of i t "b # t ! i"] by simp

lemma rehash_chain_ok:
  "0 < n \<Longrightarrow> chains_ok n t \<Longrightarrow>
   \<exists>t'. rehash_chain n bs t = Some t' \<and> chains_ok n t' \<and> mset (concat t') = mset bs + mset (concat t)"
proof (induction bs arbitrary: t)
  case (Cons b bs)
  let ?i = "hash b mod n"
  have i: "?i < length t" using Cons.prems by (simp add: chains_ok_def)
  have "chains_ok n (t[?i := b # t ! ?i])" using Cons.prems i by (auto simp: chains_ok_def nth_list_update)
  from Cons.IH [OF Cons.prems(1) this] show ?case using i by (auto simp: mset_concat_push)
qed simp

lemma rehash_ok:
  "0 < n \<Longrightarrow> chains_ok n t \<Longrightarrow>
   \<exists>t'. rehash n cs t = Some t' \<and> chains_ok n t' \<and> mset (concat t') = mset (concat cs) + mset (concat t)"
proof (induction cs arbitrary: t)
  case (Cons c cs)
  obtain t1 where "rehash_chain n c t = Some t1" "chains_ok n t1" "mset (concat t1) = mset c + mset (concat t)"
    using rehash_chain_ok [OF Cons.prems] by blast
  then show ?case using Cons.IH [OF Cons.prems(1), of t1] by auto
qed simp

lemma wyHashSetResize_ok:
  assumes "int (table_size hs) \<in> set primes" "table_size hs < table_limit" 
  shows "\<exists>t m. wyHashSetResize hs = Some (hs\<lparr>table := t, table_size := m\<rparr>) \<and> table_size hs < m \<and>
    int m \<in> set primes \<and> chains_ok m t \<and> mset (concat t) = bins hs"
proof -
  obtain m where m: "next_prime (int (table_size hs) + 1) = Some (int m)" "table_size hs < m"
    "int m \<in> set primes" "0 < m" "4 * m < size_mod"
    using next_size [OF assms] by blast
  have "chains_ok m (replicate m [])" by (simp add: chains_ok_def)
  from rehash_ok [OF m(4) this] obtain t where t: "rehash m (table hs) (replicate m []) = Some t" "chains_ok m t"
    "mset (concat t) = mset (concat (table hs)) + mset (concat (replicate m []))"
    by blast
  have "concat (replicate m []) = []" by simp
  moreover have "4 * int m < int size_mod" using m(5) by simp
  ultimately show ?thesis using m t by (intro exI [of _ t] exI [of _ m]) (simp add: wyHashSetResize_def table_calloc_def bins_def)
qed

section \<open>Bins\<close>

lemma bin_ids_Suc: "bin_ids (Suc n) = bin_ids n + mset (map (Pair n) [0..<bins_per_buffer])"
  by (simp add: bin_ids_def product_concat_map)

lemma size_bin_ids: "size (bin_ids n) = n * bins_per_buffer"
  by (simp add: bin_ids_def)

lemma recycle_all:
  "fold (\<lambda>i s. recycleBin s (new_bin b i)) is hs = hs\<lparr>pooledBins := map (new_bin b) (rev is) @ pooledBins hs\<rparr>"
  by (induction "is" arbitrary: hs) (simp_all add: recycleBin_def new_bin_def)

lemma new_bin_ids: "image_mset bin_id (image_mset (new_bin n) M) = image_mset (Pair n) M"
  by (simp add: new_bin_def comp_def multiset.map_comp)

lemma bins_per_buffer_pos: "0 < bins_per_buffer"
  by (simp add: bins_per_buffer_def)

lemma getUnusedBin_ok:
  assumes "bins_ok hs" "size (bins hs) < table_limit"
  shows "\<exists>b p a. getUnusedBin hs = Some (b, hs\<lparr>pooledBins := p, allocatedBuffers := a\<rparr>) \<and>
    unlocked_ok a \<and> elems a = map Some [0..<num a] \<and>
    add_mset (bin_id b) (image_mset bin_id (bins hs) + image_mset bin_id (mset p)) = bin_ids (num a)"
proof (cases "pooledBins hs")
  case Nil
  let ?n = "num (allocatedBuffers hs)"
  have ids: "image_mset bin_id (bins hs) = bin_ids ?n" using assms(1) Nil by (simp add: bins_ok_def)
  have "size (bins hs) = ?n * bins_per_buffer" using arg_cong [OF ids, of size] by (simp add: size_bin_ids)
  then have lim: "length (elems (allocatedBuffers hs)) < array_limit" using assms by (simp add: bins_ok_def bins_per_buffer_def)
  obtain a where a: "wyArrayPush (allocatedBuffers hs) (Some ?n) = Some a" "unlocked_ok a"
    "elems a = elems (allocatedBuffers hs) @ [Some ?n]"
    using wy_array.push [OF _ lim] assms(1) unfolding bins_ok_def by blast
  have "num a = Suc ?n" using a length_elems [of a] assms(1) by (simp add: unlocked_ok_def bins_ok_def)
  moreover have "[0..<bins_per_buffer] = 0 # [1..<bins_per_buffer]"
    by (simp add: upt_conv_Cons bins_per_buffer_pos)
  then have "mset (map (Pair ?n) [0..<bins_per_buffer]) =
      add_mset (?n, 0) (image_mset (Pair ?n) (mset [1..<bins_per_buffer]))"
    by simp
  ultimately show ?thesis using a assms(1) Nil ids
    by (intro exI [of _ "new_bin ?n 0"] exI [of _ "map (new_bin ?n) (rev [1..<bins_per_buffer])"] exI [of _ a])
      (simp add: getUnusedBin_def recycle_all bin_ids_Suc bins_ok_def Let_def new_bin_ids new_bin_def [of ?n 0])
next
  case (Cons b p)
  then show ?thesis using assms(1)
    by (intro exI [of _ b] exI [of _ p] exI [of _ "allocatedBuffers hs"]) (simp add: getUnusedBin_def bins_ok_def)
qed

section \<open>Every operation keeps the invariant\<close>

lemma wyHashSetNew_ok:
  assumes "sz \<le> 805306457"
  shows "\<exists>hs. wyHashSetNew sz eqlFunc transFunc = Some hs \<and> hashset_ok hs \<and> bins hs = {#} \<and> eql hs = eqlFunc \<and>
    trans_func hs = transFunc \<and> default_value hs = None \<and> sz \<le> int (table_size hs)"
proof -
  obtain p where p: "next_prime sz = Some p" "p \<in> set primes" "0 < p" "sz \<le> p"
    "\<forall>q\<in>set primes. 0 < q \<and> sz \<le> q \<longrightarrow> p \<le> q"
    using next_prime_Some [of sz] assms by auto
  then have "p \<le> 805306457" using assms by (simp add: primes_def)
  moreover obtain a :: "nat wyArray" where a: "wyArrayNew 0 = Some a" "array_ok a" "elems a = []" "\<not> locked a"
    using array_new_ok [of 0] by auto
  moreover have "num a = 0" using a length_elems [of a] by simp
  ultimately show ?thesis using p
    by (auto simp: wyHashSetNew_def table_calloc_def hashset_ok_def chains_ok_def bins_def bins_ok_def bin_ids_def unlocked_ok_def)
qed

text \<open>An insertion under a hash: the equal element of the chain, or a new bin.\<close>

lemma find_bin_in: "find_bin f k bs = Some b \<Longrightarrow> b \<in> set bs \<and> f k (elt b)"
  by (induction bs) (auto split: if_splits)

lemma find_bin_None: "find_bin f k bs = None \<longleftrightarrow> (\<forall>b\<in>set bs. \<not> f k (elt b))"
  by (induction bs) auto

lemma table_in: "hashset_ok hs \<Longrightarrow> h mod table_size hs < length (table hs)"
  by (simp add: hashset_ok_def chains_ok_def)

lemma chain_in_table: "hashset_ok hs \<Longrightarrow> b \<in> set (table hs ! (h mod table_size hs)) \<Longrightarrow> b \<in># bins hs"
  using table_in [of hs h] by (auto simp: bins_def)

definition same_callbacks :: "('k, 'd, 'e) wyHashSet \<Rightarrow> ('k, 'd, 'e) wyHashSet \<Rightarrow> bool" where
  "same_callbacks hs hs' \<longleftrightarrow>
     eql hs' = eql hs \<and> trans_func hs' = trans_func hs \<and> default_value hs' = default_value hs"

lemma custom_insert_found:
  "hashset_ok hs \<Longrightarrow> find_bin eqlFunc k (table hs ! (h mod table_size hs)) = Some b \<Longrightarrow>
   wyHashSetCustomInsert hs h k d transFunc eqlFunc = Some (elt b, hs)"
  by (simp add: wyHashSetCustomInsert_def table_in Let_def)

lemma custom_insert_new:
  assumes ok: "hashset_ok hs" and lim: "entries hs < entry_limit"
    and none: "find_bin eqlFunc k (table hs ! (h mod table_size hs)) = None"
  shows "\<exists>b hs'. wyHashSetCustomInsert hs h k d transFunc eqlFunc = Some (transFunc k d, hs') \<and>
    hashset_ok hs' \<and> same_callbacks hs hs' \<and> bins hs' = add_mset b (bins hs) \<and> hash b = h \<and> elt b = transFunc k d"
proof -
  let ?i = "h mod table_size hs"
  have o: "bins_ok hs" "size (bins hs) < table_limit" using ok lim by (simp_all add: hashset_ok_def)
  obtain b p a where u: "getUnusedBin hs = Some (b, hs\<lparr>pooledBins := p, allocatedBuffers := a\<rparr>)"
    "unlocked_ok a" "elems a = map Some [0..<num a]"
    "add_mset (bin_id b) (image_mset bin_id (bins hs) + image_mset bin_id (mset p)) = bin_ids (num a)"
    using getUnusedBin_ok [OF o] by blast
  let ?b = "b\<lparr>hash := h, elt := transFunc k d\<rparr>"
  let ?t = "(table hs)[?i := ?b # table hs ! ?i]"
  let ?s2 = "hs\<lparr>pooledBins := p, allocatedBuffers := a, table := ?t, entries := Suc (entries hs)\<rparr>"
  have b2: "bins ?s2 = add_mset ?b (bins hs)" using mset_concat_push [OF table_in [OF ok, of h], of ?b] by (simp add: bins_def)
  have c2: "chains_ok (table_size hs) ?t"
    using ok table_in [OF ok, of h] by (auto simp: hashset_ok_def chains_ok_def nth_list_update)
  have ids: "bins_ok (?s2\<lparr>table := t, table_size := n\<rparr>)" if "mset (concat t) = bins ?s2" for t n
    using u(2-4) that b2 by (simp add: bins_ok_def bins_def)
  show ?thesis
  proof (cases "setIsFull ?s2")
    case True
    from ok have "int (table_size hs) \<in> set primes" by (simp add: hashset_ok_def)
    moreover have "table_size hs < table_limit" using True lim by (simp add: setIsFull_def)
    ultimately obtain t m where r: "wyHashSetResize ?s2 = Some (?s2\<lparr>table := t, table_size := m\<rparr>)" "table_size hs < m"
      "int m \<in> set primes" "chains_ok m t" "mset (concat t) = bins ?s2"
      using wyHashSetResize_ok [of ?s2] by auto
    have "hashset_ok (?s2\<lparr>table := t, table_size := m\<rparr>)"
      using ok r ids [OF r(5), of m] b2 by (auto simp: hashset_ok_def bins_def)
    moreover have "bins (?s2\<lparr>table := t, table_size := m\<rparr>) = add_mset ?b (bins hs)" using r(5) b2 by (simp add: bins_def)
    moreover have "wyHashSetCustomInsert hs h k d transFunc eqlFunc = Some (transFunc k d, ?s2\<lparr>table := t, table_size := m\<rparr>)"
      using u(1) none r(1) True table_in [OF ok, of h] by (simp add: wyHashSetCustomInsert_def Let_def)
    ultimately show ?thesis
      by (intro exI [of _ ?b] exI [of _ "?s2\<lparr>table := t, table_size := m\<rparr>"]) (simp add: same_callbacks_def)
  next
    case False
    have "bins_ok ?s2" using u(2-4) b2 by (simp add: bins_ok_def)
    then have "hashset_ok ?s2" using False ok c2 b2 by (auto simp: hashset_ok_def setIsFull_def)
    moreover have "wyHashSetCustomInsert hs h k d transFunc eqlFunc = Some (transFunc k d, ?s2)"
      using u(1) none False table_in [OF ok, of h] by (simp add: wyHashSetCustomInsert_def Let_def)
    ultimately show ?thesis using b2
      by (intro exI [of _ ?b] exI [of _ ?s2]) (simp add: same_callbacks_def)
  qed
qed

lemma unlink_bin_None: "unlink_bin f k bs = None \<longleftrightarrow> find_bin f k bs = None"
  by (induction bs) auto

lemma unlink_bin_Some:
  "unlink_bin f k bs = Some (b, r) \<Longrightarrow> find_bin f k bs = Some b \<and> mset bs = add_mset b (mset r)"
  by (induction bs arbitrary: r) (auto split: if_splits)

lemma custom_remove_none:
  "hashset_ok hs \<Longrightarrow> find_bin eqlFunc k (table hs ! (h mod table_size hs)) = None \<Longrightarrow>
   wyHashSetCustomRemove hs h k eqlFunc = Some (None, hs)"
  using unlink_bin_None [of eqlFunc k "table hs ! (h mod table_size hs)"]
  by (simp add: wyHashSetCustomRemove_def table_in Let_def)

lemma custom_remove_found:
  assumes ok: "hashset_ok hs" and f: "find_bin eqlFunc k (table hs ! (h mod table_size hs)) = Some b"
  shows "\<exists>hs'. wyHashSetCustomRemove hs h k eqlFunc = Some (elt b, hs') \<and> hashset_ok hs' \<and> same_callbacks hs hs' \<and> bins hs = add_mset b (bins hs')"
proof -
  let ?i = "h mod table_size hs"
  obtain r where u: "unlink_bin eqlFunc k (table hs ! ?i) = Some (b, r)"
    using f unlink_bin_None [of eqlFunc k "table hs ! ?i"] unlink_bin_Some [of eqlFunc k "table hs ! ?i"]
    by (cases "unlink_bin eqlFunc k (table hs ! ?i)") auto
  then have m: "mset (table hs ! ?i) = add_mset b (mset r)" by (simp add: unlink_bin_Some)
  let ?s = "recycleBin (hs\<lparr>table := (table hs)[?i := r], entries := entries hs - 1\<rparr>) b"
  have b: "bins hs = add_mset b (bins ?s)"
    using mset_concat_update [OF table_in [OF ok, of h], of r] m by (simp add: bins_def recycleBin_def)
  have "set r \<subseteq> set (table hs ! ?i)" using arg_cong [OF m, of set_mset] by auto
  then have "chains_ok (table_size hs) ((table hs)[?i := r])"
    using ok table_in [OF ok, of h] by (auto simp: hashset_ok_def chains_ok_def nth_list_update)
  moreover have "bins_ok ?s" using ok b by (simp add: hashset_ok_def bins_ok_def recycleBin_def)
  ultimately have "hashset_ok ?s" using ok b by (auto simp: hashset_ok_def recycleBin_def)
  moreover have "wyHashSetCustomRemove hs h k eqlFunc = Some (elt b, ?s)"
    using u table_in [OF ok, of h] by (simp add: wyHashSetCustomRemove_def Let_def)
  ultimately show ?thesis using b
    by (intro exI [of _ ?s]) (simp add: recycleBin_def same_callbacks_def)
qed

section \<open>Filtering and iteration\<close>

text \<open>The bins a filter keeps and drops, and the callback's state after them.\<close>

fun filter_bins :: "('e ptr \<Rightarrow> 's \<Rightarrow> bool \<times> 's) \<Rightarrow> 'e wyHashSetBin list \<Rightarrow> 's \<Rightarrow>
    'e wyHashSetBin list \<times> 'e wyHashSetBin list \<times> 's" where
  "filter_bins func [] s = ([], [], s)"
| "filter_bins func (b # bs) s =
     (let (keep, s1) = func (elt b) s; (kept, dropped, s2) = filter_bins func bs s1 in
      if keep then (b # kept, dropped, s2) else (kept, b # dropped, s2))"

lemma filter_bins_mset: "filter_bins func bs s = (k, d, s') \<Longrightarrow> mset bs = mset k + mset d"
  by (induction bs arbitrary: s k d s') (auto split: prod.splits if_splits)

lemma filter_bins_append:
  "filter_bins func (xs @ ys) s =
   (let (k, d, s1) = filter_bins func xs s; (k', d', s2) = filter_bins func ys s1 in (k @ k', d @ d', s2))"
  by (induction xs arbitrary: s) (auto split: prod.splits)

lemma filter_chain_bins:
  "filter_bins func bs s = (k, d, s') \<Longrightarrow> length d \<le> entries hs \<Longrightarrow>
   filter_chain func bs hs s =
     (k, hs\<lparr>entries := entries hs - length d,
             pooledBins := map (\<lambda>b. b\<lparr>elt := None\<rparr>) (rev d) @ pooledBins hs\<rparr>, s')"
proof (induction bs arbitrary: s k d s' hs)
  case (Cons b bs)
  obtain keep s1 where f: "func (elt b) s = (keep, s1)" by fastforce
  obtain k1 d1 s2 where r: "filter_bins func bs s1 = (k1, d1, s2)" by (metis prod_cases3)
  show ?case
  proof (cases keep)
    case True
    then show ?thesis using Cons.prems Cons.IH [OF r, of hs] f r by auto
  next
    case False
    let ?h = "recycleBin (hs\<lparr>entries := entries hs - 1\<rparr>) b"
    have "length d1 \<le> entries ?h" using Cons.prems False f r by (auto simp: recycleBin_def)
    from Cons.IH [OF r this] show ?thesis using Cons.prems False f r by (auto simp: recycleBin_def)
  qed
qed simp

lemma filter_step_ok:
  assumes ok: "hashset_ok hs" and i: "i < length (table hs)" and f: "filter_bins func (table hs ! i) s = (k, d, s1)"
    and h: "filter_chain func (table hs ! i) hs s = (k, hs1, s1)"
  shows "hashset_ok (hs1\<lparr>table := (table hs)[i := k]\<rparr>)" "same_callbacks hs (hs1\<lparr>table := (table hs)[i := k]\<rparr>)"
proof -
  note m = filter_bins_mset [OF f]
  have b: "bins hs = mset d + mset (concat ((table hs)[i := k]))"
    using mset_concat_update [OF i, of k] m by (simp add: bins_def ac_simps)
  have sz: "entries hs = size (bins hs)" using ok by (simp add: hashset_ok_def)
  then have "length d \<le> entries hs" using arg_cong [OF b, of size] by simp
  then have hs1: "hs1 = hs\<lparr>entries := entries hs - length d,
      pooledBins := map (\<lambda>b. b\<lparr>elt := None\<rparr>) (rev d) @ pooledBins hs\<rparr>"
    using filter_chain_bins [OF f, of hs] h by simp
  have "set k \<subseteq> set (table hs ! i)" using arg_cong [OF m, of set_mset] by auto
  then have c: "chains_ok (table_size hs) ((table hs)[i := k])"
    using ok i by (auto simp: hashset_ok_def chains_ok_def nth_list_update)
  have "bins_ok (hs1\<lparr>table := (table hs)[i := k]\<rparr>)"
    using ok b by (simp add: hs1 hashset_ok_def bins_ok_def bins_def multiset.map_comp comp_def ac_simps)
  moreover have "entries hs - length d = length (concat ((table hs)[i := k]))"
    using sz arg_cong [OF b, of size] by simp
  moreover have "entries hs - length d < table_size hs"
    by (rule less_imp_diff_less) (use ok in \<open>simp add: hashset_ok_def\<close>)
  ultimately show "hashset_ok (hs1\<lparr>table := (table hs)[i := k]\<rparr>)"
    using ok c by (simp add: hs1 hashset_ok_def bins_def)
  show "same_callbacks hs (hs1\<lparr>table := (table hs)[i := k]\<rparr>)" by (simp add: hs1 same_callbacks_def)
qed

lemma concat_split: "i < length t \<Longrightarrow> concat (drop i t) = t ! i @ concat (drop (Suc i) t)"
  by (simp add: Cons_nth_drop_Suc [symmetric])

lemma length_chain_le: "i < length t \<Longrightarrow> length (t ! i) \<le> length (concat t)"
  using arg_cong [OF mset_concat_update [of i t "[]"], of size] by simp

lemma filter_chains_ok:
  assumes "hashset_ok hs" "i \<le> table_size hs" "filter_bins func (concat (drop i (table hs))) s = (k, d, s')"
  shows "\<exists>hs'. filter_chains func [i..<table_size hs] hs s = Some (hs', s') \<and> hashset_ok hs' \<and> same_callbacks hs hs' \<and>
    concat (table hs') = concat (take i (table hs)) @ k"
  using assms
proof (induction "table_size hs - i" arbitrary: i hs s k d)
  case 0
  then show ?case by (auto simp: hashset_ok_def chains_ok_def same_callbacks_def)
next
  case (Suc n)
  have len: "length (table hs) = table_size hs" using Suc.prems by (simp add: hashset_ok_def chains_ok_def)
  have i: "i < length (table hs)" using Suc.hyps(2) len by simp
  obtain k1 d1 s1 where f1: "filter_bins func (table hs ! i) s = (k1, d1, s1)" by (metis prod_cases3)
  obtain k2 d2 where f2: "filter_bins func (concat (drop (Suc i) (table hs))) s1 = (k2, d2, s')" "k = k1 @ k2"
    using Suc.prems(3) f1 by (auto simp: concat_split [OF i] filter_bins_append split: prod.splits)
  obtain hs1 where h: "filter_chain func (table hs ! i) hs s = (k1, hs1, s1)"
    "table_size hs1 = table_size hs" "table hs1 = table hs"
  proof -
    have "length d1 \<le> length (concat (table hs))"
      using arg_cong [OF filter_bins_mset [OF f1], of size] length_chain_le [OF i] by simp
    then have "length d1 \<le> entries hs" using Suc.prems(1) by (simp add: hashset_ok_def bins_def)
    from filter_chain_bins [OF f1 this] show ?thesis by (rule that) simp_all
  qed
  let ?h = "hs1\<lparr>table := (table hs)[i := k1]\<rparr>"
  note step = filter_step_ok [OF Suc.prems(1) i f1 h(1)]
  have "\<exists>hs'. filter_chains func [Suc i..<table_size ?h] ?h s1 = Some (hs', s') \<and> hashset_ok hs' \<and>
      same_callbacks ?h hs' \<and> concat (table hs') = concat (take (Suc i) (table ?h)) @ k2"
  proof (rule Suc.hyps(1))
    show "n = table_size ?h - Suc i" using Suc.hyps(2) h(2) by simp
    show "Suc i \<le> table_size ?h" using i len h(2) by simp
    show "filter_bins func (concat (drop (Suc i) (table ?h))) s1 = (k2, d2, s')" using f2(1) by simp
  qed (rule step(1))
  then obtain hs' where r: "filter_chains func [Suc i..<table_size hs] ?h s1 = Some (hs', s')" "hashset_ok hs'"
      "same_callbacks ?h hs'" "concat (table hs') = concat (take (Suc i) (table ?h)) @ k2"
    using h(2) by auto
  have "[i..<table_size hs] = i # [Suc i..<table_size hs]" using i len by (simp add: upt_conv_Cons)
  moreover have "concat (take (Suc i) (table ?h)) = concat (take i (table hs)) @ k1"
    using i by (simp add: take_Suc_conv_app_nth)
  ultimately show ?case using r h f2(2) i step(2) by (simp add: same_callbacks_def)
qed

lemma wyHashSetFilter_ok:
  assumes "hashset_ok hs" "filter_bins func (concat (table hs)) s = (k, d, s')"
  shows "\<exists>hs'. wyHashSetFilter hs func s = Some (hs', s') \<and> hashset_ok hs' \<and> same_callbacks hs hs' \<and>
    concat (table hs') = k"
  using filter_chains_ok [OF assms(1), of 0 func s k d s'] assms(2) by (simp add: wyHashSetFilter_def)

lemma each_bin_append:
  "each_bin func (xs @ ys) s = (let (stop, s1) = each_bin func xs s in if stop then (True, s1) else each_bin func ys s1)"
  by (induction xs arbitrary: s) (auto split: prod.splits)

lemma each_chain_concat: "each_chain func cs s = snd (each_bin func (concat cs) s)"
  by (induction cs arbitrary: s) (auto simp: each_bin_append split: prod.splits)

lemma wyHashSetEach_ok: "hashset_ok hs \<Longrightarrow> wyHashSetEach hs func s = snd (each_bin func (concat (table hs)) s)"
  by (simp add: wyHashSetEach_def each_chain_concat hashset_ok_def chains_ok_def)

section \<open>The elements by their keys\<close>

text \<open>
  The use the engine makes of a set: \<open>eql\<close> compares a key with the key of an element, the hash is a
  function of the key, and \<open>trans\<close> makes an element of the key it is given.
\<close>

definition bin_key :: "('e \<Rightarrow> 'k) \<Rightarrow> 'e wyHashSetBin \<Rightarrow> 'k" where
  "bin_key key b = key (the (elt b))"

definition keyed_bins :: "('e \<Rightarrow> 'k) \<Rightarrow> ('k \<Rightarrow> nat) \<Rightarrow> 'e wyHashSetBin list \<Rightarrow> bool" where
  "keyed_bins key h bs \<longleftrightarrow>
     (\<forall>b\<in>set bs. elt b \<noteq> None \<and> hash b = h (bin_key key b)) \<and> distinct (map (bin_key key) bs)"

definition keyed ::
  "('e \<Rightarrow> 'k) \<Rightarrow> ('k \<Rightarrow> nat) \<Rightarrow> ('k \<Rightarrow> 'd \<Rightarrow> 'e) \<Rightarrow> ('k, 'd, 'e) wyHashSet \<Rightarrow> bool" where
  "keyed key h mk hs \<longleftrightarrow>
     hashset_ok hs \<and> (\<forall>k e. eql hs k (Some e) \<longleftrightarrow> key e = k) \<and> trans_func hs = (\<lambda>k d. Some (mk k d)) \<and> default_value hs = None \<and>
     keyed_bins key h (concat (table hs))"

definition bin_map :: "('e \<Rightarrow> 'k) \<Rightarrow> 'e wyHashSetBin list \<Rightarrow> 'k \<rightharpoonup> 'e" where
  "bin_map key bs = map_of (map (\<lambda>b. (bin_key key b, the (elt b))) bs)"

definition contents :: "('e \<Rightarrow> 'k) \<Rightarrow> ('k, 'd, 'e) wyHashSet \<Rightarrow> 'k \<rightharpoonup> 'e" where
  "contents key hs = bin_map key (concat (table hs))"

lemma keyed_bins_perm:
  assumes "mset xs = mset ys" "keyed_bins key h ys"
  shows "keyed_bins key h xs" "bin_map key xs = bin_map key ys"
proof -
  let ?f = "bin_key key"
  have s: "set xs = set ys" using assms(1) by (rule mset_eq_setD)
  have "mset (map ?f xs) = mset (map ?f ys)" using assms(1) by simp
  then have d: "distinct (map ?f xs) = distinct (map ?f ys)" by (rule mset_eq_imp_distinct_iff)
  then show "keyed_bins key h xs" using assms(2) s by (simp add: keyed_bins_def)
  have fst: "map fst (map (\<lambda>b. (?f b, the (elt b))) zs) = map ?f zs" for zs by (simp add: comp_def)
  show "bin_map key xs = bin_map key ys" unfolding bin_map_def
    using d assms(2) s by (subst map_of_inject_set) (simp_all only: fst keyed_bins_def set_map)
qed

lemma keyed_bins_Cons:
  "keyed_bins key h (b # bs) \<longleftrightarrow>
     elt b \<noteq> None \<and> hash b = h (bin_key key b) \<and> bin_map key bs (bin_key key b) = None \<and> keyed_bins key h bs"
  by (force simp: keyed_bins_def bin_map_def map_of_eq_None_iff)

lemma bin_map_Cons: "bin_map key (b # bs) = (bin_map key bs)(bin_key key b \<mapsto> the (elt b))"
  by (simp add: bin_map_def)

lemma keyed_bins_elt: "keyed_bins key h bs \<Longrightarrow> b \<in> set bs \<Longrightarrow> \<exists>e. elt b = Some e"
  by (auto simp: keyed_bins_def)

lemma bin_map_Some: "keyed_bins key h bs \<Longrightarrow> b \<in> set bs \<Longrightarrow> bin_map key bs (bin_key key b) = elt b"
  by (induction bs) (auto simp: keyed_bins_Cons bin_map_Cons dest: keyed_bins_elt)

lemma bin_map_SomeD: "bin_map key bs k = Some e \<Longrightarrow> \<exists>b\<in>set bs. bin_key key b = k \<and> the (elt b) = e"
  by (auto simp: bin_map_def dest!: map_of_SomeD)

text \<open>A search under the key's hash finds the element of the key, whichever chain it is in.\<close>

lemma keyed_facts:
  assumes "keyed key h mk hs"
  shows "hashset_ok hs" "eql hs k (Some e) \<longleftrightarrow> key e = k" "trans_func hs = (\<lambda>k d. Some (mk k d))"
    "default_value hs = None" "keyed_bins key h (concat (table hs))"
  using assms by (simp_all add: keyed_def)

lemma keyed_eql:
  assumes "keyed key h mk hs" "b \<in> set (concat (table hs))"
  shows "eql hs k (elt b) \<longleftrightarrow> bin_key key b = k"
proof -
  obtain e where "elt b = Some e" using keyed_bins_elt [OF keyed_facts(5) [OF assms(1)] assms(2)] by blast
  then show ?thesis using keyed_facts(2) [OF assms(1)] by (simp add: bin_key_def)
qed

lemma find_bin_keyed:
  assumes "keyed key h mk hs"
  obtains (absent) "find_bin (eql hs) k (table hs ! (h k mod table_size hs)) = None" "contents key hs k = None"
    | (present) b e where "find_bin (eql hs) k (table hs ! (h k mod table_size hs)) = Some b" "elt b = Some e"
        "bin_key key b = k" "contents key hs k = Some e"
proof (cases "find_bin (eql hs) k (table hs ! (h k mod table_size hs))")
  case None
  have "bin_key key b \<noteq> k" if b: "b \<in> set (concat (table hs))" for b
  proof
    assume k: "bin_key key b = k"
    obtain c where "c \<in> set (table hs)" "b \<in> set c" using b by auto
    then obtain i where "i < length (table hs)" "b \<in> set (table hs ! i)" by (auto simp: in_set_conv_nth [of c])
    then have i: "i < table_size hs" "b \<in> set (table hs ! i)" "hash b mod table_size hs = i"
      using assms by (auto simp: keyed_def hashset_ok_def chains_ok_def)
    have "hash b = h k" using assms b k by (auto simp: keyed_def keyed_bins_def)
    moreover have "eql hs k (elt b)" using keyed_eql [OF assms b] k by simp
    ultimately show False using i None by (auto simp: find_bin_None)
  qed
  then have "contents key hs k = None" using bin_map_SomeD [of key "concat (table hs)" k]
    by (cases "contents key hs k") (auto simp: contents_def)
  then show ?thesis by (rule absent [OF None])
next
  case (Some b)
  then have "b \<in># bins hs" using find_bin_in [OF Some] chain_in_table keyed_facts(1) [OF assms] by blast
  then have b: "b \<in> set (concat (table hs))" by (simp add: bins_def)
  then have k: "bin_key key b = k" using find_bin_in [OF Some] keyed_eql [OF assms] by simp
  obtain e where "elt b = Some e" using keyed_facts(5) [OF assms] b by (auto simp: keyed_bins_def)
  then show ?thesis using bin_map_Some [OF keyed_facts(5) [OF assms] b] k by (intro present [OF Some]) (simp_all add: contents_def)
qed

lemma wyHashSetFind_keyed:
  assumes "keyed key h mk hs"
  shows "wyHashSetFind hs (h k) k = Some (contents key hs k)"
  using find_bin_keyed [OF assms, of k]
  by cases (use keyed_facts(4) [OF assms] table_in [OF keyed_facts(1) [OF assms], of "h k"] in
    \<open>auto simp: wyHashSetFind_def wyHashSetCustomFind_def\<close>)

lemma wyHashSetInsert_present:
  assumes "keyed key h mk hs" "contents key hs k = Some e"
  shows "wyHashSetInsert hs (h k) k d = Some (Some e, hs)"
  using find_bin_keyed [OF assms(1), of k]
  by cases (use assms custom_insert_found [OF keyed_facts(1) [OF assms(1)]] in \<open>auto simp: wyHashSetInsert_def\<close>)

lemma wyHashSetInsert_absent:
  assumes "keyed key h mk hs" "entries hs < entry_limit" "key (mk k d) = k" "contents key hs k = None"
  shows "\<exists>hs'. wyHashSetInsert hs (h k) k d = Some (Some (mk k d), hs') \<and> keyed key h mk hs' \<and>
    entries hs' = Suc (entries hs) \<and> contents key hs' = (contents key hs)(k \<mapsto> mk k d)"
proof -
  note ok = keyed_facts(1) [OF assms(1)]
  have none: "find_bin (eql hs) k (table hs ! (h k mod table_size hs)) = None"
    using find_bin_keyed [OF assms(1), of k] by cases (use assms(4) in auto)
  obtain b hs' where r: "wyHashSetCustomInsert hs (h k) k d (trans_func hs) (eql hs) = Some (trans_func hs k d, hs')"
    "hashset_ok hs'" "same_callbacks hs hs'" "bins hs' = add_mset b (bins hs)" "hash b = h k" "elt b = trans_func hs k d"
    using custom_insert_new [OF ok assms(2) none] by blast
  have e: "elt b = Some (mk k d)" using r(6) keyed_facts(3) [OF assms(1)] by simp
  then have kk: "bin_key key b = k" using assms(3) by (simp add: bin_key_def)
  have kc: "keyed_bins key h (b # concat (table hs))"
    using keyed_facts(5) [OF assms(1)] r(5) e kk assms(4) by (simp add: keyed_bins_Cons contents_def)
  have "mset (concat (table hs')) = mset (b # concat (table hs))" using r(4) by (simp add: bins_def)
  note p = keyed_bins_perm [OF this kc]
  have "contents key hs' = (contents key hs)(k \<mapsto> mk k d)" using p(2) e kk by (simp add: contents_def bin_map_Cons)
  moreover have "entries hs' = Suc (entries hs)" using r(2,4) ok by (simp add: hashset_ok_def)
  ultimately show ?thesis using r p(1) assms(1) keyed_facts(3) [OF assms(1)]
    by (intro exI [of _ hs']) (simp add: wyHashSetInsert_def keyed_def same_callbacks_def)
qed

lemma wyHashSetRemove_keyed:
  assumes "keyed key h mk hs"
  shows "\<exists>hs'. wyHashSetRemove hs (h k) k = Some (contents key hs k, hs') \<and> keyed key h mk hs' \<and>
    entries hs' \<le> entries hs \<and> contents key hs' = (contents key hs)(k := None)"
  using find_bin_keyed [OF assms, of k]
proof cases
  case 1
  then show ?thesis using custom_remove_none [OF keyed_facts(1) [OF assms]] assms
    by (intro exI [of _ hs]) (auto simp: wyHashSetRemove_def fun_upd_idem)
next
  case present: (2 b e)
  note ok = keyed_facts(1) [OF assms]
  obtain hs' where r: "wyHashSetCustomRemove hs (h k) k (eql hs) = Some (elt b, hs')" "hashset_ok hs'"
    "same_callbacks hs hs'" "bins hs = add_mset b (bins hs')"
    using custom_remove_found [OF ok present(1)] by blast
  have m: "mset (b # concat (table hs')) = mset (concat (table hs))" using r(4) by (simp add: bins_def)
  note p = keyed_bins_perm [OF m keyed_facts(5) [OF assms]]
  then have kb: "keyed_bins key h (concat (table hs'))" "bin_map key (concat (table hs')) k = None"
    by (simp_all add: keyed_bins_Cons present(3))
  have "contents key hs = (contents key hs')(k \<mapsto> e)"
    using p(2) present by (simp add: contents_def bin_map_Cons)
  then have "contents key hs' = (contents key hs)(k := None)" using kb(2) by (simp add: contents_def fun_upd_idem)
  moreover have "entries hs' \<le> entries hs" using r(2,4) ok by (simp add: hashset_ok_def)
  ultimately show ?thesis using r(1-3) kb(1) present assms
    by (intro exI [of _ hs']) (simp add: wyHashSetRemove_def keyed_def same_callbacks_def)
qed

end
