(* ===== verification/Wy_HashSet_Props.thy ===== *)
theory Wy_HashSet_Props imports Wy_HashSet begin

text \<open>
  What the clients of \<open>wyHashSet.cpp\<close> rely on: the interface of a dictionary and its interpretation by the
  hash set, the reachable states and their invariant, and the character set of a bitmap font.
\<close>

section \<open>The interface\<close>

text \<open>
  What a client of a set relies on: a finite map in which an insertion keeps the element that is
  already there. \<open>fits\<close> says that the element made of a key and the data has that key.
\<close>

datatype ('k, 'd) set_request = Add 'k 'd | Remove 'k | Find 'k

fun set_call ::
  "('s \<Rightarrow> 'k \<Rightarrow> 'd \<Rightarrow> ('e ptr \<times> 's) option) \<Rightarrow> ('s \<Rightarrow> 'k \<Rightarrow> ('e ptr \<times> 's) option) \<Rightarrow> ('s \<Rightarrow> 'k \<Rightarrow> 'e ptr option) \<Rightarrow>
   ('k, 'd) set_request \<Rightarrow> 's \<Rightarrow> ('e ptr \<times> 's) option" where
  "set_call ins rem fnd (Add k d) s = ins s k d"
| "set_call ins rem fnd (Remove k) s = rem s k"
| "set_call ins rem fnd (Find k) s = do { e \<leftarrow> fnd s k; Some (e, s) }"

fun set_calls ::
  "('s \<Rightarrow> 'k \<Rightarrow> 'd \<Rightarrow> ('e ptr \<times> 's) option) \<Rightarrow> ('s \<Rightarrow> 'k \<Rightarrow> ('e ptr \<times> 's) option) \<Rightarrow> ('s \<Rightarrow> 'k \<Rightarrow> 'e ptr option) \<Rightarrow>
   ('k, 'd) set_request list \<Rightarrow> 's \<Rightarrow> ('e ptr list \<times> 's) option" where
  "set_calls ins rem fnd [] s = Some ([], s)"
| "set_calls ins rem fnd (c # cs) s =
     do { (e, s1) \<leftarrow> set_call ins rem fnd c s; (es, s2) \<leftarrow> set_calls ins rem fnd cs s1; Some (e # es, s2) }"

text \<open>The same requests on a map.\<close>

fun map_call :: "('k \<Rightarrow> 'd \<Rightarrow> 'e) \<Rightarrow> ('k, 'd) set_request \<Rightarrow> ('k \<rightharpoonup> 'e) \<Rightarrow> 'e option \<times> ('k \<rightharpoonup> 'e)" where
  "map_call mk (Add k d) m = (case m k of Some e \<Rightarrow> (Some e, m) | None \<Rightarrow> (Some (mk k d), m(k \<mapsto> mk k d)))"
| "map_call mk (Remove k) m = (m k, m(k := None))"
| "map_call mk (Find k) m = (m k, m)"

fun map_calls :: "('k \<Rightarrow> 'd \<Rightarrow> 'e) \<Rightarrow> ('k, 'd) set_request list \<Rightarrow> ('k \<rightharpoonup> 'e) \<Rightarrow> 'e option list \<times> ('k \<rightharpoonup> 'e)" where
  "map_calls mk [] m = ([], m)"
| "map_calls mk (c # cs) m = (let (e, m1) = map_call mk c m; (es, m2) = map_calls mk cs m1 in (e # es, m2))"

fun fitting :: "('k \<Rightarrow> 'd \<Rightarrow> bool) \<Rightarrow> ('k, 'd) set_request \<Rightarrow> bool" where
  "fitting fits (Add k d) = fits k d"
| "fitting fits (Remove k) = True"
| "fitting fits (Find k) = True"

locale dictionary =
  fixes ok :: "'s \<Rightarrow> bool" and abs :: "'s \<Rightarrow> 'k \<rightharpoonup> 'e" and count :: "'s \<Rightarrow> nat" and limit :: nat
    and fits :: "'k \<Rightarrow> 'd \<Rightarrow> bool" and mk :: "'k \<Rightarrow> 'd \<Rightarrow> 'e"
    and insert :: "'s \<Rightarrow> 'k \<Rightarrow> 'd \<Rightarrow> ('e ptr \<times> 's) option"
    and remove :: "'s \<Rightarrow> 'k \<Rightarrow> ('e ptr \<times> 's) option" and find :: "'s \<Rightarrow> 'k \<Rightarrow> 'e ptr option"
  assumes insert_present: "ok s \<Longrightarrow> abs s k = Some e \<Longrightarrow> insert s k d = Some (Some e, s)"
    and insert_absent: "ok s \<Longrightarrow> count s < limit \<Longrightarrow> fits k d \<Longrightarrow> abs s k = None \<Longrightarrow>
      \<exists>s'. insert s k d = Some (Some (mk k d), s') \<and> ok s' \<and> count s' = Suc (count s) \<and> abs s' = (abs s)(k \<mapsto> mk k d)"
    and remove: "ok s \<Longrightarrow>
      \<exists>s'. remove s k = Some (abs s k, s') \<and> ok s' \<and> count s' \<le> count s \<and> abs s' = (abs s)(k := None)"
    and find: "ok s \<Longrightarrow> find s k = Some (abs s k)"
begin

lemma insert:
  assumes "ok s" "count s < limit" "fits k d"
  shows "\<exists>s'. insert s k d = Some (fst (map_call mk (Add k d) (abs s)), s') \<and> ok s' \<and> count s' \<le> Suc (count s) \<and>
    abs s' = snd (map_call mk (Add k d) (abs s))"
proof (cases "abs s k")
  case None
  then show ?thesis using insert_absent [OF assms None] by auto
next
  case (Some e)
  then show ?thesis using insert_present [OF assms(1) Some] assms(1) by auto
qed

lemma call:
  "ok s \<Longrightarrow> count s < limit \<Longrightarrow> fitting fits c \<Longrightarrow>
   \<exists>s'. set_call insert remove find c s = Some (fst (map_call mk c (abs s)), s') \<and> ok s' \<and> count s' \<le> Suc (count s) \<and>
     abs s' = snd (map_call mk c (abs s))"
proof (cases c)
  case (Add k d)
  then show "ok s \<Longrightarrow> count s < limit \<Longrightarrow> fitting fits c \<Longrightarrow> ?thesis" using insert [of s k d] by simp
next
  case (Remove k)
  then show "ok s \<Longrightarrow> ?thesis" using remove [of s k] by (auto intro: le_SucI)
next
  case (Find k)
  then show "ok s \<Longrightarrow> ?thesis" using find [of s k] by simp
qed

lemma calls:
  "ok s \<Longrightarrow> count s + length cs \<le> limit \<Longrightarrow> (\<And>c. c \<in> set cs \<Longrightarrow> fitting fits c) \<Longrightarrow>
   \<exists>s'. set_calls insert remove find cs s = Some (fst (map_calls mk cs (abs s)), s') \<and> ok s' \<and>
     abs s' = snd (map_calls mk cs (abs s))"
proof (induction cs arbitrary: s)
  case (Cons c cs)
  have "count s < limit" "fitting fits c" using Cons.prems by simp_all
  from call [OF Cons.prems(1) this] obtain s1 where s1: "set_call insert remove find c s = Some (fst (map_call mk c (abs s)), s1)"
    "ok s1" "count s1 \<le> Suc (count s)" "abs s1 = snd (map_call mk c (abs s))"
    by blast
  then show ?case using Cons.IH [of s1] Cons.prems by (auto simp: Let_def case_prod_beta)
qed simp

lemma insert_find:
  assumes "ok s" "count s < limit" "fits k d"
  shows "\<exists>e s'. insert s k d = Some (Some e, s') \<and> ok s' \<and> find s' k = Some (Some e) \<and>
    (\<forall>k'. k' \<noteq> k \<longrightarrow> find s' k' = find s k')"
proof (cases "abs s k")
  case None
  then show ?thesis using insert_absent [OF assms None] assms(1) find by fastforce
next
  case (Some e)
  then show ?thesis using insert_present [OF assms(1) Some] assms(1) find by auto
qed

lemma remove_find:
  "ok s \<Longrightarrow> \<exists>e s'. remove s k = Some (e, s') \<and> ok s' \<and> find s' k = Some None \<and> (\<forall>k'. k' \<noteq> k \<longrightarrow> find s' k' = find s k')"
  using remove [of s k] find by fastforce

end

interpretation hash_set: dictionary "keyed key h mk" "contents key" entries entry_limit "\<lambda>k d. key (mk k d) = k" mk
  "\<lambda>hs k d. wyHashSetInsert hs (h k) k d" "\<lambda>hs k. wyHashSetRemove hs (h k) k" "\<lambda>hs k. wyHashSetFind hs (h k) k"
  for key h mk
proof (unfold_locales, goal_cases)
  case (1 s k e d)
  then show ?case by (rule wyHashSetInsert_present)
next
  case (2 s k d)
  from wyHashSetInsert_absent [OF this] show ?case by blast
next
  case (3 s k)
  from wyHashSetRemove_keyed [OF this] show ?case by blast
next
  case (4 s k)
  then show ?case by (rule wyHashSetFind_keyed)
qed

section \<open>Properties of the set\<close>

text \<open>
  C4: On a set whose \<open>eql\<close> compares a key with the key of an element and whose hash is a function of
  the key, every sequence of insertions, removals and searches answers as a finite map does,
  through all collisions, recycled bins and resizes, as long as there are at most 402653189 entries.
\<close>

theorem wyHashSet_calls_refine:
  assumes "keyed key h mk hs" "entries hs + length cs \<le> entry_limit"
    "\<And>c. c \<in> set cs \<Longrightarrow> fitting (\<lambda>k d. key (mk k d) = k) c"
  shows "\<exists>hs'. set_calls (\<lambda>hs k d. wyHashSetInsert hs (h k) k d) (\<lambda>hs k. wyHashSetRemove hs (h k) k)
      (\<lambda>hs k. wyHashSetFind hs (h k) k) cs hs = Some (fst (map_calls mk cs (contents key hs)), hs') \<and>
    keyed key h mk hs' \<and> contents key hs' = snd (map_calls mk cs (contents key hs))"
  using assms by (rule hash_set.calls)

lemma keyed_new:
  assumes "sz \<le> 805306457" "\<And>k e. eqlFunc k (Some e) \<longleftrightarrow> key e = k"
  shows "\<exists>hs. wyHashSetNew sz eqlFunc (\<lambda>k d. Some (mk k d)) = Some hs \<and> keyed key h mk hs \<and>
    contents key hs = Map.empty \<and> entries hs = 0"
proof -
  obtain hs where hs: "wyHashSetNew sz eqlFunc (\<lambda>k d. Some (mk k d)) = Some hs" "hashset_ok hs" "bins hs = {#}"
    "eql hs = eqlFunc" "trans_func hs = (\<lambda>k d. Some (mk k d))" "default_value hs = None"
    using wyHashSetNew_ok [OF assms(1)] by blast
  have c: "concat (table hs) = []" using hs(3) by (simp add: bins_def)
  have "keyed_bins key h (concat (table hs))" "contents key hs = Map.empty"
    unfolding contents_def c by (simp_all add: keyed_bins_def bin_map_def)
  moreover have "entries hs = 0" using hs(2,3) by (simp add: hashset_ok_def)
  ultimately show ?thesis using hs assms(2) by (simp add: keyed_def)
qed

lemma wyHashSet_calls_refine_witness:
  "\<exists>hs hs'. wyHashSetNew 0 (\<lambda>k e. case e of Some (a, b) \<Rightarrow> a = k | None \<Rightarrow> False) (\<lambda>k d. Some (k, d)) = Some hs \<and>
    set_calls (\<lambda>hs k d. wyHashSetInsert hs (k mod 2) k d) (\<lambda>hs k. wyHashSetRemove hs (k mod 2) k)
      (\<lambda>hs k. wyHashSetFind hs (k mod 2) k) [Add 1 ''a'', Add 3 ''b'', Add 1 ''c'', Remove 3, Find 1, Find 3] hs =
    Some ([Some (1, ''a''), Some (3, ''b''), Some (1, ''a''), Some (3, ''b''), Some (1, ''a''), None], hs')"
proof -
  obtain hs :: "(nat, string, nat \<times> string) wyHashSet" where hs:
    "wyHashSetNew 0 (\<lambda>k e. case e of Some (a, b) \<Rightarrow> a = k | None \<Rightarrow> False) (\<lambda>k d. Some (k, d)) = Some hs"
    "keyed fst (\<lambda>k. k mod 2) Pair hs" "contents fst hs = Map.empty" "entries hs = 0"
    using keyed_new [of 0 "\<lambda>k e. case e of Some (a, b) \<Rightarrow> a = k | None \<Rightarrow> False" fst Pair "\<lambda>k. k mod 2"] by auto
  let ?cs = "[Add 1 ''a'', Add 3 ''b'', Add 1 ''c'', Remove 3, Find 1, Find 3]"
  have "fitting (\<lambda>k d. fst (k, d) = k) c" if "c \<in> set ?cs" for c :: "(nat, string) set_request" by (cases c) simp_all
  then obtain hs' where "set_calls (\<lambda>hs k d. wyHashSetInsert hs (k mod 2) k d) (\<lambda>hs k. wyHashSetRemove hs (k mod 2) k)
      (\<lambda>hs k. wyHashSetFind hs (k mod 2) k) ?cs hs = Some (fst (map_calls Pair ?cs (contents fst hs)), hs')"
    using wyHashSet_calls_refine [OF hs(2), of ?cs] hs(4) by auto
  moreover have "fst (map_calls Pair ?cs (contents fst hs)) =
      [Some (1, ''a''), Some (3, ''b''), Some (1, ''a''), Some (3, ''b''), Some (1, ''a''), None]"
    by (simp add: hs(3))
  ultimately show ?thesis using hs(1) by (simp only:) blast
qed

text \<open>The states a set can be in: any operations, with any hashes and any callbacks.\<close>

inductive hashset_reachable :: "('k, 'd, 'e) wyHashSet \<Rightarrow> bool" where
  new: "wyHashSetNew sz f t = Some hs \<Longrightarrow> hashset_reachable hs"
| insert: "hashset_reachable hs \<Longrightarrow> entries hs < entry_limit \<Longrightarrow> wyHashSetCustomInsert hs h k d t f = Some (e, hs') \<Longrightarrow>
    hashset_reachable hs'"
| remove: "hashset_reachable hs \<Longrightarrow> wyHashSetCustomRemove hs h k f = Some (e, hs') \<Longrightarrow> hashset_reachable hs'"
| filter: "hashset_reachable hs \<Longrightarrow> wyHashSetFilter hs g (s :: 'd) = Some (hs', s') \<Longrightarrow> hashset_reachable hs'"

lemma wyHashSetNew_Some_le: "wyHashSetNew sz f t = Some hs \<Longrightarrow> sz \<le> 805306457"
proof (rule ccontr)
  assume n: "wyHashSetNew sz f t = Some hs" "\<not> sz \<le> 805306457"
  show False
  proof (cases "sz \<le> 1610612741")
    case True
    then obtain p where "next_prime sz = Some p" "p \<in> set primes" "sz \<le> p" using next_prime_Some [of sz] by blast
    then have "next_prime sz = Some 1610612741" using n(2) by (auto simp: primes_def)
    then show False using n(1) by (simp add: wyHashSetNew_def table_calloc_def)
  next
    case False
    then show False using n(1) next_prime_None [of sz] by (simp add: wyHashSetNew_def)
  qed
qed

lemma reachable_ok: "hashset_reachable hs \<Longrightarrow> hashset_ok hs"
proof (induction rule: hashset_reachable.induct)
  case (new sz f t hs)
  then show ?case using wyHashSetNew_Some_le [OF new] wyHashSetNew_ok [of sz f t] by auto
next
  case (insert hs h k d t f e hs')
  then show ?case
    by (cases "find_bin f k (table hs ! (h mod table_size hs))")
      (use custom_insert_found [of hs f k h _ d t] custom_insert_new [of hs f k h d t] in auto)
next
  case (remove hs h k f e hs')
  then show ?case
    by (cases "find_bin f k (table hs ! (h mod table_size hs))")
      (use custom_remove_none [of hs f k h] custom_remove_found [of hs f k h] in auto)
next
  case (filter hs g s hs' s')
  obtain k d s1 where "filter_bins g (concat (table hs)) s = (k, d, s1)" by (metis prod_cases3)
  from wyHashSetFilter_ok [OF filter.IH this] show ?case using filter.hyps(2) by auto
qed

lemma fold_until_collect: "fold_until (\<lambda>x i s. (s @ [x], True)) i xs s = s @ xs"
  by (induction xs arbitrary: i s) simp_all

lemma wyHashSetDestroy_ok:
  assumes "hashset_ok hs"
  shows "wyHashSetDestroy hs = Some (map Some [0..<num (allocatedBuffers hs)])"
  using each_from_unchanging [of "(allocatedBuffers hs)\<lparr>locked := True\<rparr>" "\<lambda>a x i s. Some (a, s @ [x], True)" "\<lambda>x i s. (s @ [x], True)" 0 "[]"]
    assms by (simp add: wyHashSetDestroy_def wyArrayEach_def hashset_ok_def bins_ok_def unlocked_ok_def fold_until_collect)

text \<open>
  C19: Whatever is done to a set, with any hash values and any callbacks: every bin ever carved from a
  buffer is in exactly one chain or in the pool, each chain holds the bins whose hash belongs there,
  \<open>entries\<close> counts the bins in use and stays below the table's size, and destroying the set frees
  every buffer exactly once.
\<close>

theorem wyHashSet_invariant:
  assumes "hashset_reachable hs"
  shows "(let n = num (allocatedBuffers hs); used = concat (table hs) in
      mset (map bin_id used) + mset (map bin_id (pooledBins hs)) = mset (List.product [0..<n] [0..<bins_per_buffer]) \<and>
      distinct (map bin_id used @ map bin_id (pooledBins hs)) \<and>
      entries hs = length used \<and> length used < table_size hs \<and> length (table hs) = table_size hs \<and>
      (\<forall>i<table_size hs. \<forall>b\<in>set (table hs ! i). hash b mod table_size hs = i) \<and>
      wyHashSetDestroy hs = Some (map Some [0..<n]))"
proof -
  have ok: "hashset_ok hs" using assms by (rule reachable_ok)
  let ?n = "num (allocatedBuffers hs)"
  have m: "mset (map bin_id (concat (table hs))) + mset (map bin_id (pooledBins hs)) =
      mset (List.product [0..<?n] [0..<bins_per_buffer])"
    using ok by (simp add: hashset_ok_def bins_ok_def bins_def bin_ids_def)
  have "distinct (List.product [0..<?n] [0..<bins_per_buffer])" by (simp add: distinct_product)
  moreover have "mset (map bin_id (concat (table hs)) @ map bin_id (pooledBins hs)) = mset (List.product [0..<?n] [0..<bins_per_buffer])"
    using m by simp
  ultimately have "distinct (map bin_id (concat (table hs)) @ map bin_id (pooledBins hs))"
    using mset_eq_imp_distinct_iff by blast
  then show ?thesis using ok m wyHashSetDestroy_ok [OF ok]
    by (simp add: Let_def hashset_ok_def chains_ok_def bins_def)
qed

definition one_key_set :: "(nat, unit, nat) wyHashSet option" where
  "one_key_set = do { hs \<leftarrow> wyHashSetNew 5 (\<lambda>k e. e = Some k) (\<lambda>k d. Some k);
                      (_, hs1) \<leftarrow> wyHashSetInsert hs 7 3 (); Some hs1 }"

lemma wyHashSet_invariant_witness:
  "\<exists>hs. one_key_set = Some hs \<and> distinct (map bin_id (concat (table hs)) @ map bin_id (pooledBins hs)) \<and>
    wyHashSetDestroy hs = Some (map Some [0..<num (allocatedBuffers hs)])"
proof -
  obtain hs :: "(nat, unit, nat) wyHashSet" where hs: "wyHashSetNew 5 (\<lambda>k e. e = Some k) (\<lambda>k d. Some k) = Some hs"
    "keyed id (\<lambda>k. 7) (\<lambda>k d. k) hs" "contents id hs = Map.empty" "entries hs = 0"
    using keyed_new [of 5 "\<lambda>k e. e = Some k" id "\<lambda>k d. k" "\<lambda>k. 7"] by auto
  obtain hs1 where hs1: "wyHashSetInsert hs 7 3 () = Some (Some 3, hs1)"
    using wyHashSetInsert_absent [OF hs(2), of 3 "()"] hs(3,4) by auto
  have "hashset_reachable hs" by (rule hashset_reachable.new [OF hs(1)])
  moreover have "entries hs < entry_limit" using hs(4) by simp
  ultimately have "hashset_reachable hs1" using hs1 unfolding wyHashSetInsert_def by (rule hashset_reachable.insert)
  from wyHashSet_invariant [OF this] show ?thesis using hs(1) hs1 by (simp add: one_key_set_def Let_def)
qed

text \<open>
  A filter calls the callback on every element once and keeps, in their order, exactly those it
  accepts; the others go back to the pool and the set stays well-formed. Iteration visits the
  elements in the same order, up to the first one the callback refuses.
\<close>

theorem wyHashSetFilter_keeps:
  assumes "hashset_reachable hs"
  shows "\<exists>hs'. wyHashSetFilter hs (\<lambda>e seen. (P e, seen @ [e])) [] = Some (hs', map elt (concat (table hs))) \<and>
    concat (table hs') = filter (\<lambda>b. P (elt b)) (concat (table hs)) \<and> hashset_ok hs' \<and>
    entries hs' = length (filter (\<lambda>b. P (elt b)) (concat (table hs))) \<and>
    wyHashSetEach hs (\<lambda>e seen. (P e, seen @ [e])) [] =
      takeWhile P (map elt (concat (table hs))) @ take 1 (dropWhile P (map elt (concat (table hs))))"
proof -
  have ok: "hashset_ok hs" using assms by (rule reachable_ok)
  have f: "filter_bins (\<lambda>e seen. (P e, seen @ [e])) bs s =
      (filter (\<lambda>b. P (elt b)) bs, filter (\<lambda>b. \<not> P (elt b)) bs, s @ map elt bs)" for bs s
    by (induction bs arbitrary: s) auto
  have e: "snd (each_bin (\<lambda>e seen. (P e, seen @ [e])) bs s) =
      s @ takeWhile P (map elt bs) @ take 1 (dropWhile P (map elt bs))" for bs s
    by (induction bs arbitrary: s) auto
  show ?thesis using wyHashSetFilter_ok [OF ok f [of _ "[]"]] e [of "concat (table hs)" "[]"]
    by (auto simp: wyHashSetEach_ok [OF ok] hashset_ok_def bins_def)
qed

lemma wyHashSetFilter_keeps_witness:
  "\<exists>hs hs'. wyHashSetNew 5 (\<lambda>k e. e = Some k) (\<lambda>k d. Some k) = Some (hs :: (nat, unit, nat) wyHashSet) \<and>
    wyHashSetFilter hs (\<lambda>e seen. (e \<noteq> None, seen @ [e])) [] = Some (hs', map elt (concat (table hs)))"
proof -
  obtain hs :: "(nat, unit, nat) wyHashSet" where hs: "wyHashSetNew 5 (\<lambda>k e. e = Some k) (\<lambda>k d. Some k) = Some hs"
    using wyHashSetNew_ok [of 5] by auto
  then show ?thesis using wyHashSetFilter_keeps [OF hashset_reachable.new [OF hs], of "\<lambda>e. e \<noteq> None"] by auto
qed

text \<open>
  A set can be created exactly for sizes up to 805306457, with the least prime of the table that
  is not smaller; above 1610612741 the search for a size runs past the end of the table of primes,
  and between them the byte size of the table wraps.
\<close>

theorem wyHashSetNew_size:
  "(case wyHashSetNew sz f t of
      None \<Rightarrow> 805306457 < sz
    | Some hs \<Rightarrow> sz \<le> 805306457 \<and> entries hs = 0 \<and> length (table hs) = table_size hs \<and>
        int (table_size hs) = Min {p \<in> set primes. 0 < p \<and> sz \<le> p})"
proof (cases "sz \<le> 805306457")
  case True
  obtain p where p: "next_prime sz = Some p" "p \<in> set primes" "0 < p" "sz \<le> p"
    "\<forall>q\<in>set primes. 0 < q \<and> sz \<le> q \<longrightarrow> p \<le> q"
    using next_prime_Some [of sz] True by auto
  have "Min {p \<in> set primes. 0 < p \<and> sz \<le> p} = p" by (rule Min_eqI) (use p in auto)
  moreover obtain hs where hs: "wyHashSetNew sz f t = Some hs" "hashset_ok hs" "bins hs = {#}"
    using wyHashSetNew_ok [OF True, of f t] by blast
  moreover have "table_size hs = nat p" using hs(1) p(1) by (auto simp: wyHashSetNew_def Option.bind_eq_Some_conv)
  ultimately show ?thesis using True p(3) by (simp add: hashset_ok_def chains_ok_def)
next
  case False
  then have "wyHashSetNew sz f t = None" using wyHashSetNew_Some_le [of sz f t] by (cases "wyHashSetNew sz f t") auto
  then show ?thesis using False by simp
qed

section \<open>The character set of a bitmap font\<close>

text \<open>
  A client: the characters of a font (\<open>bitmapfont/wyBitmapFont.cpp\<close>) keyed by the code \<open>word\<close>, which is
  also the hash; the element is the \<open>wyCharInfo\<close> itself. A code is a 32 bit \<open>int\<close>, converted to \<open>size_t\<close>
  to be compared and hashed. The rectangle of the character is a parameter \<open>'r\<close>.
\<close>

record 'r wyCharInfo =
  ci_word :: int
  ci_left :: int
  ci_right :: int
  ci_top :: int
  ci_page :: int
  ci_texRect :: 'r

type_synonym 'r charset = "(nat, 'r wyCharInfo, 'r wyCharInfo) wyHashSet"

definition as_size :: "int \<Rightarrow> nat" where
  "as_size i = nat (i mod int size_mod)"

definition charSetEqlFunc :: "nat \<Rightarrow> 'r wyCharInfo ptr \<Rightarrow> bool" where
  "charSetEqlFunc wc pCi = (case pCi of Some ci \<Rightarrow> as_size (ci_word ci) = wc | None \<Rightarrow> False)"

definition charSetTransFunc :: "nat \<Rightarrow> 'r wyCharInfo \<Rightarrow> 'r wyCharInfo ptr" where
  "charSetTransFunc wc data = Some data"

definition charset_new :: "'r charset option" where
  "charset_new = wyHashSetNew 100 charSetEqlFunc charSetTransFunc"

definition addCharInfo :: "'r charset \<Rightarrow> 'r wyCharInfo \<Rightarrow> 'r charset option" where
  "addCharInfo charset ci =
     do { r \<leftarrow> wyHashSetInsert charset (as_size (ci_word ci)) (as_size (ci_word ci)) ci; Some (snd r) }"

fun add_chars :: "'r wyCharInfo list \<Rightarrow> 'r charset \<Rightarrow> 'r charset option" where
  "add_chars [] charset = Some charset"
| "add_chars (ci # cis) charset = do { c \<leftarrow> addCharInfo charset ci; add_chars cis c }"

definition getCharInfo :: "'r charset \<Rightarrow> int \<Rightarrow> 'r wyCharInfo ptr option" where
  "getCharInfo charset wc = wyHashSetFind charset (as_size wc) (as_size wc)"

lemma add_chars_ok:
  "keyed (\<lambda>ci. as_size (ci_word ci)) (\<lambda>k. k) (\<lambda>k d. d) c \<Longrightarrow> entries c + length cis \<le> entry_limit \<Longrightarrow>
   \<exists>c'. add_chars cis c = Some c' \<and> keyed (\<lambda>ci. as_size (ci_word ci)) (\<lambda>k. k) (\<lambda>k d. d) c' \<and>
     (\<forall>k. contents (\<lambda>ci. as_size (ci_word ci)) c' k =
       (case contents (\<lambda>ci. as_size (ci_word ci)) c k of
          Some ci \<Rightarrow> Some ci | None \<Rightarrow> List.find (\<lambda>ci. as_size (ci_word ci) = k) cis))"
proof (induction cis arbitrary: c)
  case (Cons ci cis)
  have "entries c < entry_limit" using Cons.prems by simp
  from hash_set.insert [OF Cons.prems(1) this, where k = "as_size (ci_word ci)" and d = ci]
  obtain e c1 where c1: "wyHashSetInsert c (as_size (ci_word ci)) (as_size (ci_word ci)) ci = Some (e, c1)"
    "keyed (\<lambda>ci. as_size (ci_word ci)) (\<lambda>k. k) (\<lambda>k d. d) c1" "entries c1 \<le> Suc (entries c)"
    "contents (\<lambda>ci. as_size (ci_word ci)) c1 =
      snd (map_call (\<lambda>k d. d) (Add (as_size (ci_word ci)) ci) (contents (\<lambda>ci. as_size (ci_word ci)) c))"
    by auto
  have "entries c1 + length cis \<le> entry_limit" using c1(3) Cons.prems(2) by simp
  from Cons.IH [OF c1(2) this] obtain c' where c': "add_chars cis c1 = Some c'"
    "keyed (\<lambda>ci. as_size (ci_word ci)) (\<lambda>k. k) (\<lambda>k d. d) c'"
    "\<And>k. contents (\<lambda>ci. as_size (ci_word ci)) c' k =
      (case contents (\<lambda>ci. as_size (ci_word ci)) c1 k of
         Some ci \<Rightarrow> Some ci | None \<Rightarrow> List.find (\<lambda>ci. as_size (ci_word ci) = k) cis)"
    by blast
  have "contents (\<lambda>ci. as_size (ci_word ci)) c' k =
      (case contents (\<lambda>ci. as_size (ci_word ci)) c k of
         Some ci \<Rightarrow> Some ci | None \<Rightarrow> List.find (\<lambda>ci. as_size (ci_word ci) = k) (ci # cis))" for k
    using c1(4) by (cases "contents (\<lambda>ci. as_size (ci_word ci)) c (as_size (ci_word ci))") (auto simp: c'(3) split: option.split)
  then show ?case using c1(1) c'(1,2) by (simp add: addCharInfo_def)
qed (auto split: option.splits)

text \<open>
  After any characters are added to a fresh character set, looking a code up gives the first one
  that was added with that code, and \<open>NULL\<close> when there was none.
\<close>

theorem getCharInfo_first_added:
  assumes "length cis \<le> entry_limit"
  shows "\<exists>c c'. charset_new = Some c \<and> add_chars cis c = Some c' \<and>
    getCharInfo c' wc = Some (List.find (\<lambda>ci. as_size (ci_word ci) = as_size wc) cis)"
proof -
  have "charSetTransFunc = (\<lambda>k d :: 'a wyCharInfo. Some d)" by (simp add: charSetTransFunc_def fun_eq_iff)
  then have new: "charset_new = wyHashSetNew 100 charSetEqlFunc (\<lambda>k d :: 'a wyCharInfo. Some d)"
    by (simp add: charset_new_def)
  obtain c :: "'a charset" where c: "charset_new = Some c" "keyed (\<lambda>ci. as_size (ci_word ci)) (\<lambda>k. k) (\<lambda>k d. d) c"
    "contents (\<lambda>ci. as_size (ci_word ci)) c = Map.empty" "entries c = 0"
    using keyed_new [of 100 charSetEqlFunc "\<lambda>ci. as_size (ci_word ci)" "\<lambda>k d. d" "\<lambda>k. k"]
    by (auto simp: new charSetEqlFunc_def)
  from add_chars_ok [OF c(2), of cis] obtain c' where c': "add_chars cis c = Some c'"
    "keyed (\<lambda>ci. as_size (ci_word ci)) (\<lambda>k. k) (\<lambda>k d. d) c'"
    "contents (\<lambda>ci. as_size (ci_word ci)) c' (as_size wc) = List.find (\<lambda>ci. as_size (ci_word ci) = as_size wc) cis"
    using assms c(3,4) by auto
  have "wyHashSetFind c' (as_size wc) (as_size wc) = Some (contents (\<lambda>ci. as_size (ci_word ci)) c' (as_size wc))"
    by (rule hash_set.find [OF c'(2)])
  then show ?thesis using c(1) c'(1,3) by (auto simp: getCharInfo_def)
qed

lemma getCharInfo_first_added_witness:
  "\<exists>c c'. charset_new = Some c \<and>
     add_chars [\<lparr>ci_word = 65, ci_left = 0, ci_right = 1, ci_top = 2, ci_page = 0, ci_texRect = ()\<rparr>,
                \<lparr>ci_word = 65, ci_left = 5, ci_right = 1, ci_top = 2, ci_page = 0, ci_texRect = ()\<rparr>] c = Some c' \<and>
     getCharInfo c' 65 = Some (Some \<lparr>ci_word = 65, ci_left = 0, ci_right = 1, ci_top = 2, ci_page = 0, ci_texRect = ()\<rparr>)"
  using getCharInfo_first_added [of "[\<lparr>ci_word = 65, ci_left = 0, ci_right = 1, ci_top = 2, ci_page = 0, ci_texRect = ()\<rparr>,
      \<lparr>ci_word = 65, ci_left = 5, ci_right = 1, ci_top = 2, ci_page = 0, ci_texRect = ()\<rparr>]" 65] by simp

end
