(* ===== verification/Wy_Object.thy ===== *)
theory Wy_Object imports Wy_Array "HOL-Library.Multiset" begin

text \<open>
  Reference counting: \<open>common/wyObject.cpp\<close> with its automatic and lazy release pools and
  \<open>common/wyAutoReleasePool.cpp\<close> with the pools of the threads. Objects are numbered in the order of
  their creation. What the destructors of the subclasses do with references is not in these files:
  it is a parameter \<open>dtor\<close>, the calls the destructor of an object makes, in order. \<open>None\<close> is no
  defined result: the use of a destroyed object, or a container changed under an iterator.

  A call of \<open>release\<close> can destroy the object, whose destructor releases other objects, and so on.
  The calls still to be made are kept as a stack of tasks.
\<close>

section \<open>Objects and pools\<close>

datatype ref_call = Release nat | AutoRelease nat | LazyRelease nat

text \<open>A thread pool is an object with \<open>m_thread\<close> and \<open>m_objects\<close>.\<close>

record wyObject =
  m_retainCount :: int
  m_name :: "bytes option"
  thread_pool :: "(int \<times> nat list) option"

text \<open>\<open>s_pools\<close> is \<open>NULL\<close> or a map from thread identifiers.\<close>

record memory =
  objects :: "wyObject option list"
  sAutoReleasePool :: "nat wyArray option"
  sLazyReleasePool :: "nat wyArray option"
  s_pools :: "(int \<times> nat) list option"

definition object_at :: "memory \<Rightarrow> nat \<Rightarrow> wyObject option" where
  "object_at s o' = Option.bind (rd (objects s) o') (\<lambda>c. c)"

definition set_object :: "memory \<Rightarrow> nat \<Rightarrow> wyObject option \<Rightarrow> memory" where
  "set_object s o' x = s\<lparr>objects := (objects s)[o' := x]\<rparr>"

definition wyObject_new :: "(int \<times> nat list) option \<Rightarrow> memory \<Rightarrow> nat \<times> memory" where
  "wyObject_new pool s =
     (length (objects s),
      s\<lparr>objects := objects s @ [Some \<lparr>m_retainCount = 1, m_name = None, thread_pool = pool\<rparr>]\<rparr>)"

definition retain :: "nat \<Rightarrow> memory \<Rightarrow> memory option" where
  "retain o' s = do { x \<leftarrow> object_at s o'; Some (set_object s o' (Some (x\<lparr>m_retainCount := m_retainCount x + 1\<rparr>))) }"

definition getRetainCount :: "nat \<Rightarrow> memory \<Rightarrow> int option" where
  "getRetainCount o' s = map_option m_retainCount (object_at s o')"

text \<open>\<open>copy\<close> of a \<open>NULL\<close> name is \<open>NULL\<close>.\<close>

definition setName :: "bytes option \<Rightarrow> nat \<Rightarrow> memory \<Rightarrow> memory option" where
  "setName name o' s =
     do { x \<leftarrow> object_at s o'; Some (set_object s o' (Some (x\<lparr>m_name := map_option c_str name\<rparr>))) }"

section \<open>The pools of the threads\<close>

text \<open>The constructor: the pool registers itself unless its thread has one.\<close>

definition wyAutoReleasePool_make :: "int \<Rightarrow> memory \<Rightarrow> nat \<times> memory" where
  "wyAutoReleasePool_make t s =
     (let pools = (case s_pools s of None \<Rightarrow> [] | Some m \<Rightarrow> m);
          (p, s1) = wyObject_new (Some (t, [])) s
      in (p, s1\<lparr>s_pools := Some (case map_of pools t of None \<Rightarrow> insort_key fst (t, p) pools | Some _ \<Rightarrow> pools)\<rparr>))"

text \<open>\<open>push_back\<close> to the vector of a pool whose destructor iterates over it is no defined result.\<close>

definition pool_push :: "nat \<Rightarrow> nat \<Rightarrow> memory \<Rightarrow> memory option" where
  "pool_push p o' s =
     do { x \<leftarrow> object_at s p;
          (t, os) \<leftarrow> thread_pool x;
          if m_retainCount x \<le> 0 then None
          else Some (set_object s p (Some (x\<lparr>thread_pool := Some (t, os @ [o'])\<rparr>))) }"

definition addToPool :: "int \<Rightarrow> nat \<Rightarrow> memory \<Rightarrow> memory option" where
  "addToPool t o' s =
     (let s1 = (if s_pools s = None then snd (wyAutoReleasePool_make t s) else s) in
      case Option.bind (s_pools s1) (\<lambda>m. map_of m t) of
        Some p \<Rightarrow> pool_push p o' s1
      | None \<Rightarrow> Some s1)"

text \<open>The end of a pool's destructor; finding nothing in the map is only possible when it is there.\<close>

definition unregister :: "int \<Rightarrow> memory \<Rightarrow> memory option" where
  "unregister t s =
     do { m \<leftarrow> s_pools s;
          case map_of m t of
            None \<Rightarrow> Some s
          | Some _ \<Rightarrow>
              (let m1 = filter (\<lambda>e. fst e \<noteq> t) m in Some (s\<lparr>s_pools := (if m1 = [] then None else Some m1)\<rparr>)) }"

section \<open>Automatic and lazy release\<close>

definition push_opt :: "nat wyArray option \<Rightarrow> nat \<Rightarrow> nat wyArray option option" where
  "push_opt pool o' = (case pool of None \<Rightarrow> Some None | Some a \<Rightarrow> map_option Some (wyArrayPush a (Some o')))"

definition lazyRelease :: "nat \<Rightarrow> memory \<Rightarrow> memory option" where
  "lazyRelease o' s =
     do { _ \<leftarrow> object_at s o';
          pool \<leftarrow> push_opt (sLazyReleasePool s) o';
          Some (s\<lparr>sLazyReleasePool := pool\<rparr>) }"

text \<open>\<open>gl\<close> is \<open>isGLThread()\<close>, \<open>t\<close> is \<open>currentThreadId()\<close>.\<close>

definition autoRelease :: "bool \<Rightarrow> int \<Rightarrow> nat \<Rightarrow> memory \<Rightarrow> memory option" where
  "autoRelease gl t o' s =
     do { _ \<leftarrow> object_at s o';
          if gl then do { pool \<leftarrow> push_opt (sAutoReleasePool s) o'; Some (s\<lparr>sAutoReleasePool := pool\<rparr>) }
          else addToPool t o' s }"

definition javaRelease :: "bool \<Rightarrow> int \<Rightarrow> nat \<Rightarrow> memory \<Rightarrow> memory option" where
  "javaRelease gl t o' s =
     do { a \<leftarrow> sLazyReleasePool s;
          i \<leftarrow> wyArrayIndexOf a (Some o') None;
          if i \<noteq> -1
          then do { (_, a1) \<leftarrow> wyArrayDeleteIndex a i;
                    autoRelease gl t o' (s\<lparr>sLazyReleasePool := Some a1\<rparr>) }
          else Some s }"

section \<open>Release\<close>

datatype task = Call ref_call | Unregister int | Free nat

text \<open>The destructor of an object: the subclass's calls, or those of a thread pool.\<close>

definition destructor :: "(nat \<Rightarrow> ref_call list) \<Rightarrow> nat \<Rightarrow> wyObject \<Rightarrow> task list" where
  "destructor dtor o' x =
     (case thread_pool x of
        None \<Rightarrow> map Call (dtor o')
      | Some (t, os) \<Rightarrow> map (\<lambda>p. Call (Release p)) os @ [Unregister t])"

text \<open>One task: the tasks it leaves to be done first, and the state.\<close>

fun task_step :: "(nat \<Rightarrow> ref_call list) \<Rightarrow> bool \<Rightarrow> int \<Rightarrow> task \<Rightarrow> memory \<Rightarrow> (task list \<times> memory) option" where
  "task_step dtor gl t (Call (Release o')) s =
     do { x \<leftarrow> object_at s o';
          if m_retainCount x \<le> 0 then Some ([], s)
          else let s1 = set_object s o' (Some (x\<lparr>m_retainCount := m_retainCount x - 1\<rparr>)) in
               if m_retainCount x - 1 \<le> 0 then Some (destructor dtor o' x @ [Free o'], s1) else Some ([], s1) }"
| "task_step dtor gl t (Call (AutoRelease o')) s = do { s1 \<leftarrow> autoRelease gl t o' s; Some ([], s1) }"
| "task_step dtor gl t (Call (LazyRelease o')) s = do { s1 \<leftarrow> lazyRelease o' s; Some ([], s1) }"
| "task_step dtor gl t (Unregister t') s = do { s1 \<leftarrow> unregister t' s; Some ([], s1) }"
| "task_step dtor gl t (Free o') s = do { _ \<leftarrow> object_at s o'; Some ([], set_object s o' None) }"

text \<open>The work a task and an object can still cause; every task makes the total smaller.\<close>

fun task_work :: "task \<Rightarrow> nat" where
  "task_work (Call (AutoRelease o')) = 6"
| "task_work _ = 1"

definition object_work :: "(nat \<Rightarrow> ref_call list) \<Rightarrow> nat \<Rightarrow> wyObject option \<Rightarrow> nat" where
  "object_work dtor o' c =
     (case c of None \<Rightarrow> 0
      | Some x \<Rightarrow> if m_retainCount x \<le> 0 then 0 else 2 + sum_list (map task_work (destructor dtor o' x)))"

definition memory_work :: "(nat \<Rightarrow> ref_call list) \<Rightarrow> memory \<Rightarrow> nat" where
  "memory_work dtor s = (\<Sum>o'<length (objects s). object_work dtor o' (objects s ! o'))"

definition tasks_work :: "task list \<Rightarrow> nat" where
  "tasks_work ts = sum_list (map task_work ts)"

lemma sum_lessThan_change:
  fixes f g :: "nat \<Rightarrow> nat"
  assumes "i < n" "\<And>j. j < n \<Longrightarrow> j \<noteq> i \<Longrightarrow> f j = g j"
  shows "sum f {..<n} + g i = sum g {..<n} + f i"
proof -
  have "sum f ({..<n} - {i}) = sum g ({..<n} - {i})" by (rule sum.cong) (use assms(2) in auto)
  then show ?thesis using assms(1) sum.remove [of "{..<n}" i f] sum.remove [of "{..<n}" i g] by simp
qed

lemma object_at_Some: "object_at s o' = Some x \<longleftrightarrow> o' < length (objects s) \<and> objects s ! o' = Some x"
  by (auto simp: object_at_def opt_simps)

lemma memory_work_set:
  assumes "o' < length (objects s)"
  shows "memory_work dtor (set_object s o' c) + object_work dtor o' (objects s ! o') =
    memory_work dtor s + object_work dtor o' c"
  using sum_lessThan_change [of o' "length (objects s)"
      "\<lambda>j. object_work dtor j ((objects s)[o' := c] ! j)" "\<lambda>j. object_work dtor j (objects s ! j)"] assms
  by (simp add: memory_work_def set_object_def)

lemma memory_work_cong [simp]:
  "memory_work dtor (s\<lparr>sAutoReleasePool := a\<rparr>) = memory_work dtor s"
  "memory_work dtor (s\<lparr>sLazyReleasePool := a\<rparr>) = memory_work dtor s"
  "memory_work dtor (s\<lparr>s_pools := m\<rparr>) = memory_work dtor s"
  by (simp_all add: memory_work_def)

lemma make_work: "memory_work dtor (snd (wyAutoReleasePool_make t s)) = memory_work dtor s + 3"
  by (simp add: wyAutoReleasePool_make_def wyObject_new_def Let_def memory_work_def object_work_def destructor_def nth_append)

lemma pool_push_work:
  assumes "pool_push p o' s = Some s1"
  shows "memory_work dtor s1 = memory_work dtor s + 1"
proof -
  obtain x t os where x: "object_at s p = Some x" "thread_pool x = Some (t, os)" "\<not> m_retainCount x \<le> 0"
    "s1 = set_object s p (Some (x\<lparr>thread_pool := Some (t, os @ [o'])\<rparr>))"
    using assms by (auto simp: pool_push_def opt_simps split: if_splits)
  then show ?thesis using memory_work_set [of p s dtor "Some (x\<lparr>thread_pool := Some (t, os @ [o'])\<rparr>)"]
    by (simp add: object_at_Some object_work_def destructor_def)
qed

lemma autoRelease_work: "autoRelease gl t o' s = Some s1 \<Longrightarrow> memory_work dtor s1 \<le> memory_work dtor s + 4"
  using make_work [of dtor t s]
  by (auto simp: autoRelease_def addToPool_def Let_def opt_simps split: if_splits option.splits dest!: pool_push_work [of _ _ _ _ dtor])

lemma task_step_work:
  assumes "task_step dtor gl t k s = Some (ts, s1)"
  shows "tasks_work ts + memory_work dtor s1 < task_work k + memory_work dtor s"
proof (cases "(dtor, gl, t, k, s)" rule: task_step.cases)
  case (1 dtor' gl' t' o' s')
  then obtain x where x: "object_at s o' = Some x" using assms by (auto simp: opt_simps)
  then have o: "o' < length (objects s)" "objects s ! o' = Some x" by (simp_all add: object_at_Some)
  note m = memory_work_set [OF o(1), of dtor "Some (x\<lparr>m_retainCount := m_retainCount x - 1\<rparr>)"]
  show ?thesis using 1 assms x m o
    by (auto simp: Let_def tasks_work_def object_work_def destructor_def split: if_splits option.splits)
next
  case (2 dtor' gl' t' o' s')
  then show ?thesis using assms autoRelease_work [of gl t o' s s1 dtor] by (auto simp: opt_simps tasks_work_def)
next
  case (3 dtor' gl' t' o' s')
  then show ?thesis using assms by (auto simp: opt_simps lazyRelease_def tasks_work_def)
next
  case (4 dtor' gl' t' u s')
  then show ?thesis using assms by (auto simp: opt_simps unregister_def Let_def tasks_work_def split: option.splits)
next
  case (5 dtor' gl' t' o' s')
  then show ?thesis using assms memory_work_set [of o' s dtor None]
    by (auto simp: opt_simps object_at_Some tasks_work_def object_work_def)
qed

text \<open>The calls on the stack until none is left.\<close>

function run :: "(nat \<Rightarrow> ref_call list) \<Rightarrow> bool \<Rightarrow> int \<Rightarrow> task list \<Rightarrow> memory \<Rightarrow> memory option" where
  "run dtor gl t [] s = Some s"
| "run dtor gl t (k # ts) s =
     (case task_step dtor gl t k s of None \<Rightarrow> None | Some r \<Rightarrow> run dtor gl t (fst r @ ts) (snd r))"
  by pat_completeness auto
termination
  by (relation "measure (\<lambda>(dtor, gl, t, ts, s). tasks_work ts + memory_work dtor s)")
    (use task_step_work in \<open>fastforce simp: tasks_work_def\<close>)+

definition wyObjectRelease ::
  "(nat \<Rightarrow> ref_call list) \<Rightarrow> bool \<Rightarrow> int \<Rightarrow> nat ptr \<Rightarrow> memory \<Rightarrow> memory option" where
  "wyObjectRelease dtor gl t p s =
     (case p of None \<Rightarrow> Some s | Some o' \<Rightarrow> run dtor gl t [Call (Release o')] s)"

definition wyObjectRetain :: "nat ptr \<Rightarrow> memory \<Rightarrow> memory option" where
  "wyObjectRetain p s = (case p of None \<Rightarrow> Some s | Some o' \<Rightarrow> retain o' s)"

definition wyObjectAutoRelease :: "bool \<Rightarrow> int \<Rightarrow> nat ptr \<Rightarrow> memory \<Rightarrow> memory option" where
  "wyObjectAutoRelease gl t p s = (case p of None \<Rightarrow> Some s | Some o' \<Rightarrow> autoRelease gl t o' s)"

definition wyObjectLazyRelease :: "nat ptr \<Rightarrow> memory \<Rightarrow> memory option" where
  "wyObjectLazyRelease p s = (case p of None \<Rightarrow> Some s | Some o' \<Rightarrow> lazyRelease o' s)"

section \<open>Clearing the pools\<close>

definition wyInitAutoReleasePool :: "memory \<Rightarrow> memory option" where
  "wyInitAutoReleasePool s =
     do { a \<leftarrow> (case sAutoReleasePool s of None \<Rightarrow> wyArrayNew 100 | Some a \<Rightarrow> Some a);
          l \<leftarrow> (case sLazyReleasePool s of None \<Rightarrow> wyArrayNew 100 | Some l \<Rightarrow> Some l);
          Some (s\<lparr>sAutoReleasePool := Some a, sLazyReleasePool := Some l\<rparr>) }"

text \<open>\<open>releaseObject\<close> as the iterator: the array it iterates over is the pool in the state.\<close>

definition release_auto :: "(nat \<Rightarrow> ref_call list) \<Rightarrow> bool \<Rightarrow> int \<Rightarrow> (nat, memory) array_iterator" where
  "release_auto dtor gl t a p i s =
     do { s1 \<leftarrow> wyObjectRelease dtor gl t p (s\<lparr>sAutoReleasePool := Some a\<rparr>);
          a1 \<leftarrow> sAutoReleasePool s1;
          Some (a1, s1, True) }"

definition release_lazy :: "(nat \<Rightarrow> ref_call list) \<Rightarrow> bool \<Rightarrow> int \<Rightarrow> (nat, memory) array_iterator" where
  "release_lazy dtor gl t a p i s =
     do { s1 \<leftarrow> wyObjectRelease dtor gl t p (s\<lparr>sLazyReleasePool := Some a\<rparr>);
          a1 \<leftarrow> sLazyReleasePool s1;
          Some (a1, s1, True) }"

definition wyClearAutoReleasePool :: "(nat \<Rightarrow> ref_call list) \<Rightarrow> bool \<Rightarrow> int \<Rightarrow> memory \<Rightarrow> memory option" where
  "wyClearAutoReleasePool dtor gl t s =
     (case sAutoReleasePool s of
        None \<Rightarrow> Some s
      | Some a \<Rightarrow>
          if 0 < num a
          then do { (a1, s1) \<leftarrow> wyArrayEach (release_auto dtor gl t) a s;
                    a2 \<leftarrow> wyArrayClear a1;
                    Some (s1\<lparr>sAutoReleasePool := Some a2\<rparr>) }
          else Some s)"

definition wyClearLazyReleasePool :: "(nat \<Rightarrow> ref_call list) \<Rightarrow> bool \<Rightarrow> int \<Rightarrow> memory \<Rightarrow> memory option" where
  "wyClearLazyReleasePool dtor gl t s =
     (case sLazyReleasePool s of
        None \<Rightarrow> Some s
      | Some a \<Rightarrow>
          if 0 < num a
          then do { (a1, s1) \<leftarrow> wyArrayEach (release_lazy dtor gl t) a s;
                    a2 \<leftarrow> wyArrayClear a1;
                    Some (s1\<lparr>sLazyReleasePool := Some a2\<rparr>) }
          else Some s)"

text \<open>A pool that is still locked is not freed, but forgotten.\<close>

definition wyDestroyAutoReleasePool :: "(nat \<Rightarrow> ref_call list) \<Rightarrow> bool \<Rightarrow> int \<Rightarrow> memory \<Rightarrow> memory option" where
  "wyDestroyAutoReleasePool dtor gl t s =
     do { s2 \<leftarrow> (case sAutoReleasePool s of
                   None \<Rightarrow> Some s
                 | Some a \<Rightarrow>
                     do { (a1, s1) \<leftarrow> wyArrayEach (release_auto dtor gl t) a s;
                          _ \<leftarrow> wyArrayClear a1;
                          Some (s1\<lparr>sAutoReleasePool := None\<rparr>) });
          wyClearLazyReleasePool dtor gl t s2 }"

end
