(* ===== verification/Wy_Object_Spec.thy ===== *)
theory Wy_Object_Spec imports Wy_Object begin

text \<open>
  The ownership account of the reference counting model: who owes which release, the invariant that
  bounds it by the retain counts, and its preservation by every task, by whole calls and by clearing
  the pools.
\<close>

section \<open>Who owes a release\<close>

fun target :: "ref_call \<Rightarrow> nat" where
  "target (Release o') = o'"
| "target (AutoRelease o') = o'"
| "target (LazyRelease o') = o'"

definition targets :: "task list \<Rightarrow> nat list" where
  "targets ts = concat (map (\<lambda>k. case k of Call c \<Rightarrow> [target c] | _ \<Rightarrow> []) ts)"

definition frees :: "task list \<Rightarrow> nat list" where
  "frees ts = concat (map (\<lambda>k. case k of Free o' \<Rightarrow> [o'] | _ \<Rightarrow> []) ts)"

definition unregs :: "task list \<Rightarrow> int list" where
  "unregs ts = concat (map (\<lambda>k. case k of Unregister t \<Rightarrow> [t] | _ \<Rightarrow> []) ts)"

lemma targets_simps [simp]:
  "targets [] = []" "targets (Call c # ts) = target c # targets ts" "targets (Unregister t # ts) = targets ts"
  "targets (Free p # ts) = targets ts" "targets (xs @ ys) = targets xs @ targets ys"
  by (simp_all add: targets_def)

lemma frees_simps [simp]:
  "frees [] = []" "frees (Call c # ts) = frees ts" "frees (Unregister t # ts) = frees ts"
  "frees (Free p # ts) = p # frees ts" "frees (xs @ ys) = frees xs @ frees ys"
  by (simp_all add: frees_def)

lemma unregs_simps [simp]:
  "unregs [] = []" "unregs (Call c # ts) = unregs ts" "unregs (Unregister t # ts) = t # unregs ts"
  "unregs (Free p # ts) = unregs ts" "unregs (xs @ ys) = unregs xs @ unregs ys"
  by (simp_all add: unregs_def)

text \<open>The objects a live object holds: those its destructor will release.\<close>

definition holds :: "(nat \<Rightarrow> ref_call list) \<Rightarrow> nat \<Rightarrow> wyObject option \<Rightarrow> nat list" where
  "holds dtor p c =
     (case c of None \<Rightarrow> [] | Some x \<Rightarrow> if m_retainCount x \<le> 0 then [] else targets (destructor dtor p x))"

definition held :: "(nat \<Rightarrow> ref_call list) \<Rightarrow> memory \<Rightarrow> nat \<Rightarrow> nat" where
  "held dtor s o' = (\<Sum>p<length (objects s). count_list (holds dtor p (objects s ! p)) o')"

definition count_of :: "memory \<Rightarrow> nat \<Rightarrow> nat" where
  "count_of s o' = (case object_at s o' of None \<Rightarrow> 0 | Some x \<Rightarrow> nat (m_retainCount x))"

text \<open>
  The releases of an object still to come: by the clients, from the pools (\<open>xs\<close>), by the tasks on the
  stack and by the destructors of the objects that hold it.
\<close>

definition owed ::
  "(nat \<Rightarrow> ref_call list) \<Rightarrow> (nat \<Rightarrow> nat) \<Rightarrow> nat list \<Rightarrow> task list \<Rightarrow> memory \<Rightarrow> nat \<Rightarrow> nat" where
  "owed dtor client xs ts s o' = client o' + count_list xs o' + count_list (targets ts) o' + held dtor s o'"

text \<open>The map of the thread pools: every live pool is in it, under its thread.\<close>

definition pool_map :: "memory \<Rightarrow> int \<rightharpoonup> nat" where
  "pool_map s = (case s_pools s of None \<Rightarrow> Map.empty | Some m \<Rightarrow> map_of m)"

definition pools_registered :: "task list \<Rightarrow> memory \<Rightarrow> bool" where
  "pools_registered ts s \<longleftrightarrow>
     (\<forall>p x t os. object_at s p = Some x \<and> thread_pool x = Some (t, os) \<and> 0 < m_retainCount x \<longrightarrow>
        pool_map s t = Some p \<and> t \<notin> set (unregs ts)) \<and>
     distinct (unregs ts) \<and> (\<forall>t\<in>set (unregs ts). pool_map s t \<noteq> None)"

definition sound :: "(nat \<Rightarrow> ref_call list) \<Rightarrow> (nat \<Rightarrow> nat) \<Rightarrow> nat list \<Rightarrow> task list \<Rightarrow> memory \<Rightarrow> bool" where
  "sound dtor client xs ts s \<longleftrightarrow>
     (\<forall>o'. owed dtor client xs ts s o' \<le> count_of s o') \<and>
     (\<forall>o' x. object_at s o' = Some x \<longrightarrow> 0 \<le> m_retainCount x) \<and>
     (\<forall>o'. count_list (frees ts) o' = (case object_at s o' of Some x \<Rightarrow> if m_retainCount x = 0 then 1 else 0 | None \<Rightarrow> 0)) \<and>
     pools_registered ts s"

text \<open>The entries of a pool from some index on; a locked pool is being iterated over.\<close>

definition pool_holds :: "nat wyArray option \<Rightarrow> nat list \<Rightarrow> bool" where
  "pool_holds pool ys \<longleftrightarrow>
     (case pool of None \<Rightarrow> ys = [] | Some a \<Rightarrow> array_ok a \<and> (\<exists>pre. elems a = pre @ map Some ys))"

definition room :: "memory \<Rightarrow> nat \<Rightarrow> bool" where
  "room s w \<longleftrightarrow>
     (\<forall>a. sAutoReleasePool s = Some a \<or> sLazyReleasePool s = Some a \<longrightarrow> length (elems a) + w \<le> array_limit)"

text \<open>What the tasks do to a pool: they append entries, unless it is locked.\<close>

definition grown :: "nat wyArray option \<Rightarrow> nat list \<Rightarrow> nat wyArray option \<Rightarrow> nat list \<Rightarrow> bool" where
  "grown pool ys pool' ys' \<longleftrightarrow>
     (case pool of
        None \<Rightarrow> pool' = None \<and> ys' = ys
      | Some a \<Rightarrow> \<exists>a' new. pool' = Some a' \<and> locked a' = locked a \<and> elems a' = elems a @ map Some new \<and> ys' = ys @ new \<and>
          (locked a \<longrightarrow> a' = a \<and> new = []))"

lemma grown_refl: "grown p y p y" by (cases p) (auto simp: grown_def)

lemma grown_trans: "grown p y p' y' \<Longrightarrow> grown p' y' p'' y'' \<Longrightarrow> grown p y p'' y''"
  by (cases p) (force simp: grown_def)+

text \<open>Off the GL thread no destructor may use \<open>autoRelease\<close>.\<close>

definition is_auto :: "task \<Rightarrow> bool" where
  "is_auto k \<longleftrightarrow> (\<exists>o'. k = Call (AutoRelease o'))"

definition auto_free :: "(nat \<Rightarrow> ref_call list) \<Rightarrow> bool \<Rightarrow> task list \<Rightarrow> bool" where
  "auto_free dtor gl ts \<longleftrightarrow> gl \<or> (\<forall>k\<in>set ts. \<not> is_auto k) \<and> (\<forall>o'. \<forall>c\<in>set (dtor o'). \<not> is_auto (Call c))"

section \<open>One task\<close>

lemma object_at_set:
  "o' < length (objects s) \<Longrightarrow> object_at (set_object s o' c) p = (if p = o' then c else object_at s p)"
  by (auto simp: object_at_def set_object_def rd_def)

lemma held_set:
  assumes "o' < length (objects s)"
  shows "held dtor (set_object s o' c) p + count_list (holds dtor o' (objects s ! o')) p =
    held dtor s p + count_list (holds dtor o' c) p"
  using sum_lessThan_change [of o' "length (objects s)"
      "\<lambda>j. count_list (holds dtor j ((objects s)[o' := c] ! j)) p" "\<lambda>j. count_list (holds dtor j (objects s ! j)) p"] assms
  by (simp add: held_def set_object_def)

lemma cong_pools [simp]:
  "object_at (s\<lparr>sAutoReleasePool := a\<rparr>) = object_at s" "object_at (s\<lparr>sLazyReleasePool := a\<rparr>) = object_at s"
  "object_at (s\<lparr>s_pools := m\<rparr>) = object_at s"
  "held dtor (s\<lparr>sAutoReleasePool := a\<rparr>) = held dtor s" "held dtor (s\<lparr>sLazyReleasePool := a\<rparr>) = held dtor s"
  "held dtor (s\<lparr>s_pools := m\<rparr>) = held dtor s"
  "count_of (s\<lparr>sAutoReleasePool := a\<rparr>) = count_of s" "count_of (s\<lparr>sLazyReleasePool := a\<rparr>) = count_of s"
  "count_of (s\<lparr>s_pools := m\<rparr>) = count_of s"
  "pool_map (s\<lparr>sAutoReleasePool := a\<rparr>) = pool_map s" "pool_map (s\<lparr>sLazyReleasePool := a\<rparr>) = pool_map s"
  by (simp_all add: object_at_def held_def count_of_def pool_map_def fun_eq_iff)

lemma sound_cong_pools [simp]:
  "sound dtor client xs ts (s\<lparr>sAutoReleasePool := a\<rparr>) = sound dtor client xs ts s"
  "sound dtor client xs ts (s\<lparr>sLazyReleasePool := a\<rparr>) = sound dtor client xs ts s"
  by (simp_all add: sound_def owed_def pools_registered_def)

lemma set_object_pools [simp]:
  "sAutoReleasePool (set_object s p c) = sAutoReleasePool s" "sLazyReleasePool (set_object s p c) = sLazyReleasePool s"
  "s_pools (set_object s p c) = s_pools s" "pool_map (set_object s p c) = pool_map s"
  by (simp_all add: set_object_def pool_map_def)

lemma sound_target:
  assumes "sound dtor client xs (Call c # ts) s"
  obtains x where "object_at s (target c) = Some x" "1 \<le> m_retainCount x"
proof -
  have "1 \<le> owed dtor client xs (Call c # ts) s (target c)" by (simp add: owed_def)
  also have "\<dots> \<le> count_of s (target c)" using assms by (simp add: sound_def)
  finally show thesis by (intro that [of "the (object_at s (target c))"]) (auto simp: count_of_def split: option.splits)
qed

lemma sound_release:
  assumes snd: "sound dtor client xs (Call (Release o') # ts) s"
  shows "\<exists>ts1 s1. task_step dtor gl t (Call (Release o')) s = Some (ts1, s1) \<and> sound dtor client xs (ts1 @ ts) s1 \<and>
    sAutoReleasePool s1 = sAutoReleasePool s \<and> sLazyReleasePool s1 = sLazyReleasePool s \<and>
    (auto_free dtor gl (Call (Release o') # ts) \<longrightarrow> auto_free dtor gl (ts1 @ ts))"
proof -
  obtain x where x: "object_at s o' = Some x" "1 \<le> m_retainCount x" using sound_target [OF snd] by auto
  have o: "o' < length (objects s)" "objects s ! o' = Some x" using x(1) by (simp_all add: object_at_Some)
  let ?x = "x\<lparr>m_retainCount := m_retainCount x - 1\<rparr>"
  let ?s1 = "set_object s o' (Some ?x)"
  let ?ts1 = "if m_retainCount x \<le> 1 then destructor dtor o' x @ [Free o'] else []"
  have step: "task_step dtor gl t (Call (Release o')) s = Some (?ts1, ?s1)" using x by simp
  have h: "held dtor ?s1 p + count_list (targets ?ts1) p = held dtor s p" for p
    using held_set [OF o(1), of dtor "Some ?x" p] x(2) by (auto simp: o(2) holds_def destructor_def split: option.splits)
  have fr: "frees (destructor dtor o' x) = []"
    by (auto simp: destructor_def frees_def split: option.splits)
  have un: "unregs (destructor dtor o' x) = (case thread_pool x of None \<Rightarrow> [] | Some r \<Rightarrow> [fst r])"
    by (auto simp: destructor_def unregs_def split: option.splits)
  have 1: "owed dtor client xs (?ts1 @ ts) ?s1 p \<le> count_of ?s1 p" for p
  proof -
    have "owed dtor client xs (Call (Release o') # ts) s p \<le> count_of s p" using snd by (simp add: sound_def)
    then show ?thesis using h [of p] x by (cases "p = o'") (simp_all add: owed_def count_of_def object_at_set o)
  qed
  have 2: "count_list (frees (?ts1 @ ts)) p =
      (case object_at ?s1 p of Some y \<Rightarrow> if m_retainCount y = 0 then 1 else 0 | None \<Rightarrow> 0)" for p
  proof -
    have "count_list (frees ts) p = (case object_at s p of Some y \<Rightarrow> if m_retainCount y = 0 then 1 else 0 | None \<Rightarrow> 0)"
      using snd by (simp add: sound_def)
    then show ?thesis using x by (cases "p = o'") (simp_all add: object_at_set o fr)
  qed
  have reg: "pools_registered (Call (Release o') # ts) s" using snd by (simp add: sound_def)
  have 3: "pools_registered (?ts1 @ ts) ?s1"
  proof (cases "m_retainCount x \<le> 1 \<and> thread_pool x \<noteq> None")
    case True
    then obtain t' os where tp: "thread_pool x = Some (t', os)" by auto
    have "0 < m_retainCount x" using x(2) by simp
    then have t': "pool_map s t' = Some o'" "t' \<notin> set (unregs ts)"
      using reg x(1) tp unfolding pools_registered_def unregs_simps(2) by blast+
    have "pool_map s u = Some p \<and> u \<notin> set (unregs (?ts1 @ ts))"
      if "object_at ?s1 p = Some y" "thread_pool y = Some (u, os')" "0 < m_retainCount y" for p y u os'
    proof -
      have "p \<noteq> o'" using that True x by (auto simp: object_at_set o)
      then have "object_at s p = Some y" using that(1) by (simp add: object_at_set o)
      then have "pool_map s u = Some p" "u \<notin> set (unregs ts)" using reg that by (auto simp: pools_registered_def)
      moreover have "u \<noteq> t'" using \<open>p \<noteq> o'\<close> t'(1) calculation(1) by auto
      ultimately show ?thesis using True un tp by simp
    qed
    then show ?thesis using True reg t' un tp by (auto simp: pools_registered_def)
  next
    case False
    then have "unregs (?ts1 @ ts) = unregs ts" using un by (auto split: option.splits)
    moreover have "object_at s p = Some y'" "thread_pool y' = thread_pool y" "0 < m_retainCount y'"
      if "object_at ?s1 p = Some y" "thread_pool y = Some (u, os')" "0 < m_retainCount y"
        "y' = (if p = o' then x else y)" for p y y' u os'
      using that x by (auto simp: object_at_set o split: if_splits)
    ultimately show ?thesis using reg unfolding pools_registered_def by (metis set_object_pools(4) unregs_simps(2))
  qed
  have 4: "object_at ?s1 p = Some y \<Longrightarrow> 0 \<le> m_retainCount y" for p y
    using snd x by (auto simp: sound_def object_at_set o split: if_splits)
  have 5: "auto_free dtor gl (?ts1 @ ts)" if "auto_free dtor gl (Call (Release o') # ts)"
    using that by (auto simp: auto_free_def destructor_def is_auto_def split: option.splits)
  show ?thesis using step 1 2 3 4 5 by (intro exI [of _ ?ts1] exI [of _ ?s1]) (simp add: sound_def)
qed

lemma push_opt_ok:
  assumes "pool_holds pool ys" "\<And>a. pool = Some a \<Longrightarrow> length (elems a) < array_limit"
  shows "\<exists>pool' ys'. push_opt pool o' = Some pool' \<and> pool_holds pool' ys' \<and> grown pool ys pool' ys' \<and>
    (ys' = ys \<or> ys' = ys @ [o']) \<and>
    (\<forall>a'. pool' = Some a' \<longrightarrow> (\<exists>a. pool = Some a \<and> length (elems a') \<le> Suc (length (elems a))))"
proof (cases pool)
  case None
  then show ?thesis using assms(1) by (intro exI [of _ None] exI [of _ ys]) (simp add: push_opt_def grown_def)
next
  case (Some a)
  obtain pre where a: "array_ok a" "elems a = pre @ map Some ys" using assms(1) Some by (auto simp: pool_holds_def)
  show ?thesis
  proof (cases "locked a")
    case True
    then show ?thesis using Some assms(1) grown_refl by (intro exI [of _ pool] exI [of _ ys]) (simp add: push_opt_def wyArrayPush_def)
  next
    case False
    have "unlocked_ok a" using a(1) False by (simp add: unlocked_ok_def)
    then obtain a' where a': "wyArrayPush a (Some o') = Some a'" "unlocked_ok a'" "elems a' = elems a @ [Some o']"
      using wy_array.push [of a "Some o'"] assms(2) [OF Some] by blast
    then show ?thesis using Some a False
      by (intro exI [of _ "Some a'"] exI [of _ "ys @ [o']"]) (simp add: push_opt_def pool_holds_def grown_def unlocked_ok_def)
  qed
qed

lemma sound_called:
  assumes "sound dtor client xs (Call c # ts) s" "mset xs' \<subseteq># add_mset (target c) (mset xs)"
  shows "sound dtor client xs' ts s"
proof -
  have c: "count_list xs' p \<le> count_list (target c # xs) p" for p
    using mset_subset_eq_count [OF assms(2), of p] by (simp flip: count_mset)
  have "owed dtor client xs' ts s p \<le> owed dtor client xs (Call c # ts) s p" for p
    using c [of p] by (auto simp: owed_def)
  then show ?thesis using assms(1) order_trans unfolding sound_def pools_registered_def frees_simps unregs_simps by blast
qed

lemma sound_free:
  assumes snd: "sound dtor client xs (Free o' # ts) s"
  shows "\<exists>s1. task_step dtor gl t (Free o') s = Some ([], s1) \<and> sound dtor client xs ts s1 \<and>
    sAutoReleasePool s1 = sAutoReleasePool s \<and> sLazyReleasePool s1 = sLazyReleasePool s"
proof -
  have f: "count_list (frees (Free o' # ts)) p =
      (case object_at s p of Some y \<Rightarrow> if m_retainCount y = 0 then 1 else 0 | None \<Rightarrow> 0)" for p
    using snd unfolding sound_def by blast
  obtain x where x: "object_at s o' = Some x" "m_retainCount x = 0" using f [of o'] by (auto split: option.splits if_splits)
  have o: "o' < length (objects s)" "objects s ! o' = Some x" using x(1) by (simp_all add: object_at_Some)
  let ?s1 = "set_object s o' None"
  have h: "held dtor ?s1 p = held dtor s p" for p
    using held_set [OF o(1), of dtor None p] x(2) by (simp add: o(2) holds_def)
  have "owed dtor client xs ts ?s1 p \<le> count_of ?s1 p" for p
  proof -
    have "owed dtor client xs (Free o' # ts) s p \<le> count_of s p" using snd by (simp add: sound_def)
    then show ?thesis using x h [of p] by (cases "p = o'") (simp_all add: owed_def count_of_def object_at_set o)
  qed
  moreover have "count_list (frees ts) p = (case object_at ?s1 p of Some y \<Rightarrow> if m_retainCount y = 0 then 1 else 0 | None \<Rightarrow> 0)" for p
    using f [of p] x by (cases "p = o'") (simp_all add: object_at_set o)
  moreover have "pools_registered ts ?s1" using snd by (auto simp: sound_def pools_registered_def object_at_set o split: if_splits)
  moreover have "object_at ?s1 p = Some y \<Longrightarrow> 0 \<le> m_retainCount y" for p y
    using snd by (auto simp: sound_def object_at_set o split: if_splits)
  ultimately show ?thesis using x by (intro exI [of _ ?s1]) (simp add: sound_def)
qed

lemma map_of_filter_other: "t \<noteq> u \<Longrightarrow> map_of (filter (\<lambda>e. fst e \<noteq> u) m) t = map_of m t"
  by (induction m) auto

lemma sound_unregister:
  assumes snd: "sound dtor client xs (Unregister u # ts) s"
  shows "\<exists>s1. task_step dtor gl t (Unregister u) s = Some ([], s1) \<and> sound dtor client xs ts s1 \<and>
    sAutoReleasePool s1 = sAutoReleasePool s \<and> sLazyReleasePool s1 = sLazyReleasePool s"
proof -
  have reg: "pools_registered (Unregister u # ts) s" using snd by (simp add: sound_def)
  then obtain p where "pool_map s u = Some p" by (auto simp: pools_registered_def)
  then obtain m where m: "s_pools s = Some m" "map_of m u = Some p" by (auto simp: pool_map_def split: option.splits)
  let ?m = "filter (\<lambda>e. fst e \<noteq> u) m"
  let ?s1 = "s\<lparr>s_pools := (if ?m = [] then None else Some ?m)\<rparr>"
  have pm: "pool_map ?s1 v = pool_map s v" if "v \<noteq> u" for v
    using map_of_filter_other [OF that, of m] m(1) by (auto simp: pool_map_def)
  have "pools_registered ts ?s1"
    using reg unfolding pools_registered_def cong_pools unregs_simps by (metis distinct.simps(2) list.set_intros pm)
  then have "sound dtor client xs ts ?s1" using snd by (simp add: sound_def owed_def)
  then show ?thesis using m by (intro exI [of _ ?s1]) (simp add: unregister_def Let_def)
qed

lemma room_le: "room s w \<Longrightarrow> w' \<le> w \<Longrightarrow> sAutoReleasePool s1 = sAutoReleasePool s \<Longrightarrow>
    sLazyReleasePool s1 = sLazyReleasePool s \<Longrightarrow> room s1 w'"
  by (fastforce simp: room_def)

lemma sound_step:
  assumes snd: "sound dtor client (ys @ zs) (k # ts) s" and p: "pool_holds (sAutoReleasePool s) ys" "pool_holds (sLazyReleasePool s) zs"
    and room: "room s (n + tasks_work (k # ts) + memory_work dtor s)" and af: "auto_free dtor gl (k # ts)"
  shows "\<exists>ts1 s1 ys1 zs1. task_step dtor gl t k s = Some (ts1, s1) \<and> sound dtor client (ys1 @ zs1) (ts1 @ ts) s1 \<and>
    pool_holds (sAutoReleasePool s1) ys1 \<and> pool_holds (sLazyReleasePool s1) zs1 \<and> auto_free dtor gl (ts1 @ ts) \<and>
    grown (sAutoReleasePool s) ys (sAutoReleasePool s1) ys1 \<and> grown (sLazyReleasePool s) zs (sLazyReleasePool s1) zs1 \<and>
    room s1 (n + tasks_work (ts1 @ ts) + memory_work dtor s1)"
proof -
  have same: ?thesis if "task_step dtor gl t k s = Some (ts1, s1)" "sound dtor client (ys @ zs) (ts1 @ ts) s1"
      "sAutoReleasePool s1 = sAutoReleasePool s" "sLazyReleasePool s1 = sLazyReleasePool s" "auto_free dtor gl (ts1 @ ts)" for ts1 s1
  proof -
    have "room s1 (n + tasks_work (ts1 @ ts) + memory_work dtor s1)"
      by (rule room_le [OF room _ that(3,4)]) (use task_step_work [OF that(1)] in \<open>simp add: tasks_work_def\<close>)
    then show ?thesis using that p grown_refl by (intro exI [of _ ts1] exI [of _ s1] exI [of _ ys] exI [of _ zs]) simp
  qed
  have af': "auto_free dtor gl ts" using af by (auto simp: auto_free_def)
  have lim: "length (elems a) < array_limit" if "sAutoReleasePool s = Some a \<or> sLazyReleasePool s = Some a" for a
  proof -
    have "1 \<le> task_work k" by (cases k rule: task_work.cases) simp_all
    then show ?thesis using room that unfolding room_def tasks_work_def by fastforce
  qed
  show ?thesis
  proof (cases k)
    case (Free o')
    then show ?thesis using sound_free [of dtor client "ys @ zs" o' ts s gl t] snd same af' by auto
  next
    case (Unregister u)
    then show ?thesis using sound_unregister [of dtor client "ys @ zs" u ts s gl t] snd same af' by auto
  next
    case (Call c)
    obtain x where x: "object_at s (target c) = Some x" using sound_target snd Call by metis
    show ?thesis
    proof (cases c)
      case (Release o')
      then show ?thesis using sound_release [of dtor client "ys @ zs" o' ts s gl t] snd same af Call by auto
    next
      case (AutoRelease o')
      then have gl using af Call by (auto simp: auto_free_def is_auto_def)
      obtain pool ys1 where r: "push_opt (sAutoReleasePool s) o' = Some pool" "pool_holds pool ys1"
          "grown (sAutoReleasePool s) ys pool ys1" "ys1 = ys \<or> ys1 = ys @ [o']"
          "\<forall>a'. pool = Some a' \<longrightarrow> (\<exists>a. sAutoReleasePool s = Some a \<and> length (elems a') \<le> Suc (length (elems a)))"
        using push_opt_ok [OF p(1), of o'] lim by blast
      let ?s1 = "s\<lparr>sAutoReleasePool := pool\<rparr>"
      have "mset (ys1 @ zs) \<subseteq># add_mset (target c) (mset (ys @ zs))" using r(4) AutoRelease by auto
      then have "sound dtor client (ys1 @ zs) ts ?s1" using sound_called snd Call by auto
      moreover have "room ?s1 (n + tasks_work ts + memory_work dtor ?s1)"
        using room r(5) Call AutoRelease unfolding room_def tasks_work_def by fastforce
      moreover have "task_step dtor gl t k s = Some ([], ?s1)" using Call AutoRelease x r(1) \<open>gl\<close> by (simp add: autoRelease_def)
      ultimately show ?thesis using r p af' grown_refl
        by (intro exI [of _ "[]"] exI [of _ ?s1] exI [of _ ys1] exI [of _ zs]) simp
    next
      case (LazyRelease o')
      obtain pool zs1 where r: "push_opt (sLazyReleasePool s) o' = Some pool" "pool_holds pool zs1"
          "grown (sLazyReleasePool s) zs pool zs1" "zs1 = zs \<or> zs1 = zs @ [o']"
          "\<forall>a'. pool = Some a' \<longrightarrow> (\<exists>a. sLazyReleasePool s = Some a \<and> length (elems a') \<le> Suc (length (elems a)))"
        using push_opt_ok [OF p(2), of o'] lim by blast
      let ?s1 = "s\<lparr>sLazyReleasePool := pool\<rparr>"
      have "mset (ys @ zs1) \<subseteq># add_mset (target c) (mset (ys @ zs))" using r(4) LazyRelease by auto
      then have "sound dtor client (ys @ zs1) ts ?s1" using sound_called snd Call by auto
      moreover have "room ?s1 (n + tasks_work ts + memory_work dtor ?s1)"
        using room r(5) Call LazyRelease unfolding room_def tasks_work_def by fastforce
      moreover have "task_step dtor gl t k s = Some ([], ?s1)" using Call LazyRelease x r(1) by (simp add: lazyRelease_def)
      ultimately show ?thesis using r p af' grown_refl
        by (intro exI [of _ "[]"] exI [of _ ?s1] exI [of _ ys] exI [of _ zs1]) simp
    qed
  qed
qed

section \<open>All tasks\<close>

lemma run_sound:
  "sound dtor client (ys @ zs) ts s \<Longrightarrow> pool_holds (sAutoReleasePool s) ys \<Longrightarrow> pool_holds (sLazyReleasePool s) zs \<Longrightarrow>
   room s (n + tasks_work ts + memory_work dtor s) \<Longrightarrow> auto_free dtor gl ts \<Longrightarrow>
   \<exists>s' ys' zs'. run dtor gl t ts s = Some s' \<and> sound dtor client (ys' @ zs') [] s' \<and>
     pool_holds (sAutoReleasePool s') ys' \<and> pool_holds (sLazyReleasePool s') zs' \<and>
     grown (sAutoReleasePool s) ys (sAutoReleasePool s') ys' \<and> grown (sLazyReleasePool s) zs (sLazyReleasePool s') zs' \<and>
     room s' (n + memory_work dtor s')"
proof (induction dtor gl t ts s arbitrary: ys zs rule: run.induct)
  case (1 dtor gl t s)
  then show ?case using grown_refl by (intro exI [of _ s] exI [of _ ys] exI [of _ zs]) (simp add: tasks_work_def)
next
  case (2 dtor gl t k ts s)
  obtain ts1 s1 ys1 zs1 where st: "task_step dtor gl t k s = Some (ts1, s1)" "sound dtor client (ys1 @ zs1) (ts1 @ ts) s1"
    "pool_holds (sAutoReleasePool s1) ys1" "pool_holds (sLazyReleasePool s1) zs1" "auto_free dtor gl (ts1 @ ts)"
    "grown (sAutoReleasePool s) ys (sAutoReleasePool s1) ys1" "grown (sLazyReleasePool s) zs (sLazyReleasePool s1) zs1"
    "room s1 (n + tasks_work (ts1 @ ts) + memory_work dtor s1)"
    using sound_step [OF 2(2-6), where t = t] by blast
  from 2(1) [of "(ts1, s1)" ys1 zs1] st obtain s' ys' zs' where r: "run dtor gl t (ts1 @ ts) s1 = Some s'"
    "sound dtor client (ys' @ zs') [] s'" "pool_holds (sAutoReleasePool s') ys'" "pool_holds (sLazyReleasePool s') zs'"
    "grown (sAutoReleasePool s1) ys1 (sAutoReleasePool s') ys'" "grown (sLazyReleasePool s1) zs1 (sLazyReleasePool s') zs'"
    "room s' (n + memory_work dtor s')"
    by auto
  show ?case using r st(1) grown_trans [OF st(6) r(5)] grown_trans [OF st(7) r(6)]
    by (intro exI [of _ s'] exI [of _ ys'] exI [of _ zs']) simp
qed

section \<open>The state between calls\<close>

definition entries_of :: "nat wyArray option \<Rightarrow> nat list" where
  "entries_of pool = (case pool of None \<Rightarrow> [] | Some a \<Rightarrow> map the (elems a))"

text \<open>A pool outside of an iteration: unlocked, and without \<open>NULL\<close> entries.\<close>

definition quiet :: "nat wyArray option \<Rightarrow> bool" where
  "quiet pool \<longleftrightarrow> (case pool of None \<Rightarrow> True | Some a \<Rightarrow> unlocked_ok a \<and> elems a = map Some (entries_of pool))"

definition balanced :: "(nat \<Rightarrow> ref_call list) \<Rightarrow> (nat \<Rightarrow> nat) \<Rightarrow> memory \<Rightarrow> bool" where
  "balanced dtor client s \<longleftrightarrow>
     sound dtor client (entries_of (sAutoReleasePool s) @ entries_of (sLazyReleasePool s)) [] s \<and>
     quiet (sAutoReleasePool s) \<and> quiet (sLazyReleasePool s)"

lemma quiet_holds: "quiet pool \<Longrightarrow> pool_holds pool (entries_of pool)"
  by (auto simp: quiet_def pool_holds_def unlocked_ok_def entries_of_def split: option.splits)

lemma quiet_grown:
  assumes "quiet pool" "grown pool (entries_of pool) pool' ys'" "pool_holds pool' ys'"
  shows "quiet pool' \<and> entries_of pool' = ys'"
proof (cases pool)
  case None
  then show ?thesis using assms by (auto simp: quiet_def grown_def entries_of_def)
next
  case (Some a)
  then obtain a' new where "pool' = Some a'" "locked a' = locked a" "elems a' = elems a @ map Some new"
    "ys' = entries_of pool @ new"
    using assms(2) by (auto simp: grown_def)
  then show ?thesis using Some assms(1,3)
    by (auto simp: quiet_def pool_holds_def unlocked_ok_def entries_of_def comp_def)
qed

lemma run_balanced:
  assumes "sound dtor client (entries_of (sAutoReleasePool s) @ entries_of (sLazyReleasePool s)) ts s"
    "quiet (sAutoReleasePool s)" "quiet (sLazyReleasePool s)"
    "room s (n + tasks_work ts + memory_work dtor s)" "auto_free dtor gl ts"
  shows "\<exists>s'. run dtor gl t ts s = Some s' \<and> balanced dtor client s' \<and> room s' (n + memory_work dtor s')"
proof -
  obtain s' ys' zs' where r: "run dtor gl t ts s = Some s'" "sound dtor client (ys' @ zs') [] s'"
    "pool_holds (sAutoReleasePool s') ys'" "pool_holds (sLazyReleasePool s') zs'"
    "grown (sAutoReleasePool s) (entries_of (sAutoReleasePool s)) (sAutoReleasePool s') ys'"
    "grown (sLazyReleasePool s) (entries_of (sLazyReleasePool s)) (sLazyReleasePool s') zs'"
    "room s' (n + memory_work dtor s')"
    using run_sound [OF assms(1) quiet_holds [OF assms(2)] quiet_holds [OF assms(3)] assms(4,5), where t = t] by blast
  then show ?thesis using quiet_grown [OF assms(2) r(5,3)] quiet_grown [OF assms(3) r(6,4)] by (auto simp: balanced_def)
qed

text \<open>A call by the client: the client's claim on the object becomes the task.\<close>

lemma sound_claim:
  assumes "sound dtor client xs [] s" "0 < client (target c)"
  shows "sound dtor (client(target c := client (target c) - 1)) xs [Call c] s"
proof -
  have "owed dtor (client(target c := client (target c) - 1)) xs [Call c] s p = owed dtor client xs [] s p" for p
    using assms(2) by (auto simp: owed_def)
  then show ?thesis using assms(1) by (simp add: sound_def pools_registered_def)
qed

lemma call_balanced:
  assumes "balanced dtor client s" "0 < client (target c)" "room s (n + 6 + memory_work dtor s)" "auto_free dtor gl [Call c]"
  shows "\<exists>s'. run dtor gl t [Call c] s = Some s' \<and> balanced dtor (client(target c := client (target c) - 1)) s' \<and>
    room s' (n + memory_work dtor s')"
proof -
  have "task_work (Call c) \<le> 6" by (cases c) simp_all
  then have "room s (n + tasks_work [Call c] + memory_work dtor s)"
    using room_le [OF assms(3), of "n + tasks_work [Call c] + memory_work dtor s" s] by (simp add: tasks_work_def)
  then show ?thesis
    using run_balanced [of dtor "client(target c := client (target c) - 1)" s "[Call c]" n gl t] assms
      sound_claim [of dtor client _ s c] by (auto simp: balanced_def)
qed

section \<open>Clearing a pool\<close>

text \<open>An iteration whose iterator leaves the array alone and keeps an invariant of its state.\<close>

lemma each_from_keeps:
  assumes "array_ok a" "\<And>i s. I i s \<Longrightarrow> i < num a \<Longrightarrow> \<exists>s'. f a (elems a ! i) i s = Some (a, s', True) \<and> I (Suc i) s'"
  shows "I i s \<Longrightarrow> i \<le> num a \<Longrightarrow> \<exists>s'. each_from f i a s = Some (a, s') \<and> I (num a) s'"
proof (induction "num a - i" arbitrary: i s)
  case 0
  then show ?case by (simp add: each_from.simps)
next
  case (Suc n)
  then have i: "i < num a" by simp
  obtain s1 where s1: "f a (elems a ! i) i s = Some (a, s1, True)" "I (Suc i) s1" using assms(2) [OF Suc.prems(1) i] by blast
  have "\<exists>s'. each_from f (Suc i) a s1 = Some (a, s') \<and> I (num a) s'" using Suc s1(2) by (intro Suc.hyps(1)) simp_all
  then show ?case using i s1(1) cell_elems [OF assms(1) i] by (subst each_from.simps) simp
qed

lemma wyArrayEach_keeps:
  assumes "array_ok a" "I 0 s"
    "\<And>i s. I i s \<Longrightarrow> i < num a \<Longrightarrow> \<exists>s'. f (a\<lparr>locked := True\<rparr>) (elems a ! i) i s = Some (a\<lparr>locked := True\<rparr>, s', True) \<and> I (Suc i) s'"
  shows "\<exists>s'. wyArrayEach f a s = Some (a\<lparr>locked := False\<rparr>, s') \<and> I (num a) s'"
  using each_from_keeps [of "a\<lparr>locked := True\<rparr>" I f 0 s] assms by (auto simp: wyArrayEach_def)

text \<open>The entry that is released is no longer held by the pool: its reference becomes the task.\<close>

lemma sound_pooled:
  assumes "sound dtor client xs [] s" "mset xs = add_mset p (mset xs')"
  shows "sound dtor client xs' [Call (Release p)] s"
proof -
  have "count_list xs q = count_list xs' q + (if p = q then 1 else 0)" for q
    using arg_cong [OF assms(2), of "\<lambda>m. count m q"] by (simp add: count_mset)
  then have "owed dtor client xs' [Call (Release p)] s q = owed dtor client xs [] s q" for q by (simp add: owed_def)
  then show ?thesis using assms(1) by (simp add: sound_def pools_registered_def)
qed

lemma auto_free_release: "auto_free dtor gl [] \<Longrightarrow> auto_free dtor gl [Call (Release p)]"
  by (simp add: auto_free_def is_auto_def)

lemma pool_holds_locked: "array_ok a \<Longrightarrow> elems a = map Some xs \<Longrightarrow> pool_holds (Some (a\<lparr>locked := True\<rparr>)) (drop i xs)"
  using append_take_drop_id [of i xs] by (auto simp: pool_holds_def simp flip: map_append intro!: exI [of _ "map Some (take i xs)"])

lemma room_cong_auto:
  "room s w \<Longrightarrow> sAutoReleasePool s = Some a \<Longrightarrow> elems b = elems a \<Longrightarrow> room (s\<lparr>sAutoReleasePool := Some b\<rparr>) w"
  by (auto simp: room_def)

text \<open>One step of the iteration, for a pool that \<open>put\<close> stores the locked array in.\<close>

lemma release_step:
  assumes "sound dtor client ws [] s" "room s (n + 1 + memory_work dtor s)" "auto_free dtor gl []"
    "pool_holds (sAutoReleasePool s) ys'" "pool_holds (sLazyReleasePool s) zs'" "mset ws = add_mset p (mset (ys' @ zs'))"
  shows "\<exists>s' ys'' zs''. wyObjectRelease dtor gl t (Some p) s = Some s' \<and> sound dtor client (ys'' @ zs'') [] s' \<and>
    pool_holds (sAutoReleasePool s') ys'' \<and> pool_holds (sLazyReleasePool s') zs'' \<and>
    grown (sAutoReleasePool s) ys' (sAutoReleasePool s') ys'' \<and> grown (sLazyReleasePool s) zs' (sLazyReleasePool s') zs'' \<and>
    room s' (n + memory_work dtor s')"
proof -
  have "sound dtor client (ys' @ zs') [Call (Release p)] s"
    by (rule sound_pooled [OF assms(1,6)])
  then show ?thesis
    using run_sound [of dtor client ys' zs' "[Call (Release p)]" s n gl t] assms(2,4,5) auto_free_release [OF assms(3)]
    by (simp add: wyObjectRelease_def tasks_work_def)
qed

lemma room_put:
  "room s w \<Longrightarrow> sAutoReleasePool s = Some a \<Longrightarrow> elems b = elems a \<Longrightarrow> room (s\<lparr>sAutoReleasePool := Some b\<rparr>) w"
  "room s w \<Longrightarrow> sLazyReleasePool s = Some a \<Longrightarrow> elems b = elems a \<Longrightarrow> room (s\<lparr>sLazyReleasePool := Some b\<rparr>) w"
  by (auto simp: room_def)

lemma clear_auto_ok:
  assumes bal: "balanced dtor client s" and af: "auto_free dtor gl []"
    and room: "room s (length (entries_of (sAutoReleasePool s)) + memory_work dtor s)"
  shows "\<exists>s'. wyClearAutoReleasePool dtor gl t s = Some s' \<and> balanced dtor client s' \<and>
    entries_of (sAutoReleasePool s') = [] \<and> (sAutoReleasePool s' = None \<longleftrightarrow> sAutoReleasePool s = None)"
proof (cases "sAutoReleasePool s")
  case None
  then show ?thesis using bal by (simp add: wyClearAutoReleasePool_def entries_of_def)
next
  case (Some a)
  let ?xs = "entries_of (sAutoReleasePool s)"
  have a: "array_ok a" "\<not> locked a" "elems a = map Some ?xs" using bal Some by (simp_all add: balanced_def quiet_def unlocked_ok_def)
  let ?l = "a\<lparr>locked := True\<rparr>"
  let ?put = "\<lambda>s. s\<lparr>sAutoReleasePool := Some ?l\<rparr>"
  let ?I = "\<lambda>i s. sound dtor client (drop i ?xs @ entries_of (sLazyReleasePool s)) [] s \<and> quiet (sLazyReleasePool s) \<and>
    room (?put s) (length ?xs - i + memory_work dtor s)"
  have n: "num a = length ?xs" using length_elems [OF a(1)] a(3) by simp
  have I0: "?I 0 s" using bal room_put(1) [OF room Some, of ?l] by (simp add: balanced_def)
  have step: "\<exists>s'. release_auto dtor gl t ?l (elems a ! i) i s1 = Some (?l, s', True) \<and> ?I (Suc i) s'"
    if I: "?I i s1" and i: "i < num a" for i s1
  proof -
    let ?zs = "entries_of (sLazyReleasePool s1)"
    have x: "elems a ! i = Some (?xs ! i)" using i n a(3) by simp
    have d: "drop i ?xs = ?xs ! i # drop (Suc i) ?xs" using i n by (simp add: Cons_nth_drop_Suc)
    have q: "quiet (sLazyReleasePool s1)" using I by simp
    have "length ?xs - i = length ?xs - Suc i + 1" using i n by simp
    then obtain s' ys'' zs'' where r: "wyObjectRelease dtor gl t (Some (?xs ! i)) (?put s1) = Some s'"
      "sound dtor client (ys'' @ zs'') [] s'" "pool_holds (sAutoReleasePool s') ys''" "pool_holds (sLazyReleasePool s') zs''"
      "grown (Some ?l) (drop (Suc i) ?xs) (sAutoReleasePool s') ys''" "grown (sLazyReleasePool s1) ?zs (sLazyReleasePool s') zs''"
      "room s' (length ?xs - Suc i + memory_work dtor s')"
      using release_step [of dtor client "drop i ?xs @ ?zs" "?put s1" "length ?xs - Suc i" gl "drop (Suc i) ?xs" ?zs "?xs ! i" t]
        I af quiet_holds [OF q] pool_holds_locked [OF a(1,3), of "Suc i"] by (auto simp: d)
    have e: "sAutoReleasePool s' = Some ?l" "ys'' = drop (Suc i) ?xs" using r(5) by (auto simp: grown_def)
    have "quiet (sLazyReleasePool s') \<and> entries_of (sLazyReleasePool s') = zs''" using quiet_grown [OF q r(6,4)] .
    moreover have "room (?put s') (length ?xs - Suc i + memory_work dtor s')" using room_put(1) [OF r(7) e(1), of ?l] by simp
    ultimately show ?thesis using r(1,2) e x by (auto simp: release_auto_def)
  qed
  have "\<exists>s'. wyArrayEach (release_auto dtor gl t) a s = Some (a\<lparr>locked := False\<rparr>, s') \<and> ?I (num a) s'"
    by (rule wyArrayEach_keeps [where I = ?I]) (rule a(1), rule I0, erule (1) step)
  then obtain s' where s': "wyArrayEach (release_auto dtor gl t) a s = Some (a\<lparr>locked := False\<rparr>, s')" "?I (num a) s'"
    by blast
  show ?thesis
  proof (cases "num a = 0")
    case True
    then show ?thesis using bal Some n by (simp add: wyClearAutoReleasePool_def)
  next
    case False
    have "array_ok (a\<lparr>locked := False\<rparr>)" using a(1) by simp
    from wyArrayClear_ok [OF this] obtain b where b: "wyArrayClear (a\<lparr>locked := False\<rparr>) = Some b" "array_ok b" "elems b = []" "\<not> locked b"
      by auto
    have "balanced dtor client (s'\<lparr>sAutoReleasePool := Some b\<rparr>)"
      using s'(2) b n by (simp add: balanced_def quiet_def entries_of_def unlocked_ok_def)
    then show ?thesis using s'(1) b False Some by (simp add: wyClearAutoReleasePool_def entries_of_def)
  qed
qed

lemma clear_lazy_ok:
  assumes bal: "balanced dtor client s" and af: "auto_free dtor gl []"
    and room: "room s (length (entries_of (sLazyReleasePool s)) + memory_work dtor s)"
  shows "\<exists>s'. wyClearLazyReleasePool dtor gl t s = Some s' \<and> balanced dtor client s' \<and>
    entries_of (sLazyReleasePool s') = [] \<and> (sLazyReleasePool s' = None \<longleftrightarrow> sLazyReleasePool s = None)"
proof (cases "sLazyReleasePool s")
  case None
  then show ?thesis using bal by (simp add: wyClearLazyReleasePool_def entries_of_def)
next
  case (Some a)
  let ?xs = "entries_of (sLazyReleasePool s)"
  have a: "array_ok a" "\<not> locked a" "elems a = map Some ?xs" using bal Some by (simp_all add: balanced_def quiet_def unlocked_ok_def)
  let ?l = "a\<lparr>locked := True\<rparr>"
  let ?put = "\<lambda>s. s\<lparr>sLazyReleasePool := Some ?l\<rparr>"
  let ?I = "\<lambda>i s. sound dtor client (entries_of (sAutoReleasePool s) @ drop i ?xs) [] s \<and> quiet (sAutoReleasePool s) \<and>
    room (?put s) (length ?xs - i + memory_work dtor s)"
  have n: "num a = length ?xs" using length_elems [OF a(1)] a(3) by simp
  have I0: "?I 0 s" using bal room_put(2) [OF room Some, of ?l] by (simp add: balanced_def)
  have step: "\<exists>s'. release_lazy dtor gl t ?l (elems a ! i) i s1 = Some (?l, s', True) \<and> ?I (Suc i) s'"
    if I: "?I i s1" and i: "i < num a" for i s1
  proof -
    let ?zs = "entries_of (sAutoReleasePool s1)"
    have x: "elems a ! i = Some (?xs ! i)" using i n a(3) by simp
    have d: "drop i ?xs = ?xs ! i # drop (Suc i) ?xs" using i n by (simp add: Cons_nth_drop_Suc)
    have q: "quiet (sAutoReleasePool s1)" using I by simp
    have "length ?xs - i = length ?xs - Suc i + 1" using i n by simp
    then obtain s' ys'' zs'' where r: "wyObjectRelease dtor gl t (Some (?xs ! i)) (?put s1) = Some s'"
      "sound dtor client (zs'' @ ys'') [] s'" "pool_holds (sLazyReleasePool s') ys''" "pool_holds (sAutoReleasePool s') zs''"
      "grown (Some ?l) (drop (Suc i) ?xs) (sLazyReleasePool s') ys''" "grown (sAutoReleasePool s1) ?zs (sAutoReleasePool s') zs''"
      "room s' (length ?xs - Suc i + memory_work dtor s')"
      using release_step [of dtor client "?zs @ drop i ?xs" "?put s1" "length ?xs - Suc i" gl ?zs "drop (Suc i) ?xs" "?xs ! i" t]
        I af quiet_holds [OF q] pool_holds_locked [OF a(1,3), of "Suc i"] by (auto simp: d)
    have e: "sLazyReleasePool s' = Some ?l" "ys'' = drop (Suc i) ?xs" using r(5) by (auto simp: grown_def)
    have "quiet (sAutoReleasePool s') \<and> entries_of (sAutoReleasePool s') = zs''" using quiet_grown [OF q r(6,4)] .
    moreover have "room (?put s') (length ?xs - Suc i + memory_work dtor s')" using room_put(2) [OF r(7) e(1), of ?l] by simp
    ultimately show ?thesis using r(1,2) e x by (auto simp: release_lazy_def)
  qed
  have "\<exists>s'. wyArrayEach (release_lazy dtor gl t) a s = Some (a\<lparr>locked := False\<rparr>, s') \<and> ?I (num a) s'"
    by (rule wyArrayEach_keeps [where I = ?I]) (rule a(1), rule I0, erule (1) step)
  then obtain s' where s': "wyArrayEach (release_lazy dtor gl t) a s = Some (a\<lparr>locked := False\<rparr>, s')" "?I (num a) s'"
    by blast
  show ?thesis
  proof (cases "num a = 0")
    case True
    then show ?thesis using bal Some n by (simp add: wyClearLazyReleasePool_def)
  next
    case False
    have "array_ok (a\<lparr>locked := False\<rparr>)" using a(1) by simp
    from wyArrayClear_ok [OF this] obtain b where b: "wyArrayClear (a\<lparr>locked := False\<rparr>) = Some b" "array_ok b" "elems b = []" "\<not> locked b"
      by auto
    have "balanced dtor client (s'\<lparr>sLazyReleasePool := Some b\<rparr>)"
      using s'(2) b n by (simp add: balanced_def quiet_def entries_of_def unlocked_ok_def)
    then show ?thesis using s'(1) b False Some by (simp add: wyClearLazyReleasePool_def entries_of_def)
  qed
qed

end
