(* ===== verification/Wy_Object_Props.thy ===== *)
theory Wy_Object_Props imports Wy_Object_Spec begin

text \<open>
  The properties of reference counting and of the release pools (\<open>common/wyObject.cpp\<close>,
  \<open>common/wyAutoReleasePool.cpp\<close>).
\<close>

section \<open>New objects\<close>

text \<open>The constructor hands the references that the destructor will release to the new object.\<close>

lemma new_balanced:
  assumes "balanced dtor client s" "\<And>p. count_list (map target (dtor (length (objects s)))) p \<le> client p"
    "client (length (objects s)) = 0"
  shows "balanced dtor
      (\<lambda>p. if p = length (objects s) then 1 else client p - count_list (map target (dtor (length (objects s)))) p)
      (snd (wyObject_new None s))"
proof -
  let ?n = "length (objects s)"
  let ?s' = "snd (wyObject_new None s)"
  let ?x = "\<lparr>m_retainCount = 1, m_name = None, thread_pool = None\<rparr>"
  have at: "object_at ?s' p = (if p = ?n then Some ?x else object_at s p)" for p
    by (auto simp: object_at_def wyObject_new_def rd_def nth_append)
  have t: "targets (map Call cs) = map target cs" for cs by (induction cs) auto
  have h: "held dtor ?s' p = held dtor s p + count_list (map target (dtor ?n)) p" for p
    by (simp add: held_def wyObject_new_def nth_append holds_def destructor_def t)
  have n0: "count_list (map target (dtor ?n)) ?n = 0" using assms(2) [of ?n] assms(3) by simp
  have pools: "sAutoReleasePool ?s' = sAutoReleasePool s" "sLazyReleasePool ?s' = sLazyReleasePool s" "pool_map ?s' = pool_map s"
    by (simp_all add: wyObject_new_def pool_map_def)
  let ?xs = "entries_of (sAutoReleasePool s) @ entries_of (sLazyReleasePool s)"
  have snd: "sound dtor client ?xs [] s" using assms(1) by (simp add: balanced_def)
  then have le: "owed dtor client ?xs [] s p \<le> count_of s p" for p by (simp add: sound_def)
  have "owed dtor (\<lambda>p. if p = ?n then 1 else client p - count_list (map target (dtor ?n)) p) ?xs [] ?s' p \<le> count_of ?s' p" for p
  proof (cases "p = ?n")
    case True
    have "owed dtor client ?xs [] s ?n = 0" using le [of ?n] by (simp add: count_of_def object_at_def)
    then show ?thesis using True n0 h [of ?n] at [of ?n] by (simp add: owed_def count_of_def)
  next
    case False
    then show ?thesis using le [of p] h [of p] at [of p] assms(2) [of p] by (simp add: owed_def count_of_def)
  qed
  moreover have "pools_registered [] ?s'" using snd by (auto simp: sound_def pools_registered_def at pools split: if_splits)
  ultimately have "sound dtor (\<lambda>p. if p = ?n then 1 else client p - count_list (map target (dtor ?n)) p) ?xs [] ?s'"
    using snd by (auto simp: sound_def at split: if_splits)
  then show ?thesis using assms(1) by (simp add: balanced_def pools)
qed

definition no_objects :: memory where
  "no_objects = \<lparr>objects = [], sAutoReleasePool = None, sLazyReleasePool = None, s_pools = None\<rparr>"

lemma no_objects_balanced: "balanced dtor (\<lambda>_. 0) no_objects"
  by (simp add: balanced_def no_objects_def quiet_def entries_of_def sound_def owed_def held_def object_at_def
      pools_registered_def)


section \<open>Properties\<close>

text \<open>A client's call on an object.\<close>

fun client_call :: "(nat \<Rightarrow> ref_call list) \<Rightarrow> bool \<Rightarrow> int \<Rightarrow> ref_call \<Rightarrow> memory \<Rightarrow> memory option" where
  "client_call dtor gl t (Release o') s = wyObjectRelease dtor gl t (Some o') s"
| "client_call dtor gl t (AutoRelease o') s = wyObjectAutoRelease gl t (Some o') s"
| "client_call dtor gl t (LazyRelease o') s = wyObjectLazyRelease (Some o') s"

lemma client_call_run: "client_call dtor gl t c s = run dtor gl t [Call c] s"
  by (cases c) (auto simp: wyObjectRelease_def wyObjectAutoRelease_def wyObjectLazyRelease_def
      Option.bind_eq_Some_conv Option.bind_eq_None_conv split: option.splits)

text \<open>Retaining a claimed object raises its count by one and changes nothing else.\<close>

lemma retain_claimed:
  assumes "balanced dtor client m" "0 < client c"
  obtains x where "object_at m c = Some x" "1 \<le> m_retainCount x"
    "retain c m = Some (set_object m c (Some (x\<lparr>m_retainCount := m_retainCount x + 1\<rparr>)))"
proof -
  have "owed dtor client (entries_of (sAutoReleasePool m) @ entries_of (sLazyReleasePool m)) [] m c \<le> count_of m c"
    using assms(1) by (simp add: balanced_def sound_def)
  then have "0 < count_of m c" using assms(2) by (simp add: owed_def)
  then obtain x where "object_at m c = Some x" "1 \<le> m_retainCount x" by (auto simp: count_of_def split: option.splits)
  then show thesis by (intro that) (simp_all add: retain_def)
qed

text \<open>A count that is raised by one pays for one new claim of a client or of a destructor.\<close>

lemma balanced_raise:
  assumes bal: "balanced dtor client m" and c: "object_at m c = Some x" "1 \<le> m_retainCount x"
    and le: "\<And>r. client' r + held dtor' m r \<le> client r + held dtor m r + (if r = c then 1 else 0)"
  shows "balanced dtor' client' (set_object m c (Some (x\<lparr>m_retainCount := m_retainCount x + 1\<rparr>)))"
proof -
  let ?m = "set_object m c (Some (x\<lparr>m_retainCount := m_retainCount x + 1\<rparr>))"
  let ?xs = "entries_of (sAutoReleasePool m) @ entries_of (sLazyReleasePool m)"
  have o: "c < length (objects m)" "objects m ! c = Some x" using c(1) by (simp_all add: object_at_Some)
  have snd: "sound dtor client ?xs [] m" using bal by (simp add: balanced_def)
  have "holds d q (objects ?m ! q) = holds d q (objects m ! q)" for d q
    using o c(2) by (cases "q = c") (auto simp: set_object_def holds_def destructor_def split: option.split)
  then have held: "held d ?m r = held d m r" for d r by (simp add: held_def set_object_def)
  have owed: "owed dtor' client' ?xs [] ?m r \<le> count_of ?m r" for r
  proof -
    have "owed dtor client ?xs [] m r \<le> count_of m r" using snd by (simp add: sound_def)
    then show ?thesis using held [of dtor' r] le [of r] c
      by (cases "r = c") (auto simp: owed_def count_of_def object_at_set [OF o(1)] nat_add_distrib)
  qed
  have "sound dtor' client' ?xs [] ?m" unfolding sound_def
  proof (intro conjI allI impI)
    fix q y
    assume "object_at ?m q = Some y"
    then show "0 \<le> m_retainCount y" using snd c(2) by (auto simp: sound_def object_at_set [OF o(1)] split: if_splits)
  next
    fix q
    have f: "count_list (frees []) q = (case object_at m q of Some y \<Rightarrow> if m_retainCount y = 0 then 1 else 0 | None \<Rightarrow> 0)"
      using snd unfolding sound_def by blast
    show "count_list (frees []) q = (case object_at ?m q of Some y \<Rightarrow> if m_retainCount y = 0 then 1 else 0 | None \<Rightarrow> 0)"
      using f c by (cases "q = c") (simp_all add: object_at_set [OF o(1)])
  next
    have reg: "pools_registered [] m" using snd by (simp add: sound_def)
    show "pools_registered [] ?m" unfolding pools_registered_def
    proof (intro conjI allI impI)
      fix q y t os
      assume a: "object_at ?m q = Some y \<and> thread_pool y = Some (t, os) \<and> 0 < m_retainCount y"
      then have "object_at m q = Some (if q = c then x else y)" using c(1) by (simp add: object_at_set [OF o(1)] split: if_splits)
      moreover have "thread_pool (if q = c then x else y) = Some (t, os) \<and> 0 < m_retainCount (if q = c then x else y)"
        using a c(2) by (auto simp: object_at_set [OF o(1)] split: if_splits)
      ultimately show "pool_map ?m t = Some q" "t \<notin> set (unregs [])"
        using reg unfolding pools_registered_def by (metis set_object_pools(4))+
    qed (use reg in \<open>simp_all add: pools_registered_def\<close>)
  qed (rule owed)
  then show ?thesis using bal by (simp add: balanced_def)
qed

lemma retain_balanced:
  assumes "balanced dtor client s" "0 < client c"
  shows "\<exists>s'. wyObjectRetain (Some c) s = Some s' \<and> balanced dtor (client(c := Suc (client c))) s'"
proof -
  obtain x where x: "object_at s c = Some x" "1 \<le> m_retainCount x"
    "retain c s = Some (set_object s c (Some (x\<lparr>m_retainCount := m_retainCount x + 1\<rparr>)))"
    using retain_claimed [OF assms] .
  have "balanced dtor (client(c := Suc (client c))) (set_object s c (Some (x\<lparr>m_retainCount := m_retainCount x + 1\<rparr>)))"
    by (rule balanced_raise [OF assms(1) x(1,2)]) simp
  then show ?thesis using x(3) by (simp add: wyObjectRetain_def)
qed

text \<open>
  C6: No use after free: as long as the clients, the pools and the destructors of live objects
  together claim at most the retain count of each object, a release, autorelease or lazy release of
  a claimed object is defined, with all the destructions it causes, and keeps that account: claimed
  objects stay alive, destroyed ones are claimed by nobody. A retain gives the client one claim more.
  Off the GL thread destructors must not
  call \<open>autoRelease\<close>.
\<close>

theorem refcount_call_safe:
  assumes "balanced dtor client s" "0 < client (target c)" "room s (6 + memory_work dtor s)"
    "gl \<or> (\<forall>o' c'. c' \<in> insert c (set (dtor o')) \<longrightarrow> (\<forall>p. c' \<noteq> AutoRelease p))"
  shows "(\<exists>s'. client_call dtor gl t c s = Some s' \<and> balanced dtor (client(target c := client (target c) - 1)) s' \<and>
      (\<forall>o'. 0 < (client(target c := client (target c) - 1)) o' \<longrightarrow> object_at s' o' \<noteq> None)) \<and>
    (\<exists>s'. wyObjectRetain (Some (target c)) s = Some s' \<and> balanced dtor (client(target c := Suc (client (target c)))) s')"
proof -
  have af: "auto_free dtor gl [Call c]" using assms(4) by (auto simp: auto_free_def is_auto_def)
  obtain s' where s': "run dtor gl t [Call c] s = Some s'" "balanced dtor (client(target c := client (target c) - 1)) s'"
    using call_balanced [of dtor client s c 0 gl t] assms(1-3) af by auto
  have "object_at s' o' \<noteq> None" if "0 < (client(target c := client (target c) - 1)) o'" for o'
  proof -
    have "0 < count_of s' o'"
      using s'(2) that unfolding balanced_def sound_def owed_def by (meson add_gr_0 order_less_le_trans)
    then show ?thesis by (auto simp: count_of_def split: option.splits)
  qed
  then show ?thesis using s' client_call_run retain_balanced [OF assms(1,2)] by auto
qed

text \<open>Two objects; the destructor of the second releases the first.\<close>

definition owner :: "nat \<Rightarrow> ref_call list" where
  "owner p = (if p = 1 then [Release 0] else [])"

definition two_objects :: memory where
  "two_objects = snd (wyObject_new None (snd (wyObject_new None no_objects)))"

lemma two_objects_balanced: "balanced owner (\<lambda>p. if p = 1 then 1 else 0) two_objects"
proof -
  have first: "balanced owner (\<lambda>p. if p = 0 then 1 else 0) (snd (wyObject_new None no_objects))"
  proof -
    have "(\<lambda>p. if p = length (objects no_objects) then 1
        else 0 - count_list (map target (owner (length (objects no_objects)))) p) = (\<lambda>p. if p = 0 then 1 else (0 :: nat))"
      by (simp add: no_objects_def fun_eq_iff)
    then show ?thesis using new_balanced [OF no_objects_balanced, of owner] by (simp add: no_objects_def owner_def)
  qed
  let ?s = "snd (wyObject_new None no_objects)"
  have n: "length (objects ?s) = 1" by (simp add: wyObject_new_def no_objects_def)
  have "balanced owner (\<lambda>p. if p = length (objects ?s) then 1
      else (if p = 0 then 1 else 0) - count_list (map target (owner (length (objects ?s)))) p) (snd (wyObject_new None ?s))"
    by (rule new_balanced [OF first]) (simp_all add: n owner_def)
  moreover have "(\<lambda>p. if p = length (objects ?s) then 1
      else (if p = 0 then 1 else 0) - count_list (map target (owner (length (objects ?s)))) p) = (\<lambda>p. if p = 1 then 1 else 0)"
    by (auto simp: n owner_def fun_eq_iff)
  ultimately show ?thesis by (simp only: two_objects_def)
qed

lemma refcount_call_safe_witness:
  "\<exists>s'. wyObjectRelease owner True 0 (Some 1) two_objects = Some s' \<and> balanced owner (\<lambda>_. 0) s'"
proof -
  have "room two_objects (6 + memory_work owner two_objects)"
    by (simp add: room_def two_objects_def wyObject_new_def no_objects_def)
  from refcount_call_safe [OF two_objects_balanced, of "Release 1", OF _ this, of True 0] show ?thesis
    by (auto simp: fun_upd_def cong: if_cong)
qed

text \<open>Counts of existing objects never grow while tasks run.\<close>

lemma count_of_set:
  "o' < length (objects s) \<Longrightarrow> count_of (set_object s o' c) p =
     (if p = o' then (case c of None \<Rightarrow> 0 | Some x \<Rightarrow> nat (m_retainCount x)) else count_of s p)"
  by (simp add: count_of_def object_at_set)

lemma length_set_object [simp]: "length (objects (set_object s p c)) = length (objects s)"
  by (simp add: set_object_def)

lemma addToPool_count:
  assumes "addToPool t o' s = Some s1" "p < length (objects s)"
  shows "count_of s1 p = count_of s p \<and> p < length (objects s1)"
proof -
  let ?s = "if s_pools s = None then snd (wyAutoReleasePool_make t s) else s"
  have m: "count_of ?s p = count_of s p" "p < length (objects ?s)"
    using assms(2) by (simp_all add: wyAutoReleasePool_make_def wyObject_new_def Let_def count_of_def object_at_def nth_append)
  show ?thesis
  proof (cases "Option.bind (s_pools ?s) (\<lambda>m. map_of m t)")
    case None
    then show ?thesis using assms(1) m by (simp add: addToPool_def Let_def)
  next
    case (Some q)
    then have "pool_push q o' ?s = Some s1" using assms(1) by (simp add: addToPool_def Let_def)
    then obtain x t os where x: "object_at ?s q = Some x" "s1 = set_object ?s q (Some (x\<lparr>thread_pool := Some (t, os @ [o'])\<rparr>))"
      by (auto simp: pool_push_def opt_simps split: if_splits)
    then have q: "q < length (objects ?s)" by (simp add: object_at_Some)
    show ?thesis using m count_of_set [OF q] x by (auto simp: count_of_def set_object_def)
  qed
qed

lemma task_step_count:
  assumes "task_step dtor gl t k s = Some (ts, s1)" "p < length (objects s)"
  shows "count_of s1 p \<le> count_of s p \<and> p < length (objects s1)"
proof (cases "(dtor, gl, t, k, s)" rule: task_step.cases)
  case (1 dtor' gl' t' o' s')
  then have k: "k = Call (Release o')" by simp
  obtain x where x: "object_at s o' = Some x" using assms(1) by (auto simp: k opt_simps)
  then have o: "o' < length (objects s)" by (simp add: object_at_Some)
  have "s1 = s \<or> s1 = set_object s o' (Some (x\<lparr>m_retainCount := m_retainCount x - 1\<rparr>))"
    using assms(1) x by (auto simp: k Let_def split: if_splits)
  then show ?thesis using assms(2) x count_of_set [OF o] by (auto simp: set_object_def count_of_def)
next
  case (2 dtor' gl' t' o' s')
  then show ?thesis using assms addToPool_count [of t o' s s1 p]
    by (auto simp: opt_simps autoRelease_def split: if_splits)
next
  case (3 dtor' gl' t' o' s')
  then show ?thesis using assms by (auto simp: opt_simps lazyRelease_def)
next
  case (4 dtor' gl' t' u s')
  then show ?thesis using assms by (auto simp: opt_simps unregister_def Let_def split: option.splits)
next
  case (5 dtor' gl' t' o' s')
  then show ?thesis using assms by (auto simp: opt_simps object_at_Some count_of_set)
qed

lemma run_count:
  "run dtor gl t ts s = Some s' \<Longrightarrow> p < length (objects s) \<Longrightarrow> count_of s' p \<le> count_of s p"
proof (induction dtor gl t ts s rule: run.induct)
  case (2 dtor gl t k ts s)
  then obtain ts1 s1 where st: "task_step dtor gl t k s = Some (ts1, s1)" "run dtor gl t (ts1 @ ts) s1 = Some s'"
    by (auto split: option.splits)
  then show ?case using 2(1) [OF st(1)] task_step_count [OF st(1) 2(3)] by auto
qed simp

text \<open>
  The release that takes the count of an object to 0 destroys it, and an object that is claimed
  again loses exactly one from its account; a count of 0 or below is never decremented.
\<close>

theorem release_destroys:
  assumes "balanced dtor client s" "0 < client p" "count_of s p = 1" "room s (6 + memory_work dtor s)"
    "gl \<or> (\<forall>o' c'. c' \<in> set (dtor o') \<longrightarrow> (\<forall>q. c' \<noteq> AutoRelease q))"
  shows "\<exists>s'. wyObjectRelease dtor gl t (Some p) s = Some s' \<and> object_at s' p = None"
proof -
  have af: "auto_free dtor gl [Call (Release p)]" using assms(5) by (auto simp: auto_free_def is_auto_def)
  obtain x where x: "object_at s p = Some x" "m_retainCount x = 1"
    using assms(3) by (auto simp: count_of_def nat_eq_iff split: option.splits if_splits)
  have p: "p < length (objects s)" using x(1) by (simp add: object_at_Some)
  let ?s1 = "set_object s p (Some (x\<lparr>m_retainCount := 0\<rparr>))"
  have st: "task_step dtor gl t (Call (Release p)) s = Some (destructor dtor p x @ [Free p], ?s1)" using x by simp
  obtain s' where s': "run dtor gl t [Call (Release p)] s = Some s'" "balanced dtor (client(p := client p - 1)) s'"
    using call_balanced [of dtor client s "Release p" 0 gl t] assms(1,2,4) af by auto
  then have "run dtor gl t (destructor dtor p x @ [Free p]) ?s1 = Some s'" using st by simp
  from run_count [OF this, of p] have "count_of s' p = 0" using p by (simp add: count_of_set)
  moreover have "0 \<le> m_retainCount y \<and> m_retainCount y \<noteq> 0" if y: "object_at s' p = Some y" for y
  proof -
    have "count_list (frees []) p = (case object_at s' p of Some y \<Rightarrow> if m_retainCount y = 0 then 1 else 0 | None \<Rightarrow> 0)"
      using s'(2) unfolding balanced_def sound_def by blast
    moreover have "0 \<le> m_retainCount y" using s'(2) y unfolding balanced_def sound_def by blast
    ultimately show ?thesis using y by (simp split: if_splits)
  qed
  ultimately have "object_at s' p = None" by (cases "object_at s' p") (force simp: count_of_def)+
  then show ?thesis using s'(1) by (simp add: wyObjectRelease_def)
qed

lemma release_destroys_witness:
  "\<exists>s'. wyObjectRelease owner False 7 (Some 1) two_objects = Some s' \<and> object_at s' 1 = None"
proof -
  have "room two_objects (6 + memory_work owner two_objects)"
    by (simp add: room_def two_objects_def wyObject_new_def no_objects_def)
  moreover have "count_of two_objects 1 = 1"
    by (simp add: two_objects_def wyObject_new_def no_objects_def count_of_def object_at_def)
  ultimately show ?thesis using release_destroys [OF two_objects_balanced, of 1 False 7] by (simp add: owner_def)
qed



text \<open>
  An object that a destructor hands to \<open>autoRelease\<close> while the automatic pool is being cleared is
  lost: the pool is locked by the iteration, the push is refused, and after the clear the object is
  still alive with its count and in no pool.
\<close>

theorem autoRelease_in_destructor_leaks:
  "Option.bind (wyInitAutoReleasePool two_objects) (\<lambda>s0.
     Option.bind (wyObjectAutoRelease True 0 (Some 1) s0) (\<lambda>s1.
       Option.bind (wyClearAutoReleasePool (\<lambda>p. if p = 1 then [AutoRelease 0] else []) True 0 s1) (\<lambda>s2.
         Some (getRetainCount 0 s2, getRetainCount 1 s2, map_option elems (sAutoReleasePool s2))))) =
   Some (Some 1, None, Some [])"
  by (simp add: wyInitAutoReleasePool_def two_objects_def wyObject_new_def no_objects_def wyArrayNew_def Let_def
      wyObjectAutoRelease_def autoRelease_def push_opt_def wyArrayPush_def array_ensure_def object_at_def
      wyClearAutoReleasePool_def wyArrayEach_def each_from.simps release_auto_def wyObjectRelease_def set_object_def
      destructor_def wyArrayClear_def getRetainCount_def elems_def)

text \<open>
  A second pool made on a thread that has one is not registered, but its destructor unregisters
  the first one; when the map is empty then, it is deleted and destroying the first pool
  dereferences \<open>NULL\<close>.
\<close>

theorem nested_thread_pools_crash:
  assumes "s_pools s = None"
  shows "(let (p1, s1) = wyAutoReleasePool_make t s; (p2, s2) = wyAutoReleasePool_make t s1 in
    \<exists>s3. wyObjectRelease dtor gl u (Some p2) s2 = Some s3 \<and> s_pools s3 = None \<and>
      wyObjectRelease dtor gl u (Some p1) s3 = None)"
  using assms
  by (simp add: wyAutoReleasePool_make_def wyObject_new_def Let_def wyObjectRelease_def object_at_def set_object_def
      destructor_def unregister_def nth_append list_update_append)

lemma nested_thread_pools_crash_witness:
  "\<exists>s3. wyObjectRelease owner False 3 (Some 1) (snd (wyAutoReleasePool_make 3 (snd (wyAutoReleasePool_make 3 no_objects)))) = Some s3 \<and>
    wyObjectRelease owner False 3 (Some 0) s3 = None"
proof -
  have "s_pools no_objects = None" by (simp add: no_objects_def)
  moreover have "fst (wyAutoReleasePool_make 3 no_objects) = 0"
    "fst (wyAutoReleasePool_make 3 (snd (wyAutoReleasePool_make 3 no_objects))) = 1"
    by (simp_all add: wyAutoReleasePool_make_def wyObject_new_def no_objects_def Let_def)
  ultimately show ?thesis using nested_thread_pools_crash [of no_objects 3 owner False 3] by (auto simp: case_prod_beta Let_def)
qed

text \<open>The tasks with a bound on how many are done: \<open>None\<close> when some are left.\<close>

fun run_at_most :: "nat \<Rightarrow> (nat \<Rightarrow> ref_call list) \<Rightarrow> bool \<Rightarrow> int \<Rightarrow> task list \<Rightarrow> memory \<Rightarrow> memory option option" where
  "run_at_most n dtor gl t [] s = Some (Some s)"
| "run_at_most 0 dtor gl t (k # ts) s = None"
| "run_at_most (Suc n) dtor gl t (k # ts) s =
     (case task_step dtor gl t k s of None \<Rightarrow> Some None | Some r \<Rightarrow> run_at_most n dtor gl t (fst r @ ts) (snd r))"

lemma run_at_most_enough:
  "tasks_work ts + memory_work dtor s \<le> n \<Longrightarrow> run_at_most n dtor gl t ts s = Some (run dtor gl t ts s)"
proof (induction n arbitrary: ts s)
  case 0
  then show ?case by (cases ts; cases "hd ts" rule: task_work.cases) (auto simp: tasks_work_def)
next
  case (Suc n)
  then show ?case
    using task_step_work [of dtor gl t "hd ts" s]
    by (cases ts) (fastforce simp: tasks_work_def split: option.split)+
qed

text \<open>
  C20: A release comes to an end whatever the destructors do, cycles of objects included: the calls,
  destructions and deletions it causes are at most one more than the work in memory (for every
  object alive 2 plus what its destructor calls, an automatic release counting 6).
\<close>

theorem release_terminates:
  "run_at_most (Suc (memory_work dtor s)) dtor gl t [Call (Release p)] s = Some (wyObjectRelease dtor gl t (Some p) s)"
  by (simp add: wyObjectRelease_def run_at_most_enough tasks_work_def del: run_at_most.simps)

end
