(* ===== verification/Wy_Stream.thy ===== *)
theory Wy_Stream imports Prelude begin

text \<open>
  The memory streams: \<open>utils/wyMemoryInputStream.cpp\<close>, \<open>utils/wyMemoryOutputStream.cpp\<close> and the typed
  reads of \<open>utils/wyAssetInputStream.cpp\<close>. Sizes are \<open>size_t\<close> of 32 bits with the wrap-around
  written out; the machine is little endian. \<open>None\<close> is an access outside of the buffer.
\<close>

section \<open>Seeking\<close>

datatype seek_mode = SEEK_SET | SEEK_CUR | SEEK_END

text \<open>A C \<open>int\<close> added to a \<open>size_t\<close>.\<close>

definition size_add_int :: "nat \<Rightarrow> int \<Rightarrow> nat" where
  "size_add_int p i = nat ((int p + i) mod int size_mod)"

text \<open>
  \<open>CLAMP(val, 0, len)\<close>: the comparison with 0 is one of \<open>int\<close>s for \<open>SEEK_SET\<close>, and of \<open>size_t\<close>s, which
  it never changes, for the other modes.
\<close>

fun seek_target :: "nat \<Rightarrow> nat \<Rightarrow> int \<Rightarrow> seek_mode \<Rightarrow> nat" where
  "seek_target pos len offset SEEK_CUR = min (max (size_add_int pos offset) 0) len"
| "seek_target pos len offset SEEK_END = min (max (size_add_int len offset) 0) len"
| "seek_target pos len offset SEEK_SET = min (size_add_int 0 (max offset 0)) len"

section \<open>The input stream\<close>

record wyMemoryInputStream =
  in_buffer :: bytes
  in_length :: nat
  in_position :: nat
  in_release :: bool
  big_endian :: bool

definition wyMemoryInputStream_make :: "bytes \<Rightarrow> nat \<Rightarrow> bool \<Rightarrow> wyMemoryInputStream" where
  "wyMemoryInputStream_make buffer len release =
     \<lparr>in_buffer = buffer, in_length = len, in_position = 0, in_release = release, big_endian = False\<rparr>"

definition available :: "wyMemoryInputStream \<Rightarrow> nat" where
  "available s = size_sub (in_length s) (in_position s)"

text \<open>The bytes read; the result is the \<open>int\<close> \<open>canRead\<close>.\<close>

definition stream_read :: "wyMemoryInputStream \<Rightarrow> nat \<Rightarrow> (int \<times> bytes \<times> wyMemoryInputStream) option" where
  "stream_read s len =
     (let n = min len (available s) in
      do { bs \<leftarrow> cslice (in_buffer s) (in_position s) n;
           Some (sint (of_nat n :: 32 word), bs, s\<lparr>in_position := (in_position s + n) mod size_mod\<rparr>) })"

definition in_seek :: "wyMemoryInputStream \<Rightarrow> int \<Rightarrow> seek_mode \<Rightarrow> nat \<times> wyMemoryInputStream" where
  "in_seek s offset mode =
     (let p = seek_target (in_position s) (in_length s) offset mode in (p, s\<lparr>in_position := p\<rparr>))"

definition setBigEndian :: "wyMemoryInputStream \<Rightarrow> bool \<Rightarrow> wyMemoryInputStream" where
  "setBigEndian s big = s\<lparr>big_endian := big\<rparr>"

text \<open>The value of bytes, least significant first.\<close>

fun le_nat :: "bytes \<Rightarrow> nat" where
  "le_nat [] = 0"
| "le_nat (b # bs) = unat b + 256 * le_nat bs"

text \<open>
  \<open>readShort\<close>, \<open>readInt\<close> and \<open>readInt64\<close> for \<open>k\<close> = 2, 4 and 8: the result is zeroed, gets the bytes there
  are, and has its bytes swapped if the stream is big endian and any byte was read.
\<close>

definition read_units :: "nat \<Rightarrow> wyMemoryInputStream \<Rightarrow> (int \<times> nat \<times> wyMemoryInputStream) option" where
  "read_units k s =
     do { (n, bs, s1) \<leftarrow> stream_read s k;
          let raw = bs @ replicate (k - length bs) 0;
          Some (n, (if 0 < n \<and> big_endian s then le_nat (rev raw) else le_nat raw), s1) }"

definition readByte :: "wyMemoryInputStream \<Rightarrow> (int \<times> bytes \<times> wyMemoryInputStream) option" where
  "readByte s = stream_read s 1"

definition readShort :: "wyMemoryInputStream \<Rightarrow> (int \<times> 16 word \<times> wyMemoryInputStream) option" where
  "readShort s = map_option (\<lambda>(n, v, s1). (n, of_nat v, s1)) (read_units 2 s)"

definition readInt :: "wyMemoryInputStream \<Rightarrow> (int \<times> 32 word \<times> wyMemoryInputStream) option" where
  "readInt s = map_option (\<lambda>(n, v, s1). (n, of_nat v, s1)) (read_units 4 s)"

definition readInt64 :: "wyMemoryInputStream \<Rightarrow> (int \<times> 64 word \<times> wyMemoryInputStream) option" where
  "readInt64 s = map_option (\<lambda>(n, v, s1). (n, of_nat v, s1)) (read_units 8 s)"

section \<open>The output stream\<close>

record wyMemoryOutputStream =
  out_buffer :: cells
  out_capacity :: nat
  out_length :: nat
  out_position :: nat
  out_release :: bool

definition wyMemoryOutputStream_make :: "nat \<Rightarrow> bool \<Rightarrow> wyMemoryOutputStream" where
  "wyMemoryOutputStream_make capacity release =
     \<lparr>out_buffer = replicate capacity None, out_capacity = capacity, out_length = 0, out_position = 0,
      out_release = release\<rparr>"

definition wyMemoryOutputStream_default :: wyMemoryOutputStream where
  "wyMemoryOutputStream_default = wyMemoryOutputStream_make (64 * 1024) True"

definition ensureCapacity :: "wyMemoryOutputStream \<Rightarrow> nat \<Rightarrow> wyMemoryOutputStream" where
  "ensureCapacity s len =
     (if size_sub (out_capacity s) 1 < (out_position s + len) mod size_mod
      then let c = (out_position s + len) mod size_mod * 2 mod size_mod in
           s\<lparr>out_capacity := c, out_buffer := take c (out_buffer s) @ replicate (c - length (out_buffer s)) None\<rparr>
      else s)"

definition stream_write :: "wyMemoryOutputStream \<Rightarrow> bytes \<Rightarrow> (nat \<times> wyMemoryOutputStream) option" where
  "stream_write s data =
     do { let s1 = ensureCapacity s (length data);
          b \<leftarrow> mem_write (out_buffer s1) (out_position s1) (map Some data);
          let p = (out_position s1 + length data) mod size_mod;
          Some (length data, s1\<lparr>out_buffer := b, out_position := p, out_length := max p (out_length s1)\<rparr>) }"

fun le_bytes :: "nat \<Rightarrow> nat \<Rightarrow> bytes" where
  "le_bytes 0 v = []"
| "le_bytes (Suc k) v = of_nat (v mod 256) # le_bytes k (v div 256)"

text \<open>\<open>write(const int*, len)\<close>: \<open>len\<close> integers as they are in memory; returns \<open>len\<close>.\<close>

definition stream_write_ints :: "wyMemoryOutputStream \<Rightarrow> 32 word list \<Rightarrow> (nat \<times> wyMemoryOutputStream) option" where
  "stream_write_ints s data =
     do { r \<leftarrow> stream_write s (concat (map (\<lambda>w. le_bytes 4 (unat w)) data)); Some (length data, snd r) }"

definition out_reset :: "wyMemoryOutputStream \<Rightarrow> wyMemoryOutputStream" where
  "out_reset s = s\<lparr>out_position := 0, out_length := 0\<rparr>"

definition out_seek :: "wyMemoryOutputStream \<Rightarrow> int \<Rightarrow> seek_mode \<Rightarrow> nat \<times> wyMemoryOutputStream" where
  "out_seek s offset mode =
     (let p = seek_target (out_position s) (out_length s) offset mode in (p, s\<lparr>out_position := p\<rparr>))"

text \<open>The buffer is ended with NUL at the position, not at the length.\<close>

definition getBuffer :: "wyMemoryOutputStream \<Rightarrow> (cells \<times> wyMemoryOutputStream) option" where
  "getBuffer s = do { b \<leftarrow> wr (out_buffer s) (out_position s) (Some 0); Some (b, s\<lparr>out_buffer := b\<rparr>) }"

section \<open>The invariant of the output stream\<close>

definition out_ok :: "wyMemoryOutputStream \<Rightarrow> bool" where
  "out_ok s \<longleftrightarrow>
     length (out_buffer s) = out_capacity s \<and> 0 < out_capacity s \<and> out_capacity s < size_mod \<and>
     out_length s < out_capacity s \<and> out_position s \<le> out_length s \<and>
     None \<notin> set (take (out_length s) (out_buffer s))"

definition written :: "wyMemoryOutputStream \<Rightarrow> bytes" where
  "written s = map the (take (out_length s) (out_buffer s))"

abbreviation out_limit :: nat where "out_limit \<equiv> 2147483648"

lemma seek_target_le: "seek_target pos len offset mode \<le> len"
  by (cases mode) simp_all

lemma written_cells:
  assumes "out_ok s"
  obtains rest where "out_buffer s = map Some (written s) @ rest" "length (written s) = out_length s"
    "length rest = out_capacity s - out_length s"
proof -
  have "map (\<lambda>c. Some (the c)) xs = xs" if "None \<notin> set xs" for xs :: cells
    using that by (induction xs) auto
  then have "take (out_length s) (out_buffer s) = map Some (written s)"
    using assms by (simp add: out_ok_def written_def comp_def)
  then have "out_buffer s = map Some (written s) @ drop (out_length s) (out_buffer s)" by (metis append_take_drop_id)
  then show thesis using assms by (intro that) (auto simp: out_ok_def written_def)
qed

text \<open>What a write leaves: the bytes at the position are replaced, or the contents extended.\<close>

definition overwrite :: "bytes \<Rightarrow> nat \<Rightarrow> bytes \<Rightarrow> bytes" where
  "overwrite xs p data = take p xs @ data @ drop (p + length data) xs"

lemma ensureCapacity_ok:
  assumes "out_ok s" "out_position s + n < out_limit"
  shows "out_ok (ensureCapacity s n) \<and> written (ensureCapacity s n) = written s \<and>
    out_position (ensureCapacity s n) = out_position s \<and> out_length (ensureCapacity s n) = out_length s \<and>
    out_position s + n < out_capacity (ensureCapacity s n)"
proof (cases "out_capacity s - 1 < out_position s + n")
  case True
  let ?c = "(out_position s + n) * 2"
  have c: "out_capacity s \<le> ?c" using True assms by (simp add: out_ok_def)
  have e: "ensureCapacity s n = s\<lparr>out_capacity := ?c,
      out_buffer := out_buffer s @ replicate (?c - length (out_buffer s)) None\<rparr>"
    using True assms c by (simp add: ensureCapacity_def size_sub_le out_ok_def Let_def)
  show ?thesis using assms c True by (auto simp: e out_ok_def written_def)
next
  case False
  then have "ensureCapacity s n = s" using assms by (simp add: ensureCapacity_def size_sub_le out_ok_def)
  then show ?thesis using assms False by (auto simp: out_ok_def)
qed

lemma stream_write_ok:
  assumes "out_ok s" "out_position s + length data < out_limit"
  shows "\<exists>s'. stream_write s data = Some (length data, s') \<and> out_ok s' \<and>
    written s' = overwrite (written s) (out_position s) data \<and> out_position s' = out_position s + length data"
proof -
  let ?s = "ensureCapacity s (length data)"
  note e = ensureCapacity_ok [OF assms]
  have ok: "out_ok ?s" using e by simp
  from ok obtain rest where r: "out_buffer ?s = map Some (written s) @ rest" "length (written s) = out_length s"
    "length rest = out_capacity ?s - out_length s"
    using e by (auto elim: written_cells)
  let ?p = "out_position s" and ?n = "length data"
  have pl: "?p \<le> out_length s" using assms(1) by (simp add: out_ok_def)
  have cap: "out_length s < out_capacity ?s" "length (out_buffer ?s) = out_capacity ?s" "out_capacity ?s < size_mod"
    using ok e by (simp_all add: out_ok_def)
  let ?b = "take ?p (out_buffer ?s) @ map Some data @ drop (?p + ?n) (out_buffer ?s)"
  let ?s' = "?s\<lparr>out_buffer := ?b, out_position := ?p + ?n, out_length := max (?p + ?n) (out_length s)\<rparr>"
  have w: "stream_write s data = Some (?n, ?s')"
    using e cap assms(2) by (simp add: stream_write_def mem_write_def Let_def)
  have b: "take (max (?p + ?n) (out_length s)) ?b = map Some (overwrite (written s) ?p data)"
    using r pl by (cases "?p + ?n \<le> out_length s") (auto simp: overwrite_def take_map drop_map max_def)
  then have wr: "written ?s' = overwrite (written s) ?p data" by (simp add: written_def comp_def)
  have "out_ok ?s'" unfolding out_ok_def using b e cap pl ok by (auto simp: out_ok_def)
  then show ?thesis using w wr by (intro exI [of _ ?s']) simp
qed

section \<open>Properties of the streams\<close>

text \<open>Several writes in a row.\<close>

fun write_all :: "wyMemoryOutputStream \<Rightarrow> bytes list \<Rightarrow> wyMemoryOutputStream option" where
  "write_all s [] = Some s"
| "write_all s (d # ds) = do { r \<leftarrow> stream_write s d; write_all (snd r) ds }"

lemma make_ok: "0 < c \<Longrightarrow> c < size_mod \<Longrightarrow> out_ok (wyMemoryOutputStream_make c r) \<and>
    written (wyMemoryOutputStream_make c r) = [] \<and> out_position (wyMemoryOutputStream_make c r) = 0"
  by (simp add: wyMemoryOutputStream_make_def out_ok_def written_def)

lemma write_all_append:
  "out_ok s \<Longrightarrow> out_position s = length (written s) \<Longrightarrow> length (written s) + length (concat ds) < out_limit \<Longrightarrow>
   \<exists>s'. write_all s ds = Some s' \<and> out_ok s' \<and> written s' = written s @ concat ds \<and> out_position s' = length (written s')"
proof (induction ds arbitrary: s)
  case (Cons d ds)
  have "out_position s + length d < out_limit" using Cons.prems by simp
  from stream_write_ok [OF Cons.prems(1) this] obtain s1 where s1: "stream_write s d = Some (length d, s1)" "out_ok s1"
    "written s1 = overwrite (written s) (out_position s) d" "out_position s1 = out_position s + length d"
    by blast
  then have "written s1 = written s @ d" using Cons.prems(2) by (simp add: overwrite_def)
  then show ?case using s1 Cons.IH [of s1] Cons.prems by auto
qed simp

text \<open>
  C35: Writes to a fresh memory stream accumulate, whatever the capacity it starts with (but 0), and
  the buffer it then gives out is the concatenation of the data with a final NUL inside the buffer.
\<close>

theorem stream_writes_concat:
  assumes "0 < c" "c < size_mod" "length (concat ds) < out_limit"
  shows "\<exists>s b s'. write_all (wyMemoryOutputStream_make c r) ds = Some s \<and> getBuffer s = Some (b, s') \<and>
    written s = concat ds \<and> take (Suc (length (concat ds))) b = map Some (concat ds @ [0]) \<and> length b = out_capacity s"
proof -
  note m = make_ok [OF assms(1,2), of r]
  obtain s where s: "write_all (wyMemoryOutputStream_make c r) ds = Some s" "out_ok s" "written s = concat ds"
    "out_position s = length (written s)"
    using write_all_append [of "wyMemoryOutputStream_make c r" ds] m assms(3) by auto
  from s(2) obtain rest where rest: "out_buffer s = map Some (written s) @ rest" "length (written s) = out_length s"
    "length rest = out_capacity s - out_length s"
    by (rule written_cells)
  have "out_length s < out_capacity s" using s(2) by (simp add: out_ok_def)
  then obtain x rest' where "rest = x # rest'" using rest(3) by (cases rest) auto
  then have "getBuffer s = Some (map Some (written s) @ Some 0 # rest', s\<lparr>out_buffer := map Some (written s) @ Some 0 # rest'\<rparr>)"
    using rest s(4) by (simp add: getBuffer_def list_update_append)
  then show ?thesis using s rest \<open>rest = _\<close> \<open>out_length s < _\<close> by auto
qed

lemma stream_writes_concat_witness:
  "\<exists>s b s'. write_all (wyMemoryOutputStream_make 1 True) [[104, 105], [], [33]] = Some s \<and> getBuffer s = Some (b, s') \<and>
    take 4 b = [Some 104, Some 105, Some 33, Some 0]"
proof -
  let ?ds = "[[104, 105], [], [33]] :: bytes list"
  obtain s b s' where "write_all (wyMemoryOutputStream_make 1 True) ?ds = Some s" "getBuffer s = Some (b, s')"
    "take (Suc (length (concat ?ds))) b = map Some (concat ?ds @ [0])"
    using stream_writes_concat [of 1 ?ds True] by auto
  moreover have "Suc (length (concat ?ds)) = 4" by simp
  ultimately show ?thesis by (auto simp only: list.map append.simps concat.simps append_Nil2)
qed

text \<open>
  A stream made with capacity 0 never grows, as \<open>m_capacity - 1\<close> wraps around: the first write of
  anything runs past its buffer.
\<close>

theorem write_to_empty_stream_overflows:
  assumes "data \<noteq> []" "length data < size_mod"
  shows "stream_write (wyMemoryOutputStream_make 0 r) data = None"
  using assms
  by (simp add: stream_write_def ensureCapacity_def wyMemoryOutputStream_make_def size_sub_def mem_write_def Let_def)

lemma write_to_empty_stream_overflows_witness: "stream_write (wyMemoryOutputStream_make 0 True) [65] = None"
  by (rule write_to_empty_stream_overflows) simp_all

text \<open>
  Every seek ends inside the data. A relative seek to before the start wraps around and goes to
  the end of the data instead, while an absolute seek to a negative offset goes to the start.
\<close>

theorem stream_seek_bounds:
  assumes "pos \<le> len" "len < out_limit" "- int out_limit \<le> offset" "offset < int out_limit"
  shows "seek_target pos len offset mode \<le> len \<and>
    seek_target pos len offset mode =
      (case mode of
         SEEK_SET \<Rightarrow> if offset < 0 then 0 else min (nat offset) len
       | SEEK_CUR \<Rightarrow> if int pos + offset < 0 then len else min (nat (int pos + offset)) len
       | SEEK_END \<Rightarrow> if int len + offset < 0 then len else min (nat (int len + offset)) len)"
proof -
  have add: "size_add_int p i = (if int p + i < 0 then nat (int p + i + int size_mod) else nat (int p + i))"
    if "p < out_limit" "- int out_limit \<le> i" "i < int out_limit" for p i
  proof (cases "int p + i < 0")
    case True
    have "(int p + i) mod int size_mod = (int p + i + int size_mod) mod int size_mod" by simp
    also have "\<dots> = int p + i + int size_mod" by (rule mod_pos_pos_trivial) (use True that in simp_all)
    finally show ?thesis using True by (simp add: size_add_int_def)
  next
    case False
    have "(int p + i) mod int size_mod = int p + i" by (rule mod_pos_pos_trivial) (use False that in simp_all)
    then show ?thesis using False by (simp add: size_add_int_def)
  qed
  show ?thesis using assms add [of pos offset] add [of len offset] add [of 0 "max offset 0"] seek_target_le [of pos len offset mode]
    by (cases mode) auto
qed

lemma stream_seek_bounds_witness: "seek_target 3 10 (- 4) SEEK_CUR = 10 \<and> seek_target 3 10 (- 4) SEEK_SET = 0"
  using stream_seek_bounds [of 3 10 "- 4" SEEK_CUR] stream_seek_bounds [of 3 10 "- 4" SEEK_SET] by simp

section \<open>Integers\<close>

lemma length_le_bytes [simp]: "length (le_bytes k v) = k"
  by (induction k arbitrary: v) auto

lemma le_nat_le_bytes: "le_nat (le_bytes k v) = v mod 256 ^ k"
proof (induction k arbitrary: v)
  case (Suc k)
  have "v mod 256 + 256 * (v div 256 mod 256 ^ k) = v mod (256 * 256 ^ k)" by (simp add: mod_mult2_eq)
  then show ?case using Suc by (simp add: unsigned_of_nat take_bit_eq_mod)
qed simp

lemma stream_read_in:
  assumes "in_position s + k \<le> in_length s" "in_length s = length (in_buffer s)" "in_length s < out_limit"
  shows "stream_read s k = Some (int k, take k (drop (in_position s) (in_buffer s)), s\<lparr>in_position := in_position s + k\<rparr>)"
proof -
  have "available s = in_length s - in_position s" using assms by (simp add: available_def size_sub_le)
  moreover have "sint (of_nat k :: 32 word) = int k" using assms by (simp add: signed_of_nat signed_take_bit_int_eq_self)
  ultimately show ?thesis using assms by (simp add: stream_read_def cslice_in min_def Let_def)
qed

lemma unat_word_less: "unat (w :: 32 word) < 4294967296"
  using unsigned_less [of w] by simp

fun read_ints :: "nat \<Rightarrow> wyMemoryInputStream \<Rightarrow> (32 word list \<times> wyMemoryInputStream) option" where
  "read_ints 0 s = Some ([], s)"
| "read_ints (Suc n) s = do { (_, w, s1) \<leftarrow> readInt s; (ws, s2) \<leftarrow> read_ints n s1; Some (w # ws, s2) }"

lemma read_ints_ok:
  "in_buffer s = pre @ concat (map (\<lambda>w. le_bytes 4 (unat w)) ws) \<Longrightarrow> in_position s = length pre \<Longrightarrow>
   in_length s = length (in_buffer s) \<Longrightarrow> in_length s < out_limit \<Longrightarrow> \<not> big_endian s \<Longrightarrow>
   \<exists>s'. read_ints (length ws) s = Some (ws, s') \<and> in_position s' = in_length s'"
proof (induction ws arbitrary: pre s)
  case (Cons w ws)
  let ?b = "le_bytes 4 (unat w)"
  let ?s1 = "s\<lparr>in_position := in_position s + 4\<rparr>"
  have "stream_read s 4 = Some (4, ?b, ?s1)"
    using stream_read_in [of s 4] Cons.prems by simp
  moreover have "le_nat ?b = unat w" using unat_word_less [of w] by (simp add: le_nat_le_bytes)
  ultimately have r: "readInt s = Some (4, w, ?s1)" using Cons.prems(5) by (simp add: readInt_def read_units_def)
  have "\<exists>s'. read_ints (length ws) ?s1 = Some (ws, s') \<and> in_position s' = in_length s'"
    by (rule Cons.IH [of _ "pre @ ?b"]) (use Cons.prems in simp_all)
  then show ?case using r by auto
qed simp

text \<open>
  C36: Integers written to a memory stream are read back from its contents by a little endian input
  stream, which is then at its end.
\<close>

theorem write_ints_readInt:
  assumes "4 * length ws < out_limit"
  shows "\<exists>s s'. stream_write_ints wyMemoryOutputStream_default ws = Some (length ws, s) \<and>
    read_ints (length ws) (wyMemoryInputStream_make (written s) (length (written s)) False) = Some (ws, s') \<and>
    available s' = 0"
proof -
  let ?data = "concat (map (\<lambda>w. le_bytes 4 (unat w)) ws)"
  have len: "length ?data = 4 * length ws" by (induction ws) auto
  note m = make_ok [of "64 * 1024" True]
  obtain s where s: "stream_write wyMemoryOutputStream_default ?data = Some (length ?data, s)" "written s = ?data"
    using stream_write_ok [of "wyMemoryOutputStream_make (64 * 1024) True" ?data] m assms len
    by (auto simp: wyMemoryOutputStream_default_def overwrite_def)
  obtain s' where "read_ints (length ws) (wyMemoryInputStream_make ?data (length ?data) False) = Some (ws, s')"
    "in_position s' = in_length s'"
    using read_ints_ok [of "wyMemoryInputStream_make ?data (length ?data) False" "[]" ws] assms len
    by (auto simp: wyMemoryInputStream_make_def)
  then show ?thesis using s by (intro exI [of _ s] exI [of _ s']) (simp add: stream_write_ints_def available_def size_sub_def)
qed

lemma write_ints_readInt_witness:
  "\<exists>s s'. stream_write_ints wyMemoryOutputStream_default [1, 0xFFFFFFFE] = Some (2, s) \<and>
    read_ints 2 (wyMemoryInputStream_make (written s) (length (written s)) False) = Some ([1, 0xFFFFFFFE], s')"
  using write_ints_readInt [of "[1, 0xFFFFFFFE]"] by (auto simp: numeral_2_eq_2)

end
