(* ===== verification/Wy_JSON.thy ===== *)
theory Wy_JSON imports Yajl_Gen Yajl_Error Wy_Object_Props Wy_Stream "HOL-Library.List_Lexorder" begin

text \<open>
  The JSON documents of \<open>WiEngine/impl/json\<close>: \<open>wyJSONObject.cpp\<close>, \<open>wyJSONArray.cpp\<close>, \<open>wyJSONValue.cpp\<close> and the
  loader \<open>wyJSONParser.cpp\<close>, a client of the yajl parser and generator. A document is a graph of
  counted objects: the store maps the number of an object to its contents, and the counts and pools
  are those of the reference counting model. C strings are their bytes without the NUL. Floating
  point numbers stay abstract: their formatting and reading are arguments. \<open>None\<close> is no defined
  result.
\<close>

section \<open>Values\<close>

text \<open>The type tag with its member of the union.\<close>

datatype json_value = NIL | BOOLEAN bool | STRING "bytes option" | OBJECT "nat ptr" | ARRAY "nat ptr"

record KeyValue =
  kv_k :: "bytes option"
  kv_v :: json_value

text \<open>\<open>m_pairs\<close> in the order of \<open>wyStrPredicate\<close> with the entries of the map, and \<open>m_keyvalues\<close>.\<close>

datatype json_node = JObject "(bytes \<times> KeyValue) list" "KeyValue list" | JArray "KeyValue list"

record store =
  mem :: memory
  json :: "nat \<rightharpoonup> json_node"

section \<open>Casts\<close>

definition ctrue :: bytes where "ctrue = ascii ''true''"
definition cfalse :: bytes where "cfalse = ascii ''false''"

text \<open>
  \<open>atoi\<close>: white space, a sign, digits; a value that is no \<open>int\<close> has no defined result.
\<close>

definition is_space :: "byte \<Rightarrow> bool" where
  "is_space c \<longleftrightarrow> c = 0x20 \<or> (0x09 \<le> c \<and> c \<le> 0x0D)"

fun atoi_digits :: "bytes \<Rightarrow> nat \<Rightarrow> nat" where
  "atoi_digits [] acc = acc"
| "atoi_digits (c # cs) acc = (if 0x30 \<le> c \<and> c \<le> 0x39 then atoi_digits cs (10 * acc + (unat c - 48)) else acc)"

definition atoi :: "bytes \<Rightarrow> int option" where
  "atoi s =
     (let r = dropWhile is_space s;
          v = (case r of
                 [] \<Rightarrow> 0
               | c # cs \<Rightarrow> if c = 0x2D then - int (atoi_digits cs 0)
                           else if c = 0x2B then int (atoi_digits cs 0) else int (atoi_digits r 0))
      in if - 2147483648 \<le> v \<and> v \<le> 2147483647 then Some v else None)"

definition castToBool :: "KeyValue \<Rightarrow> bool option" where
  "castToBool kv =
     (case kv_v kv of
        NIL \<Rightarrow> Some False
      | BOOLEAN b \<Rightarrow> Some b
      | STRING s \<Rightarrow> map_option (\<lambda>s. s = ctrue) s
      | OBJECT jo \<Rightarrow> Some (jo \<noteq> None)
      | ARRAY ja \<Rightarrow> Some (ja \<noteq> None))"

text \<open>\<open>addr\<close> is the address of an object as an \<open>int\<close>.\<close>

definition castToInt :: "(nat ptr \<Rightarrow> int) \<Rightarrow> KeyValue \<Rightarrow> int option" where
  "castToInt addr kv =
     (case kv_v kv of
        NIL \<Rightarrow> Some 0
      | BOOLEAN b \<Rightarrow> Some (if b then 1 else 0)
      | STRING s \<Rightarrow> Option.bind s atoi
      | OBJECT jo \<Rightarrow> Some (addr jo)
      | ARRAY ja \<Rightarrow> Some (addr ja))"

text \<open>It uses \<open>atoi\<close> too; \<open>long\<close> has the 32 bits of \<open>int\<close>.\<close>

definition castToLong :: "(nat ptr \<Rightarrow> int) \<Rightarrow> KeyValue \<Rightarrow> int option" where
  "castToLong addr kv =
     (case kv_v kv of
        NIL \<Rightarrow> Some 0
      | BOOLEAN b \<Rightarrow> Some (if b then 1 else 0)
      | STRING s \<Rightarrow> Option.bind s atoi
      | OBJECT jo \<Rightarrow> Some (addr jo)
      | ARRAY ja \<Rightarrow> Some (addr ja))"

text \<open>\<open>atof\<close> with the conversion to the result type, and the conversion of an \<open>int\<close>.\<close>

definition castToFloat :: "(bytes \<Rightarrow> 'f) \<Rightarrow> (int \<Rightarrow> 'f) \<Rightarrow> (nat ptr \<Rightarrow> int) \<Rightarrow> KeyValue \<Rightarrow> 'f option" where
  "castToFloat atof conv addr kv =
     (case kv_v kv of
        NIL \<Rightarrow> Some (conv 0)
      | BOOLEAN b \<Rightarrow> Some (conv (if b then 1 else 0))
      | STRING s \<Rightarrow> map_option atof s
      | OBJECT jo \<Rightarrow> Some (conv (addr jo))
      | ARRAY ja \<Rightarrow> Some (conv (addr ja)))"

definition castToDouble :: "(bytes \<Rightarrow> 'd) \<Rightarrow> (int \<Rightarrow> 'd) \<Rightarrow> (nat ptr \<Rightarrow> int) \<Rightarrow> KeyValue \<Rightarrow> 'd option" where
  "castToDouble atof conv addr kv =
     (case kv_v kv of
        NIL \<Rightarrow> Some (conv 0)
      | BOOLEAN b \<Rightarrow> Some (conv (if b then 1 else 0))
      | STRING s \<Rightarrow> map_option atof s
      | OBJECT jo \<Rightarrow> Some (conv (addr jo))
      | ARRAY ja \<Rightarrow> Some (conv (addr ja)))"

definition castToObject :: "KeyValue \<Rightarrow> nat ptr" where
  "castToObject kv = (case kv_v kv of OBJECT jo \<Rightarrow> jo | _ \<Rightarrow> None)"

definition castToArray :: "KeyValue \<Rightarrow> nat ptr" where
  "castToArray kv = (case kv_v kv of ARRAY ja \<Rightarrow> ja | _ \<Rightarrow> None)"

definition castToString :: "KeyValue \<Rightarrow> bytes option" where
  "castToString kv =
     (case kv_v kv of
        NIL \<Rightarrow> None
      | BOOLEAN b \<Rightarrow> Some (if b then ctrue else cfalse)
      | STRING s \<Rightarrow> s
      | OBJECT _ \<Rightarrow> Some (ascii ''wyJSONObject'')
      | ARRAY _ \<Rightarrow> Some (ascii ''wyJSONArray''))"

text \<open>The copy goes to a static buffer of 64 KB: the outer option is an overflow.\<close>

definition copyString :: "bytes option \<Rightarrow> bytes option option" where
  "copyString s =
     (case s of None \<Rightarrow> Some None | Some s \<Rightarrow> if length s < 64 * 1024 then Some (Some s) else None)"

section \<open>Objects and arrays\<close>

text \<open>\<open>m_pairs[k] = kv\<close>: an equal key keeps its place (and its own pointer).\<close>

fun pairs_set :: "bytes \<Rightarrow> KeyValue \<Rightarrow> (bytes \<times> KeyValue) list \<Rightarrow> (bytes \<times> KeyValue) list" where
  "pairs_set k kv [] = [(k, kv)]"
| "pairs_set k kv ((k', kv') # m) =
     (if k = k' then (k', kv) # m else if k < k' then (k, kv) # (k', kv') # m else (k', kv') # pairs_set k kv m)"

definition add_pair :: "bytes option \<Rightarrow> json_value \<Rightarrow> json_node \<Rightarrow> json_node option" where
  "add_pair key v node =
     (case key of
        None \<Rightarrow> Some node
      | Some k \<Rightarrow>
          (case node of
             JObject pairs kvs \<Rightarrow>
               let kv = \<lparr>kv_k = Some k, kv_v = v\<rparr> in Some (JObject (pairs_set k kv pairs) (kvs @ [kv]))
           | JArray _ \<Rightarrow> None))"

definition add_value :: "json_value \<Rightarrow> json_node \<Rightarrow> json_node option" where
  "add_value v node =
     (case node of JArray vs \<Rightarrow> Some (JArray (vs @ [\<lparr>kv_k = None, kv_v = v\<rparr>])) | JObject _ _ \<Rightarrow> None)"

text \<open>An update of the node of an object that is alive.\<close>

definition on_node :: "(json_node \<Rightarrow> json_node option) \<Rightarrow> nat \<Rightarrow> store \<Rightarrow> store option" where
  "on_node f p s =
     do { _ \<leftarrow> object_at (mem s) p; n \<leftarrow> json s p; n1 \<leftarrow> f n; Some (s\<lparr>json := (json s)(p \<mapsto> n1)\<rparr>) }"

definition jo_addNull :: "bytes option \<Rightarrow> nat \<Rightarrow> store \<Rightarrow> store option" where
  "jo_addNull key = on_node (add_pair key NIL)"

definition jo_addBool :: "bytes option \<Rightarrow> bool \<Rightarrow> nat \<Rightarrow> store \<Rightarrow> store option" where
  "jo_addBool key b = on_node (add_pair key (BOOLEAN b))"

definition jo_addInt :: "bytes option \<Rightarrow> int \<Rightarrow> nat \<Rightarrow> store \<Rightarrow> store option" where
  "jo_addInt key i = on_node (add_pair key (STRING (Some (dec_int i))))"

definition jo_addLong :: "bytes option \<Rightarrow> int \<Rightarrow> nat \<Rightarrow> store \<Rightarrow> store option" where
  "jo_addLong key l = on_node (add_pair key (STRING (Some (dec_int l))))"

text \<open>\<open>sprintf(buf, "%f", f)\<close> into 32 bytes, for a given key.\<close>

definition jo_addFloat :: "('f \<Rightarrow> bytes) \<Rightarrow> bytes option \<Rightarrow> 'f \<Rightarrow> nat \<Rightarrow> store \<Rightarrow> store option" where
  "jo_addFloat fmt key f p s =
     (if key \<noteq> None \<and> 32 \<le> length (fmt f) then None else on_node (add_pair key (STRING (Some (fmt f)))) p s)"

definition jo_addDouble :: "('d \<Rightarrow> bytes) \<Rightarrow> bytes option \<Rightarrow> 'd \<Rightarrow> nat \<Rightarrow> store \<Rightarrow> store option" where
  "jo_addDouble fmt key d p s =
     (if key \<noteq> None \<and> 32 \<le> length (fmt d) then None else on_node (add_pair key (STRING (Some (fmt d)))) p s)"

definition jo_addString :: "bytes option \<Rightarrow> bytes option \<Rightarrow> nat \<Rightarrow> store \<Rightarrow> store option" where
  "jo_addString key str = on_node (add_pair key (STRING str))"

definition retaining :: "nat ptr \<Rightarrow> store \<Rightarrow> store option" where
  "retaining p s = do { m \<leftarrow> wyObjectRetain p (mem s); Some (s\<lparr>mem := m\<rparr>) }"

definition jo_addObject :: "bytes option \<Rightarrow> nat ptr \<Rightarrow> nat \<Rightarrow> store \<Rightarrow> store option" where
  "jo_addObject key jo p s =
     (if key = None then Some s else do { s1 \<leftarrow> retaining jo s; on_node (add_pair key (OBJECT jo)) p s1 })"

definition jo_addArray :: "bytes option \<Rightarrow> nat ptr \<Rightarrow> nat \<Rightarrow> store \<Rightarrow> store option" where
  "jo_addArray key ja p s =
     (if key = None then Some s else do { s1 \<leftarrow> retaining ja s; on_node (add_pair key (ARRAY ja)) p s1 })"

definition ja_addNull :: "nat \<Rightarrow> store \<Rightarrow> store option" where
  "ja_addNull = on_node (add_value NIL)"

definition ja_addBool :: "bool \<Rightarrow> nat \<Rightarrow> store \<Rightarrow> store option" where
  "ja_addBool b = on_node (add_value (BOOLEAN b))"

definition ja_addInt :: "int \<Rightarrow> nat \<Rightarrow> store \<Rightarrow> store option" where
  "ja_addInt i = on_node (add_value (STRING (Some (dec_int i))))"

definition ja_addLong :: "int \<Rightarrow> nat \<Rightarrow> store \<Rightarrow> store option" where
  "ja_addLong l = on_node (add_value (STRING (Some (dec_int l))))"

definition ja_addFloat :: "('f \<Rightarrow> bytes) \<Rightarrow> 'f \<Rightarrow> nat \<Rightarrow> store \<Rightarrow> store option" where
  "ja_addFloat fmt f p s = (if 32 \<le> length (fmt f) then None else on_node (add_value (STRING (Some (fmt f)))) p s)"

definition ja_addDouble :: "('d \<Rightarrow> bytes) \<Rightarrow> 'd \<Rightarrow> nat \<Rightarrow> store \<Rightarrow> store option" where
  "ja_addDouble fmt d p s = (if 32 \<le> length (fmt d) then None else on_node (add_value (STRING (Some (fmt d)))) p s)"

definition ja_addString :: "bytes option \<Rightarrow> nat \<Rightarrow> store \<Rightarrow> store option" where
  "ja_addString str = on_node (add_value (STRING str))"

definition ja_addObject :: "nat ptr \<Rightarrow> nat \<Rightarrow> store \<Rightarrow> store option" where
  "ja_addObject jo p s = do { s1 \<leftarrow> retaining jo s; on_node (add_value (OBJECT jo)) p s1 }"

definition ja_addArray :: "nat ptr \<Rightarrow> nat \<Rightarrow> store \<Rightarrow> store option" where
  "ja_addArray ja p s = do { s1 \<leftarrow> retaining ja s; on_node (add_value (ARRAY ja)) p s1 }"

section \<open>Lookup\<close>

definition find_pair :: "bytes \<Rightarrow> json_node \<Rightarrow> KeyValue option option" where
  "find_pair key node = (case node of JObject pairs _ \<Rightarrow> Some (map_of pairs key) | JArray _ \<Rightarrow> None)"

text \<open>\<open>m_keyvalues\<close> of an object, \<open>m_array\<close> of an array.\<close>

fun keyvalues :: "json_node \<Rightarrow> KeyValue list" where
  "keyvalues (JObject _ kvs) = kvs"
| "keyvalues (JArray vs) = vs"

definition value_at :: "int \<Rightarrow> json_node \<Rightarrow> KeyValue option" where
  "value_at index node =
     (if index < 0 \<or> int (length (keyvalues node)) \<le> index then None else Some (keyvalues node ! nat index))"

text \<open>The two families of readers: by key, and by index (the same for objects and arrays).\<close>

definition opt_key :: "(KeyValue \<Rightarrow> 'a option) \<Rightarrow> 'a option \<Rightarrow> bytes \<Rightarrow> json_node \<Rightarrow> 'a option" where
  "opt_key cast def key node = do { r \<leftarrow> find_pair key node; case r of Some kv \<Rightarrow> cast kv | None \<Rightarrow> def }"

definition opt_index :: "(KeyValue \<Rightarrow> 'a option) \<Rightarrow> 'a option \<Rightarrow> int \<Rightarrow> json_node \<Rightarrow> 'a option" where
  "opt_index cast def index node = (case value_at index node of Some kv \<Rightarrow> cast kv | None \<Rightarrow> def)"

definition optBool :: "bytes \<Rightarrow> bool \<Rightarrow> json_node \<Rightarrow> bool option" where
  "optBool key def = opt_key castToBool (Some def) key"

definition optInt :: "(nat ptr \<Rightarrow> int) \<Rightarrow> bytes \<Rightarrow> int \<Rightarrow> json_node \<Rightarrow> int option" where
  "optInt addr key def = opt_key (castToInt addr) (Some def) key"

definition optLong :: "(nat ptr \<Rightarrow> int) \<Rightarrow> bytes \<Rightarrow> int \<Rightarrow> json_node \<Rightarrow> int option" where
  "optLong addr key def = opt_key (castToLong addr) (Some def) key"

definition optFloat :: "(KeyValue \<Rightarrow> 'f option) \<Rightarrow> bytes \<Rightarrow> 'f \<Rightarrow> json_node \<Rightarrow> 'f option" where
  "optFloat cast key def = opt_key cast (Some def) key"

definition optDouble :: "(KeyValue \<Rightarrow> 'd option) \<Rightarrow> bytes \<Rightarrow> 'd \<Rightarrow> json_node \<Rightarrow> 'd option" where
  "optDouble cast key def = opt_key cast (Some def) key"

definition optJSONObject :: "bytes \<Rightarrow> json_node \<Rightarrow> nat ptr option" where
  "optJSONObject key = opt_key (\<lambda>kv. Some (castToObject kv)) (Some None) key"

definition optJSONArray :: "bytes \<Rightarrow> json_node \<Rightarrow> nat ptr option" where
  "optJSONArray key = opt_key (\<lambda>kv. Some (castToArray kv)) (Some None) key"

definition optString :: "bytes \<Rightarrow> bytes option \<Rightarrow> json_node \<Rightarrow> bytes option option" where
  "optString key def = opt_key (\<lambda>kv. Some (castToString kv)) (copyString def) key"

definition optBoolAt :: "int \<Rightarrow> bool \<Rightarrow> json_node \<Rightarrow> bool option" where
  "optBoolAt index def = opt_index castToBool (Some def) index"

definition optIntAt :: "(nat ptr \<Rightarrow> int) \<Rightarrow> int \<Rightarrow> int \<Rightarrow> json_node \<Rightarrow> int option" where
  "optIntAt addr index def = opt_index (castToInt addr) (Some def) index"

definition optLongAt :: "(nat ptr \<Rightarrow> int) \<Rightarrow> int \<Rightarrow> int \<Rightarrow> json_node \<Rightarrow> int option" where
  "optLongAt addr index def = opt_index (castToLong addr) (Some def) index"

definition optFloatAt :: "(KeyValue \<Rightarrow> 'f option) \<Rightarrow> int \<Rightarrow> 'f \<Rightarrow> json_node \<Rightarrow> 'f option" where
  "optFloatAt cast index def = opt_index cast (Some def) index"

definition optDoubleAt :: "(KeyValue \<Rightarrow> 'd option) \<Rightarrow> int \<Rightarrow> 'd \<Rightarrow> json_node \<Rightarrow> 'd option" where
  "optDoubleAt cast index def = opt_index cast (Some def) index"

definition optJSONObjectAt :: "int \<Rightarrow> json_node \<Rightarrow> nat ptr option" where
  "optJSONObjectAt index = opt_index (\<lambda>kv. Some (castToObject kv)) (Some None) index"

definition optJSONArrayAt :: "int \<Rightarrow> json_node \<Rightarrow> nat ptr option" where
  "optJSONArrayAt index = opt_index (\<lambda>kv. Some (castToArray kv)) (Some None) index"

definition optStringAt :: "int \<Rightarrow> bytes option \<Rightarrow> json_node \<Rightarrow> bytes option option" where
  "optStringAt index def = opt_index (\<lambda>kv. Some (castToString kv)) (copyString def) index"

definition keyAt :: "int \<Rightarrow> json_node \<Rightarrow> bytes option" where
  "keyAt index node = Option.bind (value_at index node) kv_k"

text \<open>The readers of \<open>wyJSONArray\<close>, on \<open>m_array\<close>.\<close>

definition ja_optBool :: "int \<Rightarrow> bool \<Rightarrow> json_node \<Rightarrow> bool option" where
  "ja_optBool index def = opt_index castToBool (Some def) index"

definition ja_optInt :: "(nat ptr \<Rightarrow> int) \<Rightarrow> int \<Rightarrow> int \<Rightarrow> json_node \<Rightarrow> int option" where
  "ja_optInt addr index def = opt_index (castToInt addr) (Some def) index"

definition ja_optLong :: "(nat ptr \<Rightarrow> int) \<Rightarrow> int \<Rightarrow> int \<Rightarrow> json_node \<Rightarrow> int option" where
  "ja_optLong addr index def = opt_index (castToLong addr) (Some def) index"

definition ja_optFloat :: "(KeyValue \<Rightarrow> 'f option) \<Rightarrow> int \<Rightarrow> 'f \<Rightarrow> json_node \<Rightarrow> 'f option" where
  "ja_optFloat cast index def = opt_index cast (Some def) index"

definition ja_optDouble :: "(KeyValue \<Rightarrow> 'd option) \<Rightarrow> int \<Rightarrow> 'd \<Rightarrow> json_node \<Rightarrow> 'd option" where
  "ja_optDouble cast index def = opt_index cast (Some def) index"

definition ja_optJSONObject :: "int \<Rightarrow> json_node \<Rightarrow> nat ptr option" where
  "ja_optJSONObject index = opt_index (\<lambda>kv. Some (castToObject kv)) (Some None) index"

definition ja_optJSONArray :: "int \<Rightarrow> json_node \<Rightarrow> nat ptr option" where
  "ja_optJSONArray index = opt_index (\<lambda>kv. Some (castToArray kv)) (Some None) index"

definition ja_optString :: "int \<Rightarrow> bytes option \<Rightarrow> json_node \<Rightarrow> bytes option option" where
  "ja_optString index def = opt_index (\<lambda>kv. Some (castToString kv)) (copyString def) index"

section \<open>Creation and destruction\<close>

text \<open>\<open>make\<close>: a new object that the pool of the thread will release.\<close>

definition new_node :: "bool \<Rightarrow> int \<Rightarrow> json_node \<Rightarrow> store \<Rightarrow> (nat \<times> store) option" where
  "new_node gl t n s =
     (let (p, m) = wyObject_new None (mem s) in
      do { m1 \<leftarrow> autoRelease gl t p m; Some (p, s\<lparr>mem := m1, json := (json s)(p \<mapsto> n)\<rparr>) })"

definition wyJSONObject_make :: "bool \<Rightarrow> int \<Rightarrow> store \<Rightarrow> (nat \<times> store) option" where
  "wyJSONObject_make gl t s = new_node gl t (JObject [] []) s"

definition wyJSONArray_make :: "bool \<Rightarrow> int \<Rightarrow> store \<Rightarrow> (nat \<times> store) option" where
  "wyJSONArray_make gl t s = new_node gl t (JArray []) s"

text \<open>\<open>releaseKeyValue\<close>: the releases of one entry; strings are freed.\<close>

fun jo_releaseKeyValue :: "KeyValue \<Rightarrow> ref_call list" where
  "jo_releaseKeyValue kv =
     (case kv_v kv of OBJECT (Some p) \<Rightarrow> [Release p] | ARRAY (Some p) \<Rightarrow> [Release p] | _ \<Rightarrow> [])"

fun ja_releaseKeyValue :: "KeyValue \<Rightarrow> ref_call list" where
  "ja_releaseKeyValue kv =
     (case kv_v kv of OBJECT (Some p) \<Rightarrow> [Release p] | ARRAY (Some p) \<Rightarrow> [Release p] | _ \<Rightarrow> [])"

text \<open>The destructors: an object walks over the map, an array over the vector.\<close>

definition node_destructor :: "json_node \<Rightarrow> ref_call list" where
  "node_destructor n =
     (case n of
        JObject pairs kvs \<Rightarrow> concat (map (\<lambda>e. jo_releaseKeyValue (snd e)) pairs)
      | JArray vs \<Rightarrow> concat (map ja_releaseKeyValue vs))"

definition json_dtor :: "(nat \<rightharpoonup> json_node) \<Rightarrow> nat \<Rightarrow> ref_call list" where
  "json_dtor j p = (case j p of None \<Rightarrow> [] | Some n \<Rightarrow> node_destructor n)"

text \<open>\<open>safeCast\<close>: a document of the other kind is wrapped; other objects give \<open>NULL\<close>.\<close>

definition jo_safeCast :: "bool \<Rightarrow> int \<Rightarrow> nat ptr \<Rightarrow> store \<Rightarrow> (nat ptr \<times> store) option" where
  "jo_safeCast gl t obj s =
     (case Option.bind obj (json s) of
        Some (JObject _ _) \<Rightarrow> Some (obj, s)
      | Some (JArray _) \<Rightarrow>
          do { (jo, s1) \<leftarrow> wyJSONObject_make gl t s;
               s2 \<leftarrow> jo_addArray (Some (ascii ''array'')) obj jo s1;
               Some (Some jo, s2) }
      | None \<Rightarrow> Some (None, s))"

definition ja_safeCast :: "bool \<Rightarrow> int \<Rightarrow> nat ptr \<Rightarrow> store \<Rightarrow> (nat ptr \<times> store) option" where
  "ja_safeCast gl t obj s =
     (case Option.bind obj (json s) of
        Some (JArray _) \<Rightarrow> Some (obj, s)
      | Some (JObject _ _) \<Rightarrow>
          do { (ja, s1) \<leftarrow> wyJSONArray_make gl t s;
               s2 \<leftarrow> ja_addObject obj ja s1;
               Some (Some ja, s2) }
      | None \<Rightarrow> Some (None, s))"

section \<open>Output\<close>

text \<open>
  Everything goes through the static buffer \<open>s_buf\<close> of 4096 bytes: \<open>sprintf\<close> must leave room for its
  NUL, the tabs must fit and so must the length given to \<open>write\<close>, a \<open>size_t\<close>. The stream is the
  bytes written so far. A \<open>NULL\<close> string has no defined result with \<open>%s\<close>.
\<close>

definition put_text :: "bytes \<Rightarrow> bytes \<Rightarrow> bytes option" where
  "put_text out text = (if length text < 4096 then Some (out @ text) else None)"

definition put_tabs :: "bytes \<Rightarrow> int \<Rightarrow> bytes option" where
  "put_tabs out level = (if 0 \<le> level \<and> level \<le> 4096 then Some (out @ replicate (nat level) 0x09) else None)"

definition quoted_text :: "bytes \<Rightarrow> bytes" where
  "quoted_text s = [0x22] @ s @ [0x22]"

text \<open>One value; \<open>sub\<close> prints the object at a pointer, \<open>last\<close> says that no comma follows.\<close>

definition output_value :: "(nat \<Rightarrow> bytes \<Rightarrow> bytes option) \<Rightarrow> KeyValue \<Rightarrow> bool \<Rightarrow> bytes \<Rightarrow> bytes option" where
  "output_value sub kv last_one out =
     (let eol = (if last_one then [0x0A] else [0x2C, 0x0A]) in
      case kv_v kv of
        OBJECT p \<Rightarrow> do { q \<leftarrow> p; out1 \<leftarrow> sub q out; Some (if last_one then out1 else out1 @ [0x2C]) }
      | ARRAY p \<Rightarrow> do { q \<leftarrow> p; out1 \<leftarrow> sub q out; Some (if last_one then out1 else out1 @ [0x2C]) }
      | BOOLEAN b \<Rightarrow> put_text out ((if b then ctrue else cfalse) @ eol)
      | _ \<Rightarrow> do { text \<leftarrow> castToString kv; put_text out (quoted_text text @ eol) })"

fun output_pairs :: "(nat \<Rightarrow> bytes \<Rightarrow> bytes option) \<Rightarrow> int \<Rightarrow> (bytes \<times> KeyValue) list \<Rightarrow> bytes \<Rightarrow> bytes option" where
  "output_pairs sub level [] out = Some out"
| "output_pairs sub level (e # es) out =
     do { out1 \<leftarrow> put_tabs out level;
          key \<leftarrow> kv_k (snd e);
          out2 \<leftarrow> put_text out1 (quoted_text key @ ascii '' : '');
          out3 \<leftarrow> output_value sub (snd e) (es = []) out2;
          output_pairs sub level es out3 }"

fun output_values :: "(nat \<Rightarrow> bytes \<Rightarrow> bytes option) \<Rightarrow> int \<Rightarrow> KeyValue list \<Rightarrow> bytes \<Rightarrow> bytes option" where
  "output_values sub level [] out = Some out"
| "output_values sub level (v # vs) out =
     do { out1 \<leftarrow> put_tabs out level;
          out2 \<leftarrow> output_value sub v (vs = []) out1;
          output_values sub level vs out2 }"

text \<open>\<open>output\<close> at a nesting of at most the fuel; a document that contains itself never ends.\<close>

fun json_output :: "nat \<Rightarrow> store \<Rightarrow> nat \<Rightarrow> int \<Rightarrow> bytes \<Rightarrow> bytes option" where
  "json_output 0 s p level out = None"
| "json_output (Suc n) s p level out =
     do { node \<leftarrow> json s p;
          case node of
            JObject pairs kvs \<Rightarrow>
              do { out1 \<leftarrow> output_pairs (\<lambda>q. json_output n s q (level + 1)) level pairs (out @ [0x7B, 0x0A]);
                   out2 \<leftarrow> put_tabs out1 (level - 1);
                   Some (out2 @ [0x7D, 0x0A]) }
          | JArray vs \<Rightarrow>
              do { out1 \<leftarrow> output_values (\<lambda>q. json_output n s q (level + 1)) level vs (out @ [0x5B, 0x0A]);
                   out2 \<leftarrow> put_tabs out1 (level - 1);
                   Some (out2 @ [0x5D, 0x0A]) } }"

section \<open>The parser's context\<close>

text \<open>\<open>key\<close> is a pointer into the memory of the parser; it is read when the value arrives.\<close>

record wyJSONContext =
  jc_g :: "unit yajl_gen"
  jc_key :: strptr
  jc_keyLen :: nat
  jc_root :: "nat ptr"
  jc_objStack :: "nat list"
  jc_flagStack :: "bool list"
  jc_store :: store

text \<open>Writing one byte behind a pointer.\<close>

definition cells_put :: "cells option \<Rightarrow> nat \<Rightarrow> cells option option" where
  "cells_put m i = do { cs \<leftarrow> m; c \<leftarrow> wr cs i (Some 0); Some (Some c) }"

fun put_nul :: "cmem \<Rightarrow> strptr \<Rightarrow> nat \<Rightarrow> cmem option" where
  "put_nul m PNull k = None"
| "put_nul m (PText i) k = do { b \<leftarrow> wr (mem_text m) (i + k) 0; Some (m\<lparr>mem_text := b\<rparr>) }"
| "put_nul m (PLex i) k = do { b \<leftarrow> cells_put (mem_lex m) (i + k); Some (m\<lparr>mem_lex := b\<rparr>) }"
| "put_nul m (PDec i) k = do { b \<leftarrow> cells_put (mem_dec m) (i + k); Some (m\<lparr>mem_dec := b\<rparr>) }"

text \<open>The C string at a pointer.\<close>

definition mem_cstr :: "cmem \<Rightarrow> strptr \<Rightarrow> bytes option" where
  "mem_cstr m p = do { bs \<leftarrow> mem_from m p; if 0 \<in> set bs then Some (c_str bs) else None }"

text \<open>The tops of the two stacks; \<open>rbegin\<close> of an empty vector has no defined result.\<close>

definition jc_top :: "wyJSONContext \<Rightarrow> (bool \<times> nat) option" where
  "jc_top jc =
     (case (jc_flagStack jc, jc_objStack jc) of (f # _, p # _) \<Rightarrow> Some (f, p) | _ \<Rightarrow> None)"

text \<open>
  Add to the innermost container: to an array, or to an object under the key, which is terminated
  with a NUL for the call (the old byte is put back afterwards).
\<close>

definition add_here ::
  "(cmem \<Rightarrow> nat \<Rightarrow> store \<Rightarrow> store option) \<Rightarrow> (cmem \<Rightarrow> bytes option \<Rightarrow> nat \<Rightarrow> store \<Rightarrow> store option) \<Rightarrow>
   cmem \<Rightarrow> wyJSONContext \<Rightarrow> wyJSONContext option" where
  "add_here to_array to_object m jc =
     do { (array, p) \<leftarrow> jc_top jc;
          s1 \<leftarrow> (if array then to_array m p (jc_store jc)
                else do { m1 \<leftarrow> put_nul m (jc_key jc) (jc_keyLen jc);
                          key \<leftarrow> mem_cstr m1 (jc_key jc);
                          to_object m1 (Some key) p (jc_store jc) });
          Some (jc\<lparr>jc_store := s1\<rparr>) }"

definition gen_result :: "(yajl_gen_status \<times> unit yajl_gen) option \<Rightarrow> wyJSONContext \<Rightarrow> (wyJSONContext \<times> bool) option" where
  "gen_result r jc = do { (st, g) \<leftarrow> r; Some (jc\<lparr>jc_g := g\<rparr>, st = yajl_gen_status_ok) }"

definition reformat_null :: "wyJSONContext \<Rightarrow> cmem \<Rightarrow> (wyJSONContext \<times> bool) option" where
  "reformat_null jc m =
     do { jc1 \<leftarrow> add_here (\<lambda>m. ja_addNull) (\<lambda>m key. jo_addNull key) m jc;
          gen_result (yajl_gen_null (jc_g jc1)) jc1 }"

definition reformat_boolean :: "wyJSONContext \<Rightarrow> cmem \<Rightarrow> bool \<Rightarrow> (wyJSONContext \<times> bool) option" where
  "reformat_boolean jc m b =
     do { jc1 \<leftarrow> add_here (\<lambda>m. ja_addBool b) (\<lambda>m key. jo_addBool key b) m jc;
          gen_result (yajl_gen_bool (jc_g jc1) b) jc1 }"

text \<open>The text of a number or string is terminated first; then the key is, in the same memory.\<close>

definition add_text :: "cmem \<Rightarrow> strptr \<Rightarrow> nat \<Rightarrow> wyJSONContext \<Rightarrow> wyJSONContext option" where
  "add_text m str len jc =
     do { m1 \<leftarrow> put_nul m str len;
          add_here (\<lambda>m2 p s. do { v \<leftarrow> mem_cstr m2 str; ja_addString (Some v) p s })
            (\<lambda>m2 key p s. do { v \<leftarrow> mem_cstr m2 str; jo_addString key (Some v) p s }) m1 jc }"

definition reformat_number :: "wyJSONContext \<Rightarrow> cmem \<Rightarrow> strptr \<Rightarrow> nat \<Rightarrow> (wyJSONContext \<times> bool) option" where
  "reformat_number jc m str len =
     do { jc1 \<leftarrow> add_text m str len jc;
          text \<leftarrow> mem_bytes m str len;
          gen_result (yajl_gen_number (jc_g jc1) text) jc1 }"

definition reformat_string :: "wyJSONContext \<Rightarrow> cmem \<Rightarrow> strptr \<Rightarrow> nat \<Rightarrow> (wyJSONContext \<times> bool) option" where
  "reformat_string jc m str len =
     do { jc1 \<leftarrow> add_text m str len jc;
          text \<leftarrow> mem_bytes m str len;
          gen_result (yajl_gen_string (jc_g jc1) text) jc1 }"

definition reformat_map_key :: "wyJSONContext \<Rightarrow> cmem \<Rightarrow> strptr \<Rightarrow> nat \<Rightarrow> (wyJSONContext \<times> bool) option" where
  "reformat_map_key jc m str len =
     do { let jc1 = jc\<lparr>jc_key := str, jc_keyLen := len\<rparr>;
          text \<leftarrow> mem_bytes m str len;
          gen_result (yajl_gen_string (jc_g jc1) text) jc1 }"

definition push_container :: "bool \<Rightarrow> nat \<Rightarrow> wyJSONContext \<Rightarrow> wyJSONContext" where
  "push_container array p jc = jc\<lparr>jc_objStack := p # jc_objStack jc, jc_flagStack := array # jc_flagStack jc\<rparr>"

definition reformat_start_map :: "bool \<Rightarrow> int \<Rightarrow> wyJSONContext \<Rightarrow> cmem \<Rightarrow> (wyJSONContext \<times> bool) option" where
  "reformat_start_map gl t jc m =
     do { (jo, s1) \<leftarrow> wyJSONObject_make gl t (jc_store jc);
          let jc1 = jc\<lparr>jc_store := s1\<rparr>;
          jc2 \<leftarrow> (if jc_root jc \<noteq> None
                 then add_here (\<lambda>m. ja_addObject (Some jo)) (\<lambda>m key. jo_addObject key (Some jo)) m jc1
                 else Some (jc1\<lparr>jc_root := Some jo\<rparr>));
          let jc3 = push_container False jo jc2;
          gen_result (yajl_gen_map_open (jc_g jc3)) jc3 }"

definition reformat_start_array :: "bool \<Rightarrow> int \<Rightarrow> wyJSONContext \<Rightarrow> cmem \<Rightarrow> (wyJSONContext \<times> bool) option" where
  "reformat_start_array gl t jc m =
     do { (ja, s1) \<leftarrow> wyJSONArray_make gl t (jc_store jc);
          let jc1 = jc\<lparr>jc_store := s1\<rparr>;
          jc2 \<leftarrow> (if jc_root jc \<noteq> None
                 then add_here (\<lambda>m. ja_addArray (Some ja)) (\<lambda>m key. jo_addArray key (Some ja)) m jc1
                 else Some (jc1\<lparr>jc_root := Some ja\<rparr>));
          let jc3 = push_container True ja jc2;
          gen_result (yajl_gen_array_open (jc_g jc3)) jc3 }"

text \<open>\<open>pop_back\<close> of both stacks.\<close>

definition pop_container :: "wyJSONContext \<Rightarrow> wyJSONContext option" where
  "pop_container jc =
     (case (jc_objStack jc, jc_flagStack jc) of
        (_ # os, _ # fs) \<Rightarrow> Some (jc\<lparr>jc_objStack := os, jc_flagStack := fs\<rparr>)
      | _ \<Rightarrow> None)"

definition reformat_end_map :: "wyJSONContext \<Rightarrow> cmem \<Rightarrow> (wyJSONContext \<times> bool) option" where
  "reformat_end_map jc m = do { jc1 \<leftarrow> pop_container jc; gen_result (yajl_gen_map_close (jc_g jc1)) jc1 }"

definition reformat_end_array :: "wyJSONContext \<Rightarrow> cmem \<Rightarrow> (wyJSONContext \<times> bool) option" where
  "reformat_end_array jc m = do { jc1 \<leftarrow> pop_container jc; gen_result (yajl_gen_array_close (jc_g jc1)) jc1 }"

definition json_callbacks :: "bool \<Rightarrow> int \<Rightarrow> (wyJSONContext, 'd) yajl_callbacks" where
  "json_callbacks gl t =
     \<lparr>cb_null = Some reformat_null, cb_boolean = Some reformat_boolean, cb_integer = None, cb_double = None,
      cb_number = Some reformat_number, cb_string = Some reformat_string,
      cb_start_map = Some (reformat_start_map gl t), cb_map_key = Some reformat_map_key,
      cb_end_map = Some reformat_end_map, cb_start_array = Some (reformat_start_array gl t),
      cb_end_array = Some reformat_end_array\<rparr>"

section \<open>Loading\<close>

text \<open>
  The loop of \<open>load\<close>: up to 4096 bytes at a time into \<open>buf\<close>, of which the bytes a short read does
  not replace stay. It ends at the end of the stream or when the parser does not answer ok.
\<close>

partial_function (option) load_loop ::
  "(bytes \<Rightarrow> 'd strtod_result) \<Rightarrow> wyMemoryInputStream \<Rightarrow> bytes \<Rightarrow> (wyJSONContext, 'd) yajl_handle \<Rightarrow>
   (wyJSONContext, 'd) yajl_handle option" where
  "load_loop strtod mis buf h =
     Option.bind (stream_read mis 4096) (\<lambda>r.
       if fst r = 0 then Some h
       else
         Option.bind (yajl_parse strtod h (fst (snd r) @ drop (length (fst (snd r))) buf) (nat (fst r))) (\<lambda>p.
           if fst p \<noteq> yajl_status_ok then Some (snd p)
           else load_loop strtod (snd (snd r)) (fst (snd r) @ drop (length (fst (snd r))) buf) (snd p)))"

declare load_loop.simps [code]

definition load_json ::
  "(bytes \<Rightarrow> 'd strtod_result) \<Rightarrow> bool \<Rightarrow> int \<Rightarrow> bool \<Rightarrow> bytes \<Rightarrow> store \<Rightarrow> (nat ptr \<times> store) option" where
  "load_json strtod gl t erange text s =
     do { g0 \<leftarrow> yajl_gen_alloc None;
          g1 \<leftarrow> yajl_gen_config g0 (Gen_beautify True);
          g2 \<leftarrow> yajl_gen_config (snd g1) (Gen_validate_utf8 True);
          let ctx = \<lparr>jc_g = snd g2, jc_key = PNull, jc_keyLen = 0, jc_root = None, jc_objStack = [],
                     jc_flagStack = [], jc_store = s\<rparr>;
          h0 \<leftarrow> yajl_alloc (Some (json_callbacks gl t)) True ctx erange;
          let h1 = snd (yajl_config h0 yajl_allow_comments True);
          h2 \<leftarrow> load_loop strtod (wyMemoryInputStream_make text (length text) False) [] h1;
          (stat, h3) \<leftarrow> yajl_complete_parse strtod h2;
          if stat \<noteq> yajl_status_ok
          then do { _ \<leftarrow> yajl_render_error_string h3 text (length text) True;
                    Some (None, jc_store (hctx h3)) }
          else Some (jc_root (hctx h3), jc_store (hctx h3)) }"

text \<open>\<open>make\<close> from a text.\<close>

definition wyJSONObject_parse ::
  "(bytes \<Rightarrow> 'd strtod_result) \<Rightarrow> bool \<Rightarrow> int \<Rightarrow> bool \<Rightarrow> bytes \<Rightarrow> store \<Rightarrow> (nat ptr \<times> store) option" where
  "wyJSONObject_parse strtod gl t erange text s =
     do { (obj, s1) \<leftarrow> load_json strtod gl t erange text s; jo_safeCast gl t obj s1 }"

definition wyJSONArray_parse ::
  "(bytes \<Rightarrow> 'd strtod_result) \<Rightarrow> bool \<Rightarrow> int \<Rightarrow> bool \<Rightarrow> bytes \<Rightarrow> store \<Rightarrow> (nat ptr \<times> store) option" where
  "wyJSONArray_parse strtod gl t erange text s =
     do { (obj, s1) \<leftarrow> load_json strtod gl t erange text s; ja_safeCast gl t obj s1 }"

end
