(* ===== verification/Wy_JSON_Props.thy ===== *)
theory Wy_JSON_Props imports Wy_JSON begin

text \<open>
  What the JSON documents promise: lookups answer what was added last under a key, integers survive
  the trip through text, every added child is counted once and released once by the destructor of its
  parent, and where the code breaks these promises.
\<close>

section \<open>Numbers as text\<close>








section \<open>The map and the list of an object\<close>

lemma map_of_pairs_set: "map_of (pairs_set k kv m) = (map_of m)(k \<mapsto> kv)"
  by (induction m) (auto simp: fun_eq_iff)

lemma keys_pairs_set: "fst ` set (pairs_set k kv m) = insert k (fst ` set m)"
  by (induction k kv m rule: pairs_set.induct) (simp_all add: insert_commute)

lemma sorted_pairs_set: "sorted_wrt (<) (map fst m) \<Longrightarrow> sorted_wrt (<) (map fst (pairs_set k kv m))"
proof (induction m)
  case (Cons e m)
  then show ?case using keys_pairs_set [of k kv m] by (cases e) (auto simp: less_le_trans)
qed simp

text \<open>Several additions.\<close>

fun add_pairs :: "(bytes \<times> json_value) list \<Rightarrow> json_node \<Rightarrow> json_node option" where
  "add_pairs [] n = Some n"
| "add_pairs ((k, v) # kvs) n = do { n1 \<leftarrow> add_pair (Some k) v n; add_pairs kvs n1 }"

definition entry :: "bytes \<times> json_value \<Rightarrow> KeyValue" where
  "entry e = \<lparr>kv_k = Some (fst e), kv_v = snd e\<rparr>"

lemma add_pairs_ok:
  "\<exists>pairs'. add_pairs es (JObject pairs kvs) = Some (JObject pairs' (kvs @ map entry es)) \<and>
     (sorted_wrt (<) (map fst pairs) \<longrightarrow> sorted_wrt (<) (map fst pairs')) \<and>
     map_of pairs' = map_of pairs ++ map_of (rev (map (\<lambda>e. (fst e, entry e)) es))"
proof (induction es arbitrary: pairs kvs)
  case (Cons e es)
  obtain pairs' where "add_pairs es (JObject (pairs_set (fst e) (entry e) pairs) (kvs @ [entry e])) =
      Some (JObject pairs' ((kvs @ [entry e]) @ map entry es))"
    "sorted_wrt (<) (map fst (pairs_set (fst e) (entry e) pairs)) \<longrightarrow> sorted_wrt (<) (map fst pairs')"
    "map_of pairs' = map_of (pairs_set (fst e) (entry e) pairs) ++ map_of (rev (map (\<lambda>e. (fst e, entry e)) es))"
    using Cons.IH by blast
  then show ?case using sorted_pairs_set [of pairs "fst e" "entry e"]
    by (cases e) (auto simp: add_pair_def Let_def entry_def map_of_pairs_set map_add_def fun_eq_iff split: option.splits)
qed simp

text \<open>
  C24: After any additions to an empty JSON object, a search by key finds the last value added under
  the key, the entries by index are all the additions in their order, keys added twice included, and
  the map stays strictly sorted by \<open>strcmp\<close>.
\<close>

theorem json_object_lookup:
  "\<exists>pairs. add_pairs es (JObject [] []) = Some (JObject pairs (map entry es)) \<and> sorted_wrt (<) (map fst pairs) \<and>
    (\<forall>k. find_pair k (JObject pairs (map entry es)) = Some (map_option entry (List.find (\<lambda>e. fst e = k) (rev es)))) \<and>
    (\<forall>i<length es. keyAt (int i) (JObject pairs (map entry es)) = Some (fst (es ! i)) \<and>
       value_at (int i) (JObject pairs (map entry es)) = Some (entry (es ! i)))"
proof -
  obtain pairs where p: "add_pairs es (JObject [] []) = Some (JObject pairs (map entry es))" "sorted_wrt (<) (map fst pairs)"
    "map_of pairs = map_of (rev (map (\<lambda>e. (fst e, entry e)) es))"
    using add_pairs_ok [of es "[]" "[]"] by auto
  have "map_of (map (\<lambda>e. (fst e, entry e)) xs) k = map_option entry (List.find (\<lambda>e. fst e = k) xs)" for xs k
    by (induction xs) auto
  then have "map_of (rev (map (\<lambda>e. (fst e, entry e)) es)) k = map_option entry (List.find (\<lambda>e. fst e = k) (rev es))" for k
    unfolding rev_map by blast
  then show ?thesis using p by (auto simp: find_pair_def keyAt_def value_at_def entry_def)
qed

lemma json_object_lookup_witness:
  "\<exists>pairs. find_pair [0x61] (JObject pairs (map entry [([0x61], NIL), ([0x62], NIL), ([0x61], BOOLEAN True)])) =
     Some (Some (entry ([0x61], BOOLEAN True))) \<and>
   keyAt 1 (JObject pairs (map entry [([0x61], NIL), ([0x62], NIL), ([0x61], BOOLEAN True)])) = Some [0x62]"
proof -
  let ?es = "[([0x61], NIL), ([0x62], NIL), ([0x61], BOOLEAN True)] :: (bytes \<times> json_value) list"
  obtain pairs where k: "\<forall>k. find_pair k (JObject pairs (map entry ?es)) =
      Some (map_option entry (List.find (\<lambda>e. fst e = k) (rev ?es)))"
    and i: "\<forall>i<length ?es. keyAt (int i) (JObject pairs (map entry ?es)) = Some (fst (?es ! i)) \<and>
      value_at (int i) (JObject pairs (map entry ?es)) = Some (entry (?es ! i))"
    using json_object_lookup [of ?es] by (elim exE conjE) (rule that)
  show ?thesis using spec [OF k, of "[0x61]"] spec [OF i, of 1] by (intro exI [of _ pairs]) simp
qed



section \<open>Ownership of the children\<close>











section \<open>Keys that are added twice\<close>

lemma on_node_alive:
  "object_at (mem s) p = Some x \<Longrightarrow> json s p = Some n \<Longrightarrow> f n = Some n' \<Longrightarrow>
   on_node f p s = Some (s\<lparr>json := (json s)(p \<mapsto> n')\<rparr>)"
  by (simp add: on_node_def)

text \<open>
  An object added under a key that is already there replaces the earlier entry of the map, but
  the earlier object stays retained for good: the destructor walks over the map and releases only
  the second one, while lookups by index still answer the first.
\<close>

theorem json_duplicate_key_leaks:
  assumes "object_at (mem s) p \<noteq> None" "json s p = Some (JObject [] [])" "c \<noteq> d" "p \<noteq> c" "p \<noteq> d"
    "object_at (mem s) c = Some x" "object_at (mem s) d = Some y" "0 \<le> m_retainCount x" "0 \<le> m_retainCount y"
  shows "\<exists>s1 s2 n. jo_addObject (Some key) (Some c) p s = Some s1 \<and> jo_addObject (Some key) (Some d) p s1 = Some s2 \<and>
    count_of (mem s2) c = Suc (count_of (mem s) c) \<and> count_of (mem s2) d = Suc (count_of (mem s) d) \<and>
    json_dtor (json s2) p = [Release d] \<and> json s2 p = Some n \<and>
    optJSONObject key n = Some (Some d) \<and> optJSONObjectAt 0 n = Some (Some c)"
proof -
  obtain z where z: "object_at (mem s) p = Some z" using assms(1) by auto
  let ?m1 = "set_object (mem s) c (Some (x\<lparr>m_retainCount := m_retainCount x + 1\<rparr>))"
  let ?m2 = "set_object ?m1 d (Some (y\<lparr>m_retainCount := m_retainCount y + 1\<rparr>))"
  let ?e = "\<lambda>q. \<lparr>kv_k = Some key, kv_v = OBJECT (Some q)\<rparr>"
  have l: "c < length (objects (mem s))" "d < length (objects (mem s))" "d < length (objects ?m1)"
    using assms(6,7) by (simp_all add: object_at_Some)
  note at1 = object_at_set [OF l(1)] and at2 = object_at_set [OF l(3)]
  have 1: "jo_addObject (Some key) (Some c) p s =
      Some (s\<lparr>mem := ?m1, json := (json s)(p \<mapsto> JObject [(key, ?e c)] [?e c])\<rparr>)"
    using assms(2,4,6) z by (simp add: jo_addObject_def retaining_def wyObjectRetain_def retain_def on_node_def at1 add_pair_def Let_def)
  let ?s1 = "s\<lparr>mem := ?m1, json := (json s)(p \<mapsto> JObject [(key, ?e c)] [?e c])\<rparr>"
  have 2: "jo_addObject (Some key) (Some d) p ?s1 =
      Some (s\<lparr>mem := ?m2, json := (json s)(p \<mapsto> JObject [(key, ?e d)] [?e c, ?e d])\<rparr>)"
    using assms(3,4,5,7) z
    by (simp add: jo_addObject_def retaining_def wyObjectRetain_def retain_def on_node_def at1 at2 add_pair_def Let_def)
  have "count_of ?m2 c = Suc (count_of (mem s) c)" "count_of ?m2 d = Suc (count_of (mem s) d)"
    using assms(3,6-9) by (simp_all add: count_of_def at1 at2 nat_add_distrib)
  then show ?thesis using 1 2
    by (auto simp: json_dtor_def node_destructor_def optJSONObject_def optJSONObjectAt_def opt_key_def opt_index_def
        find_pair_def value_at_def castToObject_def)
qed

text \<open>A store with a JSON object and two others.\<close>

definition three_nodes :: store where
  "three_nodes =
     \<lparr>mem = no_objects\<lparr>objects := replicate 3 (Some \<lparr>m_retainCount = 1, m_name = None, thread_pool = None\<rparr>)\<rparr>,
      json = [0 \<mapsto> JObject [] [], 1 \<mapsto> JObject [] [], 2 \<mapsto> JObject [] []]\<rparr>"

lemma three_nodes:
  "p < 3 \<Longrightarrow> object_at (mem three_nodes) p = Some \<lparr>m_retainCount = 1, m_name = None, thread_pool = None\<rparr>"
  "json three_nodes 0 = Some (JObject [] [])" "json three_nodes 1 = Some (JObject [] [])" "json three_nodes 2 = Some (JObject [] [])"
  by (simp_all add: three_nodes_def object_at_def)



lemma json_duplicate_key_leaks_witness:
  "\<exists>s1 s2. jo_addObject (Some [0x6B]) (Some 1) 0 three_nodes = Some s1 \<and> jo_addObject (Some [0x6B]) (Some 2) 0 s1 = Some s2 \<and>
    json_dtor (json s2) 0 = [Release 2]"
  using json_duplicate_key_leaks [of three_nodes 0 1 2 "\<lparr>m_retainCount = 1, m_name = None, thread_pool = None\<rparr>"
      "\<lparr>m_retainCount = 1, m_name = None, thread_pool = None\<rparr>" "[0x6B]"] three_nodes by auto

section \<open>Keys in the parser's memory\<close>




text \<open>A loader inside an object, and the memory when it reads a key of one decoded byte and then a value.\<close>

definition quiet_gen :: "unit yajl_gen" where
  "quiet_gen = \<lparr>beautify = False, validate_utf8 = True, escape_solidus = False, depth = 0, indentString = None,
     gstate = [yajl_gen_map_start], gprint = Print_user (\<lambda>f c. ()) ()\<rparr>"

definition in_object :: wyJSONContext where
  "in_object = \<lparr>jc_g = quiet_gen, jc_key = PNull, jc_keyLen = 0, jc_root = Some 0, jc_objStack = [0],
     jc_flagStack = [False], jc_store = three_nodes\<rparr>"

definition dec_memory :: "bytes \<Rightarrow> cmem" where
  "dec_memory bs = \<lparr>mem_text = [], mem_lex = None, mem_dec = Some (map Some bs)\<rparr>"



text \<open>
  A document that is a single string or number crashes the loader, which looks for the innermost
  container in an empty vector.
\<close>

theorem scalar_document_crashes:
  assumes "jc_flagStack jc = []"
  shows "reformat_string jc m p n = None \<and> reformat_number jc m p n = None \<and> reformat_null jc m = None \<and>
    reformat_boolean jc m b = None"
  using assms
  by (simp add: reformat_string_def reformat_number_def reformat_null_def reformat_boolean_def add_text_def add_here_def jc_top_def
      Option.bind_eq_None_conv)

lemma scalar_document_crashes_witness:
  "reformat_null (in_object\<lparr>jc_objStack := [], jc_flagStack := []\<rparr>) (dec_memory [0]) = None"
  using scalar_document_crashes [of "in_object\<lparr>jc_objStack := [], jc_flagStack := []\<rparr>" "dec_memory [0]" "PDec 0" 0 True] by simp

text \<open>
  Printing a document with a null is undefined, as the cast of a null to a string is \<open>NULL\<close> and goes
  to \<open>%s\<close>; so is printing at level 0, where the length of the closing indentation wraps around.
\<close>

theorem json_output_undefined:
  assumes "json s p = Some (JArray (vs @ \<lparr>kv_k = None, kv_v = NIL\<rparr> # ws)) \<or> level \<le> 0"
  shows "json_output n s p level out = None"
proof -
  have nil: "output_values sub level (vs @ \<lparr>kv_k = None, kv_v = NIL\<rparr> # ws) out = None" for sub vs out
    by (induction vs arbitrary: out) (auto simp: output_value_def castToString_def Option.bind_eq_None_conv)
  show ?thesis
  proof (cases n)
    case (Suc m)
    have "put_tabs o1 (level - 1) = None" if "level \<le> 0" for o1 using that by (simp add: put_tabs_def)
    then show ?thesis using assms nil Suc by (auto simp: Option.bind_eq_None_conv split: json_node.split)
  qed simp
qed

lemma json_output_undefined_witness: "json_output 5 three_nodes 0 0 [] = None"
  using json_output_undefined [of three_nodes 0 "[]" "[]" 0 5 "[]"] by simp

end
