(* ===== verification/Wy_MD5.thy ===== *)
theory Wy_MD5 imports Prelude begin

text \<open>
  The MD5 digest of \<open>utils/wyMD5.cpp\<close>. \<open>UINT4\<close>, an \<open>unsigned long int\<close>, has the 32 bits its comment asks
  for; the buffer of a context is not initialised. The macros are functions that return the new value
  of their first argument.
\<close>

section \<open>The basic functions\<close>

definition md5_F :: "32 word \<Rightarrow> 32 word \<Rightarrow> 32 word \<Rightarrow> 32 word" where "md5_F x y z = (x AND y) OR (NOT x AND z)"
definition md5_G :: "32 word \<Rightarrow> 32 word \<Rightarrow> 32 word \<Rightarrow> 32 word" where "md5_G x y z = (x AND z) OR (y AND NOT z)"
definition md5_H :: "32 word \<Rightarrow> 32 word \<Rightarrow> 32 word \<Rightarrow> 32 word" where "md5_H x y z = x XOR y XOR z"
definition md5_I :: "32 word \<Rightarrow> 32 word \<Rightarrow> 32 word \<Rightarrow> 32 word" where "md5_I x y z = y XOR (x OR NOT z)"

definition ROTATE_LEFT :: "32 word \<Rightarrow> nat \<Rightarrow> 32 word" where
  "ROTATE_LEFT x n = push_bit n x OR drop_bit (32 - n) x"

definition S11 :: nat where "S11 = 7"
definition S12 :: nat where "S12 = 12"
definition S13 :: nat where "S13 = 17"
definition S14 :: nat where "S14 = 22"
definition S21 :: nat where "S21 = 5"
definition S22 :: nat where "S22 = 9"
definition S23 :: nat where "S23 = 14"
definition S24 :: nat where "S24 = 20"
definition S31 :: nat where "S31 = 4"
definition S32 :: nat where "S32 = 11"
definition S33 :: nat where "S33 = 16"
definition S34 :: nat where "S34 = 23"
definition S41 :: nat where "S41 = 6"
definition S42 :: nat where "S42 = 10"
definition S43 :: nat where "S43 = 15"
definition S44 :: nat where "S44 = 21"

lemmas shifts = S11_def S12_def S13_def S14_def S21_def S22_def S23_def S24_def
  S31_def S32_def S33_def S34_def S41_def S42_def S43_def S44_def

definition FF :: "32 word \<Rightarrow> 32 word \<Rightarrow> 32 word \<Rightarrow> 32 word \<Rightarrow> 32 word \<Rightarrow> nat \<Rightarrow> 32 word \<Rightarrow> 32 word" where
  "FF a b c d x s ac = ROTATE_LEFT (a + (md5_F b c d + x + ac)) s + b"

definition GG :: "32 word \<Rightarrow> 32 word \<Rightarrow> 32 word \<Rightarrow> 32 word \<Rightarrow> 32 word \<Rightarrow> nat \<Rightarrow> 32 word \<Rightarrow> 32 word" where
  "GG a b c d x s ac = ROTATE_LEFT (a + (md5_G b c d + x + ac)) s + b"

definition HH :: "32 word \<Rightarrow> 32 word \<Rightarrow> 32 word \<Rightarrow> 32 word \<Rightarrow> 32 word \<Rightarrow> nat \<Rightarrow> 32 word \<Rightarrow> 32 word" where
  "HH a b c d x s ac = ROTATE_LEFT (a + (md5_H b c d + x + ac)) s + b"

definition II :: "32 word \<Rightarrow> 32 word \<Rightarrow> 32 word \<Rightarrow> 32 word \<Rightarrow> 32 word \<Rightarrow> nat \<Rightarrow> 32 word \<Rightarrow> 32 word" where
  "II a b c d x s ac = ROTATE_LEFT (a + (md5_I b c d + x + ac)) s + b"

text \<open>Four lines of \<open>MD5Transform\<close>, after which each register has been assigned once.\<close>

type_synonym regs = "32 word \<times> 32 word \<times> 32 word \<times> 32 word"

definition FF4 :: "32 word list \<Rightarrow> nat \<times> nat \<times> nat \<times> nat \<Rightarrow> 32 word \<times> 32 word \<times> 32 word \<times> 32 word \<Rightarrow> regs \<Rightarrow> regs" where
  "FF4 x ks acs r =
     (case (ks, acs, r) of ((k1, k2, k3, k4), (c1, c2, c3, c4), (a, b, c, d)) \<Rightarrow>
        let a = FF a b c d (x ! k1) S11 c1;
            d = FF d a b c (x ! k2) S12 c2;
            c = FF c d a b (x ! k3) S13 c3;
            b = FF b c d a (x ! k4) S14 c4
        in (a, b, c, d))"

definition GG4 :: "32 word list \<Rightarrow> nat \<times> nat \<times> nat \<times> nat \<Rightarrow> 32 word \<times> 32 word \<times> 32 word \<times> 32 word \<Rightarrow> regs \<Rightarrow> regs" where
  "GG4 x ks acs r =
     (case (ks, acs, r) of ((k1, k2, k3, k4), (c1, c2, c3, c4), (a, b, c, d)) \<Rightarrow>
        let a = GG a b c d (x ! k1) S21 c1;
            d = GG d a b c (x ! k2) S22 c2;
            c = GG c d a b (x ! k3) S23 c3;
            b = GG b c d a (x ! k4) S24 c4
        in (a, b, c, d))"

definition HH4 :: "32 word list \<Rightarrow> nat \<times> nat \<times> nat \<times> nat \<Rightarrow> 32 word \<times> 32 word \<times> 32 word \<times> 32 word \<Rightarrow> regs \<Rightarrow> regs" where
  "HH4 x ks acs r =
     (case (ks, acs, r) of ((k1, k2, k3, k4), (c1, c2, c3, c4), (a, b, c, d)) \<Rightarrow>
        let a = HH a b c d (x ! k1) S31 c1;
            d = HH d a b c (x ! k2) S32 c2;
            c = HH c d a b (x ! k3) S33 c3;
            b = HH b c d a (x ! k4) S34 c4
        in (a, b, c, d))"

definition II4 :: "32 word list \<Rightarrow> nat \<times> nat \<times> nat \<times> nat \<Rightarrow> 32 word \<times> 32 word \<times> 32 word \<times> 32 word \<Rightarrow> regs \<Rightarrow> regs" where
  "II4 x ks acs r =
     (case (ks, acs, r) of ((k1, k2, k3, k4), (c1, c2, c3, c4), (a, b, c, d)) \<Rightarrow>
        let a = II a b c d (x ! k1) S41 c1;
            d = II d a b c (x ! k2) S42 c2;
            c = II c d a b (x ! k3) S43 c3;
            b = II b c d a (x ! k4) S44 c4
        in (a, b, c, d))"

section \<open>Words and bytes\<close>

definition word_bytes :: "32 word \<Rightarrow> bytes" where
  "word_bytes w = [ucast (w AND 0xff), ucast (drop_bit 8 w AND 0xff), ucast (drop_bit 16 w AND 0xff),
     ucast (drop_bit 24 w AND 0xff)]"

text \<open>The loops go on while \<open>j < len\<close> in steps of 4.\<close>

definition md5_Encode :: "32 word list \<Rightarrow> nat \<Rightarrow> bytes option" where
  "md5_Encode input len = do { ws \<leftarrow> cslice input 0 ((len + 3) div 4); Some (concat (map word_bytes ws)) }"

fun bytes_words :: "bytes \<Rightarrow> 32 word list" where
  "bytes_words (b1 # b2 # b3 # b4 # bs) =
     (ucast b1 OR push_bit 8 (ucast b2) OR push_bit 16 (ucast b3) OR push_bit 24 (ucast b4)) # bytes_words bs"
| "bytes_words _ = []"

definition md5_Decode :: "bytes \<Rightarrow> nat \<Rightarrow> 32 word list option" where
  "md5_Decode input len = do { bs \<leftarrow> cslice input 0 (4 * ((len + 3) div 4)); Some (bytes_words bs) }"

section \<open>The transformation of a block\<close>

definition MD5Transform :: "regs \<Rightarrow> bytes \<Rightarrow> regs option" where
  "MD5Transform st block =
     do { x \<leftarrow> md5_Decode block 64;
          let r = st;
          let r = FF4 x (0, 1, 2, 3) (0xd76aa478, 0xe8c7b756, 0x242070db, 0xc1bdceee) r;
          let r = FF4 x (4, 5, 6, 7) (0xf57c0faf, 0x4787c62a, 0xa8304613, 0xfd469501) r;
          let r = FF4 x (8, 9, 10, 11) (0x698098d8, 0x8b44f7af, 0xffff5bb1, 0x895cd7be) r;
          let r = FF4 x (12, 13, 14, 15) (0x6b901122, 0xfd987193, 0xa679438e, 0x49b40821) r;
          let r = GG4 x (1, 6, 11, 0) (0xf61e2562, 0xc040b340, 0x265e5a51, 0xe9b6c7aa) r;
          let r = GG4 x (5, 10, 15, 4) (0xd62f105d, 0x2441453, 0xd8a1e681, 0xe7d3fbc8) r;
          let r = GG4 x (9, 14, 3, 8) (0x21e1cde6, 0xc33707d6, 0xf4d50d87, 0x455a14ed) r;
          let r = GG4 x (13, 2, 7, 12) (0xa9e3e905, 0xfcefa3f8, 0x676f02d9, 0x8d2a4c8a) r;
          let r = HH4 x (5, 8, 11, 14) (0xfffa3942, 0x8771f681, 0x6d9d6122, 0xfde5380c) r;
          let r = HH4 x (1, 4, 7, 10) (0xa4beea44, 0x4bdecfa9, 0xf6bb4b60, 0xbebfbc70) r;
          let r = HH4 x (13, 0, 3, 6) (0x289b7ec6, 0xeaa127fa, 0xd4ef3085, 0x4881d05) r;
          let r = HH4 x (9, 12, 15, 2) (0xd9d4d039, 0xe6db99e5, 0x1fa27cf8, 0xc4ac5665) r;
          let r = II4 x (0, 7, 14, 5) (0xf4292244, 0x432aff97, 0xab9423a7, 0xfc93a039) r;
          let r = II4 x (12, 3, 10, 1) (0x655b59c3, 0x8f0ccc92, 0xffeff47d, 0x85845dd1) r;
          let r = II4 x (8, 15, 6, 13) (0x6fa87e4f, 0xfe2ce6e0, 0xa3014314, 0x4e0811a1) r;
          let r = II4 x (4, 11, 2, 9) (0xf7537e82, 0xbd3af235, 0x2ad7d2bb, 0xeb86d391) r;
          case (st, r) of ((a0, b0, c0, d0), (a, b, c, d)) \<Rightarrow> Some (a0 + a, b0 + b, c0 + c, d0 + d) }"

section \<open>Contexts\<close>

record MD5_CTX =
  md5_state :: regs
  md5_count :: "32 word \<times> 32 word"
  md5_buffer :: cells

definition MD5_PADDING :: bytes where
  "MD5_PADDING = 0x80 # replicate 63 0"

definition MD5Init :: "cells \<Rightarrow> MD5_CTX" where
  "MD5Init garbage =
     \<lparr>md5_state = (0x67452301, 0xefcdab89, 0x98badcfe, 0x10325476), md5_count = (0, 0), md5_buffer = garbage\<rparr>"

text \<open>The loop over the blocks of the input from \<open>i\<close> on; \<open>i + 63\<close> is a \<open>size_t\<close>.\<close>

function md5_blocks :: "regs \<Rightarrow> bytes \<Rightarrow> nat \<Rightarrow> (regs \<times> nat) option" where
  "md5_blocks st input i =
     (if (i + 63) mod size_mod < length input
      then case cslice input i 64 of
             None \<Rightarrow> None
           | Some block \<Rightarrow> (case MD5Transform st block of None \<Rightarrow> None | Some st1 \<Rightarrow> md5_blocks st1 input (i + 64))
      else Some (st, i))"
  by pat_completeness auto
termination
  by (relation "measure (\<lambda>(st, input, i). length input + 64 - i)") (auto simp: cslice_def split: if_splits)

declare md5_blocks.simps [simp del]

definition MD5Update :: "MD5_CTX \<Rightarrow> bytes \<Rightarrow> MD5_CTX option" where
  "MD5Update ctx input =
     (let index = unat (drop_bit 3 (fst (md5_count ctx)) AND 0x3F);
          bits = push_bit 3 (of_nat (length input)) :: 32 word;
          lo = fst (md5_count ctx) + bits;
          hi = (if lo < bits then snd (md5_count ctx) + 1 else snd (md5_count ctx)) + drop_bit 29 (of_nat (length input));
          partLen = 64 - index
      in do { (st, buf, i, index1) \<leftarrow>
                (if partLen \<le> length input
                 then do { buf1 \<leftarrow> mem_write (md5_buffer ctx) index (map Some (take partLen input));
                           block \<leftarrow> those (take 64 buf1);
                           st1 \<leftarrow> MD5Transform (md5_state ctx) block;
                           (st2, i) \<leftarrow> md5_blocks st1 input partLen;
                           Some (st2, buf1, i, 0) }
                 else Some (md5_state ctx, md5_buffer ctx, 0, index));
              buf2 \<leftarrow> mem_write buf index1 (map Some (drop i input));
              Some \<lparr>md5_state = st, md5_count = (lo, hi), md5_buffer = buf2\<rparr> })"

definition MD5Final :: "MD5_CTX \<Rightarrow> bytes option" where
  "MD5Final ctx =
     do { bits \<leftarrow> md5_Encode [fst (md5_count ctx), snd (md5_count ctx)] 8;
          let index = unat (drop_bit 3 (fst (md5_count ctx)) AND 0x3f);
          let padLen = (if index < 56 then 56 - index else 120 - index);
          padding \<leftarrow> cslice MD5_PADDING 0 padLen;
          ctx1 \<leftarrow> MD5Update ctx padding;
          ctx2 \<leftarrow> MD5Update ctx1 bits;
          (case md5_state ctx2 of (a, b, c, d) \<Rightarrow> md5_Encode [a, b, c, d] 16) }"

section \<open>The two functions of \<open>wyMD5\<close>\<close>

text \<open>\<open>sprintf("%02x")\<close>\<close>

definition hex_char :: "byte \<Rightarrow> byte" where
  "hex_char n = (if n < 10 then 0x30 + n else 0x61 + (n - 10))"

definition hex_text :: "bytes \<Rightarrow> bytes" where
  "hex_text bs = concat (map (\<lambda>b. [hex_char (drop_bit 4 b), hex_char (b AND 0xf)]) bs)"

definition md5_data :: "cells \<Rightarrow> bytes \<Rightarrow> bytes option" where
  "md5_data garbage data =
     do { ctx \<leftarrow> MD5Update (MD5Init garbage) data; digest \<leftarrow> MD5Final ctx; Some (hex_text digest) }"

definition md5_text :: "cells \<Rightarrow> bytes \<Rightarrow> bytes option" where
  "md5_text garbage s =
     do { ctx \<leftarrow> MD5Update (MD5Init garbage) (c_str s); digest \<leftarrow> MD5Final ctx; Some (hex_text digest) }"

end
