(* ===== verification/Wy_MD5_Props.thy ===== *)
theory Wy_MD5_Props imports Wy_MD5 begin

text \<open>
  The digest of \<open>utils/wyMD5.cpp\<close> against the algorithm of RFC 1321 on padded messages: the sixteen
  groups of four assignments are the 64 steps, updates keep the context of the text so far, the two
  words of the bit count carry into each other.
\<close>

section \<open>The digest of RFC 1321\<close>

text \<open>
  Step \<open>i\<close> of 64 with the word \<open>rfc_g i\<close> of the block, the additive constant (the integer part of
  \<open>2 ^ 32 * abs (sin (i + 1))\<close>) and the rotation \<open>rfc_s i\<close>; the registers move on by one place.
\<close>

definition rfc_K :: "32 word list" where
  "rfc_K =
    [0xd76aa478, 0xe8c7b756, 0x242070db, 0xc1bdceee,
     0xf57c0faf, 0x4787c62a, 0xa8304613, 0xfd469501,
     0x698098d8, 0x8b44f7af, 0xffff5bb1, 0x895cd7be,
     0x6b901122, 0xfd987193, 0xa679438e, 0x49b40821,
     0xf61e2562, 0xc040b340, 0x265e5a51, 0xe9b6c7aa,
     0xd62f105d, 0x02441453, 0xd8a1e681, 0xe7d3fbc8,
     0x21e1cde6, 0xc33707d6, 0xf4d50d87, 0x455a14ed,
     0xa9e3e905, 0xfcefa3f8, 0x676f02d9, 0x8d2a4c8a,
     0xfffa3942, 0x8771f681, 0x6d9d6122, 0xfde5380c,
     0xa4beea44, 0x4bdecfa9, 0xf6bb4b60, 0xbebfbc70,
     0x289b7ec6, 0xeaa127fa, 0xd4ef3085, 0x04881d05,
     0xd9d4d039, 0xe6db99e5, 0x1fa27cf8, 0xc4ac5665,
     0xf4292244, 0x432aff97, 0xab9423a7, 0xfc93a039,
     0x655b59c3, 0x8f0ccc92, 0xffeff47d, 0x85845dd1,
     0x6fa87e4f, 0xfe2ce6e0, 0xa3014314, 0x4e0811a1,
     0xf7537e82, 0xbd3af235, 0x2ad7d2bb, 0xeb86d391]"

definition rfc_s :: "nat \<Rightarrow> nat" where
  "rfc_s i = [[7, 12, 17, 22], [5, 9, 14, 20], [4, 11, 16, 23], [6, 10, 15, 21]] ! (i div 16) ! (i mod 4)"

definition rfc_g :: "nat \<Rightarrow> nat" where
  "rfc_g i =
     (if i < 16 then i
      else if i < 32 then (5 * i + 1) mod 16
      else if i < 48 then (3 * i + 5) mod 16
      else (7 * i) mod 16)"

definition rfc_f :: "nat \<Rightarrow> 32 word \<Rightarrow> 32 word \<Rightarrow> 32 word \<Rightarrow> 32 word" where
  "rfc_f i b c d =
     (if i < 16 then (b AND c) OR (NOT b AND d)
      else if i < 32 then (d AND b) OR (NOT d AND c)
      else if i < 48 then b XOR c XOR d
      else c XOR (b OR NOT d))"

definition rfc_step :: "32 word list \<Rightarrow> nat \<Rightarrow> regs \<Rightarrow> regs" where
  "rfc_step x i r =
     (case r of (a, b, c, d) \<Rightarrow> (d, b + word_rotl (rfc_s i) (a + rfc_f i b c d + x ! rfc_g i + rfc_K ! i), b, c))"

definition add_regs :: "regs \<Rightarrow> regs \<Rightarrow> regs" where
  "add_regs r r' = (case (r, r') of ((a, b, c, d), (a', b', c', d')) \<Rightarrow> (a + a', b + b', c + c', d + d'))"

definition rfc_block :: "regs \<Rightarrow> bytes \<Rightarrow> regs" where
  "rfc_block st block = add_regs st (fold (rfc_step (bytes_words block)) [0..<64] st)"

text \<open>All full blocks of a text.\<close>

function rfc_blocks :: "regs \<Rightarrow> bytes \<Rightarrow> regs" where
  "rfc_blocks st msg = (if length msg < 64 then st else rfc_blocks (rfc_block st (take 64 msg)) (drop 64 msg))"
  by pat_completeness auto
termination
  by (relation "measure (\<lambda>(st, msg). length msg)") auto

declare rfc_blocks.simps [simp del]

text \<open>The message is padded with \<open>0x80\<close> and zeros to 56 modulo 64 bytes and its length in bits modulo \<open>2 ^ 64\<close>.\<close>

definition rfc_padding :: "nat \<Rightarrow> bytes" where
  "rfc_padding n =
     0x80 # replicate ((119 - n mod 64) mod 64) 0 @
     word_bytes (of_nat (8 * n)) @ word_bytes (of_nat (8 * n div 2 ^ 32))"

definition rfc_init :: regs where
  "rfc_init = (0x67452301, 0xefcdab89, 0x98badcfe, 0x10325476)"

definition rfc_md5 :: "bytes \<Rightarrow> bytes" where
  "rfc_md5 msg =
     (case rfc_blocks rfc_init (msg @ rfc_padding (length msg)) of
        (a, b, c, d) \<Rightarrow> word_bytes a @ word_bytes b @ word_bytes c @ word_bytes d)"

section \<open>The transformation\<close>

lemma ROTATE_LEFT_rotl:
  assumes "0 < n" "n < 32"
  shows "ROTATE_LEFT x n = word_rotl n x"
proof (rule bit_word_eqI)
  fix i :: nat
  assume i: "i < LENGTH(32)"
  show "bit (ROTATE_LEFT x n) i = bit (word_rotl n x) i"
  proof (cases "i < n")
    case True
    then have "(i + (32 - n)) mod 32 = 32 - n + i" using assms by simp
    then show ?thesis using True i assms by (simp add: ROTATE_LEFT_def bit_word_rotl_iff bit_or_iff bit_push_bit_iff bit_drop_bit_eq)
  next
    case False
    then have "i + (32 - n) = (i - n) + 32" using assms by simp
    then have "(i + (32 - n)) mod 32 = i - n" using i by (simp only: mod_add_self2) simp
    moreover have "\<not> bit x (32 - n + i)" using False assms by (simp add: impossible_bit)
    ultimately show ?thesis using False i assms
      by (simp add: ROTATE_LEFT_def bit_word_rotl_iff bit_or_iff bit_push_bit_iff bit_drop_bit_eq)
  qed
qed

lemma FF4_steps:
  assumes "i < 13" "rfc_s i = S11" "rfc_s (i + 1) = S12" "rfc_s (i + 2) = S13" "rfc_s (i + 3) = S14"
  shows "fold (rfc_step x) [i, i + 1, i + 2, i + 3] r =
    FF4 x (rfc_g i, rfc_g (i + 1), rfc_g (i + 2), rfc_g (i + 3)) (rfc_K ! i, rfc_K ! (i + 1), rfc_K ! (i + 2), rfc_K ! (i + 3)) r"
  using assms by (cases r) (simp add: rfc_step_def FF4_def FF_def md5_F_def rfc_f_def ROTATE_LEFT_rotl shifts Let_def ac_simps)

lemma GG4_steps:
  assumes "16 \<le> i \<and> i < 29" "rfc_s i = S21" "rfc_s (i + 1) = S22" "rfc_s (i + 2) = S23" "rfc_s (i + 3) = S24"
  shows "fold (rfc_step x) [i, i + 1, i + 2, i + 3] r =
    GG4 x (rfc_g i, rfc_g (i + 1), rfc_g (i + 2), rfc_g (i + 3)) (rfc_K ! i, rfc_K ! (i + 1), rfc_K ! (i + 2), rfc_K ! (i + 3)) r"
  using assms by (cases r) (simp add: rfc_step_def GG4_def GG_def md5_G_def rfc_f_def ROTATE_LEFT_rotl shifts Let_def ac_simps)

lemma HH4_steps:
  assumes "32 \<le> i \<and> i < 45" "rfc_s i = S31" "rfc_s (i + 1) = S32" "rfc_s (i + 2) = S33" "rfc_s (i + 3) = S34"
  shows "fold (rfc_step x) [i, i + 1, i + 2, i + 3] r =
    HH4 x (rfc_g i, rfc_g (i + 1), rfc_g (i + 2), rfc_g (i + 3)) (rfc_K ! i, rfc_K ! (i + 1), rfc_K ! (i + 2), rfc_K ! (i + 3)) r"
  using assms by (cases r) (simp add: rfc_step_def HH4_def HH_def md5_H_def rfc_f_def ROTATE_LEFT_rotl shifts Let_def ac_simps)

lemma II4_steps:
  assumes "48 \<le> i \<and> i < 61" "rfc_s i = S41" "rfc_s (i + 1) = S42" "rfc_s (i + 2) = S43" "rfc_s (i + 3) = S44"
  shows "fold (rfc_step x) [i, i + 1, i + 2, i + 3] r =
    II4 x (rfc_g i, rfc_g (i + 1), rfc_g (i + 2), rfc_g (i + 3)) (rfc_K ! i, rfc_K ! (i + 1), rfc_K ! (i + 2), rfc_K ! (i + 3)) r"
  using assms by (cases r) (simp add: rfc_step_def II4_def II_def md5_I_def rfc_f_def ROTATE_LEFT_rotl shifts Let_def ac_simps)

lemma sixty_four_steps: "[0..<64] = [0, 1, 2, 3] @ [4, 5, 6, 7] @ [8, 9, 10, 11] @
    [12, 13, 14, 15] @ [16, 17, 18, 19] @ [20, 21, 22, 23] @
    [24, 25, 26, 27] @ [28, 29, 30, 31] @ [32, 33, 34, 35] @
    [36, 37, 38, 39] @ [40, 41, 42, 43] @ [44, 45, 46, 47] @
    [48, 49, 50, 51] @ [52, 53, 54, 55] @ [56, 57, 58, 59] @ [60, 61, 62, 63]"
  by (simp add: upt_rec)

lemma MD5Transform_ok:
  assumes "length block = 64"
  shows "MD5Transform st block = Some (rfc_block st block)"
proof -
  let ?x = "bytes_words block"
  have "md5_Decode block 64 = Some (bytes_words block)" using assms by (simp add: md5_Decode_def cslice_def)
  moreover have "rfc_block st block = add_regs st (fold (rfc_step ?x) [0..<64] st)" by (simp add: rfc_block_def)
  moreover note
    FF4_steps [of 0 ?x] FF4_steps [of 4 ?x] FF4_steps [of 8 ?x] FF4_steps [of 12 ?x]
    GG4_steps [of 16 ?x] GG4_steps [of 20 ?x] GG4_steps [of 24 ?x] GG4_steps [of 28 ?x]
    HH4_steps [of 32 ?x] HH4_steps [of 36 ?x] HH4_steps [of 40 ?x] HH4_steps [of 44 ?x]
    II4_steps [of 48 ?x] II4_steps [of 52 ?x] II4_steps [of 56 ?x] II4_steps [of 60 ?x]
  ultimately show ?thesis
    unfolding MD5Transform_def sixty_four_steps fold_append o_apply
    by (simp add: rfc_s_def rfc_g_def rfc_K_def shifts Let_def add_regs_def case_prod_beta del: fold.simps add_2_eq_Suc add_2_eq_Suc')
qed

section \<open>Updates\<close>

text \<open>The bytes of a text after its last full block.\<close>

definition rest :: "bytes \<Rightarrow> bytes" where
  "rest msg = drop (64 * (length msg div 64)) msg"

lemma length_rest [simp]: "length (rest msg) = length msg mod 64"
  by (simp add: rest_def minus_mult_div_eq_mod)

lemma rfc_blocks_short [simp]: "length msg < 64 \<Longrightarrow> rfc_blocks st msg = st"
  by (simp add: rfc_blocks.simps)

lemma rfc_blocks_append: "64 dvd length xs \<Longrightarrow> rfc_blocks st (xs @ ys) = rfc_blocks (rfc_blocks st xs) ys"
proof (induction st xs rule: rfc_blocks.induct)
  case (1 st xs)
  show ?case
  proof (cases "length xs < 64")
    case True
    then have "xs = []" using 1(2) by (auto simp: dvd_def)
    then show ?thesis by simp
  next
    case False
    then have "64 dvd length (drop 64 xs)" using 1(2) by (simp add: dvd_diff_nat)
    from 1(1) [OF False this] False show ?thesis
      by (simp add: rfc_blocks.simps [of st "xs @ ys"] rfc_blocks.simps [of st xs])
  qed
qed

lemma full_blocks: "msg = take (64 * (length msg div 64)) msg @ rest msg" "64 dvd length (take (64 * (length msg div 64)) msg)"
proof -
  have "64 * (length msg div 64) \<le> length msg" by simp
  then show "64 dvd length (take (64 * (length msg div 64)) msg)" by (simp only: length_take min_absorb2 dvd_triv_left)
qed (simp add: rest_def)

lemma rfc_blocks_rest: "rfc_blocks st (msg @ input) = rfc_blocks (rfc_blocks st msg) (rest msg @ input)"
proof -
  let ?full = "take (64 * (length msg div 64)) msg"
  have "rfc_blocks st (?full @ xs) = rfc_blocks (rfc_blocks st ?full) xs" for xs
    by (rule rfc_blocks_append) (rule full_blocks(2))
  from this [of "rest msg"] this [of "rest msg @ input"] show ?thesis
    using full_blocks(1) [of msg] by (simp flip: append_assoc)
qed

lemma rest_append: "rest (msg @ input) = rest (rest msg @ input)"
proof -
  let ?q = "64 * (length msg div 64)"
  have d: "(length msg + length input) div 64 = length msg div 64 + (length msg mod 64 + length input) div 64"
    by (metis div_mult_self3 div_mult_mod_eq add.assoc mult.commute zero_neq_numeral)
  have "64 * ((length msg + length input) div 64) = 64 * ((length msg mod 64 + length input) div 64) + ?q" by (simp add: d)
  then have "rest (msg @ input) = drop (64 * ((length msg mod 64 + length input) div 64)) (drop ?q (msg @ input))"
    by (simp only: rest_def length_append drop_drop)
  moreover have "drop ?q (msg @ input) = rest msg @ input" by (simp add: rest_def)
  ultimately show ?thesis by (simp only: rest_def [of "rest msg @ input"] length_append length_rest)
qed

lemma md5_blocks_ok:
  assumes "i \<le> length input" "length input + 64 \<le> size_mod"
  shows "md5_blocks st input i = Some (rfc_blocks st (drop i input), i + 64 * (length (drop i input) div 64))"
  using assms
proof (induction st input i rule: md5_blocks.induct)
  case (1 st input i)
  have m: "(i + 63) mod size_mod = i + 63" using 1(2,3) by simp
  show ?case
  proof (cases "i + 63 < length input")
    case True
    then have s: "cslice input i 64 = Some (take 64 (drop i input))" by (simp add: cslice_def)
    have t: "MD5Transform st (take 64 (drop i input)) = Some (rfc_block st (take 64 (drop i input)))"
      using True by (simp add: MD5Transform_ok)
    have d: "(length input - i) div 64 = Suc ((length input - (i + 64)) div 64)" using True le_div_geq [of 64 "length input - i"] by simp
    have ih: "md5_blocks (rfc_block st (take 64 (drop i input))) input (i + 64) =
        Some (rfc_blocks (rfc_block st (take 64 (drop i input))) (drop (i + 64) input), i + 64 + 64 * (length (drop (i + 64) input) div 64))"
      using 1(1) [OF _ s t] True m 1(3) by simp
    have "rfc_blocks st (drop i input) = rfc_blocks (rfc_block st (take 64 (drop i input))) (drop (i + 64) input)"
      using True by (subst rfc_blocks.simps) (auto simp: add.commute)
    then show ?thesis using ih s t d True m by (subst md5_blocks.simps) simp
  next
    case False
    then show ?thesis using m 1(2) by (subst md5_blocks.simps) simp
  qed
qed

section \<open>The count of bits\<close>

lemma carry_add:
  fixes A B W :: nat
  assumes "0 < W"
  shows "(A + B) div W = A div W + B div W + (if (A + B) mod W < B mod W then 1 else 0)"
proof -
  have ab: "A mod W < W" "B mod W < W" using assms by simp_all
  have m: "(A + B) mod W = (A mod W + B mod W) mod W" by (simp add: mod_add_eq)
  have "(A mod W + B mod W) div W = (if (A + B) mod W < B mod W then 1 else 0)"
  proof (cases "A mod W + B mod W < W")
    case True
    then show ?thesis by (simp add: m)
  next
    case False
    then have "(A mod W + B mod W) mod W = A mod W + B mod W - W" "(A mod W + B mod W) div W = 1"
      using ab le_mod_geq [of W "A mod W + B mod W"] le_div_geq [of W "A mod W + B mod W"]
        div_less [of "A mod W + B mod W - W" W] mod_less [of "A mod W + B mod W - W" W] by linarith+
    moreover have "A mod W + B mod W - W < B mod W" using ab False by linarith
    ultimately show ?thesis by (simp add: m)
  qed
  then show ?thesis by (simp add: div_add1_eq [of A B W])
qed

lemma count_add:
  fixes n :: nat
  assumes "len < 2 ^ 32"
  defines "bits \<equiv> push_bit 3 (of_nat len) :: 32 word"
  shows "of_nat (8 * n) + bits = (of_nat (8 * (n + len)) :: 32 word)"
    "(if of_nat (8 * n) + bits < bits then of_nat (8 * n div 2 ^ 32) + 1 else of_nat (8 * n div 2 ^ 32)) +
       drop_bit 29 (of_nat len) = (of_nat (8 * (n + len) div 2 ^ 32) :: 32 word)"
proof -
  have b: "bits = of_nat (8 * len)" by (simp add: bits_def push_bit_eq_mult)
  show s: "of_nat (8 * n) + bits = (of_nat (8 * (n + len)) :: 32 word)" by (simp add: b distrib_left)
  have "of_nat (8 * n) + bits < bits \<longleftrightarrow> (8 * n + 8 * len) mod 2 ^ 32 < (8 * len) mod 2 ^ 32"
    unfolding s unfolding b word_less_nat_alt unat_of_nat by (simp only: distrib_left) simp
  moreover have "drop_bit 29 (of_nat len :: 32 word) = of_nat (8 * len div 2 ^ 32)"
  proof -
    have "drop_bit 29 len = 8 * len div 2 ^ 32" by (simp add: drop_bit_eq_div div_mult2_eq)
    moreover have "unat (of_nat len :: 32 word) = len" using assms(1) by (simp add: unat_of_nat)
    then have "unat (drop_bit 29 (of_nat len :: 32 word)) = drop_bit 29 len" by (simp only: unat_drop_bit_eq)
    then have "drop_bit 29 (of_nat len :: 32 word) = of_nat (drop_bit 29 len)" by (metis of_nat_unat ucast_id)
    ultimately show ?thesis by simp
  qed
  ultimately show "(if of_nat (8 * n) + bits < bits then of_nat (8 * n div 2 ^ 32) + 1 else of_nat (8 * n div 2 ^ 32)) +
       drop_bit 29 (of_nat len) = (of_nat (8 * (n + len) div 2 ^ 32) :: 32 word)"
    using carry_add [of "2 ^ 32" "8 * n" "8 * len"] by (simp add: distrib_left)
qed

section \<open>Contexts\<close>

text \<open>The context after the bytes of \<open>msg\<close>.\<close>

definition md5_after :: "bytes \<Rightarrow> MD5_CTX \<Rightarrow> bool" where
  "md5_after msg ctx \<longleftrightarrow>
     md5_state ctx = rfc_blocks rfc_init msg \<and> length (md5_buffer ctx) = 64 \<and>
     take (length msg mod 64) (md5_buffer ctx) = map Some (rest msg) \<and>
     md5_count ctx = (of_nat (8 * length msg), of_nat (8 * length msg div 2 ^ 32))"

lemma md5_after_init: "length garbage = 64 \<Longrightarrow> md5_after [] (MD5Init garbage)"
  by (simp add: md5_after_def MD5Init_def rfc_init_def rest_def)

lemma count_index: "unat (drop_bit 3 (of_nat (8 * n) :: 32 word) AND 0x3F) = n mod 64"
proof -
  have "unat (drop_bit 3 (of_nat (8 * n) :: 32 word)) = (8 * n mod 2 ^ 32) div 8"
  proof -
    have "unat (of_nat (8 * n) :: 32 word) = 8 * n mod 2 ^ 32" by (simp only: unat_of_nat) simp
    then have "unat (drop_bit 3 (of_nat (8 * n) :: 32 word)) = drop_bit 3 (8 * n mod 2 ^ 32)" by (simp only: unat_drop_bit_eq)
    also have "... = (8 * n mod 2 ^ 32) div 8" by (simp only: drop_bit_eq_div) simp
    finally show ?thesis .
  qed
  moreover have "(8 * n mod 2 ^ 32) div 8 mod 64 = n mod 64"
  proof -
    have "8 * n mod 2 ^ 32 = 8 * (n mod 2 ^ 29)" by (simp add: mult_mod_right)
    then have "(8 * n mod 2 ^ 32) div 8 = n mod 2 ^ 29" by simp
    then show ?thesis by (simp add: mod_mod_cancel)
  qed
  moreover have "unat (w AND 0x3F) = unat w mod 64" for w :: "32 word"
    using unat_and_mask [of w 6] by (simp add: mask_eq_exp_minus_1)
  ultimately show ?thesis by simp
qed

lemma those_map_Some [simp]: "those (map Some xs) = Some xs"
  by (induction xs) auto

lemma MD5Update_ok:
  assumes "md5_after msg ctx" "length input + 64 \<le> size_mod"
  shows "\<exists>ctx'. MD5Update ctx input = Some ctx' \<and> md5_after (msg @ input) ctx'"
proof -
  let ?r = "length msg mod 64" and ?n = "length input"
  have c: "md5_state ctx = rfc_blocks rfc_init msg" "length (md5_buffer ctx) = 64"
    "take ?r (md5_buffer ctx) = map Some (rest msg)" "fst (md5_count ctx) = of_nat (8 * length msg)"
    "snd (md5_count ctx) = of_nat (8 * length msg div 2 ^ 32)"
    using assms(1) by (simp_all add: md5_after_def)
  have "?n < 2 ^ 32" using assms(2) by simp
  note count = count_add [OF this, of "length msg"]
  let ?bits = "push_bit 3 (of_nat ?n) :: 32 word"
  have lo: "fst (md5_count ctx) + ?bits = of_nat (8 * length (msg @ input))"
    by (simp only: c count length_append)
  have hi: "(if of_nat (8 * length (msg @ input)) < ?bits then snd (md5_count ctx) + 1 else snd (md5_count ctx)) + drop_bit 29 (of_nat ?n) =
      of_nat (8 * length (msg @ input) div 2 ^ 32)"
    using count(2) by (simp only: c count(1) length_append)
  have i: "unat (drop_bit 3 (fst (md5_count ctx)) AND 0x3F) = ?r" unfolding c(4) by (rule count_index)
  show ?thesis
  proof (cases "64 - ?r \<le> ?n")
    case True
    let ?b1 = "map Some (rest msg) @ map Some (take (64 - ?r) input)"
    have r: "?r < 64" by simp
    then have b1: "mem_write (md5_buffer ctx) ?r (map Some (take (64 - ?r) input)) = Some ?b1"
      using c(2,3) True by (simp add: mem_write_def)
    have l: "length (rest msg @ take (64 - ?r) input) = 64" using True r by simp
    let ?st1 = "rfc_block (rfc_blocks rfc_init msg) (rest msg @ take (64 - ?r) input)"
    have t: "those (take 64 ?b1) = Some (rest msg @ take (64 - ?r) input)"
      using l by (simp flip: map_append)
    note m = md5_blocks_ok [OF True assms(2), of ?st1]
    have st: "rfc_blocks ?st1 (drop (64 - ?r) input) = rfc_blocks rfc_init (msg @ input)"
    proof -
      have "rfc_blocks rfc_init (msg @ input) = rfc_blocks (rfc_blocks rfc_init msg) (rest msg @ input)" by (rule rfc_blocks_rest)
      also have "... = rfc_blocks ?st1 (drop 64 (rest msg @ input))"
        using True r by (subst rfc_blocks.simps [of _ "rest msg @ input"]) auto
      finally show ?thesis by simp
    qed
    let ?i = "64 - ?r + 64 * (length (drop (64 - ?r) input) div 64)"
    have tail: "drop ?i input = rest (msg @ input)"
    proof -
      have full: "rest (rest msg @ take (64 - ?r) input) = []" using l by (simp only: rest_def [of "rest msg @ take (64 - ?r) input"]) simp
      have "rest (msg @ input) = rest ((rest msg @ take (64 - ?r) input) @ drop (64 - ?r) input)"
        unfolding append_assoc append_take_drop_id by (rule rest_append)
      also have "... = rest (drop (64 - ?r) input)"
        using rest_append [of "rest msg @ take (64 - ?r) input" "drop (64 - ?r) input"] unfolding full by simp
      finally show ?thesis by (simp only: rest_def [of "drop (64 - ?r) input"] drop_drop add.commute)
    qed
    let ?b2 = "map Some (rest (msg @ input)) @ drop (length (rest (msg @ input))) ?b1"
    have lb: "length ?b1 = 64" using l by simp
    have "mem_write ys 0 (map Some xs) = Some (map Some xs @ drop (length xs) ys) \<and> length (map Some xs @ drop (length xs) ys) = 64"
      if "length xs < 64" "length ys = 64" for xs and ys :: cells using that by (simp add: mem_write_def)
    from this [OF _ lb, of "rest (msg @ input)"]
    have w: "mem_write ?b1 0 (map Some (rest (msg @ input))) = Some ?b2" "length ?b2 = 64" by simp_all
    have "MD5Update ctx input = Some \<lparr>md5_state = rfc_blocks rfc_init (msg @ input),
        md5_count = (of_nat (8 * length (msg @ input)), of_nat (8 * length (msg @ input) div 2 ^ 32)), md5_buffer = ?b2\<rparr>"
      unfolding MD5Update_def Let_def i lo hi using True b1 t m st tail w(1) c(1) by (simp add: MD5Transform_ok [OF l])
    then show ?thesis using w(2) by (simp add: md5_after_def)
  next
    case False
    then have small: "length (rest msg @ input) < 64" by simp
    have "rest (rest msg @ input) = rest msg @ input" using small by (simp only: rest_def [of "rest msg @ input"] div_less) simp
    with rest_append have short: "rest (msg @ input) = rest msg @ input" by (rule trans)
    have blocks: "rfc_blocks rfc_init (msg @ input) = rfc_blocks rfc_init msg"
      using rfc_blocks_rest rfc_blocks_short [OF small] by (rule trans)
    have mods: "(length msg + ?n) mod 64 = ?r + ?n" using small mod_add_left_eq [of "length msg" 64 ?n] by simp
    have "mem_write (md5_buffer ctx) ?r (map Some input) =
        Some (map Some (rest msg) @ map Some input @ drop (?r + ?n) (md5_buffer ctx))"
      using c(2,3) False by (simp add: mem_write_def)
    then have "MD5Update ctx input = Some \<lparr>md5_state = rfc_blocks rfc_init (msg @ input),
        md5_count = (of_nat (8 * length (msg @ input)), of_nat (8 * length (msg @ input) div 2 ^ 32)),
        md5_buffer = map Some (rest msg) @ map Some input @ drop (?r + ?n) (md5_buffer ctx)\<rparr>"
      unfolding MD5Update_def Let_def i lo hi using False blocks c(1) by simp
    then show ?thesis using False short blocks mods c(2) by (simp add: md5_after_def)
  qed
qed

section \<open>The digest\<close>

lemma padding_ok:
  assumes "padLen = (if n mod 64 < 56 then 56 - n mod 64 else 120 - n mod 64)"
  shows "cslice MD5_PADDING 0 padLen = Some (0x80 # replicate ((119 - n mod 64) mod 64) 0)"
    "padLen + 64 \<le> size_mod" "(n + padLen) mod 64 = 56"
proof -
  have n: "n mod 64 < 64" by simp
  have p: "padLen = Suc ((119 - n mod 64) mod 64)"
  proof (cases "n mod 64 < 56")
    case True
    then have "(119 - n mod 64) mod 64 = 55 - n mod 64" using le_mod_geq [of 64 "119 - n mod 64"] by simp
    then show ?thesis using True assms Suc_diff_le [of "n mod 64" 55] by simp
  next
    case False
    then show ?thesis using n assms by simp
  qed
  have le: "padLen \<le> 64" unfolding p by (simp add: Suc_le_eq)
  then show "cslice MD5_PADDING 0 padLen = Some (0x80 # replicate ((119 - n mod 64) mod 64) 0)"
    using p by (simp add: cslice_def MD5_PADDING_def)
  show "padLen + 64 \<le> size_mod" using le by simp
  have "(n + padLen) mod 64 = (n mod 64 + padLen) mod 64" by (simp add: mod_add_left_eq)
  also have "n mod 64 + padLen = (if n mod 64 < 56 then 56 else 120)" using n assms by simp
  finally show "(n + padLen) mod 64 = 56" by simp
qed

lemma length_word_bytes [simp]: "length (word_bytes w) = 4"
  by (simp add: word_bytes_def)

lemma MD5Final_ok:
  assumes "md5_after msg ctx"
  shows "MD5Final ctx = Some (rfc_md5 msg)"
proof -
  let ?n = "length msg"
  let ?padLen = "if ?n mod 64 < 56 then 56 - ?n mod 64 else 120 - ?n mod 64"
  note p = padding_ok [OF refl, of ?n]
  let ?pad = "0x80 # replicate ((119 - ?n mod 64) mod 64) 0 :: bytes"
  let ?bits = "word_bytes (of_nat (8 * ?n)) @ word_bytes (of_nat (8 * ?n div 2 ^ 32))"
  have c: "fst (md5_count ctx) = of_nat (8 * ?n)" "snd (md5_count ctx) = of_nat (8 * ?n div 2 ^ 32)"
    using assms by (simp_all add: md5_after_def)
  have e: "md5_Encode [fst (md5_count ctx), snd (md5_count ctx)] 8 = Some ?bits"
    unfolding c by (simp add: md5_Encode_def cslice_def)
  have i: "unat (drop_bit 3 (fst (md5_count ctx)) AND 0x3f) = ?n mod 64" unfolding c(1) by (rule count_index)
  have len: "length ?pad = ?padLen" by (rule cslice_SomeD [OF p(1), THEN conjunct1])
  then obtain ctx1 where 1: "MD5Update ctx ?pad = Some ctx1" "md5_after (msg @ ?pad) ctx1"
    using MD5Update_ok [OF assms, of ?pad] p(2) by (auto simp del: replicate.simps)
  then obtain ctx2 where 2: "MD5Update ctx1 ?bits = Some ctx2" "md5_after ((msg @ ?pad) @ ?bits) ctx2"
    using MD5Update_ok [of "msg @ ?pad" ctx1 ?bits] by auto
  have st: "md5_state ctx2 = rfc_blocks rfc_init (msg @ rfc_padding ?n)"
    using 2(2) by (simp add: md5_after_def rfc_padding_def)
  obtain a b c' d where r: "md5_state ctx2 = (a, b, c', d)" by (cases "md5_state ctx2") auto
  have "md5_Encode [a, b, c', d] 16 = Some (word_bytes a @ word_bytes b @ word_bytes c' @ word_bytes d)"
    by (simp add: md5_Encode_def cslice_def)
  then show ?thesis unfolding MD5Final_def Let_def i e using p(1) 1(1) 2(1) r st
    by (simp add: rfc_md5_def)
qed

text \<open>Several updates.\<close>

fun md5_updates :: "bytes list \<Rightarrow> MD5_CTX \<Rightarrow> MD5_CTX option" where
  "md5_updates [] ctx = Some ctx"
| "md5_updates (d # ds) ctx = do { ctx1 \<leftarrow> MD5Update ctx d; md5_updates ds ctx1 }"

lemma md5_updates_ok:
  "md5_after msg ctx \<Longrightarrow> list_all (\<lambda>d. length d + 64 \<le> size_mod) ds \<Longrightarrow>
   \<exists>ctx'. md5_updates ds ctx = Some ctx' \<and> md5_after (msg @ concat ds) ctx'"
proof (induction ds arbitrary: msg ctx)
  case (Cons d ds)
  then obtain ctx1 where "MD5Update ctx d = Some ctx1" "md5_after (msg @ d) ctx1" using MD5Update_ok by fastforce
  then show ?case using Cons.IH [of "msg @ d" ctx1] Cons.prems(2) by auto
qed simp

text \<open>
  C17: The digest is that of RFC 1321, whatever the uninitialised buffer holds and however the data is cut
  into updates, as long as no piece comes within 64 bytes of \<open>SIZE_MAX\<close>; the two functions of \<open>wyMD5\<close>
  answer its hexadecimal text.
\<close>

theorem md5_is_rfc1321:
  assumes "length garbage = 64" "list_all (\<lambda>d. length d + 64 \<le> size_mod) ds" "length data + 64 \<le> size_mod"
  shows "Option.bind (md5_updates ds (MD5Init garbage)) MD5Final = Some (rfc_md5 (concat ds)) \<and>
    md5_data garbage data = Some (hex_text (rfc_md5 data)) \<and>
    md5_text garbage (data @ [0]) = Some (hex_text (rfc_md5 (c_str data)))"
proof -
  have init: "md5_after [] (MD5Init garbage)" by (rule md5_after_init) (rule assms)
  have one: "\<exists>ctx. MD5Update (MD5Init garbage) d = Some ctx \<and> MD5Final ctx = Some (rfc_md5 d)"
    if "length d + 64 \<le> size_mod" for d
    using MD5Update_ok [OF init that] MD5Final_ok by fastforce
  have "length (c_str data) \<le> length data" by (simp add: c_str_def length_takeWhile_le)
  moreover have "c_str (data @ [0]) = c_str data" by (simp add: c_str_def takeWhile_append) (simp add: takeWhile_eq_all_conv [THEN iffD2])
  ultimately show ?thesis using md5_updates_ok [OF init assms(2)] MD5Final_ok one [OF assms(3)] one [of "c_str data"] assms(3)
    by (auto simp: md5_data_def md5_text_def)
qed

lemma md5_is_rfc1321_witness:
  "Option.bind (md5_updates [[0x61], [], [0x62, 0x63]] (MD5Init (replicate 64 None))) MD5Final = Some (rfc_md5 [0x61, 0x62, 0x63]) \<and>
   md5_data (replicate 64 None) [0x61, 0x62, 0x63] = Some (hex_text (rfc_md5 [0x61, 0x62, 0x63]))"
  using md5_is_rfc1321 [of "replicate 64 None" "[[0x61], [], [0x62, 0x63]]" "[0x61, 0x62, 0x63]"] by simp

end
