(* ===== verification/Wy_AStar.thy ===== *)
theory Wy_AStar imports Prelude begin

text \<open>
  Path finding on tile maps: \<open>astar/wyAStar.cpp\<close>, \<open>wyAStarMap.cpp\<close>, \<open>wyRectAStarMap.cpp\<close>,
  \<open>wyHexagonAStarMap.cpp\<close>, \<open>wyAStarTile.cpp\<close> and \<open>wyAStarStep.cpp\<close>. Tiles and steps are numbered, a pointer is
  the number and \<open>NULL\<close> is \<open>None\<close>; arrays of pointers are lists, as \<open>Wy_Array\<close> shows they behave. The
  costs are floating point numbers of which nothing is assumed: their operations are a parameter.
\<close>

section \<open>Maps\<close>

record 'f float_ops =
  fl_zero :: 'f
  fl_one :: 'f
  fl_add :: "'f \<Rightarrow> 'f \<Rightarrow> 'f"
  fl_mul :: "'f \<Rightarrow> 'f \<Rightarrow> 'f"
  fl_half :: "'f \<Rightarrow> 'f"
  fl_less :: "'f \<Rightarrow> 'f \<Rightarrow> bool"
  fl_sqrt :: "int \<Rightarrow> 'f"

definition TILE_FREE :: int where "TILE_FREE = 0"
definition TILE_BLOCKED :: int where "TILE_BLOCKED = 1"

record 'f wyAStarTile =
  tile_type :: int
  tile_x :: int
  tile_y :: int
  gRate :: 'f
  childs :: "nat list"

definition wyAStarTile_new :: "'f float_ops \<Rightarrow> int \<Rightarrow> int \<Rightarrow> int \<Rightarrow> 'f wyAStarTile" where
  "wyAStarTile_new ops type x y = \<lparr>tile_type = type, tile_x = x, tile_y = y, gRate = fl_one ops, childs = []\<rparr>"

text \<open>The two classes of maps; both keep \<open>m_width\<close> and \<open>m_height\<close>.\<close>

datatype map_class = Rect | Hexagon

record 'f wyAStarMap =
  map_class :: map_class
  width :: int
  height :: int
  tiles :: "'f wyAStarTile list"

definition isValidTile :: "'f wyAStarMap \<Rightarrow> int \<Rightarrow> int \<Rightarrow> bool" where
  "isValidTile m x y \<longleftrightarrow> \<not> (x < 0 \<or> x \<ge> width m \<or> y < 0 \<or> y \<ge> height m)"

fun tile_search :: "'f wyAStarTile list \<Rightarrow> nat \<Rightarrow> int \<Rightarrow> int \<Rightarrow> nat option" where
  "tile_search [] i x y = None"
| "tile_search (t # ts) i x y = (if tile_x t = x \<and> tile_y t = y then Some i else tile_search ts (Suc i) x y)"

definition getTileAt :: "'f wyAStarMap \<Rightarrow> int \<Rightarrow> int \<Rightarrow> nat option" where
  "getTileAt m x y = (if \<not> isValidTile m x y then None else tile_search (tiles m) 0 x y)"

definition setType :: "'f wyAStarMap \<Rightarrow> nat \<Rightarrow> int \<Rightarrow> 'f wyAStarMap option" where
  "setType m i type =
     do { t \<leftarrow> rd (tiles m) i; Some (m\<lparr>tiles := (tiles m)[i := t\<lparr>tile_type := type\<rparr>]\<rparr>) }"

definition blockTile :: "'f wyAStarMap \<Rightarrow> int \<Rightarrow> int \<Rightarrow> 'f wyAStarMap option" where
  "blockTile m x y = do { i \<leftarrow> getTileAt m x y; setType m i TILE_BLOCKED }"

definition freeTile :: "'f wyAStarMap \<Rightarrow> int \<Rightarrow> int \<Rightarrow> 'f wyAStarMap option" where
  "freeTile m x y = do { i \<leftarrow> getTileAt m x y; setType m i TILE_FREE }"

definition isBlockedAt :: "'f wyAStarMap \<Rightarrow> int \<Rightarrow> int \<Rightarrow> bool option" where
  "isBlockedAt m x y =
     (if \<not> isValidTile m x y then Some True
      else do { i \<leftarrow> getTileAt m x y; t \<leftarrow> rd (tiles m) i; Some (tile_type t = TILE_BLOCKED) })"

text \<open>\<open>neighbor != tile && neighbor != NULL\<close>, then \<open>pushChild\<close>.\<close>

definition push_neighbor :: "'f wyAStarMap \<Rightarrow> nat \<Rightarrow> int \<Rightarrow> int \<Rightarrow> nat list \<Rightarrow> nat list" where
  "push_neighbor m i x y cs = (case getTileAt m x y of None \<Rightarrow> cs | Some j \<Rightarrow> if j \<noteq> i then cs @ [j] else cs)"

text \<open>The free tiles, column by column.\<close>

definition free_tiles :: "'f float_ops \<Rightarrow> int \<Rightarrow> int \<Rightarrow> 'f wyAStarTile list" where
  "free_tiles ops w h = concat (map (\<lambda>x. map (\<lambda>y. wyAStarTile_new ops TILE_FREE x y) [0..h - 1]) [0..w - 1])"

definition rect_childs :: "'f wyAStarMap \<Rightarrow> bool \<Rightarrow> nat \<Rightarrow> nat list" where
  "rect_childs m diagonal i =
     (let t = tiles m ! i in
      fold (\<lambda>(x, y) cs. if \<not> diagonal \<and> x \<noteq> 0 \<and> y \<noteq> 0 then cs else push_neighbor m i (tile_x t + x) (tile_y t + y) cs)
        (List.product [- 1..1] [- 1..1]) (childs t))"

definition hexagon_childs :: "'f wyAStarMap \<Rightarrow> nat \<Rightarrow> nat list" where
  "hexagon_childs m i =
     (let t = tiles m ! i;
          odd = tile_x t mod 2 \<noteq> 0;
          y_max = (if odd then 2 else 1);
          y_min = (if odd then 0 else - 1);
          child_y = (if odd then - 1 else 1)
      in fold (\<lambda>(x, y). push_neighbor m i (tile_x t + x) (tile_y t + y)) (List.product [- 1..1] [y_min..y_max - 1])
           (push_neighbor m i (tile_x t) (tile_y t + child_y) (childs t)))"

text \<open>Linking the tiles changes nothing \<open>getTileAt\<close> looks at.\<close>

definition link_tiles :: "(nat \<Rightarrow> nat list) \<Rightarrow> 'f wyAStarMap \<Rightarrow> 'f wyAStarMap" where
  "link_tiles links m = m\<lparr>tiles := map (\<lambda>i. (tiles m ! i)\<lparr>childs := links i\<rparr>) [0..<length (tiles m)]\<rparr>"

definition wyRectAStarMap_new :: "'f float_ops \<Rightarrow> int \<Rightarrow> int \<Rightarrow> bool \<Rightarrow> 'f wyAStarMap" where
  "wyRectAStarMap_new ops w h diagonal =
     (let m = \<lparr>map_class = Rect, width = w, height = h, tiles = free_tiles ops w h\<rparr>
      in link_tiles (rect_childs m diagonal) m)"

definition wyHexagonAStarMap_new :: "'f float_ops \<Rightarrow> int \<Rightarrow> int \<Rightarrow> 'f wyAStarMap" where
  "wyHexagonAStarMap_new ops w h =
     (let m = \<lparr>map_class = Hexagon, width = w, height = h, tiles = free_tiles ops w h\<rparr>
      in link_tiles (hexagon_childs m) m)"

text \<open>The distances are those of neighbours, whose squares do not overflow.\<close>

definition heuristic :: "'f float_ops \<Rightarrow> int \<Rightarrow> int \<Rightarrow> int \<Rightarrow> int \<Rightarrow> 'f" where
  "heuristic ops startx starty endx endy =
     (let d1 = abs (startx - endx); d2 = abs (starty - endy) in fl_sqrt ops (d1 * d1 + d2 * d2))"

definition getStepG :: "'f float_ops \<Rightarrow> 'f wyAStarMap \<Rightarrow> 'f wyAStarTile \<Rightarrow> 'f wyAStarTile \<Rightarrow> 'f" where
  "getStepG ops m t1 t2 =
     (case map_class m of
        Rect \<Rightarrow>
          (let dx = abs (tile_x t1 - tile_x t2); dy = abs (tile_y t1 - tile_y t2); d = fl_sqrt ops (dx * dx + dy * dy)
           in fl_add ops (fl_mul ops (fl_half ops d) (gRate t1)) (fl_mul ops (fl_half ops d) (gRate t2)))
      | Hexagon \<Rightarrow> fl_add ops (gRate t1) (gRate t2))"

section \<open>The search\<close>

record 'f wyAStarStep =
  step_x :: int
  step_y :: int
  step_f :: 'f
  step_g :: 'f
  step_h :: 'f
  step_parent :: "nat option"

definition wyAStarStep_new :: "'f float_ops \<Rightarrow> int \<Rightarrow> int \<Rightarrow> 'f wyAStarStep" where
  "wyAStarStep_new ops x y =
     \<lparr>step_x = x, step_y = y, step_f = fl_zero ops, step_g = fl_zero ops, step_h = fl_zero ops, step_parent = None\<rparr>"

text \<open>All steps that were put into a list, with the two lists of pointers to them.\<close>

record 'f search =
  steps :: "'f wyAStarStep list"
  openList :: "nat list"
  closedList :: "nat list"

definition nodeInArray :: "'f wyAStarStep list \<Rightarrow> nat list \<Rightarrow> int \<Rightarrow> int \<Rightarrow> nat option" where
  "nodeInArray ss arr x y = List.find (\<lambda>n. step_x (ss ! n) = x \<and> step_y (ss ! n) = y) arr"

definition findLowestCostNode :: "'f float_ops \<Rightarrow> 'f wyAStarStep list \<Rightarrow> nat list \<Rightarrow> nat option" where
  "findLowestCostNode ops ss arr =
     foldl (\<lambda>lowest n. case lowest of
              None \<Rightarrow> Some n
            | Some l \<Rightarrow> if fl_less ops (step_f (ss ! n)) (step_f (ss ! l)) then Some n else Some l) None arr"

text \<open>
  The body of the loop over the children. A neighbour that is in the open list already gets its new
  values, if any, in an object that is deleted right after.
\<close>

definition visit_child ::
  "'f float_ops \<Rightarrow> 'f wyAStarMap \<Rightarrow> nat \<Rightarrow> 'f wyAStarTile \<Rightarrow> nat \<Rightarrow> 'f search \<Rightarrow> 'f search option" where
  "visit_child ops m current currTile child s =
     do { tile \<leftarrow> rd (tiles m) child;
          cur \<leftarrow> rd (steps s) current;
          if tile_type tile = TILE_BLOCKED then Some s
          else if nodeInArray (steps s) (closedList s) (tile_x tile) (tile_y tile) \<noteq> None then Some s
          else
            (let neighbor = wyAStarStep_new ops (tile_x tile) (tile_y tile);
                 gScore = fl_add ops (step_g cur) (getStepG ops m currTile tile)
             in if nodeInArray (steps s) (openList s) (tile_x tile) (tile_y tile) = None
                then let h = fl_add ops (step_h neighbor)
                               (heuristic ops (tile_x currTile) (tile_y currTile) (tile_x tile) (tile_y tile))
                     in Some (s\<lparr>steps := steps s @ [neighbor\<lparr>step_h := h, step_parent := Some current, step_g := gScore,
                                                           step_f := fl_add ops gScore h\<rparr>],
                                openList := openList s @ [length (steps s)]\<rparr>)
                else Some s) }"

fun visit_children ::
  "'f float_ops \<Rightarrow> 'f wyAStarMap \<Rightarrow> nat \<Rightarrow> 'f wyAStarTile \<Rightarrow> nat list \<Rightarrow> 'f search \<Rightarrow> 'f search option" where
  "visit_children ops m current currTile [] s = Some s"
| "visit_children ops m current currTile (j # js) s =
     do { s1 \<leftarrow> visit_child ops m current currTile j s; visit_children ops m current currTile js s1 }"

text \<open>The steps from \<open>aNode\<close> up to the child of the start.\<close>

partial_function (option) trace_back :: "'f wyAStarStep list \<Rightarrow> nat \<Rightarrow> nat list \<Rightarrow> nat list option" where
  "trace_back ss aNode path =
     (case rd ss aNode of
        None \<Rightarrow> None
      | Some a \<Rightarrow> (case step_parent a of None \<Rightarrow> Some path | Some p \<Rightarrow> trace_back ss p (path @ [aNode])))"

partial_function (option) search_loop ::
  "'f float_ops \<Rightarrow> 'f wyAStarMap \<Rightarrow> int \<Rightarrow> int \<Rightarrow> 'f search \<Rightarrow> 'f wyAStarStep list option" where
  "search_loop ops m endx endy s =
     (if openList s = [] then Some []
      else
        Option.bind (findLowestCostNode ops (steps s) (openList s)) (\<lambda>current.
        Option.bind (rd (steps s) current) (\<lambda>cur.
          if step_x cur = endx \<and> step_y cur = endy
          then Option.bind (step_parent cur) (\<lambda>aNode.
               Option.bind (trace_back (steps s) aNode [current]) (\<lambda>path. Some (map (\<lambda>n. steps s ! n) path)))
          else
            Option.bind (getTileAt m (step_x cur) (step_y cur)) (\<lambda>i.
            Option.bind (rd (tiles m) i) (\<lambda>currTile.
            Option.bind (visit_children ops m current currTile (childs currTile)
                (s\<lparr>closedList := closedList s @ [current], openList := remove1 current (openList s)\<rparr>)) (\<lambda>s1.
              search_loop ops m endx endy s1))))))"

declare trace_back.simps [code] search_loop.simps [code]

text \<open>\<open>findPath\<close>: the returned number and \<open>m_steps\<close>, from the end to the first step.\<close>

definition findPath ::
  "'f float_ops \<Rightarrow> 'f wyAStarMap \<Rightarrow> int \<Rightarrow> int \<Rightarrow> int \<Rightarrow> int \<Rightarrow> bool \<Rightarrow> (int \<times> 'f wyAStarStep list) option" where
  "findPath ops m startx starty endx endy ignoreBlock =
     (if startx = endx \<and> starty = endy then Some (0, [])
      else do { blocked \<leftarrow> (if ignoreBlock then Some False else isBlockedAt m endx endy);
                if blocked then Some (0, [])
                else do { path \<leftarrow> search_loop ops m endx endy
                            \<lparr>steps = [wyAStarStep_new ops startx starty], openList = [0], closedList = []\<rparr>;
                          Some (int (length path), path) } })"

end
