(* ===== verification/Wy_AStar_Props.thy ===== *)
theory Wy_AStar_Props imports Wy_AStar begin

text \<open>
  Path finding: the maps the constructors make, the invariant of the loop of \<open>findPath\<close>, its end, and what it
  finds.
\<close>

section \<open>Well-formed maps\<close>

definition tile_pos :: "'f wyAStarTile \<Rightarrow> int \<times> int" where
  "tile_pos t = (tile_x t, tile_y t)"

text \<open>Every position of the map has exactly one tile, and children are tiles of the map.\<close>

definition map_ok :: "'f wyAStarMap \<Rightarrow> bool" where
  "map_ok m \<longleftrightarrow>
     distinct (map tile_pos (tiles m)) \<and> set (map tile_pos (tiles m)) = {(x, y). isValidTile m x y} \<and>
     (\<forall>t\<in>set (tiles m). \<forall>j\<in>set (childs t). j < length (tiles m))"

lemma tile_search_cong: "map tile_pos ts = map tile_pos ts' \<Longrightarrow> tile_search ts i x y = tile_search ts' i x y"
proof (induction ts arbitrary: i ts')
  case (Cons t ts)
  then show ?case by (cases ts') (auto simp: tile_pos_def)
qed simp

lemma tile_search_Some:
  assumes "distinct (map tile_pos ts)"
  shows "tile_search ts i x y = Some j \<longleftrightarrow> i \<le> j \<and> j - i < length ts \<and> tile_pos (ts ! (j - i)) = (x, y)"
  using assms
proof (induction ts arbitrary: i)
  case (Cons t ts)
  show ?case
  proof (cases "tile_x t = x \<and> tile_y t = y")
    case True
    have "j = i" if "i \<le> j" "j - i < length (t # ts)" "tile_pos ((t # ts) ! (j - i)) = (x, y)"
    proof (rule ccontr)
      assume "j \<noteq> i"
      then have k': "j - i = Suc (j - i - 1)" using that(1) by simp
      then obtain k where k: "j - i = Suc k" by blast
      then have "tile_pos (ts ! k) = tile_pos t" "k < length ts" using that True by (auto simp: tile_pos_def)
      then have "tile_pos t \<in> tile_pos ` set ts" by (metis image_eqI nth_mem)
      then show False using Cons.prems by simp
    qed
    then show ?thesis using True by (auto simp: tile_pos_def)
  next
    case False
    then have "tile_search (t # ts) i x y = Some j \<longleftrightarrow> Suc i \<le> j \<and> j - Suc i < length ts \<and> tile_pos (ts ! (j - Suc i)) = (x, y)"
      using Cons by auto
    then show ?thesis using False by (cases "j - i") (auto simp: tile_pos_def nth_Cons' Suc_diff_le diff_Suc split: nat.splits)
  qed
qed simp

lemma getTileAt_iff:
  assumes "map_ok m"
  shows "getTileAt m x y = Some j \<longleftrightarrow> j < length (tiles m) \<and> tile_pos (tiles m ! j) = (x, y)"
proof -
  have "isValidTile m x y" if "j < length (tiles m)" "tile_pos (tiles m ! j) = (x, y)"
    using assms that unfolding map_ok_def by (metis (no_types, lifting) case_prodD image_eqI list.set_map mem_Collect_eq nth_mem)
  then show ?thesis using assms tile_search_Some [of "tiles m" 0 x y j] by (auto simp: getTileAt_def map_ok_def)
qed

lemma tile_pos_inj:
  assumes "map_ok m" "i < length (tiles m)" "j < length (tiles m)" "tile_pos (tiles m ! i) = tile_pos (tiles m ! j)"
  shows "i = j"
proof -
  have "map tile_pos (tiles m) ! i = map tile_pos (tiles m) ! j" using assms by simp
  moreover have "distinct (map tile_pos (tiles m))" using assms(1) by (simp add: map_ok_def)
  ultimately show ?thesis using assms(2,3) by (simp only: nth_eq_iff_index_eq length_map)
qed

lemma getTileAt_valid:
  assumes "map_ok m"
  shows "isValidTile m x y \<longleftrightarrow> (\<exists>j. getTileAt m x y = Some j)"
proof -
  have "isValidTile m x y \<longleftrightarrow> (x, y) \<in> set (map tile_pos (tiles m))" using assms by (simp add: map_ok_def)
  also have "... \<longleftrightarrow> (\<exists>j<length (tiles m). tile_pos (tiles m ! j) = (x, y))" unfolding in_set_conv_nth length_map by (metis nth_map)
  finally show ?thesis by (simp add: getTileAt_iff [OF assms])
qed

lemma setType_ok:
  assumes "map_ok m" "setType m i type = Some m'"
  shows "map_ok m' \<and> map tile_pos (tiles m') = map tile_pos (tiles m) \<and> map childs (tiles m') = map childs (tiles m)"
proof -
  have i: "i < length (tiles m)" "m' = m\<lparr>tiles := (tiles m)[i := (tiles m ! i)\<lparr>tile_type := type\<rparr>]\<rparr>"
    using assms(2) by (auto simp: setType_def opt_simps)
  have same: "map tile_pos (tiles m') = map tile_pos (tiles m)" "map childs (tiles m') = map childs (tiles m)"
    using i by (auto simp: map_update tile_pos_def list_update_same_conv)
  have "isValidTile m' = isValidTile m" using i(2) by (auto simp: isValidTile_def fun_eq_iff)
  moreover have "length (tiles m') = length (tiles m)" using i(2) by simp
  moreover have "childs ` set (tiles m') = childs ` set (tiles m)" using same(2) by (metis list.set_map)
  then have "(\<forall>t\<in>set (tiles m'). \<forall>j\<in>set (childs t). j < n) \<longleftrightarrow> (\<forall>t\<in>set (tiles m). \<forall>j\<in>set (childs t). j < n)" for n
    by (metis (no_types, lifting) image_iff)
  ultimately show ?thesis using assms(1) same unfolding map_ok_def by presburger
qed

section \<open>The maps the constructors make\<close>

lemma free_tiles_pos: "map tile_pos (free_tiles ops w h) = List.product [0..w - 1] [0..h - 1]"
  by (simp add: free_tiles_def product_concat_map map_concat o_def tile_pos_def wyAStarTile_new_def)

lemma free_tiles_childs: "t \<in> set (free_tiles ops w h) \<Longrightarrow> childs t = []"
  by (auto simp: free_tiles_def wyAStarTile_new_def)

lemma link_tiles_pos [simp]: "map tile_pos (tiles (link_tiles links m)) = map tile_pos (tiles m)"
proof (rule nth_equalityI)
  fix i
  assume "i < length (map tile_pos (tiles (link_tiles links m)))"
  then show "map tile_pos (tiles (link_tiles links m)) ! i = map tile_pos (tiles m) ! i"
    by (simp add: link_tiles_def tile_pos_def)
qed (simp add: link_tiles_def)

text \<open>The tiles before they are linked.\<close>

definition unlinked :: "'f wyAStarMap \<Rightarrow> 'f float_ops \<Rightarrow> bool" where
  "unlinked m ops \<longleftrightarrow> tiles m = free_tiles ops (width m) (height m)"

lemma unlinked_ok: "unlinked m ops \<Longrightarrow> map_ok m"
  by (auto simp: unlinked_def map_ok_def free_tiles_pos isValidTile_def distinct_product dest: free_tiles_childs)

lemma unlinked_childs: "unlinked m ops \<Longrightarrow> i < length (tiles m) \<Longrightarrow> childs (tiles m ! i) = []"
  using free_tiles_childs by (metis nth_mem unlinked_def)

text \<open>The children that a list of offsets gives.\<close>

definition linked_to :: "'f wyAStarMap \<Rightarrow> nat \<Rightarrow> (int \<times> int) set \<Rightarrow> nat set" where
  "linked_to m i ds = {j. j \<noteq> i \<and> (\<exists>(x, y)\<in>ds. getTileAt m (tile_x (tiles m ! i) + x) (tile_y (tiles m ! i) + y) = Some j)}"

lemma set_push_neighbor:
  "set (push_neighbor m i (tile_x (tiles m ! i) + x) (tile_y (tiles m ! i) + y) cs) = set cs \<union> linked_to m i {(x, y)}"
  by (auto simp: push_neighbor_def linked_to_def split: option.split)

lemma linked_to_Un: "linked_to m i (A \<union> B) = linked_to m i A \<union> linked_to m i B"
  by (auto simp: linked_to_def)

lemma set_fold_push:
  "set (fold (\<lambda>(x, y) cs. if P x y then cs else push_neighbor m i (tile_x (tiles m ! i) + x) (tile_y (tiles m ! i) + y) cs) ds cs) =
   set cs \<union> linked_to m i {(x, y) \<in> set ds. \<not> P x y}"
proof (induction ds arbitrary: cs)
  case Nil
  then show ?case by (simp add: linked_to_def)
next
  case (Cons d ds)
  have "{(x, y) \<in> set (d # ds). \<not> P x y} = {(x, y) \<in> {d}. \<not> P x y} \<union> {(x, y) \<in> set ds. \<not> P x y}" by auto
  moreover have "{(x, y) \<in> {d}. \<not> P x y} = (if P (fst d) (snd d) then {} else {d})" by (cases d) auto
  moreover have "linked_to m i {} = {}" by (simp add: linked_to_def)
  ultimately show ?case using Cons.IH by (cases d) (simp add: linked_to_Un set_push_neighbor Un_assoc)
qed

lemma set_rect_childs:
  assumes "childs (tiles m ! i) = []"
  shows "set (rect_childs m diagonal i) =
    linked_to m i {(x, y). \<bar>x\<bar> \<le> 1 \<and> \<bar>y\<bar> \<le> 1 \<and> (diagonal \<or> x = 0 \<or> y = 0)}"
proof -
  have "{(x, y) \<in> set (List.product [- 1..1] [- 1..1]). \<not> (\<not> diagonal \<and> x \<noteq> 0 \<and> y \<noteq> 0)} =
      {(x :: int, y :: int). \<bar>x\<bar> \<le> 1 \<and> \<bar>y\<bar> \<le> 1 \<and> (diagonal \<or> x = 0 \<or> y = 0)}"
    by auto
  then show ?thesis using set_fold_push [of "\<lambda>x y. \<not> diagonal \<and> x \<noteq> 0 \<and> y \<noteq> 0" m i "List.product [- 1..1] [- 1..1]" "[]"] assms
    by (simp add: rect_childs_def Let_def)
qed

definition hexagon_offsets :: "int \<Rightarrow> (int \<times> int) set" where
  "hexagon_offsets x = {(0, 1), (0, - 1)} \<union> {- 1, 1} \<times> (if x mod 2 \<noteq> 0 then {0, 1} else {- 1, 0})"

lemma set_hexagon_childs:
  assumes "childs (tiles m ! i) = []" "i < length (tiles m)" "map_ok m"
  shows "set (hexagon_childs m i) = linked_to m i (hexagon_offsets (tile_x (tiles m ! i)))"
proof -
  let ?x = "tile_x (tiles m ! i)"
  let ?lo = "if ?x mod 2 \<noteq> 0 then 0 else - 1 :: int" and ?hi = "if ?x mod 2 \<noteq> 0 then 2 else 1 :: int"
    and ?c = "if ?x mod 2 \<noteq> 0 then - 1 else 1 :: int"
  have self: "linked_to m i {(0, 0)} = {}"
    using assms(2) getTileAt_iff [OF assms(3)] assms(3) by (auto simp: linked_to_def map_ok_def distinct_conv_nth tile_pos_def)
  have "set (hexagon_childs m i) = set (push_neighbor m i ?x (tile_y (tiles m ! i) + ?c) []) \<union>
      linked_to m i (set (List.product [- 1..1] [?lo..?hi - 1]))"
    using set_fold_push [of "\<lambda>x y. False" m i "List.product [- 1..1] [?lo..?hi - 1]" "push_neighbor m i ?x (tile_y (tiles m ! i) + ?c) []"] assms(1)
    by (simp only: hexagon_childs_def Let_def if_False not_False_eq_True HOL.simp_thms split_def prod.collapse Collect_mem_eq)
  also have "set (push_neighbor m i ?x (tile_y (tiles m ! i) + ?c) []) = linked_to m i {(0, ?c)}"
    using set_push_neighbor [of m i 0 ?c "[]"] by simp
  finally have "set (hexagon_childs m i) = linked_to m i ({(0, ?c)} \<union> set (List.product [- 1..1] [?lo..?hi - 1]))"
    by (simp only: linked_to_Un)
  also have "{(0, ?c)} \<union> set (List.product [- 1..1] [?lo..?hi - 1]) = {(0, 0)} \<union> hexagon_offsets ?x"
    by (auto simp: hexagon_offsets_def)
  finally show ?thesis by (simp add: linked_to_Un self del: Un_insert_left)
qed

lemma link_tiles_simps [simp]:
  "length (tiles (link_tiles links m)) = length (tiles m)"
  "i < length (tiles m) \<Longrightarrow> childs (tiles (link_tiles links m) ! i) = links i"
  "i < length (tiles m) \<Longrightarrow> tile_pos (tiles (link_tiles links m) ! i) = tile_pos (tiles m ! i)"
  "isValidTile (link_tiles links m) = isValidTile m" "map_class (link_tiles links m) = map_class m"
  by (auto simp: link_tiles_def tile_pos_def isValidTile_def fun_eq_iff)

text \<open>The positions of the children of the tile at a position.\<close>

definition neighbours :: "'f wyAStarMap \<Rightarrow> int \<times> int \<Rightarrow> (int \<times> int) set" where
  "neighbours m p =
     {tile_pos (tiles m ! j) | i j. i < length (tiles m) \<and> tile_pos (tiles m ! i) = p \<and> j \<in> set (childs (tiles m ! i))}"

lemma neighbours_eq:
  assumes "map_ok m" "i < length (tiles m)"
  shows "neighbours m (tile_pos (tiles m ! i)) = (\<lambda>j. tile_pos (tiles m ! j)) ` set (childs (tiles m ! i))"
proof (intro set_eqI iffI)
  fix p
  assume "p \<in> neighbours m (tile_pos (tiles m ! i))"
  then obtain k j where k: "p = tile_pos (tiles m ! j)" "k < length (tiles m)" "tile_pos (tiles m ! k) = tile_pos (tiles m ! i)"
    "j \<in> set (childs (tiles m ! k))"
    unfolding neighbours_def by blast
  then have "k = i" using tile_pos_inj [OF assms(1) k(2) assms(2)] by simp
  then show "p \<in> (\<lambda>j. tile_pos (tiles m ! j)) ` set (childs (tiles m ! i))" using k by blast
next
  fix p
  assume "p \<in> (\<lambda>j. tile_pos (tiles m ! j)) ` set (childs (tiles m ! i))"
  then show "p \<in> neighbours m (tile_pos (tiles m ! i))" using assms(2) unfolding neighbours_def by blast
qed

lemma link_tiles_ok:
  assumes "unlinked m ops" "\<And>i. i < length (tiles m) \<Longrightarrow> set (links i) = linked_to m i (offs (tile_x (tiles m ! i)))"
  shows "map_ok (link_tiles links m) \<and>
    (\<forall>x y. isValidTile m x y \<longrightarrow> neighbours (link_tiles links m) (x, y) =
       {(x + dx, y + dy) | dx dy. (dx, dy) \<in> offs x \<and> (dx, dy) \<noteq> (0, 0) \<and> isValidTile m (x + dx) (y + dy)})"
proof (intro conjI allI impI)
  let ?m = "link_tiles links m"
  have ok: "map_ok m" using assms(1) by (rule unlinked_ok)
  have "j < length (tiles m)" if "j \<in> linked_to m i ds" for i j ds
    using that by (auto simp: linked_to_def getTileAt_iff [OF ok])
  then have "\<forall>t\<in>set (tiles ?m). \<forall>j\<in>set (childs t). j < length (tiles ?m)"
    using assms(2) by (fastforce simp: in_set_conv_nth)
  then show ok': "map_ok ?m" using ok unfolding map_ok_def link_tiles_pos link_tiles_simps(4) by simp
  fix x y
  assume "isValidTile m x y"
  then obtain i where i: "i < length (tiles m)" "tile_pos (tiles m ! i) = (x, y)"
    using getTileAt_valid [OF ok] getTileAt_iff [OF ok] by blast
  then have xy: "tile_x (tiles m ! i) = x" "tile_y (tiles m ! i) = y" by (simp_all add: tile_pos_def)
  have unique: "k = i" if "k < length (tiles m)" "tile_pos (tiles m ! k) = (x, y)" for k
    using tile_pos_inj [OF ok that(1) i(1)] that(2) i(2) by simp
  have "neighbours ?m (x, y) = (\<lambda>j. tile_pos (tiles ?m ! j)) ` set (childs (tiles ?m ! i))"
    using neighbours_eq [OF ok', of i] i by simp
  also have "... = (\<lambda>j. tile_pos (tiles ?m ! j)) ` linked_to m i (offs x)"
    using i assms(2) [OF i(1)] xy by simp
  also have "... = (\<lambda>j. tile_pos (tiles m ! j)) ` linked_to m i (offs x)"
    by (rule image_cong [OF refl]) (auto simp: linked_to_def getTileAt_iff [OF ok])
  also have "... = {(x + dx, y + dy) | dx dy. (dx, dy) \<in> offs x \<and> (dx, dy) \<noteq> (0, 0) \<and> isValidTile m (x + dx) (y + dy)}"
    (is "?L = ?R")
  proof (intro set_eqI iffI)
    fix p
    assume "p \<in> ?L"
    then obtain j dx dy where j: "p = tile_pos (tiles m ! j)" "j \<noteq> i" "(dx, dy) \<in> offs x" "getTileAt m (x + dx) (y + dy) = Some j"
      by (auto simp: linked_to_def xy)
    then have "p = (x + dx, y + dy)" "isValidTile m (x + dx) (y + dy)"
      using getTileAt_iff [OF ok] getTileAt_valid [OF ok] by auto
    moreover have "(dx, dy) \<noteq> (0, 0)" using j unique [of j] getTileAt_iff [OF ok] by auto
    ultimately show "p \<in> ?R" using j(3) by blast
  next
    fix p
    assume "p \<in> ?R"
    then obtain dx dy where d: "p = (x + dx, y + dy)" "(dx, dy) \<in> offs x" "(dx, dy) \<noteq> (0, 0)" "isValidTile m (x + dx) (y + dy)" by blast
    then obtain j where j: "getTileAt m (x + dx) (y + dy) = Some j" using getTileAt_valid [OF ok] by blast
    then have "tile_pos (tiles m ! j) = p" using getTileAt_iff [OF ok] d(1) by blast
    moreover have "j \<noteq> i" using calculation i(2) d by auto
    ultimately show "p \<in> ?L" using j d(2) xy by (auto simp: linked_to_def)
  qed
  finally show "neighbours ?m (x, y) = ..." .
qed

lemma new_map_ok: "map_ok (wyRectAStarMap_new ops w h diagonal)" "map_ok (wyHexagonAStarMap_new ops w h)"
proof -
  let ?m = "\<lambda>c. \<lparr>map_class = c, width = w, height = h, tiles = free_tiles ops w h\<rparr>"
  have u: "unlinked (?m c) ops" for c by (simp add: unlinked_def)
  show "map_ok (wyRectAStarMap_new ops w h diagonal)"
    unfolding wyRectAStarMap_new_def Let_def
    using link_tiles_ok [OF u [of Rect], where links = "rect_childs (?m Rect) diagonal" and offs = "\<lambda>_. {(x, y). \<bar>x\<bar> \<le> 1 \<and> \<bar>y\<bar> \<le> 1 \<and> (diagonal \<or> x = 0 \<or> y = 0)}"]
    by (metis (no_types, lifting) set_rect_childs unlinked_childs [OF u])
  show "map_ok (wyHexagonAStarMap_new ops w h)"
    unfolding wyHexagonAStarMap_new_def Let_def
    using link_tiles_ok [OF u [of Hexagon], where links = "hexagon_childs (?m Hexagon)" and offs = hexagon_offsets]
    by (metis (no_types, lifting) set_hexagon_childs unlinked_childs [OF u] unlinked_ok [OF u])
qed

lemma offset_mem: "(x', y') \<in> {(x + dx, y + dy) | dx dy. Q dx dy} \<longleftrightarrow> Q (x' - x) (y' - y)" for x y x' y' :: int
proof -
  have "x' = x + dx \<and> y' = y + dy \<longleftrightarrow> dx = x' - x \<and> dy = y' - y" for dx dy by auto
  then show ?thesis by simp
qed

text \<open>
  C31: The maps the constructors make have one tile for every position. On a rectangular map the
  children of a tile are the four tiles that share an edge with it, or all eight around it; on a hexagonal one
  they are the six around it. Being a child is symmetric.
\<close>

theorem astar_map_neighbours:
  assumes "0 \<le> x" "x < w" "0 \<le> y" "y < h"
  shows "map_ok (wyRectAStarMap_new ops w h diagonal) \<and> map_ok (wyHexagonAStarMap_new ops w h) \<and>
    (x', y') \<in> neighbours (wyRectAStarMap_new ops w h diagonal) (x, y) =
      (0 \<le> x' \<and> x' < w \<and> 0 \<le> y' \<and> y' < h \<and>
       (if diagonal then max \<bar>x' - x\<bar> \<bar>y' - y\<bar> = 1 else \<bar>x' - x\<bar> + \<bar>y' - y\<bar> = 1)) \<and>
    (x', y') \<in> neighbours (wyHexagonAStarMap_new ops w h) (x, y) =
      (0 \<le> x' \<and> x' < w \<and> 0 \<le> y' \<and> y' < h \<and>
       (if x' = x then \<bar>y' - y\<bar> = 1 else \<bar>x' - x\<bar> = 1 \<and> y' - y \<in> (if x mod 2 = 0 then {- 1, 0} else {0, 1})))"
proof -
  let ?r = "\<lparr>map_class = Rect, width = w, height = h, tiles = free_tiles ops w h\<rparr>"
  let ?h = "\<lparr>map_class = Hexagon, width = w, height = h, tiles = free_tiles ops w h\<rparr>"
  have u: "unlinked ?r ops" "unlinked ?h ops" by (simp_all add: unlinked_def)
  have v: "isValidTile ?r x y" "isValidTile ?h x y" using assms by (simp_all add: isValidTile_def)
  have r: "map_ok (link_tiles (rect_childs ?r diagonal) ?r) \<and> (\<forall>x y. isValidTile ?r x y \<longrightarrow>
      neighbours (link_tiles (rect_childs ?r diagonal) ?r) (x, y) =
        {(x + dx, y + dy) | dx dy. (dx, dy) \<in> {(x, y). \<bar>x\<bar> \<le> 1 \<and> \<bar>y\<bar> \<le> 1 \<and> (diagonal \<or> x = 0 \<or> y = 0)} \<and> (dx, dy) \<noteq> (0, 0) \<and>
           isValidTile ?r (x + dx) (y + dy)})"
    by (rule link_tiles_ok [OF u(1), where offs = "\<lambda>_. {(x, y). \<bar>x\<bar> \<le> 1 \<and> \<bar>y\<bar> \<le> 1 \<and> (diagonal \<or> x = 0 \<or> y = 0)}"])
      (rule set_rect_childs, rule unlinked_childs [OF u(1)])
  have h: "map_ok (link_tiles (hexagon_childs ?h) ?h) \<and> (\<forall>x y. isValidTile ?h x y \<longrightarrow>
      neighbours (link_tiles (hexagon_childs ?h) ?h) (x, y) =
        {(x + dx, y + dy) | dx dy. (dx, dy) \<in> hexagon_offsets x \<and> (dx, dy) \<noteq> (0, 0) \<and> isValidTile ?h (x + dx) (y + dy)})"
    by (rule link_tiles_ok [OF u(2)]) (rule set_hexagon_childs, rule unlinked_childs [OF u(2)], assumption+, rule unlinked_ok [OF u(2)])
  have "(x', y') \<in> neighbours (link_tiles (rect_childs ?r diagonal) ?r) (x, y) \<longleftrightarrow>
      \<bar>x' - x\<bar> \<le> 1 \<and> \<bar>y' - y\<bar> \<le> 1 \<and> (diagonal \<or> x' = x \<or> y' = y) \<and> (x', y') \<noteq> (x, y) \<and> isValidTile ?r x' y'"
    unfolding r [THEN conjunct2, rule_format, OF v(1)] offset_mem by auto
  moreover have "(x', y') \<in> neighbours (link_tiles (hexagon_childs ?h) ?h) (x, y) \<longleftrightarrow>
      (x' - x, y' - y) \<in> hexagon_offsets x \<and> (x', y') \<noteq> (x, y) \<and> isValidTile ?h x' y'"
    unfolding h [THEN conjunct2, rule_format, OF v(2)] offset_mem by auto
  moreover have "isValidTile ?r x' y' \<longleftrightarrow> 0 \<le> x' \<and> x' < w \<and> 0 \<le> y' \<and> y' < h" "isValidTile ?h x' y' = isValidTile ?r x' y'"
    by (auto simp: isValidTile_def)
  moreover have "\<bar>x' - x\<bar> \<le> 1 \<and> \<bar>y' - y\<bar> \<le> 1 \<and> (diagonal \<or> x' = x \<or> y' = y) \<and> (x', y') \<noteq> (x, y) \<longleftrightarrow>
      (if diagonal then max \<bar>x' - x\<bar> \<bar>y' - y\<bar> = 1 else \<bar>x' - x\<bar> + \<bar>y' - y\<bar> = 1)"
    by (simp add: max_def) arith
  moreover have "(x' - x, y' - y) \<in> hexagon_offsets x \<and> (x', y') \<noteq> (x, y) \<longleftrightarrow>
      (if x' = x then \<bar>y' - y\<bar> = 1 else \<bar>x' - x\<bar> = 1 \<and> y' - y \<in> (if x mod 2 = 0 then {- 1, 0} else {0, 1}))"
    unfolding hexagon_offsets_def by (cases "x mod 2 = 0") (simp_all, (arith | smt (verit))+)
  ultimately show ?thesis
    unfolding wyRectAStarMap_new_def wyHexagonAStarMap_new_def Let_def using r [THEN conjunct1] h [THEN conjunct1] by blast
qed

text \<open>Costs counted in hundredths, for runs on small maps.\<close>

definition int_ops :: "int float_ops" where
  "int_ops = \<lparr>fl_zero = 0, fl_one = 100, fl_add = (+), fl_mul = (\<lambda>a b. a * b div 100), fl_half = (\<lambda>a. a div 2),
     fl_less = (<), fl_sqrt = (\<lambda>n. if n = 2 then 141 else 100 * n)\<rparr>"

text \<open>A tile in the middle of a column, and one on the border.\<close>

theorem astar_map_neighbours_witness:
  "(1, 2) \<in> neighbours (wyHexagonAStarMap_new int_ops 3 3) (0, 2) \<and> (1, 3) \<notin> neighbours (wyHexagonAStarMap_new int_ops 3 3) (0, 2) \<and>
   (2, 2) \<in> neighbours (wyRectAStarMap_new int_ops 3 3 True) (1, 1) \<and> (2, 2) \<notin> neighbours (wyRectAStarMap_new int_ops 3 3 False) (1, 1)"
  using astar_map_neighbours [of 0 3 2 3 int_ops True 1 2] astar_map_neighbours [of 0 3 2 3 int_ops True 1 3]
    astar_map_neighbours [of 1 3 1 3 int_ops True 2 2] astar_map_neighbours [of 1 3 1 3 int_ops False 2 2]
  by simp

section \<open>The search\<close>

definition step_pos :: "'f wyAStarStep \<Rightarrow> int \<times> int" where
  "step_pos s = (step_x s, step_y s)"

text \<open>A step goes to a neighbouring tile that is not blocked.\<close>

definition adj :: "'f wyAStarMap \<Rightarrow> int \<times> int \<Rightarrow> int \<times> int \<Rightarrow> bool" where
  "adj m p q \<longleftrightarrow> q \<in> neighbours m p \<and> isBlockedAt m (fst q) (snd q) = Some False"

text \<open>
  The state of the loop: every step but the first has a parent that is closed, older and one step away; the
  closed steps, but those in \<open>X\<close>, have all their free neighbours among the steps.
\<close>

definition search_ok :: "'f wyAStarMap \<Rightarrow> int \<times> int \<Rightarrow> nat set \<Rightarrow> 'f search \<Rightarrow> bool" where
  "search_ok m start X s \<longleftrightarrow>
     distinct (map step_pos (steps s)) \<and> (\<forall>p\<in>step_pos ` set (steps s). isValidTile m (fst p) (snd p)) \<and>
     distinct (openList s @ closedList s) \<and> set (openList s @ closedList s) = {..<length (steps s)} \<and>
     steps s \<noteq> [] \<and> step_pos (steps s ! 0) = start \<and> step_parent (steps s ! 0) = None \<and>
     (\<forall>k<length (steps s). k \<noteq> 0 \<longrightarrow> (\<exists>p<k. step_parent (steps s ! k) = Some p \<and> p \<in> set (closedList s) \<and>
        adj m (step_pos (steps s ! p)) (step_pos (steps s ! k)))) \<and>
     (\<forall>c\<in>set (closedList s) - X. \<forall>q. adj m (step_pos (steps s ! c)) q \<longrightarrow> q \<in> step_pos ` set (steps s))"

lemma search_okD:
  assumes "search_ok m start X s"
  shows "distinct (map step_pos (steps s))" "set (openList s @ closedList s) = {..<length (steps s)}"
    "distinct (openList s @ closedList s)" "0 < length (steps s)" "step_pos (steps s ! 0) = start" "step_parent (steps s ! 0) = None"
    "\<And>k. k < length (steps s) \<Longrightarrow> isValidTile m (step_x (steps s ! k)) (step_y (steps s ! k))"
    "\<And>k. k < length (steps s) \<Longrightarrow> k \<noteq> 0 \<Longrightarrow> \<exists>p<k. step_parent (steps s ! k) = Some p \<and> p \<in> set (closedList s) \<and>
        adj m (step_pos (steps s ! p)) (step_pos (steps s ! k))"
    "\<And>c q. c \<in> set (closedList s) \<Longrightarrow> c \<notin> X \<Longrightarrow> adj m (step_pos (steps s ! c)) q \<Longrightarrow> q \<in> step_pos ` set (steps s)"
  using assms by (auto simp: search_ok_def step_pos_def)

lemma nodeInArray_None:
  "nodeInArray ss arr x y = None \<longleftrightarrow> (x, y) \<notin> (\<lambda>n. step_pos (ss ! n)) ` set arr"
  by (auto simp: nodeInArray_def find_None_iff step_pos_def image_iff)

lemma not_in_lists:
  assumes "search_ok m start X s"
  shows "nodeInArray (steps s) (closedList s) x y = None \<and> nodeInArray (steps s) (openList s) x y = None \<longleftrightarrow>
    (x, y) \<notin> step_pos ` set (steps s)"
proof -
  have "step_pos ` set (steps s) = (\<lambda>n. step_pos (steps s ! n)) ` {..<length (steps s)}"
    by (auto simp: set_conv_nth image_iff)
  also have "... = (\<lambda>n. step_pos (steps s ! n)) ` (set (openList s) \<union> set (closedList s))"
    using search_okD(2) [OF assms] by simp
  finally show ?thesis unfolding nodeInArray_None image_Un by blast
qed

lemma findLowestCostNode_in:
  assumes "arr \<noteq> []"
  shows "\<exists>n. findLowestCostNode ops ss arr = Some n \<and> n \<in> set arr"
proof -
  define f where "f = (\<lambda>lowest n. case lowest of None \<Rightarrow> Some n
            | Some l \<Rightarrow> if fl_less ops (step_f (ss ! n)) (step_f (ss ! l)) then Some n else Some l)"
  have f: "f (Some l) n = Some n \<or> f (Some l) n = Some l" "f None n = Some n" for l n by (simp_all add: f_def)
  have "\<exists>n. foldl f (Some l) ns = Some n \<and> n \<in> insert l (set ns)" for l ns
  proof (induction ns arbitrary: l)
    case (Cons n ns)
    show ?case using f(1) [of l n] Cons.IH [of n] Cons.IH [of l] by auto
  qed simp
  moreover obtain a ns where "arr = a # ns" using assms by (cases arr) auto
  ultimately show ?thesis using f(2) [of a] by (simp add: findLowestCostNode_def flip: f_def)
qed

subsection \<open>One child\<close>

lemma isBlockedAt_nth:
  assumes "map_ok m" "j < length (tiles m)"
  shows "isBlockedAt m (tile_x (tiles m ! j)) (tile_y (tiles m ! j)) = Some (tile_type (tiles m ! j) = TILE_BLOCKED)"
proof -
  have "getTileAt m (tile_x (tiles m ! j)) (tile_y (tiles m ! j)) = Some j"
    using assms by (simp add: getTileAt_iff tile_pos_def)
  moreover then have "isValidTile m (tile_x (tiles m ! j)) (tile_y (tiles m ! j))" using getTileAt_valid [OF assms(1)] by blast
  ultimately show ?thesis using assms(2) by (simp add: isBlockedAt_def rd_def)
qed

lemma search_ok_append:
  assumes ok: "search_ok m start X s" and new: "step_pos n \<notin> step_pos ` set (steps s)" "isValidTile m (step_x n) (step_y n)"
    and parent: "step_parent n = Some p" "p \<in> set (closedList s)" "adj m (step_pos (steps s ! p)) (step_pos n)"
  shows "search_ok m start X (s\<lparr>steps := steps s @ [n], openList := openList s @ [length (steps s)]\<rparr>)"
proof -
  have p: "p < length (steps s)" using search_okD(2) [OF ok] parent(2) by auto
  have closed: "c < length (steps s)" if "c \<in> set (closedList s)" for c using search_okD(2) [OF ok] that by auto
  have fresh: "length (steps s) \<notin> set (openList s @ closedList s)" using search_okD(2) [OF ok] by simp
  have "\<exists>p<k. step_parent ((steps s @ [n]) ! k) = Some p \<and> p \<in> set (closedList s) \<and>
      adj m (step_pos ((steps s @ [n]) ! p)) (step_pos ((steps s @ [n]) ! k))" if k: "k < Suc (length (steps s))" "k \<noteq> 0" for k
  proof (cases "k < length (steps s)")
    case True
    then obtain r where "r < k" "step_parent (steps s ! k) = Some r" "r \<in> set (closedList s)"
      "adj m (step_pos (steps s ! r)) (step_pos (steps s ! k))" using search_okD(8) [OF ok True k(2)] by blast
    then show ?thesis using True by (intro exI [of _ r]) (simp add: nth_append)
  next
    case False
    then have "k = length (steps s)" using k(1) by simp
    then show ?thesis using p parent by (intro exI [of _ p]) (simp add: nth_append)
  qed
  moreover have "set (openList s @ [length (steps s)]) \<union> set (closedList s) = {..<Suc (length (steps s))}"
    using search_okD(2) [OF ok] by (auto simp: lessThan_Suc)
  ultimately show ?thesis
    using ok new fresh closed unfolding search_ok_def by (auto simp: nth_append step_pos_def)
qed

lemma visit_child_ok:
  assumes map: "map_ok m" and ok: "search_ok m start X s" and cur: "current \<in> set (closedList s)"
    and i: "i < length (tiles m)" "tile_pos (tiles m ! i) = step_pos (steps s ! current)" and child: "j \<in> set (childs (tiles m ! i))"
  shows "\<exists>s'. visit_child ops m current (tiles m ! i) j s = Some s' \<and> search_ok m start X s' \<and> closedList s' = closedList s \<and>
    (\<exists>new. steps s' = steps s @ new) \<and>
    (tile_type (tiles m ! j) \<noteq> TILE_BLOCKED \<longrightarrow> tile_pos (tiles m ! j) \<in> step_pos ` set (steps s'))"
proof -
  let ?t = "tiles m ! j"
  have j: "j < length (tiles m)" using map i(1) child by (auto simp: map_ok_def)
  have c: "current < length (steps s)" using search_okD(2) [OF ok] cur by auto
  have valid: "isValidTile m (tile_x ?t) (tile_y ?t)"
    using getTileAt_iff [OF map, of "tile_x ?t" "tile_y ?t" j] j getTileAt_valid [OF map, of "tile_x ?t" "tile_y ?t"]
    by (auto simp: tile_pos_def)
  show ?thesis
  proof (cases "tile_type ?t = TILE_BLOCKED \<or> tile_pos ?t \<in> step_pos ` set (steps s)")
    case True
    then have "visit_child ops m current (tiles m ! i) j s = Some s"
      using not_in_lists [OF ok, of "tile_x ?t" "tile_y ?t"] j c
      by (auto simp: visit_child_def rd_def Let_def tile_pos_def)
    then show ?thesis using ok True by auto
  next
    case False
    then have none: "nodeInArray (steps s) (closedList s) (tile_x ?t) (tile_y ?t) = None"
      "nodeInArray (steps s) (openList s) (tile_x ?t) (tile_y ?t) = None"
      using not_in_lists [OF ok, of "tile_x ?t" "tile_y ?t"] by (auto simp: tile_pos_def)
    have a: "adj m (step_pos (steps s ! current)) (tile_pos ?t)"
      using neighbours_eq [OF map i(1)] i(2) child isBlockedAt_nth [OF map j] False by (simp add: adj_def tile_pos_def)
    obtain n where n: "visit_child ops m current (tiles m ! i) j s =
        Some (s\<lparr>steps := steps s @ [n], openList := openList s @ [length (steps s)]\<rparr>)"
      "step_pos n = tile_pos ?t" "step_parent n = Some current"
      using False j c none by (simp add: visit_child_def rd_def Let_def step_pos_def tile_pos_def wyAStarStep_new_def)
    have "step_x n = tile_x ?t" "step_y n = tile_y ?t" using n(2) by (simp_all add: step_pos_def tile_pos_def)
    then have "search_ok m start X (s\<lparr>steps := steps s @ [n], openList := openList s @ [length (steps s)]\<rparr>)"
      using search_ok_append [OF ok _ _ n(3) cur] False valid a n(2) by simp
    then show ?thesis using n by auto
  qed
qed

lemma visit_children_ok:
  assumes map: "map_ok m" and "search_ok m start X s" "current \<in> set (closedList s)"
    and i: "i < length (tiles m)" "tile_pos (tiles m ! i) = step_pos (steps s ! current)" and "set js \<subseteq> set (childs (tiles m ! i))"
  shows "\<exists>s'. visit_children ops m current (tiles m ! i) js s = Some s' \<and> search_ok m start X s' \<and> closedList s' = closedList s \<and>
    (\<exists>new. steps s' = steps s @ new) \<and>
    (\<forall>j\<in>set js. tile_type (tiles m ! j) \<noteq> TILE_BLOCKED \<longrightarrow> tile_pos (tiles m ! j) \<in> step_pos ` set (steps s'))"
  using assms(2,3,5,6)
proof (induction js arbitrary: s)
  case (Cons j js)
  obtain s1 where s1: "visit_child ops m current (tiles m ! i) j s = Some s1" "search_ok m start X s1" "closedList s1 = closedList s"
    "\<exists>new. steps s1 = steps s @ new"
    "tile_type (tiles m ! j) \<noteq> TILE_BLOCKED \<longrightarrow> tile_pos (tiles m ! j) \<in> step_pos ` set (steps s1)"
    using visit_child_ok [OF map Cons.prems(1,2) i(1) Cons.prems(3), of j ops] Cons.prems(4) by auto
  have "current < length (steps s)" using search_okD(2) [OF Cons.prems(1)] Cons.prems(2) by auto
  then have "tile_pos (tiles m ! i) = step_pos (steps s1 ! current)" using s1(4) Cons.prems(3) by (auto simp: nth_append)
  then obtain s2 where s2: "visit_children ops m current (tiles m ! i) js s1 = Some s2" "search_ok m start X s2"
    "closedList s2 = closedList s1" "\<exists>new. steps s2 = steps s1 @ new"
    "\<forall>j\<in>set js. tile_type (tiles m ! j) \<noteq> TILE_BLOCKED \<longrightarrow> tile_pos (tiles m ! j) \<in> step_pos ` set (steps s2)"
    using Cons.IH [OF s1(2)] Cons.prems(2,4) s1(3) by auto
  then show ?case using s1 by auto
qed auto

subsection \<open>The way back\<close>

lemma sorted_greater_distinct: "sorted_wrt (>) ks \<Longrightarrow> distinct ks" for ks :: "nat list"
  by (induction ks) auto

lemma trace_back_ok:
  assumes ok: "search_ok m start X s" and "a < length (steps s)"
  shows "\<exists>ks. trace_back (steps s) a path = Some (path @ ks) \<and> hd (ks @ [0]) = a \<and> sorted_wrt (>) (ks @ [0]) \<and> set ks \<subseteq> {..a} \<and>
    successively (\<lambda>k l. adj m (step_pos (steps s ! l)) (step_pos (steps s ! k))) (ks @ [0])"
  using assms(2)
proof (induction a arbitrary: path rule: less_induct)
  case (less a)
  show ?case
  proof (cases "a = 0")
    case True
    then show ?thesis using search_okD(4,6) [OF ok] by (subst trace_back.simps) (auto simp: rd_def intro: exI [of _ "[]"])
  next
    case False
    then obtain p where p: "p < a" "step_parent (steps s ! a) = Some p" "adj m (step_pos (steps s ! p)) (step_pos (steps s ! a))"
      using search_okD(8) [OF ok less.prems] by blast
    obtain ks where ks: "trace_back (steps s) p (path @ [a]) = Some ((path @ [a]) @ ks)" "hd (ks @ [0]) = p"
      "sorted_wrt (>) (ks @ [0])" "set ks \<subseteq> {..p}"
      "successively (\<lambda>k l. adj m (step_pos (steps s ! l)) (step_pos (steps s ! k))) (ks @ [0])"
      using less.IH [OF p(1), of "path @ [a]"] p(1) less.prems by auto
    have "trace_back (steps s) a path = Some (path @ a # ks)"
      using p(2) ks(1) less.prems by (subst trace_back.simps) (simp add: rd_def)
    moreover have "sorted_wrt (>) ((a # ks) @ [0])" using ks(3,4) p(1) False by auto
    moreover have "successively (\<lambda>k l. adj m (step_pos (steps s ! l)) (step_pos (steps s ! k))) ((a # ks) @ [0])"
      using ks(2,5) p(3) by (cases ks) (simp_all)
    ultimately show ?thesis using ks(4) p(1) by (intro exI [of _ "a # ks"]) auto
  qed
qed

text \<open>The steps a search returns, from the last to the first.\<close>

definition way :: "'f wyAStarMap \<Rightarrow> int \<times> int \<Rightarrow> int \<times> int \<Rightarrow> 'f wyAStarStep list \<Rightarrow> bool" where
  "way m start goal path \<longleftrightarrow>
     path \<noteq> [] \<and> step_pos (hd path) = goal \<and> successively (adj m) (start # rev (map step_pos path)) \<and>
     distinct (start # map step_pos path)"

lemma search_ok_inj:
  assumes "search_ok m start X s"
  shows "inj_on (\<lambda>n. step_pos (steps s ! n)) {..<length (steps s)}"
proof (rule inj_onI)
  fix j k
  assume "j \<in> {..<length (steps s)}" "k \<in> {..<length (steps s)}" "step_pos (steps s ! j) = step_pos (steps s ! k)"
  then show "j = k" using nth_eq_iff_index_eq [OF search_okD(1) [OF assms], of j k] by simp
qed

lemma way_trace:
  assumes ok: "search_ok m start X s" and c: "c < length (steps s)" "step_pos (steps s ! c) \<noteq> start"
  shows "\<exists>p path. step_parent (steps s ! c) = Some p \<and> trace_back (steps s) p [c] = Some path \<and>
    way m start (step_pos (steps s ! c)) (map (\<lambda>n. steps s ! n) path)"
proof -
  have "c \<noteq> 0" using c(2) search_okD(5) [OF ok] by metis
  then obtain p where p: "p < c" "step_parent (steps s ! c) = Some p"
    using search_okD(8) [OF ok c(1)] by blast
  obtain ks where ks: "trace_back (steps s) c [] = Some ks" "hd (ks @ [0]) = c" "sorted_wrt (>) (ks @ [0])" "set ks \<subseteq> {..c}"
    "successively (\<lambda>k l. adj m (step_pos (steps s ! l)) (step_pos (steps s ! k))) (ks @ [0])"
    using trace_back_ok [OF ok c(1), of "[]"] by auto
  have "trace_back (steps s) c [] = trace_back (steps s) p [c]"
    using p c(1) by (subst trace_back.simps) (simp add: rd_def)
  moreover have "way m start (step_pos (steps s ! c)) (map (\<lambda>n. steps s ! n) ks)"
  proof -
    have ne: "ks \<noteq> []" using ks(2) \<open>c \<noteq> 0\<close> by auto
    have "distinct (ks @ [0])" using ks(3) by (rule sorted_greater_distinct)
    moreover have "set (ks @ [0]) \<subseteq> {..<length (steps s)}" using ks(4) c(1) search_okD(4) [OF ok] by auto
    ultimately have "distinct (map (\<lambda>n. step_pos (steps s ! n)) (ks @ [0]))"
      unfolding distinct_map using inj_on_subset [OF search_ok_inj [OF ok]] by blast
    moreover have "successively (adj m) (rev (map (\<lambda>n. step_pos (steps s ! n)) (ks @ [0])))"
      using ks(5) by (simp only: successively_rev successively_map)
    ultimately show ?thesis
      using ne ks(2) search_okD(5) [OF ok] by (simp add: way_def o_def rev_map hd_map)
  qed
  ultimately show ?thesis using ks(1) p(2) by metis
qed

subsection \<open>The loop\<close>

lemma steps_bound:
  assumes "map_ok m" "search_ok m start X s"
  shows "length (steps s) \<le> length (tiles m)"
proof -
  have "set (map step_pos (steps s)) \<subseteq> set (map tile_pos (tiles m))"
  proof
    fix p
    assume "p \<in> set (map step_pos (steps s))"
    then have "isValidTile m (fst p) (snd p)" using assms(2) unfolding search_ok_def set_map by blast
    then show "p \<in> set (map tile_pos (tiles m))" using assms(1) unfolding map_ok_def by (cases p) simp
  qed
  then have "card (set (map step_pos (steps s))) \<le> card (set (map tile_pos (tiles m)))"
    by (rule card_mono [OF finite_set])
  moreover have "distinct (map tile_pos (tiles m))" using assms(1) by (simp add: map_ok_def)
  ultimately show ?thesis using search_okD(1) [OF assms(2)] by (simp only: distinct_card length_map)
qed

text \<open>One round of the loop that does not find the end.\<close>

lemma search_round:
  assumes map: "map_ok m" and ok: "search_ok m start {} s" and c: "c \<in> set (openList s)"
  shows "\<exists>i s'. getTileAt m (step_x (steps s ! c)) (step_y (steps s ! c)) = Some i \<and> i < length (tiles m) \<and>
    visit_children ops m c (tiles m ! i) (childs (tiles m ! i))
      (s\<lparr>closedList := closedList s @ [c], openList := remove1 c (openList s)\<rparr>) = Some s' \<and>
    search_ok m start {} s' \<and> closedList s' = closedList s @ [c] \<and> (\<exists>new. steps s' = steps s @ new)"
proof -
  let ?s = "s\<lparr>closedList := closedList s @ [c], openList := remove1 c (openList s)\<rparr>"
  have len: "c < length (steps s)" using search_okD(2) [OF ok] c by auto
  obtain i where i: "getTileAt m (step_x (steps s ! c)) (step_y (steps s ! c)) = Some i" "i < length (tiles m)"
    "tile_pos (tiles m ! i) = step_pos (steps s ! c)"
    using search_okD(7) [OF ok len] getTileAt_valid [OF map] getTileAt_iff [OF map] by (metis step_pos_def)
  have lists: "distinct (openList ?s @ closedList ?s)" "set (openList ?s @ closedList ?s) = {..<length (steps ?s)}"
    using search_okD(2,3) [OF ok] c by auto
  have "search_ok m start {c} ?s"
    using ok lists unfolding search_ok_def by (auto; blast)
  then obtain s' where s': "visit_children ops m c (tiles m ! i) (childs (tiles m ! i)) ?s = Some s'" "search_ok m start {c} s'"
    "closedList s' = closedList s @ [c]" "\<exists>new. steps s' = steps s @ new"
    "\<forall>j\<in>set (childs (tiles m ! i)). tile_type (tiles m ! j) \<noteq> TILE_BLOCKED \<longrightarrow> tile_pos (tiles m ! j) \<in> step_pos ` set (steps s')"
    using visit_children_ok [OF map, of start "{c}" ?s c i "childs (tiles m ! i)" ops] i by auto
  have "q \<in> step_pos ` set (steps s')" if q: "adj m (step_pos (steps s' ! c)) q" for q
  proof -
    have "steps s' ! c = steps s ! c" using s'(4) len by (auto simp: nth_append)
    then obtain j where j: "q = tile_pos (tiles m ! j)" "j \<in> set (childs (tiles m ! i))"
      using q neighbours_eq [OF map i(2)] i(3) by (auto simp: adj_def)
    moreover have "j < length (tiles m)" using map i(2) j(2) by (auto simp: map_ok_def)
    ultimately have "tile_type (tiles m ! j) \<noteq> TILE_BLOCKED"
      using q isBlockedAt_nth [OF map] by (simp add: adj_def tile_pos_def)
    then show ?thesis using s'(5) j by blast
  qed
  then have "search_ok m start {} s'" using s'(2) unfolding search_ok_def by (metis (no_types, lifting) DiffI Diff_iff empty_iff insert_iff)
  then show ?thesis using i s' by blast
qed

lemma closed_all_reachable:
  assumes "search_ok m start {} s" "openList s = []" "(adj m)\<^sup>*\<^sup>* start q"
  shows "q \<in> step_pos ` (\<lambda>n. steps s ! n) ` set (closedList s)"
  using assms(3)
proof induction
  case base
  have "0 \<in> set (closedList s)" using search_okD(2,4) [OF assms(1)] assms(2) by auto
  then show ?case using search_okD(5) [OF assms(1)] by force
next
  case (step p q)
  then have "q \<in> step_pos ` set (steps s)" using search_okD(9) [OF assms(1), of _ q] by blast
  moreover have "set (steps s) = (\<lambda>n. steps s ! n) ` set (closedList s)"
    using search_okD(2) [OF assms(1)] assms(2) by (auto simp: set_conv_nth)
  ultimately show ?case by simp
qed

lemma search_loop_ok:
  assumes map: "map_ok m" and "search_ok m start {} s" "(endx, endy) \<noteq> start"
    and "\<forall>c\<in>set (closedList s). step_pos (steps s ! c) \<noteq> (endx, endy)"
  shows "\<exists>path. search_loop ops m endx endy s = Some path \<and>
    (path = [] \<and> \<not> (adj m)\<^sup>*\<^sup>* start (endx, endy) \<or> way m start (endx, endy) path)"
  using assms(2,4)
proof (induction "length (tiles m) - length (closedList s)" arbitrary: s rule: less_induct)
  case less
  show ?case
  proof (cases "openList s = []")
    case True
    then have "\<not> (adj m)\<^sup>*\<^sup>* start (endx, endy)" using closed_all_reachable [OF less.prems(1), of "(endx, endy)"] less.prems(2) by fastforce
    then show ?thesis using True by (subst search_loop.simps) simp
  next
    case False
    obtain c where c: "findLowestCostNode ops (steps s) (openList s) = Some c" "c \<in> set (openList s)"
      using findLowestCostNode_in [OF False] by blast
    have len: "c < length (steps s)" using search_okD(2) [OF less.prems(1)] c(2) by auto
    show ?thesis
    proof (cases "step_pos (steps s ! c) = (endx, endy)")
      case True
      then obtain p path where p: "step_parent (steps s ! c) = Some p" "trace_back (steps s) p [c] = Some path"
        "way m start (endx, endy) (map (\<lambda>n. steps s ! n) path)"
        using way_trace [OF less.prems(1) len] assms(3) by auto
      have "step_x (steps s ! c) = endx \<and> step_y (steps s ! c) = endy" using True by (simp add: step_pos_def)
      then have "search_loop ops m endx endy s = Some (map (\<lambda>n. steps s ! n) path)"
        using False c len p by (subst search_loop.simps) (simp add: rd_def)
      then show ?thesis using p(3) by blast
    next
      case ne: False
      obtain i s' where s': "getTileAt m (step_x (steps s ! c)) (step_y (steps s ! c)) = Some i" "i < length (tiles m)"
        "visit_children ops m c (tiles m ! i) (childs (tiles m ! i))
          (s\<lparr>closedList := closedList s @ [c], openList := remove1 c (openList s)\<rparr>) = Some s'"
        "search_ok m start {} s'" "closedList s' = closedList s @ [c]" "\<exists>new. steps s' = steps s @ new"
        using search_round [OF map less.prems(1) c(2)] by blast
      have same: "steps s' ! k = steps s ! k" if "k < length (steps s)" for k using s'(6) that by (auto simp: nth_append)
      have closed: "k < length (steps s)" if "k \<in> set (closedList s)" for k using search_okD(2) [OF less.prems(1)] that by auto
      have "\<forall>k\<in>set (closedList s'). step_pos (steps s' ! k) \<noteq> (endx, endy)"
        using less.prems(2) ne s'(5) same closed len by auto
      moreover have "length (closedList s') \<le> length (tiles m)"
      proof -
        have "card (set (closedList s')) \<le> card {..<length (steps s')}"
          using search_okD(2) [OF s'(4)] by (intro card_mono) auto
        then show ?thesis using search_okD(3) [OF s'(4)] steps_bound [OF map s'(4)] by (simp add: distinct_card)
      qed
      then have "length (tiles m) - length (closedList s') < length (tiles m) - length (closedList s)" using s'(5) by simp
      ultimately obtain path where "search_loop ops m endx endy s' = Some path"
        "path = [] \<and> \<not> (adj m)\<^sup>*\<^sup>* start (endx, endy) \<or> way m start (endx, endy) path"
        using less.hyps s'(4) by blast
      moreover have "\<not> (step_x (steps s ! c) = endx \<and> step_y (steps s ! c) = endy)" using ne by (simp add: step_pos_def)
      then have "search_loop ops m endx endy s = search_loop ops m endx endy s'"
        using False c(1) len s'(1,2,3) by (subst search_loop.simps) (simp add: rd_def del: de_Morgan_conj)
      ultimately show ?thesis by simp
    qed
  qed
qed

subsection \<open>findPath\<close>

lemma successively_rtranclp: "successively R (a # xs) \<Longrightarrow> R\<^sup>*\<^sup>* a (last (a # xs))"
proof (induction xs arbitrary: a)
  case (Cons x xs)
  then show ?case by (metis converse_rtranclp_into_rtranclp last_ConsR list.distinct(1) successively.simps(3))
qed simp

text \<open>
  C16: On any map with one tile per position, whatever the costs are, a search from a tile of the map returns: with no
  steps when start and end are the same or the end cannot be reached over free tiles, and otherwise with the
  steps, last first, of a path to the end that does not visit a tile twice. \<open>ignoreBlock\<close> makes no
  difference.
\<close>

theorem astar_finds_path:
  assumes "map_ok m" "isValidTile m startx starty"
  shows "\<exists>path. findPath ops m startx starty endx endy ignoreBlock = Some (int (length path), path) \<and>
    (path = [] \<longleftrightarrow> (startx, starty) = (endx, endy) \<or> \<not> (adj m)\<^sup>*\<^sup>* (startx, starty) (endx, endy)) \<and>
    (path \<noteq> [] \<longrightarrow> way m (startx, starty) (endx, endy) path)"
proof -
  let ?start = "(startx, starty)" and ?goal = "(endx, endy)"
  let ?s = "\<lparr>steps = [wyAStarStep_new ops startx starty], openList = [0], closedList = []\<rparr>"
  have ne: "path \<noteq> [] \<and> (adj m)\<^sup>*\<^sup>* ?start ?goal" if "way m ?start ?goal path" for path :: "'a wyAStarStep list"
    using that successively_rtranclp [of "adj m" ?start "rev (map step_pos path)"]
    by (auto simp: way_def last_rev hd_map)
  have blocked: "\<not> (adj m)\<^sup>*\<^sup>* ?start ?goal" if "isBlockedAt m endx endy = Some True" "?start \<noteq> ?goal"
    using that by (auto simp: adj_def elim: rtranclp.cases)
  have def: "\<exists>b. isBlockedAt m endx endy = Some b"
  proof (cases "isValidTile m endx endy")
    case True
    then obtain j where "getTileAt m endx endy = Some j" "j < length (tiles m)"
      using getTileAt_valid [OF assms(1)] getTileAt_iff [OF assms(1)] by blast
    then show ?thesis using True by (simp add: isBlockedAt_def rd_def)
  qed (auto simp: isBlockedAt_def)
  consider "?start = ?goal" | "?start \<noteq> ?goal" "\<not> ignoreBlock" "isBlockedAt m endx endy = Some True"
    | "?start \<noteq> ?goal" "(if ignoreBlock then Some False else isBlockedAt m endx endy) = Some False"
    using def by (metis (full_types))
  then show ?thesis
  proof cases
    case 1
    then show ?thesis by (simp add: findPath_def)
  next
    case 2
    then show ?thesis using blocked by (auto simp: findPath_def)
  next
    case 3
    have "search_ok m ?start {} ?s" using assms(2) by (simp add: search_ok_def step_pos_def wyAStarStep_new_def lessThan_Suc)
    then obtain path where path: "search_loop ops m endx endy ?s = Some path"
      "path = [] \<and> \<not> (adj m)\<^sup>*\<^sup>* ?start ?goal \<or> way m ?start ?goal path"
      using search_loop_ok [OF assms(1), of ?start ?s endx endy ops] 3(1) by auto
    have "\<not> (startx = endx \<and> starty = endy)" using 3(1) by simp
    then have "findPath ops m startx starty endx endy ignoreBlock = Some (int (length path), path)"
      using 3(2) path(1) by (auto simp: findPath_def)
    then show ?thesis using path(2) ne 3(1) by auto
  qed
qed

text \<open>A map of two by three tiles with a blocked one: the way around it, and no way to the blocked tile itself.\<close>

definition small_map :: "int wyAStarMap" where
  "small_map = the (blockTile (wyRectAStarMap_new int_ops 2 3 False) 0 1)"

lemma small_map_ok: "map_ok small_map \<and> isValidTile small_map 0 0"
proof -
  have "map_ok (wyRectAStarMap_new int_ops 2 3 False)" by (rule new_map_ok(1))
  moreover have "isValidTile (wyRectAStarMap_new int_ops 2 3 False) 0 1"
    by (simp add: isValidTile_def wyRectAStarMap_new_def Let_def link_tiles_def)
  ultimately obtain i where i: "getTileAt (wyRectAStarMap_new int_ops 2 3 False) 0 1 = Some i"
    "i < length (tiles (wyRectAStarMap_new int_ops 2 3 False))"
    using getTileAt_valid getTileAt_iff by blast
  then obtain m where m: "setType (wyRectAStarMap_new int_ops 2 3 False) i TILE_BLOCKED = Some m"
    by (auto simp: setType_def rd_def)
  then have "small_map = m" using i by (simp add: small_map_def blockTile_def)
  moreover have "isValidTile m 0 0 = isValidTile (wyRectAStarMap_new int_ops 2 3 False) 0 0"
    using m by (auto simp: setType_def rd_def isValidTile_def split: if_splits)
  ultimately show ?thesis using setType_ok [OF new_map_ok(1) m]
    by (simp add: isValidTile_def wyRectAStarMap_new_def Let_def link_tiles_def)
qed

theorem astar_finds_path_witness:
  "\<exists>path. findPath int_ops small_map 0 0 0 2 False = Some (int (length path), path) \<and>
    (path = [] \<longleftrightarrow> (0, 0) = (0, 2 :: int) \<or> \<not> (adj small_map)\<^sup>*\<^sup>* (0, 0) (0, 2)) \<and>
    (path \<noteq> [] \<longrightarrow> way small_map (0, 0) (0, 2) path)"
  using astar_finds_path [OF small_map_ok [THEN conjunct1] small_map_ok [THEN conjunct2], of int_ops 0 2 False] by simp

lemma small_map_runs:
  "map_option (map step_pos \<circ> snd) (findPath int_ops small_map 0 0 0 2 False) = Some [(0, 2), (1, 2), (1, 1), (1, 0)]"
  "map_option (map step_pos \<circ> snd) (findPath int_ops small_map 0 0 0 1 True) = Some []"
  by code_simp+

text \<open>
  A step that is open already never gets a better parent: the end next to the start is reached directly, also
  when its tile is so expensive that the way around costs less.
\<close>

definition dear_map :: "int wyAStarMap" where
  "dear_map = (let m = wyRectAStarMap_new int_ops 2 2 True in m\<lparr>tiles := (tiles m)[3 := (tiles m ! 3)\<lparr>gRate := 1000\<rparr>]\<rparr>)"

definition way_cost :: "'f float_ops \<Rightarrow> 'f wyAStarMap \<Rightarrow> nat list \<Rightarrow> 'f" where
  "way_cost ops m is = foldl (fl_add ops) (fl_zero ops) (map2 (\<lambda>i j. getStepG ops m (tiles m ! i) (tiles m ! j)) is (tl is))"

lemma findPath_not_cheapest:
  "map_option (map step_pos \<circ> snd) (findPath int_ops dear_map 0 0 1 1 False) = Some [(1, 1)] \<and>
   map tile_pos (map ((!) (tiles dear_map)) [0, 2, 3]) = [(0, 0), (1, 0), (1, 1)] \<and>
   way_cost int_ops dear_map [0, 2, 3] < way_cost int_ops dear_map [0, 3]"
  by code_simp

end
