(* ===== verification/Wy_TGA.thy ===== *)
theory Wy_TGA imports Wy_Stream begin

text \<open>
  The loader of TGA images, \<open>utils/wyTGALoader.cpp\<close>, reading from a memory stream. A \<open>char\<close> variable is a
  cell, a read at the end of the stream leaves it as it is. \<open>None\<close> is the use of an unset variable, an access
  outside of a block or an \<open>int\<close> overflow.
\<close>

datatype wyTGAError = TGA_OK | TGA_ERROR_FILE_OPEN | TGA_ERROR_READING_FILE | TGA_ERROR_INDEXED_COLOR
  | TGA_ERROR_MEMORY | TGA_ERROR_COMPRESSED_FILE

record wyTGA =
  status :: wyTGAError
  tga_type :: byte
  pixelDepth :: nat
  bytesPerPixel :: nat
  width :: nat
  height :: nat
  imageData :: "cells option"
  flipped :: bool

text \<open>\<open>wyCalloc(1, sizeof(wyTGA))\<close>\<close>

definition wyTGA_calloc :: wyTGA where
  "wyTGA_calloc = \<lparr>status = TGA_OK, tga_type = 0, pixelDepth = 0, bytesPerPixel = 0, width = 0, height = 0,
     imageData = None, flipped = False\<rparr>"

text \<open>A product of \<open>int\<close>s.\<close>

definition int_result :: "nat \<Rightarrow> nat option" where
  "int_result n = (if n < 2 ^ 31 then Some n else None)"

text \<open>\<open>ais->read(&a, 1)\<close>, whose result is not looked at.\<close>

definition read_char :: "wyMemoryInputStream \<Rightarrow> byte option \<Rightarrow> (byte option \<times> wyMemoryInputStream) option" where
  "read_char s a = do { (n, bs, s1) \<leftarrow> stream_read s 1; Some (case bs of [] \<Rightarrow> a | b # _ \<Rightarrow> Some b, s1) }"

definition char_pair :: "byte \<Rightarrow> byte \<Rightarrow> nat" where
  "char_pair a b = unat ((scast a AND 0xff) OR push_bit 8 (scast b AND 0xff) :: 32 word)"

definition loadHeader :: "wyMemoryInputStream \<Rightarrow> wyTGA \<Rightarrow> (wyMemoryInputStream \<times> wyTGA) option" where
  "loadHeader s tga =
     do { let s1 = snd (in_seek s 2 SEEK_CUR);
          (t, s2) \<leftarrow> read_char s1 (Some (tga_type tga));
          ty \<leftarrow> t;
          let s3 = snd (in_seek s2 9 SEEK_CUR);
          (a0, s4) \<leftarrow> read_char s3 None;
          (b0, s5) \<leftarrow> read_char s4 None;
          w0 \<leftarrow> a0;
          w1 \<leftarrow> b0;
          (a1, s6) \<leftarrow> read_char s5 a0;
          (b1, s7) \<leftarrow> read_char s6 b0;
          h0 \<leftarrow> a1;
          h1 \<leftarrow> b1;
          (a2, s8) \<leftarrow> read_char s7 a1;
          d \<leftarrow> a2;
          (a3, s9) \<leftarrow> read_char s8 a2;
          flags \<leftarrow> a3;
          let depth = unat (scast d AND 0xff :: 32 word);
          Some (s9, tga\<lparr>tga_type := ty, width := char_pair w0 w1, height := char_pair h0 h1, pixelDepth := depth,
                        bytesPerPixel := depth div 8, flipped := flags AND 0x20 \<noteq> 0\<rparr>) }"

section \<open>Flipping\<close>

definition flip_row :: "nat \<Rightarrow> nat \<Rightarrow> nat \<Rightarrow> cells \<Rightarrow> cells option" where
  "flip_row rowbytes h y img =
     do { row \<leftarrow> cslice img (y * rowbytes) rowbytes;
          other \<leftarrow> cslice img ((h - (y + 1)) * rowbytes) rowbytes;
          img1 \<leftarrow> mem_write img (y * rowbytes) other;
          mem_write img1 ((h - (y + 1)) * rowbytes) row }"

function flip_rows :: "nat \<Rightarrow> nat \<Rightarrow> nat \<Rightarrow> cells \<Rightarrow> cells option" where
  "flip_rows rowbytes h y img =
     (if y < h div 2
      then (case flip_row rowbytes h y img of None \<Rightarrow> None | Some img1 \<Rightarrow> flip_rows rowbytes h (y + 1) img1)
      else Some img)"
  by pat_completeness auto
termination by (relation "measure (\<lambda>(rowbytes, h, y, img). h - y)") auto

declare flip_rows.simps [simp del]

definition flipImage :: "wyTGA \<Rightarrow> wyTGA option" where
  "flipImage tga =
     do { rowbytes \<leftarrow> int_result (width tga * bytesPerPixel tga);
          img0 \<leftarrow> imageData tga;
          img \<leftarrow> flip_rows rowbytes (height tga) 0 img0;
          Some (tga\<lparr>imageData := Some img, flipped := False\<rparr>) }"

section \<open>Run length encoding\<close>

record rle =
  rle_in :: wyMemoryInputStream
  rle_buf :: bytes
  rle_img :: cells
  rle_bytes :: nat
  rle_pixel :: nat

text \<open>\<open>ais->read(buf, tga->bytesPerPixel) == tga->bytesPerPixel\<close>\<close>

definition read_pixel :: "nat \<Rightarrow> rle \<Rightarrow> (bool \<times> rle) option" where
  "read_pixel bpp st =
     do { (n, bs, s1) \<leftarrow> stream_read (rle_in st) bpp;
          buf \<leftarrow> mem_write (rle_buf st) 0 bs;
          Some (n = int bpp, st\<lparr>rle_in := s1, rle_buf := buf\<rparr>) }"

text \<open>Three assignments; false if there are too many pixels.\<close>

definition put_pixel :: "nat \<Rightarrow> nat \<Rightarrow> rle \<Rightarrow> (bool \<times> rle) option" where
  "put_pixel bpp tot st =
     do { b2 \<leftarrow> rd (rle_buf st) 2;
          b1 \<leftarrow> rd (rle_buf st) 1;
          b0 \<leftarrow> rd (rle_buf st) 0;
          i1 \<leftarrow> wr (rle_img st) (rle_bytes st) (Some b2);
          i2 \<leftarrow> wr i1 (rle_bytes st + 1) (Some b1);
          i3 \<leftarrow> wr i2 (rle_bytes st + 2) (Some b0);
          Some (\<not> rle_pixel st + 1 > tot,
                st\<lparr>rle_img := i3, rle_bytes := rle_bytes st + bpp, rle_pixel := rle_pixel st + 1\<rparr>) }"

text \<open>The two loops over \<open>runlength\<close> pixels.\<close>

fun rle_raw :: "nat \<Rightarrow> nat \<Rightarrow> nat \<Rightarrow> rle \<Rightarrow> (bool \<times> rle) option" where
  "rle_raw bpp tot 0 st = Some (True, st)"
| "rle_raw bpp tot (Suc k) st =
     do { (ok, st1) \<leftarrow> read_pixel bpp st;
          if \<not> ok then Some (False, st1)
          else do { (ok2, st2) \<leftarrow> put_pixel bpp tot st1;
                    if \<not> ok2 then Some (False, st2) else rle_raw bpp tot k st2 } }"

fun rle_run :: "nat \<Rightarrow> nat \<Rightarrow> nat \<Rightarrow> rle \<Rightarrow> (bool \<times> rle) option" where
  "rle_run bpp tot 0 st = Some (True, st)"
| "rle_run bpp tot (Suc k) st =
     do { (ok, st1) \<leftarrow> put_pixel bpp tot st;
          if \<not> ok then Some (False, st1) else rle_run bpp tot k st1 }"

definition rle_packet :: "nat \<Rightarrow> nat \<Rightarrow> byte \<Rightarrow> rle \<Rightarrow> (bool \<times> rle) option" where
  "rle_packet bpp tot a st =
     (let runlength = unat (scast a AND 0xff :: 32 word) in
      if runlength < 128 then rle_raw bpp tot (runlength + 1) st
      else do { (ok, st1) \<leftarrow> read_pixel bpp st;
                if \<not> ok then Some (False, st1) else rle_run bpp tot (runlength - 127) st1 })"

lemma put_pixel_pixel: "put_pixel bpp tot st = Some (b, st1) \<Longrightarrow> rle_pixel st1 = rle_pixel st + 1"
  by (auto simp: put_pixel_def opt_simps)

lemma read_pixel_pixel: "read_pixel bpp st = Some (b, st1) \<Longrightarrow> rle_pixel st1 = rle_pixel st"
  by (auto simp: read_pixel_def opt_simps)

lemma rle_raw_pixel: "rle_raw bpp tot k st = Some (True, st1) \<Longrightarrow> rle_pixel st1 = rle_pixel st + k"
  by (induction k arbitrary: st) (auto simp: opt_simps dest!: put_pixel_pixel read_pixel_pixel split: if_splits)

lemma rle_run_pixel: "rle_run bpp tot k st = Some (True, st1) \<Longrightarrow> rle_pixel st1 = rle_pixel st + k"
  by (induction k arbitrary: st) (auto simp: opt_simps dest!: put_pixel_pixel split: if_splits)

lemma rle_packet_pixel:
  assumes "rle_packet bpp tot a st = Some (True, st1)"
  shows "rle_pixel st < rle_pixel st1"
proof (cases "unat (scast a AND 0xff :: 32 word) < 128")
  case True
  then have "rle_raw bpp tot (unat (scast a AND 0xff :: 32 word) + 1) st = Some (True, st1)"
    using assms by (simp add: rle_packet_def)
  then show ?thesis using rle_raw_pixel by fastforce
next
  case False
  then obtain st2 where "read_pixel bpp st = Some (True, st2)" "rle_run bpp tot (unat (scast a AND 0xff :: 32 word) - 127) st2 = Some (True, st1)"
    using assms by (auto simp: rle_packet_def opt_simps split: if_splits)
  then have "rle_pixel st1 = rle_pixel st + (unat (scast a AND 0xff :: 32 word) - 127)" using rle_run_pixel read_pixel_pixel by metis
  then show ?thesis using False by simp
qed

function rle_loop :: "nat \<Rightarrow> nat \<Rightarrow> byte option \<Rightarrow> rle \<Rightarrow> (bool \<times> rle) option" where
  "rle_loop bpp tot a st =
     (if rle_pixel st < tot
      then (case read_char (rle_in st) a of
              None \<Rightarrow> None
            | Some (None, s1) \<Rightarrow> None
            | Some (Some a1, s1) \<Rightarrow>
                (case rle_packet bpp tot a1 (st\<lparr>rle_in := s1\<rparr>) of
                   None \<Rightarrow> None
                 | Some (False, st1) \<Rightarrow> Some (False, st1)
                 | Some (True, st1) \<Rightarrow> rle_loop bpp tot (Some a1) st1))
      else Some (True, st))"
  by pat_completeness auto
termination
proof (relation "measure (\<lambda>(bpp, tot, a, st). tot - rle_pixel st)", goal_cases)
  case (2 bpp tot a st aa c d a1 aaa)
  then show ?case using rle_packet_pixel [of bpp tot] by fastforce
qed simp

declare rle_loop.simps [simp del]

definition loadRLEImageData :: "wyMemoryInputStream \<Rightarrow> wyTGA \<Rightarrow> (bool \<times> wyMemoryInputStream \<times> wyTGA) option" where
  "loadRLEImageData s tga =
     do { tot \<leftarrow> int_result (height tga * width tga);
          img \<leftarrow> imageData tga;
          (ok, st) \<leftarrow> rle_loop (bytesPerPixel tga) tot None
                       \<lparr>rle_in = s, rle_buf = [0, 0, 0, 0], rle_img = img, rle_bytes = 0, rle_pixel = 0\<rparr>;
          Some (ok, rle_in st, tga\<lparr>imageData := Some (rle_img st)\<rparr>) }"

section \<open>Plain images\<close>

partial_function (option) swap_pixels :: "nat \<Rightarrow> nat \<Rightarrow> nat \<Rightarrow> cells \<Rightarrow> cells option" where
  "swap_pixels bpp tot i img =
     (if i < tot
      then Option.bind (rd img i) (\<lambda>aux.
           Option.bind (rd img (i + 2)) (\<lambda>b.
           Option.bind (wr img i b) (\<lambda>img1.
           Option.bind (wr img1 (i + 2) aux) (\<lambda>img2. swap_pixels bpp tot (i + bpp) img2))))
      else Some img)"

definition loadImageData :: "wyMemoryInputStream \<Rightarrow> wyTGA \<Rightarrow> (bool \<times> wyMemoryInputStream \<times> wyTGA) option" where
  "loadImageData s tga =
     do { n1 \<leftarrow> int_result (height tga * width tga);
          tot \<leftarrow> int_result (n1 * bytesPerPixel tga);
          (n, bs, s1) \<leftarrow> stream_read s tot;
          img0 \<leftarrow> imageData tga;
          img \<leftarrow> mem_write img0 0 (map Some bs);
          if n \<noteq> int tot then Some (False, s1, tga\<lparr>imageData := Some img\<rparr>)
          else if bytesPerPixel tga \<ge> 3
               then do { img1 \<leftarrow> swap_pixels (bytesPerPixel tga) tot 0 img;
                         Some (True, s1, tga\<lparr>imageData := Some img1\<rparr>) }
               else Some (False, s1, tga\<lparr>imageData := Some img\<rparr>) }"

section \<open>Loading\<close>

definition tga_load :: "wyMemoryInputStream \<Rightarrow> wyTGA \<Rightarrow> (wyMemoryInputStream \<times> wyTGA) option" where
  "tga_load s tga0 =
     do { (s1, tga) \<leftarrow> loadHeader s tga0;
          if tga_type tga = 1 then Some (s1, tga\<lparr>status := TGA_ERROR_INDEXED_COLOR\<rparr>)
          else if tga_type tga \<noteq> 2 \<and> tga_type tga \<noteq> 3 \<and> tga_type tga \<noteq> 10
          then Some (s1, tga\<lparr>status := TGA_ERROR_COMPRESSED_FILE\<rparr>)
          else do { n1 \<leftarrow> int_result (height tga * width tga);
                    tot \<leftarrow> int_result (n1 * bytesPerPixel tga);
                    let tga1 = tga\<lparr>imageData := Some (replicate tot None)\<rparr>;
                    (ok, s2, tga2) \<leftarrow> (if tga_type tga1 = 10 then loadRLEImageData s1 tga1 else loadImageData s1 tga1);
                    if \<not> ok then Some (s2, tga2\<lparr>status := TGA_ERROR_READING_FILE\<rparr>)
                    else let tga3 = tga2\<lparr>status := TGA_OK\<rparr> in
                         if flipped tga3
                         then do { tga4 \<leftarrow> flipImage tga3;
                                   Some (s2, if flipped tga4 then tga4\<lparr>status := TGA_ERROR_MEMORY\<rparr> else tga4) }
                         else Some (s2, tga3) } }"

text \<open>\<open>load\<close> of a resource or file, its contents in memory.\<close>

definition tga_file :: "bytes \<Rightarrow> wyTGA option" where
  "tga_file bs = map_option snd (tga_load (wyMemoryInputStream_make bs (length bs) False) wyTGA_calloc)"

end
