(* ===== verification/Wy_TGA_Props.thy ===== *)
theory Wy_TGA_Props imports Wy_TGA begin

text \<open>
  What the loader of TGA images makes of a file: the header, plain rows of pixels and run length packets.
\<close>

section \<open>Reading from a stream\<close>

text \<open>The bytes \<open>cs\<close> are left in the stream.\<close>

definition stream_at :: "wyMemoryInputStream \<Rightarrow> bytes \<Rightarrow> bool" where
  "stream_at s cs \<longleftrightarrow>
     in_length s = length (in_buffer s) \<and> length (in_buffer s) < size_mod \<and> in_position s \<le> length (in_buffer s) \<and>
     drop (in_position s) (in_buffer s) = cs"

definition advance :: "wyMemoryInputStream \<Rightarrow> nat \<Rightarrow> wyMemoryInputStream" where
  "advance s n = s\<lparr>in_position := in_position s + n\<rparr>"

lemma stream_at_make: "length bs < size_mod \<Longrightarrow> stream_at (wyMemoryInputStream_make bs (length bs) r) bs"
  by (simp add: stream_at_def wyMemoryInputStream_make_def)

lemma stream_at_left: "stream_at s cs \<Longrightarrow> in_position s + length cs = length (in_buffer s)"
  by (auto simp: stream_at_def)

lemma stream_at_advance:
  assumes "stream_at s (xs @ cs)"
  shows "stream_at (advance s (length xs)) cs"
proof -
  have "drop (in_position s + length xs) (in_buffer s) = drop (length xs) (drop (in_position s) (in_buffer s))"
    by (simp add: add.commute)
  also have "... = cs" using assms by (simp add: stream_at_def del: drop_drop)
  finally show ?thesis using stream_at_left [OF assms] assms by (simp add: stream_at_def advance_def)
qed

lemma sint_of_nat_small: "n < 2 ^ 31 \<Longrightarrow> sint (of_nat n :: 32 word) = int n"
  by (simp add: signed_of_nat signed_take_bit_int_eq_self)

lemma stream_read_at:
  assumes "stream_at s cs" "length cs < 2 ^ 31"
  shows "stream_read s n = Some (int (min n (length cs)), take n cs, advance s (min n (length cs)))"
proof -
  have av: "available s = length cs"
    using stream_at_left [OF assms(1)] assms by (simp add: available_def size_sub_le stream_at_def)
  have "cslice (in_buffer s) (in_position s) (min n (length cs)) = Some (take n cs)"
    using assms(1) stream_at_left [OF assms(1)] by (auto simp: cslice_def stream_at_def min_def)
  moreover have "(in_position s + min n (length cs)) mod size_mod = in_position s + min n (length cs)"
    using stream_at_left [OF assms(1)] assms(1) unfolding stream_at_def by (intro mod_less) linarith
  moreover have "min n (length cs) < 2 ^ 31" using assms(2) by simp
  ultimately show ?thesis using assms(2) by (simp add: stream_read_def av sint_of_nat_small advance_def Let_def del: min_less_iff_conj)
qed

lemma read_char_at: "stream_at s (b # cs) \<Longrightarrow> length cs < 2 ^ 31 - 1 \<Longrightarrow> read_char s a = Some (Some b, advance s 1)"
  by (simp add: read_char_def stream_read_at)

lemma seek_cur_at:
  assumes "stream_at s (xs @ cs)" "length xs < 2 ^ 31"
  shows "snd (in_seek s (int (length xs)) SEEK_CUR) = advance s (length xs)"
proof -
  have l: "in_position s + length xs \<le> in_length s" "in_length s < size_mod"
    using stream_at_left [OF assms(1)] assms(1) by (auto simp: stream_at_def)
  then have "size_add_int (in_position s) (int (length xs)) = in_position s + length xs"
    by (simp add: size_add_int_def nat_mod_distrib flip: of_nat_add)
  then show ?thesis using l by (simp add: in_seek_def advance_def Let_def)
qed

section \<open>The header\<close>

text \<open>Three bytes of identification and type, nine that are skipped, the sizes, the depth and the flags.\<close>

definition tga_header :: "bytes \<Rightarrow> byte \<Rightarrow> bytes \<Rightarrow> nat \<Rightarrow> nat \<Rightarrow> nat \<Rightarrow> byte \<Rightarrow> bytes" where
  "tga_header pre ty mid w h depth flags =
     pre @ ty # mid @ [of_nat (w mod 256), of_nat (w div 256), of_nat (h mod 256), of_nat (h div 256), of_nat depth, flags]"

lemma scast_byte: "scast (a :: byte) AND 0xff = (ucast a :: 32 word)"
proof -
  have "(0xff :: 32 word) = mask 8" by (simp add: mask_eq_exp_minus_1)
  then have "scast a AND 0xff = take_bit 8 (scast a :: 32 word)" by (simp only: take_bit_eq_mask)
  also have "... = ucast a" proof (rule bit_word_eqI)
    fix n
    have "bit a n \<Longrightarrow> n < 8" using bit_imp_le_length [of a n] by simp
    then show "bit (take_bit 8 (scast a :: 32 word)) n = bit (ucast a :: 32 word) n"
      by (cases "n < 7"; cases "n = 7") (auto simp: bit_simps min_def)
  qed
  finally show ?thesis .
qed

lemma char_pair: "char_pair a b = unat a + 256 * unat b"
proof -
  have "uint (ucast a OR push_bit 8 (ucast b) :: 32 word) = take_bit 8 (uint a) OR push_bit 8 (uint b)"
  proof (rule bit_eqI)
    fix n
    have "bit a n \<Longrightarrow> n < 8" "bit b (n - 8) \<Longrightarrow> n < 16"
      using bit_imp_le_length [of a n] bit_imp_le_length [of b "n - 8"] by auto
    then show "bit (uint (ucast a OR push_bit 8 (ucast b) :: 32 word)) n = bit (take_bit 8 (uint a) OR push_bit 8 (uint b)) n"
      by (auto simp: bit_simps)
  qed
  also have "... = uint a + 256 * uint b"
    using concat_bit_eq [of 8 "uint a" "uint b"] bintr_uint [of 8 a] by (simp add: concat_bit_def push_bit_eq_mult)
  finally show ?thesis unfolding char_pair_def scast_byte uint_nat by linarith
qed

lemma char_pair_split: "n < 65536 \<Longrightarrow> char_pair (of_nat (n mod 256)) (of_nat (n div 256)) = n"
  by (simp add: char_pair unat_of_nat)

lemma nth_five: "([a, b, c, d, e, f] @ cs) ! 5 = f"
  by (simp add: nth_append)

lemma loadHeader_at:
  assumes s: "stream_at s (tga_header pre ty mid w h depth flags @ cs)" and len: "length pre = 2" "length mid = 9"
    and size: "w < 65536" "h < 65536" "depth < 256" "length cs < 2 ^ 31 - 18"
  shows "\<exists>s1. loadHeader s tga = Some (s1, tga\<lparr>tga_type := ty, width := w, height := h, pixelDepth := depth,
      bytesPerPixel := depth div 8, flipped := flags AND 0x20 \<noteq> 0\<rparr>) \<and> stream_at s1 cs"
proof -
  let ?t = "[of_nat (w mod 256), of_nat (w div 256), of_nat (h mod 256), of_nat (h div 256), of_nat depth, flags] @ cs"
  define p where "p = advance s 2"
  define q where "q = advance (advance p 1) 9"
  define a where "a k = advance q k" for k
  have adv: "advance (advance q j) k = advance q (j + k)" for j k by (simp add: advance_def)
  have p: "snd (in_seek s 2 SEEK_CUR) = p" "stream_at p (ty # mid @ ?t)"
    using seek_cur_at [of s pre "ty # mid @ ?t"] stream_at_advance [of s pre "ty # mid @ ?t"] s len
    by (simp_all add: tga_header_def p_def)
  have t: "read_char p x = Some (Some ty, advance p 1)" for x
    by (rule read_char_at [OF p(2)]) (use len size in simp)
  have q: "snd (in_seek (advance p 1) 9 SEEK_CUR) = q" "stream_at q ?t"
    using stream_at_advance [of p "[ty]" "mid @ ?t"] p(2) seek_cur_at [of "advance p 1" mid ?t]
      stream_at_advance [of "advance p 1" mid ?t] len
    by (simp_all add: q_def)
  have at: "stream_at (advance q k) (drop k ?t)" if "k \<le> 6" for k
    using stream_at_advance [of q "take k ?t" "drop k ?t"] q(2) that by simp
  have r: "read_char (advance q k) x = Some (Some (?t ! k), advance q j)" if "k < 6" "j = k + 1" for k j x
  proof -
    have "drop k ?t = ?t ! k # drop (k + 1) ?t" using that(1) by (simp only: Suc_eq_plus1 [symmetric], intro Cons_nth_drop_Suc [symmetric]) simp
    then have "stream_at (advance q k) (?t ! k # drop (k + 1) ?t)" using at [of k] that(1) by (metis less_imp_le)
    then show ?thesis using read_char_at [of "advance q k" "?t ! k" "drop (k + 1) ?t" x] size that by (simp only: adv) simp
  qed
  have adv0: "advance q 0 = q" by (simp add: advance_def)
  have r0: "read_char q x = Some (Some (of_nat (w mod 256)), advance q 1)" for x
    using r [of 0 1 x] by (simp add: adv0)
  have r1: "read_char (advance q 1) x = Some (Some (of_nat (w div 256)), advance q 2)" for x
    using r [of 1 2 x] by (simp add: adv0)
  have r2: "read_char (advance q 2) x = Some (Some (of_nat (h mod 256)), advance q 3)" for x
    using r [of 2 3 x] by (simp add: adv0)
  have r3: "read_char (advance q 3) x = Some (Some (of_nat (h div 256)), advance q 4)" for x
    using r [of 3 4 x] by (simp add: adv0)
  have r4: "read_char (advance q 4) x = Some (Some (of_nat depth), advance q 5)" for x
    using r [of 4 5 x] by (simp add: adv0)
  have r5: "read_char (advance q 5) x = Some (Some (flags), advance q 6)" for x
  proof -
    have "?t ! 5 = flags" by (rule nth_five)
    moreover have "(6 :: nat) = 5 + 1" "(5 :: nat) < 6" by simp_all
    ultimately show ?thesis using r [of 5 6 x] by metis
  qed
  have "unat (scast (of_nat depth :: byte) AND 0xff :: 32 word) = depth"
    unfolding scast_byte using size(3) by (simp add: unat_of_nat unsigned_ucast_eq take_bit_nat_eq_self)
  then have "loadHeader s tga = Some (advance q 6, tga\<lparr>tga_type := ty, width := w, height := h, pixelDepth := depth,
      bytesPerPixel := depth div 8, flipped := flags AND 0x20 \<noteq> 0\<rparr>)"
    unfolding loadHeader_def
    by (simp only: p(1) t q(1) r0 r1 r2 r3 r4 r5 char_pair_split [OF size(1)] char_pair_split [OF size(2)] Let_def Option.bind.simps prod.case)
  then show ?thesis using at [of 6] by simp
qed

section \<open>Images as rows\<close>

lemma length_concat_same: "\<forall>r\<in>set rows. length r = n \<Longrightarrow> length (concat rows) = length rows * n"
  by (induction rows) auto

lemma take_concat_same: "\<forall>r\<in>set rows. length r = n \<Longrightarrow> take (y * n) (concat rows) = concat (take y rows)"
proof (induction rows arbitrary: y)
  case (Cons r rows)
  then show ?case by (cases y) auto
qed simp

lemma drop_concat_same: "\<forall>r\<in>set rows. length r = n \<Longrightarrow> drop (y * n) (concat rows) = concat (drop y rows)"
proof (induction rows arbitrary: y)
  case (Cons r rows)
  then show ?case by (cases y) auto
qed simp

lemma cslice_row:
  assumes "\<forall>r\<in>set rows. length r = n" "y < length rows"
  shows "cslice (concat rows) (y * n) n = Some (rows ! y)"
proof -
  have "rows ! y \<in> set rows" using assms(2) by simp
  then have n: "length (rows ! y) = n" using assms(1) by blast
  have "drop (y * n) (concat rows) = rows ! y @ concat (drop (Suc y) rows)"
    using drop_concat_same [OF assms(1)] assms(2) by (metis Cons_nth_drop_Suc concat.simps(2))
  moreover have "y * n + n \<le> length rows * n" using assms(2) by (metis Suc_leI add.commute mult_Suc mult_le_mono1)
  ultimately show ?thesis using n by (auto simp: cslice_def length_concat_same [OF assms(1)])
qed

lemma write_row:
  assumes "\<forall>r\<in>set rows. length r = n" "y < length rows" "length r = n"
  shows "mem_write (concat rows) (y * n) r = Some (concat (rows[y := r]))"
proof -
  have "y * n + n \<le> length rows * n" using assms(2) by (metis Suc_leI add.commute mult_Suc mult_le_mono1)
  moreover have "drop (y * n + n) (concat rows) = concat (drop (Suc y) rows)"
    using drop_concat_same [OF assms(1), of "Suc y"] by (simp add: add.commute)
  ultimately show ?thesis using assms
    by (simp add: mem_write_def length_concat_same [OF assms(1)] take_concat_same [OF assms(1)] upd_conv_take_nth_drop)
qed

lemma flip_row_rows:
  assumes "\<forall>r\<in>set rows. length r = n" "y < length rows"
  shows "flip_row n (length rows) y (concat rows) =
    Some (concat (rows[y := rows ! (length rows - (y + 1)), length rows - (y + 1) := rows ! y]))"
proof -
  let ?z = "length rows - (y + 1)"
  have z: "?z < length rows" using assms(2) by simp
  have len: "length (rows ! i) = n" if "i < length rows" for i using assms(1) that by simp
  have "\<forall>r\<in>set (rows[y := rows ! ?z]). length r = n"
    using assms(1) len [OF z] set_update_subset_insert [of rows y "rows ! ?z"] by blast
  then show ?thesis
    using write_row [of "rows[y := rows ! ?z]" n ?z "rows ! y"] write_row [OF assms(1,2) len [OF z]]
      cslice_row [OF assms] cslice_row [OF assms(1) z] len [OF assms(2)] z
    by (simp add: flip_row_def)
qed

lemma flip_rows_rows:
  assumes "\<forall>r\<in>set rows. length r = n" "length rows = h"
  shows "flip_rows n h y (concat rows) =
    Some (concat (map (\<lambda>i. if y \<le> i \<and> i < h - y then rows ! (h - (i + 1)) else rows ! i) [0..<h]))"
  using assms
proof (induction "h - y" arbitrary: y rows rule: less_induct)
  case less
  show ?case
  proof (cases "y < h div 2")
    case False
    have "(if y \<le> i \<and> i < h - y then rows ! (h - (i + 1)) else rows ! i) = rows ! i" for i
    proof (cases "y \<le> i \<and> i < h - y")
      case True
      then have "h - (i + 1) = i" using False by linarith
      then show ?thesis by simp
    qed (simp only: if_False)
    then have "map (\<lambda>i. if y \<le> i \<and> i < h - y then rows ! (h - (i + 1)) else rows ! i) [0..<h] = rows"
      using less.prems(2) map_nth [of rows] by simp
    then show ?thesis using False by (subst flip_rows.simps) simp
  next
    case True
    let ?rows = "rows[y := rows ! (h - (y + 1)), h - (y + 1) := rows ! y]"
    have y: "y < length rows" "h - (y + 1) < length rows" using True less.prems(2) by linarith+
    then have "set ?rows \<subseteq> set rows"
      by (intro order_trans [OF set_update_subset_insert] insert_subsetI nth_mem order_trans [OF set_update_subset_insert]) simp_all
    then have all: "\<forall>r\<in>set ?rows. length r = n" using less.prems(1) by blast
    have "flip_rows n h y (concat rows) = flip_rows n h (y + 1) (concat ?rows)"
      using True flip_row_rows [OF less.prems(1) y(1)] less.prems(2) by (subst flip_rows.simps) simp
    also have "... = Some (concat (map (\<lambda>i. if y + 1 \<le> i \<and> i < h - (y + 1) then ?rows ! (h - (i + 1)) else ?rows ! i) [0..<h]))"
      using less.hyps [of "y + 1" ?rows] all True less.prems(2) by simp
    also have "map (\<lambda>i. if y + 1 \<le> i \<and> i < h - (y + 1) then ?rows ! (h - (i + 1)) else ?rows ! i) [0..<h] =
        map (\<lambda>i. if y \<le> i \<and> i < h - y then rows ! (h - (i + 1)) else rows ! i) [0..<h]"
    proof (intro map_cong refl)
      fix i
      assume "i \<in> set [0..<h]"
      then have i: "i < h" by simp
      show "(if y + 1 \<le> i \<and> i < h - (y + 1) then ?rows ! (h - (i + 1)) else ?rows ! i) =
          (if y \<le> i \<and> i < h - y then rows ! (h - (i + 1)) else rows ! i)"
        using i True less.prems(2) by (auto simp: nth_list_update)
    qed
    finally show ?thesis .
  qed
qed

lemma flip_rows_rev:
  assumes "\<forall>r\<in>set rows. length r = n" "length rows = h"
  shows "flip_rows n h 0 (concat rows) = Some (concat (rev rows))"
proof -
  have "map (\<lambda>i. if 0 \<le> i \<and> i < h - 0 then rows ! (h - (i + 1)) else rows ! i) [0..<h] = rev rows"
    using assms(2) by (intro nth_equalityI) (auto simp: rev_nth)
  then show ?thesis using flip_rows_rows [OF assms, of 0] by simp
qed

section \<open>Plain images\<close>

text \<open>Swapping the first and the third byte of a pixel.\<close>

definition swap_bgr :: "'a list \<Rightarrow> 'a list" where
  "swap_bgr px = px[0 := px ! 2, 2 := px ! 0]"

lemma swap_pixels_px:
  assumes "3 \<le> n" "\<forall>px\<in>set pxs. length px = n" "length pre = i"
  shows "swap_pixels n (i + n * length pxs) i (pre @ concat pxs) = Some (pre @ concat (map swap_bgr pxs))"
  using assms(2,3)
proof (induction pxs arbitrary: pre i)
  case Nil
  then show ?case by (subst swap_pixels.simps) simp
next
  case (Cons px pxs)
  have px: "length px = n" using Cons.prems(1) by simp
  have at: "(pre @ px @ xs) ! (i + k) = px ! k" if "k < n" for k and xs :: "byte option list"
    using that px Cons.prems(2) by (simp add: nth_append)
  have "swap_pixels n (i + n * length (px # pxs)) i (pre @ concat (px # pxs)) =
      swap_pixels n (i + n * length (px # pxs)) (i + n) ((pre @ swap_bgr px) @ concat pxs)"
  proof -
    have "(pre @ px @ concat pxs)[i := px ! 2, i + 2 := px ! 0] = pre @ swap_bgr px @ concat pxs"
      using px Cons.prems(2) assms(1) by (simp add: list_update_append swap_bgr_def)
    then show ?thesis
      using px Cons.prems(2) assms(1) at [of 0 "concat pxs"] at [of 2 "concat pxs"]
      by (subst swap_pixels.simps) simp
  qed
  also have "... = Some ((pre @ swap_bgr px) @ concat (map swap_bgr pxs))"
  proof -
    have "length (pre @ swap_bgr px) = i + n" using px Cons.prems(2) by (simp add: swap_bgr_def)
    then show ?thesis using Cons.IH [of "pre @ swap_bgr px" "i + n"] Cons.prems(1) by (simp add: add.assoc)
  qed
  finally show ?case by simp
qed

section \<open>Run length encoding\<close>

text \<open>Packets of up to 128 pixels, each given in turn, or of one pixel that is repeated.\<close>

datatype packet = Raw "bytes list" | Run nat bytes

fun packet_pixels :: "packet \<Rightarrow> bytes list" where
  "packet_pixels (Raw pxs) = pxs"
| "packet_pixels (Run k px) = replicate k px"

fun packet_bytes :: "packet \<Rightarrow> bytes" where
  "packet_bytes (Raw pxs) = of_nat (length pxs - 1) # concat pxs"
| "packet_bytes (Run k px) = of_nat (k + 127) # px"

definition packet_ok :: "nat \<Rightarrow> packet \<Rightarrow> bool" where
  "packet_ok n p \<longleftrightarrow> packet_pixels p \<noteq> [] \<and> length (packet_pixels p) \<le> 128 \<and> (\<forall>px\<in>set (packet_pixels p). length px = n)"

text \<open>What becomes of a pixel: the colours are swapped, the alpha byte is left unset.\<close>

definition rle_cell :: "nat \<Rightarrow> bytes \<Rightarrow> cells" where
  "rle_cell n px = [Some (px ! 2), Some (px ! 1), Some (px ! 0)] @ replicate (n - 3) None"

definition rle_ok :: "nat \<Rightarrow> nat \<Rightarrow> bytes list \<Rightarrow> bytes \<Rightarrow> rle \<Rightarrow> bool" where
  "rle_ok n tot pxs cs st \<longleftrightarrow>
     stream_at (rle_in st) cs \<and> length (rle_buf st) = 4 \<and> rle_pixel st = length pxs \<and> rle_bytes st = n * length pxs \<and>
     length pxs \<le> tot \<and> rle_img st = concat (map (rle_cell n) pxs) @ replicate (n * (tot - length pxs)) None"

lemma length_rle_cell: "3 \<le> n \<Longrightarrow> length (rle_cell n px) = n"
  by (simp add: rle_cell_def)

lemma length_cells: "3 \<le> n \<Longrightarrow> length (concat (map (rle_cell n) pxs)) = n * length pxs"
  using length_concat_same [of "map (rle_cell n) pxs" n] by (simp add: length_rle_cell mult.commute)

lemma put_pixel_ok:
  assumes n: "3 \<le> n" "n \<le> 4" and ok: "rle_ok n tot pxs cs st" and buf: "take n (rle_buf st) = px"
  shows "length pxs < tot \<Longrightarrow> \<exists>st'. put_pixel n tot st = Some (True, st') \<and> rle_ok n tot (pxs @ [px]) cs st' \<and> rle_buf st' = rle_buf st"
    and "length pxs = tot \<Longrightarrow> put_pixel n tot st = None"
proof -
  let ?pre = "concat (map (rle_cell n) pxs)"
  have st: "rle_pixel st = length pxs" "rle_bytes st = length ?pre" "length (rle_buf st) = 4"
    "rle_img st = ?pre @ replicate (n * (tot - length pxs)) None"
    using ok length_cells [OF n(1)] by (auto simp: rle_ok_def)
  have b: "rle_buf st ! k = px ! k" if "k < 3" for k using buf n(1) that by auto
  {
    assume less: "length pxs < tot"
    obtain m where m: "tot - length pxs = Suc m" using less by (metis Suc_diff_Suc)
    have img: "rle_img st = ?pre @ [None, None, None] @ replicate (n - 3) None @ replicate (n * m) None"
    proof -
      have "n * Suc m = 3 + ((n - 3) + n * m)" using n(1) by simp
      then have "replicate (n * Suc m) (None :: byte option) = replicate 3 None @ replicate (n - 3) None @ replicate (n * m) None"
        by (simp only: replicate_add)
      then show ?thesis unfolding st(4) m by (simp add: eval_nat_numeral)
    qed
    have "put_pixel n tot st = Some (True, st\<lparr>rle_img := ?pre @ rle_cell n px @ replicate (n * m) None,
        rle_bytes := rle_bytes st + n, rle_pixel := rle_pixel st + 1\<rparr>)"
      using less st(1,2,3) b [of 0] b [of 1] b [of 2]
      by (simp add: put_pixel_def img wr_def rle_cell_def list_update_append Option.bind_def)
    moreover have "tot - length (pxs @ [px]) = m" using m by simp
    ultimately show "\<exists>st'. put_pixel n tot st = Some (True, st') \<and> rle_ok n tot (pxs @ [px]) cs st' \<and> rle_buf st' = rle_buf st"
      using ok less unfolding rle_ok_def by (intro exI conjI) (assumption, simp_all)
  }
  assume "length pxs = tot"
  then have "rle_img st = ?pre" using st(4) by simp
  then show "put_pixel n tot st = None" using st(2,3) by (simp add: put_pixel_def wr_def)
qed

lemma read_pixel_ok:
  assumes n: "3 \<le> n" "n \<le> 4" and ok: "rle_ok n tot pxs (px @ cs) st" and px: "length px = n" and len: "length (px @ cs) < 2 ^ 31"
  shows "\<exists>st'. read_pixel n st = Some (True, st') \<and> rle_ok n tot pxs cs st' \<and> take n (rle_buf st') = px"
proof -
  have at: "stream_at (rle_in st) (px @ cs)" "length (rle_buf st) = 4" using ok by (auto simp: rle_ok_def)
  have "stream_read (rle_in st) n = Some (int n, px, advance (rle_in st) n)"
    using stream_read_at [OF at(1) len, of n] px by simp
  moreover have "mem_write (rle_buf st) 0 px = Some (px @ drop n (rle_buf st))" using at(2) px n(2) by (simp add: mem_write_def)
  ultimately have "read_pixel n st = Some (True, st\<lparr>rle_in := advance (rle_in st) n, rle_buf := px @ drop n (rle_buf st)\<rparr>)"
    by (simp add: read_pixel_def)
  then show ?thesis using ok px n(2) stream_at_advance [OF at(1)] by (simp add: rle_ok_def)
qed

lemma rle_raw_ok:
  assumes n: "3 \<le> n" "n \<le> 4" and "rle_ok n tot pxs (concat new @ cs) st" "\<forall>px\<in>set new. length px = n"
    and "length (concat new @ cs) < 2 ^ 31"
  shows "(length pxs + length new \<le> tot \<longrightarrow> (\<exists>st'. rle_raw n tot (length new) st = Some (True, st') \<and> rle_ok n tot (pxs @ new) cs st')) \<and>
    (tot < length pxs + length new \<longrightarrow> rle_raw n tot (length new) st = None)"
  using assms(3-5)
proof (induction new arbitrary: pxs st)
  case Nil
  then show ?case by (auto simp: rle_ok_def)
next
  case (Cons px new)
  obtain st1 where st1: "read_pixel n st = Some (True, st1)" "rle_ok n tot pxs (concat new @ cs) st1" "take n (rle_buf st1) = px"
    using read_pixel_ok [OF n, of tot pxs px "concat new @ cs" st] Cons.prems by auto
  show ?case
  proof (cases "length pxs < tot")
    case True
    then obtain st2 where "put_pixel n tot st1 = Some (True, st2)" "rle_ok n tot (pxs @ [px]) (concat new @ cs) st2"
      using put_pixel_ok(1) [OF n st1(2,3)] by blast
    then show ?thesis using Cons.IH [of "pxs @ [px]" st2] Cons.prems st1(1) by simp
  next
    case False
    then have "length pxs = tot" using st1(2) by (simp add: rle_ok_def)
    then show ?thesis using put_pixel_ok(2) [OF n st1(2,3)] st1(1) by simp
  qed
qed

lemma rle_run_ok:
  assumes n: "3 \<le> n" "n \<le> 4" and "rle_ok n tot pxs cs st" "take n (rle_buf st) = px"
  shows "(length pxs + k \<le> tot \<longrightarrow> (\<exists>st'. rle_run n tot k st = Some (True, st') \<and> rle_ok n tot (pxs @ replicate k px) cs st')) \<and>
    (tot < length pxs + k \<longrightarrow> rle_run n tot k st = None)"
  using assms(3,4)
proof (induction k arbitrary: pxs st)
  case 0
  then show ?case by (auto simp: rle_ok_def)
next
  case (Suc k)
  show ?case
  proof (cases "length pxs < tot")
    case True
    then obtain st2 where "put_pixel n tot st = Some (True, st2)" "rle_ok n tot (pxs @ [px]) cs st2" "rle_buf st2 = rle_buf st"
      using put_pixel_ok(1) [OF n Suc.prems] by blast
    then show ?thesis using Suc.IH [of "pxs @ [px]" st2] Suc.prems(2) by simp
  next
    case False
    then have "length pxs = tot" using Suc.prems(1) by (simp add: rle_ok_def)
    then show ?thesis using put_pixel_ok(2) [OF n Suc.prems] by simp
  qed
qed

lemma unat_scast_byte: "k < 256 \<Longrightarrow> unat (scast (of_nat k :: byte) AND 0xff :: 32 word) = k"
  unfolding scast_byte by (simp add: unat_of_nat unsigned_ucast_eq take_bit_nat_eq_self)

lemma rle_packet_ok:
  assumes n: "3 \<le> n" "n \<le> 4" and p: "packet_ok n p" and ok: "rle_ok n tot pxs (packet_bytes p @ cs) st"
    and len: "length (packet_bytes p @ cs) < 2 ^ 31"
  shows "\<exists>c bs. packet_bytes p = c # bs \<and> read_char (rle_in st) a = Some (Some c, advance (rle_in st) 1) \<and>
    (length pxs + length (packet_pixels p) \<le> tot \<longrightarrow>
       (\<exists>st'. rle_packet n tot c (st\<lparr>rle_in := advance (rle_in st) 1\<rparr>) = Some (True, st') \<and> rle_ok n tot (pxs @ packet_pixels p) cs st')) \<and>
    (tot < length pxs + length (packet_pixels p) \<longrightarrow> rle_packet n tot c (st\<lparr>rle_in := advance (rle_in st) 1\<rparr>) = None)"
proof -
  let ?st = "st\<lparr>rle_in := advance (rle_in st) 1\<rparr>"
  have at: "stream_at (rle_in st) (packet_bytes p @ cs)" using ok by (simp add: rle_ok_def)
  have step: "read_char (rle_in st) a = Some (Some c, advance (rle_in st) 1) \<and> rle_ok n tot pxs (bs @ cs) ?st" if "packet_bytes p = c # bs" for c bs
  proof -
    have at: "stream_at (rle_in st) ([c] @ (bs @ cs))" using at that by simp
    have "read_char (rle_in st) a = Some (Some c, advance (rle_in st) 1)" using read_char_at [of "rle_in st" c "bs @ cs"] at len that by simp
    then show ?thesis using ok stream_at_advance [OF at] by (simp add: rle_ok_def)
  qed
  show ?thesis
  proof (cases p)
    case (Raw new)
    then have new: "new \<noteq> []" "length new \<le> 128" "\<forall>px\<in>set new. length px = n" using p by (auto simp: packet_ok_def)
    then have "rle_packet n tot (of_nat (length new - 1)) ?st = rle_raw n tot (length new) ?st"
      by (cases new) (simp_all add: rle_packet_def unat_scast_byte)
    then show ?thesis
      using step [of "of_nat (length new - 1)" "concat new"] rle_raw_ok [OF n, of tot pxs new cs ?st] new(3) len Raw
      by (intro exI [of _ "of_nat (length new - 1)"] exI [of _ "concat new"]) auto
  next
    case (Run k px)
    then have k: "0 < k" "k \<le> 128" "length px = n" using p by (auto simp: packet_ok_def)
    have s: "rle_ok n tot pxs (px @ cs) ?st" using step [of "of_nat (k + 127)" px] Run by simp
    obtain st1 where st1: "read_pixel n ?st = Some (True, st1)" "rle_ok n tot pxs cs st1" "take n (rle_buf st1) = px"
      using read_pixel_ok [OF n s k(3)] len Run by auto
    have "rle_packet n tot (of_nat (k + 127)) ?st = rle_run n tot k st1"
      using k st1(1) unat_scast_byte [of "k + 127"] by (simp add: rle_packet_def del: of_nat_add)
    then show ?thesis
      using step [of "of_nat (k + 127)" px] rle_run_ok [OF n st1(2,3), of k] Run
      by (intro exI [of _ "of_nat (k + 127)"] exI [of _ px]) auto
  qed
qed

lemma rle_loop_ok:
  assumes n: "3 \<le> n" "n \<le> 4" and "\<forall>p\<in>set ps. packet_ok n p" "rle_ok n tot pxs (concat (map packet_bytes ps) @ cs) st"
    and "length (concat (map packet_bytes ps) @ cs) < 2 ^ 31"
    and "length pxs + length (concat (map packet_pixels ps)) = tot"
  shows "\<exists>st'. rle_loop n tot a st = Some (True, st') \<and> rle_ok n tot (pxs @ concat (map packet_pixels ps)) cs st'"
  using assms(3-6)
proof (induction ps arbitrary: pxs st a)
  case Nil
  then have "rle_pixel st = tot" by (simp add: rle_ok_def)
  then show ?case using Nil by (subst rle_loop.simps) simp
next
  case (Cons p ps)
  let ?cs = "concat (map packet_bytes ps) @ cs"
  have p: "packet_ok n p" "rle_ok n tot pxs (packet_bytes p @ ?cs) st" "length (packet_bytes p @ ?cs) < 2 ^ 31" using Cons.prems by simp_all
  have "0 < length (packet_pixels p)" using p(1) by (simp add: packet_ok_def)
  then have "length pxs < tot" using Cons.prems(4) unfolding list.map concat.simps length_append by linarith
  then have less: "rle_pixel st < tot" using p(2) by (simp add: rle_ok_def)
  obtain c st1 where c: "read_char (rle_in st) a = Some (Some c, advance (rle_in st) 1)"
    "rle_packet n tot c (st\<lparr>rle_in := advance (rle_in st) 1\<rparr>) = Some (True, st1)" "rle_ok n tot (pxs @ packet_pixels p) ?cs st1"
    using rle_packet_ok [OF n p, of a] Cons.prems(4) by auto
  have "\<exists>st'. rle_loop n tot (Some c) st1 = Some (True, st') \<and> rle_ok n tot ((pxs @ packet_pixels p) @ concat (map packet_pixels ps)) cs st'"
    using Cons.IH [of "pxs @ packet_pixels p" st1 "Some c"] Cons.prems c(3) by simp
  moreover have "rle_loop n tot a st = rle_loop n tot (Some c) st1"
    using less c by (subst rle_loop.simps) simp
  ultimately show ?case by simp
qed

lemma rle_loop_overrun:
  assumes n: "3 \<le> n" "n \<le> 4" and "\<forall>p\<in>set (ps @ [p]). packet_ok n p"
    "rle_ok n tot pxs (concat (map packet_bytes (ps @ [p])) @ cs) st" "length (concat (map packet_bytes (ps @ [p])) @ cs) < 2 ^ 31"
    and "length pxs + length (concat (map packet_pixels ps)) < tot"
    and "tot < length pxs + length (concat (map packet_pixels (ps @ [p])))"
  shows "rle_loop n tot a st = None"
  using assms(3-7)
proof (induction ps arbitrary: pxs st a)
  case Nil
  then have "packet_ok n p" "rle_ok n tot pxs (packet_bytes p @ cs) st" "length (packet_bytes p @ cs) < 2 ^ 31" "rle_pixel st < tot"
    by (simp_all add: rle_ok_def)
  then show ?case using rle_packet_ok [OF n, of p tot pxs cs st a] Nil.prems(5) by (subst rle_loop.simps) auto
next
  case (Cons q ps)
  let ?cs = "concat (map packet_bytes (ps @ [p])) @ cs"
  have q: "packet_ok n q" "rle_ok n tot pxs (packet_bytes q @ ?cs) st" "length (packet_bytes q @ ?cs) < 2 ^ 31" using Cons.prems by simp_all
  have less: "rle_pixel st < tot" using Cons.prems(2,4) by (simp add: rle_ok_def)
  obtain c st1 where c: "read_char (rle_in st) a = Some (Some c, advance (rle_in st) 1)"
    "rle_packet n tot c (st\<lparr>rle_in := advance (rle_in st) 1\<rparr>) = Some (True, st1)" "rle_ok n tot (pxs @ packet_pixels q) ?cs st1"
    using rle_packet_ok [OF n q, of a] Cons.prems(4) by auto
  have "rle_loop n tot (Some c) st1 = None"
    using Cons.IH [of "pxs @ packet_pixels q" st1 "Some c"] Cons.prems c(3) by simp
  then show ?case using less c by (subst rle_loop.simps) simp
qed

section \<open>Loading\<close>

text \<open>The order of the rows in memory.\<close>

definition tga_rows :: "byte \<Rightarrow> 'a list \<Rightarrow> 'a list" where
  "tga_rows flags rows = (if flags AND 0x20 \<noteq> 0 then rev rows else rows)"

lemma flipImage_rows:
  assumes "imageData tga = Some (concat rows)" "length rows = height tga" "\<forall>r\<in>set rows. length r = width tga * bytesPerPixel tga"
    "width tga * bytesPerPixel tga < 2 ^ 31"
  shows "flipImage tga = Some (tga\<lparr>imageData := Some (concat (rev rows)), flipped := False\<rparr>)"
  using flip_rows_rev [OF assms(3,2)] assms(1,4) by (simp add: flipImage_def int_result_def)

lemma loadImageData_at:
  assumes s: "stream_at s (concat pxs @ rest)" "length (concat pxs @ rest) < 2 ^ 31"
    and pxs: "\<forall>px\<in>set pxs. length px = n" "length pxs = height tga * width tga" "bytesPerPixel tga = n" "3 \<le> n"
    and img: "imageData tga = Some (replicate (height tga * width tga * n) None)"
  shows "\<exists>s1. loadImageData s tga = Some (True, s1, tga\<lparr>imageData := Some (map Some (concat (map swap_bgr pxs)))\<rparr>)"
proof -
  let ?t = "height tga * width tga * n"
  have t: "length (concat pxs) = ?t" using length_concat_same [OF pxs(1)] pxs(2) by simp
  have small: "?t < 2 ^ 31" using s(2) t by simp
  then have "height tga * width tga < 2 ^ 31" using le_less_trans [OF mult_le_mono2 [of 1 n "height tga * width tga"]] pxs(4) by simp
  then have i: "int_result (height tga * width tga) = Some (height tga * width tga)" "int_result ?t = Some ?t"
    using small by (simp_all add: int_result_def)
  have r: "stream_read s ?t = Some (int ?t, concat pxs, advance s ?t)"
    using stream_read_at [OF s, of ?t] t by (simp add: min_def)
  have m: "mem_write (replicate ?t None) 0 (map Some (concat pxs)) = Some (map Some (concat pxs))"
    using t by (simp add: mem_write_def)
  have "swap_pixels n (0 + n * length (map (map Some) pxs)) 0 ([] @ concat (map (map Some) pxs)) =
      Some ([] @ concat (map swap_bgr (map (map Some) pxs)))"
    by (rule swap_pixels_px [OF pxs(4)]) (use pxs(1) in auto)
  moreover have "map swap_bgr (map (map Some) pxs) = map (map Some) (map swap_bgr pxs)"
    using pxs(1,4) by (simp add: swap_bgr_def map_update)
  ultimately have w: "swap_pixels n ?t 0 (map Some (concat pxs)) = Some (map Some (concat (map swap_bgr pxs)))"
    using pxs(2) by (simp only: map_concat length_map add_0 append_Nil mult.commute)
  show ?thesis using i r m w img pxs(3,4) by (simp add: loadImageData_def)
qed

lemma loadRLEImageData_at:
  assumes s: "stream_at s (concat (map packet_bytes ps) @ rest)" "length (concat (map packet_bytes ps) @ rest) < 2 ^ 31"
    and n: "3 \<le> n" "n \<le> 4" "bytesPerPixel tga = n" and small: "height tga * width tga < 2 ^ 31"
    and img: "imageData tga = Some (replicate (height tga * width tga * n) None)"
  shows "\<forall>p\<in>set ps. packet_ok n p \<Longrightarrow> length (concat (map packet_pixels ps)) = height tga * width tga \<Longrightarrow>
      \<exists>s1. loadRLEImageData s tga = Some (True, s1, tga\<lparr>imageData := Some (concat (map (rle_cell n) (concat (map packet_pixels ps))))\<rparr>)"
    and "ps = qs @ [q] \<Longrightarrow> \<forall>p\<in>set ps. packet_ok n p \<Longrightarrow> length (concat (map packet_pixels qs)) < height tga * width tga \<Longrightarrow>
      height tga * width tga < length (concat (map packet_pixels ps)) \<Longrightarrow> loadRLEImageData s tga = None"
proof -
  let ?t = "height tga * width tga"
  let ?st = "\<lparr>rle_in = s, rle_buf = [0, 0, 0, 0], rle_img = replicate (?t * n) None, rle_bytes = 0, rle_pixel = 0\<rparr>"
  have ok: "rle_ok n ?t [] (concat (map packet_bytes ps) @ rest) ?st" using s(1) by (simp add: rle_ok_def mult.commute)
  have def: "loadRLEImageData s tga =
      Option.bind (rle_loop n ?t None ?st) (\<lambda>(ok, st). Some (ok, rle_in st, tga\<lparr>imageData := Some (rle_img st)\<rparr>))"
    using small img n(3) by (simp add: loadRLEImageData_def int_result_def)
  {
    assume "\<forall>p\<in>set ps. packet_ok n p" "length (concat (map packet_pixels ps)) = ?t"
    then show "\<exists>s1. loadRLEImageData s tga = Some (True, s1, tga\<lparr>imageData := Some (concat (map (rle_cell n) (concat (map packet_pixels ps))))\<rparr>)"
      using rle_loop_ok [OF n(1,2) _ ok s(2), of None] unfolding def by (auto simp: rle_ok_def)
  }
  assume "ps = qs @ [q]" "\<forall>p\<in>set ps. packet_ok n p" "length (concat (map packet_pixels qs)) < ?t" "?t < length (concat (map packet_pixels ps))"
  then have "rle_loop n ?t None ?st = None" using rle_loop_overrun [OF n(1,2), of qs q ?t "[]" rest ?st None] ok s(2) by simp
  then show "loadRLEImageData s tga = None" by (simp add: def)
qed

text \<open>The load of a file with a good header, by what the image loaders give.\<close>

lemma tga_load_done:
  fixes w h depth :: nat and ty flags :: byte
  defines "n \<equiv> depth div 8"
  defines "tga \<equiv> wyTGA_calloc\<lparr>tga_type := ty, width := w, height := h, pixelDepth := depth, bytesPerPixel := n,
      flipped := flags AND 0x20 \<noteq> 0, imageData := Some (replicate (h * w * n) None)\<rparr>"
  assumes len: "length pre = 2" "length mid = 9" "w < 65536" "h < 65536" "depth < 256" "length cs < 2 ^ 31 - 18"
    and size: "h * w * n < 2 ^ 31" "3 \<le> n" and ty: "ty = 2 \<or> ty = 3 \<or> ty = 10"
  shows "(\<And>s1. stream_at s1 cs \<Longrightarrow> (if ty = 10 then loadRLEImageData s1 tga else loadImageData s1 tga) = None) \<Longrightarrow>
      tga_file (tga_header pre ty mid w h depth flags @ cs) = None"
    and "(\<And>s1. stream_at s1 cs \<Longrightarrow> \<exists>s2. (if ty = 10 then loadRLEImageData s1 tga else loadImageData s1 tga) =
           Some (True, s2, tga\<lparr>imageData := Some (concat rows)\<rparr>)) \<Longrightarrow>
      length rows = h \<Longrightarrow> \<forall>r\<in>set rows. length r = w * n \<Longrightarrow>
      \<exists>tga. tga_file (tga_header pre ty mid w h depth flags @ cs) = Some tga \<and> status tga = TGA_OK \<and> width tga = w \<and> height tga = h \<and>
        bytesPerPixel tga = n \<and> imageData tga = Some (concat (tga_rows flags rows))"
proof -
  let ?bs = "tga_header pre ty mid w h depth flags @ cs"
  let ?s = "wyMemoryInputStream_make ?bs (length ?bs) False"
  have "length ?bs < size_mod" using len by (simp add: tga_header_def)
  then have "stream_at ?s ?bs" using stream_at_make by blast
  then obtain s1 where s1: "loadHeader ?s wyTGA_calloc = Some (s1, wyTGA_calloc\<lparr>tga_type := ty, width := w, height := h,
      pixelDepth := depth, bytesPerPixel := n, flipped := flags AND 0x20 \<noteq> 0\<rparr>)" "stream_at s1 cs"
    using loadHeader_at len unfolding n_def by blast
  have "h * w < 2 ^ 31" using le_less_trans [OF mult_le_mono2 [of 1 n "h * w"] size(1)] size(2) by simp
  then have i: "int_result (h * w) = Some (h * w)" "int_result (h * w * n) = Some (h * w * n)"
    using size(1) by (simp_all add: int_result_def)
  have load: "tga_load ?s wyTGA_calloc = Option.bind (if ty = 10 then loadRLEImageData s1 tga else loadImageData s1 tga)
     (\<lambda>(ok, s2, tga2). if \<not> ok then Some (s2, tga2\<lparr>status := TGA_ERROR_READING_FILE\<rparr>)
        else let tga3 = tga2\<lparr>status := TGA_OK\<rparr> in
             if flipped tga3
             then Option.bind (flipImage tga3) (\<lambda>tga4. Some (s2, if flipped tga4 then tga4\<lparr>status := TGA_ERROR_MEMORY\<rparr> else tga4))
             else Some (s2, tga3))"
    using s1(1) i ty by (auto simp: tga_load_def tga_def)
  {
    assume "\<And>s1. stream_at s1 cs \<Longrightarrow> (if ty = 10 then loadRLEImageData s1 tga else loadImageData s1 tga) = None"
    then have "tga_load ?s wyTGA_calloc = None" unfolding load using s1(2) by simp
    then show "tga_file ?bs = None" by (simp add: tga_file_def)
  }
  assume loaded: "\<And>s1. stream_at s1 cs \<Longrightarrow> \<exists>s2. (if ty = 10 then loadRLEImageData s1 tga else loadImageData s1 tga) =
      Some (True, s2, tga\<lparr>imageData := Some (concat rows)\<rparr>)"
    and rows: "length rows = h" "\<forall>r\<in>set rows. length r = w * n"
  obtain s2 where s2: "(if ty = 10 then loadRLEImageData s1 tga else loadImageData s1 tga) =
      Some (True, s2, tga\<lparr>imageData := Some (concat rows)\<rparr>)" using loaded [OF s1(2)] by blast
  let ?tga3 = "tga\<lparr>imageData := Some (concat rows), status := TGA_OK\<rparr>"
  have "n < 256" using len(5) by (simp add: n_def)
  then have "w * n \<le> 65535 * 255" using len(3) by (intro mult_le_mono) simp_all
  then have flip: "flipImage ?tga3 = Some (?tga3\<lparr>imageData := Some (concat (rev rows)), flipped := False\<rparr>)"
    using rows by (intro flipImage_rows) (simp_all add: tga_def)
  show "\<exists>tga. tga_file ?bs = Some tga \<and> status tga = TGA_OK \<and> width tga = w \<and> height tga = h \<and>
        bytesPerPixel tga = n \<and> imageData tga = Some (concat (tga_rows flags rows))"
  proof (cases "flags AND 0x20 = 0")
    case True
    then have "tga_load ?s wyTGA_calloc = Some (s2, ?tga3)" unfolding load s2 by (simp add: tga_def)
    then show ?thesis using True by (simp add: tga_file_def tga_def tga_rows_def)
  next
    case False
    then have "flipped ?tga3" by (simp add: tga_def)
    then have "tga_load ?s wyTGA_calloc = Some (s2, ?tga3\<lparr>imageData := Some (concat (rev rows)), flipped := False\<rparr>)"
      unfolding load s2 using flip by (simp add: Let_def)
    then show ?thesis using False by (simp add: tga_file_def tga_def tga_rows_def)
  qed
qed

lemma concat_rows: "concat (concat (map (map f) rows)) = concat (map (\<lambda>row. concat (map f row)) rows)"
  by (induction rows) auto

text \<open>
  C33: A file of an uncompressed image loads: behind the 18 bytes of the header come the rows of pixels of three or
  more bytes each, and the image has them with the first and third byte of every pixel swapped, the rows in
  reverse order if the flag says so.
\<close>

theorem tga_plain_loads:
  assumes "length pre = 2" "length mid = 9" "ty = 2 \<or> ty = 3" "w < 65536" "h < 65536" "depth < 256" "3 \<le> depth div 8"
    and rows: "length rows = h" "\<forall>row\<in>set rows. length row = w \<and> (\<forall>px\<in>set row. length px = depth div 8)"
    and len: "length (concat (concat rows) @ rest) < 2 ^ 31 - 18"
  shows "\<exists>tga. tga_file (tga_header pre ty mid w h depth flags @ concat (concat rows) @ rest) = Some tga \<and> status tga = TGA_OK \<and>
    width tga = w \<and> height tga = h \<and> bytesPerPixel tga = depth div 8 \<and>
    imageData tga = Some (concat (tga_rows flags (map (\<lambda>row. map Some (concat (map swap_bgr row))) rows)))"
proof (rule tga_load_done(2) [OF assms(1,2,4-6) len])
  let ?n = "depth div 8"
  let ?img = "map (\<lambda>row. map Some (concat (map swap_bgr row))) rows"
  have pxs: "\<forall>px\<in>set (concat rows). length px = ?n" "length (concat rows) = h * w"
    using rows length_concat_same [of rows w] by auto
  have l: "length (concat (concat rows)) = h * w * ?n" using length_concat_same [OF pxs(1)] pxs(2) by simp
  show "h * w * ?n < 2 ^ 31" using l len by simp
  show "3 \<le> ?n" "ty = 2 \<or> ty = 3 \<or> ty = 10" "length ?img = h" using assms(3,7) rows(1) by auto
  show "\<forall>r\<in>set ?img. length r = w * ?n"
  proof
    fix r
    assume "r \<in> set ?img"
    then obtain row where row: "row \<in> set rows" "r = map Some (concat (map swap_bgr row))" by auto
    then have "\<forall>px\<in>set (map swap_bgr row). length px = ?n" using rows(2) by (auto simp: swap_bgr_def)
    from length_concat_same [OF this] show "length r = w * ?n" using row rows(2) by simp
  qed
  have img: "map Some (concat (map swap_bgr (concat rows))) = concat ?img" by (simp add: map_concat concat_rows o_def)
  fix s1
  assume "stream_at s1 (concat (concat rows) @ rest)"
  then show "\<exists>s2. (if ty = 10 then loadRLEImageData s1 (wyTGA_calloc\<lparr>tga_type := ty, width := w, height := h,
      pixelDepth := depth, bytesPerPixel := ?n, flipped := flags AND 0x20 \<noteq> 0, imageData := Some (replicate (h * w * ?n) None)\<rparr>)
     else loadImageData s1 (wyTGA_calloc\<lparr>tga_type := ty, width := w, height := h,
      pixelDepth := depth, bytesPerPixel := ?n, flipped := flags AND 0x20 \<noteq> 0, imageData := Some (replicate (h * w * ?n) None)\<rparr>)) =
    Some (True, s2, wyTGA_calloc\<lparr>tga_type := ty, width := w, height := h,
      pixelDepth := depth, bytesPerPixel := ?n, flipped := flags AND 0x20 \<noteq> 0, imageData := Some (replicate (h * w * ?n) None)\<rparr>
        \<lparr>imageData := Some (concat ?img)\<rparr>)"
    using loadImageData_at [of s1 "concat rows" rest ?n "wyTGA_calloc\<lparr>tga_type := ty, width := w, height := h,
      pixelDepth := depth, bytesPerPixel := ?n, flipped := flags AND 0x20 \<noteq> 0, imageData := Some (replicate (h * w * ?n) None)\<rparr>"]
      pxs len assms(3,7) unfolding img by auto
qed

text \<open>Two rows of two pixels, flipped.\<close>

theorem tga_plain_loads_witness:
  "\<exists>tga. tga_file (tga_header [0, 0] 2 (replicate 9 0) 2 2 24 0x20 @ concat (concat [[[1, 2, 3], [4, 5, 6]], [[7, 8, 9], [10, 11, 12]]]) @ []) =
     Some tga \<and> status tga = TGA_OK \<and> width tga = 2 \<and> height tga = 2 \<and> bytesPerPixel tga = 3 \<and>
     imageData tga = Some (map Some [9, 8, 7, 12, 11, 10, 3, 2, 1, 6, 5, 4])"
  using tga_plain_loads [where pre = "[0, 0]" and mid = "replicate 9 0" and ty = 2 and w = 2 and h = 2 and depth = 24
      and rows = "[[[1, 2, 3], [4, 5, 6]], [[7, 8, 9], [10, 11, 12]]]" and rest = "[]" and flags = "0x20"]
  by (simp add: tga_rows_def swap_bgr_def)

text \<open>
  C32: A file of a run length encoded image of 24 or 32 bits loads: whatever the packets are, as long as they hold
  the pixels of the image, the colours of every pixel are the packets' with the first and third byte swapped; the
  fourth byte of a pixel is never set.
\<close>

theorem tga_rle_loads:
  assumes "length pre = 2" "length mid = 9" "w < 65536" "h < 65536" "depth < 256" "depth div 8 = 3 \<or> depth div 8 = 4"
    and rows: "length rows = h" "\<forall>row\<in>set rows. length row = w" and small: "h * w * (depth div 8) < 2 ^ 31"
    and ps: "\<forall>p\<in>set ps. packet_ok (depth div 8) p" "concat (map packet_pixels ps) = concat rows"
    and len: "length (concat (map packet_bytes ps) @ rest) < 2 ^ 31 - 18"
  shows "\<exists>tga. tga_file (tga_header pre 10 mid w h depth flags @ concat (map packet_bytes ps) @ rest) = Some tga \<and>
    status tga = TGA_OK \<and> width tga = w \<and> height tga = h \<and> bytesPerPixel tga = depth div 8 \<and>
    imageData tga = Some (concat (tga_rows flags (map (\<lambda>row. concat (map (rle_cell (depth div 8)) row)) rows)))"
proof (rule tga_load_done(2) [OF assms(1-5) len small])
  let ?n = "depth div 8"
  let ?img = "map (\<lambda>row. concat (map (rle_cell ?n) row)) rows"
  have n: "3 \<le> ?n" "?n \<le> 4" using assms(6) by auto
  show "3 \<le> ?n" by (rule n(1))
  show "(10 :: byte) = 2 \<or> (10 :: byte) = 3 \<or> (10 :: byte) = 10" "length ?img = h" using rows(1) by auto
  show "\<forall>r\<in>set ?img. length r = w * ?n" using rows(2) length_cells [OF n(1)] by (auto simp: mult.commute)
  have "h * w < 2 ^ 31" using le_less_trans [OF mult_le_mono2 [of 1 ?n "h * w"] small] n(1) by simp
  moreover have "length (concat (map packet_pixels ps)) = h * w" using ps(2) rows length_concat_same [of rows w] by simp
  moreover have "concat (map (rle_cell ?n) (concat rows)) = concat ?img" by (simp add: map_concat concat_rows o_def)
  moreover fix s1
  assume "stream_at s1 (concat (map packet_bytes ps) @ rest)"
  ultimately show "\<exists>s2. (if (10 :: byte) = 10 then loadRLEImageData s1 (wyTGA_calloc\<lparr>tga_type := 10, width := w, height := h,
      pixelDepth := depth, bytesPerPixel := ?n, flipped := flags AND 0x20 \<noteq> 0, imageData := Some (replicate (h * w * ?n) None)\<rparr>)
     else loadImageData s1 (wyTGA_calloc\<lparr>tga_type := 10, width := w, height := h,
      pixelDepth := depth, bytesPerPixel := ?n, flipped := flags AND 0x20 \<noteq> 0, imageData := Some (replicate (h * w * ?n) None)\<rparr>)) =
    Some (True, s2, wyTGA_calloc\<lparr>tga_type := 10, width := w, height := h,
      pixelDepth := depth, bytesPerPixel := ?n, flipped := flags AND 0x20 \<noteq> 0, imageData := Some (replicate (h * w * ?n) None)\<rparr>
        \<lparr>imageData := Some (concat ?img)\<rparr>)"
    using loadRLEImageData_at(1) [of s1 ps rest ?n "wyTGA_calloc\<lparr>tga_type := 10, width := w, height := h,
      pixelDepth := depth, bytesPerPixel := ?n, flipped := flags AND 0x20 \<noteq> 0, imageData := Some (replicate (h * w * ?n) None)\<rparr>"]
      ps n len by simp
qed

theorem tga_rle_loads_witness:
  "\<exists>tga. tga_file (tga_header [0, 0] 10 (replicate 9 0) 2 2 24 0 @ concat (map packet_bytes [Run 3 [1, 2, 3], Raw [[7, 8, 9]]]) @ []) =
     Some tga \<and> status tga = TGA_OK \<and> width tga = 2 \<and> height tga = 2 \<and> bytesPerPixel tga = 3 \<and>
     imageData tga = Some (map Some [3, 2, 1, 3, 2, 1, 3, 2, 1, 9, 8, 7])"
  using tga_rle_loads [where pre = "[0, 0]" and mid = "replicate 9 0" and w = 2 and h = 2 and depth = 24
      and rows = "[[[1, 2, 3], [1, 2, 3]], [[1, 2, 3], [7, 8, 9]]]" and ps = "[Run 3 [1, 2, 3], Raw [[7, 8, 9]]]" and rest = "[]" and flags = 0]
  by (simp add: tga_rows_def rle_cell_def packet_ok_def numeral_3_eq_3)

text \<open>
  A packet that goes past the last pixel of an image writes behind the block of the image before the loader
  notices that there are too many pixels.
\<close>

theorem tga_rle_overruns:
  assumes "length pre = 2" "length mid = 9" "w < 65536" "h < 65536" "depth < 256" "depth div 8 = 3 \<or> depth div 8 = 4"
    and small: "h * w * (depth div 8) < 2 ^ 31" and ps: "\<forall>p\<in>set (ps @ [p]). packet_ok (depth div 8) p"
    and over: "length (concat (map packet_pixels ps)) < h * w" "h * w < length (concat (map packet_pixels (ps @ [p])))"
    and len: "length (concat (map packet_bytes (ps @ [p])) @ rest) < 2 ^ 31 - 18"
  shows "tga_file (tga_header pre 10 mid w h depth flags @ concat (map packet_bytes (ps @ [p])) @ rest) = None"
proof (rule tga_load_done(1) [OF assms(1-5) len small])
  let ?n = "depth div 8"
  have n: "3 \<le> ?n" "?n \<le> 4" using assms(6) by auto
  show "3 \<le> ?n" by (rule n(1))
  show "(10 :: byte) = 2 \<or> (10 :: byte) = 3 \<or> (10 :: byte) = 10" by simp
  have "h * w < 2 ^ 31" using le_less_trans [OF mult_le_mono2 [of 1 ?n "h * w"] small] n(1) by simp
  moreover fix s1
  assume "stream_at s1 (concat (map packet_bytes (ps @ [p])) @ rest)"
  ultimately show "(if (10 :: byte) = 10 then loadRLEImageData s1 (wyTGA_calloc\<lparr>tga_type := 10, width := w, height := h,
      pixelDepth := depth, bytesPerPixel := ?n, flipped := flags AND 0x20 \<noteq> 0, imageData := Some (replicate (h * w * ?n) None)\<rparr>)
     else loadImageData s1 (wyTGA_calloc\<lparr>tga_type := 10, width := w, height := h,
      pixelDepth := depth, bytesPerPixel := ?n, flipped := flags AND 0x20 \<noteq> 0, imageData := Some (replicate (h * w * ?n) None)\<rparr>)) = None"
    using loadRLEImageData_at(2) [of s1 "ps @ [p]" rest ?n "wyTGA_calloc\<lparr>tga_type := 10, width := w, height := h,
      pixelDepth := depth, bytesPerPixel := ?n, flipped := flags AND 0x20 \<noteq> 0, imageData := Some (replicate (h * w * ?n) None)\<rparr>" ps p]
      ps n len over by simp
qed

text \<open>A run of three pixels in an image of two.\<close>

theorem tga_rle_overruns_witness:
  "tga_file (tga_header [0, 0] 10 (replicate 9 0) 2 1 24 0 @ concat (map packet_bytes ([] @ [Run 3 [1, 2, 3]])) @ []) = None"
  by (rule tga_rle_overruns) (simp_all add: packet_ok_def)

end
