(* ===== verification/Wy_Memory.thy ===== *)
theory Wy_Memory imports Prelude begin

text \<open>
  The tracking allocator, \<open>common/wyMemory.cpp\<close> (compiled with \<open>WY_CFLAG_MEMORY_TRACKING\<close>). The C library's
  \<open>malloc\<close> is a parameter that gives the address of a new block, or \<open>NULL\<close>. A record is its contents with the
  address of its own block; the linked lists are lists. \<open>None\<close> is an access outside of a block, a double \<open>free\<close>
  or an overflow of an \<open>int\<close>.
\<close>

section \<open>The C heap\<close>

type_synonym heap = "(nat \<times> cells) list"

type_synonym malloc = "nat \<Rightarrow> heap \<Rightarrow> nat option"

definition c_malloc :: "malloc \<Rightarrow> nat \<Rightarrow> heap \<Rightarrow> nat option \<times> heap" where
  "c_malloc malloc n hp =
     (case malloc n hp of None \<Rightarrow> (None, hp) | Some p \<Rightarrow> (Some p, (p, replicate n None) # hp))"

definition c_free :: "nat option \<Rightarrow> heap \<Rightarrow> heap option" where
  "c_free p hp =
     (case p of
        None \<Rightarrow> Some hp
      | Some a \<Rightarrow> if map_of hp a = None then None else Some (filter (\<lambda>b. fst b \<noteq> a) hp))"

definition heap_put :: "nat \<Rightarrow> cells \<Rightarrow> heap \<Rightarrow> heap" where
  "heap_put p cs hp = map (\<lambda>b. if fst b = p then (p, cs) else b) hp"

text \<open>\<open>memset(p, 0, n)\<close> and \<open>memcpy(p, q, n)\<close>.\<close>

definition c_memset0 :: "nat option \<Rightarrow> nat \<Rightarrow> heap \<Rightarrow> heap option" where
  "c_memset0 p n hp =
     (if n = 0 then Some hp
      else do { a \<leftarrow> p; cs \<leftarrow> map_of hp a; cs1 \<leftarrow> mem_write cs 0 (replicate n (Some 0)); Some (heap_put a cs1 hp) })"

definition c_memcpy :: "nat option \<Rightarrow> nat option \<Rightarrow> nat \<Rightarrow> heap \<Rightarrow> heap option" where
  "c_memcpy p q n hp =
     (if n = 0 then Some hp
      else do { b \<leftarrow> q;
                src \<leftarrow> map_of hp b;
                bytes \<leftarrow> cslice src 0 n;
                a \<leftarrow> p;
                cs \<leftarrow> map_of hp a;
                cs1 \<leftarrow> mem_write cs 0 bytes;
                Some (heap_put a cs1 hp) })"

text \<open>\<open>realloc\<close> of the C library.\<close>

definition c_realloc :: "malloc \<Rightarrow> nat option \<Rightarrow> nat \<Rightarrow> heap \<Rightarrow> (nat option \<times> heap) option" where
  "c_realloc malloc p n hp =
     (case p of
        None \<Rightarrow> Some (c_malloc malloc n hp)
      | Some a \<Rightarrow>
          (case map_of hp a of
             None \<Rightarrow> None
           | Some cs \<Rightarrow>
               (case malloc n hp of
                  None \<Rightarrow> Some (None, hp)
                | Some q \<Rightarrow> Some (Some q, (q, take n cs @ replicate (n - length cs) None) # filter (\<lambda>b. fst b \<noteq> a) hp))))"

section \<open>Records\<close>

definition MEMORY_RECORD_INDEX_SIZE :: nat where "MEMORY_RECORD_INDEX_SIZE = 0x10000"

record wyMemoryRecord =
  rec_self :: nat
  rec_start :: nat
  rec_size :: int
  rec_file :: string
  rec_line :: int

record tracker =
  heap :: heap
  sMemoryRecord :: "nat \<Rightarrow> wyMemoryRecord list"
  sTotalUsedMemory :: int
  sMaxUsedMemory :: int
  sTotalAlloc :: int
  sTotalFree :: int

definition tracker_init :: tracker where
  "tracker_init = \<lparr>heap = [], sMemoryRecord = (\<lambda>_. []), sTotalUsedMemory = 0, sMaxUsedMemory = 0, sTotalAlloc = 0, sTotalFree = 0\<rparr>"

text \<open>\<open>(uintptr_t)p & MEMORY_RECORD_INDEX_MASK\<close>\<close>

definition record_hash :: "nat \<Rightarrow> nat" where
  "record_hash p = p AND 0xFFFF"

fun insert_record :: "wyMemoryRecord \<Rightarrow> wyMemoryRecord list \<Rightarrow> wyMemoryRecord list" where
  "insert_record r [] = [r]"
| "insert_record r (t # ts) = (if rec_start t > rec_start r then r # t # ts else t # insert_record r ts)"

definition addRecord :: "wyMemoryRecord \<Rightarrow> tracker \<Rightarrow> tracker option" where
  "addRecord r s =
     do { let hash = record_hash (rec_start r);
          used \<leftarrow> int_range (sTotalUsedMemory s + rec_size r);
          allocs \<leftarrow> int_range (sTotalAlloc s + 1);
          Some (s\<lparr>sMemoryRecord := (sMemoryRecord s)(hash := insert_record r (sMemoryRecord s hash)),
                  sTotalUsedMemory := used,
                  sMaxUsedMemory := (if sMaxUsedMemory s > used then sMaxUsedMemory s else used),
                  sTotalAlloc := allocs\<rparr>) }"

definition findRecord :: "nat option \<Rightarrow> tracker \<Rightarrow> wyMemoryRecord option" where
  "findRecord p s =
     (case p of
        None \<Rightarrow> None
      | Some a \<Rightarrow> List.find (\<lambda>t. rec_start t = a) (sMemoryRecord s (record_hash a)))"

text \<open>The record is found by the address of its block; false if it is not in the list.\<close>

fun unlink_record :: "nat \<Rightarrow> wyMemoryRecord list \<Rightarrow> wyMemoryRecord list option" where
  "unlink_record r [] = None"
| "unlink_record r (t # ts) = (if rec_self t = r then Some ts else map_option ((#) t) (unlink_record r ts))"

definition removeRecord :: "wyMemoryRecord \<Rightarrow> tracker \<Rightarrow> (bool \<times> tracker) option" where
  "removeRecord r s =
     (let hash = record_hash (rec_start r) in
      case unlink_record (rec_self r) (sMemoryRecord s hash) of
        None \<Rightarrow> Some (False, s)
      | Some ts \<Rightarrow>
          do { used \<leftarrow> int_range (sTotalUsedMemory s - rec_size r);
               frees \<leftarrow> int_range (sTotalFree s + 1);
               Some (True, s\<lparr>sMemoryRecord := (sMemoryRecord s)(hash := ts), sTotalUsedMemory := used, sTotalFree := frees\<rparr>) })"

section \<open>Allocation\<close>

definition sizeof_record :: nat where "sizeof_record = 20"

definition wyMalloc :: "malloc \<Rightarrow> nat \<Rightarrow> string \<Rightarrow> int \<Rightarrow> tracker \<Rightarrow> (nat option \<times> tracker) option" where
  "wyMalloc malloc sz file line s =
     (if sz = 0 then Some (None, s)
      else
        (case c_malloc malloc sz (heap s) of
           (None, hp) \<Rightarrow> Some (None, s\<lparr>heap := hp\<rparr>)
         | (Some p, hp) \<Rightarrow>
             (case c_malloc malloc sizeof_record hp of
                (None, hp1) \<Rightarrow> do { hp2 \<leftarrow> c_free (Some p) hp1; Some (None, s\<lparr>heap := hp2\<rparr>) }
              | (Some r, hp1) \<Rightarrow>
                  do { s1 \<leftarrow> addRecord \<lparr>rec_self = r, rec_start = p, rec_size = sint (of_nat sz :: 32 word), rec_file = file,
                                        rec_line = line\<rparr> (s\<lparr>heap := hp1\<rparr>);
                       Some (Some p, s1) })))"

definition wyCalloc :: "malloc \<Rightarrow> nat \<Rightarrow> nat \<Rightarrow> string \<Rightarrow> int \<Rightarrow> tracker \<Rightarrow> (nat option \<times> tracker) option" where
  "wyCalloc malloc nitems sz file line s =
     do { let n = nitems * sz mod size_mod;
          (p, s1) \<leftarrow> wyMalloc malloc n file line s;
          hp \<leftarrow> c_memset0 p n (heap s1);
          Some (p, s1\<lparr>heap := hp\<rparr>) }"

definition wyRealloc :: "malloc \<Rightarrow> nat option \<Rightarrow> nat \<Rightarrow> string \<Rightarrow> int \<Rightarrow> tracker \<Rightarrow> (nat option \<times> tracker) option" where
  "wyRealloc malloc p sz file line s =
     (case findRecord p s of
        Some r \<Rightarrow>
          do { (q, s1) \<leftarrow> wyMalloc malloc sz file line s;
               hp1 \<leftarrow> c_memcpy q p (unat (of_int (rec_size r) :: 32 word)) (heap s1);
               hp2 \<leftarrow> c_free p hp1;
               (_, s2) \<leftarrow> removeRecord r (s1\<lparr>heap := hp2\<rparr>);
               hp3 \<leftarrow> c_free (Some (rec_self r)) (heap s2);
               Some (q, s2\<lparr>heap := hp3\<rparr>) }
      | None \<Rightarrow> map_option (\<lambda>(q, hp). (q, s\<lparr>heap := hp\<rparr>)) (c_realloc malloc p sz (heap s)))"

definition wyFree :: "nat option \<Rightarrow> tracker \<Rightarrow> tracker option" where
  "wyFree p s =
     (if p = None then Some s
      else
        do { s1 \<leftarrow> (case findRecord p s of
                     None \<Rightarrow> Some s
                   | Some r \<Rightarrow>
                       do { (_, s1) \<leftarrow> removeRecord r s;
                            hp \<leftarrow> c_free (Some (rec_self r)) (heap s1);
                            Some (s1\<lparr>heap := hp\<rparr>) });
             hp \<leftarrow> c_free p (heap s1);
             Some (s1\<lparr>heap := hp\<rparr>) })"

section \<open>The report\<close>

text \<open>\<open>strstr(s, pat) != NULL\<close>\<close>

fun has_prefix :: "string \<Rightarrow> string \<Rightarrow> bool" where
  "has_prefix [] s = True"
| "has_prefix (c # pat) [] = False"
| "has_prefix (c # pat) (d # s) = (c = d \<and> has_prefix pat s)"

fun strstr :: "string \<Rightarrow> string \<Rightarrow> bool" where
  "strstr [] pat = has_prefix pat []"
| "strstr (c # s) pat = (has_prefix pat (c # s) \<or> strstr s pat)"

fun dump_list :: "bool \<Rightarrow> wyMemoryRecord list \<Rightarrow> int \<times> int \<Rightarrow> (int \<times> int) option" where
  "dump_list fullLog [] (leakNum, leak) = Some (leakNum, leak)"
| "dump_list fullLog (r # rs) (leakNum, leak) =
     (if fullLog \<or> \<not> strstr (rec_file r) ''WiEngine''
      then do { n \<leftarrow> int_range (leakNum + 1); l \<leftarrow> int_range (leak + rec_size r); dump_list fullLog rs (n, l) }
      else dump_list fullLog rs (leakNum, leak))"

text \<open>The numbers that \<open>wyMemoryDumpRecord\<close> prints: of the leaks and of their bytes.\<close>

fun dump_from :: "bool \<Rightarrow> tracker \<Rightarrow> nat list \<Rightarrow> int \<times> int \<Rightarrow> (int \<times> int) option" where
  "dump_from fullLog s [] acc = Some acc"
| "dump_from fullLog s (i # is) acc = do { acc1 \<leftarrow> dump_list fullLog (sMemoryRecord s i) acc; dump_from fullLog s is acc1 }"

definition wyMemoryDumpRecord :: "bool \<Rightarrow> tracker \<Rightarrow> (int \<times> int) option" where
  "wyMemoryDumpRecord fullLog s = dump_from fullLog s [0..<MEMORY_RECORD_INDEX_SIZE] (0, 0)"

end
