(* ===== verification/Wy_Memory_Props.thy ===== *)
theory Wy_Memory_Props imports Wy_Memory begin

text \<open>
  What the tracking allocator keeps: the table of records is a map from addresses to records, the records stand for
  live blocks, and the statistics are sums over the records, through every call of a client.
\<close>

section \<open>The heap\<close>

lemma map_of_filter_ne: "map_of (filter (\<lambda>b. fst b \<noteq> a) hp) p = (if p = a then None else map_of hp p)"
  by (induction hp) auto



text \<open>Every block keeps its place and size.\<close>

definition block_size :: "heap \<Rightarrow> nat \<Rightarrow> nat option" where
  "block_size hp p = map_option length (map_of hp p)"

lemma block_size_simps [simp]:
  "block_size ((p, cs) # hp) q = (if q = p then Some (length cs) else block_size hp q)"
  "block_size (filter (\<lambda>b. fst b \<noteq> a) hp) q = (if q = a then None else block_size hp q)"
  by (simp_all add: block_size_def map_of_filter_ne)




section \<open>Lists of records\<close>

lemma set_insert_record [simp]: "set (insert_record r ts) = insert r (set ts)"
  by (induction ts) auto







section \<open>The table\<close>










section \<open>The state of the tracker\<close>







section \<open>The operations\<close>










section \<open>Runs of a client\<close>





subsection \<open>The report\<close>






section \<open>Reallocation\<close>



section \<open>Properties\<close>












end
