(* ===== verification/Yajl_Gen_Props.thy ===== *)
theory Yajl_Gen_Props imports Yajl_Parser_Props Yajl_Gen begin

text \<open>
  What the generator of \<open>yajl_gen.c\<close> prints. A JSON value is generated by one call per event; the text it should have
  is \<open>json_text\<close>, written down without separators and states. The predicate \<open>goes\<close> says of a call what it appends to
  the buffer, if there is room, and which state it leaves at the current depth.
\<close>

section \<open>Values\<close>

datatype json =
    J_null
  | J_bool bool
  | J_int "64 word"
  | J_string bytes
  | J_array "json list"
  | J_object "(bytes \<times> json) list"

text \<open>The calls that generate a value, and the callbacks a parser makes for it.\<close>

fun events :: "json \<Rightarrow> 'd event list" where
  "events J_null = [E_null]"
| "events (J_bool b) = [E_boolean b]"
| "events (J_int i) = [E_integer i]"
| "events (J_string s) = [E_string s]"
| "events (J_array vs) = [E_start_array] @ concat (map events vs) @ [E_end_array]"
| "events (J_object kvs) = [E_start_map] @ concat (map (\<lambda>kv. E_map_key (fst kv) # events (snd kv)) kvs) @ [E_end_map]"

fun nesting :: "json \<Rightarrow> nat" where
  "nesting (J_array vs) = Suc (fold max (map nesting vs) 0)"
| "nesting (J_object kvs) = Suc (fold max (map (\<lambda>kv. nesting (snd kv)) kvs) 0)"
| "nesting _ = 0"

text \<open>Strings that are well-formed, and integers that are not the least one.\<close>

fun json_ok :: "json \<Rightarrow> bool" where
  "json_ok (J_int i) = (i \<noteq> LLONG_MIN)"
| "json_ok (J_string s) = yajl_string_validate_utf8 s"
| "json_ok (J_array vs) = list_all json_ok vs"
| "json_ok (J_object kvs) = list_all (\<lambda>kv. yajl_string_validate_utf8 (fst kv) \<and> json_ok (snd kv)) kvs"
| "json_ok _ = True"

section \<open>The text of a value\<close>

fun sep_join :: "'a list \<Rightarrow> 'a list list \<Rightarrow> 'a list" where
  "sep_join sep [] = []"
| "sep_join sep (x # xs) = x @ concat (map (\<lambda>y. sep @ y) xs)"

record style =
  s_beautify :: bool
  s_indent :: bytes
  s_solidus :: bool

definition newline :: "style \<Rightarrow> bytes" where
  "newline st = (if s_beautify st then [0x0A] else [])"

definition indent :: "style \<Rightarrow> nat \<Rightarrow> bytes" where
  "indent st d = (if s_beautify st then concat (replicate d (s_indent st)) else [])"

definition json_string :: "style \<Rightarrow> bytes \<Rightarrow> bytes" where
  "json_string st s = [0x22] @ encoded (s_solidus st) s @ [0x22]"

fun json_text :: "style \<Rightarrow> nat \<Rightarrow> json \<Rightarrow> bytes" where
  "json_text st d J_null = [0x6E, 0x75, 0x6C, 0x6C]"
| "json_text st d (J_bool b) = (if b then [0x74, 0x72, 0x75, 0x65] else [0x66, 0x61, 0x6C, 0x73, 0x65])"
| "json_text st d (J_int i) = dec_int (sint i)"
| "json_text st d (J_string s) = json_string st s"
| "json_text st d (J_array vs) =
     [0x5B] @ newline st
       @ sep_join (0x2C # newline st) (map (\<lambda>v. indent st (Suc d) @ json_text st (Suc d) v) vs)
       @ newline st @ indent st d @ [0x5D]"
| "json_text st d (J_object kvs) =
     [0x7B] @ newline st
       @ sep_join (0x2C # newline st)
           (map (\<lambda>kv. indent st (Suc d) @ json_string st (fst kv) @ [0x3A] @ (if s_beautify st then [0x20] else [])
                        @ json_text st (Suc d) (snd kv)) kvs)
       @ newline st @ indent st d @ [0x7D]"

text \<open>A document ends in a newline.\<close>

definition document_text :: "style \<Rightarrow> json \<Rightarrow> bytes" where
  "document_text st v = json_text st 0 v @ newline st"

section \<open>A client of the generator\<close>

text \<open>One call per event; \<open>None\<close> where the call does not answer ok.\<close>

definition okay :: "(yajl_gen_status \<times> 'c yajl_gen) option \<Rightarrow> 'c yajl_gen option" where
  "okay r = (case r of Some (yajl_gen_status_ok, g) \<Rightarrow> Some g | _ \<Rightarrow> None)"

fun gen_event :: "('d \<Rightarrow> bool) \<Rightarrow> ('d \<Rightarrow> bytes) \<Rightarrow> 'c yajl_gen \<Rightarrow> 'd event \<Rightarrow> (yajl_gen_status \<times> 'c yajl_gen) option" where
  "gen_event bad fmt g E_null = yajl_gen_null g"
| "gen_event bad fmt g (E_boolean b) = yajl_gen_bool g b"
| "gen_event bad fmt g (E_integer i) = yajl_gen_integer g (sint i)"
| "gen_event bad fmt g (E_double d) = yajl_gen_double bad fmt g d"
| "gen_event bad fmt g (E_number s) = yajl_gen_number g s"
| "gen_event bad fmt g (E_string s) = yajl_gen_string g s"
| "gen_event bad fmt g E_start_map = yajl_gen_map_open g"
| "gen_event bad fmt g (E_map_key s) = yajl_gen_string g s"
| "gen_event bad fmt g E_end_map = yajl_gen_map_close g"
| "gen_event bad fmt g E_start_array = yajl_gen_array_open g"
| "gen_event bad fmt g E_end_array = yajl_gen_array_close g"

fun gen_run :: "('d \<Rightarrow> bool) \<Rightarrow> ('d \<Rightarrow> bytes) \<Rightarrow> 'd event list \<Rightarrow> 'c yajl_gen \<Rightarrow> 'c yajl_gen option" where
  "gen_run bad fmt [] g = Some g"
| "gen_run bad fmt (ev # evs) g = do { g1 \<leftarrow> okay (gen_event bad fmt g ev); gen_run bad fmt evs g1 }"

lemma gen_run_append: "gen_run bad fmt (evs @ evs') g = Option.bind (gen_run bad fmt evs g) (gen_run bad fmt evs')"
  by (induction evs arbitrary: g) (auto split: bind_split)

section \<open>Printing\<close>

fun sink_ok :: "'c yajl_print \<Rightarrow> bool" where
  "sink_ok (Print_buf b) = buf_ok b"
| "sink_ok (Print_user f c) = False"

fun sink_out :: "'c yajl_print \<Rightarrow> bytes" where
  "sink_out (Print_buf b) = buf_contents b"
| "sink_out (Print_user f c) = []"

definition sink_room :: "'c yajl_print \<Rightarrow> nat \<Rightarrow> bool" where
  "sink_room p n \<longleftrightarrow> sink_ok p \<and> length (sink_out p) + n < buf_max"

lemma print_to_room:
  assumes "sink_room p (length s + n)"
  shows "\<exists>p'. print_to p s = Some p' \<and> sink_out p' = sink_out p @ s \<and> sink_room p' n"
proof (cases p)
  case (Print_buf b)
  then have "buf_room b (length s + n)" using assms by (auto simp: sink_room_def buf_room_def)
  then obtain b' where "yajl_buf_append b s = Some b'" "buf_contents b' = buf_contents b @ s" "buf_room b' n"
    using buf_sink.print_room by blast
  moreover from this have "buf_used b' = length (buf_contents b) + length s"
    by (metis buf_room_def length_append length_buf_contents)
  ultimately show ?thesis using Print_buf by (intro exI [of _ "Print_buf b'"]) (auto simp: sink_room_def buf_room_def)
next
  case (Print_user f c)
  then show ?thesis using assms by (simp add: sink_room_def)
qed

interpretation gen_sink: print_sink print_to sink_out sink_room
  by unfold_locales (use print_to_room in \<open>auto simp: sink_room_def\<close>)

section \<open>Steps of the generator\<close>

definition gen_ready :: "'c yajl_gen \<Rightarrow> bool" where
  "gen_ready g \<longleftrightarrow> length (gstate g) = YAJL_MAX_DEPTH \<and> depth g < YAJL_MAX_DEPTH \<and> indentString g \<noteq> None"

definition top_state :: "'c yajl_gen \<Rightarrow> yajl_gen_state" where
  "top_state g = gstate g ! depth g"

definition style_of :: "'c yajl_gen \<Rightarrow> style" where
  "style_of g = \<lparr>s_beautify = beautify g, s_indent = the (indentString g), s_solidus = escape_solidus g\<rparr>"

text \<open>The same generator but for the output and the states from the current depth on.\<close>

definition like :: "'c yajl_gen \<Rightarrow> 'c yajl_gen \<Rightarrow> bool" where
  "like g g1 \<longleftrightarrow>
     g1 = g\<lparr>gstate := gstate g1, gprint := gprint g1\<rparr> \<and> length (gstate g1) = length (gstate g) \<and>
     take (depth g) (gstate g1) = take (depth g) (gstate g)"

lemma like_fields:
  assumes "like g g1"
  shows "depth g1 = depth g" "beautify g1 = beautify g" "validate_utf8 g1 = validate_utf8 g" "escape_solidus g1 = escape_solidus g"
    "indentString g1 = indentString g" "length (gstate g1) = length (gstate g)" "gen_ready g1 = gen_ready g" "style_of g1 = style_of g"
proof -
  have e: "g1 = g\<lparr>gstate := gstate g1, gprint := gprint g1\<rparr>" "length (gstate g1) = length (gstate g)" using assms by (simp_all add: like_def)
  show f: "depth g1 = depth g" "beautify g1 = beautify g" "validate_utf8 g1 = validate_utf8 g" "escape_solidus g1 = escape_solidus g"
    "indentString g1 = indentString g" by (subst e(1), simp)+
  show "length (gstate g1) = length (gstate g)" by (rule e(2))
  then show "gen_ready g1 = gen_ready g" "style_of g1 = style_of g" by (simp_all add: gen_ready_def style_of_def f)
qed

lemma like_refl [simp]: "like g g" by (simp add: like_def)

lemma like_trans: "like g g1 \<Longrightarrow> like g1 g2 \<Longrightarrow> like g g2"
  using like_fields [of g g1] unfolding like_def by (cases g; cases g1; cases g2) simp

text \<open>A call that prints \<open>s\<close> and leaves the state \<open>st\<close> at the current depth, if there is room.\<close>

definition goes :: "'c yajl_gen option \<Rightarrow> 'c yajl_gen \<Rightarrow> yajl_gen_state \<Rightarrow> bytes \<Rightarrow> bool" where
  "goes r g st s \<longleftrightarrow>
     (\<forall>n. gen_ready g \<and> sink_room (gprint g) (length s + n) \<longrightarrow>
        (\<exists>g1. r = Some g1 \<and> like g g1 \<and> top_state g1 = st \<and> sink_out (gprint g1) = sink_out (gprint g) @ s \<and>
           sink_room (gprint g1) n))"

lemma goesI:
  "(\<And>n. gen_ready g \<Longrightarrow> sink_room (gprint g) (length s + n) \<Longrightarrow>
     \<exists>g1. r = Some g1 \<and> like g g1 \<and> top_state g1 = st \<and> sink_out (gprint g1) = sink_out (gprint g) @ s \<and> sink_room (gprint g1) n) \<Longrightarrow>
   goes r g st s"
  by (simp add: goes_def)

lemma goesE:
  assumes "goes r g st s" "gen_ready g" "sink_room (gprint g) (length s + n)"
  obtains g1 where "r = Some g1" "like g g1" "top_state g1 = st" "sink_out (gprint g1) = sink_out (gprint g) @ s"
    "sink_room (gprint g1) n"
  using assms unfolding goes_def by blast

lemma goes_bind:
  assumes "goes r g st s" "\<And>g1. like g g1 \<Longrightarrow> top_state g1 = st \<Longrightarrow> goes (f g1) g1 st' t"
  shows "goes (Option.bind r f) g st' (s @ t)"
proof (rule goesI)
  fix n
  assume ready: "gen_ready g" and room: "sink_room (gprint g) (length (s @ t) + n)"
  then have "sink_room (gprint g) (length s + (length t + n))" by (simp add: add.assoc)
  then obtain g1 where g1: "r = Some g1" "like g g1" "top_state g1 = st" "sink_out (gprint g1) = sink_out (gprint g) @ s"
    "sink_room (gprint g1) (length t + n)"
    by (rule goesE [OF assms(1) ready])
  have "gen_ready g1" using ready like_fields(7) [OF g1(2)] by simp
  then obtain g2 where g2: "f g1 = Some g2" "like g1 g2" "top_state g2 = st'" "sink_out (gprint g2) = sink_out (gprint g1) @ t"
    "sink_room (gprint g2) n"
    by (rule goesE [OF assms(2) [OF g1(2,3)] _ g1(5)])
  show "\<exists>g2. Option.bind r f = Some g2 \<and> like g g2 \<and> top_state g2 = st' \<and> sink_out (gprint g2) = sink_out (gprint g) @ s @ t \<and>
      sink_room (gprint g2) n"
    by (rule exI [of _ g2]) (use g1(1,4) g2 like_trans [OF g1(2) g2(2)] in simp)
qed

lemma goes_Some: "top_state g = st \<Longrightarrow> goes (Some g) g st []"
  by (auto simp: goes_def)

lemma goes_print: "top_state g = st \<Longrightarrow> goes (gen_print g s) g st s"
proof (rule goesI)
  fix n
  assume "gen_ready g" "sink_room (gprint g) (length s + n)" and st: "top_state g = st"
  then obtain p where "print_to (gprint g) s = Some p" "sink_out p = sink_out (gprint g) @ s" "sink_room p n"
    using print_to_room by blast
  then show "\<exists>g1. gen_print g s = Some g1 \<and> like g g1 \<and> top_state g1 = st \<and> sink_out (gprint g1) = sink_out (gprint g) @ s \<and>
      sink_room (gprint g1) n"
    using st by (intro exI [of _ "g\<lparr>gprint := p\<rparr>"]) (simp add: gen_print_def like_def top_state_def)
qed

lemma cur_state_ready: "gen_ready g \<Longrightarrow> cur_state g = Some (top_state g)"
  by (simp add: gen_ready_def cur_state_def top_state_def rd_def)

text \<open>Where the current state is read, it is there.\<close>

lemma goes_cur: "goes (f (top_state g)) g st s \<Longrightarrow> goes (Option.bind (cur_state g) f) g st s"
  by (auto simp: goes_def cur_state_ready)

lemma goes_set_state: "goes (set_state g st) g st []"
proof (rule goesI)
  fix n
  assume "gen_ready g" "sink_room (gprint g) (length [] + n)"
  then show "\<exists>g1. set_state g st = Some g1 \<and> like g g1 \<and> top_state g1 = st \<and> sink_out (gprint g1) = sink_out (gprint g) @ [] \<and>
      sink_room (gprint g1) n"
    by (intro exI [of _ "g\<lparr>gstate := (gstate g)[depth g := st]\<rparr>"])
      (simp add: set_state_def like_def top_state_def gen_ready_def)
qed

lemma goes_print2: "top_state g = st \<Longrightarrow> goes (do { g1 \<leftarrow> gen_print g s; if beautify g then gen_print g1 t else Some g1 }) g st
    (s @ (if beautify g then t else []))"
  by (rule goes_bind [OF goes_print]) (auto intro: goes_print goes_Some)

definition sep_text :: "style \<Rightarrow> yajl_gen_state \<Rightarrow> bytes" where
  "sep_text y st =
     (if st = yajl_gen_map_key \<or> st = yajl_gen_in_array then 0x2C # newline y
      else if st = yajl_gen_map_val then 0x3A # (if s_beautify y then [0x20] else [])
      else [])"

definition lead_text :: "style \<Rightarrow> nat \<Rightarrow> yajl_gen_state \<Rightarrow> bytes" where
  "lead_text y d st = (if st = yajl_gen_map_val then [] else indent y d)"

lemma style_simps [simp]:
  "s_beautify (style_of g) = beautify g" "s_indent (style_of g) = the (indentString g)" "s_solidus (style_of g) = escape_solidus g"
  by (simp_all add: style_of_def)

lemma goes_sep: "goes (insert_sep g) g (top_state g) (sep_text (style_of g) (top_state g))"
  unfolding insert_sep_def
  by (rule goes_cur) (use goes_print2 [of g _ "[0x2C]" "[0x0A]"] goes_print2 [of g _ "[0x3A]" "[0x20]"] in
    \<open>auto simp: sep_text_def newline_def intro: goes_Some\<close>)

lemma goes_indent: "top_state g = st \<Longrightarrow> goes (print_indent n g) g st (concat (replicate n (the (indentString g))))"
proof (induction n arbitrary: g)
  case (Suc n)
  show ?case
  proof (cases "indentString g")
    case None
    then show ?thesis by (simp add: goes_def gen_ready_def)
  next
    case (Some s)
    have "goes (do { g1 \<leftarrow> gen_print g s; print_indent n g1 }) g st (s @ concat (replicate n s))"
      by (rule goes_bind [OF goes_print]) (use Suc Some like_fields(5) in fastforce)+
    then show ?thesis using Some by simp
  qed
qed (simp add: goes_Some)

lemma goes_whitespace: "goes (insert_whitespace g) g (top_state g) (lead_text (style_of g) (depth g) (top_state g))"
proof (cases "beautify g")
  case True
  have "goes (if top_state g \<noteq> yajl_gen_map_val then print_indent (depth g) g else Some g) g (top_state g)
      (lead_text (style_of g) (depth g) (top_state g))"
    using True goes_indent [of g "top_state g" "depth g"] by (auto simp: lead_text_def indent_def goes_Some)
  then show ?thesis using True goes_cur unfolding insert_whitespace_def by simp
qed (simp add: insert_whitespace_def lead_text_def indent_def goes_Some)

definition after :: "yajl_gen_state \<Rightarrow> yajl_gen_state" where
  "after st =
     (case st of
        yajl_gen_start \<Rightarrow> yajl_gen_complete
      | yajl_gen_map_start \<Rightarrow> yajl_gen_map_val
      | yajl_gen_map_key \<Rightarrow> yajl_gen_map_val
      | yajl_gen_array_start \<Rightarrow> yajl_gen_in_array
      | yajl_gen_map_val \<Rightarrow> yajl_gen_map_key
      | _ \<Rightarrow> st)"

lemma goes_atom: "goes (appended_atom g) g (after (top_state g)) []"
  unfolding appended_atom_def
  by (rule goes_cur) (cases "top_state g"; simp add: after_def goes_set_state goes_Some)

definition end_text :: "style \<Rightarrow> yajl_gen_state \<Rightarrow> bytes" where
  "end_text y st = (if st = yajl_gen_complete then newline y else [])"

lemma goes_final: "goes (final_newline g) g (top_state g) (end_text (style_of g) (top_state g))"
proof (cases "beautify g")
  case True
  have "goes (if top_state g = yajl_gen_complete then gen_print g [0x0A] else Some g) g (top_state g) (end_text (style_of g) (top_state g))"
    using True goes_print [of g _ "[0x0A]"] by (auto simp: end_text_def newline_def goes_Some)
  then show ?thesis using True goes_cur unfolding final_newline_def by simp
qed (simp add: final_newline_def end_text_def newline_def goes_Some)

section \<open>Calls of the generator\<close>

lemma okay_simps [simp]: "okay None = None" "okay (Some (yajl_gen_status_ok, g)) = Some g"
  "okay (Option.bind m f) = Option.bind m (\<lambda>x. okay (f x))"
  by (auto simp: okay_def split: bind_split)

lemma okay_if: "okay (if c then a else b) = (if c then okay a else okay b)"
  by simp

text \<open>The steps of an atom, for the generator in any state that is like the one the call started in.\<close>

lemma atom_steps:
  assumes "style_of g = y" "depth g = d" "top_state g = st"
  shows "goes (insert_sep g) g st (sep_text y st)" "goes (insert_whitespace g) g st (lead_text y d st)"
    "goes (appended_atom g) g (after st) []" "goes (final_newline g) g st (end_text y st)"
  using goes_sep [of g] goes_whitespace [of g] goes_atom [of g] goes_final [of g] assms by simp_all

lemma goes_text:
  assumes "style_of g = y" "depth g = d" "top_state g = st"
  shows "goes (okay (gen_text g s)) g (after st) (sep_text y st @ lead_text y d st @ s @ [] @ end_text y (after st))"
proof -
  have "goes (do { g5 \<leftarrow> final_newline g4; okay (Some (yajl_gen_status_ok, g5)) }) g4 st4 (end_text y st4 @ [])"
    if "style_of g4 = y" "top_state g4 = st4" for g4 st4
    by (rule goes_bind [OF atom_steps(4) [OF that(1) refl that(2)]]) (simp add: goes_Some)
  then show ?thesis
    unfolding gen_text_def okay_simps(3)
    by (intro goes_bind [of _ g st] goes_bind [of _ _ st] goes_bind [of _ _ "after st" "[]"] goes_print)
      (use assms in \<open>auto simp: like_fields atom_steps\<close>)
qed

lemma guards:
  assumes "gen_ready g"
  shows "top_state g \<notin> {yajl_gen_error, yajl_gen_complete} \<Longrightarrow> guarded (ensure_valid_state g) h k = k"
    and "top_state g \<notin> {yajl_gen_map_key, yajl_gen_map_start} \<Longrightarrow> guarded (ensure_not_key g) h k = k"
  using assms by (auto simp: guarded_def ensure_valid_state_def ensure_not_key_def cur_state_ready)

text \<open>The states in which a value, and in which a key is written.\<close>

definition takes_value :: "yajl_gen_state \<Rightarrow> bool" where
  "takes_value st \<longleftrightarrow> st \<in> {yajl_gen_start, yajl_gen_map_val, yajl_gen_array_start, yajl_gen_in_array}"

definition takes_key :: "yajl_gen_state \<Rightarrow> bool" where
  "takes_key st \<longleftrightarrow> st \<in> {yajl_gen_map_start, yajl_gen_map_key}"

lemma goes_cong: "(gen_ready g \<Longrightarrow> r = r') \<Longrightarrow> goes r' g st s \<Longrightarrow> goes r g st s"
  by (auto simp: goes_def)

definition value_text :: "style \<Rightarrow> nat \<Rightarrow> yajl_gen_state \<Rightarrow> bytes \<Rightarrow> bytes" where
  "value_text y d st s = sep_text y st @ lead_text y d st @ s @ end_text y (after st)"

lemma goes_atoms:
  assumes "style_of g = y" "depth g = d" "top_state g = st" "takes_value st"
  shows "goes (okay (yajl_gen_null g)) g (after st) (value_text y d st [0x6E, 0x75, 0x6C, 0x6C])"
    and "goes (okay (yajl_gen_bool g b)) g (after st)
      (value_text y d st (if b then [0x74, 0x72, 0x75, 0x65] else [0x66, 0x61, 0x6C, 0x73, 0x65]))"
    and "goes (okay (yajl_gen_integer g i)) g (after st) (value_text y d st (dec_int i))"
proof -
  have g: "guarded (ensure_valid_state g) g (guarded (ensure_not_key g) g k) = k" if "gen_ready g" for k
    using guards [OF that, of g] assms by (auto simp: takes_value_def)
  have t: "goes (okay (gen_text g x)) g (after st) (value_text y d st x)" for x
    using goes_text [OF assms(1,2,3)] by (simp add: value_text_def)
  show "goes (okay (yajl_gen_null g)) g (after st) (value_text y d st [0x6E, 0x75, 0x6C, 0x6C])"
    by (rule goes_cong [OF _ t]) (simp add: yajl_gen_null_def g)
  show "goes (okay (yajl_gen_bool g b)) g (after st)
      (value_text y d st (if b then [0x74, 0x72, 0x75, 0x65] else [0x66, 0x61, 0x6C, 0x73, 0x65]))"
    by (rule goes_cong [OF _ t]) (simp add: yajl_gen_bool_def Let_def g)
  show "goes (okay (yajl_gen_integer g i)) g (after st) (value_text y d st (dec_int i))"
    by (rule goes_cong [OF _ t]) (simp add: yajl_gen_integer_def g)
qed

lemma goes_encode:
  assumes "top_state g = st"
  shows "goes (do { p \<leftarrow> yajl_string_encode print_to (gprint g) s (escape_solidus g); gen_print (g\<lparr>gprint := p\<rparr>) t }) g st
    (encoded (escape_solidus g) s @ t)"
proof (rule goesI)
  fix n
  assume ready: "gen_ready g" and room: "sink_room (gprint g) (length (encoded (escape_solidus g) s @ t) + n)"
  then have "sink_room (gprint g) (length (encoded (escape_solidus g) s) + (length t + n))" by (simp add: add.assoc)
  then obtain p where p: "yajl_string_encode print_to (gprint g) s (escape_solidus g) = Some p"
    "sink_out p = sink_out (gprint g) @ encoded (escape_solidus g) s" "sink_room p (length t + n)"
    by (rule gen_sink.string_encode_out)
  have "goes (gen_print (g\<lparr>gprint := p\<rparr>) t) (g\<lparr>gprint := p\<rparr>) st t"
    by (rule goes_print) (use assms in \<open>simp add: top_state_def\<close>)
  moreover have "gen_ready (g\<lparr>gprint := p\<rparr>)" using ready by (simp add: gen_ready_def)
  moreover have "sink_room (gprint (g\<lparr>gprint := p\<rparr>)) (length t + n)" using p(3) by simp
  ultimately obtain g1 where g1: "gen_print (g\<lparr>gprint := p\<rparr>) t = Some g1" "like (g\<lparr>gprint := p\<rparr>) g1" "top_state g1 = st"
    "sink_out (gprint g1) = sink_out (gprint (g\<lparr>gprint := p\<rparr>)) @ t" "sink_room (gprint g1) n"
    by (rule goesE)
  moreover have "like g g1" by (rule like_trans [OF _ g1(2)]) (simp add: like_def)
  ultimately show "\<exists>g1. do { p \<leftarrow> yajl_string_encode print_to (gprint g) s (escape_solidus g); gen_print (g\<lparr>gprint := p\<rparr>) t } = Some g1 \<and>
      like g g1 \<and> top_state g1 = st \<and>
      sink_out (gprint g1) = sink_out (gprint g) @ encoded (escape_solidus g) s @ t \<and> sink_room (gprint g1) n"
    using p by simp
qed

lemma goes_string:
  assumes "style_of g = y" "depth g = d" "top_state g = st" "takes_value st \<or> takes_key st" "yajl_string_validate_utf8 s"
  shows "goes (okay (yajl_gen_string g s)) g (after st) (value_text y d st (json_string y s))"
proof -
  have esc: "escape_solidus g = s_solidus y" using assms(1) by auto
  have last: "goes (do { g5 \<leftarrow> appended_atom g4; g6 \<leftarrow> final_newline g5; Some g6 }) g4 (after st) ([] @ end_text y (after st) @ [])"
    if "style_of g4 = y" "top_state g4 = st" for g4
    by (intro goes_bind [OF atom_steps(3) [OF that(1) refl that(2)]] goes_bind [OF atom_steps(4)])
      (use that in \<open>auto simp: like_fields goes_Some\<close>)
  have body: "goes (do { p \<leftarrow> yajl_string_encode print_to (gprint g3) s (escape_solidus g3);
        g4 \<leftarrow> gen_print (g3\<lparr>gprint := p\<rparr>) [0x22]; g5 \<leftarrow> appended_atom g4; g6 \<leftarrow> final_newline g5; Some g6 }) g3 (after st)
      ((encoded (s_solidus y) s @ [0x22]) @ [] @ end_text y (after st) @ [])"
    if "style_of g3 = y" "top_state g3 = st" for g3
  proof -
    have "escape_solidus g3 = s_solidus y" using that(1) by auto
    then have "goes (do { p \<leftarrow> yajl_string_encode print_to (gprint g3) s (escape_solidus g3); gen_print (g3\<lparr>gprint := p\<rparr>) [0x22] }) g3 st
        (encoded (s_solidus y) s @ [0x22])"
      using goes_encode [OF that(2), of s "[0x22]"] by simp
    from goes_bind [OF this last] show ?thesis using that(1) by (simp add: like_fields)
  qed
  have "goes (do { g1 \<leftarrow> insert_sep g; g2 \<leftarrow> insert_whitespace g1; g3 \<leftarrow> gen_print g2 [0x22];
       p \<leftarrow> yajl_string_encode print_to (gprint g3) s (escape_solidus g3);
       g4 \<leftarrow> gen_print (g3\<lparr>gprint := p\<rparr>) [0x22]; g5 \<leftarrow> appended_atom g4; g6 \<leftarrow> final_newline g5; Some g6 }) g (after st)
     (sep_text y st @ lead_text y d st @ [0x22] @ ((encoded (s_solidus y) s @ [0x22]) @ [] @ end_text y (after st) @ []))"
    by (intro goes_bind [of _ g st] goes_bind [of _ _ st] goes_print body)
      (use assms in \<open>auto simp: like_fields atom_steps\<close>)
  moreover have "top_state g \<notin> {yajl_gen_error, yajl_gen_complete}" using assms(3,4) by (auto simp: takes_value_def takes_key_def)
  ultimately show ?thesis
    using assms(5) by (intro goes_cong [of g "okay (yajl_gen_string g s)"])
      (auto simp: yajl_gen_string_def guards value_text_def json_string_def)
qed

section \<open>Arrays and objects\<close>

lemma open_steps:
  assumes "style_of g = y" "top_state g = st0" "st0 \<noteq> yajl_gen_complete"
  shows "goes (do { g4 \<leftarrow> gen_print g [b]; g5 \<leftarrow> (if beautify g4 then gen_print g4 [0x0A] else Some g4);
      g6 \<leftarrow> final_newline g5; Some g6 }) g st0 ([b] @ newline y @ [] @ [])"
proof -
  have "goes (if beautify g4 then gen_print g4 [0x0A] else Some g4) g4 st0 (newline y)"
    if "like g g4" "top_state g4 = st0" for g4
    using goes_print [OF that(2), of "[0x0A]"] goes_Some [OF that(2)] like_fields(8) [OF that(1)] assms(1) style_simps(1) [of g4]
    by (auto simp: newline_def)
  moreover have "goes (final_newline g5) g5 st0 []" if "top_state g5 = st0" for g5 :: "'a yajl_gen"
    using goes_final [of g5] that assms(3) by (simp add: end_text_def)
  ultimately show ?thesis
    by (intro goes_bind [of _ g st0] goes_bind [of _ _ st0] goes_print goes_Some assms(2))
qed

lemma close_steps:
  assumes "style_of g = y" "depth g = d" "top_state g = st" "takes_value st"
  shows "goes (do { g1 \<leftarrow> (if beautify g then gen_print g [0x0A] else Some g); g2 \<leftarrow> appended_atom g1; g3 \<leftarrow> insert_whitespace g2;
      g4 \<leftarrow> gen_print g3 [b]; g5 \<leftarrow> final_newline g4; Some g5 }) g (after st)
    (newline y @ [] @ indent y d @ [b] @ end_text y (after st) @ [])"
proof -
  have nl: "goes (if beautify g then gen_print g [0x0A] else Some g) g st (newline y)"
    using goes_print [OF assms(3), of "[0x0A]"] goes_Some [OF assms(3)] assms(1) style_simps(1) [of g] by (auto simp: newline_def)
  have lead: "lead_text y d (after st) = indent y d" using assms(4) by (auto simp: takes_value_def after_def lead_text_def)
  have ws: "goes (insert_whitespace g2) g2 (after st) (indent y d)" if "style_of g2 = y" "depth g2 = d" "top_state g2 = after st" for g2 :: "'a yajl_gen"
    using atom_steps(2) [OF that] lead by simp
  show ?thesis
    by (intro goes_bind [OF nl] goes_bind [of _ _ "after st"] goes_print goes_Some ws)
      (use assms in \<open>auto simp: like_fields atom_steps\<close>)
qed

lemma open_moves:
  assumes "gen_ready g" "top_state g \<notin> {yajl_gen_error, yajl_gen_complete, yajl_gen_map_key, yajl_gen_map_start}"
    and "insert_sep g = Some g1" "insert_whitespace g1 = Some g2" "length (gstate g2) = YAJL_MAX_DEPTH" "Suc (depth g2) < YAJL_MAX_DEPTH"
  shows "okay (gen_open g st0 b) = do { g4 \<leftarrow> gen_print (g2\<lparr>depth := Suc (depth g2), gstate := (gstate g2)[Suc (depth g2) := st0]\<rparr>) [b];
    g5 \<leftarrow> (if beautify g4 then gen_print g4 [0x0A] else Some g4); g6 \<leftarrow> final_newline g5; Some g6 }"
proof -
  have "Suc (depth g2) mod size_mod = Suc (depth g2)" using assms(6) by simp
  then show ?thesis using assms by (simp add: gen_open_def guards increment_depth_def set_state_def Let_def)
qed

lemma close_moves:
  assumes "gen_ready g" "top_state g \<notin> {yajl_gen_error, yajl_gen_complete}" "depth g = Suc d"
  shows "okay (gen_close g b) = do { g1 \<leftarrow> (if beautify (g\<lparr>depth := d\<rparr>) then gen_print (g\<lparr>depth := d\<rparr>) [0x0A] else Some (g\<lparr>depth := d\<rparr>));
    g2 \<leftarrow> appended_atom g1; g3 \<leftarrow> insert_whitespace g2; g4 \<leftarrow> gen_print g3 [b]; g5 \<leftarrow> final_newline g4; Some g5 }"
  using assms by (simp add: gen_close_def guards decrement_depth_def size_pred_def gen_ready_def)

lemma goes_container:
  assumes g: "style_of g = y" "depth g = d" "top_state g = st" "takes_value st" "Suc d < YAJL_MAX_DEPTH"
    and inner: "\<And>g1. style_of g1 = y \<Longrightarrow> depth g1 = Suc d \<Longrightarrow> top_state g1 = st0 \<Longrightarrow> goes (inner g1) g1 st1 t"
    and st: "st0 \<noteq> yajl_gen_complete" "st1 \<notin> {yajl_gen_error, yajl_gen_complete}"
  shows "goes (do { g1 \<leftarrow> okay (gen_open g st0 b0); g2 \<leftarrow> inner g1; okay (gen_close g2 b1) }) g (after st)
    (value_text y d st ([b0] @ newline y @ t @ newline y @ indent y d @ [b1]))"
proof (rule goesI)
  fix n
  let ?close = "newline y @ [] @ indent y d @ [b1] @ end_text y (after st) @ []"
  assume ready: "gen_ready g"
    and "sink_room (gprint g) (length (value_text y d st ([b0] @ newline y @ t @ newline y @ indent y d @ [b1])) + n)"
  then have room: "sink_room (gprint g) (length (sep_text y st) + (length (lead_text y d st) +
      (length ([b0] @ newline y @ [] @ []) + (length t + (length ?close + n)))))"
    by (simp add: value_text_def ac_simps)
  obtain g1 where g1: "insert_sep g = Some g1" "like g g1" "top_state g1 = st" "sink_out (gprint g1) = sink_out (gprint g) @ sep_text y st"
    and room1: "sink_room (gprint g1) (length (lead_text y d st) + (length ([b0] @ newline y @ [] @ []) + (length t + (length ?close + n))))"
    by (rule goesE [OF atom_steps(1) [OF g(1-3)] ready room])
  note f1 = like_fields [OF g1(2)]
  have gg1: "style_of g1 = y" "depth g1 = d" "gen_ready g1" using f1 g ready by auto
  obtain g2 where g2: "insert_whitespace g1 = Some g2" "like g1 g2" "top_state g2 = st" "sink_out (gprint g2) = sink_out (gprint g1) @ lead_text y d st"
    and room2: "sink_room (gprint g2) (length ([b0] @ newline y @ [] @ []) + (length t + (length ?close + n)))"
    by (rule goesE [OF atom_steps(2) [OF gg1(1,2) g1(3)] gg1(3) room1])
  note f2 = like_fields [OF g2(2)]
  let ?g3 = "g2\<lparr>depth := Suc d, gstate := (gstate g2)[Suc d := st0]\<rparr>"
  have gg2: "style_of g2 = y" "depth g2 = d" "gen_ready g2" "length (gstate g2) = YAJL_MAX_DEPTH" using f2 gg1 by (auto simp: gen_ready_def)
  have gg3: "style_of ?g3 = y" "depth ?g3 = Suc d" "gen_ready ?g3" "top_state ?g3 = st0" "sink_room (gprint ?g3)
      (length ([b0] @ newline y @ [] @ []) + (length t + (length ?close + n)))"
    using gg2 g(5) room2 by (auto simp: style_of_def gen_ready_def top_state_def)
  obtain g4 where g4: "do { g4 \<leftarrow> gen_print ?g3 [b0]; g5 \<leftarrow> (if beautify g4 then gen_print g4 [0x0A] else Some g4);
      g6 \<leftarrow> final_newline g5; Some g6 } = Some g4" "like ?g3 g4" "top_state g4 = st0"
      "sink_out (gprint g4) = sink_out (gprint ?g3) @ [b0] @ newline y @ [] @ []"
    and room4: "sink_room (gprint g4) (length t + (length ?close + n))"
    by (rule goesE [OF open_steps [OF gg3(1,4) st(1)] gg3(3,5)])
  note f4 = like_fields [OF g4(2)]
  have gg4: "style_of g4 = y" "depth g4 = Suc d" "gen_ready g4" using f4 gg3 by auto
  obtain g5 where g5: "inner g4 = Some g5" "like g4 g5" "top_state g5 = st1" "sink_out (gprint g5) = sink_out (gprint g4) @ t"
    and room5: "sink_room (gprint g5) (length ?close + n)"
    by (rule goesE [OF inner [OF gg4(1,2) g4(3)] gg4(3) room4])
  note f5 = like_fields [OF g5(2)]
  have gg5: "style_of g5 = y" "depth g5 = Suc d" "gen_ready g5" "length (gstate g5) = YAJL_MAX_DEPTH"
    using f5 gg4 by (auto simp: gen_ready_def)
  let ?g6 = "g5\<lparr>depth := d\<rparr>"
  have states: "take (Suc d) (gstate g5) = take (Suc d) (gstate g2)"
    using g5(2) g4(2) gg4(2) by (simp add: like_def)
  then have "gstate g5 ! d = gstate g2 ! d" by (metis lessI nth_take)
  then have gg6: "style_of ?g6 = y" "depth ?g6 = d" "top_state ?g6 = st" "gen_ready ?g6" "sink_room (gprint ?g6) (length ?close + n)"
    using gg5 g2(3) gg2(2) room5 by (auto simp: style_of_def gen_ready_def top_state_def)
  obtain g7 where g7: "do { g1 \<leftarrow> (if beautify ?g6 then gen_print ?g6 [0x0A] else Some ?g6); g2 \<leftarrow> appended_atom g1; g3 \<leftarrow> insert_whitespace g2;
      g4 \<leftarrow> gen_print g3 [b1]; g5 \<leftarrow> final_newline g4; Some g5 } = Some g7" "like ?g6 g7" "top_state g7 = after st"
      "sink_out (gprint g7) = sink_out (gprint ?g6) @ ?close" "sink_room (gprint g7) n"
    by (rule goesE [OF close_steps [OF gg6(1-3) g(4)] gg6(4,5)])
  have "okay (gen_open g st0 b0) = Some g4"
    using open_moves [OF ready _ g1(1) g2(1) gg2(4)] g(3,4,5) gg2(2) g4(1) by (auto simp: takes_value_def)
  moreover have "okay (gen_close g5 b1) = Some g7"
    using close_moves [OF gg5(3) _ gg5(2)] g5(3) st(2) g7(1) by auto
  moreover have "like g g7"
  proof -
    have eqs: "g7 = ?g6\<lparr>gstate := gstate g7, gprint := gprint g7\<rparr>" "g5 = g4\<lparr>gstate := gstate g5, gprint := gprint g5\<rparr>"
      "g4 = ?g3\<lparr>gstate := gstate g4, gprint := gprint g4\<rparr>"
      using g7(2) g5(2) g4(2) by (simp_all add: like_def)
    have "g7 = g2\<lparr>gstate := gstate g7, gprint := gprint g7\<rparr>"
      by (subst eqs(1), subst eqs(2), subst eqs(3)) (use gg2(2) in \<open>cases g2; simp\<close>)
    moreover have "take d (gstate g7) = take d (gstate g2)"
    proof -
      have "take d (gstate g7) = take d (gstate g5)" using g7(2) gg6(2) by (simp add: like_def)
      also have "... = take d (take (Suc d) (gstate g5))" by simp
      also have "... = take d (gstate g2)" unfolding states by simp
      finally show ?thesis .
    qed
    moreover have "length (gstate g7) = length (gstate g2)" using g7(2) gg5(4) gg2(4) by (simp add: like_def)
    ultimately have "like g2 g7" using gg2(2) by (simp add: like_def)
    then show ?thesis using like_trans g1(2) g2(2) by blast
  qed
  ultimately show "\<exists>h. do { g1 \<leftarrow> okay (gen_open g st0 b0); g2 \<leftarrow> inner g1; okay (gen_close g2 b1) } = Some h \<and> like g h \<and>
      top_state h = after st \<and>
      sink_out (gprint h) = sink_out (gprint g) @ value_text y d st ([b0] @ newline y @ t @ newline y @ indent y d @ [b1]) \<and>
      sink_room (gprint h) n"
    using g5(1) g7(3,4,5) g1(4) g2(4) g4(4) g5(4) by (simp add: value_text_def)
qed

section \<open>Values\<close>

definition gens_value :: "('d \<Rightarrow> bool) \<Rightarrow> ('d \<Rightarrow> bytes) \<Rightarrow> 'c itself \<Rightarrow> json \<Rightarrow> bool" where
  "gens_value bad fmt T v \<longleftrightarrow>
     (\<forall>(g :: 'c yajl_gen) y d st. style_of g = y \<and> depth g = d \<and> top_state g = st \<and> takes_value st \<and>
        d + nesting v < YAJL_MAX_DEPTH \<and> json_ok v \<longrightarrow>
        goes (gen_run bad fmt (events v) g) g (after st) (value_text y d st (json_text y d v)))"

lemma gens_valueD:
  assumes "gens_value bad fmt TYPE('c) v" "style_of g = y" "depth g = d" "top_state g = st" "takes_value st" "d + nesting v < YAJL_MAX_DEPTH"
    "json_ok v"
  shows "goes (gen_run bad fmt (events v) (g :: 'c yajl_gen)) g (after st) (value_text y d st (json_text y d v))"
  using assms unfolding gens_value_def by blast

lemma fold_max_le: "fold max xs m \<le> k \<longleftrightarrow> m \<le> k \<and> (\<forall>x\<in>set xs. x \<le> k)" for k :: nat
  by (induction xs arbitrary: m) auto

definition tail_text :: "bytes \<Rightarrow> bytes list \<Rightarrow> bytes" where
  "tail_text s xs = concat (map (\<lambda>x. s @ x) xs)"

lemma sep_join_tail: "sep_join s (x # xs) = x @ tail_text s xs"
  by (simp add: tail_text_def)

lemma tail_text_simps [simp]: "tail_text s [] = []" "tail_text s (x # xs) = s @ x @ tail_text s xs"
  by (simp_all add: tail_text_def)

lemma gen_run_one: "goes (okay (gen_event bad fmt g ev)) g st s \<Longrightarrow> goes (gen_run bad fmt [ev] g) g st s"
  using goes_bind [of "okay (gen_event bad fmt g ev)" g st s "gen_run bad fmt []" st "[]"] by (auto simp: goes_Some)

lemma gens_value_atom:
  assumes "events v = [ev]" "\<And>(g :: 'c yajl_gen) y d st. style_of g = y \<Longrightarrow> depth g = d \<Longrightarrow> top_state g = st \<Longrightarrow> takes_value st \<Longrightarrow>
      json_ok v \<Longrightarrow> goes (okay (gen_event bad fmt g ev)) g (after st) (value_text y d st (json_text y d v))"
  shows "gens_value bad fmt TYPE('c) v"
  unfolding gens_value_def assms(1) using assms(2) gen_run_one by blast

lemma run_elements:
  assumes "\<forall>v\<in>set vs. gens_value bad fmt TYPE('c) v \<and> d + nesting v < YAJL_MAX_DEPTH \<and> json_ok v"
    and "style_of g = y" "depth g = d" "top_state g = yajl_gen_in_array"
  shows "goes (gen_run bad fmt (concat (map events vs)) (g :: 'c yajl_gen)) g yajl_gen_in_array
    (tail_text (0x2C # newline y) (map (\<lambda>v. indent y d @ json_text y d v) vs))"
  using assms
proof (induction vs arbitrary: g)
  case (Cons v vs)
  have "goes (gen_run bad fmt (events v) g) g (after yajl_gen_in_array) (value_text y d yajl_gen_in_array (json_text y d v))"
    by (rule gens_valueD) (use Cons.prems in \<open>auto simp: takes_value_def\<close>)
  then have v: "goes (gen_run bad fmt (events v) g) g yajl_gen_in_array (0x2C # newline y @ indent y d @ json_text y d v)"
    by (simp add: value_text_def sep_text_def lead_text_def end_text_def after_def)
  have "goes (gen_run bad fmt (concat (map events vs)) g1) g1 yajl_gen_in_array
      (tail_text (0x2C # newline y) (map (\<lambda>v. indent y d @ json_text y d v) vs))"
    if "like g g1" "top_state g1 = yajl_gen_in_array" for g1
    by (rule Cons.IH) (use that Cons.prems in \<open>auto simp: like_fields\<close>)
  from goes_bind [OF v this] show ?case by (simp add: gen_run_append)
qed (simp add: goes_Some)

lemma run_array:
  assumes "\<forall>v\<in>set vs. gens_value bad fmt TYPE('c) v \<and> d + nesting v < YAJL_MAX_DEPTH \<and> json_ok v"
    and "style_of g = y" "depth g = d" "top_state g = yajl_gen_array_start"
  shows "goes (gen_run bad fmt (concat (map events vs)) (g :: 'c yajl_gen)) g (if vs = [] then yajl_gen_array_start else yajl_gen_in_array)
    (sep_join (0x2C # newline y) (map (\<lambda>v. indent y d @ json_text y d v) vs))"
proof (cases vs)
  case (Cons v us)
  have "goes (gen_run bad fmt (events v) g) g (after yajl_gen_array_start) (value_text y d yajl_gen_array_start (json_text y d v))"
    by (rule gens_valueD) (use assms Cons in \<open>auto simp: takes_value_def\<close>)
  then have v: "goes (gen_run bad fmt (events v) g) g yajl_gen_in_array (indent y d @ json_text y d v)"
    by (simp add: value_text_def sep_text_def lead_text_def end_text_def after_def)
  have "goes (gen_run bad fmt (concat (map events us)) g1) g1 yajl_gen_in_array
      (tail_text (0x2C # newline y) (map (\<lambda>v. indent y d @ json_text y d v) us))"
    if "like g g1" "top_state g1 = yajl_gen_in_array" for g1
    by (rule run_elements) (use that assms Cons in \<open>auto simp: like_fields\<close>)
  from goes_bind [OF v this] show ?thesis using Cons by (simp add: gen_run_append sep_join_tail del: sep_join.simps(2))
qed (simp add: goes_Some assms)

text \<open>A key and its value.\<close>

definition pair_text :: "style \<Rightarrow> nat \<Rightarrow> bytes \<times> json \<Rightarrow> bytes" where
  "pair_text y d kv =
     indent y d @ json_string y (fst kv) @ [0x3A] @ (if s_beautify y then [0x20] else []) @ json_text y d (snd kv)"

lemma run_pair:
  assumes "gens_value bad fmt TYPE('c) v" "d + nesting v < YAJL_MAX_DEPTH" "json_ok v" "yajl_string_validate_utf8 k"
    and g: "style_of g = y" "depth g = d" "top_state g = st" "takes_key st"
  shows "goes (gen_run bad fmt (E_map_key k # events v) (g :: 'c yajl_gen)) g yajl_gen_map_key (sep_text y st @ pair_text y d (k, v))"
proof -
  have "goes (okay (gen_event bad fmt g (E_map_key k))) g (after st) (value_text y d st (json_string y k))"
    using goes_string [OF g(1-3)] g(4) assms(4) by simp
  then have key: "goes (okay (gen_event bad fmt g (E_map_key k))) g yajl_gen_map_val (sep_text y st @ indent y d @ json_string y k)"
    using g(4) by (auto simp: takes_key_def value_text_def lead_text_def end_text_def after_def)
  have "goes (gen_run bad fmt (events v) g1) g1 yajl_gen_map_key
      ([0x3A] @ (if s_beautify y then [0x20] else []) @ json_text y d v)"
    if "like g g1" "top_state g1 = yajl_gen_map_val" for g1
  proof -
    have "goes (gen_run bad fmt (events v) g1) g1 (after yajl_gen_map_val) (value_text y d yajl_gen_map_val (json_text y d v))"
      by (rule gens_valueD) (use assms that in \<open>auto simp: takes_value_def like_fields\<close>)
    then show ?thesis by (simp add: value_text_def sep_text_def lead_text_def end_text_def after_def)
  qed
  from goes_bind [OF key this] show ?thesis by (simp add: pair_text_def)
qed

lemma run_pairs:
  assumes "\<forall>kv\<in>set kvs. gens_value bad fmt TYPE('c) (snd kv) \<and> d + nesting (snd kv) < YAJL_MAX_DEPTH \<and> json_ok (snd kv) \<and>
      yajl_string_validate_utf8 (fst kv)"
    and "style_of g = y" "depth g = d" "top_state g = yajl_gen_map_key"
  shows "goes (gen_run bad fmt (concat (map (\<lambda>kv. E_map_key (fst kv) # events (snd kv)) kvs)) (g :: 'c yajl_gen)) g yajl_gen_map_key
    (tail_text (0x2C # newline y) (map (pair_text y d) kvs))"
  using assms
proof (induction kvs arbitrary: g)
  case (Cons kv kvs)
  have v: "goes (gen_run bad fmt (E_map_key (fst kv) # events (snd kv)) g) g yajl_gen_map_key
      (sep_text y yajl_gen_map_key @ pair_text y d (fst kv, snd kv))"
    by (rule run_pair) (use Cons.prems in \<open>auto simp: takes_key_def\<close>)
  have "goes (gen_run bad fmt (concat (map (\<lambda>kv. E_map_key (fst kv) # events (snd kv)) kvs)) g1) g1 yajl_gen_map_key
      (tail_text (0x2C # newline y) (map (pair_text y d) kvs))"
    if "like g g1" "top_state g1 = yajl_gen_map_key" for g1
    by (rule Cons.IH) (use that Cons.prems in \<open>auto simp: like_fields\<close>)
  from goes_bind [OF v this] show ?case
    by (simp add: gen_run_append [of bad fmt "E_map_key (fst kv) # events (snd kv)", simplified] sep_text_def)
qed (simp add: goes_Some)

lemma run_object:
  assumes "\<forall>kv\<in>set kvs. gens_value bad fmt TYPE('c) (snd kv) \<and> d + nesting (snd kv) < YAJL_MAX_DEPTH \<and> json_ok (snd kv) \<and>
      yajl_string_validate_utf8 (fst kv)"
    and "style_of g = y" "depth g = d" "top_state g = yajl_gen_map_start"
  shows "goes (gen_run bad fmt (concat (map (\<lambda>kv. E_map_key (fst kv) # events (snd kv)) kvs)) (g :: 'c yajl_gen)) g
    (if kvs = [] then yajl_gen_map_start else yajl_gen_map_key) (sep_join (0x2C # newline y) (map (pair_text y d) kvs))"
proof (cases kvs)
  case (Cons kv us)
  have v: "goes (gen_run bad fmt (E_map_key (fst kv) # events (snd kv)) g) g yajl_gen_map_key
      (sep_text y yajl_gen_map_start @ pair_text y d (fst kv, snd kv))"
    by (rule run_pair) (use assms Cons in \<open>auto simp: takes_key_def\<close>)
  have "goes (gen_run bad fmt (concat (map (\<lambda>kv. E_map_key (fst kv) # events (snd kv)) us)) g1) g1 yajl_gen_map_key
      (tail_text (0x2C # newline y) (map (pair_text y d) us))"
    if "like g g1" "top_state g1 = yajl_gen_map_key" for g1
    by (rule run_pairs) (use that assms Cons in \<open>auto simp: like_fields\<close>)
  from goes_bind [OF v this] show ?thesis using Cons
    by (simp add: gen_run_append [of bad fmt "E_map_key (fst kv) # events (snd kv)", simplified] sep_text_def sep_join_tail
        del: sep_join.simps(2))
qed (simp add: goes_Some assms)

lemma gen_run_fun: "gen_run bad fmt [] = Some" "gen_run bad fmt (evs @ evs') = (\<lambda>g. Option.bind (gen_run bad fmt evs g) (gen_run bad fmt evs'))"
  "gen_run bad fmt (ev # evs) = (\<lambda>g. Option.bind (okay (gen_event bad fmt g ev)) (gen_run bad fmt evs))"
  by (simp_all add: fun_eq_iff gen_run_append)

lemma gens_values: "gens_value bad fmt TYPE('c) v"
proof (induction v)
  case J_null
  show ?case by (rule gens_value_atom) (auto intro!: goes_atoms)
next
  case (J_bool b)
  show ?case by (rule gens_value_atom [of _ "E_boolean b"]) (auto intro!: goes_atoms(2) [where b = True, simplified] goes_atoms(2) [where b = False, simplified])
next
  case (J_int i)
  show ?case by (rule gens_value_atom [of _ "E_integer i"]) (auto intro!: goes_atoms)
next
  case (J_string s)
  show ?case by (rule gens_value_atom [of _ "E_string s"]) (auto intro!: goes_string)
next
  case (J_array vs)
  show ?case unfolding gens_value_def
  proof (intro allI impI)
    fix g :: "'c yajl_gen" and y d st
    assume a: "style_of g = y \<and> depth g = d \<and> top_state g = st \<and> takes_value st \<and> d + nesting (J_array vs) < YAJL_MAX_DEPTH \<and> json_ok (J_array vs)"
    then have vs: "\<forall>v\<in>set vs. gens_value bad fmt TYPE('c) v \<and> Suc d + nesting v < YAJL_MAX_DEPTH \<and> json_ok v"
      using J_array fold_max_le [of "map nesting vs" 0 "fold max (map nesting vs) 0"] by (fastforce simp: list_all_iff)
    have "goes (do { g1 \<leftarrow> okay (gen_open g yajl_gen_array_start 0x5B); g2 \<leftarrow> gen_run bad fmt (concat (map events vs)) g1;
        okay (gen_close g2 0x5D) }) g (after st)
      (value_text y d st ([0x5B] @ newline y @ sep_join (0x2C # newline y) (map (\<lambda>v. indent y (Suc d) @ json_text y (Suc d) v) vs) @
        newline y @ indent y d @ [0x5D]))"
      by (rule goes_container [where ?st1.0 = "if vs = [] then yajl_gen_array_start else yajl_gen_in_array"])
        (use a run_array [OF vs] in auto)
    then show "goes (gen_run bad fmt (events (J_array vs)) g) g (after st) (value_text y d st (json_text y d (J_array vs)))"
      by (simp add: gen_run_fun yajl_gen_array_open_def yajl_gen_array_close_def)
  qed
next
  case (J_object kvs)
  show ?case unfolding gens_value_def
  proof (intro allI impI)
    fix g :: "'c yajl_gen" and y d st
    assume a: "style_of g = y \<and> depth g = d \<and> top_state g = st \<and> takes_value st \<and> d + nesting (J_object kvs) < YAJL_MAX_DEPTH \<and> json_ok (J_object kvs)"
    then have kvs: "\<forall>kv\<in>set kvs. gens_value bad fmt TYPE('c) (snd kv) \<and> Suc d + nesting (snd kv) < YAJL_MAX_DEPTH \<and> json_ok (snd kv) \<and>
        yajl_string_validate_utf8 (fst kv)"
      using J_object fold_max_le [of "map (\<lambda>kv. nesting (snd kv)) kvs" 0 "fold max (map (\<lambda>kv. nesting (snd kv)) kvs) 0"]
      by (fastforce simp: list_all_iff)
    have "goes (do { g1 \<leftarrow> okay (gen_open g yajl_gen_map_start 0x7B);
        g2 \<leftarrow> gen_run bad fmt (concat (map (\<lambda>kv. E_map_key (fst kv) # events (snd kv)) kvs)) g1;
        okay (gen_close g2 0x7D) }) g (after st)
      (value_text y d st ([0x7B] @ newline y @ sep_join (0x2C # newline y) (map (pair_text y (Suc d)) kvs) @
        newline y @ indent y d @ [0x7D]))"
      by (rule goes_container [where ?st1.0 = "if kvs = [] then yajl_gen_map_start else yajl_gen_map_key"])
        (use a run_object [OF kvs] in auto)
    moreover have "map (pair_text y (Suc d)) kvs = map (\<lambda>kv. indent y (Suc d) @ json_string y (fst kv) @ [0x3A] @
        (if s_beautify y then [0x20] else []) @ json_text y (Suc d) (snd kv)) kvs"
      by (simp add: pair_text_def)
    ultimately show "goes (gen_run bad fmt (events (J_object kvs)) g) g (after st) (value_text y d st (json_text y d (J_object kvs)))"
      by (simp add: gen_run_fun yajl_gen_map_open_def yajl_gen_map_close_def)
  qed
qed

end
