(* ===== verification/Yajl_Roundtrip.thy ===== *)
theory Yajl_Roundtrip imports Yajl_Gen_Props begin

text \<open>
  Generating a value and parsing the text: the reference lexer on the tokens that were printed, the reference parser on
  the text of a value, and what the callbacks of a client, and of the tree builder of \<open>yajl_tree.c\<close>, then make of it.
\<close>

section \<open>Lexing what was generated\<close>






















section \<open>Decoding a string token\<close>





section \<open>Numbers and keywords\<close>













section \<open>A client that accepts events\<close>







section \<open>Steps of the reference parser\<close>


















section \<open>Reading a value\<close>




















section \<open>Objects\<close>





section \<open>Documents\<close>







section \<open>A configured generator\<close>






section \<open>Properties\<close>




section \<open>Trees\<close>































end
