(* ===== verification/Yajl_Context.thy ===== *)
theory Yajl_Context imports Yajl_Parser begin

text \<open>
  What the callbacks keep of the client's context, the parser keeps: the parser changes the context only
  through the callbacks.
\<close>

section \<open>Handles with a good context\<close>

definition ctx_ok :: "('c, 'd) yajl_callbacks \<Rightarrow> ('c \<Rightarrow> bool) \<Rightarrow> ('c, 'd) yajl_handle \<Rightarrow> bool" where
  "ctx_ok cbs I h \<longleftrightarrow> callbacks h = Some cbs \<and> I (hctx h)"

definition step_ok :: "('c, 'd) yajl_callbacks \<Rightarrow> ('c \<Rightarrow> bool) \<Rightarrow> ('c, 'd) pstep option \<Rightarrow> bool" where
  "step_ok cbs I out \<longleftrightarrow>
     (case out of None \<Rightarrow> True | Some (Return st h) \<Rightarrow> ctx_ok cbs I h | Some (Again h) \<Rightarrow> ctx_ok cbs I h)"

lemma step_ok_simps [simp]:
  "step_ok cbs I None" "step_ok cbs I (Some (Return st h)) = ctx_ok cbs I h" "step_ok cbs I (Some (Again h)) = ctx_ok cbs I h"
  by (simp_all add: step_ok_def)

lemma step_ok_bind: "(\<And>x. r = Some x \<Longrightarrow> step_ok cbs I (f x)) \<Longrightarrow> step_ok cbs I (Option.bind r f)"
  by (cases r) simp_all

lemma ctx_ok_update [simp]:
  "ctx_ok cbs I (h\<lparr>lexer := l\<rparr>) = ctx_ok cbs I h" "ctx_ok cbs I (h\<lparr>bytesConsumed := n\<rparr>) = ctx_ok cbs I h"
  "ctx_ok cbs I (h\<lparr>decodeBuf := d\<rparr>) = ctx_ok cbs I h" "ctx_ok cbs I (h\<lparr>stateStack := s\<rparr>) = ctx_ok cbs I h"
  "ctx_ok cbs I (h\<lparr>parseError := e\<rparr>) = ctx_ok cbs I h" "ctx_ok cbs I (h\<lparr>c_erange := b\<rparr>) = ctx_ok cbs I h"
  "ctx_ok cbs I (pop_state h) = ctx_ok cbs I h" "ctx_ok cbs I (restore_offset n h) = ctx_ok cbs I h"
  "ctx_ok cbs I (ensure_lexer h) = ctx_ok cbs I h"
  by (simp_all add: ctx_ok_def pop_state_def restore_offset_def ensure_lexer_def)

lemma ctx_ok_set_top: "set_top st h = Some h' \<Longrightarrow> ctx_ok cbs I h \<Longrightarrow> ctx_ok cbs I h'"
  by (auto simp: set_top_def opt_simps)

lemma ctx_ok_fail: "fail_parse msg h = Some h' \<Longrightarrow> ctx_ok cbs I h \<Longrightarrow> ctx_ok cbs I h'"
  by (auto simp: fail_parse_def opt_simps dest: ctx_ok_set_top)

lemma ctx_ok_fail_update:
  "fail_parse msg (h\<lparr>c_erange := e\<rparr>) = Some h' \<Longrightarrow> ctx_ok cbs I h \<Longrightarrow> ctx_ok cbs I h'"
  "fail_parse msg (h\<lparr>decodeBuf := d, c_erange := e\<rparr>) = Some h' \<Longrightarrow> ctx_ok cbs I h \<Longrightarrow> ctx_ok cbs I h'"
  using ctx_ok_fail by fastforce+

lemma again_set_top: "ctx_ok cbs I h \<Longrightarrow> step_ok cbs I (again (set_top st h))"
  by (cases "set_top st h") (auto simp: again_def dest: ctx_ok_set_top)

lemma again_fail: "ctx_ok cbs I h \<Longrightarrow> step_ok cbs I (again (fail_parse msg h))"
  by (cases "fail_parse msg h") (auto simp: again_def dest: ctx_ok_fail)

lemma again_fail_restore: "ctx_ok cbs I h \<Longrightarrow> step_ok cbs I (again (map_option (restore_offset n) (fail_parse msg h)))"
  by (cases "fail_parse msg h") (auto simp: again_def dest: ctx_ok_fail)

lemma got_value_ok: "ctx_ok cbs I h \<Longrightarrow> step_ok cbs I (got_value push h)"
  by (cases push) (auto simp: got_value_def intro!: step_ok_bind dest: ctx_ok_set_top)

lemma next_tok_ok: "next_tok text n h = Some (tok, buf, len, h') \<Longrightarrow> ctx_ok cbs I h \<Longrightarrow> ctx_ok cbs I h'"
  by (auto simp: next_tok_def opt_simps Let_def)

lemma decode_tok_ok: "decode_tok text buf n h = Some h' \<Longrightarrow> ctx_ok cbs I h \<Longrightarrow> ctx_ok cbs I h'"
  by (auto simp: decode_tok_def opt_simps)

lemma cc_chk_ok:
  assumes "ctx_ok cbs I h" "\<And>c b. r = Some (c, b) \<Longrightarrow> I c" "\<And>h1. ctx_ok cbs I h1 \<Longrightarrow> step_ok cbs I (k h1)"
  shows "step_ok cbs I (cc_chk h r k)"
proof (cases r)
  case (Some x)
  then have "ctx_ok cbs I (h\<lparr>hctx := fst x\<rparr>)" using assms(1,2) by (cases x) (simp add: ctx_ok_def)
  then show ?thesis using assms(3) Some by (auto simp: cc_chk_def Let_def intro!: step_ok_bind dest: ctx_ok_fail)
qed (simp add: cc_chk_def)

lemma the_cb_ok: "ctx_ok cbs I h \<Longrightarrow> the_cb sel h = sel cbs"
  by (simp add: the_cb_def ctx_ok_def)

lemma ctx_okD: "ctx_ok cbs I h \<Longrightarrow> I (hctx h)"
  by (simp add: ctx_ok_def)

section \<open>Callbacks that keep an invariant\<close>

locale context_invariant =
  fixes cbs :: "('c, 'd) yajl_callbacks" and I :: "'c \<Rightarrow> bool"
  assumes null: "cb_null cbs = Some f0 \<Longrightarrow> I c \<Longrightarrow> f0 c m = Some (c', b) \<Longrightarrow> I c'"
    and boolean: "cb_boolean cbs = Some f1 \<Longrightarrow> I c \<Longrightarrow> f1 c m v = Some (c', b) \<Longrightarrow> I c'"
    and integer: "cb_integer cbs = Some f2 \<Longrightarrow> I c \<Longrightarrow> f2 c m i = Some (c', b) \<Longrightarrow> I c'"
    and double: "cb_double cbs = Some f3 \<Longrightarrow> I c \<Longrightarrow> f3 c m d = Some (c', b) \<Longrightarrow> I c'"
    and number: "cb_number cbs = Some f4 \<Longrightarrow> I c \<Longrightarrow> f4 c m p n = Some (c', b) \<Longrightarrow> I c'"
    and string: "cb_string cbs = Some f4 \<Longrightarrow> I c \<Longrightarrow> f4 c m p n = Some (c', b) \<Longrightarrow> I c'"
    and start_map: "cb_start_map cbs = Some f0 \<Longrightarrow> I c \<Longrightarrow> f0 c m = Some (c', b) \<Longrightarrow> I c'"
    and map_key: "cb_map_key cbs = Some f4 \<Longrightarrow> I c \<Longrightarrow> f4 c m p n = Some (c', b) \<Longrightarrow> I c'"
    and end_map: "cb_end_map cbs = Some f0 \<Longrightarrow> I c \<Longrightarrow> f0 c m = Some (c', b) \<Longrightarrow> I c'"
    and start_array: "cb_start_array cbs = Some f0 \<Longrightarrow> I c \<Longrightarrow> f0 c m = Some (c', b) \<Longrightarrow> I c'"
    and end_array: "cb_end_array cbs = Some f0 \<Longrightarrow> I c \<Longrightarrow> f0 c m = Some (c', b) \<Longrightarrow> I c'"
begin

lemma with_cb_ok:
  assumes "ctx_ok cbs I h" "\<And>f c m c' b. sel cbs = Some f \<Longrightarrow> I c \<Longrightarrow> app (f c m) = Some (c', b) \<Longrightarrow> I c'"
    and "\<And>h1. ctx_ok cbs I h1 \<Longrightarrow> step_ok cbs I (k h1)"
  shows "step_ok cbs I (with_cb sel app text h k)"
proof (cases "sel cbs")
  case None
  then show ?thesis using assms(1,3) by (simp add: with_cb_def the_cb_ok)
next
  case (Some f)
  have "step_ok cbs I (cc_chk h (app (f (hctx h) (the_mem text h))) k)"
    by (rule cc_chk_ok [OF assms(1) _ assms(3)]) (use assms(2) [OF Some] ctx_okD [OF assms(1)] in blast)+
  then show ?thesis using assms(1) Some by (simp add: with_cb_def the_cb_ok)
qed

lemma step_integer_ok:
  assumes "ctx_ok cbs I h" "\<And>h1. ctx_ok cbs I h1 \<Longrightarrow> step_ok cbs I (k h1)"
  shows "step_ok cbs I (step_integer text buf n h k)"
proof (cases "cb_number cbs")
  case (Some f)
  then show ?thesis using assms number [OF Some ctx_okD [OF assms(1)]]
    by (auto simp: step_integer_def the_cb_ok intro!: cc_chk_ok)
next
  case None
  show ?thesis
  proof (cases "cb_integer cbs")
    case (Some f)
    then show ?thesis using None assms integer [OF Some ctx_okD [OF assms(1)]]
      by (auto simp: step_integer_def the_cb_ok again_def Let_def intro!: cc_chk_ok step_ok_bind) (erule ctx_ok_fail_update(1), assumption)+
  qed (use None assms in \<open>simp add: step_integer_def the_cb_ok\<close>)
qed

lemma step_double_ok:
  assumes "ctx_ok cbs I h" "\<And>h1. ctx_ok cbs I h1 \<Longrightarrow> step_ok cbs I (k h1)"
  shows "step_ok cbs I (step_double strtod text buf n h k)"
proof (cases "cb_number cbs")
  case (Some f)
  then show ?thesis using assms number [OF Some ctx_okD [OF assms(1)]]
    by (auto simp: step_double_def the_cb_ok intro!: cc_chk_ok)
next
  case None
  show ?thesis
  proof (cases "cb_double cbs")
    case (Some f)
    then show ?thesis using None assms double [OF Some ctx_okD [OF assms(1)]]
      by (auto simp: step_double_def the_cb_ok again_def Let_def intro!: cc_chk_ok step_ok_bind) (erule ctx_ok_fail_update(2), assumption)+
  qed (use None assms in \<open>simp add: step_double_def the_cb_ok\<close>)
qed

lemma value_tok_ok:
  assumes "ctx_ok cbs I h"
  shows "step_ok cbs I (value_tok strtod text tok buf n h)"
  using assms
  by (cases tok)
    (auto simp: value_tok_def Let_def intro!: again_set_top again_fail with_cb_ok step_ok_bind got_value_ok step_integer_ok step_double_ok
       dest: null boolean string start_map start_array end_array decode_tok_ok split: option.split)

lemma key_tok_ok:
  assumes "ctx_ok cbs I h"
  shows "step_ok cbs I (key_tok text tok buf n h)"
  using assms
  by (cases tok)
    (auto simp: key_tok_def Let_def intro!: again_set_top again_fail with_cb_ok step_ok_bind
       dest: map_key end_map decode_tok_ok split: option.split)

lemma parse_step_ok:
  assumes "ctx_ok cbs I h"
  shows "step_ok cbs I (parse_step strtod text n h)"
proof -
  have tok: "step_ok cbs I (Option.bind (next_tok text n h) f)" if "\<And>tok buf len h'. ctx_ok cbs I h' \<Longrightarrow> step_ok cbs I (f (tok, buf, len, h'))" for f
  proof (rule step_ok_bind)
    fix x
    assume "next_tok text n h = Some x"
    then show "step_ok cbs I (f x)" using next_tok_ok [of "text" n h] assms that by (cases x) auto
  qed
  have "step_ok cbs I (step_value strtod text n h)" unfolding step_value_def by (rule tok) (simp add: value_tok_ok)
  moreover have "step_ok cbs I (step_key text n h)" unfolding step_key_def by (rule tok) (simp add: key_tok_ok)
  moreover have "step_ok cbs I (step_sep text n h)"
    unfolding step_sep_def by (rule tok) (auto simp: sep_tok_def intro: again_set_top again_fail split: yajl_tok.split)
  moreover have "step_ok cbs I (step_map_got_val text n h)"
    unfolding step_map_got_val_def
    by (rule tok) (auto simp: map_got_val_tok_def intro!: with_cb_ok again_set_top again_fail_restore dest: end_map split: yajl_tok.split)
  moreover have "step_ok cbs I (step_array_got_val text n h)"
    unfolding step_array_got_val_def
    by (rule tok) (auto simp: array_got_val_tok_def intro!: with_cb_ok again_set_top again_fail dest: end_array split: yajl_tok.split)
  moreover have "step_ok cbs I (step_complete text n h)"
    unfolding step_complete_def using assms by (auto intro!: tok again_set_top again_fail simp: Let_def)
  ultimately show ?thesis unfolding parse_step_def using assms by (auto intro!: step_ok_bind split: yajl_state.split)
qed

lemma around_again_ok:
  assumes "around_again strtod js n h = Some r" "ctx_ok cbs I h"
  shows "ctx_ok cbs I (snd r)"
proof -
  have "ctx_ok cbs I h \<longrightarrow> ctx_ok cbs I (snd r)"
  proof (rule around_again.raw_induct [of "\<lambda>_ _ _ h r. ctx_ok cbs I h \<longrightarrow> ctx_ok cbs I (snd r)", OF _ assms(1)])
    fix f strtod js n h r
    assume f: "\<And>strtod js n h r. f strtod js n h = Some r \<Longrightarrow> ctx_ok cbs I h \<longrightarrow> ctx_ok cbs I (snd r)"
      and r: "Option.bind (parse_step strtod js n h) (\<lambda>r. case r of Return st h1 \<Rightarrow> Some (st, h1)
                | Again h1 \<Rightarrow> f strtod js n h1) = Some r"
    obtain x where x: "parse_step strtod js n h = Some x" using r by (cases "parse_step strtod js n h") auto
    show "ctx_ok cbs I h \<longrightarrow> ctx_ok cbs I (snd r)"
    proof
      assume "ctx_ok cbs I h"
      then have "step_ok cbs I (Some x)" using parse_step_ok [of h strtod js n] x by simp
      then show "ctx_ok cbs I (snd r)" using r x f by (cases x) auto
    qed
  qed
  then show ?thesis using assms(2) by blast
qed

lemma yajl_do_parse_ok: "yajl_do_parse strtod text n h = Some (st, h') \<Longrightarrow> ctx_ok cbs I h \<Longrightarrow> ctx_ok cbs I h'"
  using around_again_ok [of strtod "text" n "h\<lparr>bytesConsumed := 0\<rparr>" "(st, h')"] by (simp add: yajl_do_parse_def)

lemma yajl_parse_ok: "yajl_parse strtod h text n = Some (st, h') \<Longrightarrow> ctx_ok cbs I h \<Longrightarrow> ctx_ok cbs I h'"
  using yajl_do_parse_ok [of strtod "text" n "ensure_lexer h"] by (simp add: yajl_parse_def)

lemma yajl_complete_parse_ok:
  assumes "yajl_complete_parse strtod h = Some (st, h')" "ctx_ok cbs I h"
  shows "ctx_ok cbs I h'"
proof -
  obtain st1 h1 where h1: "yajl_do_parse strtod [0x20] 1 (ensure_lexer h) = Some (st1, h1)"
    using assms(1) by (auto simp: yajl_complete_parse_def yajl_do_finish_def opt_simps)
  then have "ctx_ok cbs I h1" using yajl_do_parse_ok assms(2) by (metis ctx_ok_update(9))
  then show ?thesis using assms(1) h1
    by (auto simp: yajl_complete_parse_def yajl_do_finish_def opt_simps Let_def split: if_splits dest: ctx_ok_fail)
qed

end

end
