(* ===== verification/Wy_Scheduler.thy ===== *)
theory Wy_Scheduler imports Wy_Object begin

text \<open>
  The timers of \<open>nodes/wyScheduler.cpp\<close> and the callbacks of \<open>utils/wyTargetSelector.cpp\<close>, on the
  reference counted objects of \<open>Wy_Object\<close> and the arrays of \<open>Wy_Array\<close>. A timer or target selector
  is an object of the memory whose number is its address; its fields are kept beside it. \<open>None\<close> is no
  defined result: the use of a destroyed object or the overflow of a counter.

  What lies outside these files is a parameter: the \<open>float\<close> operations, the references the
  destructors of other objects release, \<open>IsSameObject\<close> of JNI, and what the client does when one of
  its methods is called back, the list of the calls it makes into this code. A callback that calls
  \<open>tickLocked\<close> itself is not modelled.
\<close>

section \<open>Target selectors\<close>

datatype prototype = PROTO_NONE | PROTO_INT | PROTO_FLOAT | PROTO_PVOID

text \<open>The union \<open>ArgValue\<close>; \<open>ArgZero\<close> is one cleared by \<open>memset\<close>.\<close>

datatype 'f arg_value = ArgZero | ArgInt int | ArgFloat 'f | ArgPtr "nat ptr"

text \<open>
  \<open>m_delta\<close> is uninitialised until the first \<open>setDelta\<close>, and so is \<open>m_prototype\<close> of a selector that
  is identified by an \<open>m_id\<close>. A member function is the number of its code.
\<close>

record 'f wyTargetSelector =
  m_target :: "nat ptr"
  m_id :: int
  m_delta :: "'f option"
  m_prototype :: "prototype option"
  m_data :: "'f arg_value"
  m_sel :: "nat ptr"
  m_jTarget :: "nat ptr"

text \<open>The five constructors, with the values their \<open>make\<close> functions pass on.\<close>

datatype 'f selector_args =
    MakeId "nat ptr" int "'f arg_value"
  | MakeSel "nat ptr" "nat ptr"
  | MakeSelI "nat ptr" "nat ptr" int
  | MakeSelF "nat ptr" "nat ptr" 'f
  | MakeSelP "nat ptr" "nat ptr" "nat ptr"
  | MakeJava nat

fun wyTargetSelector_init :: "'f selector_args \<Rightarrow> 'f wyTargetSelector" where
  "wyTargetSelector_init (MakeId callback i v) =
     \<lparr>m_target = callback, m_id = i, m_delta = None, m_prototype = None, m_data = v, m_sel = None, m_jTarget = None\<rparr>"
| "wyTargetSelector_init (MakeSel target sel) =
     \<lparr>m_target = target, m_id = 0, m_delta = None, m_prototype = Some PROTO_NONE, m_data = ArgZero, m_sel = sel, m_jTarget = None\<rparr>"
| "wyTargetSelector_init (MakeSelI target sel i) =
     \<lparr>m_target = target, m_id = 0, m_delta = None, m_prototype = Some PROTO_INT, m_data = ArgInt i, m_sel = sel, m_jTarget = None\<rparr>"
| "wyTargetSelector_init (MakeSelF target sel f) =
     \<lparr>m_target = target, m_id = 0, m_delta = None, m_prototype = Some PROTO_FLOAT, m_data = ArgFloat f, m_sel = sel, m_jTarget = None\<rparr>"
| "wyTargetSelector_init (MakeSelP target sel p) =
     \<lparr>m_target = target, m_id = 0, m_delta = None, m_prototype = Some PROTO_PVOID, m_data = ArgPtr p, m_sel = sel, m_jTarget = None\<rparr>"
| "wyTargetSelector_init (MakeJava j) =
     \<lparr>m_target = None, m_id = 0, m_delta = None, m_prototype = Some PROTO_NONE, m_data = ArgZero, m_sel = None, m_jTarget = Some j\<rparr>"

text \<open>\<open>operator==\<close> of the selectors at the addresses \<open>p\<close> and \<open>q\<close>.\<close>

definition wyTargetSelectorEquals ::
  "(nat \<Rightarrow> nat \<Rightarrow> bool) \<Rightarrow> nat \<Rightarrow> 'f wyTargetSelector \<Rightarrow> nat \<Rightarrow> 'f wyTargetSelector \<Rightarrow> bool" where
  "wyTargetSelectorEquals same p x q y \<longleftrightarrow>
     p = q \<or>
     (m_target x \<noteq> None \<and> m_target x = m_target y \<and>
       (m_sel x \<noteq> None \<and> m_sel x = m_sel y \<or> m_sel x = None \<and> m_id x = m_id y)) \<or>
     (case (m_jTarget x, m_jTarget y) of (Some j, Some k) \<Rightarrow> same j k | _ \<Rightarrow> False)"

text \<open>What \<open>invoke\<close> calls: a method of the target with its argument, or the Java object.\<close>

datatype 'f invocation =
    CallSel nat nat
  | CallSelI nat nat int
  | CallSelF nat nat 'f
  | CallSelP nat nat "nat ptr"
  | OnTargetSelectorInvoked nat
  | CallJava nat

text \<open>
  \<open>None\<close>: no defined result (reading a prototype or a union member that was not written);
  \<open>Some None\<close>: nothing is called.
\<close>

definition invocation_of :: "'f wyTargetSelector \<Rightarrow> 'f invocation option option" where
  "invocation_of x =
     (case m_target x of
        Some q \<Rightarrow>
          (case m_sel x of
             Some f \<Rightarrow>
               do { k \<leftarrow> m_prototype x;
                    case k of
                      PROTO_NONE \<Rightarrow> Some (Some (CallSel q f))
                    | PROTO_INT \<Rightarrow> (case m_data x of ArgInt i \<Rightarrow> Some (Some (CallSelI q f i)) | _ \<Rightarrow> None)
                    | PROTO_FLOAT \<Rightarrow> (case m_data x of ArgFloat v \<Rightarrow> Some (Some (CallSelF q f v)) | _ \<Rightarrow> None)
                    | PROTO_PVOID \<Rightarrow> (case m_data x of ArgPtr v \<Rightarrow> Some (Some (CallSelP q f v)) | _ \<Rightarrow> None) }
           | None \<Rightarrow> Some (Some (OnTargetSelectorInvoked q)))
      | None \<Rightarrow> Some (map_option CallJava (m_jTarget x)))"

section \<open>Timers and the scheduler\<close>

record 'f wyTimer =
  m_targetSelector :: nat
  m_interval :: 'f
  m_elapsed :: 'f
  m_frame :: int
  m_elapsedFrame :: int
  m_counter :: int
  m_maxInvocation :: int
  m_paused :: bool
  m_pendingRemove :: bool
  m_done :: bool

text \<open>
  The memory, the fields of the timers and target selectors ever made, and the fields of
  \<open>gScheduler\<close>. Two fields are not in the code: \<open>claims\<close>, how many references of each object the
  clients hold, and \<open>invoked\<close>, the callbacks made so far with the elapsed time they were given.
\<close>

record 'f scheduler =
  memory_of :: memory
  selectors :: "nat \<rightharpoonup> 'f wyTargetSelector"
  timers :: "nat \<rightharpoonup> 'f wyTimer"
  m_scheduledTimers :: "nat wyArray"
  m_timersToAdd :: "nat wyArray"
  m_timersToRemove :: "nat wyArray"
  m_timeScale :: 'f
  claims :: "nat \<Rightarrow> nat"
  invoked :: "('f invocation \<times> 'f) list"

text \<open>The calls a client makes.\<close>

datatype 'f client_call =
    NewSelector "'f selector_args"
  | NewTimer nat
  | NewTimerInterval nat 'f
  | NewTimerFrame nat int
  | Retain nat
  | ReleaseRef nat
  | Schedule nat
  | Unschedule nat
  | SetInterval nat 'f
  | SetFrame nat int
  | SetMaxInvocation nat int
  | SetOneShot nat bool
  | SetPaused nat bool
  | Reset nat
  | SetTimeScale 'f

record 'f time_ops =
  f_add :: "'f \<Rightarrow> 'f \<Rightarrow> 'f"
  f_mul :: "'f \<Rightarrow> 'f \<Rightarrow> 'f"
  f_less :: "'f \<Rightarrow> 'f \<Rightarrow> bool"
  f_le :: "'f \<Rightarrow> 'f \<Rightarrow> bool"
  f_eq :: "'f \<Rightarrow> 'f \<Rightarrow> bool"
  f_zero :: 'f
  f_one :: 'f

text \<open>The surroundings: what the files do not define.\<close>

record 'f surroundings =
  float_of :: "'f time_ops"
  other_dtor :: "nat \<Rightarrow> ref_call list"
  on_gl_thread :: bool
  this_thread :: int
  same_java :: "nat \<Rightarrow> nat \<Rightarrow> bool"
  callback :: "'f invocation \<Rightarrow> 'f scheduler \<Rightarrow> 'f client_call list"

text \<open>A timer or target selector can be used while its object is alive.\<close>

definition timer_at :: "'f scheduler \<Rightarrow> nat \<Rightarrow> 'f wyTimer option" where
  "timer_at s p = do { _ \<leftarrow> object_at (memory_of s) p; timers s p }"

definition selector_at :: "'f scheduler \<Rightarrow> nat \<Rightarrow> 'f wyTargetSelector option" where
  "selector_at s p = do { _ \<leftarrow> object_at (memory_of s) p; selectors s p }"

definition change_timer :: "('f wyTimer \<Rightarrow> 'f wyTimer) \<Rightarrow> nat \<Rightarrow> 'f scheduler \<Rightarrow> 'f scheduler option" where
  "change_timer f p s = do { t \<leftarrow> timer_at s p; Some (s\<lparr>timers := (timers s)(p \<mapsto> f t)\<rparr>) }"

text \<open>\<open>~wyTimer\<close> releases its target selector; \<open>~wyTargetSelector\<close> releases nothing.\<close>

definition dtor_of :: "'f surroundings \<Rightarrow> 'f scheduler \<Rightarrow> nat \<Rightarrow> ref_call list" where
  "dtor_of env s p =
     (case timers s p of
        Some t \<Rightarrow> [Release (m_targetSelector t)]
      | None \<Rightarrow> if selectors s p = None then other_dtor env p else [])"

definition retain_ref :: "nat ptr \<Rightarrow> 'f scheduler \<Rightarrow> 'f scheduler option" where
  "retain_ref p s = do { m \<leftarrow> wyObjectRetain p (memory_of s); Some (s\<lparr>memory_of := m\<rparr>) }"

definition release_ref :: "'f surroundings \<Rightarrow> nat ptr \<Rightarrow> 'f scheduler \<Rightarrow> 'f scheduler option" where
  "release_ref env p s =
     do { m \<leftarrow> wyObjectRelease (dtor_of env s) (on_gl_thread env) (this_thread env) p (memory_of s);
          Some (s\<lparr>memory_of := m\<rparr>) }"

definition wyTargetSelector_new :: "'f selector_args \<Rightarrow> 'f scheduler \<Rightarrow> 'f scheduler" where
  "wyTargetSelector_new args s =
     (let (p, m) = wyObject_new None (memory_of s) in
      s\<lparr>memory_of := m, selectors := (selectors s)(p \<mapsto> wyTargetSelector_init args)\<rparr>)"

text \<open>The three constructors of \<open>wyTimer\<close> differ in \<open>interval\<close> and \<open>frame\<close>.\<close>

definition wyTimer_new :: "'f surroundings \<Rightarrow> nat \<Rightarrow> 'f \<Rightarrow> int \<Rightarrow> 'f scheduler \<Rightarrow> 'f scheduler option" where
  "wyTimer_new env ts interval frame s =
     (let (p, m) = wyObject_new None (memory_of s) in
      retain_ref (Some ts)
        (s\<lparr>memory_of := m,
           timers := (timers s)(p \<mapsto>
             \<lparr>m_targetSelector = ts, m_interval = interval, m_elapsed = f_zero (float_of env), m_frame = frame,
              m_elapsedFrame = 0, m_counter = 0, m_maxInvocation = 0, m_paused = False,
              m_pendingRemove = False, m_done = False\<rparr>)\<rparr>))"

definition setInterval :: "'f surroundings \<Rightarrow> 'f \<Rightarrow> 'f wyTimer \<Rightarrow> 'f wyTimer" where
  "setInterval env interval t =
     (let t1 = t\<lparr>m_interval := interval\<rparr> in
      if f_less (float_of env) (f_zero (float_of env)) (m_interval t1) then t1\<lparr>m_frame := 0\<rparr> else t1)"

definition setOneShot :: "bool \<Rightarrow> 'f wyTimer \<Rightarrow> 'f wyTimer" where
  "setOneShot flag t = (if flag then t\<lparr>m_maxInvocation := 1\<rparr> else t\<lparr>m_maxInvocation := 0\<rparr>)"

definition timer_reset :: "'f surroundings \<Rightarrow> 'f wyTimer \<Rightarrow> 'f wyTimer" where
  "timer_reset env t = t\<lparr>m_elapsed := f_zero (float_of env), m_elapsedFrame := 0, m_counter := 0, m_done := False\<rparr>"

definition wyTimerEquals :: "'f surroundings \<Rightarrow> 'f scheduler \<Rightarrow> nat ptr \<Rightarrow> nat ptr \<Rightarrow> bool option" where
  "wyTimerEquals env s ptr1 ptr2 =
     do { p \<leftarrow> ptr1; q \<leftarrow> ptr2; t1 \<leftarrow> timer_at s p; t2 \<leftarrow> timer_at s q;
          if p = q then Some True
          else do { x \<leftarrow> selector_at s (m_targetSelector t1); y \<leftarrow> selector_at s (m_targetSelector t2);
                    Some (wyTargetSelectorEquals (same_java env) (m_targetSelector t1) x (m_targetSelector t2) y \<and>
                          m_maxInvocation t1 = m_maxInvocation t2 \<and> m_done t1 = m_done t2) } }"

section \<open>Searching a queue\<close>

text \<open>
  The loops of \<open>wyArrayIndexOf\<close> and \<open>wyArrayDeleteObj\<close> with \<open>wyTimerEquals\<close> as the comparator, which
  reads memory and may therefore have no defined result.
\<close>

function timer_search :: "'f surroundings \<Rightarrow> 'f scheduler \<Rightarrow> nat wyArray \<Rightarrow> nat \<Rightarrow> nat \<Rightarrow> nat option" where
  "timer_search env s a t i =
     (if i < num a
      then do { v \<leftarrow> rd (cells a) i; elt \<leftarrow> v;
                same \<leftarrow> wyTimerEquals env s elt (Some t);
                if same then Some i else timer_search env s a t (Suc i) }
      else Some (num a))"
  by pat_completeness auto
termination by (relation "measure (\<lambda>(_, _, a, _, i). num a - i)") auto

declare timer_search.simps [simp del]

definition timer_index :: "'f surroundings \<Rightarrow> 'f scheduler \<Rightarrow> nat wyArray \<Rightarrow> nat \<Rightarrow> int option" where
  "timer_index env s a t = do { i \<leftarrow> timer_search env s a t 0; Some (if i < num a then int i else -1) }"

definition timer_delete ::
  "'f surroundings \<Rightarrow> 'f scheduler \<Rightarrow> nat wyArray \<Rightarrow> nat \<Rightarrow> (nat ptr \<times> nat wyArray) option" where
  "timer_delete env s a t =
     (if locked a then Some (None, a)
      else do { i \<leftarrow> timer_search env s a t 0;
                if i < num a then wyArrayDeleteIndex a (int i) else Some (None, a) })"

definition enqueue_add :: "nat \<Rightarrow> 'f scheduler \<Rightarrow> 'f scheduler option" where
  "enqueue_add t s =
     do { a \<leftarrow> wyArrayPush (m_timersToAdd s) (Some t); retain_ref (Some t) (s\<lparr>m_timersToAdd := a\<rparr>) }"

definition scheduleLocked :: "'f surroundings \<Rightarrow> nat \<Rightarrow> 'f scheduler \<Rightarrow> 'f scheduler option" where
  "scheduleLocked env t s =
     do { index \<leftarrow> timer_index env s (m_timersToRemove s) t;
          if 0 \<le> index
          then do { timer \<leftarrow> wyArrayGet (m_timersToRemove s) index;
                    if timer = Some t
                    then do { (timer', a) \<leftarrow> wyArrayDeleteIndex (m_timersToRemove s) index;
                              p \<leftarrow> timer';
                              s1 \<leftarrow> change_timer (\<lambda>x. x\<lparr>m_pendingRemove := False\<rparr>) p (s\<lparr>m_timersToRemove := a\<rparr>);
                              release_ref env (Some p) s1 }
                    else enqueue_add t s }
          else do { i \<leftarrow> timer_index env s (m_scheduledTimers s) t;
                    if 0 \<le> i then Some s
                    else do { j \<leftarrow> timer_index env s (m_timersToAdd s) t;
                              if 0 \<le> j then Some s else enqueue_add t s } } }"

definition unscheduleLocked :: "'f surroundings \<Rightarrow> nat \<Rightarrow> 'f scheduler \<Rightarrow> 'f scheduler option" where
  "unscheduleLocked env t s =
     do { index \<leftarrow> timer_index env s (m_timersToAdd s) t;
          if 0 \<le> index
          then do { (timer, a) \<leftarrow> wyArrayDeleteIndex (m_timersToAdd s) index;
                    release_ref env timer (s\<lparr>m_timersToAdd := a\<rparr>) }
          else do { i \<leftarrow> timer_index env s (m_scheduledTimers s) t;
                    if i = -1 then map_option (\<lambda>_. s) (timer_at s t)
                    else do { a \<leftarrow> wyArrayPush (m_timersToRemove s) (Some t);
                              s1 \<leftarrow> change_timer (\<lambda>x. x\<lparr>m_pendingRemove := True\<rparr>) t (s\<lparr>m_timersToRemove := a\<rparr>);
                              retain_ref (Some t) s1 } } }"

section \<open>The calls of a client\<close>

definition claim :: "nat \<Rightarrow> 'f scheduler \<Rightarrow> 'f scheduler" where
  "claim p s = s\<lparr>claims := (claims s)(p := Suc (claims s p))\<rparr>"

text \<open>A new object comes with one reference.\<close>

fun client_step :: "'f surroundings \<Rightarrow> 'f client_call \<Rightarrow> 'f scheduler \<Rightarrow> 'f scheduler option" where
  "client_step env (NewSelector args) s =
     Some (claim (length (objects (memory_of s))) (wyTargetSelector_new args s))"
| "client_step env (NewTimer ts) s =
     map_option (claim (length (objects (memory_of s)))) (wyTimer_new env ts (f_zero (float_of env)) 0 s)"
| "client_step env (NewTimerInterval ts interval) s =
     map_option (claim (length (objects (memory_of s)))) (wyTimer_new env ts interval 0 s)"
| "client_step env (NewTimerFrame ts frame) s =
     map_option (claim (length (objects (memory_of s)))) (wyTimer_new env ts (f_zero (float_of env)) frame s)"
| "client_step env (Retain p) s = map_option (claim p) (retain_ref (Some p) s)"
| "client_step env (ReleaseRef p) s =
     release_ref env (Some p) (s\<lparr>claims := (claims s)(p := claims s p - 1)\<rparr>)"
| "client_step env (Schedule t) s = scheduleLocked env t s"
| "client_step env (Unschedule t) s = unscheduleLocked env t s"
| "client_step env (SetInterval t v) s = change_timer (setInterval env v) t s"
| "client_step env (SetFrame t v) s = change_timer (\<lambda>x. x\<lparr>m_frame := v\<rparr>) t s"
| "client_step env (SetMaxInvocation t v) s = change_timer (\<lambda>x. x\<lparr>m_maxInvocation := v\<rparr>) t s"
| "client_step env (SetOneShot t b) s = change_timer (setOneShot b) t s"
| "client_step env (SetPaused t b) s = change_timer (\<lambda>x. x\<lparr>m_paused := b\<rparr>) t s"
| "client_step env (Reset t) s = change_timer (timer_reset env) t s"
| "client_step env (SetTimeScale v) s = Some (s\<lparr>m_timeScale := v\<rparr>)"

fun client_steps :: "'f surroundings \<Rightarrow> 'f client_call list \<Rightarrow> 'f scheduler \<Rightarrow> 'f scheduler option" where
  "client_steps env [] s = Some s"
| "client_steps env (c # cs) s = do { s1 \<leftarrow> client_step env c s; client_steps env cs s1 }"

section \<open>Firing\<close>

text \<open>\<open>setDelta\<close>: a Java target is told, a native one reads the field; without a target nothing happens.\<close>

definition setDelta :: "'f \<Rightarrow> nat \<Rightarrow> 'f scheduler \<Rightarrow> 'f scheduler option" where
  "setDelta delta p s =
     do { x \<leftarrow> selector_at s p;
          if m_jTarget x \<noteq> None then Some s
          else if m_target x \<noteq> None then Some (s\<lparr>selectors := (selectors s)(p \<mapsto> x\<lparr>m_delta := Some delta\<rparr>)\<rparr>)
          else Some s }"

text \<open>
  \<open>invoke\<close>: a native target must be alive, and then the client makes its calls.
  \<open>delta\<close> is the elapsed time just given to \<open>setDelta\<close>.
\<close>

definition invoke :: "'f surroundings \<Rightarrow> 'f \<Rightarrow> nat \<Rightarrow> 'f scheduler \<Rightarrow> 'f scheduler option" where
  "invoke env delta p s =
     do { x \<leftarrow> selector_at s p;
          inv \<leftarrow> invocation_of x;
          _ \<leftarrow> (case m_target x of None \<Rightarrow> Some () | Some q \<Rightarrow> map_option (\<lambda>_. ()) (object_at (memory_of s) q));
          case inv of
            None \<Rightarrow> Some s
          | Some i \<Rightarrow> (let s1 = s\<lparr>invoked := invoked s @ [(i, delta)]\<rparr> in client_steps env (callback env i s1) s1) }"

text \<open>Count the invocation and make it.\<close>

definition timer_due :: "'f surroundings \<Rightarrow> nat \<Rightarrow> 'f scheduler \<Rightarrow> 'f scheduler option" where
  "timer_due env p s =
     do { t \<leftarrow> timer_at s p;
          c \<leftarrow> int_range (m_counter t + 1);
          s1 \<leftarrow> change_timer (\<lambda>x. x\<lparr>m_counter := c\<rparr>) p s;
          s2 \<leftarrow> setDelta (m_elapsed t) (m_targetSelector t) s1;
          invoke env (m_elapsed t) (m_targetSelector t) s2 }"

definition wyTimer_fire :: "'f surroundings \<Rightarrow> 'f \<Rightarrow> nat \<Rightarrow> 'f scheduler \<Rightarrow> 'f scheduler option" where
  "wyTimer_fire env delta p s =
     do { t \<leftarrow> timer_at s p;
          let elapsed = f_add (float_of env) (m_elapsed t) delta;
          s1 \<leftarrow> change_timer (\<lambda>x. x\<lparr>m_elapsed := elapsed\<rparr>) p s;
          if 0 < m_frame t
          then do { ef \<leftarrow> int_range (m_elapsedFrame t + 1);
                    s2 \<leftarrow> change_timer (\<lambda>x. x\<lparr>m_elapsedFrame := ef\<rparr>) p s1;
                    if m_frame t \<le> ef
                    then do { s3 \<leftarrow> timer_due env p s2;
                              change_timer (\<lambda>x. x\<lparr>m_elapsedFrame := 0, m_elapsed := f_zero (float_of env)\<rparr>) p s3 }
                    else Some s2 }
          else if f_le (float_of env) (m_interval t) elapsed
          then do { s3 \<leftarrow> timer_due env p s1;
                    change_timer (\<lambda>x. x\<lparr>m_elapsed := f_zero (float_of env)\<rparr>) p s3 }
          else Some s1 }"

section \<open>The iterators of the scheduler\<close>

text \<open>
  The iterators over the queues a tick empties do not look at the queue itself and hand it through.
  The queue that is fired is put into the state, where the calls of the client find it locked.
\<close>

definition removeTimers :: "'f surroundings \<Rightarrow> (nat, 'f scheduler) array_iterator" where
  "removeTimers env a p i s =
     do { t \<leftarrow> p;
          (timer, b) \<leftarrow> timer_delete env s (m_scheduledTimers s) t;
          s1 \<leftarrow> release_ref env timer (s\<lparr>m_scheduledTimers := b\<rparr>);
          Some (a, s1, True) }"

definition addTimers :: "(nat, 'f scheduler) array_iterator" where
  "addTimers a p i s =
     do { b \<leftarrow> wyArrayPush (m_scheduledTimers s) p;
          s1 \<leftarrow> retain_ref p (s\<lparr>m_scheduledTimers := b\<rparr>);
          Some (a, s1, True) }"

definition releaseTimer :: "'f surroundings \<Rightarrow> (nat, 'f scheduler) array_iterator" where
  "releaseTimer env a p i s =
     do { t \<leftarrow> p;
          s1 \<leftarrow> change_timer (\<lambda>x. x\<lparr>m_pendingRemove := False\<rparr>) t s;
          s2 \<leftarrow> release_ref env (Some t) s1;
          Some (a, s2, True) }"

text \<open>What \<open>wyScheduler::fire\<close> does with a timer that has been invoked often enough.\<close>

definition retire :: "'f surroundings \<Rightarrow> nat \<Rightarrow> 'f scheduler \<Rightarrow> 'f scheduler option" where
  "retire env t s =
     do { (timer, b) \<leftarrow> timer_delete env s (m_timersToAdd s) t;
          c \<leftarrow> wyArrayPush (m_timersToRemove s) (Some t);
          s1 \<leftarrow> change_timer (\<lambda>x. x\<lparr>m_pendingRemove := True, m_done := True\<rparr>) t
                  (s\<lparr>m_timersToAdd := b, m_timersToRemove := c\<rparr>);
          s2 \<leftarrow> retain_ref (Some t) s1;
          release_ref env timer s2 }"

definition fire_timer :: "'f surroundings \<Rightarrow> 'f \<Rightarrow> nat \<Rightarrow> 'f scheduler \<Rightarrow> 'f scheduler option" where
  "fire_timer env delta t s =
     do { x \<leftarrow> timer_at s t;
          if m_done x \<or> m_paused x then Some s
          else do { s1 \<leftarrow> (if m_pendingRemove x then Some s else wyTimer_fire env delta t s);
                    y \<leftarrow> timer_at s1 t;
                    if 0 < m_maxInvocation y \<and> m_maxInvocation y \<le> m_counter y then retire env t s1 else Some s1 } }"

definition wyScheduler_fire :: "'f surroundings \<Rightarrow> 'f \<Rightarrow> (nat, 'f scheduler) array_iterator" where
  "wyScheduler_fire env delta a p i s =
     do { t \<leftarrow> p;
          s1 \<leftarrow> fire_timer env delta t (s\<lparr>m_scheduledTimers := a\<rparr>);
          Some (m_scheduledTimers s1, s1, True) }"

section \<open>A tick\<close>

definition remove_pending :: "'f surroundings \<Rightarrow> 'f scheduler \<Rightarrow> 'f scheduler option" where
  "remove_pending env s =
     do { (a, s1) \<leftarrow> wyArrayEach (removeTimers env) (m_timersToRemove s) s;
          (b, s2) \<leftarrow> wyArrayEach (releaseTimer env) a s1;
          c \<leftarrow> wyArrayClear b;
          Some (s2\<lparr>m_timersToRemove := c\<rparr>) }"

definition add_pending :: "'f surroundings \<Rightarrow> 'f scheduler \<Rightarrow> 'f scheduler option" where
  "add_pending env s =
     do { (a, s1) \<leftarrow> wyArrayEach addTimers (m_timersToAdd s) s;
          (b, s2) \<leftarrow> wyArrayEach (releaseTimer env) a s1;
          c \<leftarrow> wyArrayClear b;
          Some (s2\<lparr>m_timersToAdd := c\<rparr>) }"

definition fire_all :: "'f surroundings \<Rightarrow> 'f \<Rightarrow> 'f scheduler \<Rightarrow> 'f scheduler option" where
  "fire_all env delta s =
     do { (a, s1) \<leftarrow> wyArrayEach (wyScheduler_fire env delta) (m_scheduledTimers s) s;
          Some (s1\<lparr>m_scheduledTimers := a\<rparr>) }"

definition tickLocked :: "'f surroundings \<Rightarrow> 'f \<Rightarrow> 'f scheduler \<Rightarrow> 'f scheduler option" where
  "tickLocked env delta s =
     (let F = float_of env in
      if f_less F (f_zero F) delta
      then do { let d = (if \<not> f_eq F (m_timeScale s) (f_one F) then f_mul F delta (m_timeScale s) else delta);
                s1 \<leftarrow> remove_pending env s;
                s2 \<leftarrow> add_pending env s1;
                fire_all env d s2 }
      else Some s)"

text \<open>The constructor and the destructor of the scheduler; arrays that are not locked are freed.\<close>

definition wyScheduler_new :: "'f surroundings \<Rightarrow> memory \<Rightarrow> 'f scheduler option" where
  "wyScheduler_new env m =
     do { a \<leftarrow> wyArrayNew 10; b \<leftarrow> wyArrayNew 10; c \<leftarrow> wyArrayNew 10;
          Some \<lparr>memory_of = m, selectors = Map.empty, timers = Map.empty, m_scheduledTimers = a, m_timersToAdd = b,
                m_timersToRemove = c, m_timeScale = f_one (float_of env), claims = (\<lambda>_. 0), invoked = []\<rparr> }"

text \<open>What is left after the destructor is the memory.\<close>

definition wyScheduler_destroy :: "'f surroundings \<Rightarrow> 'f scheduler \<Rightarrow> memory option" where
  "wyScheduler_destroy env s =
     do { (_, s1) \<leftarrow> wyArrayEach (releaseTimer env) (m_timersToRemove s) s;
          (_, s2) \<leftarrow> wyArrayEach (releaseTimer env) (m_timersToAdd s1) s1;
          (_, s3) \<leftarrow> wyArrayEach (releaseTimer env) (m_scheduledTimers s2) s2;
          Some (memory_of s3) }"

end
