(* ===== verification/Wy_Scheduler_Spec.thy ===== *)
theory Wy_Scheduler_Spec imports Wy_Scheduler Wy_Object_Props begin

text \<open>
  The account of the scheduler: every reference to an object is held by a client, by a slot of one of
  the three queues or by the destructor of a live object (on top of the account of \<open>Wy_Object_Spec\<close>).
  Scheduling, unscheduling and the other calls of the clients are defined and keep it; what they do to
  the queues is given by functions on lists. The number \<open>n\<close> that the invariant carries is the room that
  is left: for entries in the queues and pools and for the counters of the timers.
\<close>

section \<open>What releases leave alone\<close>

text \<open>No task turns an object into a pool of a thread, and no object number is given out twice.\<close>

definition no_pool :: "memory \<Rightarrow> nat \<Rightarrow> bool" where
  "no_pool m p \<longleftrightarrow> p < length (objects m) \<and> (\<forall>x. object_at m p = Some x \<longrightarrow> thread_pool x = None)"

lemma no_pool_set:
  assumes "no_pool m p" "q = p \<and> c \<noteq> None \<Longrightarrow> thread_pool (the c) = None"
  shows "no_pool (set_object m q c) p"
proof (cases "q < length (objects m)")
  case True
  then show ?thesis using assms by (cases "q = p") (auto simp: no_pool_def object_at_set)
next
  case False
  then have "set_object m q c = m" by (simp add: set_object_def list_update_beyond)
  then show ?thesis using assms(1) by simp
qed

lemma no_pool_cong [simp]:
  "no_pool (m\<lparr>sAutoReleasePool := a\<rparr>) p = no_pool m p" "no_pool (m\<lparr>sLazyReleasePool := a\<rparr>) p = no_pool m p"
  "no_pool (m\<lparr>s_pools := b\<rparr>) p = no_pool m p"
  by (simp_all add: no_pool_def)

lemma no_pool_push:
  assumes "pool_push q o' m = Some m1" "no_pool m p"
  shows "no_pool m1 p"
proof -
  obtain x t os where x: "object_at m q = Some x" "thread_pool x = Some (t, os)"
    "m1 = set_object m q (Some (x\<lparr>thread_pool := Some (t, os @ [o'])\<rparr>))"
    using assms(1) by (auto simp: pool_push_def opt_simps split: if_splits)
  have "q \<noteq> p" using assms(2) x by (auto simp: no_pool_def)
  then show ?thesis using no_pool_set [OF assms(2), of q] by (simp add: x(3))
qed

lemma no_pool_step:
  assumes "task_step dtor gl t k s = Some (ts, s1)" "no_pool s p"
  shows "no_pool s1 p"
proof (cases "(dtor, gl, t, k, s)" rule: task_step.cases)
  case (1 dtor' gl' t' o' s')
  then have k: "k = Call (Release o')" by simp
  obtain x where x: "object_at s o' = Some x" using assms(1) by (auto simp: k opt_simps)
  have "s1 = s \<or> s1 = set_object s o' (Some (x\<lparr>m_retainCount := m_retainCount x - 1\<rparr>))"
    using assms(1) x by (auto simp: k Let_def split: if_splits)
  then show ?thesis using assms(2) x no_pool_set [OF assms(2), of o' "Some (x\<lparr>m_retainCount := m_retainCount x - 1\<rparr>)"]
    by (auto simp: no_pool_def)
next
  case (2 dtor' gl' t' o' s')
  have "no_pool (snd (wyAutoReleasePool_make t s)) p"
    using assms(2) by (auto simp: no_pool_def wyAutoReleasePool_make_def wyObject_new_def Let_def object_at_def nth_append)
  then show ?thesis using 2 assms no_pool_push
    by (auto simp: opt_simps autoRelease_def addToPool_def Let_def split: if_splits option.splits)
next
  case (3 dtor' gl' t' o' s')
  then show ?thesis using assms by (auto simp: opt_simps lazyRelease_def)
next
  case (4 dtor' gl' t' u s')
  then show ?thesis using assms by (auto simp: opt_simps unregister_def Let_def split: option.splits)
next
  case (5 dtor' gl' t' o' s')
  then show ?thesis using assms no_pool_set [OF assms(2)] by (auto simp: opt_simps)
qed

lemma no_pool_run: "run dtor gl t ts s = Some s' \<Longrightarrow> no_pool s p \<Longrightarrow> no_pool s' p"
proof (induction dtor gl t ts s rule: run.induct)
  case (2 dtor gl t k ts s)
  then obtain ts1 s1 where st: "task_step dtor gl t k s = Some (ts1, s1)" "run dtor gl t (ts1 @ ts) s1 = Some s'"
    by (auto split: option.splits)
  then show ?case using 2(1) [OF st(1)] no_pool_step [OF st(1) 2(3)] by simp
qed simp

section \<open>The account of the objects\<close>

text \<open>
  \<open>core env h n s\<close>: \<open>h\<close> counts the references to every object besides those that destructors hold, the
  fields of timers and selectors belong to objects, and there is room for \<open>n\<close> more steps in pools and
  counters.
\<close>

definition timer_ok :: "nat \<Rightarrow> 'f wyTimer \<Rightarrow> bool" where
  "timer_ok n t \<longleftrightarrow> 0 \<le> m_counter t \<and> m_counter t + int n < 2 ^ 31 \<and> 0 \<le> m_elapsedFrame t \<and> m_elapsedFrame t + int n < 2 ^ 31"

definition fields_ok :: "nat \<Rightarrow> 'f scheduler \<Rightarrow> bool" where
  "fields_ok n s \<longleftrightarrow>
     (\<forall>p t. timers s p = Some t \<longrightarrow>
        no_pool (memory_of s) p \<and> selectors s p = None \<and> selectors s (m_targetSelector t) \<noteq> None \<and> timer_ok n t) \<and>
     (\<forall>p x. selectors s p = Some x \<longrightarrow> no_pool (memory_of s) p \<and> invocation_of x \<noteq> None)"

definition core :: "'f surroundings \<Rightarrow> (nat \<Rightarrow> nat) \<Rightarrow> nat \<Rightarrow> 'f scheduler \<Rightarrow> bool" where
  "core env h n s \<longleftrightarrow>
     balanced (dtor_of env s) h (memory_of s) \<and> room (memory_of s) (n + memory_work (dtor_of env s) (memory_of s)) \<and>
     fields_ok n s"

lemma dtor_of_same: "timers s = timers s' \<Longrightarrow> selectors s = selectors s' \<Longrightarrow> dtor_of env s = dtor_of env s'"
  by (rule ext) (simp add: dtor_of_def cong: option.case_cong)

lemma dtor_of_cong [simp]:
  "dtor_of env (s\<lparr>memory_of := m\<rparr>) = dtor_of env s" "dtor_of env (s\<lparr>m_scheduledTimers := a\<rparr>) = dtor_of env s"
  "dtor_of env (s\<lparr>m_timersToAdd := a\<rparr>) = dtor_of env s" "dtor_of env (s\<lparr>m_timersToRemove := a\<rparr>) = dtor_of env s"
  "dtor_of env (s\<lparr>claims := c\<rparr>) = dtor_of env s" "dtor_of env (s\<lparr>m_timeScale := v\<rparr>) = dtor_of env s"
  "dtor_of env (s\<lparr>invoked := l\<rparr>) = dtor_of env s"
  by (rule dtor_of_same, simp, simp)+

lemma fields_ok_cong [simp]:
  "fields_ok n (s\<lparr>m_scheduledTimers := a\<rparr>) = fields_ok n s"
  "fields_ok n (s\<lparr>m_timersToAdd := a\<rparr>) = fields_ok n s" "fields_ok n (s\<lparr>m_timersToRemove := a\<rparr>) = fields_ok n s"
  "fields_ok n (s\<lparr>claims := c\<rparr>) = fields_ok n s" "fields_ok n (s\<lparr>m_timeScale := v\<rparr>) = fields_ok n s"
  "fields_ok n (s\<lparr>invoked := l\<rparr>) = fields_ok n s"
  by (simp_all add: fields_ok_def)

lemma core_cong [simp]:
  "core env h n (s\<lparr>m_scheduledTimers := a\<rparr>) = core env h n s"
  "core env h n (s\<lparr>m_timersToAdd := a\<rparr>) = core env h n s" "core env h n (s\<lparr>m_timersToRemove := a\<rparr>) = core env h n s"
  "core env h n (s\<lparr>claims := c\<rparr>) = core env h n s" "core env h n (s\<lparr>m_timeScale := v\<rparr>) = core env h n s"
  "core env h n (s\<lparr>invoked := l\<rparr>) = core env h n s"
  by (simp_all add: core_def)

lemma timer_at_cong [simp]:
  "timer_at (s\<lparr>m_scheduledTimers := a\<rparr>) = timer_at s" "timer_at (s\<lparr>m_timersToAdd := a\<rparr>) = timer_at s"
  "timer_at (s\<lparr>m_timersToRemove := a\<rparr>) = timer_at s" "timer_at (s\<lparr>claims := c\<rparr>) = timer_at s"
  "timer_at (s\<lparr>m_timeScale := v\<rparr>) = timer_at s" "timer_at (s\<lparr>invoked := l\<rparr>) = timer_at s"
  "selector_at (s\<lparr>m_scheduledTimers := a\<rparr>) = selector_at s" "selector_at (s\<lparr>m_timersToAdd := a\<rparr>) = selector_at s"
  "selector_at (s\<lparr>m_timersToRemove := a\<rparr>) = selector_at s" "selector_at (s\<lparr>claims := c\<rparr>) = selector_at s"
  "selector_at (s\<lparr>m_timeScale := v\<rparr>) = selector_at s" "selector_at (s\<lparr>invoked := l\<rparr>) = selector_at s"
  by (simp_all add: timer_at_def selector_at_def fun_eq_iff)

lemma core_less: "core env h n s \<Longrightarrow> m \<le> n \<Longrightarrow> core env h m s"
  unfolding core_def fields_ok_def timer_ok_def
  by (auto intro: room_le [of "memory_of s" "n + memory_work (dtor_of env s) (memory_of s)"]) (fastforce+)

lemma claimed_alive:
  assumes "core env h n s" "0 < h p"
  shows "\<exists>x. object_at (memory_of s) p = Some x \<and> 1 \<le> m_retainCount x"
  using retain_claimed [of "dtor_of env s" h "memory_of s" p] assms by (auto simp: core_def)

text \<open>A live timer has a live target selector: its destructor still has to release it.\<close>

lemma timer_selector:
  assumes "core env h n s" "object_at (memory_of s) p = Some x" "1 \<le> m_retainCount x" "timers s p = Some t"
  shows "\<exists>y. selector_at s (m_targetSelector t) = Some y \<and> selectors s (m_targetSelector t) = Some y"
proof -
  let ?d = "dtor_of env s" and ?m = "memory_of s" and ?q = "m_targetSelector t"
  have ok: "no_pool ?m p" "selectors s ?q \<noteq> None" using assms(1,4) by (auto simp: core_def fields_ok_def)
  have p: "p < length (objects ?m)" "objects ?m ! p = Some x" using assms(2) by (simp_all add: object_at_Some)
  have "holds ?d p (objects ?m ! p) = [?q]"
    using assms(2-4) ok(1) p by (simp add: holds_def destructor_def no_pool_def dtor_of_def)
  then have "1 \<le> held ?d ?m ?q"
    unfolding held_def using p(1) member_le_sum [of p "{..<length (objects ?m)}" "\<lambda>j. count_list (holds ?d j (objects ?m ! j)) ?q"]
    by simp
  moreover have "owed ?d h (entries_of (sAutoReleasePool ?m) @ entries_of (sLazyReleasePool ?m)) [] ?m ?q \<le> count_of ?m ?q"
    using assms(1) by (simp add: core_def balanced_def sound_def)
  ultimately have "0 < count_of ?m ?q" by (simp add: owed_def)
  then show ?thesis using ok(2) by (auto simp: count_of_def selector_at_def split: option.splits)
qed

lemma claimed_timer:
  assumes "core env h n s" "0 < h p" "timers s p \<noteq> None"
  obtains t y where "timer_at s p = Some t" "timers s p = Some t" "selector_at s (m_targetSelector t) = Some y"
    "selectors s (m_targetSelector t) = Some y" "timer_ok n t"
proof -
  obtain x where x: "object_at (memory_of s) p = Some x" "1 \<le> m_retainCount x" using claimed_alive [OF assms(1,2)] by blast
  obtain t where t: "timers s p = Some t" using assms(3) by blast
  show thesis using timer_selector [OF assms(1) x t] x t that assms(1) by (auto simp: timer_at_def core_def fields_ok_def)
qed

lemma retain_core:
  assumes "core env h n s" "0 < h p"
  shows "\<exists>m. retain_ref (Some p) s = Some (s\<lparr>memory_of := m\<rparr>) \<and> core env (h(p := Suc (h p))) n (s\<lparr>memory_of := m\<rparr>)"
proof -
  have bal: "balanced (dtor_of env s) h (memory_of s)" using assms(1) by (simp add: core_def)
  obtain x where x: "object_at (memory_of s) p = Some x" "1 \<le> m_retainCount x"
    "retain p (memory_of s) = Some (set_object (memory_of s) p (Some (x\<lparr>m_retainCount := m_retainCount x + 1\<rparr>)))"
    by (rule retain_claimed [OF bal assms(2)])
  let ?m = "set_object (memory_of s) p (Some (x\<lparr>m_retainCount := m_retainCount x + 1\<rparr>))"
  have p: "p < length (objects (memory_of s))" "objects (memory_of s) ! p = Some x" using x(1) by (simp_all add: object_at_Some)
  have b: "balanced (dtor_of env s) (h(p := Suc (h p))) ?m" by (rule balanced_raise [OF bal x(1,2)]) simp
  have w: "memory_work (dtor_of env s) ?m = memory_work (dtor_of env s) (memory_of s)"
    using memory_work_set [OF p(1), of "dtor_of env s" "Some (x\<lparr>m_retainCount := m_retainCount x + 1\<rparr>)"] p(2) x(2)
    by (simp add: object_work_def destructor_def)
  have "no_pool ?m q" if "no_pool (memory_of s) q" for q
    by (rule no_pool_set [OF that]) (use that x(1) in \<open>auto simp: no_pool_def\<close>)
  then have "core env (h(p := Suc (h p))) n (s\<lparr>memory_of := ?m\<rparr>)"
    using assms(1) b w by (auto simp: core_def fields_ok_def room_def)
  then show ?thesis using x(3) by (auto simp: retain_ref_def wyObjectRetain_def)
qed

definition env_ok :: "'f surroundings \<Rightarrow> bool" where
  "env_ok env \<longleftrightarrow> on_gl_thread env \<or> (\<forall>p. \<forall>c\<in>set (other_dtor env p). \<not> is_auto (Call c))"

lemma release_core:
  assumes "core env h (n + 6) s" "0 < h p" "env_ok env"
  shows "\<exists>m. release_ref env (Some p) s = Some (s\<lparr>memory_of := m\<rparr>) \<and> core env (h(p := h p - 1)) n (s\<lparr>memory_of := m\<rparr>)"
proof -
  let ?d = "dtor_of env s"
  have af: "auto_free ?d (on_gl_thread env) [Call (Release p)]"
    using assms(3) by (auto simp: auto_free_def env_ok_def is_auto_def dtor_of_def split: option.splits)
  obtain m where m: "run ?d (on_gl_thread env) (this_thread env) [Call (Release p)] (memory_of s) = Some m"
    "balanced ?d (h(p := h p - 1)) m" "room m (n + memory_work ?d m)"
    using call_balanced [of ?d h "memory_of s" "Release p" n "on_gl_thread env" "this_thread env"] assms(1,2) af
    by (auto simp: core_def)
  have f: "fields_ok n s" using core_less [OF assms(1), of n] by (simp add: core_def)
  have "fields_ok n (s\<lparr>memory_of := m\<rparr>)" using f no_pool_run [OF m(1)] by (auto simp: fields_ok_def)
  then show ?thesis using m by (auto simp: release_ref_def wyObjectRelease_def core_def)
qed

section \<open>Fields of timers and selectors\<close>

lemma change_core:
  assumes c: "core env h n s" and t: "timer_at s p = Some t" and f: "m_targetSelector (f t) = m_targetSelector t" "timer_ok n' (f t)"
    and n: "n' \<le> n"
  shows "change_timer f p s = Some (s\<lparr>timers := (timers s)(p \<mapsto> f t)\<rparr>) \<and> core env h n' (s\<lparr>timers := (timers s)(p \<mapsto> f t)\<rparr>)"
proof -
  let ?s = "s\<lparr>timers := (timers s)(p \<mapsto> f t)\<rparr>"
  have tp: "timers s p = Some t" using t by (auto simp: timer_at_def opt_simps)
  have d: "dtor_of env ?s = dtor_of env s" using tp f(1) by (intro ext) (auto simp: dtor_of_def split: option.splits)
  have "core env h n' s" by (rule core_less [OF c n])
  then have "fields_ok n' ?s" using tp f by (auto simp: core_def fields_ok_def)
  then have "core env h n' ?s" using \<open>core env h n' s\<close> d by (simp add: core_def)
  then show ?thesis using t by (simp add: change_timer_def)
qed


lemma invocation_of_delta [simp]: "invocation_of (x\<lparr>m_delta := d\<rparr>) = invocation_of x"
  by (cases "m_target x"; cases "m_sel x"; cases "m_prototype x"; cases "the (m_prototype x)") (simp_all add: invocation_of_def)

lemma setDelta_core:
  assumes "core env h n s" "selector_at s p = Some x"
  shows "\<exists>x'. setDelta delta p s = Some (s\<lparr>selectors := (selectors s)(p \<mapsto> x')\<rparr>) \<and>
    core env h n (s\<lparr>selectors := (selectors s)(p \<mapsto> x')\<rparr>) \<and> (x' = x \<or> x' = x\<lparr>m_delta := Some delta\<rparr>)"
proof -
  have xp: "selectors s p = Some x" using assms(2) by (auto simp: selector_at_def opt_simps)
  have id: "s\<lparr>selectors := (selectors s)(p \<mapsto> x)\<rparr> = s" using xp by (simp add: fun_upd_idem)
  let ?s = "s\<lparr>selectors := (selectors s)(p \<mapsto> x\<lparr>m_delta := Some delta\<rparr>)\<rparr>"
  have "dtor_of env ?s = dtor_of env s" using xp by (intro ext) (auto simp: dtor_of_def split: option.splits)
  moreover have "timers s p = None" using assms(1) xp by (cases "timers s p") (auto simp: core_def fields_ok_def)
  then have "fields_ok n ?s" using assms(1) xp by (auto simp: core_def fields_ok_def)
  ultimately have "core env h n ?s" using assms(1) by (simp add: core_def)
  then show ?thesis
    using id assms by (intro exI [of _ "if m_jTarget x = None \<and> m_target x \<noteq> None then x\<lparr>m_delta := Some delta\<rparr> else x"])
      (auto simp: setDelta_def)
qed

section \<open>New objects\<close>

lemma held_cong: "(\<And>p. p < length (objects m) \<Longrightarrow> d p = d' p) \<Longrightarrow> held d m q = held d' m q"
  unfolding held_def holds_def destructor_def by (intro sum.cong) (auto split: option.splits)

lemma balanced_cong:
  assumes "\<And>p. p < length (objects m) \<Longrightarrow> d p = d' p"
  shows "balanced d h m = balanced d' h m"
  using held_cong [of m d d'] assms by (simp add: balanced_def sound_def owed_def)

lemma memory_work_dtor_cong:
  assumes "\<And>p. p < length (objects m) \<Longrightarrow> d p = d' p"
  shows "memory_work d m = memory_work d' m"
  unfolding memory_work_def object_work_def destructor_def
  by (intro sum.cong) (use assms in \<open>auto split: option.splits\<close>)

lemma unborn_unclaimed:
  assumes "balanced d h m" "length (objects m) \<le> p"
  shows "h p = 0"
proof -
  have "owed d h (entries_of (sAutoReleasePool m) @ entries_of (sLazyReleasePool m)) [] m p \<le> count_of m p"
    using assms(1) by (simp add: balanced_def sound_def)
  then show ?thesis using assms(2) by (simp add: owed_def count_of_def object_at_def)
qed

text \<open>A new object, whose destructor will release one object, or none.\<close>

lemma new_core_memory:
  assumes "balanced d h m" "room m (n + 6 + memory_work d m)"
    "\<And>p. p < length (objects m) \<Longrightarrow> d' p = d p" "d' (length (objects m)) = map Release qs" "length qs \<le> 1"
    "\<And>q. q \<in> set qs \<Longrightarrow> 0 < h q"
  shows "balanced d' (\<lambda>p. if p = length (objects m) then 1 else h p - count_list qs p) (snd (wyObject_new None m)) \<and>
    room (snd (wyObject_new None m)) (n + memory_work d' (snd (wyObject_new None m)))"
proof -
  let ?m = "snd (wyObject_new None m)"
  have b: "balanced d' h m" using balanced_cong [of m d d' h] assms(1,3) by simp
  have t: "map target (map Release qs) = qs" by (simp add: comp_def)
  have "count_list qs p \<le> h p" for p using assms(5,6) by (cases qs) (auto simp: Suc_le_eq)
  then have "balanced d' (\<lambda>p. if p = length (objects m) then 1 else h p - count_list qs p) ?m"
    using new_balanced [OF b, unfolded assms(4) t] unborn_unclaimed [OF b, of "length (objects m)"] by simp
  moreover have "memory_work d' ?m \<le> memory_work d m + 3"
    using memory_work_dtor_cong [of m d d'] assms(3,4,5)
    by (simp add: memory_work_def wyObject_new_def object_work_def destructor_def nth_append comp_def sum_list_triv)
  then have "room ?m (n + memory_work d' ?m)"
    by (intro room_le [OF assms(2)]) (simp_all add: wyObject_new_def)
  ultimately show ?thesis by blast
qed

lemma no_pool_new: "no_pool m p \<Longrightarrow> no_pool (snd (wyObject_new None m)) p"
  "no_pool (snd (wyObject_new None m)) (length (objects m))"
  by (auto simp: no_pool_def wyObject_new_def object_at_def rd_def nth_append)

lemma new_selector_core:
  assumes "core env h (n + 6) s"
  shows "core env (\<lambda>p. if p = length (objects (memory_of s)) then 1 else h p) n (wyTargetSelector_new args s)"
proof -
  let ?p = "length (objects (memory_of s))"
  let ?s = "wyTargetSelector_new args s"
  have s: "?s = s\<lparr>memory_of := snd (wyObject_new None (memory_of s)), selectors := (selectors s)(?p \<mapsto> wyTargetSelector_init args)\<rparr>"
    by (simp add: wyTargetSelector_new_def wyObject_new_def)
  have f: "fields_ok (n + 6) s" using assms by (simp add: core_def)
  have tm: "timers s ?p = None" using f by (cases "timers s ?p") (fastforce simp: fields_ok_def no_pool_def)+
  have i: "invocation_of (wyTargetSelector_init args) \<noteq> None"
    by (cases args) (auto simp: invocation_of_def split: option.splits)
  have "fields_ok n s" using core_less [OF assms, of n] by (simp add: core_def)
  then have "fields_ok n ?s" using tm i no_pool_new [of "memory_of s"] unfolding s fields_ok_def by auto
  moreover have "balanced (dtor_of env ?s) (\<lambda>p. if p = ?p then 1 else h p) (snd (wyObject_new None (memory_of s))) \<and>
    room (snd (wyObject_new None (memory_of s))) (n + memory_work (dtor_of env ?s) (snd (wyObject_new None (memory_of s))))"
  proof -
    have d: "dtor_of env ?s p = dtor_of env s p" if "p < ?p" for p using that by (auto simp: dtor_of_def s split: option.splits)
    have e: "dtor_of env ?s ?p = map Release []" using tm by (simp add: dtor_of_def s)
    show ?thesis using new_core_memory [of "dtor_of env s" h "memory_of s" n "dtor_of env ?s" "[]", OF _ _ d e] assms
      by (simp add: core_def cong: if_cong)
  qed
  ultimately show ?thesis by (simp add: core_def s)
qed

lemma retain_new:
  assumes "retain q m = Some m'"
  shows "retain q (snd (wyObject_new None m)) = Some (snd (wyObject_new None m'))" "length (objects m') = length (objects m)"
  using assms by (auto simp: retain_def object_at_def rd_def wyObject_new_def set_object_def nth_append list_update_append opt_simps split: if_splits)

lemma new_timer_core:
  assumes "core env h (n + 6) s" "0 < h ts" "selectors s ts \<noteq> None" "n < 2 ^ 31"
  shows "\<exists>m u. wyTimer_new env ts interval frame s = Some (s\<lparr>memory_of := m, timers := (timers s)(length (objects (memory_of s)) \<mapsto> u)\<rparr>) \<and>
    core env (\<lambda>p. if p = length (objects (memory_of s)) then 1 else h p) n
      (s\<lparr>memory_of := m, timers := (timers s)(length (objects (memory_of s)) \<mapsto> u)\<rparr>)"
proof -
  let ?p = "length (objects (memory_of s))"
  obtain m where m: "retain_ref (Some ts) s = Some (s\<lparr>memory_of := m\<rparr>)" "core env (h(ts := Suc (h ts))) (n + 6) (s\<lparr>memory_of := m\<rparr>)"
    using retain_core [OF assms(1,2)] by blast
  have r: "retain ts (memory_of s) = Some m" using m(1)
    by (auto simp: retain_ref_def wyObjectRetain_def opt_simps dest: arg_cong [where f = memory_of])
  note rn = retain_new [OF r]
  define u where "u = \<lparr>m_targetSelector = ts, m_interval = interval, m_elapsed = f_zero (float_of env), m_frame = frame,
    m_elapsedFrame = 0, m_counter = 0, m_maxInvocation = 0, m_paused = False, m_pendingRemove = False, m_done = False\<rparr>"
  let ?m = "snd (wyObject_new None m)"
  let ?s = "s\<lparr>memory_of := ?m, timers := (timers s)(?p \<mapsto> u)\<rparr>"
  have f: "fields_ok (n + 6) s" using assms(1) by (simp add: core_def)
  have x0: "selectors s ?p = None" using f by (cases "selectors s ?p") (fastforce simp: fields_ok_def no_pool_def)+
  have dt: "dtor_of env ?s p = dtor_of env s p" if "p < length (objects m)" for p
    using that rn(2) by (auto simp: dtor_of_def split: option.splits)
  have dp: "dtor_of env ?s (length (objects m)) = map Release [ts]" using rn(2) by (simp add: dtor_of_def u_def)
  have "balanced (dtor_of env ?s) (\<lambda>p. if p = ?p then 1 else (h(ts := Suc (h ts))) p - count_list [ts] p) ?m \<and>
    room ?m (n + memory_work (dtor_of env ?s) ?m)"
    using new_core_memory [of "dtor_of env s" "h(ts := Suc (h ts))" m n "dtor_of env ?s" "[ts]", OF _ _ dt dp] m(2) rn(2)
    by (simp add: core_def)
  moreover have "(\<lambda>p. if p = ?p then 1 else (h(ts := Suc (h ts))) p - count_list [ts] p) = (\<lambda>p. if p = ?p then 1 else h p)"
    by (simp add: fun_eq_iff)
  moreover have "fields_ok n (s\<lparr>memory_of := m\<rparr>)" using core_less [OF m(2), of n] by (simp add: core_def)
  then have "fields_ok n ?s" using x0 assms(3,4) no_pool_new [of m] rn(2)
    by (auto simp: fields_ok_def u_def timer_ok_def)
  moreover have "wyTimer_new env ts interval frame s = Some ?s"
    using rn(1) by (simp add: wyTimer_new_def wyObject_new_def Let_def retain_ref_def wyObjectRetain_def u_def)
  ultimately show ?thesis by (intro exI [of _ ?m] exI [of _ u]) (simp add: core_def)
qed

section \<open>Queues\<close>

definition queue :: "nat wyArray \<Rightarrow> nat list" where
  "queue a = map the (elems a)"

definition queue_ok :: "nat wyArray \<Rightarrow> bool" where
  "queue_ok a \<longleftrightarrow> array_ok a \<and> elems a = map Some (queue a)"

lemma queue_elems: "elems a = map Some xs \<Longrightarrow> queue a = xs"
  by (simp add: queue_def comp_def)

lemma queue_okI: "array_ok a \<Longrightarrow> elems a = map Some xs \<Longrightarrow> queue_ok a \<and> queue a = xs"
  by (simp add: queue_ok_def queue_elems)

lemma queue_locked [simp]: "queue (a\<lparr>locked := b\<rparr>) = queue a" "queue_ok (a\<lparr>locked := b\<rparr>) = queue_ok a"
  by (simp_all add: queue_def queue_ok_def)

lemma queue_num: "queue_ok a \<Longrightarrow> num a = length (queue a)"
  using length_elems [of a] by (simp add: queue_ok_def queue_def)

lemma queue_push:
  assumes "queue_ok a" "\<not> locked a" "length (queue a) < array_limit"
  shows "\<exists>b. wyArrayPush a (Some p) = Some b \<and> queue_ok b \<and> queue b = queue a @ [p] \<and> \<not> locked b"
proof -
  obtain b where "wyArrayPush a (Some p) = Some b" "array_ok b" "elems b = elems a @ [Some p]" "\<not> locked b"
    using wyArrayPush_ok [of a "Some p"] assms queue_num [OF assms(1)] by (auto simp: queue_ok_def)
  moreover have "elems b = map Some (queue a @ [p])" using calculation(3) assms(1) by (simp add: queue_ok_def)
  ultimately show ?thesis using queue_okI [of b "queue a @ [p]"] by blast
qed

lemma queue_delete:
  assumes "queue_ok a" "\<not> locked a" "queue a = xs @ p # ys"
  shows "\<exists>b. wyArrayDeleteIndex a (int (length xs)) = Some (Some p, b) \<and> queue_ok b \<and> queue b = xs @ ys \<and> \<not> locked b"
proof -
  have "elems a = map Some xs @ Some p # map Some ys" using assms(1,3) by (simp add: queue_ok_def)
  then obtain b where "wyArrayDeleteIndex a (int (length xs)) = Some (Some p, b)" "array_ok b" "elems b = map Some (xs @ ys)" "\<not> locked b"
    using wyArrayDeleteIndex_ok [of a "map Some xs" "Some p" "map Some ys"] assms(1,2) by (auto simp: queue_ok_def)
  then show ?thesis using queue_okI [of b "xs @ ys"] by blast
qed

lemma queue_get:
  assumes "queue_ok a" "queue a = xs @ p # ys"
  shows "wyArrayGet a (int (length xs)) = Some (Some p)"
proof -
  have "elems a ! length xs = Some p" "length xs < num a"
    using assms queue_num [OF assms(1)] by (simp_all add: queue_ok_def nth_append)
  then show ?thesis using cell_elems [of a "length xs"] assms(1) by (simp add: wyArrayGet_def queue_ok_def)
qed

section \<open>Searching\<close>

text \<open>Equality of timers by their fields; a timer equals itself.\<close>

definition equal_timer :: "'f surroundings \<Rightarrow> 'f scheduler \<Rightarrow> nat \<Rightarrow> nat \<Rightarrow> bool" where
  "equal_timer env s t p \<longleftrightarrow>
     p = t \<or>
     (case (timers s p, timers s t) of
        (Some u, Some v) \<Rightarrow>
          (case (selectors s (m_targetSelector u), selectors s (m_targetSelector v)) of
             (Some x, Some y) \<Rightarrow>
               wyTargetSelectorEquals (same_java env) (m_targetSelector u) x (m_targetSelector v) y \<and>
               m_maxInvocation u = m_maxInvocation v \<and> m_done u = m_done v
           | _ \<Rightarrow> False)
      | _ \<Rightarrow> False)"

lemma wyTimerEquals_defined:
  assumes "core env h n s" "0 < h p" "0 < h t" "timers s p \<noteq> None" "timers s t \<noteq> None"
  shows "wyTimerEquals env s (Some p) (Some t) = Some (equal_timer env s t p)"
  by (rule claimed_timer [OF assms(1,2,4)], rule claimed_timer [OF assms(1,3,5)])
    (simp add: equal_timer_def wyTimerEquals_def)

lemma equal_timer_refl [simp]: "equal_timer env s t t"
  by (simp add: equal_timer_def)

text \<open>Without the first element that satisfies \<open>P\<close>.\<close>

fun drop_first :: "('a \<Rightarrow> bool) \<Rightarrow> 'a list \<Rightarrow> 'a list" where
  "drop_first P [] = []"
| "drop_first P (x # xs) = (if P x then xs else x # drop_first P xs)"

lemma drop_first_none: "find P xs = None \<Longrightarrow> drop_first P xs = xs"
  by (induction xs) (auto split: if_splits)

lemma find_split:
  "find P xs = Some p \<Longrightarrow> \<exists>ys zs. xs = ys @ p # zs \<and> drop_first P xs = ys @ zs \<and> length ys = length (takeWhile (\<lambda>x. \<not> P x) xs) \<and> P p"
proof (induction xs)
  case (Cons x xs)
  show ?case
  proof (cases "P x")
    case True
    then show ?thesis using Cons.prems by (intro exI [of _ "[]"] exI [of _ xs]) simp
  next
    case False
    then obtain ys zs where "xs = ys @ p # zs" "drop_first P xs = ys @ zs" "length ys = length (takeWhile (\<lambda>x. \<not> P x) xs)" "P p"
      using Cons by auto
    then show ?thesis using False by (intro exI [of _ "x # ys"] exI [of _ zs]) simp
  qed
qed simp

lemma find_none_length: "find P xs = None \<Longrightarrow> length (takeWhile (\<lambda>x. \<not> P x) xs) = length xs"
  by (induction xs) (auto split: if_splits)

lemma timer_search_ok:
  assumes a: "queue_ok a" and eq: "\<And>p. p \<in> set (queue a) \<Longrightarrow> wyTimerEquals env s (Some p) (Some t) = Some (P p)"
  shows "i \<le> length (queue a) \<Longrightarrow>
    timer_search env s a t i = Some (i + length (takeWhile (\<lambda>p. \<not> P p) (drop i (queue a))))"
proof (induction "length (queue a) - i" arbitrary: i)
  case 0
  then show ?case using queue_num [OF a] by (subst timer_search.simps) simp
next
  case (Suc k)
  then have i: "i < length (queue a)" by simp
  have d: "drop i (queue a) = queue a ! i # drop (Suc i) (queue a)" using i by (simp add: Cons_nth_drop_Suc)
  have c: "rd (cells a) i = Some (Some (Some (queue a ! i)))"
    using cell_elems [of a i] a i queue_num [OF a] by (simp add: queue_ok_def)
  have "timer_search env s a t (Suc i) = Some (Suc i + length (takeWhile (\<lambda>p. \<not> P p) (drop (Suc i) (queue a))))"
    using Suc by (intro Suc.hyps(1)) simp_all
  then show ?case using i c d eq [of "queue a ! i"] queue_num [OF a] by (subst timer_search.simps) simp
qed

lemma timer_index_ok:
  assumes "queue_ok a" "\<forall>p\<in>set (queue a). wyTimerEquals env s (Some p) (Some t) = Some (P p)"
  shows "find P (queue a) = None \<Longrightarrow> timer_index env s a t = Some (-1)"
    "find P (queue a) = Some p \<Longrightarrow> \<exists>xs ys. timer_index env s a t = Some (int (length xs)) \<and> queue a = xs @ p # ys \<and>
       drop_first P (queue a) = xs @ ys"
proof -
  have s: "timer_search env s a t 0 = Some (length (takeWhile (\<lambda>p. \<not> P p) (queue a)))"
    using timer_search_ok [of a env s t P 0] assms by simp
  show "timer_index env s a t = Some (-1)" if "find P (queue a) = None"
    using s find_none_length [OF that] queue_num [OF assms(1)] by (simp add: timer_index_def)
  show "\<exists>xs ys. timer_index env s a t = Some (int (length xs)) \<and> queue a = xs @ p # ys \<and> drop_first P (queue a) = xs @ ys"
    if f: "find P (queue a) = Some p"
  proof -
    obtain xs ys where x: "queue a = xs @ p # ys" "drop_first P (queue a) = xs @ ys"
      "length xs = length (takeWhile (\<lambda>x. \<not> P x) (queue a))"
      using find_split [OF f] by blast
    then have "timer_search env s a t 0 = Some (length xs)" "length xs < num a" using s queue_num [OF assms(1)] by simp_all
    then have "timer_index env s a t = Some (int (length xs))" by (simp add: timer_index_def)
    then show ?thesis using x(1,2) by blast
  qed
qed

lemma timer_delete_ok:
  assumes "queue_ok a" "\<not> locked a" "\<And>p. p \<in> set (queue a) \<Longrightarrow> wyTimerEquals env s (Some p) (Some t) = Some (P p)"
  shows "\<exists>b. timer_delete env s a t = Some (find P (queue a), b) \<and> queue_ok b \<and> queue b = drop_first P (queue a) \<and> \<not> locked b"
proof (cases "find P (queue a)")
  case None
  have "timer_search env s a t 0 = Some (num a)"
    using timer_search_ok [of a env s t P 0] assms(1,3) find_none_length [OF None] queue_num [OF assms(1)] by simp
  then show ?thesis using assms(1,2) None drop_first_none [OF None] by (simp add: timer_delete_def)
next
  case (Some p)
  obtain xs ys where x: "queue a = xs @ p # ys" "drop_first P (queue a) = xs @ ys"
    "length xs = length (takeWhile (\<lambda>x. \<not> P x) (queue a))"
    using find_split [OF Some] by blast
  have "timer_search env s a t 0 = Some (length xs)" "length xs < num a"
    using timer_search_ok [of a env s t P 0] assms(1,3) x queue_num [OF assms(1)] by simp_all
  then show ?thesis using queue_delete [OF assms(1,2) x(1)] x(2) Some assms(2) by (auto simp: timer_delete_def)
qed

section \<open>The invariant of the scheduler\<close>

text \<open>The timers in the three queues: scheduled, to be added, to be removed.\<close>

definition queues_of :: "'f scheduler \<Rightarrow> nat list \<times> nat list \<times> nat list" where
  "queues_of s = (queue (m_scheduledTimers s), queue (m_timersToAdd s), queue (m_timersToRemove s))"

fun slots :: "nat list \<times> nat list \<times> nat list \<Rightarrow> nat \<Rightarrow> nat" where
  "slots (S, A, R) p = count_list S p + count_list A p + count_list R p"

definition target_of :: "'f scheduler \<Rightarrow> nat \<Rightarrow> nat option" where
  "target_of s p = do { t \<leftarrow> timers s p; x \<leftarrow> selectors s (m_targetSelector t); m_target x }"

fun queued_ok :: "'f scheduler \<Rightarrow> nat list \<times> nat list \<times> nat list \<Rightarrow> bool" where
  "queued_ok s (S, A, R) \<longleftrightarrow>
     (\<forall>p\<in>set S \<union> set A \<union> set R. timers s p \<noteq> None) \<and>
     (\<forall>p\<in>set S \<union> set A. \<forall>q. target_of s p = Some q \<longrightarrow> 0 < claims s q)"

definition arrays_ok :: "nat \<Rightarrow> 'f scheduler \<Rightarrow> bool" where
  "arrays_ok n s \<longleftrightarrow>
     queue_ok (m_scheduledTimers s) \<and> queue_ok (m_timersToAdd s) \<and> queue_ok (m_timersToRemove s) \<and>
     \<not> locked (m_timersToAdd s) \<and> \<not> locked (m_timersToRemove s) \<and>
     length (queue (m_scheduledTimers s)) + length (queue (m_timersToAdd s)) + n \<le> array_limit \<and>
     length (queue (m_timersToRemove s)) + n \<le> array_limit"

text \<open>
  Every reference to an object is held by a client, by a slot of a queue or by a destructor; queued
  objects are timers; the clients keep the targets of queued timers alive.
\<close>

definition sched_ok :: "'f surroundings \<Rightarrow> nat \<Rightarrow> 'f scheduler \<Rightarrow> bool" where
  "sched_ok env n s \<longleftrightarrow>
     core env (\<lambda>p. claims s p + slots (queues_of s) p) n s \<and> arrays_ok n s \<and> queued_ok s (queues_of s)"

lemma sched_ok_less: "sched_ok env n s \<Longrightarrow> m \<le> n \<Longrightarrow> sched_ok env m s"
  using core_less [of env _ n s m] by (auto simp: sched_ok_def arrays_ok_def)

lemma sched_ok_bound: "sched_ok env n s \<Longrightarrow> n < 2 ^ 31"
  by (simp add: sched_ok_def arrays_ok_def)

lemma queued_claimed:
  assumes "sched_ok env n s" "queues_of s = (S, A, R)" "p \<in> set S \<union> set A \<union> set R"
  shows "0 < claims s p + slots (queues_of s) p" "timers s p \<noteq> None"
proof -
  have "slots (S, A, R) p \<noteq> 0" using assms(3) by (auto simp: count_list_0_iff)
  then show "0 < claims s p + slots (queues_of s) p" "timers s p \<noteq> None" using assms by (auto simp: sched_ok_def)
qed

lemma equals_defined:
  assumes "sched_ok env n s" "0 < claims s t + slots (queues_of s) t" "timers s t \<noteq> None"
    "queues_of s = (S, A, R)" "p \<in> set S \<union> set A \<union> set R"
  shows "wyTimerEquals env s (Some p) (Some t) = Some (equal_timer env s t p)"
  using wyTimerEquals_defined [of env _ n s p t] queued_claimed [OF assms(1,4,5)] assms(1-3) by (auto simp: sched_ok_def)

text \<open>Nothing changes but flags of pending removals.\<close>

definition strip :: "'f wyTimer \<Rightarrow> 'f wyTimer" where
  "strip t = t\<lparr>m_pendingRemove := False\<rparr>"

definition same_fields :: "'f scheduler \<Rightarrow> 'f scheduler \<Rightarrow> bool" where
  "same_fields s s' \<longleftrightarrow>
     claims s' = claims s \<and> selectors s' = selectors s \<and> m_timeScale s' = m_timeScale s \<and> invoked s' = invoked s \<and>
     (\<forall>p. map_option strip (timers s' p) = map_option strip (timers s p))"

lemma same_fields_refl [simp]: "same_fields s s"
  by (simp add: same_fields_def)

lemma same_fields_trans: "same_fields s s' \<Longrightarrow> same_fields s' s'' \<Longrightarrow> same_fields s s''"
  by (simp add: same_fields_def)

lemma same_fields_cong [simp]:
  "same_fields s (s'\<lparr>memory_of := m\<rparr>) = same_fields s s'" "same_fields s (s'\<lparr>m_timersToAdd := a\<rparr>) = same_fields s s'"
  "same_fields s (s'\<lparr>m_timersToRemove := a\<rparr>) = same_fields s s'" "same_fields s (s'\<lparr>m_scheduledTimers := a\<rparr>) = same_fields s s'"
  by (simp_all add: same_fields_def)

lemma same_fields_flag:
  "timers s p = Some t \<Longrightarrow> same_fields s (s\<lparr>timers := (timers s)(p \<mapsto> t\<lparr>m_pendingRemove := b\<rparr>)\<rparr>)"
  by (simp add: same_fields_def strip_def)

lemma same_fields_timer:
  assumes "same_fields s s'"
  shows "timers s' p = None \<longleftrightarrow> timers s p = None" "target_of s' p = target_of s p"
proof -
  have e: "map_option strip (timers s' p) = map_option strip (timers s p)" "selectors s' = selectors s"
    using assms by (simp_all add: same_fields_def)
  show "timers s' p = None \<longleftrightarrow> timers s p = None" using e(1) by (cases "timers s' p"; cases "timers s p") simp_all
  have "map_option m_targetSelector (timers s' p) = map_option m_targetSelector (timers s p)"
    using arg_cong [OF e(1), of "map_option m_targetSelector"] by (simp add: option.map_comp comp_def strip_def)
  moreover have "target_of r p = Option.bind (map_option m_targetSelector (timers r p)) (\<lambda>t. Option.bind (selectors r t) m_target)"
    for r :: "'a scheduler" by (cases "timers r p") (simp_all add: target_of_def)
  ultimately show "target_of s' p = target_of s p" using e(2) by simp
qed

lemma strip_fields [simp]:
  "m_targetSelector (strip t) = m_targetSelector t" "m_maxInvocation (strip t) = m_maxInvocation t" "m_done (strip t) = m_done t"
  by (simp_all add: strip_def)

lemma equal_timer_same:
  assumes "same_fields s s'"
  shows "equal_timer env s' = equal_timer env s"
proof (intro ext)
  fix t p
  have e: "map_option strip (timers s' q) = map_option strip (timers s q)" "selectors s' = selectors s" for q
    using assms by (simp_all add: same_fields_def)
  have f: "m_targetSelector x = m_targetSelector y \<and> m_maxInvocation x = m_maxInvocation y \<and> m_done x = m_done y"
    if "strip x = strip y" for x y :: "'a wyTimer"
    using that by (metis strip_fields)
  show "equal_timer env s' t p = equal_timer env s t p"
  proof (cases "timers s p")
    case None
    then show ?thesis using e(1) [of p] by (cases "timers s' p") (simp_all add: equal_timer_def)
  next
    case p: (Some u)
    then obtain u' where u: "timers s' p = Some u'" "strip u' = strip u" using e(1) [of p] by auto
    show ?thesis
    proof (cases "timers s t")
      case None
      then have "timers s' t = None" using e(1) [of t] by (cases "timers s' t") simp_all
      then show ?thesis using None p u by (simp add: equal_timer_def)
    next
      case (Some v)
      then obtain v' where v: "timers s' t = Some v'" "strip v' = strip v" using e(1) [of t] by auto
      then show ?thesis using Some p u f [OF u(2)] f [OF v(2)] e(2) by (simp add: equal_timer_def cong: option.case_cong)
    qed
  qed
qed

lemma queued_ok_same: "same_fields s s' \<Longrightarrow> queued_ok s' Q = queued_ok s Q"
  using same_fields_timer [of s s'] by (cases Q) (simp add: same_fields_def)

section \<open>Scheduling\<close>

fun schedule_queues :: "(nat \<Rightarrow> bool) \<Rightarrow> nat \<Rightarrow> nat list \<times> nat list \<times> nat list \<Rightarrow> nat list \<times> nat list \<times> nat list" where
  "schedule_queues P t (S, A, R) =
     (case find P R of
        Some p \<Rightarrow> if p = t then (S, A, drop_first P R) else (S, A @ [t], R)
      | None \<Rightarrow> if find P S \<noteq> None \<or> find P A \<noteq> None then (S, A, R) else (S, A @ [t], R))"

fun unschedule_queues :: "(nat \<Rightarrow> bool) \<Rightarrow> nat \<Rightarrow> nat list \<times> nat list \<times> nat list \<Rightarrow> nat list \<times> nat list \<times> nat list" where
  "unschedule_queues P t (S, A, R) =
     (if find P A \<noteq> None then (S, drop_first P A, R)
      else if find P S = None then (S, A, R) else (S, A, R @ [t]))"

text \<open>What is to be shown of a step: it is defined, kept the invariant and moves the timers as given.\<close>

definition flagged :: "'f scheduler \<Rightarrow> nat set" where
  "flagged s = {p. \<exists>t. timers s p = Some t \<and> m_pendingRemove t}"

definition steps_to ::
  "'f surroundings \<Rightarrow> nat \<Rightarrow> 'f scheduler option \<Rightarrow> 'f scheduler \<Rightarrow> nat list \<times> nat list \<times> nat list \<Rightarrow> nat set \<Rightarrow> bool" where
  "steps_to env n r s Q F \<longleftrightarrow>
     (\<exists>s'. r = Some s' \<and> sched_ok env n s' \<and> same_fields s s' \<and> queues_of s' = Q \<and> flagged s' = F \<and>
        m_scheduledTimers s' = m_scheduledTimers s)"

lemma stays: "sched_ok env (n + k) s \<Longrightarrow> queues_of s = Q \<Longrightarrow> steps_to env n (Some s) s Q (flagged s)"
  using sched_ok_less [of env "n + k" s n] by (simp add: steps_to_def)

lemma enqueue_add_ok:
  assumes ok: "sched_ok env (n + 6) s" and t: "0 < claims s t + slots (queues_of s) t" "timers s t \<noteq> None"
    and target: "\<And>q. target_of s t = Some q \<Longrightarrow> 0 < claims s q" and Q: "queues_of s = (S, A, R)"
  shows "steps_to env n (enqueue_add t s) s (S, A @ [t], R) (flagged s)"
proof -
  have q: "queue (m_scheduledTimers s) = S" "queue (m_timersToAdd s) = A" "queue (m_timersToRemove s) = R"
    using Q by (simp_all add: queues_of_def)
  obtain b where b: "wyArrayPush (m_timersToAdd s) (Some t) = Some b" "queue_ok b" "queue b = A @ [t]" "\<not> locked b"
    using queue_push [of "m_timersToAdd s" t] ok q by (auto simp: sched_ok_def arrays_ok_def)
  let ?s = "s\<lparr>m_timersToAdd := b\<rparr>"
  let ?h = "\<lambda>p. claims s p + slots (queues_of s) p"
  have "core env ?h n ?s" using core_less [of env ?h "n + 6" s n] ok by (simp add: sched_ok_def)
  then obtain m where m: "retain_ref (Some t) ?s = Some (?s\<lparr>memory_of := m\<rparr>)" "core env (?h(t := Suc (?h t))) n (?s\<lparr>memory_of := m\<rparr>)"
    using retain_core [of env ?h n ?s t] t(1) by blast
  let ?s' = "?s\<lparr>memory_of := m\<rparr>"
  have q': "queues_of ?s' = (S, A @ [t], R)" using q b(3) by (simp add: queues_of_def)
  have "?h(t := Suc (?h t)) = (\<lambda>p. claims ?s' p + slots (queues_of ?s') p)" using Q q' by (simp add: fun_eq_iff)
  moreover have "same_fields s ?s'" by simp
  then have "queued_ok ?s' (queues_of ?s')" unfolding q' queued_ok_same [OF \<open>same_fields s ?s'\<close>]
    using ok t(2) target Q by (auto simp: sched_ok_def)
  ultimately have "sched_ok env n ?s'" using ok m(2) b q by (simp add: sched_ok_def arrays_ok_def)
  then show ?thesis using b(1) m(1) q' by (simp add: steps_to_def enqueue_add_def flagged_def)
qed

lemma arrays_ok_cong [simp]:
  "arrays_ok n (s\<lparr>memory_of := m\<rparr>) = arrays_ok n s" "arrays_ok n (s\<lparr>timers := f\<rparr>) = arrays_ok n s"
  "arrays_ok n (s\<lparr>selectors := g\<rparr>) = arrays_ok n s" "arrays_ok n (s\<lparr>claims := c\<rparr>) = arrays_ok n s"
  "arrays_ok n (s\<lparr>m_timeScale := v\<rparr>) = arrays_ok n s" "arrays_ok n (s\<lparr>invoked := l\<rparr>) = arrays_ok n s"
  by (simp_all add: arrays_ok_def)

lemma queues_of_cong [simp]:
  "queues_of (s\<lparr>memory_of := m\<rparr>) = queues_of s" "queues_of (s\<lparr>timers := f\<rparr>) = queues_of s"
  "queues_of (s\<lparr>selectors := g\<rparr>) = queues_of s" "queues_of (s\<lparr>claims := c\<rparr>) = queues_of s"
  "queues_of (s\<lparr>m_timeScale := v\<rparr>) = queues_of s" "queues_of (s\<lparr>invoked := l\<rparr>) = queues_of s"
  by (simp_all add: queues_of_def)

text \<open>A slot is given up: its reference is released.\<close>

lemma slot_release:
  assumes c: "core env (\<lambda>p. claims s p + slots Q p) (n + 6) s" and slot: "\<And>p. slots Q p = slots Q' p + (if p = t then 1 else 0)"
    and a: "arrays_ok n s" "queued_ok s Q'" "queues_of s = Q'" and env: "env_ok env"
  shows "\<exists>m. release_ref env (Some t) s = Some (s\<lparr>memory_of := m\<rparr>) \<and> sched_ok env n (s\<lparr>memory_of := m\<rparr>)"
proof -
  let ?h = "\<lambda>p. claims s p + slots Q p"
  obtain m where m: "release_ref env (Some t) s = Some (s\<lparr>memory_of := m\<rparr>)" "core env (?h(t := ?h t - 1)) n (s\<lparr>memory_of := m\<rparr>)"
    using release_core [OF c _ env, of t] slot [of t] by auto
  have "?h(t := ?h t - 1) = (\<lambda>p. claims s p + slots Q' p)" using slot by (simp add: fun_eq_iff)
  moreover have "queues_of (s\<lparr>memory_of := m\<rparr>) = Q'" using a(3) by (simp add: queues_of_def)
  moreover have "queued_ok (s\<lparr>memory_of := m\<rparr>) Q'" using a(2) queued_ok_same [of s "s\<lparr>memory_of := m\<rparr>" Q'] by simp
  ultimately show ?thesis using m a by (intro exI [of _ m]) (simp add: sched_ok_def)
qed

lemma schedule_ok:
  assumes ok: "sched_ok env (n + 6) s" and env: "env_ok env"
    and t: "0 < claims s t + slots (queues_of s) t" "timers s t \<noteq> None"
    and target: "\<And>q. target_of s t = Some q \<Longrightarrow> 0 < claims s q"
  shows "steps_to env n (scheduleLocked env t s) s (schedule_queues (equal_timer env s t) t (queues_of s))
    (if find (equal_timer env s t) (queue (m_timersToRemove s)) = Some t then flagged s - {t} else flagged s)"
proof -
  let ?P = "equal_timer env s t"
  obtain S A R where Q: "queues_of s = (S, A, R)" by (metis prod_cases3)
  have q: "queue (m_scheduledTimers s) = S" "queue (m_timersToAdd s) = A" "queue (m_timersToRemove s) = R"
    using Q by (simp_all add: queues_of_def)
  have qok: "queue_ok (m_scheduledTimers s)" "queue_ok (m_timersToAdd s)" "queue_ok (m_timersToRemove s)"
    using ok by (simp_all add: sched_ok_def arrays_ok_def)
  have eq: "wyTimerEquals env s (Some p) (Some t) = Some (?P p)" if "p \<in> set S \<union> set A \<union> set R" for p
    by (rule equals_defined [OF ok t Q that])
  note add = enqueue_add_ok [OF ok t target Q]
  have eqR: "\<forall>p\<in>set R. wyTimerEquals env s (Some p) (Some t) = Some (?P p)" using eq by simp
  note ixR = timer_index_ok [OF qok(3), unfolded q(3), OF eqR]
  have eqS: "\<forall>p\<in>set S. wyTimerEquals env s (Some p) (Some t) = Some (?P p)" using eq by simp
  note ixS = timer_index_ok [OF qok(1), unfolded q(1), OF eqS]
  have eqA: "\<forall>p\<in>set A. wyTimerEquals env s (Some p) (Some t) = Some (?P p)" using eq by simp
  note ixA = timer_index_ok [OF qok(2), unfolded q(2), OF eqA]
  show ?thesis
  proof (cases "find ?P R")
    case None
    have R: "timer_index env s (m_timersToRemove s) t = Some (-1)" by (rule ixR(1) [OF None])
    show ?thesis
    proof (cases "find ?P S")
      case (Some p)
      obtain xs :: "nat list" where "timer_index env s (m_scheduledTimers s) t = Some (int (length xs))" using ixS(2) [OF Some] by blast
      then show ?thesis using stays [OF ok Q] R None Some by (simp add: scheduleLocked_def Q q)
    next
      case nS: None
      have S: "timer_index env s (m_scheduledTimers s) t = Some (-1)" by (rule ixS(1) [OF nS])
      show ?thesis
      proof (cases "find ?P A")
        case (Some p)
        obtain xs :: "nat list" where "timer_index env s (m_timersToAdd s) t = Some (int (length xs))" using ixA(2) [OF Some] by blast
        then show ?thesis using stays [OF ok Q] R S None nS Some by (simp add: scheduleLocked_def Q q)
      next
        case nA: None
        have "timer_index env s (m_timersToAdd s) t = Some (-1)" by (rule ixA(1) [OF nA])
        then show ?thesis using add R S None nS nA by (simp add: scheduleLocked_def Q q)
      qed
    qed
  next
    case (Some p)
    obtain xs ys where x: "timer_index env s (m_timersToRemove s) t = Some (int (length xs))" "R = xs @ p # ys"
      "drop_first ?P R = xs @ ys"
      using ixR(2) [OF Some] by blast
    have get: "wyArrayGet (m_timersToRemove s) (int (length xs)) = Some (Some p)"
      using queue_get [OF qok(3)] q(3) x(2) by simp
    show ?thesis
    proof (cases "p = t")
      case False
      then show ?thesis using add get x(1) Some by (simp add: scheduleLocked_def Q q)
    next
      case True
      obtain b where b: "wyArrayDeleteIndex (m_timersToRemove s) (int (length xs)) = Some (Some t, b)" "queue_ok b"
        "queue b = xs @ ys" "\<not> locked b"
        using queue_delete [OF qok(3), of xs p ys] ok q(3) x(2) True by (auto simp: sched_ok_def arrays_ok_def)
      let ?s = "s\<lparr>m_timersToRemove := b\<rparr>"
      let ?h = "\<lambda>p. claims s p + slots (queues_of s) p"
      have "core env ?h (n + 6) ?s" using ok by (simp add: sched_ok_def)
      from claimed_timer [OF this t(1)] t(2) obtain u where u: "timer_at ?s t = Some u" "timers s t = Some u" "timer_ok (n + 6) u"
        by auto
      let ?s1 = "?s\<lparr>timers := (timers s)(t \<mapsto> u\<lparr>m_pendingRemove := False\<rparr>)\<rparr>"
      have c: "change_timer (\<lambda>x. x\<lparr>m_pendingRemove := False\<rparr>) t ?s = Some ?s1" "core env ?h (n + 6) ?s1"
        using change_core [OF \<open>core env ?h (n + 6) ?s\<close> u(1), of "\<lambda>x. x\<lparr>m_pendingRemove := False\<rparr>" "n + 6"] u(3)
        by (simp_all add: timer_ok_def)
      have q1: "queues_of ?s1 = (S, A, xs @ ys)" using q b(3) by (simp add: queues_of_def)
      have sf: "same_fields s ?s1" using same_fields_flag [OF u(2), of False] by (simp add: same_fields_def)
      have "\<exists>m. release_ref env (Some t) ?s1 = Some (?s1\<lparr>memory_of := m\<rparr>) \<and> sched_ok env n (?s1\<lparr>memory_of := m\<rparr>)"
      proof (rule slot_release [where Q = "queues_of s" and Q' = "(S, A, xs @ ys)"])
        show "core env (\<lambda>p. claims ?s1 p + slots (queues_of s) p) (n + 6) ?s1" using c(2) by simp
        show "slots (queues_of s) p = slots (S, A, xs @ ys) p + (if p = t then 1 else 0)" for p
          unfolding Q x(2) True by simp
        show "arrays_ok n ?s1" using ok q b x(2) by (auto simp: sched_ok_def arrays_ok_def)
        show "queued_ok ?s1 (S, A, xs @ ys)" unfolding queued_ok_same [OF sf] using ok x(2) by (auto simp: sched_ok_def Q)
      qed (use q1 env in auto)
      then obtain m where "release_ref env (Some t) ?s1 = Some (?s1\<lparr>memory_of := m\<rparr>)" "sched_ok env n (?s1\<lparr>memory_of := m\<rparr>)" by blast
      moreover have "flagged (?s1\<lparr>memory_of := m\<rparr>) = flagged s - {t}" for m by (auto simp: flagged_def)
      ultimately show ?thesis using x get b(1) c(1) q1 sf Some True by (simp add: scheduleLocked_def steps_to_def Q q)
    qed
  qed
qed

lemma unschedule_ok:
  assumes ok: "sched_ok env (n + 6) s" and env: "env_ok env"
    and t: "0 < claims s t + slots (queues_of s) t" "timers s t \<noteq> None"
  shows "steps_to env n (unscheduleLocked env t s) s (unschedule_queues (equal_timer env s t) t (queues_of s))
    (if find (equal_timer env s t) (queue (m_timersToAdd s)) = None \<and> find (equal_timer env s t) (queue (m_scheduledTimers s)) \<noteq> None
     then insert t (flagged s) else flagged s)"
proof -
  let ?P = "equal_timer env s t"
  let ?h = "\<lambda>p. claims s p + slots (queues_of s) p"
  obtain S A R where Q: "queues_of s = (S, A, R)" by (metis prod_cases3)
  have q: "queue (m_scheduledTimers s) = S" "queue (m_timersToAdd s) = A" "queue (m_timersToRemove s) = R"
    using Q by (simp_all add: queues_of_def)
  have qok: "queue_ok (m_scheduledTimers s)" "queue_ok (m_timersToAdd s)" "queue_ok (m_timersToRemove s)"
    using ok by (simp_all add: sched_ok_def arrays_ok_def)
  have eq: "wyTimerEquals env s (Some p) (Some t) = Some (?P p)" if "p \<in> set S \<union> set A \<union> set R" for p
    by (rule equals_defined [OF ok t Q that])
  have eqS: "\<forall>p\<in>set S. wyTimerEquals env s (Some p) (Some t) = Some (?P p)" using eq by simp
  have eqA: "\<forall>p\<in>set A. wyTimerEquals env s (Some p) (Some t) = Some (?P p)" using eq by simp
  note ixS = timer_index_ok [OF qok(1), unfolded q(1), OF eqS]
  note ixA = timer_index_ok [OF qok(2), unfolded q(2), OF eqA]
  have core: "core env ?h (n + 6) s" using ok by (simp add: sched_ok_def)
  obtain u where u: "timer_at s t = Some u" "timers s t = Some u" "timer_ok (n + 6) u"
    by (rule claimed_timer [OF core t])
  show ?thesis
  proof (cases "find ?P A")
    case (Some p)
    obtain xs ys where x: "timer_index env s (m_timersToAdd s) t = Some (int (length xs))" "A = xs @ p # ys"
      "drop_first ?P A = xs @ ys"
      using ixA(2) [OF Some] by blast
    obtain b where b: "wyArrayDeleteIndex (m_timersToAdd s) (int (length xs)) = Some (Some p, b)" "queue_ok b"
      "queue b = xs @ ys" "\<not> locked b"
      using queue_delete [OF qok(2), of xs p ys] ok q(2) x(2) by (auto simp: sched_ok_def arrays_ok_def)
    let ?s = "s\<lparr>m_timersToAdd := b\<rparr>"
    have "\<exists>m. release_ref env (Some p) ?s = Some (?s\<lparr>memory_of := m\<rparr>) \<and> sched_ok env n (?s\<lparr>memory_of := m\<rparr>)"
    proof (rule slot_release [where Q = "queues_of s" and Q' = "(S, xs @ ys, R)"])
      show "core env (\<lambda>p. claims ?s p + slots (queues_of s) p) (n + 6) ?s" using core by simp
      show "slots (queues_of s) r = slots (S, xs @ ys, R) r + (if r = p then 1 else 0)" for r
        unfolding Q x(2) by simp
      show "arrays_ok n ?s" using ok q b x(2) by (auto simp: sched_ok_def arrays_ok_def)
      show "queued_ok ?s (S, xs @ ys, R)" using ok x(2) queued_ok_same [of s ?s "(S, A, R)"] by (auto simp: sched_ok_def Q)
      show "queues_of ?s = (S, xs @ ys, R)" using q b(3) by (simp add: queues_of_def)
    qed (rule env)
    then obtain m where "release_ref env (Some p) ?s = Some (?s\<lparr>memory_of := m\<rparr>)" "sched_ok env n (?s\<lparr>memory_of := m\<rparr>)" by blast
    then show ?thesis using x b(1,3) q Some
      by (simp add: unscheduleLocked_def steps_to_def Q) (simp add: queues_of_def flagged_def)
  next
    case None
    have A: "timer_index env s (m_timersToAdd s) t = Some (-1)" by (rule ixA(1) [OF None])
    show ?thesis
    proof (cases "find ?P S")
      case nS: None
      have "timer_index env s (m_scheduledTimers s) t = Some (-1)" by (rule ixS(1) [OF nS])
      then show ?thesis using stays [OF ok Q] A None nS u by (simp add: unscheduleLocked_def Q q)
    next
      case (Some p)
      obtain xs :: "nat list" where x: "timer_index env s (m_scheduledTimers s) t = Some (int (length xs))"
        using ixS(2) [OF Some] by blast
      obtain b where b: "wyArrayPush (m_timersToRemove s) (Some t) = Some b" "queue_ok b" "queue b = R @ [t]" "\<not> locked b"
        using queue_push [of "m_timersToRemove s" t] ok q by (auto simp: sched_ok_def arrays_ok_def)
      let ?s = "s\<lparr>m_timersToRemove := b\<rparr>"
      let ?s1 = "?s\<lparr>timers := (timers s)(t \<mapsto> u\<lparr>m_pendingRemove := True\<rparr>)\<rparr>"
      have "core env ?h (n + 6) ?s" using core by simp
      then have c: "change_timer (\<lambda>x. x\<lparr>m_pendingRemove := True\<rparr>) t ?s = Some ?s1" "core env ?h n ?s1"
        using change_core [of env ?h "n + 6" ?s t u "\<lambda>x. x\<lparr>m_pendingRemove := True\<rparr>" n] u
        by (simp_all add: timer_ok_def)
      obtain m where m: "retain_ref (Some t) ?s1 = Some (?s1\<lparr>memory_of := m\<rparr>)" "core env (?h(t := Suc (?h t))) n (?s1\<lparr>memory_of := m\<rparr>)"
        using retain_core [OF c(2), of t] t(1) by blast
      let ?s2 = "?s1\<lparr>memory_of := m\<rparr>"
      have q2: "queues_of ?s2 = (S, A, R @ [t])" using q b(3) by (simp add: queues_of_def)
      have sf: "same_fields s ?s2" using same_fields_flag [OF u(2), of True] by (simp add: same_fields_def)
      have "?h(t := Suc (?h t)) = (\<lambda>p. claims ?s2 p + slots (queues_of ?s2) p)" using Q q2 by (simp add: fun_eq_iff)
      moreover have "queued_ok ?s2 (queues_of ?s2)" unfolding q2 queued_ok_same [OF sf]
        using ok t(2) by (auto simp: sched_ok_def Q)
      ultimately have "sched_ok env n ?s2" using ok m(2) b q by (simp add: sched_ok_def arrays_ok_def)
      moreover have "flagged ?s2 = insert t (flagged s)" by (auto simp: flagged_def)
      ultimately show ?thesis using A x b(1) c(1) m(1) q2 sf None Some by (simp add: unscheduleLocked_def steps_to_def Q q)
    qed
  qed
qed

section \<open>The calls of the clients\<close>

definition usable :: "'f scheduler \<Rightarrow> nat \<Rightarrow> bool" where
  "usable s p \<longleftrightarrow> 0 < claims s p + slots (queues_of s) p"

definition queued_targets :: "'f scheduler \<Rightarrow> nat set" where
  "queued_targets s =
     {q. \<exists>p\<in>set (queue (m_scheduledTimers s)) \<union> set (queue (m_timersToAdd s)). target_of s p = Some q}"

text \<open>
  What a client may do: use timers that it has a reference to or that are queued, schedule a timer
  whose target it holds, and give up references it has, but not the last one to the target of a
  queued timer.
\<close>

fun legal :: "'f scheduler \<Rightarrow> 'f client_call \<Rightarrow> bool" where
  "legal s (NewSelector args) \<longleftrightarrow> True"
| "legal s (NewTimer ts) \<longleftrightarrow> 0 < claims s ts \<and> selectors s ts \<noteq> None"
| "legal s (NewTimerInterval ts v) \<longleftrightarrow> 0 < claims s ts \<and> selectors s ts \<noteq> None"
| "legal s (NewTimerFrame ts v) \<longleftrightarrow> 0 < claims s ts \<and> selectors s ts \<noteq> None"
| "legal s (Retain p) \<longleftrightarrow> usable s p"
| "legal s (ReleaseRef p) \<longleftrightarrow> 0 < claims s p \<and> (claims s p = 1 \<longrightarrow> p \<notin> queued_targets s)"
| "legal s (Schedule t) \<longleftrightarrow> usable s t \<and> timers s t \<noteq> None \<and> (\<forall>q. target_of s t = Some q \<longrightarrow> 0 < claims s q)"
| "legal s (Unschedule t) \<longleftrightarrow> usable s t \<and> timers s t \<noteq> None"
| "legal s (SetInterval t v) \<longleftrightarrow> usable s t \<and> timers s t \<noteq> None"
| "legal s (SetFrame t v) \<longleftrightarrow> usable s t \<and> timers s t \<noteq> None"
| "legal s (SetMaxInvocation t v) \<longleftrightarrow> usable s t \<and> timers s t \<noteq> None"
| "legal s (SetOneShot t b) \<longleftrightarrow> usable s t \<and> timers s t \<noteq> None"
| "legal s (SetPaused t b) \<longleftrightarrow> usable s t \<and> timers s t \<noteq> None"
| "legal s (Reset t) \<longleftrightarrow> usable s t \<and> timers s t \<noteq> None"
| "legal s (SetTimeScale v) \<longleftrightarrow> True"

fun legal_calls :: "'f surroundings \<Rightarrow> 'f scheduler \<Rightarrow> 'f client_call list \<Rightarrow> bool" where
  "legal_calls env s [] \<longleftrightarrow> True"
| "legal_calls env s (c # cs) \<longleftrightarrow> legal s c \<and> (\<forall>s1. client_step env c s = Some s1 \<longrightarrow> legal_calls env s1 cs)"

definition kept :: "'f surroundings \<Rightarrow> nat \<Rightarrow> 'f scheduler option \<Rightarrow> 'f scheduler \<Rightarrow> bool" where
  "kept env n r s \<longleftrightarrow> (\<exists>s'. r = Some s' \<and> sched_ok env n s' \<and> m_scheduledTimers s' = m_scheduledTimers s)"

lemma steps_to_kept: "steps_to env n r s Q F \<Longrightarrow> kept env n r s"
  by (auto simp: steps_to_def kept_def)

lemma target_of_timer:
  assumes "timers s' = (timers s)(p \<mapsto> u)" "timers s p = Some t" "m_targetSelector u = m_targetSelector t" "selectors s' = selectors s"
  shows "target_of s' r = target_of s r"
  using assms by (simp add: target_of_def)

lemma queued_timer:
  assumes "sched_ok env n s" "usable s p" "timers s p \<noteq> None"
  obtains u y where "timer_at s p = Some u" "timers s p = Some u" "timer_ok n u"
    "selector_at s (m_targetSelector u) = Some y" "selectors s (m_targetSelector u) = Some y"
  by (rule claimed_timer [of env "\<lambda>p. claims s p + slots (queues_of s) p" n s p])
    (use assms in \<open>simp_all add: sched_ok_def usable_def\<close>)

lemma change_sched:
  assumes ok: "sched_ok env n s" and u: "timer_at s p = Some u"
    and f: "m_targetSelector (f u) = m_targetSelector u" "timer_ok n' (f u)" and n: "n' \<le> n"
  shows "change_timer f p s = Some (s\<lparr>timers := (timers s)(p \<mapsto> f u)\<rparr>) \<and> sched_ok env n' (s\<lparr>timers := (timers s)(p \<mapsto> f u)\<rparr>)"
proof -
  let ?h = "\<lambda>p. claims s p + slots (queues_of s) p"
  let ?s = "s\<lparr>timers := (timers s)(p \<mapsto> f u)\<rparr>"
  have core: "core env ?h n s" using ok by (simp add: sched_ok_def)
  have up: "timers s p = Some u" using u by (auto simp: timer_at_def opt_simps)
  have c: "change_timer f p s = Some ?s \<and> core env ?h n' ?s" by (rule change_core [where f = f, OF core u f n])
  have "target_of ?s r = target_of s r" for r by (rule target_of_timer [OF _ up f(1)]) simp_all
  then have "queued_ok ?s (queues_of ?s)" using ok up by (cases "queues_of s") (auto simp: sched_ok_def)
  then show ?thesis using c sched_ok_less [OF ok n] by (simp add: sched_ok_def)
qed

lemma change_keeps:
  assumes ok: "sched_ok env (n + 6) s" and t: "usable s p" "timers s p \<noteq> None"
    and f: "\<And>t. m_targetSelector (f t) = m_targetSelector t" "\<And>t. timer_ok (n + 6) t \<Longrightarrow> timer_ok n (f t)"
  shows "kept env n (change_timer f p s) s"
proof -
  obtain u y where u: "timer_at s p = Some u" "timer_ok (n + 6) u" by (rule queued_timer [OF ok t])
  show ?thesis using change_sched [OF ok u(1), of f n] f u(2) by (simp add: kept_def)
qed

lemma new_unborn:
  assumes "sched_ok env n s"
  shows "claims s (length (objects (memory_of s))) = 0" "slots (queues_of s) (length (objects (memory_of s))) = 0"
  using unborn_unclaimed [of "dtor_of env s" "\<lambda>p. claims s p + slots (queues_of s) p" "memory_of s" "length (objects (memory_of s))"] assms
  by (simp_all add: sched_ok_def core_def)

lemma queued_ok_mono:
  assumes "queued_ok s (S, A, R)" "\<And>p. p \<in> set S \<union> set A \<union> set R \<Longrightarrow> timers s' p \<noteq> None \<and> target_of s' p = target_of s p"
    "\<And>q. 0 < claims s q \<Longrightarrow> 0 < claims s' q"
  shows "queued_ok s' (S, A, R)"
proof -
  have t: "timers s' p \<noteq> None" "target_of s' p = target_of s p" if "p \<in> set S \<union> set A \<union> set R" for p
    using assms(2) [OF that] by simp_all
  have "0 < claims s' q" if "p \<in> set S \<union> set A" "target_of s' p = Some q" for p q
    using assms(1,3) that t(2) [of p] unfolding queued_ok.simps by (metis UnI1)
  then show ?thesis using t(1) by simp
qed

lemma new_timer_keeps:
  assumes ok: "sched_ok env (n + 6) s" and ts: "0 < claims s ts" "selectors s ts \<noteq> None"
  shows "kept env n (map_option (claim (length (objects (memory_of s)))) (wyTimer_new env ts v w s)) s"
proof -
  let ?h = "\<lambda>p. claims s p + slots (queues_of s) p"
  let ?p = "length (objects (memory_of s))"
  have core: "core env ?h (n + 6) s" and n: "n < 2 ^ 31" using ok sched_ok_bound [OF ok] by (simp_all add: sched_ok_def)
  obtain m u where u: "wyTimer_new env ts v w s = Some (s\<lparr>memory_of := m, timers := (timers s)(?p \<mapsto> u)\<rparr>)"
    "core env (\<lambda>p. if p = ?p then 1 else ?h p) n (s\<lparr>memory_of := m, timers := (timers s)(?p \<mapsto> u)\<rparr>)"
    using new_timer_core [OF core _ ts(2) n, of v w] ts(1) by auto
  let ?s = "claim ?p (s\<lparr>memory_of := m, timers := (timers s)(?p \<mapsto> u)\<rparr>)"
  obtain S A R where Q: "queues_of s = (S, A, R)" by (metis prod_cases3)
  have free: "?p \<notin> set S \<union> set A \<union> set R"
    using new_unborn(2) [OF ok] by (auto simp: Q count_list_0_iff)
  have h: "(\<lambda>p. if p = ?p then 1 else ?h p) = (\<lambda>p. claims ?s p + slots (queues_of s) p)"
    using new_unborn [OF ok] by (auto simp: fun_eq_iff claim_def)
  have "queued_ok s (S, A, R)" using ok by (simp add: sched_ok_def Q)
  then have "queued_ok ?s (S, A, R)"
  proof (rule queued_ok_mono)
    fix r assume r: "r \<in> set S \<union> set A \<union> set R"
    then have "r \<noteq> ?p" "timers s r \<noteq> None" using free ok by (auto simp: sched_ok_def Q)
    then show "timers ?s r \<noteq> None \<and> target_of ?s r = target_of s r" by (simp add: target_of_def claim_def)
  qed (simp add: claim_def)
  then have "sched_ok env n ?s" using u(2) ok h by (simp add: sched_ok_def claim_def Q arrays_ok_def)
  then show ?thesis using u(1) by (simp add: kept_def) (simp add: claim_def)
qed

lemma new_selector_keeps:
  assumes ok: "sched_ok env (n + 6) s"
  shows "kept env n (Some (claim (length (objects (memory_of s))) (wyTargetSelector_new args s))) s"
proof -
  let ?h = "\<lambda>p. claims s p + slots (queues_of s) p"
  let ?p = "length (objects (memory_of s))"
  have core: "core env ?h (n + 6) s" using ok by (simp add: sched_ok_def)
  let ?s1 = "wyTargetSelector_new args s"
  let ?s = "claim ?p ?s1"
  have s1: "claims ?s1 = claims s" "queues_of ?s1 = queues_of s" "timers ?s1 = timers s"
    "m_scheduledTimers ?s1 = m_scheduledTimers s" "arrays_ok n ?s1 = arrays_ok n s"
    "selectors ?s1 = (selectors s)(?p \<mapsto> wyTargetSelector_init args)"
    by (simp_all add: wyTargetSelector_new_def wyObject_new_def)
  obtain S A R where Q: "queues_of s = (S, A, R)" by (metis prod_cases3)
  have h: "(\<lambda>p. if p = ?p then 1 else ?h p) = (\<lambda>p. claims ?s p + slots (queues_of s) p)"
    using new_unborn [OF ok] by (auto simp: fun_eq_iff claim_def s1)
  have x0: "selectors s ?p = None" using core by (cases "selectors s ?p") (auto simp: core_def fields_ok_def no_pool_def)
  have "target_of ?s r = target_of s r" for r
  proof (cases "timers s r")
    case (Some t)
    have "fields_ok (n + 6) s" using core by (simp add: core_def)
    then have "selectors s (m_targetSelector t) \<noteq> None" using Some by (simp add: fields_ok_def)
    then have "m_targetSelector t \<noteq> ?p" using x0 by metis
    then show ?thesis using Some by (simp add: target_of_def claim_def s1)
  qed (simp add: target_of_def claim_def s1)
  then have "queued_ok ?s (S, A, R)" using ok unfolding sched_ok_def Q by (auto simp: claim_def s1)
  moreover have "core env (\<lambda>p. claims ?s p + slots (queues_of s) p) n ?s"
    using new_selector_core [OF core, of args] h by (simp add: claim_def)
  moreover have "queues_of ?s = (S, A, R)" "arrays_ok n ?s" using Q ok s1 by (simp_all add: claim_def sched_ok_def arrays_ok_def)
  ultimately have "sched_ok env n ?s" by (simp add: sched_ok_def Q)
  then show ?thesis by (simp add: kept_def claim_def s1)
qed

lemma claim_keeps:
  assumes ok: "sched_ok env (n + 6) s" and p: "usable s p"
  shows "kept env n (map_option (claim p) (retain_ref (Some p) s)) s"
proof -
  let ?h = "\<lambda>p. claims s p + slots (queues_of s) p"
  have "core env ?h n s" using ok core_less [of env ?h "n + 6" s n] by (simp add: sched_ok_def)
  then obtain m where m: "retain_ref (Some p) s = Some (s\<lparr>memory_of := m\<rparr>)" "core env (?h(p := Suc (?h p))) n (s\<lparr>memory_of := m\<rparr>)"
    using retain_core [of env ?h n s p] p by (auto simp: usable_def)
  let ?s = "claim p (s\<lparr>memory_of := m\<rparr>)"
  have h: "?h(p := Suc (?h p)) = (\<lambda>r. claims ?s r + slots (queues_of s) r)" by (simp add: fun_eq_iff claim_def)
  have "target_of ?s r = target_of s r" for r by (simp add: target_of_def claim_def)
  then have "queued_ok ?s (queues_of s)" using ok by (cases "queues_of s") (auto simp: sched_ok_def claim_def)
  then have "sched_ok env n ?s" using m(2) h ok by (simp add: sched_ok_def claim_def arrays_ok_def)
  then show ?thesis using m(1) by (simp add: kept_def) (simp add: claim_def)
qed

lemma release_keeps:
  assumes ok: "sched_ok env (n + 6) s" and env: "env_ok env" and p: "legal s (ReleaseRef p)"
  shows "kept env n (client_step env (ReleaseRef p) s) s"
proof -
  let ?h = "\<lambda>p. claims s p + slots (queues_of s) p"
  let ?s0 = "s\<lparr>claims := (claims s)(p := claims s p - 1)\<rparr>"
  have c: "core env ?h (n + 6) ?s0" using ok by (simp add: sched_ok_def)
  obtain m where m: "release_ref env (Some p) ?s0 = Some (?s0\<lparr>memory_of := m\<rparr>)" "core env (?h(p := ?h p - 1)) n (?s0\<lparr>memory_of := m\<rparr>)"
    using release_core [OF c _ env, of p] p by auto
  let ?s = "?s0\<lparr>memory_of := m\<rparr>"
  have h: "?h(p := ?h p - 1) = (\<lambda>r. claims ?s r + slots (queues_of s) r)" using p by (auto simp: fun_eq_iff)
  obtain S A R where Q: "queues_of s = (S, A, R)" by (metis prod_cases3)
  have t: "target_of ?s r = target_of s r" for r by (simp add: target_of_def)
  have "0 < claims ?s q" if "r \<in> set S \<union> set A" "target_of s r = Some q" for r q
  proof -
    have "q \<in> queued_targets s" using that Q by (auto simp: queued_targets_def queues_of_def)
    moreover have "0 < claims s q" using ok that by (auto simp: sched_ok_def Q)
    ultimately show ?thesis using p by (cases "q = p") auto
  qed
  then have "queued_ok ?s (S, A, R)" using ok t by (auto simp: sched_ok_def Q)
  then have "sched_ok env n ?s" using m(2) h ok by (simp add: sched_ok_def Q arrays_ok_def)
  then show ?thesis using m(1) by (simp add: kept_def)
qed

lemma client_step_keeps:
  assumes ok: "sched_ok env (n + 6) s" and env: "env_ok env" and l: "legal s c"
  shows "kept env n (client_step env c s) s"
proof (cases c)
  case (NewSelector args)
  then show ?thesis using new_selector_keeps [OF ok] by simp
next
  case (NewTimer ts)
  then show ?thesis using new_timer_keeps [OF ok] l by simp
next
  case (NewTimerInterval ts v)
  then show ?thesis using new_timer_keeps [OF ok] l by simp
next
  case (NewTimerFrame ts v)
  then show ?thesis using new_timer_keeps [OF ok] l by simp
next
  case (Retain p)
  then show ?thesis using claim_keeps [OF ok] l by simp
next
  case (ReleaseRef p)
  then show ?thesis using release_keeps [OF ok env] l by simp
next
  case (Schedule t)
  then show ?thesis using steps_to_kept [OF schedule_ok [OF ok env, of t]] l by (auto simp: usable_def)
next
  case (Unschedule t)
  then show ?thesis using steps_to_kept [OF unschedule_ok [OF ok env, of t]] l by (auto simp: usable_def)
next
  case (SetInterval t v)
  then show ?thesis using l change_keeps [OF ok, of t "setInterval env v"]
    by (simp add: setInterval_def Let_def timer_ok_def)
next
  case (SetFrame t v)
  then show ?thesis using l change_keeps [OF ok, of t "\<lambda>x. x\<lparr>m_frame := v\<rparr>"] by (simp add: timer_ok_def)
next
  case (SetMaxInvocation t v)
  then show ?thesis using l change_keeps [OF ok, of t "\<lambda>x. x\<lparr>m_maxInvocation := v\<rparr>"] by (simp add: timer_ok_def)
next
  case (SetOneShot t b)
  then show ?thesis using l change_keeps [OF ok, of t "setOneShot b"] by (simp add: setOneShot_def timer_ok_def)
next
  case (SetPaused t b)
  then show ?thesis using l change_keeps [OF ok, of t "\<lambda>x. x\<lparr>m_paused := b\<rparr>"] by (simp add: timer_ok_def)
next
  case (Reset t)
  then show ?thesis using l change_keeps [OF ok, of t "timer_reset env"] sched_ok_bound [OF ok]
    by (simp add: timer_reset_def timer_ok_def)
next
  case (SetTimeScale v)
  have "queued_ok (s\<lparr>m_timeScale := v\<rparr>) Q = queued_ok s Q" for Q by (cases Q) (simp add: target_of_def)
  then show ?thesis using SetTimeScale sched_ok_less [OF ok, of n] by (simp add: kept_def sched_ok_def)
qed

lemma client_steps_keeps:
  "sched_ok env (n + 6 * length cs) s \<Longrightarrow> env_ok env \<Longrightarrow> legal_calls env s cs \<Longrightarrow> kept env n (client_steps env cs s) s"
proof (induction cs arbitrary: s)
  case (Cons c cs)
  have ok: "sched_ok env (n + 6 * length cs + 6) s" using Cons.prems(1) by (simp add: algebra_simps)
  then obtain s1 where s1: "client_step env c s = Some s1" "sched_ok env (n + 6 * length cs) s1" "m_scheduledTimers s1 = m_scheduledTimers s"
    using client_step_keeps [OF ok Cons.prems(2), of c] Cons.prems(3) by (auto simp: kept_def)
  have "kept env n (client_steps env cs s1) s1" using Cons.prems s1(1) by (intro Cons.IH s1(2)) simp_all
  then show ?case using s1(1,3) by (simp add: kept_def)
qed (simp add: kept_def)

end
