(* ===== verification/Wy_Scheduler_Tick.thy ===== *)
theory Wy_Scheduler_Tick imports Wy_Scheduler_Spec begin

text \<open>
  Firing and ticks: \<open>wyTimer::fire\<close> with the calls its callback makes, the retirement of a timer, the
  passes over the three queues and the whole tick keep the account of \<open>Wy_Scheduler_Spec\<close>.
\<close>

section \<open>Firing a timer\<close>

text \<open>A client that makes at most \<open>k\<close> calls, all of them legal, when it is called back.\<close>

definition honest :: "'f surroundings \<Rightarrow> nat \<Rightarrow> bool" where
  "honest env k \<longleftrightarrow>
     (\<forall>n i s. sched_ok env n s \<longrightarrow> length (callback env i s) \<le> k \<and> legal_calls env s (callback env i s))"

lemma setDelta_sched:
  assumes "sched_ok env n s" "selector_at s p = Some x"
  shows "\<exists>x'. setDelta delta p s = Some (s\<lparr>selectors := (selectors s)(p \<mapsto> x')\<rparr>) \<and>
    sched_ok env n (s\<lparr>selectors := (selectors s)(p \<mapsto> x')\<rparr>) \<and> (x' = x \<or> x' = x\<lparr>m_delta := Some delta\<rparr>)"
proof -
  have core: "core env (\<lambda>p. claims s p + slots (queues_of s) p) n s" using assms(1) by (simp add: sched_ok_def)
  obtain x' where x': "setDelta delta p s = Some (s\<lparr>selectors := (selectors s)(p \<mapsto> x')\<rparr>)"
    "core env (\<lambda>p. claims s p + slots (queues_of s) p) n (s\<lparr>selectors := (selectors s)(p \<mapsto> x')\<rparr>)"
    "x' = x \<or> x' = x\<lparr>m_delta := Some delta\<rparr>"
    using setDelta_core [OF core assms(2)] by blast
  let ?s = "s\<lparr>selectors := (selectors s)(p \<mapsto> x')\<rparr>"
  have xp: "selectors s p = Some x" using assms(2) by (auto simp: selector_at_def opt_simps)
  have "m_target x' = m_target x" using x'(3) by auto
  then have "target_of ?s r = target_of s r" for r using xp by (cases "timers s r") (auto simp: target_of_def)
  then have "queued_ok ?s (queues_of s)" using assms(1) by (cases "queues_of s") (auto simp: sched_ok_def)
  then show ?thesis using x' assms(1) by (intro exI [of _ x']) (simp add: sched_ok_def)
qed

lemma sched_ok_invoked [simp]: "sched_ok env n (s\<lparr>invoked := l\<rparr>) = sched_ok env n s"
proof -
  have "target_of (s\<lparr>invoked := l\<rparr>) r = target_of s r" for r by (simp add: target_of_def)
  then show ?thesis by (cases "queues_of s") (simp add: sched_ok_def)
qed

lemma invoke_keeps:
  assumes ok: "sched_ok env (n + 6 * k) s" and env: "env_ok env" "honest env k" and x: "selector_at s p = Some x"
    and target: "\<And>q. m_target x = Some q \<Longrightarrow> 0 < claims s q"
  shows "kept env n (invoke env delta p s) s"
proof -
  have core: "core env (\<lambda>p. claims s p + slots (queues_of s) p) (n + 6 * k) s" using ok by (simp add: sched_ok_def)
  have xp: "selectors s p = Some x" using x by (auto simp: selector_at_def opt_simps)
  have "fields_ok (n + 6 * k) s" using core by (simp add: core_def)
  then have "invocation_of x \<noteq> None" using xp unfolding fields_ok_def by blast
  then obtain inv where inv: "invocation_of x = Some inv" by blast
  have t: "(case m_target x of None \<Rightarrow> Some () | Some q \<Rightarrow> map_option (\<lambda>_. ()) (object_at (memory_of s) q)) = Some ()"
    using target claimed_alive [OF core] by (auto split: option.splits)
  show ?thesis
  proof (cases inv)
    case None
    then show ?thesis using x inv t sched_ok_less [OF ok, of n] by (simp add: invoke_def kept_def)
  next
    case (Some i)
    let ?s = "s\<lparr>invoked := invoked s @ [(i, delta)]\<rparr>"
    have s: "sched_ok env (n + 6 * k) ?s" using ok by simp
    have h: "length (callback env i ?s) \<le> k" "legal_calls env ?s (callback env i ?s)"
      using env(2) s unfolding honest_def by blast+
    have "sched_ok env (n + 6 * length (callback env i ?s)) ?s" by (rule sched_ok_less [OF s]) (use h(1) in simp)
    then show ?thesis using client_steps_keeps [OF _ env(1) h(2)] x inv t Some by (simp add: invoke_def kept_def Let_def)
  qed
qed

lemma scheduled_usable:
  assumes "sched_ok env n s" "p \<in> set (queue (m_scheduledTimers s))"
  shows "usable s p" "timers s p \<noteq> None"
  using queued_claimed [OF assms(1), of "queue (m_scheduledTimers s)" "queue (m_timersToAdd s)" "queue (m_timersToRemove s)" p] assms(2)
  by (simp_all add: usable_def queues_of_def)

lemma timer_due_keeps:
  assumes ok: "sched_ok env (n + 6 * k + 1) s" and env: "env_ok env" "honest env k"
    and p: "p \<in> set (queue (m_scheduledTimers s))"
  shows "kept env n (timer_due env p s) s"
proof -
  obtain u y where u: "timer_at s p = Some u" "timers s p = Some u" "timer_ok (n + 6 * k + 1) u"
    and y: "selector_at s (m_targetSelector u) = Some y" "selectors s (m_targetSelector u) = Some y"
    by (rule queued_timer [OF ok scheduled_usable [OF ok p]])
  let ?f = "\<lambda>x :: 'a wyTimer. x\<lparr>m_counter := m_counter u + 1\<rparr>"
  let ?s1 = "s\<lparr>timers := (timers s)(p \<mapsto> ?f u)\<rparr>"
  have c: "int_range (m_counter u + 1) = Some (m_counter u + 1)" using u(3) by (simp add: timer_ok_def int_range_def)
  have s1: "change_timer ?f p s = Some ?s1 \<and> sched_ok env (n + 6 * k) ?s1"
    by (rule change_sched [OF ok u(1), where f = ?f]) (use u(3) in \<open>simp_all add: timer_ok_def\<close>)
  have y1: "selector_at ?s1 (m_targetSelector u) = Some y" using y(1) by (simp add: selector_at_def)
  obtain x where x: "setDelta (m_elapsed u) (m_targetSelector u) ?s1 = Some (?s1\<lparr>selectors := (selectors s)(m_targetSelector u \<mapsto> x)\<rparr>)"
    "sched_ok env (n + 6 * k) (?s1\<lparr>selectors := (selectors s)(m_targetSelector u \<mapsto> x)\<rparr>)" "m_target x = m_target y"
    using setDelta_sched [OF conjunct2 [OF s1] y1, of "m_elapsed u"] by auto
  let ?s2 = "?s1\<lparr>selectors := (selectors s)(m_targetSelector u \<mapsto> x)\<rparr>"
  have x2: "selector_at ?s2 (m_targetSelector u) = Some x" using y(1) by (auto simp: selector_at_def opt_simps)
  have "0 < claims ?s2 q" if "m_target x = Some q" for q
  proof -
    have "target_of s p = Some q" using that x(3) u(2) y(2) by (simp add: target_of_def)
    then show ?thesis using ok p by (auto simp: sched_ok_def queues_of_def)
  qed
  then have "kept env n (invoke env (m_elapsed u) (m_targetSelector u) ?s2) ?s2"
    using invoke_keeps [OF x(2) env x2] by blast
  then show ?thesis using u(1) c s1 x(1) by (simp add: timer_due_def kept_def)
qed

text \<open>A change of a field that counts nothing.\<close>

lemma change_still:
  assumes ok: "sched_ok env n s" and t: "usable s p" "timers s p \<noteq> None"
    and f: "\<And>t. m_targetSelector (f t) = m_targetSelector t" "\<And>t. timer_ok n t \<Longrightarrow> timer_ok n (f t)"
  shows "kept env n (change_timer f p s) s"
proof -
  obtain u y where u: "timer_at s p = Some u" "timer_ok n u" by (rule queued_timer [OF ok t])
  show ?thesis using change_sched [OF ok u(1), of f n] f u(2) by (simp add: kept_def)
qed

lemma wyTimer_fire_keeps:
  assumes ok: "sched_ok env (n + 6 * k + 2) s" and env: "env_ok env" "honest env k"
    and p: "p \<in> set (queue (m_scheduledTimers s))"
  shows "kept env n (wyTimer_fire env delta p s) s"
proof -
  obtain u y where u: "timer_at s p = Some u" "timers s p = Some u" "timer_ok (n + 6 * k + 2) u"
    by (rule queued_timer [OF ok scheduled_usable [OF ok p]])
  let ?e = "f_add (float_of env) (m_elapsed u) delta"
  let ?f = "\<lambda>x :: 'a wyTimer. x\<lparr>m_elapsed := ?e\<rparr>"
  let ?s1 = "s\<lparr>timers := (timers s)(p \<mapsto> ?f u)\<rparr>"
  have s1: "change_timer ?f p s = Some ?s1 \<and> sched_ok env (n + 6 * k + 2) ?s1"
    by (rule change_sched [OF ok u(1), where f = ?f]) (use u(3) in \<open>simp_all add: timer_ok_def\<close>)
  have after: "kept env n (Option.bind (timer_due env p r) (change_timer g p)) r"
    if r: "sched_ok env (n + 6 * k + 1) r" "m_scheduledTimers r = m_scheduledTimers s"
      and g: "\<And>t. m_targetSelector (g t) = m_targetSelector t" "\<And>t. timer_ok n t \<Longrightarrow> timer_ok n (g t)"
    for r :: "'a scheduler" and g
  proof -
    obtain r1 where r1: "timer_due env p r = Some r1" "sched_ok env n r1" "m_scheduledTimers r1 = m_scheduledTimers r"
      using timer_due_keeps [OF r(1) env] p r(2) by (auto simp: kept_def)
    have "p \<in> set (queue (m_scheduledTimers r1))" using p r(2) r1(3) by simp
    then have "kept env n (change_timer g p r1) r1"
      by (intro change_still [OF r1(2)] scheduled_usable [OF r1(2)] g)
    then show ?thesis using r1 by (simp add: kept_def)
  qed
  show ?thesis
  proof (cases "0 < m_frame u")
    case True
    let ?g = "\<lambda>x :: 'a wyTimer. x\<lparr>m_elapsedFrame := m_elapsedFrame u + 1\<rparr>"
    let ?s2 = "?s1\<lparr>timers := (timers ?s1)(p \<mapsto> ?g (?f u))\<rparr>"
    have i: "int_range (m_elapsedFrame u + 1) = Some (m_elapsedFrame u + 1)" using u(3) by (simp add: timer_ok_def int_range_def)
    have u1: "timer_at ?s1 p = Some (?f u)" using u(1) by (auto simp: timer_at_def opt_simps)
    have s2: "change_timer ?g p ?s1 = Some ?s2 \<and> sched_ok env (n + 6 * k + 1) ?s2"
      by (rule change_sched [OF conjunct2 [OF s1] u1, where f = ?g]) (use u(3) in \<open>simp_all add: timer_ok_def\<close>)
    note a = after [of ?s2 "\<lambda>x. x\<lparr>m_elapsedFrame := 0, m_elapsed := f_zero (float_of env)\<rparr>"]
    show ?thesis
    proof (cases "m_frame u \<le> m_elapsedFrame u + 1")
      case due: True
      have "kept env n (Option.bind (timer_due env p ?s2) (change_timer (\<lambda>x. x\<lparr>m_elapsedFrame := 0, m_elapsed := f_zero (float_of env)\<rparr>) p)) ?s2"
        by (rule a) (use s2 sched_ok_bound [OF ok] in \<open>simp_all add: timer_ok_def\<close>)
      then show ?thesis using u(1) s1 s2 True due i by (simp add: wyTimer_fire_def kept_def Let_def)
    next
      case False
      have "sched_ok env n ?s2" by (rule sched_ok_less [OF conjunct2 [OF s2]]) simp
      then show ?thesis using u(1) s1 s2 True False i by (simp add: wyTimer_fire_def kept_def Let_def)
    qed
  next
    case False
    have s1': "sched_ok env (n + 6 * k + 1) ?s1" by (rule sched_ok_less [OF conjunct2 [OF s1]]) simp
    have "kept env n (Option.bind (timer_due env p ?s1) (change_timer (\<lambda>x. x\<lparr>m_elapsed := f_zero (float_of env)\<rparr>) p)) ?s1"
      by (rule after) (use s1' in \<open>simp_all add: timer_ok_def\<close>)
    moreover have "sched_ok env n ?s1" by (rule sched_ok_less [OF s1']) simp
    ultimately show ?thesis using u(1) s1 False by (simp add: wyTimer_fire_def kept_def Let_def)
  qed
qed

lemma release_none: "release_ref env None s = Some s"
  by (simp add: release_ref_def wyObjectRelease_def)

lemma retire_keeps:
  assumes ok: "sched_ok env (n + 7) s" and env: "env_ok env" and t: "t \<in> set (queue (m_scheduledTimers s))"
  shows "kept env n (retire env t s) s"
proof -
  let ?P = "equal_timer env s t"
  let ?h = "\<lambda>p. claims s p + slots (queues_of s) p"
  let ?f = "\<lambda>x :: 'a wyTimer. x\<lparr>m_pendingRemove := True, m_done := True\<rparr>"
  obtain S A R where Q: "queues_of s = (S, A, R)" by (metis prod_cases3)
  have q: "queue (m_scheduledTimers s) = S" "queue (m_timersToAdd s) = A" "queue (m_timersToRemove s) = R"
    using Q by (simp_all add: queues_of_def)
  have qok: "queue_ok (m_timersToAdd s)" "queue_ok (m_timersToRemove s)" "\<not> locked (m_timersToAdd s)" "\<not> locked (m_timersToRemove s)"
    "length R + (n + 7) \<le> array_limit" "length S + length A + (n + 7) \<le> array_limit" "queue_ok (m_scheduledTimers s)"
    using ok q by (simp_all add: sched_ok_def arrays_ok_def)
  have us: "0 < claims s t + slots (queues_of s) t" "timers s t \<noteq> None" using scheduled_usable [OF ok t] by (simp_all add: usable_def)
  have eqA: "\<And>p. p \<in> set A \<Longrightarrow> wyTimerEquals env s (Some p) (Some t) = Some (?P p)"
    by (rule equals_defined [OF ok us Q]) simp
  obtain b where b: "timer_delete env s (m_timersToAdd s) t = Some (find ?P A, b)" "queue_ok b" "queue b = drop_first ?P A" "\<not> locked b"
    using timer_delete_ok [OF qok(1,3), unfolded q, OF eqA] by blast
  obtain c where c: "wyArrayPush (m_timersToRemove s) (Some t) = Some c" "queue_ok c" "queue c = R @ [t]" "\<not> locked c"
    using queue_push [OF qok(2,4), of t] qok(5) q by auto
  let ?s0 = "s\<lparr>m_timersToAdd := b, m_timersToRemove := c\<rparr>"
  obtain u y where u: "timer_at s t = Some u" "timers s t = Some u" "timer_ok (n + 7) u"
    by (rule queued_timer [OF ok scheduled_usable [OF ok t]])
  let ?s1 = "?s0\<lparr>timers := (timers s)(t \<mapsto> ?f u)\<rparr>"
  have s1: "change_timer ?f t ?s0 = Some ?s1 \<and> core env ?h (n + 6) ?s1"
    using change_core [of env ?h "n + 7" ?s0 t u ?f "n + 6"] ok u by (simp add: sched_ok_def timer_ok_def)
  obtain m where m: "retain_ref (Some t) ?s1 = Some (?s1\<lparr>memory_of := m\<rparr>)" "core env (?h(t := Suc (?h t))) (n + 6) (?s1\<lparr>memory_of := m\<rparr>)"
    using retain_core [OF conjunct2 [OF s1], of t] us(1) by blast
  let ?s2 = "?s1\<lparr>memory_of := m\<rparr>"
  have h: "?h(t := Suc (?h t)) = (\<lambda>p. claims ?s2 p + slots (S, A, R @ [t]) p)" using Q by (simp add: fun_eq_iff)
  have q2: "queues_of ?s2 = (S, drop_first ?P A, R @ [t])" using q b(3) c(3) by (simp add: queues_of_def)
  have sub: "set (drop_first ?P A) \<subseteq> set A" by (induction A) auto
  have len: "length (drop_first ?P A) \<le> length A" by (induction A) auto
  have qs: "queued_ok s (S, A, R)" using ok by (simp add: sched_ok_def Q)
  have tr: "target_of ?s2 r = target_of s r" for r
    by (rule target_of_timer [where u = "?f u", OF _ u(2)]) simp_all
  have qs': "queued_ok s (S, drop_first ?P A, R @ [t])" using qs sub u(2) by auto
  have q3: "queued_ok ?s2 (S, drop_first ?P A, R @ [t])"
  proof (rule queued_ok_mono [OF qs'])
    fix r assume "r \<in> set S \<union> set (drop_first ?P A) \<union> set (R @ [t])"
    then have "timers s r \<noteq> None" using qs' unfolding queued_ok.simps by blast
    then show "timers ?s2 r \<noteq> None \<and> target_of ?s2 r = target_of s r" using tr by simp
  qed simp
  have a2: "arrays_ok n ?s2" using qok b c q len by (simp add: arrays_ok_def)
  have "kept env n (release_ref env (find ?P A) ?s2) ?s2"
  proof (cases "find ?P A")
    case None
    then have "core env (\<lambda>p. claims ?s2 p + slots (queues_of ?s2) p) n ?s2"
      using core_less [OF m(2), of n] h q2 drop_first_none [OF None] by simp
    then have "sched_ok env n ?s2" using a2 q3 q2 by (simp add: sched_ok_def)
    then show ?thesis using None by (simp add: kept_def release_none)
  next
    case (Some r)
    obtain xs ys where x: "A = xs @ r # ys" "drop_first ?P A = xs @ ys" using find_split [OF Some] by blast
    have "\<exists>m'. release_ref env (Some r) ?s2 = Some (?s2\<lparr>memory_of := m'\<rparr>) \<and> sched_ok env n (?s2\<lparr>memory_of := m'\<rparr>)"
    proof (rule slot_release [where Q = "(S, A, R @ [t])" and Q' = "(S, xs @ ys, R @ [t])"])
      show "core env (\<lambda>p. claims ?s2 p + slots (S, A, R @ [t]) p) (n + 6) ?s2" using m(2) h by simp
      show "slots (S, A, R @ [t]) p = slots (S, xs @ ys, R @ [t]) p + (if p = r then 1 else 0)" for p
        unfolding x(1) by simp
      show "queued_ok ?s2 (S, xs @ ys, R @ [t])" using q3 x(2) by simp
      show "queues_of ?s2 = (S, xs @ ys, R @ [t])" using q2 x(2) by simp
    qed (use a2 env in auto)
    then show ?thesis using Some by (auto simp: kept_def)
  qed
  then show ?thesis using b(1) c(1) s1 m(1) by (simp add: retire_def kept_def q)
qed

lemma fire_timer_keeps:
  assumes ok: "sched_ok env (n + 6 * k + 9) s" and env: "env_ok env" "honest env k"
    and t: "t \<in> set (queue (m_scheduledTimers s))"
  shows "kept env n (fire_timer env delta t s) s"
proof -
  obtain u y where u: "timer_at s t = Some u" by (rule queued_timer [OF ok scheduled_usable [OF ok t]])
  show ?thesis
  proof (cases "m_done u \<or> m_paused u")
    case True
    then show ?thesis using u sched_ok_less [OF ok, of n] by (simp add: fire_timer_def kept_def)
  next
    case False
    have "kept env (n + 7) (if m_pendingRemove u then Some s else wyTimer_fire env delta t s) s"
    proof (cases "m_pendingRemove u")
      case True
      then show ?thesis using sched_ok_less [OF ok, of "n + 7"] by (simp add: kept_def)
    next
      case False
      have "sched_ok env ((n + 7) + 6 * k + 2) s" by (rule sched_ok_less [OF ok]) simp
      then show ?thesis using wyTimer_fire_keeps [OF _ env t, of "n + 7"] False by simp
    qed
    then obtain s1 where s1: "(if m_pendingRemove u then Some s else wyTimer_fire env delta t s) = Some s1"
      "sched_ok env (n + 7) s1" "m_scheduledTimers s1 = m_scheduledTimers s" by (auto simp: kept_def)
    have t1: "t \<in> set (queue (m_scheduledTimers s1))" using t s1(3) by simp
    obtain v z where v: "timer_at s1 t = Some v" by (rule queued_timer [OF s1(2) scheduled_usable [OF s1(2) t1]])
    show ?thesis
    proof (cases "0 < m_maxInvocation v \<and> m_maxInvocation v \<le> m_counter v")
      case True
      then show ?thesis using retire_keeps [OF s1(2) env(1) t1] u False s1 v by (simp add: fire_timer_def kept_def)
    next
      case nF: False
      then show ?thesis using sched_ok_less [OF s1(2), of n] u False s1 v by (auto simp: fire_timer_def kept_def)
    qed
  qed
qed

section \<open>The queues at a tick\<close>

definition same_queues :: "'f scheduler \<Rightarrow> 'f scheduler \<Rightarrow> bool" where
  "same_queues s s' \<longleftrightarrow> m_scheduledTimers s' = m_scheduledTimers s \<and> m_timersToAdd s' = m_timersToAdd s \<and>
     m_timersToRemove s' = m_timersToRemove s"

text \<open>The pass that releases every timer of a queue and clears its flag.\<close>

lemma release_pass:
  assumes a: "queue_ok a" and c: "core env (\<lambda>p. h p + count_list (queue a) p) (n + 6 * length (queue a)) s"
    and t: "\<forall>p\<in>set (queue a). timers s p \<noteq> None" and env: "env_ok env"
  shows "\<exists>s'. wyArrayEach (releaseTimer env) a s = Some (a\<lparr>locked := False\<rparr>, s') \<and> core env h n s' \<and>
    same_fields s s' \<and> same_queues s s' \<and> flagged s' = flagged s - set (queue a)"
proof -
  let ?q = "queue a"
  define I where "I i s' \<longleftrightarrow> core env (\<lambda>p. h p + count_list (drop i ?q) p) (n + 6 * (length ?q - i)) s' \<and>
    same_fields s s' \<and> same_queues s s' \<and> flagged s' = flagged s - set (take i ?q)" for i s'
  have "I 0 s" using c by (simp add: I_def same_queues_def)
  have "\<exists>s2. releaseTimer env (a\<lparr>locked := True\<rparr>) (elems a ! i) i s1 = Some (a\<lparr>locked := True\<rparr>, s2, True) \<and> I (Suc i) s2"
    if I: "I i s1" and i: "i < num a" for i s1
  proof -
    let ?p = "?q ! i"
    have il: "i < length ?q" using i queue_num [OF a] by simp
    have d: "drop i ?q = ?p # drop (Suc i) ?q" using il by (simp add: Cons_nth_drop_Suc)
    have e: "elems a ! i = Some ?p" using a il by (simp add: queue_ok_def)
    let ?h = "\<lambda>p. h p + count_list (drop i ?q) p"
    have core: "core env ?h (n + 6 * (length ?q - Suc i) + 6) s1"
    proof (rule core_less)
      show "core env ?h (n + 6 * (length ?q - i)) s1" using I by (simp add: I_def)
    qed (use il in simp)
    have sf: "same_fields s s1" using I by (simp add: I_def)
    have tp: "timers s1 ?p \<noteq> None" using t il same_fields_timer(1) [OF sf, of ?p] by simp
    have hp: "0 < ?h ?p" by (simp add: d)
    obtain u y where u: "timer_at s1 ?p = Some u" "timers s1 ?p = Some u" "timer_ok (n + 6 * (length ?q - Suc i) + 6) u"
      by (rule claimed_timer [OF core hp tp])
    let ?f = "\<lambda>x :: 'a wyTimer. x\<lparr>m_pendingRemove := False\<rparr>"
    let ?s2 = "s1\<lparr>timers := (timers s1)(?p \<mapsto> ?f u)\<rparr>"
    have s2: "change_timer ?f ?p s1 = Some ?s2 \<and> core env ?h (n + 6 * (length ?q - Suc i) + 6) ?s2"
      by (rule change_core [OF core u(1), where f = ?f]) (use u(3) in \<open>simp_all add: timer_ok_def\<close>)
    obtain m where m: "release_ref env (Some ?p) ?s2 = Some (?s2\<lparr>memory_of := m\<rparr>)"
      "core env (?h(?p := ?h ?p - 1)) (n + 6 * (length ?q - Suc i)) (?s2\<lparr>memory_of := m\<rparr>)"
      using release_core [OF conjunct2 [OF s2] hp env] by blast
    have h: "?h(?p := ?h ?p - 1) = (\<lambda>p. h p + count_list (drop (Suc i) ?q) p)" by (simp add: fun_eq_iff d)
    have "same_fields s1 (?s2\<lparr>memory_of := m\<rparr>)" using same_fields_flag [OF u(2), of False] by simp
    then have sf2: "same_fields s (?s2\<lparr>memory_of := m\<rparr>)" by (rule same_fields_trans [OF sf])
    have fl: "flagged (?s2\<lparr>memory_of := m\<rparr>) = flagged s1 - {?p}" by (auto simp: flagged_def)
    have "take (Suc i) ?q = take i ?q @ [?p]" by (rule take_Suc_nth [OF il])
    then have "flagged (?s2\<lparr>memory_of := m\<rparr>) = flagged s - set (take (Suc i) ?q)" using fl I by (auto simp: I_def)
    moreover have "same_queues s (?s2\<lparr>memory_of := m\<rparr>)" using I by (simp add: I_def same_queues_def)
    ultimately have "I (Suc i) (?s2\<lparr>memory_of := m\<rparr>)" using m(2) [unfolded h] sf2 by (simp add: I_def)
    then show ?thesis using s2 m(1) by (simp add: releaseTimer_def e)
  qed
  then obtain s' where s': "wyArrayEach (releaseTimer env) a s = Some (a\<lparr>locked := False\<rparr>, s')" "I (num a) s'"
    using wyArrayEach_keeps [of a I s "releaseTimer env"] a \<open>I 0 s\<close> by (auto simp: queue_ok_def)
  then show ?thesis using queue_num [OF a] by (auto simp: I_def)
qed

lemma queue_clear:
  assumes "queue_ok a"
  shows "\<exists>b. wyArrayClear a = Some b \<and> queue_ok b \<and> queue b = [] \<and> locked b = locked a"
proof -
  obtain b where b: "wyArrayClear a = Some b" "array_ok b" "elems b = []" "locked b = locked a"
    using wyArrayClear_ok [of a] assms by (auto simp: queue_ok_def)
  then show ?thesis using queue_okI [of b "[]"] by simp
qed

text \<open>The queue without one timer equal to each of those to be removed.\<close>

definition remove_equal :: "(nat \<Rightarrow> nat \<Rightarrow> bool) \<Rightarrow> nat list \<Rightarrow> nat list \<Rightarrow> nat list" where
  "remove_equal P R S = fold (\<lambda>r. drop_first (P r)) R S"

lemma drop_first_sub: "set (drop_first P xs) \<subseteq> set xs" "length (drop_first P xs) \<le> length xs"
  by (induction xs) auto

lemma remove_equal_sub: "set (remove_equal P R S) \<subseteq> set S" "length (remove_equal P R S) \<le> length S"
proof (induction R arbitrary: S)
  case (Cons r R)
  { case 1 then show ?case using Cons.IH(1) [of "drop_first (P r) S"] drop_first_sub(1) [of "P r" S] by (auto simp: remove_equal_def)
  next
    case 2 then show ?case using Cons.IH(2) [of "drop_first (P r) S"] drop_first_sub(2) [of "P r" S] by (auto simp: remove_equal_def)
  }
qed (simp_all add: remove_equal_def)

lemma same_queues_of: "same_queues s s' \<Longrightarrow> queues_of s' = queues_of s \<and> arrays_ok n s' = arrays_ok n s"
  by (simp add: same_queues_def queues_of_def arrays_ok_def)

lemma remove_pass:
  assumes ok: "sched_ok env (n + 6 * length R) s" and env: "env_ok env" and Q: "queues_of s = (S, A, R)"
    and un: "\<not> locked (m_scheduledTimers s)"
  shows "\<exists>s'. wyArrayEach (removeTimers env) (m_timersToRemove s) s = Some (m_timersToRemove s, s') \<and> sched_ok env n s' \<and>
    same_fields s s' \<and> flagged s' = flagged s \<and> queues_of s' = (remove_equal (equal_timer env s) R S, A, R) \<and>
    m_timersToAdd s' = m_timersToAdd s \<and> m_timersToRemove s' = m_timersToRemove s \<and> \<not> locked (m_scheduledTimers s')"
proof -
  let ?a = "m_timersToRemove s"
  let ?E = "equal_timer env s"
  have a: "queue_ok ?a" "queue ?a = R" "\<not> locked ?a" using ok Q by (simp_all add: sched_ok_def arrays_ok_def queues_of_def)
  define I where "I i s' \<longleftrightarrow> sched_ok env (n + 6 * (length R - i)) s' \<and> same_fields s s' \<and> flagged s' = flagged s \<and>
    queues_of s' = (remove_equal ?E (take i R) S, A, R) \<and>
    m_timersToAdd s' = m_timersToAdd s \<and> m_timersToRemove s' = ?a \<and> \<not> locked (m_scheduledTimers s')" for i s'
  have "I 0 s" using ok Q un by (simp add: I_def remove_equal_def)
  have "\<exists>s2. removeTimers env (?a\<lparr>locked := True\<rparr>) (elems ?a ! i) i s1 = Some (?a\<lparr>locked := True\<rparr>, s2, True) \<and> I (Suc i) s2"
    if I: "I i s1" and i: "i < num ?a" for i s1
  proof -
    let ?p = "R ! i"
    let ?S = "remove_equal ?E (take i R) S"
    have il: "i < length R" using i queue_num [OF a(1)] a(2) by simp
    have e: "elems ?a ! i = Some ?p" using a il by (simp add: queue_ok_def)
    have ok1: "sched_ok env (n + 6 * (length R - Suc i) + 6) s1"
    proof (rule sched_ok_less)
      show "sched_ok env (n + 6 * (length R - i)) s1" using I by (simp add: I_def)
    qed (use il in simp)
    have Q1: "queues_of s1 = (?S, A, R)" "same_fields s s1" "\<not> locked (m_scheduledTimers s1)" using I by (simp_all add: I_def)
    have qs: "queue_ok (m_scheduledTimers s1)" "queue (m_scheduledTimers s1) = ?S"
      using ok1 Q1(1) by (simp_all add: sched_ok_def arrays_ok_def queues_of_def)
    have pR: "?p \<in> set ?S \<union> set A \<union> set R" using il by simp
    note us = queued_claimed [OF ok1 Q1(1) pR]
    have eq: "wyTimerEquals env s1 (Some q) (Some ?p) = Some (?E ?p q)" if "q \<in> set (queue (m_scheduledTimers s1))" for q
      using equals_defined [OF ok1 us Q1(1), of q] that qs(2) equal_timer_same [OF Q1(2), of env] by simp
    obtain b where b: "timer_delete env s1 (m_scheduledTimers s1) ?p = Some (find (?E ?p) ?S, b)" "queue_ok b"
      "queue b = drop_first (?E ?p) ?S" "\<not> locked b"
      using timer_delete_ok [OF qs(1) Q1(3) eq] qs(2) by auto
    let ?s2 = "s1\<lparr>m_scheduledTimers := b\<rparr>"
    have q2: "queues_of ?s2 = (drop_first (?E ?p) ?S, A, R)" using Q1(1) b(3) by (simp add: queues_of_def)
    have tk: "drop_first (?E ?p) ?S = remove_equal ?E (take (Suc i) R) S"
      using il by (simp add: remove_equal_def take_Suc_nth)
    have a2: "arrays_ok (n + 6 * (length R - Suc i)) ?s2"
      using ok1 b qs(2) drop_first_sub(2) [of "?E ?p" ?S] by (auto simp: sched_ok_def arrays_ok_def)
    have "queued_ok s1 (?S, A, R)" using ok1 Q1(1) by (simp add: sched_ok_def)
    then have qo: "queued_ok ?s2 (drop_first (?E ?p) ?S, A, R)"
      using drop_first_sub(1) [of "?E ?p" ?S] queued_ok_same [of s1 ?s2 "(?S, A, R)"] by auto
    have c2: "core env (\<lambda>q. claims ?s2 q + slots (?S, A, R) q) (n + 6 * (length R - Suc i) + 6) ?s2"
      using ok1 Q1(1) by (simp add: sched_ok_def)
    have "\<exists>m. release_ref env (find (?E ?p) ?S) ?s2 = Some (?s2\<lparr>memory_of := m\<rparr>) \<and>
      sched_ok env (n + 6 * (length R - Suc i)) (?s2\<lparr>memory_of := m\<rparr>)"
    proof (cases "find (?E ?p) ?S")
      case None
      have id: "drop_first (?E ?p) ?S = ?S" by (rule drop_first_none [OF None])
      have "core env (\<lambda>q. claims ?s2 q + slots (?S, A, R) q) (n + 6 * (length R - Suc i)) ?s2" by (rule core_less [OF c2]) simp
      then have "sched_ok env (n + 6 * (length R - Suc i)) ?s2" using a2 qo q2 unfolding sched_ok_def id by simp
      moreover have "?s2\<lparr>memory_of := memory_of s1\<rparr> = ?s2" by simp
      ultimately show ?thesis unfolding None by (metis release_none)
    next
      case (Some r)
      obtain xs ys where x: "?S = xs @ r # ys" "drop_first (?E ?p) ?S = xs @ ys" using find_split [OF Some] by blast
      have "\<exists>m. release_ref env (Some r) ?s2 = Some (?s2\<lparr>memory_of := m\<rparr>) \<and>
        sched_ok env (n + 6 * (length R - Suc i)) (?s2\<lparr>memory_of := m\<rparr>)"
      proof (rule slot_release [where Q = "(?S, A, R)" and Q' = "(xs @ ys, A, R)"])
        show "slots (?S, A, R) q = slots (xs @ ys, A, R) q + (if q = r then 1 else 0)" for q
          unfolding x(1) by simp
        show "queued_ok ?s2 (xs @ ys, A, R)" using qo x(2) by simp
        show "queues_of ?s2 = (xs @ ys, A, R)" using q2 x(2) by simp
      qed (use c2 a2 env in auto)
      then show ?thesis using Some by simp
    qed
    then obtain m where m: "release_ref env (find (?E ?p) ?S) ?s2 = Some (?s2\<lparr>memory_of := m\<rparr>)"
      "sched_ok env (n + 6 * (length R - Suc i)) (?s2\<lparr>memory_of := m\<rparr>)" by blast
    have "I (Suc i) (?s2\<lparr>memory_of := m\<rparr>)" using I m(2) q2 b(4) by (simp add: I_def tk flagged_def)
    then show ?thesis using b(1) m(1) by (simp add: removeTimers_def e)
  qed
  then obtain s' where s': "wyArrayEach (removeTimers env) ?a s = Some (?a\<lparr>locked := False\<rparr>, s')" "I (num ?a) s'"
    using wyArrayEach_keeps [of ?a I s "removeTimers env"] a \<open>I 0 s\<close> by (auto simp: queue_ok_def)
  moreover have "?a\<lparr>locked := False\<rparr> = ?a" using a(3) by simp
  ultimately show ?thesis using queue_num [OF a(1)] a(2) by (simp add: I_def)
qed

lemma remove_pending_ok:
  assumes ok: "sched_ok env (n + 12 * length R) s" and env: "env_ok env" and Q: "queues_of s = (S, A, R)"
    and un: "\<not> locked (m_scheduledTimers s)"
  shows "\<exists>s'. remove_pending env s = Some s' \<and> sched_ok env n s' \<and> same_fields s s' \<and> flagged s' = flagged s - set R \<and>
    queues_of s' = (remove_equal (equal_timer env s) R S, A, []) \<and> \<not> locked (m_scheduledTimers s')"
proof -
  let ?a = "m_timersToRemove s"
  let ?S = "remove_equal (equal_timer env s) R S"
  have "sched_ok env ((n + 6 * length R) + 6 * length R) s" using ok by (simp add: algebra_simps)
  from remove_pass [OF this env Q un] obtain s1 where s1: "wyArrayEach (removeTimers env) ?a s = Some (?a, s1)"
    "sched_ok env (n + 6 * length R) s1" "same_fields s s1" "flagged s1 = flagged s" "queues_of s1 = (?S, A, R)"
    "m_timersToRemove s1 = ?a" "\<not> locked (m_scheduledTimers s1)" by blast
  have a: "queue_ok ?a" "queue ?a = R" "\<not> locked ?a" using ok Q by (simp_all add: sched_ok_def arrays_ok_def queues_of_def)
  let ?h = "\<lambda>p. claims s1 p + slots (?S, A, []) p"
  have qo: "queued_ok s1 (?S, A, R)" using s1(2,5) by (simp add: sched_ok_def)
  have "core env (\<lambda>p. ?h p + count_list (queue ?a) p) (n + 6 * length (queue ?a)) s1"
    using s1(2,5) a(2) by (simp add: sched_ok_def add.assoc)
  moreover have "\<forall>p\<in>set (queue ?a). timers s1 p \<noteq> None" using qo a(2) by simp
  ultimately obtain s2 where s2: "wyArrayEach (releaseTimer env) ?a s1 = Some (?a\<lparr>locked := False\<rparr>, s2)" "core env ?h n s2"
    "same_fields s1 s2" "same_queues s1 s2" "flagged s2 = flagged s1 - set (queue ?a)"
    using release_pass [OF a(1) _ _ env, of ?h n s1] by blast
  obtain c where c: "wyArrayClear ?a = Some c" "queue_ok c" "queue c = []" "\<not> locked c" using queue_clear [OF a(1)] a(3) by auto
  let ?s3 = "s2\<lparr>m_timersToRemove := c\<rparr>"
  have sf: "same_fields s1 ?s3" "same_fields s ?s3" using s2(3) same_fields_trans [OF s1(3) s2(3)] by simp_all
  have q3: "queues_of ?s3 = (?S, A, [])" using s2(4) s1(5) c(3) by (simp add: queues_of_def same_queues_def)
  have cl: "claims s2 = claims s1" using s2(3) by (simp add: same_fields_def)
  have "core env (\<lambda>p. claims ?s3 p + slots (queues_of ?s3) p) n ?s3" using s2(2) q3 cl by simp
  moreover have "queued_ok ?s3 (?S, A, [])" using queued_ok_same [OF sf(1), of "(?S, A, [])"] qo by simp
  moreover have "arrays_ok n ?s3" using s1(2) s2(4) c by (simp add: sched_ok_def arrays_ok_def same_queues_def)
  ultimately have "sched_ok env n ?s3" using q3 by (simp add: sched_ok_def)
  moreover have id: "?a\<lparr>locked := False\<rparr> = ?a" using a(3) by simp
  have "remove_pending env s = Some ?s3"
    using s1(1) s2(1) c(1) by (simp add: remove_pending_def id)
  moreover have "flagged ?s3 = flagged s - set R" using s2(5) s1(4) a(2) by (simp add: flagged_def)
  moreover have "\<not> locked (m_scheduledTimers ?s3)" using s1(7) s2(4) by (simp add: same_queues_def)
  ultimately show ?thesis using sf(2) q3 by blast
qed

lemma unlocked_id: "\<not> locked a \<Longrightarrow> a\<lparr>locked := False\<rparr> = a"
  by simp

lemma add_pass:
  assumes ok: "sched_ok env (n + length A) s" and Q: "queues_of s = (S, A, R)" and un: "\<not> locked (m_scheduledTimers s)"
  shows "\<exists>s'. wyArrayEach addTimers (m_timersToAdd s) s = Some (m_timersToAdd s, s') \<and>
    core env (\<lambda>p. claims s p + slots (S @ A, A, R) p) n s' \<and> same_fields s s' \<and> flagged s' = flagged s \<and>
    queue_ok (m_scheduledTimers s') \<and> queue (m_scheduledTimers s') = S @ A \<and> \<not> locked (m_scheduledTimers s') \<and>
    m_timersToAdd s' = m_timersToAdd s \<and> m_timersToRemove s' = m_timersToRemove s"
proof -
  let ?a = "m_timersToAdd s"
  have a: "queue_ok ?a" "queue ?a = A" "\<not> locked ?a" "queue_ok (m_scheduledTimers s)" "queue (m_scheduledTimers s) = S"
    "length S + length A + (n + length A) \<le> array_limit"
    using ok Q by (auto simp: sched_ok_def arrays_ok_def queues_of_def)
  define I where "I i s' \<longleftrightarrow> core env (\<lambda>p. claims s p + slots (S @ take i A, A, R) p) n s' \<and> same_fields s s' \<and> flagged s' = flagged s \<and>
    queue_ok (m_scheduledTimers s') \<and> queue (m_scheduledTimers s') = S @ take i A \<and> \<not> locked (m_scheduledTimers s') \<and>
    m_timersToAdd s' = ?a \<and> m_timersToRemove s' = m_timersToRemove s" for i s'
  have "core env (\<lambda>p. claims s p + slots (S, A, R) p) (n + length A) s" using ok Q by (simp add: sched_ok_def)
  then have "I 0 s" using core_less [of env _ "n + length A" s n] un a by (simp add: I_def)
  have "\<exists>s2. addTimers (?a\<lparr>locked := True\<rparr>) (elems ?a ! i) i s1 = Some (?a\<lparr>locked := True\<rparr>, s2, True) \<and> I (Suc i) s2"
    if I: "I i s1" and i: "i < num ?a" for i s1
  proof -
    let ?p = "A ! i"
    have il: "i < length A" using i queue_num [OF a(1)] a(2) by simp
    have e: "elems ?a ! i = Some ?p" using a il by (simp add: queue_ok_def)
    let ?h = "\<lambda>p. claims s p + slots (S @ take i A, A, R) p"
    have qs: "queue_ok (m_scheduledTimers s1)" "queue (m_scheduledTimers s1) = S @ take i A" "\<not> locked (m_scheduledTimers s1)"
      using I by (simp_all add: I_def)
    obtain b where b: "wyArrayPush (m_scheduledTimers s1) (Some ?p) = Some b" "queue_ok b" "queue b = (S @ take i A) @ [?p]" "\<not> locked b"
      using queue_push [OF qs(1,3), of ?p] qs(2) il a(6) by auto
    let ?s2 = "s1\<lparr>m_scheduledTimers := b\<rparr>"
    have "count_list A ?p \<noteq> 0" using il by (simp add: count_list_0_iff)
    then have hp: "0 < ?h ?p" by simp
    have "core env ?h n ?s2" using I by (simp add: I_def)
    then obtain m where m: "retain_ref (Some ?p) ?s2 = Some (?s2\<lparr>memory_of := m\<rparr>)"
      "core env (?h(?p := Suc (?h ?p))) n (?s2\<lparr>memory_of := m\<rparr>)"
      using retain_core [of env ?h n ?s2 ?p] hp by blast
    have tk: "S @ take (Suc i) A = (S @ take i A) @ [?p]" using il by (simp add: take_Suc_nth)
    have h: "?h(?p := Suc (?h ?p)) = (\<lambda>p. claims s p + slots (S @ take (Suc i) A, A, R) p)"
      unfolding tk by (simp add: fun_eq_iff)
    have "I (Suc i) (?s2\<lparr>memory_of := m\<rparr>)" using I m(2) [unfolded h] b tk by (simp add: I_def flagged_def)
    then show ?thesis using b(1) m(1) by (simp add: addTimers_def e)
  qed
  then obtain s' where s': "wyArrayEach addTimers ?a s = Some (?a\<lparr>locked := False\<rparr>, s')" "I (num ?a) s'"
    using wyArrayEach_keeps [of ?a I s addTimers] a \<open>I 0 s\<close> by (auto simp: queue_ok_def)
  then show ?thesis using queue_num [OF a(1)] a(2) unlocked_id [OF a(3)] by (simp add: I_def)
qed

lemma add_pending_ok:
  assumes ok: "sched_ok env (n + 7 * length A) s" and env: "env_ok env" and Q: "queues_of s = (S, A, R)"
    and un: "\<not> locked (m_scheduledTimers s)"
  shows "\<exists>s'. add_pending env s = Some s' \<and> sched_ok env n s' \<and> same_fields s s' \<and> flagged s' = flagged s - set A \<and>
    queues_of s' = (S @ A, [], R) \<and> \<not> locked (m_scheduledTimers s')"
proof -
  let ?a = "m_timersToAdd s"
  have "sched_ok env ((n + 6 * length A) + length A) s" using ok by (simp add: algebra_simps)
  from add_pass [OF this Q un] obtain s1 where s1: "wyArrayEach addTimers ?a s = Some (?a, s1)"
    "core env (\<lambda>p. claims s p + slots (S @ A, A, R) p) (n + 6 * length A) s1" "same_fields s s1" "flagged s1 = flagged s"
    "queue_ok (m_scheduledTimers s1)" "queue (m_scheduledTimers s1) = S @ A" "\<not> locked (m_scheduledTimers s1)"
    "m_timersToAdd s1 = ?a" "m_timersToRemove s1 = m_timersToRemove s" by blast
  have a: "queue_ok ?a" "queue ?a = A" "\<not> locked ?a" using ok Q by (simp_all add: sched_ok_def arrays_ok_def queues_of_def)
  let ?h = "\<lambda>p. claims s p + slots (S @ A, [], R) p"
  have qo: "queued_ok s (S, A, R)" using ok Q by (simp add: sched_ok_def)
  have "core env (\<lambda>p. ?h p + count_list (queue ?a) p) (n + 6 * length (queue ?a)) s1"
    using s1(2) a(2) by (simp add: add.assoc add.left_commute add.commute)
  moreover have "\<forall>p\<in>set (queue ?a). timers s1 p \<noteq> None" using qo a(2) same_fields_timer(1) [OF s1(3)] by simp
  ultimately obtain s2 where s2: "wyArrayEach (releaseTimer env) ?a s1 = Some (?a\<lparr>locked := False\<rparr>, s2)" "core env ?h n s2"
    "same_fields s1 s2" "same_queues s1 s2" "flagged s2 = flagged s1 - set (queue ?a)"
    using release_pass [OF a(1) _ _ env, of ?h n s1] by blast
  obtain c where c: "wyArrayClear ?a = Some c" "queue_ok c" "queue c = []" "\<not> locked c" using queue_clear [OF a(1)] a(3) by auto
  let ?s3 = "s2\<lparr>m_timersToAdd := c\<rparr>"
  have sf: "same_fields s ?s3" using same_fields_trans [OF s1(3) s2(3)] by simp
  have q3: "queues_of ?s3 = (S @ A, [], R)" using s2(4) s1(6,9) c(3) Q by (simp add: queues_of_def same_queues_def)
  have cl: "claims s2 = claims s" using s2(3) s1(3) by (simp add: same_fields_def)
  have "core env (\<lambda>p. claims ?s3 p + slots (queues_of ?s3) p) n ?s3" using s2(2) q3 cl by simp
  moreover have "queued_ok ?s3 (S @ A, [], R)" using queued_ok_same [OF sf, of "(S @ A, [], R)"] qo by auto
  moreover have "arrays_ok n ?s3" using ok s1 s2(4) c Q by (auto simp: sched_ok_def arrays_ok_def same_queues_def queues_of_def)
  ultimately have "sched_ok env n ?s3" using q3 by (simp add: sched_ok_def)
  moreover have "add_pending env s = Some ?s3"
    using s1(1) s2(1) c(1) by (simp add: add_pending_def unlocked_id [OF a(3)])
  moreover have "flagged ?s3 = flagged s - set A" using s2(5) s1(4) a(2) by (simp add: flagged_def)
  moreover have "\<not> locked (m_scheduledTimers ?s3)" using s1(7) s2(4) by (simp add: same_queues_def)
  ultimately show ?thesis using sf q3 by blast
qed

definition flush_cost :: "nat list \<times> nat list \<times> nat list \<Rightarrow> nat" where
  "flush_cost Q = (case Q of (S, A, R) \<Rightarrow> 12 * length R + 7 * length A)"

text \<open>The two queues of pending timers are emptied into the queue of scheduled ones.\<close>

lemma flush_ok:
  assumes ok: "sched_ok env (n + flush_cost (queues_of s)) s" and env: "env_ok env" and Q: "queues_of s = (S, A, R)"
    and un: "\<not> locked (m_scheduledTimers s)"
  shows "\<exists>s1 s2. remove_pending env s = Some s1 \<and> add_pending env s1 = Some s2 \<and> sched_ok env n s2 \<and> same_fields s s2 \<and>
    flagged s2 = flagged s - (set R \<union> set A) \<and> queues_of s2 = (remove_equal (equal_timer env s) R S @ A, [], []) \<and>
    \<not> locked (m_scheduledTimers s2)"
proof -
  have "sched_ok env ((n + 7 * length A) + 12 * length R) s" using ok Q by (simp add: flush_cost_def algebra_simps)
  from remove_pending_ok [OF this env Q un] obtain s1 where s1: "remove_pending env s = Some s1" "sched_ok env (n + 7 * length A) s1"
    "same_fields s s1" "flagged s1 = flagged s - set R" "queues_of s1 = (remove_equal (equal_timer env s) R S, A, [])"
    "\<not> locked (m_scheduledTimers s1)" by blast
  from add_pending_ok [OF s1(2) env s1(5,6)] obtain s2 where s2: "add_pending env s1 = Some s2" "sched_ok env n s2" "same_fields s1 s2"
    "flagged s2 = flagged s1 - set A" "queues_of s2 = (remove_equal (equal_timer env s) R S @ A, [], [])" "\<not> locked (m_scheduledTimers s2)"
    by blast
  have "flagged s2 = flagged s - (set R \<union> set A)" using s1(4) s2(4) by auto
  then show ?thesis using s1(1) s2 same_fields_trans [OF s1(3) s2(3)] by blast
qed

lemma sched_ok_lock [simp]:
  "sched_ok env n (s\<lparr>m_scheduledTimers := a\<lparr>locked := b\<rparr>\<rparr>) = sched_ok env n (s\<lparr>m_scheduledTimers := a\<rparr>)"
proof -
  have q: "queues_of (s\<lparr>m_scheduledTimers := a\<lparr>locked := b\<rparr>\<rparr>) = queues_of (s\<lparr>m_scheduledTimers := a\<rparr>)"
    by (simp add: queues_of_def)
  have "queued_ok (s\<lparr>m_scheduledTimers := a\<lparr>locked := b\<rparr>\<rparr>) Q = queued_ok (s\<lparr>m_scheduledTimers := a\<rparr>) Q" for Q
    by (rule queued_ok_same) (simp add: same_fields_def)
  then show ?thesis by (simp add: sched_ok_def q arrays_ok_def)
qed

text \<open>The pass that fires the scheduled timers: an invariant of the single steps becomes one of the pass.\<close>

lemma fire_pass:
  assumes a: "queue_ok (m_scheduledTimers s)" "\<not> locked (m_scheduledTimers s)"
    and 0: "J 0 (s\<lparr>m_scheduledTimers := (m_scheduledTimers s)\<lparr>locked := True\<rparr>\<rparr>)"
    and step: "\<And>i r. J i r \<Longrightarrow> i < length (queue (m_scheduledTimers s)) \<Longrightarrow>
      m_scheduledTimers r = (m_scheduledTimers s)\<lparr>locked := True\<rparr> \<Longrightarrow>
      \<exists>r'. fire_timer env delta (queue (m_scheduledTimers s) ! i) r = Some r' \<and> m_scheduledTimers r' = m_scheduledTimers r \<and> J (Suc i) r'"
  shows "\<exists>r. fire_all env delta s = Some (r\<lparr>m_scheduledTimers := m_scheduledTimers s\<rparr>) \<and>
    m_scheduledTimers r = (m_scheduledTimers s)\<lparr>locked := True\<rparr> \<and> J (length (queue (m_scheduledTimers s))) r \<or>
    queue (m_scheduledTimers s) = [] \<and> fire_all env delta s = Some s"
proof (cases "queue (m_scheduledTimers s) = []")
  case True
  then have "num (m_scheduledTimers s) = 0" using queue_num [OF a(1)] by simp
  then have "fire_all env delta s = Some s"
    using unlocked_id [OF a(2)] by (simp add: fire_all_def wyArrayEach_def each_from.simps)
  then show ?thesis using True by blast
next
  case False
  let ?a = "m_scheduledTimers s"
  let ?b = "?a\<lparr>locked := True\<rparr>"
  define I where "I i r \<longleftrightarrow> J i (r\<lparr>m_scheduledTimers := ?b\<rparr>) \<and> (0 < i \<longrightarrow> m_scheduledTimers r = ?b)" for i r
  have i0: "I 0 s" using 0 by (simp add: I_def)
  have "\<exists>r2. wyScheduler_fire env delta ?b (elems ?a ! i) i r = Some (?b, r2, True) \<and> I (Suc i) r2"
    if I: "I i r" and i: "i < num ?a" for i r
  proof -
    have il: "i < length (queue ?a)" using i queue_num [OF a(1)] by simp
    have e: "elems ?a ! i = Some (queue ?a ! i)" using a il by (simp add: queue_ok_def)
    obtain r' where r': "fire_timer env delta (queue ?a ! i) (r\<lparr>m_scheduledTimers := ?b\<rparr>) = Some r'"
      "m_scheduledTimers r' = ?b" "J (Suc i) r'"
      using step [of i "r\<lparr>m_scheduledTimers := ?b\<rparr>"] I il by (auto simp: I_def)
    have id: "r'\<lparr>m_scheduledTimers := ?b\<rparr> = r'" by (simp flip: r'(2))
    have "I (Suc i) r'" unfolding I_def id using r'(2,3) by simp
    then show ?thesis using r'(1,2) by (simp add: wyScheduler_fire_def e)
  qed
  then obtain r where r: "wyArrayEach (wyScheduler_fire env delta) ?a s = Some (?a\<lparr>locked := False\<rparr>, r)" "I (num ?a) r"
    using wyArrayEach_keeps [of ?a I s "wyScheduler_fire env delta"] a i0 by (auto simp: queue_ok_def)
  have rb: "m_scheduledTimers r = ?b" using r(2) False queue_num [OF a(1)] by (simp add: I_def)
  have id: "r\<lparr>m_scheduledTimers := ?b\<rparr> = r" by (simp flip: rb)
  have "J (length (queue ?a)) r" using r(2) queue_num [OF a(1)] unfolding I_def id by simp
  moreover have "fire_all env delta s = Some (r\<lparr>m_scheduledTimers := ?a\<rparr>)"
    using r(1) unlocked_id [OF a(2)] by (simp add: fire_all_def)
  ultimately show ?thesis using rb by blast
qed

lemma fire_all_ok:
  assumes ok: "sched_ok env (n + (6 * k + 9) * length (queue (m_scheduledTimers s))) s" and env: "env_ok env" "honest env k"
    and un: "\<not> locked (m_scheduledTimers s)"
  shows "\<exists>s'. fire_all env delta s = Some s' \<and> sched_ok env n s' \<and> m_scheduledTimers s' = m_scheduledTimers s"
proof -
  let ?a = "m_scheduledTimers s"
  define J where "J i r \<longleftrightarrow> sched_ok env (n + (6 * k + 9) * (length (queue ?a) - i)) r" for i r
  have a: "queue_ok ?a" using ok by (simp add: sched_ok_def arrays_ok_def)
  have "\<exists>r'. fire_timer env delta (queue ?a ! i) r = Some r' \<and> m_scheduledTimers r' = m_scheduledTimers r \<and> J (Suc i) r'"
    if J: "J i r" and i: "i < length (queue ?a)" and q: "m_scheduledTimers r = ?a\<lparr>locked := True\<rparr>" for i r
  proof -
    have "length (queue ?a) - i = Suc (length (queue ?a) - Suc i)" using i by simp
    then have ok: "sched_ok env ((n + (6 * k + 9) * (length (queue ?a) - Suc i)) + 6 * k + 9) r" using J
      by (simp add: J_def algebra_simps)
    have "queue ?a ! i \<in> set (queue (m_scheduledTimers r))" using i q by simp
    then have "kept env (n + (6 * k + 9) * (length (queue ?a) - Suc i)) (fire_timer env delta (queue ?a ! i) r) r"
      by (rule fire_timer_keeps [OF ok env])
    then show ?thesis by (auto simp: kept_def J_def)
  qed
  moreover have "J 0 (s\<lparr>m_scheduledTimers := ?a\<lparr>locked := True\<rparr>\<rparr>)" using ok by (simp add: J_def)
  ultimately obtain r where r:
    "fire_all env delta s = Some (r\<lparr>m_scheduledTimers := ?a\<rparr>) \<and> m_scheduledTimers r = ?a\<lparr>locked := True\<rparr> \<and> J (length (queue ?a)) r \<or>
      queue ?a = [] \<and> fire_all env delta s = Some s"
    using fire_pass [OF a un, where J = J and env = env and delta = delta] by blast
  show ?thesis
  proof (cases "queue ?a = [] \<and> fire_all env delta s = Some s")
    case True
    then show ?thesis using sched_ok_less [OF ok, of n] by simp
  next
    case False
    then have f: "fire_all env delta s = Some (r\<lparr>m_scheduledTimers := ?a\<rparr>)" "m_scheduledTimers r = ?a\<lparr>locked := True\<rparr>"
      "sched_ok env n r" using r by (auto simp: J_def)
    have "r\<lparr>m_scheduledTimers := ?a\<lparr>locked := True\<rparr>\<rparr> = r" by (simp flip: f(2))
    then have "sched_ok env n (r\<lparr>m_scheduledTimers := ?a\<rparr>)" using f(3) sched_ok_lock [where s = r and a = ?a and b = True] by simp
    then show ?thesis using f(1) by simp
  qed
qed

definition tick_cost :: "nat \<Rightarrow> nat list \<times> nat list \<times> nat list \<Rightarrow> nat" where
  "tick_cost k Q = (case Q of (S, A, R) \<Rightarrow> flush_cost Q + (6 * k + 9) * (length S + length A))"

lemma tick_ok:
  assumes ok: "sched_ok env (n + tick_cost k (queues_of s)) s" and env: "env_ok env" "honest env k"
    and un: "\<not> locked (m_scheduledTimers s)"
  shows "\<exists>s'. tickLocked env delta s = Some s' \<and> sched_ok env n s' \<and> \<not> locked (m_scheduledTimers s')"
proof (cases "f_less (float_of env) (f_zero (float_of env)) delta")
  case False
  then show ?thesis using sched_ok_less [OF ok, of n] un by (simp add: tickLocked_def Let_def)
next
  case True
  obtain S A R where Q: "queues_of s = (S, A, R)" by (metis prod_cases3)
  have "sched_ok env ((n + (6 * k + 9) * (length S + length A)) + flush_cost (queues_of s)) s"
    using ok Q by (simp add: tick_cost_def algebra_simps)
  from flush_ok [OF this env(1) Q un] obtain s1 s2 where s2: "remove_pending env s = Some s1" "add_pending env s1 = Some s2"
    "sched_ok env (n + (6 * k + 9) * (length S + length A)) s2"
    "queues_of s2 = (remove_equal (equal_timer env s) R S @ A, [], [])" "\<not> locked (m_scheduledTimers s2)" by blast
  have "length (queue (m_scheduledTimers s2)) \<le> length S + length A"
    using s2(4) remove_equal_sub(2) [of "equal_timer env s" R S] by (simp add: queues_of_def)
  then have ok2: "sched_ok env (n + (6 * k + 9) * length (queue (m_scheduledTimers s2))) s2"
    by (intro sched_ok_less [OF s2(3)]) simp
  let ?d = "if \<not> f_eq (float_of env) (m_timeScale s) (f_one (float_of env)) then f_mul (float_of env) delta (m_timeScale s) else delta"
  obtain s3 where s3: "fire_all env ?d s2 = Some s3" "sched_ok env n s3" "m_scheduledTimers s3 = m_scheduledTimers s2"
    using fire_all_ok [OF ok2 env s2(5), of ?d] by blast
  then show ?thesis using True s2(1,2,5) by (simp add: tickLocked_def)
qed

end
