(* ===== verification/Wy_Scheduler_Refine.thy ===== *)
theory Wy_Scheduler_Refine imports Wy_Scheduler_Tick begin

text \<open>
  The scheduler as a set of running timers: for timers with different callbacks, scheduling,
  unscheduling and ticks are simulated by insertion, removal and firing every member once.
\<close>

section \<open>What a tick does to the timers\<close>

text \<open>
  The fields of a timer after \<open>wyTimer::fire\<close>, of one the scheduler has fired, and when the scheduler
  retires it.
\<close>

definition fire_fields :: "'f time_ops \<Rightarrow> 'f \<Rightarrow> 'f wyTimer \<Rightarrow> 'f wyTimer" where
  "fire_fields F delta t =
     (let e = f_add F (m_elapsed t) delta in
      if 0 < m_frame t
      then if m_frame t \<le> m_elapsedFrame t + 1
           then t\<lparr>m_counter := m_counter t + 1, m_elapsedFrame := 0, m_elapsed := f_zero F\<rparr>
           else t\<lparr>m_elapsed := e, m_elapsedFrame := m_elapsedFrame t + 1\<rparr>
      else if f_le F (m_interval t) e then t\<lparr>m_counter := m_counter t + 1, m_elapsed := f_zero F\<rparr>
      else t\<lparr>m_elapsed := e\<rparr>)"

definition retires :: "'f time_ops \<Rightarrow> 'f \<Rightarrow> 'f wyTimer \<Rightarrow> bool" where
  "retires F delta t \<longleftrightarrow>
     \<not> m_done t \<and> \<not> m_paused t \<and> 0 < m_maxInvocation t \<and> m_maxInvocation t \<le> m_counter (fire_fields F delta t)"

definition after_fire :: "'f time_ops \<Rightarrow> 'f \<Rightarrow> 'f wyTimer \<Rightarrow> 'f wyTimer" where
  "after_fire F delta t =
     (if m_done t \<or> m_paused t then t
      else if retires F delta t then (fire_fields F delta t)\<lparr>m_done := True\<rparr>
      else fire_fields F delta t)"

text \<open>A client whose methods make no calls when they are called back.\<close>

definition quiet_env :: "'f surroundings \<Rightarrow> bool" where
  "quiet_env env \<longleftrightarrow> (\<forall>i s. callback env i s = [])"

lemma quiet_honest: "quiet_env env \<Longrightarrow> honest env 0"
  by (simp add: quiet_env_def honest_def)

text \<open>Selectors differ at most in the elapsed time they were told.\<close>

definition callback_of :: "'f wyTargetSelector \<Rightarrow> 'f wyTargetSelector" where
  "callback_of x = x\<lparr>m_delta := None\<rparr>"

definition same_selectors :: "'f scheduler \<Rightarrow> 'f scheduler \<Rightarrow> bool" where
  "same_selectors s s' \<longleftrightarrow> (\<forall>p. map_option callback_of (selectors s' p) = map_option callback_of (selectors s p))"

definition quietly :: "'f scheduler \<Rightarrow> 'f scheduler \<Rightarrow> bool" where
  "quietly s s' \<longleftrightarrow> same_queues s s' \<and> claims s' = claims s \<and> m_timeScale s' = m_timeScale s \<and> same_selectors s s'"

lemma quietly_trans: "quietly s s' \<Longrightarrow> quietly s' s'' \<Longrightarrow> quietly s s''"
  by (simp add: quietly_def same_queues_def same_selectors_def)

lemma setDelta_quiet:
  assumes "setDelta delta p s = Some s'"
  shows "quietly s s' \<and> timers s' = timers s \<and> memory_of s' = memory_of s"
proof -
  obtain x where x: "selector_at s p = Some x" using assms by (auto simp: setDelta_def opt_simps)
  then have "selectors s p = Some x" by (auto simp: selector_at_def opt_simps)
  then show ?thesis using assms x
    by (auto simp: setDelta_def quietly_def same_queues_def same_selectors_def callback_of_def split: if_splits)
qed

lemma invoke_quiet:
  assumes "quiet_env env" "invoke env delta p s = Some s'"
  shows "quietly s s' \<and> timers s' = timers s \<and> memory_of s' = memory_of s"
  using assms by (auto simp: invoke_def quiet_env_def opt_simps Let_def quietly_def same_queues_def same_selectors_def split: option.splits)

lemma change_timer_quiet:
  assumes "change_timer f p s = Some s'"
  obtains t where "timer_at s p = Some t" "timers s p = Some t" "s' = s\<lparr>timers := (timers s)(p \<mapsto> f t)\<rparr>" "quietly s s'"
  using assms by (auto simp: change_timer_def timer_at_def opt_simps quietly_def same_queues_def same_selectors_def)

lemma timer_due_quiet:
  assumes "quiet_env env" "timer_due env p s = Some s'" "timer_at s p = Some t"
  shows "quietly s s' \<and> timers s' = (timers s)(p \<mapsto> t\<lparr>m_counter := m_counter t + 1\<rparr>)"
proof -
  from assms(2,3) obtain c s1 s2 where s: "int_range (m_counter t + 1) = Some c" "change_timer (\<lambda>x. x\<lparr>m_counter := c\<rparr>) p s = Some s1"
    "setDelta (m_elapsed t) (m_targetSelector t) s1 = Some s2" "invoke env (m_elapsed t) (m_targetSelector t) s2 = Some s'"
    by (auto simp: timer_due_def opt_simps)
  have c: "c = m_counter t + 1" using s(1) by (simp add: int_range_Some)
  obtain u where u: "timer_at s p = Some u" "s1 = s\<lparr>timers := (timers s)(p \<mapsto> u\<lparr>m_counter := c\<rparr>)\<rparr>" "quietly s s1"
    by (rule change_timer_quiet [OF s(2)])
  note d = setDelta_quiet [OF s(3)] and i = invoke_quiet [OF assms(1) s(4)]
  have "quietly s s'" using quietly_trans [OF quietly_trans [OF u(3) conjunct1 [OF d]] conjunct1 [OF i]] .
  then show ?thesis using c u(1,2) assms(3) d i by simp
qed

lemma wyTimer_fire_quiet:
  assumes q: "quiet_env env" and f: "wyTimer_fire env delta p s = Some s'" and t: "timer_at s p = Some t"
  shows "quietly s s' \<and> timers s' = (timers s)(p \<mapsto> fire_fields (float_of env) delta t)"
proof -
  let ?F = "float_of env"
  let ?t1 = "t\<lparr>m_elapsed := f_add ?F (m_elapsed t) delta\<rparr>"
  let ?s1 = "s\<lparr>timers := (timers s)(p \<mapsto> ?t1)\<rparr>"
  have c1: "change_timer (\<lambda>x. x\<lparr>m_elapsed := f_add ?F (m_elapsed t) delta\<rparr>) p s = Some ?s1"
    using t by (simp add: change_timer_def)
  have q1: "quietly s ?s1" by (simp add: quietly_def same_queues_def same_selectors_def)
  have t1: "timer_at ?s1 p = Some ?t1" using t by (auto simp: timer_at_def opt_simps)
  have due: "quietly r s' \<and> timers s' = (timers r)(p \<mapsto> g (u\<lparr>m_counter := m_counter u + 1\<rparr>))"
    if "Option.bind (timer_due env p r) (change_timer g p) = Some s'" "timer_at r p = Some u" for r u g
  proof -
    obtain r1 where r1: "timer_due env p r = Some r1" "change_timer g p r1 = Some s'" using \<open>Option.bind _ _ = _\<close>
      by (auto simp: opt_simps)
    note d = timer_due_quiet [OF q r1(1) that(2)]
    obtain v where v: "timers r1 p = Some v" "s' = r1\<lparr>timers := (timers r1)(p \<mapsto> g v)\<rparr>" "quietly r1 s'"
      by (rule change_timer_quiet [OF r1(2)])
    show ?thesis using d v quietly_trans [of r r1 s'] by simp
  qed
  show ?thesis
  proof (cases "0 < m_frame t")
    case True
    let ?t2 = "?t1\<lparr>m_elapsedFrame := m_elapsedFrame t + 1\<rparr>"
    let ?s2 = "?s1\<lparr>timers := (timers ?s1)(p \<mapsto> ?t2)\<rparr>"
    have i: "int_range (m_elapsedFrame t + 1) = Some (m_elapsedFrame t + 1)"
      using f t c1 True by (auto simp: wyTimer_fire_def opt_simps int_range_Some int_range_def Let_def split: if_splits)
    have c2: "change_timer (\<lambda>x. x\<lparr>m_elapsedFrame := m_elapsedFrame t + 1\<rparr>) p ?s1 = Some ?s2"
      using t1 by (simp add: change_timer_def)
    have q2: "quietly s ?s2" by (simp add: quietly_def same_queues_def same_selectors_def)
    have t2: "timer_at ?s2 p = Some ?t2" using t by (auto simp: timer_at_def opt_simps)
    show ?thesis
    proof (cases "m_frame t \<le> m_elapsedFrame t + 1")
      case fr: True
      have "Option.bind (timer_due env p ?s2) (change_timer (\<lambda>x. x\<lparr>m_elapsedFrame := 0, m_elapsed := f_zero ?F\<rparr>) p) = Some s'"
        using f t c1 c2 i True fr by (simp add: wyTimer_fire_def Let_def)
      from due [OF this t2] show ?thesis using True fr quietly_trans [OF q2, of s'] by (simp add: fire_fields_def Let_def)
    next
      case False
      then have "s' = ?s2" using f t c1 c2 i True by (simp add: wyTimer_fire_def Let_def)
      then show ?thesis using q2 True False by (simp add: fire_fields_def Let_def)
    qed
  next
    case nf: False
    show ?thesis
    proof (cases "f_le ?F (m_interval t) (f_add ?F (m_elapsed t) delta)")
      case True
      have "Option.bind (timer_due env p ?s1) (change_timer (\<lambda>x. x\<lparr>m_elapsed := f_zero ?F\<rparr>) p) = Some s'"
        using f t c1 nf True by (simp add: wyTimer_fire_def Let_def)
      from due [OF this t1] show ?thesis using True nf quietly_trans [OF q1, of s'] by (simp add: fire_fields_def Let_def)
    next
      case False
      then have "s' = ?s1" using f t c1 nf by (simp add: wyTimer_fire_def Let_def)
      then show ?thesis using q1 False nf by (simp add: fire_fields_def Let_def)
    qed
  qed
qed

lemma fire_fields_same [simp]:
  "m_maxInvocation (fire_fields F delta t) = m_maxInvocation t" "m_done (fire_fields F delta t) = m_done t"
  "m_paused (fire_fields F delta t) = m_paused t" "m_pendingRemove (fire_fields F delta t) = m_pendingRemove t"
  "m_targetSelector (fire_fields F delta t) = m_targetSelector t" "m_frame (fire_fields F delta t) = m_frame t"
  by (simp_all add: fire_fields_def Let_def)

lemma strip_fire: "strip (fire_fields F delta t) = fire_fields F delta (strip t)"
  by (simp add: strip_def fire_fields_def Let_def)

lemma strip_after: "strip (after_fire F delta t) = after_fire F delta (strip t)" "retires F delta (strip t) = retires F delta t"
proof -
  have c: "m_counter (fire_fields F delta (strip t)) = m_counter (fire_fields F delta t)"
    unfolding strip_fire [symmetric] by (simp add: strip_def)
  show r: "retires F delta (strip t) = retires F delta t" using c by (simp add: retires_def strip_def)
  have "strip (u\<lparr>m_done := b\<rparr>) = (strip u)\<lparr>m_done := b\<rparr>" for u :: "'a wyTimer" and b by (simp add: strip_def)
  then show "strip (after_fire F delta t) = after_fire F delta (strip t)"
    using r strip_fire [of F delta t] by (simp add: after_fire_def) (simp add: strip_def)
qed

text \<open>Firing one timer of the queue, with nothing waiting to be added.\<close>

lemma fire_timer_quiet:
  assumes ok: "sched_ok env (n + 9) s" and env: "env_ok env" "quiet_env env" and p: "p \<in> set S" and Q: "queues_of s = (S, [], R)"
    and t: "timers s p = Some t" "p \<notin> flagged s"
  shows "\<exists>s'. fire_timer env delta p s = Some s' \<and> sched_ok env n s' \<and> m_scheduledTimers s' = m_scheduledTimers s \<and>
    claims s' = claims s \<and> m_timeScale s' = m_timeScale s \<and> same_selectors s s' \<and>
    map_option strip \<circ> timers s' = (map_option strip \<circ> timers s)(p \<mapsto> strip (after_fire (float_of env) delta t)) \<and>
    queues_of s' = (S, [], if retires (float_of env) delta t then R @ [p] else R) \<and>
    flagged s' = (if retires (float_of env) delta t then insert p (flagged s) else flagged s)"
proof -
  let ?F = "float_of env"
  have q: "queue (m_scheduledTimers s) = S" "queue (m_timersToAdd s) = []" "queue (m_timersToRemove s) = R"
    using Q by (simp_all add: queues_of_def)
  have pS: "p \<in> set (queue (m_scheduledTimers s))" using p q by simp
  have "sched_ok env (n + 6 * 0 + 9) s" using ok by simp
  from fire_timer_keeps [OF this env(1) quiet_honest [OF env(2)] pS] obtain s' where s':
    "fire_timer env delta p s = Some s'" "sched_ok env n s'" "m_scheduledTimers s' = m_scheduledTimers s" by (auto simp: kept_def)
  obtain u y where u: "timer_at s p = Some u" "timers s p = Some u" by (rule queued_timer [OF ok scheduled_usable [OF ok pS]])
  then have tp: "timer_at s p = Some t" using t(1) by simp
  have np: "\<not> m_pendingRemove t" using t by (auto simp: flagged_def)
  show ?thesis
  proof (cases "m_done t \<or> m_paused t")
    case True
    then have "s' = s" using s'(1) tp by (simp add: fire_timer_def)
    moreover have "(map_option strip \<circ> timers s)(p \<mapsto> strip t) = map_option strip \<circ> timers s" using t(1) by (simp add: fun_upd_idem)
    moreover have "\<not> retires ?F delta t" "after_fire ?F delta t = t" using True by (auto simp: retires_def after_fire_def)
    ultimately show ?thesis using s' Q by (simp add: same_selectors_def)
  next
    case nd: False
    let ?u = "fire_fields ?F delta t"
    obtain s1 where s1: "wyTimer_fire env delta p s = Some s1"
      using s'(1) tp nd np by (auto simp: fire_timer_def opt_simps)
    note w = wyTimer_fire_quiet [OF env(2) s1 tp]
    have fl1: "flagged s1 = flagged s" using w t np by (auto simp: flagged_def)
    obtain v where "timer_at s1 p = Some v" using s'(1) tp nd np s1 by (auto simp: fire_timer_def opt_simps)
    then have v: "timer_at s1 p = Some ?u" using w by (auto simp: timer_at_def opt_simps)
    show ?thesis
    proof (cases "retires ?F delta t")
      case False
      have "s' = s1" using s'(1) tp nd np s1 v False by (auto simp: fire_timer_def retires_def)
      moreover have "after_fire ?F delta t = ?u" using nd False by (simp add: after_fire_def)
      moreover have "map_option strip \<circ> timers s1 = (map_option strip \<circ> timers s)(p \<mapsto> strip ?u)" using w by auto
      ultimately show ?thesis using s' w False Q fl1 same_queues_of [of s s1] by (simp add: quietly_def)
    next
      case True
      have r: "retire env p s1 = Some s'" using s'(1) tp nd np s1 v True by (auto simp: fire_timer_def retires_def)
      have sq: "m_timersToAdd s1 = m_timersToAdd s" "m_timersToRemove s1 = m_timersToRemove s" using w by (simp_all add: quietly_def same_queues_def)
      have qok: "queue_ok (m_timersToAdd s)" "\<not> locked (m_timersToAdd s)" "queue_ok (m_timersToRemove s)" "\<not> locked (m_timersToRemove s)"
        "length R < array_limit" using ok q by (simp_all add: sched_ok_def arrays_ok_def)
      obtain b where b: "timer_delete env s1 (m_timersToAdd s) p = Some (None, b)" "queue b = []"
        using timer_delete_ok [OF qok(1,2), of env s1 p "\<lambda>_. False"] q(2) by auto
      obtain c where c: "wyArrayPush (m_timersToRemove s) (Some p) = Some c" "queue c = R @ [p]"
        using queue_push [OF qok(3,4), of p] qok(5) q(3) by auto
      let ?f = "\<lambda>x :: 'a wyTimer. x\<lparr>m_pendingRemove := True, m_done := True\<rparr>"
      let ?s2 = "s1\<lparr>m_timersToAdd := b, m_timersToRemove := c, timers := (timers s1)(p \<mapsto> ?f ?u)\<rparr>"
      have c2: "change_timer ?f p (s1\<lparr>m_timersToAdd := b, m_timersToRemove := c\<rparr>) = Some ?s2"
        using v by (simp add: change_timer_def)
      obtain m where m: "s' = ?s2\<lparr>memory_of := m\<rparr>"
        using r b(1) c(1) sq c2 by (auto simp: retire_def retain_ref_def release_none opt_simps)
      have a: "strip (after_fire ?F delta t) = strip (?f ?u)" using nd True by (simp add: after_fire_def) (simp add: strip_def)
      have "map_option strip \<circ> timers s' = (map_option strip \<circ> timers s)(p \<mapsto> strip (after_fire ?F delta t))"
        unfolding a using w m by auto
      moreover have "queues_of s' = (S, [], R @ [p])" using m b(2) c(2) s'(3) q(1) by (simp add: queues_of_def)
      moreover have "flagged s' = insert p (flagged s)" unfolding fl1 [symmetric] m by (auto simp: flagged_def)
      moreover have "same_selectors s s'" "claims s' = claims s" "m_timeScale s' = m_timeScale s"
        using w m by (simp_all add: quietly_def same_selectors_def)
      ultimately show ?thesis using s' True by simp
    qed
  qed
qed

section \<open>The scheduler as a set of running timers\<close>

text \<open>
  What the clients can see of the scheduler: the fields of the timers and the set of the timers that
  run, whatever queue they are in.
\<close>

fun active :: "nat list \<times> nat list \<times> nat list \<Rightarrow> nat set" where
  "active (S, A, R) = (set S - set R) \<union> set A"

type_synonym 'f running = "(nat \<Rightarrow> 'f wyTimer option) \<times> nat set"

definition running :: "'f scheduler \<Rightarrow> 'f running" where
  "running s = (map_option strip \<circ> timers s, active (queues_of s))"

datatype 'f timer_event = Start nat | Stop nat | Tick 'f

fun run_event :: "'f surroundings \<Rightarrow> 'f timer_event \<Rightarrow> 'f scheduler \<Rightarrow> 'f scheduler option" where
  "run_event env (Start t) s = scheduleLocked env t s"
| "run_event env (Stop t) s = unscheduleLocked env t s"
| "run_event env (Tick delta) s = tickLocked env delta s"

fun run_events :: "'f surroundings \<Rightarrow> 'f timer_event list \<Rightarrow> 'f scheduler \<Rightarrow> 'f scheduler option" where
  "run_events env [] s = Some s"
| "run_events env (e # es) s = do { s1 \<leftarrow> run_event env e s; run_events env es s1 }"

text \<open>The same on sets: a tick fires every running timer once and drops those that are finished.\<close>

definition fire_running :: "'f time_ops \<Rightarrow> 'f \<Rightarrow> 'f running \<Rightarrow> 'f running" where
  "fire_running F d r =
     (\<lambda>p. if p \<in> snd r then map_option (after_fire F d) (fst r p) else fst r p,
      {p \<in> snd r. \<forall>t. fst r p = Some t \<longrightarrow> \<not> retires F d t})"

definition scaled :: "'f time_ops \<Rightarrow> 'f \<Rightarrow> 'f \<Rightarrow> 'f" where
  "scaled F scale delta = (if \<not> f_eq F scale (f_one F) then f_mul F delta scale else delta)"

fun spec_event :: "'f time_ops \<Rightarrow> 'f \<Rightarrow> 'f timer_event \<Rightarrow> 'f running \<Rightarrow> 'f running" where
  "spec_event F scale (Start t) r = (fst r, insert t (snd r))"
| "spec_event F scale (Stop t) r = (fst r, snd r - {t})"
| "spec_event F scale (Tick delta) r = (if f_less F (f_zero F) delta then fire_running F (scaled F scale delta) r else r)"

text \<open>Any of the timers \<open>T\<close> may be started at any time, and a running timer may be stopped.\<close>

fun event_ok :: "nat set \<Rightarrow> 'f timer_event \<Rightarrow> 'f running \<Rightarrow> bool" where
  "event_ok T (Start t) r \<longleftrightarrow> t \<in> T"
| "event_ok T (Stop t) r \<longleftrightarrow> t \<in> snd r"
| "event_ok T (Tick delta) r \<longleftrightarrow> True"

fun events_ok :: "'f time_ops \<Rightarrow> 'f \<Rightarrow> nat set \<Rightarrow> 'f timer_event list \<Rightarrow> 'f running \<Rightarrow> bool" where
  "events_ok F scale T [] r \<longleftrightarrow> True"
| "events_ok F scale T (e # es) r \<longleftrightarrow> event_ok T e r \<and> events_ok F scale T es (spec_event F scale e r)"

section \<open>Timers with different callbacks\<close>

definition same_callback_at :: "'f surroundings \<Rightarrow> 'f scheduler \<Rightarrow> nat \<Rightarrow> nat \<Rightarrow> bool" where
  "same_callback_at env s p q \<longleftrightarrow>
     (case (map_option m_targetSelector (timers s p), map_option m_targetSelector (timers s q)) of
        (Some a, Some b) \<Rightarrow>
          (case (map_option callback_of (selectors s a), map_option callback_of (selectors s b)) of
             (Some x, Some y) \<Rightarrow> wyTargetSelectorEquals (same_java env) a x b y
           | _ \<Rightarrow> False)
      | _ \<Rightarrow> False)"

definition separate :: "'f surroundings \<Rightarrow> 'f scheduler \<Rightarrow> nat set \<Rightarrow> bool" where
  "separate env s T \<longleftrightarrow> (\<forall>p\<in>T. \<forall>q\<in>T. same_callback_at env s p q \<longrightarrow> p = q)"

lemma callback_of_equals [simp]:
  "wyTargetSelectorEquals same a (callback_of x) b (callback_of y) = wyTargetSelectorEquals same a x b y"
  by (simp add: wyTargetSelectorEquals_def callback_of_def)

lemma separate_equal: "separate env s T \<Longrightarrow> p \<in> T \<Longrightarrow> t \<in> T \<Longrightarrow> equal_timer env s t p \<longleftrightarrow> p = t"
  by (auto simp: separate_def equal_timer_def same_callback_at_def split: option.splits)

text \<open>A relation between states that kept who calls whom.\<close>

definition same_links :: "'f scheduler \<Rightarrow> 'f scheduler \<Rightarrow> bool" where
  "same_links s s' \<longleftrightarrow> same_selectors s s' \<and> (\<forall>p. map_option m_targetSelector (timers s' p) = map_option m_targetSelector (timers s p))"

lemma same_links_cong:
  assumes "same_links s s'"
  shows "separate env s' T = separate env s T" "target_of s' p = target_of s p" "timers s' p = None \<longleftrightarrow> timers s p = None"
proof -
  have l: "map_option m_targetSelector (timers s' p) = map_option m_targetSelector (timers s p)"
    "map_option callback_of (selectors s' p) = map_option callback_of (selectors s p)" for p
    using assms by (simp_all add: same_links_def same_selectors_def)
  show "separate env s' T = separate env s T" unfolding separate_def same_callback_at_def l ..
  have "target_of r p = Option.bind (map_option m_targetSelector (timers r p))
      (\<lambda>a. Option.bind (map_option callback_of (selectors r a)) m_target)" for r :: "'a scheduler"
  proof (cases "timers r p")
    case (Some t)
    then show ?thesis by (cases "selectors r (m_targetSelector t)") (simp_all add: target_of_def callback_of_def)
  qed (simp add: target_of_def)
  then show "target_of s' p = target_of s p" by (simp add: l)
  show "timers s' p = None \<longleftrightarrow> timers s p = None" using l(1) [of p] by (cases "timers s' p"; cases "timers s p") simp_all
qed

lemma strip_links: "map_option m_targetSelector x = map_option m_targetSelector (map_option strip x)"
  by (cases x) simp_all

lemma same_fields_links: "same_fields s s' \<Longrightarrow> same_links s s'"
  unfolding same_fields_def same_links_def same_selectors_def by (metis strip_links)

lemma same_links_trans: "same_links s s' \<Longrightarrow> same_links s' s'' \<Longrightarrow> same_links s s''"
  by (simp add: same_links_def same_selectors_def)

section \<open>The simulation\<close>

fun tidy :: "nat list \<times> nat list \<times> nat list \<Rightarrow> bool" where
  "tidy (S, A, R) \<longleftrightarrow> distinct (S @ A) \<and> distinct R \<and> set R \<subseteq> set S"

text \<open>The clients hold the timers \<open>T\<close> and their targets, and no two of them have the same callback.\<close>

definition held_timers :: "'f surroundings \<Rightarrow> 'f scheduler \<Rightarrow> nat set \<Rightarrow> bool" where
  "held_timers env s T \<longleftrightarrow>
     separate env s T \<and>
     (\<forall>t\<in>T. 0 < claims s t \<and> timers s t \<noteq> None \<and> (\<forall>q. target_of s t = Some q \<longrightarrow> 0 < claims s q))"

definition run_ok :: "'f surroundings \<Rightarrow> nat set \<Rightarrow> nat \<Rightarrow> 'f scheduler \<Rightarrow> bool" where
  "run_ok env T n s \<longleftrightarrow>
     sched_ok env n s \<and> \<not> locked (m_scheduledTimers s) \<and> tidy (queues_of s) \<and>
     set (queue (m_scheduledTimers s)) \<union> set (queue (m_timersToAdd s)) \<subseteq> T \<and> flagged s \<inter> T \<subseteq> set (queue (m_timersToRemove s)) \<and>
     held_timers env s T"

lemma held_timers_links: "same_links s s' \<Longrightarrow> claims s' = claims s \<Longrightarrow> held_timers env s' T = held_timers env s T"
  using same_links_cong [of s s'] by (simp add: held_timers_def)

lemma find_only:
  assumes "\<forall>p\<in>set xs. P p \<longleftrightarrow> p = t"
  shows "find P xs = (if t \<in> set xs then Some t else None)" "drop_first P xs = remove1 t xs"
  using assms by (induction xs) auto

lemma remove_equal_only:
  assumes "\<forall>r\<in>set R. \<forall>p\<in>set S. P r p \<longleftrightarrow> p = r"
  shows "remove_equal P R S = fold remove1 R S"
  using assms
proof (induction R arbitrary: S)
  case (Cons r R)
  have d: "drop_first (P r) S = remove1 r S" using Cons.prems by (intro find_only(2)) simp
  have "remove_equal P R (remove1 r S) = fold remove1 R (remove1 r S)"
    by (rule Cons.IH) (use Cons.prems set_remove1_subset [of r S] in \<open>auto dest: subsetD\<close>)
  then show ?case by (simp add: remove_equal_def d)
qed (simp add: remove_equal_def)

lemma fold_remove1: "distinct S \<Longrightarrow> distinct (fold remove1 R S) \<and> set (fold remove1 R S) = set S - set R"
proof (induction R arbitrary: S)
  case (Cons r R)
  then show ?case using Cons.IH [of "remove1 r S"] by (auto simp: distinct_remove1)
qed simp

lemma queue_lengths:
  assumes "tidy (S, A, R)" "set S \<union> set A \<subseteq> T" "finite T"
  shows "length S + length A \<le> card T" "length R \<le> card T"
proof -
  have "length (S @ A) = card (set S \<union> set A)" using assms(1) distinct_card [of "S @ A"] by simp
  then show "length S + length A \<le> card T" using card_mono [OF assms(3,2)] by simp
  have "length R = card (set R)" "set R \<subseteq> T" using assms(1,2) by (auto simp: distinct_card)
  then show "length R \<le> card T" using card_mono [OF assms(3)] by simp
qed

lemma same_fields_strip: "same_fields s s' \<Longrightarrow> map_option strip \<circ> timers s' = map_option strip \<circ> timers s"
  by (simp add: same_fields_def fun_eq_iff)

lemma start_step:
  assumes ok: "run_ok env T (n + 6) s" and env: "env_ok env" and t: "t \<in> T"
  shows "\<exists>s'. scheduleLocked env t s = Some s' \<and> run_ok env T n s' \<and> running s' = (fst (running s), insert t (snd (running s))) \<and>
    m_timeScale s' = m_timeScale s"
proof -
  obtain S A R where Q: "queues_of s = (S, A, R)" by (metis prod_cases3)
  have q: "queue (m_scheduledTimers s) = S" "queue (m_timersToAdd s) = A" "queue (m_timersToRemove s) = R"
    using Q by (simp_all add: queues_of_def)
  have r: "sched_ok env (n + 6) s" "\<not> locked (m_scheduledTimers s)" "tidy (S, A, R)" "set S \<union> set A \<subseteq> T" "flagged s \<inter> T \<subseteq> set R"
    "held_timers env s T" using ok Q q by (simp_all add: run_ok_def)
  have h: "0 < claims s t" "timers s t \<noteq> None" "\<And>q. target_of s t = Some q \<Longrightarrow> 0 < claims s q"
    using r(6) t by (auto simp: held_timers_def)
  let ?P = "equal_timer env s t"
  have P: "\<forall>p\<in>T. ?P p \<longleftrightarrow> p = t" using separate_equal [of env s T _ t] r(6) t by (simp add: held_timers_def)
  have PR: "\<forall>p\<in>set R. ?P p \<longleftrightarrow> p = t" using P r(3,4) by auto
  have PS: "\<forall>p\<in>set S. ?P p \<longleftrightarrow> p = t" and PA: "\<forall>p\<in>set A. ?P p \<longleftrightarrow> p = t" using P r(4) by auto
  note f = find_only [OF PR] find_only [OF PS] find_only [OF PA]
  have "steps_to env n (scheduleLocked env t s) s (schedule_queues ?P t (queues_of s))
    (if find ?P (queue (m_timersToRemove s)) = Some t then flagged s - {t} else flagged s)"
    by (rule schedule_ok [OF r(1) env]) (use h in auto)
  then obtain s' where s': "scheduleLocked env t s = Some s'" "sched_ok env n s'" "same_fields s s'"
    "queues_of s' = schedule_queues ?P t (S, A, R)" "flagged s' = (if t \<in> set R then flagged s - {t} else flagged s)"
    "m_scheduledTimers s' = m_scheduledTimers s"
    by (auto simp: steps_to_def Q q f)
  let ?Q = "if t \<in> set R then (S, A, remove1 t R) else if t \<in> set S \<or> t \<in> set A then (S, A, R) else (S, A @ [t], R)"
  have Q': "queues_of s' = ?Q" using s'(4) by (simp add: f)
  have sR: "distinct (remove1 t R)" "set (remove1 t R) = set R - {t}" using r(3) by (auto simp: set_remove1_eq distinct_remove1)
  then have "tidy ?Q" using r(3) by auto
  moreover have "active ?Q = insert t (active (S, A, R))" using r(3) sR by auto
  moreover have "set (queue (m_scheduledTimers s')) \<union> set (queue (m_timersToAdd s')) \<subseteq> T"
    using Q' r(4) t by (auto simp: queues_of_def split: if_splits)
  moreover have "flagged s' \<inter> T \<subseteq> set (queue (m_timersToRemove s'))"
    using Q' s'(5) r(3,5) sR by (auto simp: queues_of_def split: if_splits)
  moreover have "held_timers env s' T"
    using held_timers_links [OF same_fields_links [OF s'(3)]] s'(3) r(6) by (simp add: same_fields_def)
  ultimately show ?thesis using s' Q' r(2) same_fields_strip [OF s'(3)]
    by (simp add: run_ok_def running_def Q same_fields_def)
qed

lemma stop_step:
  assumes ok: "run_ok env T (n + 6) s" and env: "env_ok env" and t: "t \<in> snd (running s)"
  shows "\<exists>s'. unscheduleLocked env t s = Some s' \<and> run_ok env T n s' \<and> running s' = (fst (running s), snd (running s) - {t}) \<and>
    m_timeScale s' = m_timeScale s"
proof -
  obtain S A R where Q: "queues_of s = (S, A, R)" by (metis prod_cases3)
  have q: "queue (m_scheduledTimers s) = S" "queue (m_timersToAdd s) = A" "queue (m_timersToRemove s) = R"
    using Q by (simp_all add: queues_of_def)
  have r: "sched_ok env (n + 6) s" "\<not> locked (m_scheduledTimers s)" "tidy (S, A, R)" "set S \<union> set A \<subseteq> T" "flagged s \<inter> T \<subseteq> set R"
    "held_timers env s T" using ok Q q by (simp_all add: run_ok_def)
  have tW: "t \<in> set S - set R \<or> t \<in> set A" using t by (simp add: running_def Q)
  then have tT: "t \<in> T" using r(4) by auto
  have h: "0 < claims s t" "timers s t \<noteq> None" using r(6) tT by (auto simp: held_timers_def)
  let ?P = "equal_timer env s t"
  have P: "\<forall>p\<in>T. ?P p \<longleftrightarrow> p = t" using separate_equal [of env s T _ t] r(6) tT by (simp add: held_timers_def)
  have PS: "\<forall>p\<in>set S. ?P p \<longleftrightarrow> p = t" and PA: "\<forall>p\<in>set A. ?P p \<longleftrightarrow> p = t" using P r(4) by auto
  note f = find_only [OF PS] find_only [OF PA]
  have "steps_to env n (unscheduleLocked env t s) s (unschedule_queues ?P t (queues_of s))
    (if find ?P (queue (m_timersToAdd s)) = None \<and> find ?P (queue (m_scheduledTimers s)) \<noteq> None
     then insert t (flagged s) else flagged s)"
    by (rule unschedule_ok [OF r(1) env]) (use h in auto)
  then obtain s' where s': "unscheduleLocked env t s = Some s'" "sched_ok env n s'" "same_fields s s'"
    "queues_of s' = unschedule_queues ?P t (S, A, R)" "flagged s' = (if t \<notin> set A \<and> t \<in> set S then insert t (flagged s) else flagged s)"
    "m_scheduledTimers s' = m_scheduledTimers s"
    by (auto simp: steps_to_def Q q f)
  let ?Q = "if t \<in> set A then (S, remove1 t A, R) else if t \<in> set S then (S, A, R @ [t]) else (S, A, R)"
  have Q': "queues_of s' = ?Q" using s'(4) by (simp add: f)
  have sA: "distinct A" "set (remove1 t A) = set A - {t}" using r(3) by (auto simp: set_remove1_eq)
  have "tidy ?Q" using r(3) tW sA by auto
  moreover have "active ?Q = active (S, A, R) - {t}" using r(3) tW sA by auto
  moreover have "set (queue (m_scheduledTimers s')) \<union> set (queue (m_timersToAdd s')) \<subseteq> T"
    using Q' r(4) sA by (auto simp: queues_of_def split: if_splits)
  moreover have "flagged s' \<inter> T \<subseteq> set (queue (m_timersToRemove s'))"
    using Q' s'(5) r(3,5) tW by (auto simp: queues_of_def split: if_splits)
  moreover have "held_timers env s' T"
    using held_timers_links [OF same_fields_links [OF s'(3)]] s'(3) r(6) by (simp add: same_fields_def)
  ultimately show ?thesis using s' Q' r(2) same_fields_strip [OF s'(3)]
    by (simp add: run_ok_def running_def Q same_fields_def)
qed

lemma after_fire_links: "m_targetSelector (after_fire F d t) = m_targetSelector t"
  by (simp add: after_fire_def)

text \<open>The pass that fires the queue, with nothing else waiting.\<close>

lemma fire_all_quiet:
  assumes ok: "sched_ok env (n + 9 * length S) s" and env: "env_ok env" "quiet_env env" and Q: "queues_of s = (S, [], [])"
    and un: "\<not> locked (m_scheduledTimers s)" and S: "distinct S" "flagged s \<inter> set S = {}"
  shows "\<exists>s'. fire_all env d s = Some s' \<and> sched_ok env n s' \<and> m_scheduledTimers s' = m_scheduledTimers s \<and> claims s' = claims s \<and>
    m_timeScale s' = m_timeScale s \<and> same_links s s' \<and>
    queues_of s' = (S, [], filter (\<lambda>p. \<exists>t. timers s p = Some t \<and> retires (float_of env) d t) S) \<and>
    flagged s' = flagged s \<union> {p \<in> set S. \<exists>t. timers s p = Some t \<and> retires (float_of env) d t} \<and>
    map_option strip \<circ> timers s' =
      (\<lambda>p. if p \<in> set S then map_option (after_fire (float_of env) d) (map_option strip (timers s p)) else map_option strip (timers s p))"
proof -
  let ?F = "float_of env"
  let ?ret = "\<lambda>p. \<exists>t. timers s p = Some t \<and> retires ?F d t"
  let ?a = "m_scheduledTimers s"
  have q: "queue ?a = S" "queue (m_timersToAdd s) = []" "queue (m_timersToRemove s) = []" using Q by (simp_all add: queues_of_def)
  have a: "queue_ok ?a" using ok by (simp add: sched_ok_def arrays_ok_def)
  define J where "J i r \<longleftrightarrow> sched_ok env (n + 9 * (length S - i)) r \<and> claims r = claims s \<and> m_timeScale r = m_timeScale s \<and>
    same_selectors s r \<and> queues_of r = (S, [], filter ?ret (take i S)) \<and>
    flagged r = flagged s \<union> {p \<in> set (take i S). ?ret p} \<and>
    map_option strip \<circ> timers r =
      (\<lambda>p. if p \<in> set (take i S) then map_option (after_fire ?F d) (map_option strip (timers s p)) else map_option strip (timers s p))" for i r
  let ?s0 = "s\<lparr>m_scheduledTimers := ?a\<lparr>locked := True\<rparr>\<rparr>"
  have "J 0 ?s0" using ok q by (auto simp: J_def same_selectors_def flagged_def queues_of_def fun_eq_iff)
  moreover have "\<exists>r'. fire_timer env d (queue ?a ! i) r = Some r' \<and> m_scheduledTimers r' = m_scheduledTimers r \<and> J (Suc i) r'"
    if J: "J i r" and i: "i < length (queue ?a)" for i r
  proof -
    let ?p = "S ! i"
    have il: "i < length S" using i q by simp
    then have pS: "?p \<in> set S" by simp
    have tk: "take (Suc i) S = take i S @ [?p]" by (rule take_Suc_nth [OF il])
    have new: "?p \<notin> set (take i S)" using S(1) il tk by (metis distinct_take not_distinct_conv_prefix)
    have "length S - i = Suc (length S - Suc i)" using il by simp
    then have okr: "sched_ok env ((n + 9 * (length S - Suc i)) + 9) r" using J by (simp add: J_def algebra_simps)
    have Qr: "queues_of r = (S, [], filter ?ret (take i S))" using J by (simp add: J_def)
    have "timers r ?p \<noteq> None" using queued_claimed(2) [OF okr Qr, of ?p] pS by simp
    then obtain t where t: "timers r ?p = Some t" by blast
    have tm: "map_option strip \<circ> timers r = (\<lambda>p. if p \<in> set (take i S) then map_option (after_fire ?F d) (map_option strip (timers s p))
        else map_option strip (timers s p))" using J by (simp add: J_def)
    have e: "map_option strip (timers s ?p) = Some (strip t)" using fun_cong [OF tm, of ?p] new t by simp
    then obtain t0 where t0: "timers s ?p = Some t0" "strip t0 = strip t" by blast
    have ret: "?ret ?p \<longleftrightarrow> retires ?F d t" using t0 strip_after(2) [of ?F d t] strip_after(2) [of ?F d t0] by auto
    have nf: "?p \<notin> flagged r" using J new S(2) pS by (auto simp: J_def)
    obtain r' where r': "fire_timer env d ?p r = Some r'" "sched_ok env (n + 9 * (length S - Suc i)) r'"
      "m_scheduledTimers r' = m_scheduledTimers r" "claims r' = claims r" "m_timeScale r' = m_timeScale r" "same_selectors r r'"
      "map_option strip \<circ> timers r' = (map_option strip \<circ> timers r)(?p \<mapsto> strip (after_fire ?F d t))"
      "queues_of r' = (S, [], if retires ?F d t then filter ?ret (take i S) @ [?p] else filter ?ret (take i S))"
      "flagged r' = (if retires ?F d t then insert ?p (flagged r) else flagged r)"
      using fire_timer_quiet [OF okr env pS Qr t nf, of d] by blast
    have "map_option strip \<circ> timers r' = (\<lambda>p. if p \<in> set (take (Suc i) S) then map_option (after_fire ?F d) (map_option strip (timers s p))
        else map_option strip (timers s p))"
      unfolding r'(7) tm tk using e strip_after(1) [of ?F d t] by (auto simp: fun_eq_iff)
    moreover have "queues_of r' = (S, [], filter ?ret (take (Suc i) S))" unfolding tk r'(8) using ret by simp
    moreover have "flagged r' = flagged s \<union> {p \<in> set (take (Suc i) S). ?ret p}" unfolding tk r'(9) using ret J by (auto simp: J_def)
    moreover have "same_selectors s r'" using J r'(6) by (simp add: J_def same_selectors_def)
    ultimately have "J (Suc i) r'" using J r'(2,4,5) by (simp add: J_def)
    then show ?thesis using r'(1,3) q by auto
  qed
  ultimately obtain r where r:
    "fire_all env d s = Some (r\<lparr>m_scheduledTimers := ?a\<rparr>) \<and> m_scheduledTimers r = ?a\<lparr>locked := True\<rparr> \<and> J (length (queue ?a)) r \<or>
      queue ?a = [] \<and> fire_all env d s = Some s"
    using fire_pass [OF a un, where J = J and env = env and delta = d] by blast
  have J: "\<exists>s'. fire_all env d s = Some s' \<and> m_scheduledTimers s' = ?a \<and> J (length S) s'"
  proof (cases "queue ?a = [] \<and> fire_all env d s = Some s")
    case True
    have "J 0 s" using ok Q by (auto simp: J_def same_selectors_def fun_eq_iff)
    then show ?thesis using True q by auto
  next
    case False
    then have f: "fire_all env d s = Some (r\<lparr>m_scheduledTimers := ?a\<rparr>)" "m_scheduledTimers r = ?a\<lparr>locked := True\<rparr>"
      "J (length S) r" using r q by auto
    have "r\<lparr>m_scheduledTimers := ?a\<lparr>locked := True\<rparr>\<rparr> = r" by (simp flip: f(2))
    then have "sched_ok env n (r\<lparr>m_scheduledTimers := ?a\<rparr>)"
      using f(3) sched_ok_lock [where s = r and a = ?a and b = True] by (simp add: J_def)
    moreover have "queues_of (r\<lparr>m_scheduledTimers := ?a\<rparr>) = queues_of r" using f(2) by (simp add: queues_of_def)
    moreover have "flagged (r\<lparr>m_scheduledTimers := ?a\<rparr>) = flagged r" by (simp add: flagged_def)
    ultimately have "J (length S) (r\<lparr>m_scheduledTimers := ?a\<rparr>)" using f(3) by (simp add: J_def same_selectors_def)
    then show ?thesis using f(1) by simp
  qed
  then obtain s' where s': "fire_all env d s = Some s'" "m_scheduledTimers s' = ?a" "J (length S) s'" by blast
  have tm: "map_option strip \<circ> timers s' = (\<lambda>p. if p \<in> set S then map_option (after_fire ?F d) (map_option strip (timers s p))
      else map_option strip (timers s p))" using s'(3) by (simp add: J_def)
  have "map_option m_targetSelector (timers s' p) = map_option m_targetSelector (timers s p)" for p
  proof -
    have "map_option strip (timers s' p) = (if p \<in> set S then map_option (after_fire ?F d) (map_option strip (timers s p))
      else map_option strip (timers s p))" using fun_cong [OF tm, of p] by simp
    then show ?thesis unfolding strip_links [of "timers s' p"] strip_links [of "timers s p"]
      by (simp add: option.map_comp comp_def after_fire_links)
  qed
  then have "same_links s s'" using s'(3) by (simp add: same_links_def J_def)
  then show ?thesis using s' tm by (intro exI [of _ s']) (simp add: J_def)
qed

text \<open>The room a tick needs when at most \<open>c\<close> timers are in a queue.\<close>

definition event_cost :: "nat \<Rightarrow> nat" where
  "event_cost c = 28 * c + 6"

lemma tick_step:
  assumes ok: "run_ok env T (n + event_cost (card T)) s" and env: "env_ok env" "quiet_env env" and T: "finite T"
  shows "\<exists>s'. tickLocked env delta s = Some s' \<and> run_ok env T n s' \<and>
    running s' = spec_event (float_of env) (m_timeScale s) (Tick delta) (running s) \<and> m_timeScale s' = m_timeScale s"
proof (cases "f_less (float_of env) (f_zero (float_of env)) delta")
  case False
  have "run_ok env T n s" using ok sched_ok_less [of env "n + event_cost (card T)" s n] by (simp add: run_ok_def)
  then show ?thesis using False by (simp add: tickLocked_def Let_def)
next
  case True
  let ?F = "float_of env"
  let ?d = "scaled ?F (m_timeScale s) delta"
  obtain S A R where Q: "queues_of s = (S, A, R)" by (metis prod_cases3)
  have q: "queue (m_scheduledTimers s) = S" "queue (m_timersToAdd s) = A" "queue (m_timersToRemove s) = R"
    using Q by (simp_all add: queues_of_def)
  have r: "sched_ok env (n + event_cost (card T)) s" "\<not> locked (m_scheduledTimers s)" "tidy (S, A, R)" "set S \<union> set A \<subseteq> T"
    "flagged s \<inter> T \<subseteq> set R" "held_timers env s T" using ok Q q by (simp_all add: run_ok_def)
  note len = queue_lengths [OF r(3,4) T]
  have ok1: "sched_ok env ((n + 9 * (length S + length A)) + flush_cost (queues_of s)) s"
    by (rule sched_ok_less [OF r(1)]) (use len in \<open>simp add: flush_cost_def Q event_cost_def\<close>)
  from flush_ok [OF ok1 env(1) Q r(2)] obtain s1 s2 where s2: "remove_pending env s = Some s1" "add_pending env s1 = Some s2"
    "sched_ok env (n + 9 * (length S + length A)) s2" "same_fields s s2" "flagged s2 = flagged s - (set R \<union> set A)"
    "queues_of s2 = (remove_equal (equal_timer env s) R S @ A, [], [])" "\<not> locked (m_scheduledTimers s2)" by blast
  have "\<forall>r\<in>set R. \<forall>p\<in>set S. equal_timer env s r p \<longleftrightarrow> p = r"
  proof (intro ballI)
    fix u p assume "u \<in> set R" "p \<in> set S"
    then have "u \<in> T" "p \<in> T" using r(3,4) by auto
    then show "equal_timer env s u p \<longleftrightarrow> p = u" using separate_equal [of env s T p u] r(6) by (simp add: held_timers_def)
  qed
  then have rm: "remove_equal (equal_timer env s) R S = fold remove1 R S" by (rule remove_equal_only)
  let ?S = "fold remove1 R S @ A"
  have f: "distinct (fold remove1 R S)" "set (fold remove1 R S) = set S - set R" using fold_remove1 [of S R] r(3) by simp_all
  have Q2: "queues_of s2 = (?S, [], [])" using s2(6) rm by simp
  have dS: "distinct ?S" using f r(3) by auto
  have sS: "set ?S = active (S, A, R)" using f by simp
  have nf: "flagged s2 \<inter> set ?S = {}" using s2(5) r(4,5) f by auto
  have lS: "length ?S \<le> length S + length A" using remove_equal_sub(2) [of "equal_timer env s" R S] rm by simp
  have ok2: "sched_ok env (n + 9 * length ?S) s2" by (rule sched_ok_less [OF s2(3)]) (use lS in simp)
  obtain s3 where s3: "fire_all env ?d s2 = Some s3" "sched_ok env n s3" "m_scheduledTimers s3 = m_scheduledTimers s2"
    "claims s3 = claims s2" "m_timeScale s3 = m_timeScale s2" "same_links s2 s3"
    "queues_of s3 = (?S, [], filter (\<lambda>p. \<exists>t. timers s2 p = Some t \<and> retires ?F ?d t) ?S)"
    "flagged s3 = flagged s2 \<union> {p \<in> set ?S. \<exists>t. timers s2 p = Some t \<and> retires ?F ?d t}"
    "map_option strip \<circ> timers s3 = (\<lambda>p. if p \<in> set ?S then map_option (after_fire ?F ?d) (map_option strip (timers s2 p))
      else map_option strip (timers s2 p))"
    using fire_all_quiet [OF ok2 env Q2 s2(7) dS nf, of ?d] by blast
  have st: "map_option strip (timers s2 p) = map_option strip (timers s p)" for p using s2(4) by (simp add: same_fields_def)
  have ret: "(\<exists>t. timers s2 p = Some t \<and> retires ?F ?d t) \<longleftrightarrow> (\<exists>t. map_option strip (timers s p) = Some t \<and> retires ?F ?d t)" for p
    unfolding st [symmetric] by (cases "timers s2 p") (simp_all add: strip_after(2))
  have tick: "tickLocked env delta s = Some s3" using True s2(1,2) s3(1) by (simp add: tickLocked_def Let_def scaled_def)
  have "map_option strip \<circ> timers s3 = fst (fire_running ?F ?d (running s))"
    unfolding s3(9) st by (simp add: fire_running_def running_def Q fun_eq_iff f(2))
  moreover have "active (queues_of s3) = snd (fire_running ?F ?d (running s))"
    unfolding s3(7) using ret sS by (auto simp: fire_running_def running_def Q)
  ultimately have run: "running s3 = fire_running ?F ?d (running s)" by (simp add: running_def prod_eq_iff)
  have "tidy (queues_of s3)" using s3(7) dS by auto
  moreover have "set (queue (m_scheduledTimers s3)) \<union> set (queue (m_timersToAdd s3)) \<subseteq> T"
    using s3(7) r(4) f by (auto simp: queues_of_def)
  moreover have "flagged s3 \<inter> T \<subseteq> set (queue (m_timersToRemove s3))"
    using s3(7,8) s2(5) r(5) by (auto simp: queues_of_def)
  moreover have "held_timers env s3 T"
    using held_timers_links [OF same_links_trans [OF same_fields_links [OF s2(4)] s3(6)]] s3(4) s2(4) r(6)
    by (simp add: same_fields_def)
  ultimately have "run_ok env T n s3" using s3(2,3) s2(7) by (simp add: run_ok_def)
  then show ?thesis using tick run True s3(5) s2(4) by (simp add: same_fields_def)
qed

lemma event_step:
  assumes ok: "run_ok env T (n + event_cost (card T)) s" and env: "env_ok env" "quiet_env env" and T: "finite T"
    and e: "event_ok T e (running s)"
  shows "\<exists>s'. run_event env e s = Some s' \<and> run_ok env T n s' \<and>
    running s' = spec_event (float_of env) (m_timeScale s) e (running s) \<and> m_timeScale s' = m_timeScale s"
proof -
  have less: "run_ok env T (n + 6) s"
    using ok sched_ok_less [of env "n + event_cost (card T)" s "n + 6"] by (simp add: run_ok_def event_cost_def)
  show ?thesis
  proof (cases e)
    case (Start t)
    then show ?thesis using start_step [OF less env(1), of t] e by simp
  next
    case (Stop t)
    then show ?thesis using stop_step [OF less env(1), of t] e by simp
  next
    case (Tick d)
    then show ?thesis using tick_step [OF ok env T, of d] by simp
  qed
qed

fun spec_events :: "'f time_ops \<Rightarrow> 'f \<Rightarrow> 'f timer_event list \<Rightarrow> 'f running \<Rightarrow> 'f running" where
  "spec_events F scale [] r = r"
| "spec_events F scale (e # es) r = spec_events F scale es (spec_event F scale e r)"

lemma events_step:
  assumes "env_ok env" "quiet_env env" "finite T"
  shows "run_ok env T (n + length es * event_cost (card T)) s \<Longrightarrow> events_ok (float_of env) (m_timeScale s) T es (running s) \<Longrightarrow>
    \<exists>s'. run_events env es s = Some s' \<and> run_ok env T n s' \<and>
      running s' = spec_events (float_of env) (m_timeScale s) es (running s) \<and> m_timeScale s' = m_timeScale s"
proof (induction es arbitrary: s)
  case (Cons e es)
  have ok: "run_ok env T ((n + length es * event_cost (card T)) + event_cost (card T)) s" using Cons.prems(1) by (simp add: algebra_simps)
  obtain s1 where s1: "run_event env e s = Some s1" "run_ok env T (n + length es * event_cost (card T)) s1"
    "running s1 = spec_event (float_of env) (m_timeScale s) e (running s)" "m_timeScale s1 = m_timeScale s"
    using event_step [OF ok assms] Cons.prems(2) by auto
  show ?case using Cons.IH [OF s1(2)] Cons.prems(2) s1 by simp
qed simp

end
