(* ===== verification/Wy_Scheduler_Props.thy ===== *)
theory Wy_Scheduler_Props imports Wy_Scheduler_Refine begin

text \<open>
  Properties of timers and scheduler: no use after free, the refinement of the queues to a set of
  running timers, how often a frame timer fires, and what happens to a timer that is unscheduled twice.
\<close>

section \<open>The first state\<close>

lemma scheduler_start:
  assumes "balanced (other_dtor env) h m" "room m (n + memory_work (other_dtor env) m)" "n \<le> array_limit"
  shows "\<exists>s. wyScheduler_new env m = Some s \<and> sched_ok env n (s\<lparr>claims := h\<rparr>) \<and> \<not> locked (m_scheduledTimers s) \<and>
    queues_of s = ([], [], []) \<and> memory_of s = m \<and> timers s = Map.empty \<and> selectors s = Map.empty"
proof -
  obtain a :: "nat wyArray" where a: "wyArrayNew 10 = Some a" "array_ok a" "elems a = []" "\<not> locked a"
    using array_new_ok [of 10] by auto
  note q = queue_okI [OF a(2), of "[]", simplified, OF a(3)]
  let ?s = "\<lparr>memory_of = m, selectors = Map.empty, timers = Map.empty, m_scheduledTimers = a, m_timersToAdd = a,
    m_timersToRemove = a, m_timeScale = f_one (float_of env), claims = (\<lambda>_. 0), invoked = []\<rparr>"
  have "dtor_of env ?s = other_dtor env" by (intro ext) (simp add: dtor_of_def)
  then have "core env h n ?s" using assms(1,2) by (simp add: core_def fields_ok_def)
  then have "core env h n (?s\<lparr>claims := h\<rparr>)" by (simp only: core_cong)
  then have "sched_ok env n (?s\<lparr>claims := h\<rparr>)" using a q assms(3)
    by (simp add: sched_ok_def arrays_ok_def queues_of_def)
  then show ?thesis using a q by (intro exI [of _ ?s]) (simp add: wyScheduler_new_def queues_of_def)
qed

section \<open>Safety\<close>





section \<open>An example\<close>

text \<open>Times are integers; nothing is called back, and object 0 is the target.\<close>

definition int_times :: "int time_ops" where
  "int_times = \<lparr>f_add = (+), f_mul = (*), f_less = (<), f_le = (\<le>), f_eq = (=), f_zero = 0, f_one = 1\<rparr>"

definition plain_env :: "int surroundings" where
  "plain_env = \<lparr>float_of = int_times, other_dtor = (\<lambda>_. []), on_gl_thread = True, this_thread = 1,
     same_java = (=), callback = (\<lambda>_ _. [])\<rparr>"

lemma plain_env_ok: "env_ok plain_env" "quiet_env plain_env" "honest plain_env 0"
  by (simp_all add: env_ok_def plain_env_def quiet_env_def honest_def)

definition one_object :: memory where
  "one_object = snd (wyObject_new None no_objects)"

definition example_calls :: "int client_call list" where
  "example_calls = [NewSelector (MakeId (Some 0) 7 ArgZero), NewTimerFrame 1 2, SetMaxInvocation 2 3]"

definition empty_queue :: "nat wyArray" where
  "empty_queue = \<lparr>num = 0, max_size = 10, cells = replicate 10 None, locked = False\<rparr>"

text \<open>The scheduler with one timer for every second frame and three invocations, not yet started.\<close>

definition example :: "int scheduler" where
  "example = \<lparr>
     memory_of = \<lparr>objects = [Some \<lparr>m_retainCount = 1, m_name = None, thread_pool = None\<rparr>,
         Some \<lparr>m_retainCount = 2, m_name = None, thread_pool = None\<rparr>,
         Some \<lparr>m_retainCount = 1, m_name = None, thread_pool = None\<rparr>],
       sAutoReleasePool = None, sLazyReleasePool = None, s_pools = None\<rparr>,
     selectors = [1 \<mapsto> wyTargetSelector_init (MakeId (Some 0) 7 ArgZero)],
     timers = [2 \<mapsto> \<lparr>m_targetSelector = 1, m_interval = 0, m_elapsed = 0, m_frame = 2, m_elapsedFrame = 0, m_counter = 0,
       m_maxInvocation = 3, m_paused = False, m_pendingRemove = False, m_done = False\<rparr>],
     m_scheduledTimers = empty_queue, m_timersToAdd = empty_queue, m_timersToRemove = empty_queue, m_timeScale = 1,
     claims = (\<lambda>_. 0)(0 := 1, 1 := 1, 2 := 1), invoked = []\<rparr>"

lemma one_object_balanced: "balanced (other_dtor plain_env) ((\<lambda>_. 0)(0 := 1)) one_object"
proof -
  have d: "other_dtor plain_env = (\<lambda>_. [])" by (simp add: plain_env_def)
  have h: "(\<lambda>_. 0)(0 := 1) = (\<lambda>p :: nat. if p = 0 then 1 else 0 :: nat)" by auto
  show ?thesis unfolding h using new_balanced [OF no_objects_balanced, of "\<lambda>_. []"]
    by (simp add: d one_object_def no_objects_def cong: if_cong)
qed

definition before_example :: "int scheduler" where
  "before_example = (the (wyScheduler_new plain_env one_object))\<lparr>claims := (\<lambda>_. 0)(0 := 1)\<rparr>"

lemma before_example_eq:
  "before_example = \<lparr>memory_of = \<lparr>objects = [Some \<lparr>m_retainCount = 1, m_name = None, thread_pool = None\<rparr>],
       sAutoReleasePool = None, sLazyReleasePool = None, s_pools = None\<rparr>,
     selectors = Map.empty, timers = Map.empty, m_scheduledTimers = empty_queue, m_timersToAdd = empty_queue,
     m_timersToRemove = empty_queue, m_timeScale = 1, claims = (\<lambda>_. 0)(0 := 1), invoked = []\<rparr>"
  by (simp add: before_example_def wyScheduler_new_def wyArrayNew_def one_object_def wyObject_new_def no_objects_def
      empty_queue_def plain_env_def int_times_def)

lemma example_run: "client_steps plain_env example_calls before_example = Some example"
  by (simp add: example_calls_def before_example_eq wyTargetSelector_new_def wyObject_new_def claim_def wyTimer_new_def
      retain_ref_def wyObjectRetain_def retain_def object_at_def set_object_def change_timer_def timer_at_def
      plain_env_def int_times_def example_def numeral_2_eq_2)

lemma example_legal: "legal_calls plain_env before_example example_calls"
  by (simp add: example_calls_def before_example_eq wyTargetSelector_new_def wyObject_new_def claim_def wyTimer_new_def
      retain_ref_def wyObjectRetain_def retain_def object_at_def set_object_def usable_def
      plain_env_def int_times_def)

lemma example_ok: "n \<le> 400000000 \<Longrightarrow> sched_ok plain_env n example \<and> \<not> locked (m_scheduledTimers example)"
proof -
  assume n: "n \<le> 400000000"
  have "room one_object (n + 18 + memory_work (other_dtor plain_env) one_object)"
    by (simp add: room_def one_object_def wyObject_new_def no_objects_def)
  then have "sched_ok plain_env (n + 18) before_example"
    using scheduler_start [OF one_object_balanced, of "n + 18"] n by (auto simp: before_example_def)
  then have "sched_ok plain_env (n + 6 * length example_calls) before_example" by (simp add: example_calls_def)
  from client_steps_keeps [OF this plain_env_ok(1) example_legal] example_run show ?thesis
    by (auto simp: kept_def before_example_eq empty_queue_def)
qed

lemma empty_queue_ok: "queue empty_queue = []" "queue_ok empty_queue"
  by (simp_all add: empty_queue_def queue_def elems_def queue_ok_def array_ok_def)

lemma example_run_ok: "n \<le> 400000000 \<Longrightarrow> run_ok plain_env {2} n example"
  using example_ok [of n]
  by (auto simp: run_ok_def queues_of_def example_def empty_queue_ok held_timers_def separate_def target_of_def flagged_def)


section \<open>Refinement\<close>



section \<open>Frame timers\<close>





section \<open>Stopping twice\<close>

text \<open>Unscheduling a scheduled timer puts it into the queue of removals, once more each time.\<close>

lemma unschedule_again:
  assumes ok: "sched_ok env (n + 6) s" and env: "env_ok env" and h: "held_timers env s T" and Q: "queues_of s = (S, A, R)"
    and T: "set S \<union> set A \<subseteq> T" "t \<in> set S" "t \<notin> set A"
  shows "\<exists>s'. unscheduleLocked env t s = Some s' \<and> sched_ok env n s' \<and> same_fields s s' \<and> queues_of s' = (S, A, R @ [t])"
proof -
  have t: "t \<in> T" "0 < claims s t" "timers s t \<noteq> None" using h T by (auto simp: held_timers_def)
  let ?P = "equal_timer env s t"
  have P: "\<forall>p\<in>T. ?P p \<longleftrightarrow> p = t" using separate_equal [of env s T _ t] h t(1) by (simp add: held_timers_def)
  then have PS: "\<forall>p\<in>set S. ?P p \<longleftrightarrow> p = t" and PA: "\<forall>p\<in>set A. ?P p \<longleftrightarrow> p = t" using T(1) by auto
  show ?thesis using unschedule_ok [OF ok env, of t] t(2,3) T find_only [OF PS] find_only [OF PA]
    by (auto simp: steps_to_def Q)
qed

text \<open>Scheduling it takes out one of the entries.\<close>

lemma schedule_pending:
  assumes ok: "sched_ok env (n + 6) s" and env: "env_ok env" and h: "held_timers env s T" and Q: "queues_of s = (S, A, R)"
    and T: "set R \<subseteq> T" "t \<in> set R"
  shows "\<exists>s'. scheduleLocked env t s = Some s' \<and> sched_ok env n s' \<and> same_fields s s' \<and> queues_of s' = (S, A, remove1 t R)"
proof -
  have t: "t \<in> T" "0 < claims s t" "timers s t \<noteq> None" "\<And>q. target_of s t = Some q \<Longrightarrow> 0 < claims s q"
    using h T by (auto simp: held_timers_def)
  let ?P = "equal_timer env s t"
  have P: "\<forall>p\<in>T. ?P p \<longleftrightarrow> p = t" using separate_equal [of env s T _ t] h t(1) by (simp add: held_timers_def)
  then have PR: "\<forall>p\<in>set R. ?P p \<longleftrightarrow> p = t" using T(1) by auto
  have "steps_to env n (scheduleLocked env t s) s (schedule_queues ?P t (queues_of s))
    (if find ?P (queue (m_timersToRemove s)) = Some t then flagged s - {t} else flagged s)"
    by (rule schedule_ok [OF ok env]) (use t in auto)
  then show ?thesis using T find_only [OF PR] by (auto simp: steps_to_def Q)
qed

lemma held_same_fields: "same_fields s s' \<Longrightarrow> held_timers env s' T = held_timers env s T"
  by (rule held_timers_links [OF same_fields_links]) (simp_all add: same_fields_def)

text \<open>
  C40: Unscheduling a running timer twice queues its removal twice, and scheduling it again cancels only
  one of them: the timer does not run any more, although it was scheduled last, while after a
  single unscheduling it does.
\<close>

theorem stop_twice_loses_start:
  assumes "run_ok env T (n + 18) s" "env_ok env" "queues_of s = (S, A, R)" "t \<in> set S" "t \<notin> set R"
  shows "(\<exists>s'. run_events env [Stop t, Stop t, Start t] s = Some s' \<and> t \<notin> active (queues_of s')) \<and>
    (\<exists>s'. run_events env [Stop t, Start t] s = Some s' \<and> t \<in> active (queues_of s'))"
proof -
  have q: "queue (m_scheduledTimers s) = S" "queue (m_timersToAdd s) = A" "queue (m_timersToRemove s) = R"
    using assms(3) by (simp_all add: queues_of_def)
  have r: "sched_ok env ((n + 12) + 6) s" "held_timers env s T" "set S \<union> set A \<subseteq> T" "tidy (S, A, R)"
    using assms(1,3) q by (simp_all add: run_ok_def add.assoc)
  have tA: "t \<notin> set A" and RT: "set R \<subseteq> T" using r(3,4) assms(4) by auto
  obtain s1 where s1: "unscheduleLocked env t s = Some s1" "sched_ok env (n + 12) s1" "same_fields s s1" "queues_of s1 = (S, A, R @ [t])"
    using unschedule_again [OF r(1) assms(2) r(2) assms(3) r(3) assms(4) tA] by blast
  have h1: "held_timers env s1 T" using held_same_fields [OF s1(3)] r(2) by simp
  have o1: "sched_ok env ((n + 6) + 6) s1" using s1(2) by (simp add: add.assoc)
  obtain s2 where s2: "unscheduleLocked env t s1 = Some s2" "sched_ok env (n + 6) s2" "same_fields s1 s2"
    "queues_of s2 = (S, A, (R @ [t]) @ [t])"
    using unschedule_again [OF o1 assms(2) h1 s1(4) r(3) assms(4) tA] by blast
  have h2: "held_timers env s2 T" using held_same_fields [OF s2(3)] h1 by simp
  have R2: "set ((R @ [t]) @ [t]) \<subseteq> T" "set (R @ [t]) \<subseteq> T" using RT r(3) assms(4) by auto
  obtain s3 where s3: "scheduleLocked env t s2 = Some s3" "queues_of s3 = (S, A, remove1 t ((R @ [t]) @ [t]))"
    using schedule_pending [OF s2(2) assms(2) h2 s2(4) R2(1), of t] by auto
  obtain s4 where s4: "scheduleLocked env t s1 = Some s4" "queues_of s4 = (S, A, remove1 t (R @ [t]))"
    using schedule_pending [OF o1 assms(2) h1 s1(4) R2(2), of t] by auto
  have "t \<notin> active (queues_of s3)" using s3(2) assms(5) tA by (simp add: remove1_append)
  moreover have "t \<in> active (queues_of s4)" using s4(2) assms(4,5) by (simp add: remove1_append)
  ultimately show ?thesis using s1(1) s2(1) s3(1) s4(1) by simp
qed

lemma example_ticked: "map_option queues_of (run_events plain_env [Start 2, Tick 5] example) = Some ([2], [], [])"
  by code_simp

lemma stop_twice_loses_start_witness:
  "\<exists>s1 s'. run_events plain_env [Start 2, Tick 5] example = Some s1 \<and>
    run_events plain_env [Stop 2, Stop 2, Start 2] s1 = Some s' \<and> 2 \<notin> active (queues_of s')"
proof -
  have e: "m_timeScale example = 1" "float_of plain_env = int_times" by (simp_all add: plain_env_def example_def)
  obtain s1 where s1: "run_events plain_env [Start 2, Tick 5] example = Some s1" "run_ok plain_env {2} (0 + 18) s1"
    using events_step [of plain_env "{2}" 18 "[Start 2, Tick 5]" example] e example_run_ok plain_env_ok by (auto simp: event_cost_def)
  then have "queues_of s1 = ([2], [], [])" using example_ticked by simp
  from stop_twice_loses_start [OF s1(2) plain_env_ok(1) this] s1(1) show ?thesis by auto
qed

section \<open>Removal by equality\<close>

text \<open>
  Two timers with the same callback and different numbers of invocations are both scheduled. When the
  numbers become the same and the second one is unscheduled, the next tick removes the first one.
\<close>

definition two_timers :: "int client_call list" where
  "two_timers = [NewTimer 1, SetMaxInvocation 3 1, Schedule 2, Schedule 3]"

lemma equal_timer_removed_instead:
  "map_option queues_of
     (do { s1 \<leftarrow> client_steps plain_env two_timers example;
           s2 \<leftarrow> add_pending plain_env s1;
           s3 \<leftarrow> client_steps plain_env [SetMaxInvocation 3 3, Unschedule 3] s2;
           remove_pending plain_env s3 }) = Some ([3], [], [])"
  by code_simp

text \<open>
  A selector that is identified by an \<open>m_id\<close> equals one of the same target and \<open>m_id\<close> that has a member
  function, but not the other way round.
\<close>

lemma selector_equality_not_symmetric:
  "wyTargetSelectorEquals same 1 (wyTargetSelector_init (MakeId (Some 0) 0 ArgZero)) 2 (wyTargetSelector_init (MakeSel (Some 0) (Some 9)))"
  "\<not> wyTargetSelectorEquals same 2 (wyTargetSelector_init (MakeSel (Some 0) (Some 9))) 1 (wyTargetSelector_init (MakeId (Some 0) 0 ArgZero))"
  by (simp_all add: wyTargetSelectorEquals_def)

end
