(* ===== verification/Wy_Node.thy ===== *)
theory Wy_Node imports Wy_Array begin

text \<open>
  The tree of nodes of \<open>nodes/wyNode.cpp\<close>: child lists in z-order, entering and leaving the running
  state, reference counts and destruction, and the order of drawing. A node is the number of its
  address. \<open>None\<close> is no defined result: the use of a destroyed node, or a recursion deeper than the
  stack, whose size is the first argument \<open>k\<close> of the recursive functions.

  The nodes are of the class \<open>wyNode\<close> itself: the virtual methods are those of this file. A node has
  no timers of its own (\<open>m_timers\<close> is \<open>NULL\<close>), no grid and no camera; geometry is left out. The calls
  into the event dispatcher, the action manager and OpenGL are recorded in the order they are made.
  The mutex is recursive and the calls are sequential, so that the \<open>Locked\<close> variants are the same.
\<close>

section \<open>Nodes\<close>

datatype handler = TouchHandler | KeyHandler | GestureHandler | DoubleTapHandler | AccelHandler

datatype node_event =
    AddHandler handler nat int
  | RemoveHandler handler nat
  | SetHandlerPriority handler nat int
  | PauseActions nat
  | ResumeActions nat
  | RemoveActions nat
  | PushMatrix
  | Transform nat
  | PushClip nat
  | Draw nat
  | PopClip
  | PopMatrix

text \<open>
  \<open>handles\<close> and \<open>priority\<close> stand for the five flags \<open>m_touchEnabled\<close>, \<open>m_keyEnabled\<close>,
  \<open>m_gestureEnabled\<close>, \<open>m_doubleTabEnabled\<close> and \<open>m_accelerometerEnabled\<close> and their priorities.
\<close>

record node =
  m_retainCount :: int
  m_enabled :: bool
  m_visible :: bool
  m_running :: bool
  handles :: "handler \<Rightarrow> bool"
  priority :: "handler \<Rightarrow> int"
  m_childrenChanging :: bool
  m_zOrder :: int
  m_tag :: int
  m_hasClip :: bool
  m_parent :: "nat ptr"
  m_children :: "nat wyArray"

text \<open>
  The nodes, the next address, and the calls recorded. \<open>holds\<close> is not in the code: how many
  references of each node the clients hold.
\<close>

record scene =
  nodes :: "nat \<rightharpoonup> node"
  fresh :: nat
  holds :: "nat \<Rightarrow> nat"
  events :: "node_event list"

definition change_node :: "(node \<Rightarrow> node) \<Rightarrow> nat \<Rightarrow> scene \<Rightarrow> scene option" where
  "change_node f n s = do { x \<leftarrow> nodes s n; Some (s\<lparr>nodes := (nodes s)(n \<mapsto> f x)\<rparr>) }"

definition record_events :: "node_event list \<Rightarrow> scene \<Rightarrow> scene" where
  "record_events es s = s\<lparr>events := events s @ es\<rparr>"

definition invalid_tag :: int where
  "invalid_tag = -1"

definition wyNode_new :: "scene \<Rightarrow> scene option" where
  "wyNode_new s =
     do { a \<leftarrow> wyArrayNew 3;
          Some (s\<lparr>nodes := (nodes s)(fresh s \<mapsto>
                   \<lparr>m_retainCount = 1, m_enabled = True, m_visible = True, m_running = False,
                    handles = (\<lambda>_. False), priority = (\<lambda>_. 0), m_childrenChanging = False, m_zOrder = 0,
                    m_tag = invalid_tag, m_hasClip = False, m_parent = None, m_children = a\<rparr>),
                 fresh := Suc (fresh s)\<rparr>) }"

definition node_retain :: "nat \<Rightarrow> scene \<Rightarrow> scene option" where
  "node_retain n s = change_node (\<lambda>x. x\<lparr>m_retainCount := m_retainCount x + 1\<rparr>) n s"

section \<open>Entering and leaving\<close>

text \<open>An iterator of \<open>wyArrayEach\<close> that calls \<open>f\<close> on each child; the list iterated is the node's.\<close>

definition child_iterator :: "(nat \<Rightarrow> scene \<Rightarrow> scene option) \<Rightarrow> nat \<Rightarrow> (nat, scene) array_iterator" where
  "child_iterator f n a p i s =
     do { c \<leftarrow> p;
          s1 \<leftarrow> change_node (\<lambda>x. x\<lparr>m_children := a\<rparr>) n s;
          s2 \<leftarrow> f c s1;
          x \<leftarrow> nodes s2 n;
          Some (m_children x, s2, True) }"

definition each_child :: "(nat \<Rightarrow> scene \<Rightarrow> scene option) \<Rightarrow> nat \<Rightarrow> scene \<Rightarrow> scene option" where
  "each_child f n s =
     do { x \<leftarrow> nodes s n;
          (a, s1) \<leftarrow> wyArrayEach (child_iterator f n) (m_children x) s;
          change_node (\<lambda>y. y\<lparr>m_children := a\<rparr>) n s1 }"

definition add_handlers :: "nat \<Rightarrow> node \<Rightarrow> node_event list" where
  "add_handlers n x =
     map (\<lambda>h. AddHandler h n (priority x h))
       (filter (handles x) [TouchHandler, KeyHandler, GestureHandler, DoubleTapHandler, AccelHandler])"

definition remove_handlers :: "nat \<Rightarrow> node \<Rightarrow> node_event list" where
  "remove_handlers n x =
     map (\<lambda>h. RemoveHandler h n)
       (filter (handles x) [TouchHandler, KeyHandler, AccelHandler, GestureHandler, DoubleTapHandler])"

primrec onEnter :: "nat \<Rightarrow> nat \<Rightarrow> scene \<Rightarrow> scene option" where
  "onEnter 0 n s = None"
| "onEnter (Suc k) n s =
     do { x \<leftarrow> nodes s n;
          if m_running x then Some s
          else do { s1 \<leftarrow> each_child (onEnter k) n (record_events (add_handlers n x) s);
                    change_node (\<lambda>y. y\<lparr>m_running := True\<rparr>) n (record_events [ResumeActions n] s1) } }"

primrec onExit :: "nat \<Rightarrow> nat \<Rightarrow> scene \<Rightarrow> scene option" where
  "onExit 0 n s = None"
| "onExit (Suc k) n s =
     do { x \<leftarrow> nodes s n;
          if \<not> m_running x then Some s
          else do { s1 \<leftarrow> change_node (\<lambda>y. y\<lparr>m_running := False\<rparr>) n
                          (record_events (remove_handlers n x @ [PauseActions n]) s);
                    each_child (onExit k) n s1 } }"

primrec node_cleanup :: "nat \<Rightarrow> nat \<Rightarrow> scene \<Rightarrow> scene option" where
  "node_cleanup 0 n s = None"
| "node_cleanup (Suc k) n s =
     do { _ \<leftarrow> nodes s n; each_child (node_cleanup k) n (record_events [RemoveActions n] s) }"

section \<open>Removing children and destruction\<close>

text \<open>
  What \<open>removeChild\<close> and \<open>removeAllChildren\<close> do with a child before they release it;
  \<open>onDetachFromParent\<close> is empty.
\<close>

definition take_leave :: "nat \<Rightarrow> bool \<Rightarrow> nat \<Rightarrow> nat \<Rightarrow> scene \<Rightarrow> scene option" where
  "take_leave k clean n c s =
     do { x \<leftarrow> nodes s n;
          _ \<leftarrow> nodes s c;
          s1 \<leftarrow> (if m_running x then onExit k c s else Some s);
          s2 \<leftarrow> (if clean then node_cleanup k c s1 else Some s1);
          change_node (\<lambda>y. y\<lparr>m_parent := None\<rparr>) c s2 }"

text \<open>The loop of \<open>removeAllChildren\<close> from index \<open>i\<close> on; \<open>rel\<close> is \<open>wyObjectRelease\<close>.\<close>

partial_function (option) remove_from ::
  "(nat \<Rightarrow> scene \<Rightarrow> scene option) \<Rightarrow> nat \<Rightarrow> bool \<Rightarrow> nat \<Rightarrow> nat \<Rightarrow> scene \<Rightarrow> scene option" where
  "remove_from rel k clean n i s =
     Option.bind (nodes s n) (\<lambda>x.
       if i < num (m_children x)
       then Option.bind (wyArrayGet (m_children x) (int i)) (\<lambda>p.
              Option.bind p (\<lambda>c.
                Option.bind (take_leave k clean n c s) (\<lambda>s1.
                  Option.bind (rel c s1) (\<lambda>s2. remove_from rel k clean n (Suc i) s2))))
       else Some s)"

declare remove_from.simps [code]

definition remove_all :: "(nat \<Rightarrow> scene \<Rightarrow> scene option) \<Rightarrow> nat \<Rightarrow> bool \<Rightarrow> nat \<Rightarrow> scene \<Rightarrow> scene option" where
  "remove_all rel k clean n s =
     do { x \<leftarrow> nodes s n;
          if locked (m_children x) \<or> m_childrenChanging x then Some s
          else do { s1 \<leftarrow> change_node (\<lambda>y. y\<lparr>m_childrenChanging := True\<rparr>) n s;
                    s2 \<leftarrow> remove_from rel k clean n 0 s1;
                    y \<leftarrow> nodes s2 n;
                    a \<leftarrow> wyArrayClear (m_children y);
                    change_node (\<lambda>y. y\<lparr>m_children := a, m_childrenChanging := False\<rparr>) n s2 } }"

text \<open>\<open>release\<close>, which runs \<open>~wyNode\<close> when the count reaches 0 and frees the node.\<close>

primrec node_release :: "nat \<Rightarrow> nat \<Rightarrow> scene \<Rightarrow> scene option" where
  "node_release 0 n s = None"
| "node_release (Suc k) n s =
     do { x \<leftarrow> nodes s n;
          if m_retainCount x \<le> 0 then Some s
          else do { s1 \<leftarrow> change_node (\<lambda>y. y\<lparr>m_retainCount := m_retainCount y - 1\<rparr>) n s;
                    if m_retainCount x - 1 \<le> 0
                    then do { s2 \<leftarrow> change_node (\<lambda>y. y\<lparr>m_parent := None\<rparr>) n s1;
                              s3 \<leftarrow> remove_all (node_release k) k True n s2;
                              Some (s3\<lparr>nodes := (nodes s3)(n := None)\<rparr>) }
                    else Some s1 } }"

definition removeAllChildren :: "nat \<Rightarrow> bool \<Rightarrow> nat \<Rightarrow> scene \<Rightarrow> scene option" where
  "removeAllChildren k clean n s = remove_all (node_release k) k clean n s"

definition removeChild :: "nat \<Rightarrow> nat ptr \<Rightarrow> bool \<Rightarrow> nat \<Rightarrow> scene \<Rightarrow> scene option" where
  "removeChild k child clean n s =
     do { x \<leftarrow> nodes s n;
          if locked (m_children x) \<or> m_childrenChanging x then Some s
          else do { s1 \<leftarrow> change_node (\<lambda>y. y\<lparr>m_childrenChanging := True\<rparr>) n s;
                    index \<leftarrow> wyArrayIndexOf (m_children x) child None;
                    s4 \<leftarrow> (if index \<noteq> -1
                          then do { c \<leftarrow> child;
                                    s2 \<leftarrow> take_leave k clean n c s1;
                                    y \<leftarrow> nodes s2 n;
                                    (_, a) \<leftarrow> wyArrayDeleteIndex (m_children y) index;
                                    s3 \<leftarrow> change_node (\<lambda>y. y\<lparr>m_children := a\<rparr>) n s2;
                                    node_release k c s3 }
                          else Some s1);
                    change_node (\<lambda>y. y\<lparr>m_childrenChanging := False\<rparr>) n s4 } }"

definition removeChildLocked :: "nat \<Rightarrow> nat \<Rightarrow> bool \<Rightarrow> nat \<Rightarrow> scene \<Rightarrow> scene option" where
  "removeChildLocked k c clean n s =
     do { y \<leftarrow> nodes s c; if m_parent y = Some n then removeChild k (Some c) clean n s else Some s }"

section \<open>Searching\<close>

text \<open>\<open>wyArrayIndexOf\<close> with a locator, which reads the children.\<close>

function node_search :: "(node \<Rightarrow> bool) \<Rightarrow> scene \<Rightarrow> nat wyArray \<Rightarrow> nat \<Rightarrow> nat option" where
  "node_search locator s a i =
     (if i < num a
      then do { v \<leftarrow> rd (cells a) i; elt \<leftarrow> v; c \<leftarrow> elt; x \<leftarrow> nodes s c;
                if locator x then Some i else node_search locator s a (Suc i) }
      else Some (num a))"
  by pat_completeness auto
termination by (relation "measure (\<lambda>(_, _, a, i). num a - i)") auto

declare node_search.simps [simp del]

definition node_index :: "(node \<Rightarrow> bool) \<Rightarrow> scene \<Rightarrow> nat wyArray \<Rightarrow> int option" where
  "node_index locator s a = do { i \<leftarrow> node_search locator s a 0; Some (if i < num a then int i else -1) }"

definition getChildByTag :: "int \<Rightarrow> nat \<Rightarrow> scene \<Rightarrow> nat ptr option" where
  "getChildByTag tag n s =
     do { x \<leftarrow> nodes s n;
          index \<leftarrow> node_index (\<lambda>y. m_tag y = tag) s (m_children x);
          if index \<noteq> -1 then wyArrayGet (m_children x) index else Some None }"

text \<open>The loop over the children that a predicate accepts, from index \<open>i\<close> on.\<close>

function children_where :: "(node \<Rightarrow> bool) \<Rightarrow> scene \<Rightarrow> nat wyArray \<Rightarrow> nat \<Rightarrow> nat list option" where
  "children_where P s a i =
     (if i < num a
      then do { p \<leftarrow> wyArrayGet a (int i); c \<leftarrow> p; x \<leftarrow> nodes s c;
                cs \<leftarrow> children_where P s a (Suc i);
                Some (if P x then c # cs else cs) }
      else Some [])"
  by pat_completeness auto
termination by (relation "measure (\<lambda>(_, _, a, i). num a - i)") auto

declare children_where.simps [simp del]

definition getChildrenByTag :: "int \<Rightarrow> nat \<Rightarrow> scene \<Rightarrow> nat list option" where
  "getChildrenByTag tag n s =
     do { x \<leftarrow> nodes s n; children_where (\<lambda>y. m_tag y = tag) s (m_children x) 0 }"

definition removeChildByTagLocked :: "nat \<Rightarrow> int \<Rightarrow> bool \<Rightarrow> nat \<Rightarrow> scene \<Rightarrow> scene option" where
  "removeChildByTagLocked k tag clean n s =
     do { child \<leftarrow> getChildByTag tag n s;
          if child \<noteq> None then removeChild k child clean n s else Some s }"

fun remove_each :: "nat \<Rightarrow> bool \<Rightarrow> nat \<Rightarrow> nat list \<Rightarrow> scene \<Rightarrow> scene option" where
  "remove_each k clean n [] s = Some s"
| "remove_each k clean n (c # cs) s = do { s1 \<leftarrow> removeChild k (Some c) clean n s; remove_each k clean n cs s1 }"

definition removeChildrenByTagLocked :: "nat \<Rightarrow> int \<Rightarrow> bool \<Rightarrow> nat \<Rightarrow> scene \<Rightarrow> scene option" where
  "removeChildrenByTagLocked k tag clean n s =
     do { cs \<leftarrow> getChildrenByTag tag n s; remove_each k clean n cs s }"

section \<open>Adding and reordering children\<close>

definition insertChild :: "nat \<Rightarrow> int \<Rightarrow> nat \<Rightarrow> scene \<Rightarrow> (int \<times> scene) option" where
  "insertChild c z n s =
     do { x \<leftarrow> nodes s n;
          index \<leftarrow> node_index (\<lambda>y. z < m_zOrder y) s (m_children x);
          a \<leftarrow> (if index = -1 then wyArrayPush (m_children x) (Some c)
               else wyArrayInsert (m_children x) (Some c) index);
          s1 \<leftarrow> change_node (\<lambda>y. y\<lparr>m_children := a\<rparr>) n s;
          s2 \<leftarrow> change_node (\<lambda>y. y\<lparr>m_zOrder := z, m_parent := Some n\<rparr>) c s1;
          Some (index, s2) }"

text \<open>A child that has a parent already is only reported, with the class names of both.\<close>

definition addChild :: "nat \<Rightarrow> nat ptr \<Rightarrow> int \<Rightarrow> int \<Rightarrow> nat \<Rightarrow> scene \<Rightarrow> scene option" where
  "addChild k child z tag n s =
     (case child of
        None \<Rightarrow> Some s
      | Some c \<Rightarrow>
          do { y \<leftarrow> nodes s c;
               case m_parent y of
                 Some q \<Rightarrow> map_option (\<lambda>_. s) (nodes s q)
               | None \<Rightarrow>
                   do { x \<leftarrow> nodes s n;
                        if locked (m_children x) \<or> m_childrenChanging x then Some s
                        else do { s1 \<leftarrow> change_node (\<lambda>y. y\<lparr>m_childrenChanging := True\<rparr>) n s;
                                  (_, s2) \<leftarrow> insertChild c z n s1;
                                  s3 \<leftarrow> node_retain c s2;
                                  s4 \<leftarrow> (if tag \<noteq> invalid_tag then change_node (\<lambda>y. y\<lparr>m_tag := tag\<rparr>) c s3 else Some s3);
                                  x4 \<leftarrow> nodes s4 n;
                                  s5 \<leftarrow> (if m_running x4 then onEnter k c s4 else Some s4);
                                  change_node (\<lambda>y. y\<lparr>m_childrenChanging := False\<rparr>) n s5 } } })"

text \<open>When the node is not a child, \<open>reorderChild\<close> returns without resetting its flag.\<close>

definition reorderChild :: "nat \<Rightarrow> int \<Rightarrow> nat \<Rightarrow> scene \<Rightarrow> (int \<times> scene) option" where
  "reorderChild c z n s =
     do { x \<leftarrow> nodes s n;
          if locked (m_children x) \<or> m_childrenChanging x then Some (-1, s)
          else do { s1 \<leftarrow> change_node (\<lambda>y. y\<lparr>m_childrenChanging := True\<rparr>) n s;
                    index \<leftarrow> wyArrayIndexOf (m_children x) (Some c) None;
                    if index \<noteq> -1
                    then do { s2 \<leftarrow> change_node (\<lambda>y. y\<lparr>m_parent := None\<rparr>) c s1;
                              y \<leftarrow> nodes s2 n;
                              (_, a) \<leftarrow> wyArrayDeleteIndex (m_children y) index;
                              s3 \<leftarrow> change_node (\<lambda>y. y\<lparr>m_children := a\<rparr>) n s2;
                              (ret, s4) \<leftarrow> insertChild c z n s3;
                              s5 \<leftarrow> change_node (\<lambda>y. y\<lparr>m_childrenChanging := False\<rparr>) n s4;
                              Some (ret, s5) }
                    else Some (-1, s1) } }"

definition int_max :: int where
  "int_max = 2147483647"

text \<open>The z-orders of the children, which the two loops below fold.\<close>

definition child_orders :: "nat \<Rightarrow> scene \<Rightarrow> int list option" where
  "child_orders n s =
     do { x \<leftarrow> nodes s n;
          cs \<leftarrow> children_where (\<lambda>_. True) s (m_children x) 0;
          Some (map (\<lambda>c. m_zOrder (the (nodes s c))) cs) }"

definition bringToFront :: "nat \<Rightarrow> nat \<Rightarrow> scene \<Rightarrow> scene option" where
  "bringToFront c n s =
     do { zs \<leftarrow> child_orders n s; (_, s1) \<leftarrow> reorderChild c (fold max zs (- int_max)) n s; Some s1 }"

definition bringToBack :: "nat \<Rightarrow> nat \<Rightarrow> scene \<Rightarrow> scene option" where
  "bringToBack c n s =
     do { zs \<leftarrow> child_orders n s; (_, s1) \<leftarrow> reorderChild c (fold min zs int_max) n s; Some s1 }"

section \<open>Ancestors\<close>

text \<open>The loop over \<open>m_parent\<close> that stops at the first node without the property.\<close>

partial_function (option) all_from :: "(node \<Rightarrow> bool) \<Rightarrow> nat ptr \<Rightarrow> scene \<Rightarrow> bool option" where
  "all_from P p s =
     (case p of
        None \<Rightarrow> Some True
      | Some q \<Rightarrow> Option.bind (nodes s q) (\<lambda>x. if P x then all_from P (m_parent x) s else Some False))"

declare all_from.simps [code]

definition isVisibleFromRoot :: "nat \<Rightarrow> scene \<Rightarrow> bool option" where
  "isVisibleFromRoot n s =
     do { x \<leftarrow> nodes s n; if \<not> m_visible x then Some False else all_from m_visible (m_parent x) s }"

definition isEnabledFromRoot :: "nat \<Rightarrow> scene \<Rightarrow> bool option" where
  "isEnabledFromRoot n s =
     do { x \<leftarrow> nodes s n; if \<not> m_enabled x then Some False else all_from m_enabled (m_parent x) s }"

text \<open>Is \<open>n\<close> an ancestor of \<open>m\<close>?\<close>

partial_function (option) isAncestor :: "nat \<Rightarrow> nat \<Rightarrow> scene \<Rightarrow> bool option" where
  "isAncestor n m s =
     Option.bind (nodes s m) (\<lambda>x.
       case m_parent x of
         None \<Rightarrow> Some False
       | Some q \<Rightarrow> if q = n then Some True else isAncestor n q s)"

declare isAncestor.simps [code]

section \<open>Event handlers\<close>

definition setHandlerEnabled :: "handler \<Rightarrow> bool \<Rightarrow> nat \<Rightarrow> scene \<Rightarrow> scene option" where
  "setHandlerEnabled h enabled n s =
     do { x \<leftarrow> nodes s n;
          if handles x h \<noteq> enabled
          then do { s1 \<leftarrow> change_node (\<lambda>y. y\<lparr>handles := (handles y)(h := enabled)\<rparr>) n s;
                    if m_running x
                    then Some (record_events [if enabled then AddHandler h n (priority x h) else RemoveHandler h n] s1)
                    else Some s1 }
          else Some s }"

definition setHandlerPriority :: "handler \<Rightarrow> int \<Rightarrow> nat \<Rightarrow> scene \<Rightarrow> scene option" where
  "setHandlerPriority h p n s =
     do { x \<leftarrow> nodes s n;
          s1 \<leftarrow> change_node (\<lambda>y. y\<lparr>priority := (priority y)(h := p)\<rparr>) n s;
          if m_running x then Some (record_events [SetHandlerPriority h n p] s1) else Some s1 }"

section \<open>Drawing\<close>

text \<open>The first loop of \<open>visit\<close> stops at the first child that is not behind the node.\<close>

partial_function (option) visit_behind ::
  "(nat \<Rightarrow> scene \<Rightarrow> scene option) \<Rightarrow> nat \<Rightarrow> nat \<Rightarrow> scene \<Rightarrow> scene option" where
  "visit_behind f n i s =
     Option.bind (nodes s n) (\<lambda>x.
       if i < num (m_children x)
       then Option.bind (wyArrayGet (m_children x) (int i)) (\<lambda>p.
              Option.bind p (\<lambda>c.
                Option.bind (nodes s c) (\<lambda>y.
                  if m_zOrder y < 0 then Option.bind (f c s) (\<lambda>s1. visit_behind f n (Suc i) s1) else Some s)))
       else Some s)"

partial_function (option) visit_front ::
  "(nat \<Rightarrow> scene \<Rightarrow> scene option) \<Rightarrow> nat \<Rightarrow> nat \<Rightarrow> scene \<Rightarrow> scene option" where
  "visit_front f n i s =
     Option.bind (nodes s n) (\<lambda>x.
       if i < num (m_children x)
       then Option.bind (wyArrayGet (m_children x) (int i)) (\<lambda>p.
              Option.bind p (\<lambda>c.
                Option.bind (nodes s c) (\<lambda>y.
                  Option.bind (if 0 \<le> m_zOrder y then f c s else Some s) (\<lambda>s1. visit_front f n (Suc i) s1))))
       else Some s)"

declare visit_behind.simps [code] visit_front.simps [code]

primrec visit :: "nat \<Rightarrow> nat \<Rightarrow> scene \<Rightarrow> scene option" where
  "visit 0 n s = None"
| "visit (Suc k) n s =
     do { x \<leftarrow> nodes s n;
          if \<not> m_visible x then Some s
          else do { s1 \<leftarrow> visit_behind (visit k) n 0
                          (record_events ([PushMatrix, Transform n] @ (if m_hasClip x then [PushClip n] else [])) s);
                    s2 \<leftarrow> visit_front (visit k) n 0 (record_events [Draw n] s1);
                    y \<leftarrow> nodes s2 n;
                    Some (record_events ((if m_hasClip y then [PopClip] else []) @ [PopMatrix]) s2) } }"

section \<open>The calls of a client\<close>

datatype node_call =
    NodeNew
  | NodeRetain nat
  | NodeRelease nat
  | AddChild nat "nat ptr" int int
  | RemoveChild nat "nat ptr" bool
  | RemoveChildLocked nat nat bool
  | RemoveChildByTag nat int bool
  | RemoveChildrenByTag nat int bool
  | RemoveAllChildren nat bool
  | ReorderChild nat nat int
  | BringToFront nat nat
  | BringToBack nat nat
  | Enter nat
  | Exit nat
  | EnableHandler nat handler bool
  | SetPriority nat handler int
  | SetVisible nat bool
  | SetEnabled nat bool
  | SetTag nat int
  | SetClip nat
  | Visit nat

fun node_step :: "nat \<Rightarrow> node_call \<Rightarrow> scene \<Rightarrow> scene option" where
  "node_step k NodeNew s = wyNode_new (s\<lparr>holds := (holds s)(fresh s := 1)\<rparr>)"
| "node_step k (NodeRetain n) s = node_retain n (s\<lparr>holds := (holds s)(n := Suc (holds s n))\<rparr>)"
| "node_step k (NodeRelease n) s = node_release k n (s\<lparr>holds := (holds s)(n := holds s n - 1)\<rparr>)"
| "node_step k (AddChild n child z tag) s = addChild k child z tag n s"
| "node_step k (RemoveChild n child clean) s = removeChild k child clean n s"
| "node_step k (RemoveChildLocked n c clean) s = removeChildLocked k c clean n s"
| "node_step k (RemoveChildByTag n tag clean) s = removeChildByTagLocked k tag clean n s"
| "node_step k (RemoveChildrenByTag n tag clean) s = removeChildrenByTagLocked k tag clean n s"
| "node_step k (RemoveAllChildren n clean) s = removeAllChildren k clean n s"
| "node_step k (ReorderChild n c z) s = map_option snd (reorderChild c z n s)"
| "node_step k (BringToFront n c) s = bringToFront c n s"
| "node_step k (BringToBack n c) s = bringToBack c n s"
| "node_step k (Enter n) s = onEnter k n s"
| "node_step k (Exit n) s = onExit k n s"
| "node_step k (EnableHandler n h b) s = setHandlerEnabled h b n s"
| "node_step k (SetPriority n h p) s = setHandlerPriority h p n s"
| "node_step k (SetVisible n b) s = change_node (\<lambda>x. x\<lparr>m_visible := b\<rparr>) n s"
| "node_step k (SetEnabled n b) s = change_node (\<lambda>x. x\<lparr>m_enabled := b\<rparr>) n s"
| "node_step k (SetTag n t) s = change_node (\<lambda>x. x\<lparr>m_tag := t\<rparr>) n s"
| "node_step k (SetClip n) s = change_node (\<lambda>x. x\<lparr>m_hasClip := True\<rparr>) n s"
| "node_step k (Visit n) s = visit k n s"

fun node_steps :: "nat \<Rightarrow> node_call list \<Rightarrow> scene \<Rightarrow> scene option" where
  "node_steps k [] s = Some s"
| "node_steps k (c # cs) s = do { s1 \<leftarrow> node_step k c s; node_steps k cs s1 }"

end
