(* ===== verification/Wy_Node_Walk.thy ===== *)
theory Wy_Node_Walk imports Wy_Node begin

text \<open>
  Walks over the tree of nodes: what \<open>onEnter\<close>, \<open>onExit\<close> and \<open>cleanup\<close> do to the descendants of a node.
\<close>

section \<open>Descendants\<close>

text \<open>The abstract tree: the list of children of every node.\<close>

definition edges :: "(nat \<Rightarrow> nat list) \<Rightarrow> (nat \<times> nat) set" where
  "edges K = {(n, c). c \<in> set (K n)}"

definition desc :: "(nat \<Rightarrow> nat list) \<Rightarrow> nat \<Rightarrow> nat set" where
  "desc K n = {m. (n, m) \<in> (edges K)\<^sup>*}"

lemma desc_self [simp]: "n \<in> desc K n"
  by (simp add: desc_def)

lemma desc_unfold: "desc K n = insert n (\<Union>c\<in>set (K n). desc K c)"
  by (auto simp: desc_def edges_def elim: converse_rtranclE intro: converse_rtrancl_into_rtrancl)

lemma desc_trans: "m \<in> desc K n \<Longrightarrow> desc K m \<subseteq> desc K n"
  by (auto simp: desc_def intro: rtrancl_trans)

lemma desc_child: "c \<in> set (K m) \<Longrightarrow> m \<in> desc K n \<Longrightarrow> c \<in> desc K n"
  by (auto simp: desc_def edges_def intro: rtrancl_into_rtrancl)

lemma desc_acyclic: "acyclic (edges K) \<Longrightarrow> c \<in> set (K n) \<Longrightarrow> n \<notin> desc K c"
  by (metis (mono_tags, lifting) acyclic_def case_prodI desc_def edges_def mem_Collect_eq rtrancl_into_trancl2)

lemma desc_mono: "(\<And>m. set (K m) \<subseteq> set (L m)) \<Longrightarrow> desc K n \<subseteq> desc L n"
  unfolding desc_def edges_def by (auto elim!: rtrancl_mono [THEN subsetD, rotated])

lemma desc_cong:
  assumes "\<And>m. m \<in> desc K n \<Longrightarrow> L m = K m"
  shows "desc L n = desc K n"
proof -
  have sub: "desc L n \<subseteq> desc K n"
  proof
    fix m assume "m \<in> desc L n"
    then have "(n, m) \<in> (edges L)\<^sup>*" by (simp add: desc_def)
    then show "m \<in> desc K n"
      by (induction rule: rtrancl_induct) (use assms desc_child in \<open>auto simp: edges_def\<close>)
  qed
  have "(n, m) \<in> (edges L)\<^sup>*" if "(n, m) \<in> (edges K)\<^sup>*" for m
    using that
  proof (induction rule: rtrancl_induct)
    case (step m c)
    then have "(m, c) \<in> edges L" using assms [of m] by (simp add: desc_def edges_def)
    then show ?case using step.IH by (rule rtrancl_into_rtrancl [rotated])
  qed simp
  then show ?thesis using sub by (auto simp: desc_def)
qed

lemma card_desc_child:
  assumes "acyclic (edges K)" "finite (desc K n)" "c \<in> set (K n)"
  shows "card (desc K c) < card (desc K n)"
proof (rule psubset_card_mono [OF assms(2)])
  show "desc K c \<subset> desc K n" using desc_acyclic [OF assms(1,3)] desc_unfold [of K n] assms(3) by auto
qed

section \<open>Iterating over the children\<close>

definition set_children :: "nat \<Rightarrow> nat wyArray \<Rightarrow> scene \<Rightarrow> scene" where
  "set_children n a s = s\<lparr>nodes := (nodes s)(n \<mapsto> (the (nodes s n))\<lparr>m_children := a\<rparr>)\<rparr>"

lemma change_set_children:
  "nodes s n \<noteq> None \<Longrightarrow> change_node (\<lambda>y. y\<lparr>m_children := a\<rparr>) n s = Some (set_children n a s)"
  by (auto simp: change_node_def set_children_def)

lemma set_children_twice [simp]: "set_children n a (set_children n b s) = set_children n a s"
  by (simp add: set_children_def)

lemma set_children_same: "nodes s n = Some x \<Longrightarrow> set_children n (m_children x) s = s"
  by (simp add: set_children_def fun_upd_idem)

lemma nodes_set_children [simp]:
  "m \<noteq> n \<Longrightarrow> nodes (set_children n a s) m = nodes s m"
  "nodes s n = Some x \<Longrightarrow> nodes (set_children n a s) n = Some (x\<lparr>m_children := a\<rparr>)"
  by (simp_all add: set_children_def)

lemma events_set_children [simp]: "events (set_children n a s) = events s"
  "fresh (set_children n a s) = fresh s" "holds (set_children n a s) = holds s"
  by (simp_all add: set_children_def)

lemma each_from_rule:
  assumes "array_ok a" "i \<le> num a" "P i s"
    "\<And>j t. i \<le> j \<Longrightarrow> j < num a \<Longrightarrow> P j t \<Longrightarrow> \<exists>t'. f a (elems a ! j) j t = Some (a, t', True) \<and> P (Suc j) t'"
  shows "\<exists>t. each_from f i a s = Some (a, t) \<and> P (num a) t"
  using assms(2-)
proof (induction "num a - i" arbitrary: i s)
  case 0
  then show ?case by (simp add: each_from.simps)
next
  case (Suc d)
  then obtain t' where "f a (elems a ! i) i s = Some (a, t', True)" "P (Suc i) t'" by (metis le_refl zero_less_Suc zero_less_diff)
  moreover have "\<exists>t. each_from f (Suc i) a t' = Some (a, t) \<and> P (num a) t"
    by (rule Suc.hyps(1)) (use Suc.hyps(2) Suc.prems calculation(2) in auto)
  ultimately show ?case using Suc.hyps(2) cell_elems [OF assms(1), of i] by (subst each_from.simps) auto
qed

lemma unlocked_same: "\<not> locked a \<Longrightarrow> a\<lparr>locked := False\<rparr> = a"
  by (cases a) simp

lemma each_child_rule:
  assumes x: "nodes s n = Some x" "array_ok (m_children x)" "\<not> locked (m_children x)" "elems (m_children x) = map Some cs"
    and Q0: "Q 0 s"
    and step: "\<And>i t. i < length cs \<Longrightarrow> Q i t \<Longrightarrow> nodes t n \<noteq> None \<Longrightarrow>
      \<exists>t' y. f (cs ! i) (set_children n ((m_children x)\<lparr>locked := True\<rparr>) t) = Some t' \<and> Q (Suc i) t' \<and>
        nodes t' n = Some y \<and> m_children y = (m_children x)\<lparr>locked := True\<rparr>"
  shows "\<exists>t. Q (length cs) t \<and> nodes t n \<noteq> None \<and> each_child f n s = Some (set_children n (m_children x) t)"
proof -
  let ?a = "(m_children x)\<lparr>locked := True\<rparr>"
  have a: "array_ok ?a" "elems ?a = map Some cs" "num ?a = length cs"
    using x length_elems [of "m_children x"] by simp_all
  have "\<exists>t. each_from (child_iterator f n) 0 ?a s = Some (?a, t) \<and> (Q (num ?a) t \<and> nodes t n \<noteq> None)"
  proof (rule each_from_rule [OF a(1)])
    fix j t assume j: "j < num ?a" "Q j t \<and> nodes t n \<noteq> None"
    then obtain t' y where "f (cs ! j) (set_children n ?a t) = Some t'" "Q (Suc j) t'" "nodes t' n = Some y" "m_children y = ?a"
      using step [of j t] a by auto
    then show "\<exists>t'. child_iterator f n ?a (elems ?a ! j) j t = Some (?a, t', True) \<and> Q (Suc j) t' \<and> nodes t' n \<noteq> None"
      using j a by (simp add: child_iterator_def change_set_children)
  qed (use x Q0 in simp_all)
  then obtain t where t: "Q (length cs) t" "nodes t n \<noteq> None" "each_from (child_iterator f n) 0 ?a s = Some (?a, t)"
    using a by auto
  then have "each_child f n s = Some (set_children n ((m_children x)\<lparr>locked := False\<rparr>) t)"
    using x by (simp add: each_child_def wyArrayEach_def change_set_children)
  then show ?thesis using t unfolding unlocked_same [OF x(3)] by blast
qed

section \<open>Handlers registered\<close>

fun register :: "(handler \<times> nat) set \<Rightarrow> node_event \<Rightarrow> (handler \<times> nat) set" where
  "register R (AddHandler h n p) = insert (h, n) R"
| "register R (RemoveHandler h n) = R - {(h, n)}"
| "register R _ = R"

definition registered :: "node_event list \<Rightarrow> (handler \<times> nat) set" where
  "registered es = foldl register {} es"

lemma registered_append: "registered (es @ fs) = foldl register (registered es) fs"
  by (simp add: registered_def)

lemma register_add_handlers: "foldl register R (add_handlers n x) = R \<union> {(h, n) |h. handles x h}"
proof -
  have "foldl register R (map (\<lambda>h. AddHandler h n (priority x h)) hs) = R \<union> {(h, n) |h. h \<in> set hs}" for hs R
    by (induction hs arbitrary: R) auto
  moreover have "h \<in> set [TouchHandler, KeyHandler, GestureHandler, DoubleTapHandler, AccelHandler]" for h by (cases h) auto
  ultimately show ?thesis by (simp only: add_handlers_def set_filter) blast
qed

lemma register_remove_handlers: "foldl register R (remove_handlers n x) = R - {(h, n) |h. handles x h}"
proof -
  have "foldl register R (map (\<lambda>h. RemoveHandler h n) hs) = R - {(h, n) |h. h \<in> set hs}" for hs R
    by (induction hs arbitrary: R) auto
  moreover have "h \<in> set [TouchHandler, KeyHandler, AccelHandler, GestureHandler, DoubleTapHandler]" for h by (cases h) auto
  ultimately show ?thesis by (simp only: remove_handlers_def set_filter) blast
qed

section \<open>Switching a subtree on or off\<close>

text \<open>The nodes of \<open>D\<close> are running or not, with their handlers, and nothing else is changed.\<close>

definition switched :: "bool \<Rightarrow> nat set \<Rightarrow> scene \<Rightarrow> scene \<Rightarrow> bool" where
  "switched b D s t \<longleftrightarrow>
     fresh t = fresh s \<and> holds t = holds s \<and>
     (\<forall>m. nodes t m = (if m \<in> D then map_option (m_running_update (\<lambda>_. b)) (nodes s m) else nodes s m)) \<and>
     (\<forall>h m. (h, m) \<in> registered (events t) \<longleftrightarrow>
        (if m \<in> D \<and> (\<exists>x. nodes s m = Some x \<and> m_running x \<noteq> b \<and> handles x h) then b
         else (h, m) \<in> registered (events s)))"

lemma switched_none: "switched b {} s s"
  by (simp add: switched_def)

lemma switched_trans:
  assumes "switched b D s t" "switched b E t u"
  shows "switched b (D \<union> E) s u"
  using assms by (auto simp: switched_def map_option_case split: option.splits if_splits)

lemma switched_set_children:
  assumes "switched b D s t" "n \<notin> D" "nodes s n \<noteq> None"
  shows "switched b D (set_children n a s) (set_children n a t)"
  using assms unfolding switched_def by (auto simp: set_children_def)

text \<open>The subtree below \<open>n\<close> as the walk finds it: where a node has the state, so have its children.\<close>

definition walkable :: "(nat \<Rightarrow> nat list) \<Rightarrow> bool \<Rightarrow> scene \<Rightarrow> nat \<Rightarrow> bool" where
  "walkable K b s n \<longleftrightarrow>
     (\<forall>m\<in>desc K n. \<exists>x. nodes s m = Some x \<and> array_ok (m_children x) \<and> \<not> locked (m_children x) \<and>
        elems (m_children x) = map Some (K m) \<and>
        (m_running x = b \<longrightarrow> (\<forall>c\<in>set (K m). \<exists>y. nodes s c = Some y \<and> m_running y = b)))"

lemma walkable_node:
  assumes "walkable K b s n"
  obtains x where "nodes s n = Some x" "array_ok (m_children x)" "\<not> locked (m_children x)" "elems (m_children x) = map Some (K n)"
  using assms desc_self [of n K] unfolding walkable_def by blast

lemma walkable_child: "walkable K b s n \<Longrightarrow> c \<in> set (K n) \<Longrightarrow> walkable K b s c"
  unfolding walkable_def using desc_unfold [of K n] by blast

lemma walkable_on:
  assumes "walkable K b s n" "nodes s n = Some x" "m_running x = b" "m \<in> desc K n"
  shows "\<exists>y. nodes s m = Some y \<and> m_running y = b"
proof -
  have "(n, m) \<in> (edges K)\<^sup>*" using assms(4) by (simp add: desc_def)
  then show ?thesis
  proof (induction rule: rtrancl_induct)
    case base
    then show ?case using assms(2,3) by simp
  next
    case (step m c)
    then have "m \<in> desc K n" "c \<in> set (K m)" by (auto simp: desc_def edges_def)
    then show ?case using assms(1) step.IH unfolding walkable_def by fastforce
  qed
qed

lemma walkable_done:
  assumes "walkable K b s n" "nodes s n = Some x" "m_running x = b"
  shows "switched b (desc K n) s s"
  using walkable_on [OF assms] by (fastforce simp: switched_def map_option_case split: option.splits)

lemma walkable_switched:
  assumes "walkable K b s n" "switched b D s t" "\<And>m. m \<in> D \<Longrightarrow> set (K m) \<subseteq> D"
  shows "walkable K b t n"
  unfolding walkable_def
proof
  fix m assume m: "m \<in> desc K n"
  then obtain x where x: "nodes s m = Some x" "array_ok (m_children x)" "\<not> locked (m_children x)"
      "elems (m_children x) = map Some (K m)" "m_running x = b \<longrightarrow> (\<forall>c\<in>set (K m). \<exists>y. nodes s c = Some y \<and> m_running y = b)"
    using assms(1) unfolding walkable_def by blast
  have nt: "nodes t i = (if i \<in> D then map_option (m_running_update (\<lambda>_. b)) (nodes s i) else nodes s i)" for i
    using assms(2) by (simp add: switched_def)
  have "\<exists>y. nodes t c = Some y \<and> m_running y = b" if c: "c \<in> set (K m)" "m \<in> D \<or> m_running x = b" for c
  proof -
    obtain y where y: "nodes s c = Some y"
      using assms(1) desc_child [OF c(1) m] unfolding walkable_def by blast
    then show ?thesis using c x nt [of c] assms(3) [of m] by auto
  qed
  then show "\<exists>x. nodes t m = Some x \<and> array_ok (m_children x) \<and> \<not> locked (m_children x) \<and>
      elems (m_children x) = map Some (K m) \<and>
      (m_running x = b \<longrightarrow> (\<forall>c\<in>set (K m). \<exists>y. nodes t c = Some y \<and> m_running y = b))"
    using x nt [of m] by (cases "m \<in> D") auto
qed

lemma walkable_cong:
  assumes "walkable K b s c" "\<And>m. m \<in> desc K c \<Longrightarrow> nodes t m = nodes s m"
  shows "walkable K b t c"
  using assms desc_child [of _ K _ c] unfolding walkable_def by (metis (no_types, lifting))

text \<open>The loop over the children when each call switches the subtree of its child.\<close>

lemma each_child_switched:
  assumes x: "nodes s n = Some x" "array_ok (m_children x)" "\<not> locked (m_children x)" "elems (m_children x) = map Some (K n)"
    and W: "\<And>c. c \<in> set (K n) \<Longrightarrow> walkable K b s c" and ac: "acyclic (edges K)"
    and f: "\<And>c t. c \<in> set (K n) \<Longrightarrow> walkable K b t c \<Longrightarrow> \<exists>t'. f c t = Some t' \<and> switched b (D c) t t'"
    and D: "\<And>c. c \<in> set (K n) \<Longrightarrow> D c \<subseteq> desc K c" "\<And>c m. c \<in> set (K n) \<Longrightarrow> m \<in> D c \<Longrightarrow> set (K m) \<subseteq> D c"
  shows "\<exists>t. each_child f n s = Some t \<and> switched b (\<Union>c\<in>set (K n). D c) s t"
proof -
  let ?a = "(m_children x)\<lparr>locked := True\<rparr>" and ?U = "\<lambda>i. \<Union>c\<in>set (take i (K n)). D c"
  let ?home = "set_children n (m_children x)"
  define Q where "Q i t \<longleftrightarrow> nodes t n \<noteq> None \<and> switched b (?U i) s (?home t)" for i t
  have out: "n \<notin> desc K c" if "c \<in> set (K n)" for c using desc_acyclic [OF ac that] .
  then have outD: "n \<notin> D c" if "c \<in> set (K n)" for c using D(1) that by blast
  have "\<exists>t. Q (length (K n)) t \<and> nodes t n \<noteq> None \<and> each_child f n s = Some (?home t)"
  proof (rule each_child_rule [OF x])
    show "Q 0 s" using x by (simp add: Q_def set_children_same switched_none)
  next
    fix i t assume i: "i < length (K n)" and q: "Q i t" "nodes t n \<noteq> None"
    let ?c = "K n ! i" and ?t = "set_children n ?a t"
    have c: "?c \<in> set (K n)" using i by simp
    have "walkable K b (?home t) ?c" using W [OF c]
    proof (rule walkable_switched)
      show "switched b (?U i) s (?home t)" using q by (simp add: Q_def)
    next
      fix m assume "m \<in> ?U i"
      then obtain c where "c \<in> set (take i (K n))" "m \<in> D c" by blast
      then show "set (K m) \<subseteq> ?U i" using D(2) [of c m] set_take_subset [of i "K n"] by blast
    qed
    then have "walkable K b ?t ?c"
      by (rule walkable_cong) (use out [OF c] q in \<open>auto simp: set_children_def\<close>)
    then obtain t' where t': "f ?c ?t = Some t'" "switched b (D ?c) ?t t'" using f [OF c] by blast
    then have n': "nodes t' n = nodes ?t n" using outD [OF c] by (simp add: switched_def)
    have "switched b (D ?c) (?home ?t) (?home t')"
      using switched_set_children [OF t'(2) outD [OF c], of "m_children x"] q by (auto simp: set_children_def)
    then have "switched b (?U i \<union> D ?c) s (?home t')" using q switched_trans [of b "?U i" s "?home t"] by (simp add: Q_def)
    moreover have "?U i \<union> D ?c = ?U (Suc i)" using i by (auto simp: take_Suc_conv_app_nth)
    ultimately have "Q (Suc i) t'" using n' q by (auto simp: Q_def set_children_def)
    then show "\<exists>t' y. f ?c ?t = Some t' \<and> Q (Suc i) t' \<and> nodes t' n = Some y \<and> m_children y = ?a"
      using t' n' q by (auto simp: set_children_def)
  qed
  then show ?thesis by (auto simp: Q_def)
qed

lemma desc_split: "{n} \<union> (\<Union>c\<in>set (K n). desc K c) = desc K n"
  using desc_unfold [of K n] by auto

lemma desc_fuel:
  assumes "acyclic (edges K)" "finite (desc K n)" "card (desc K n) \<le> Suc k" "c \<in> set (K n)"
  shows "finite (desc K c)" "card (desc K c) \<le> k"
proof -
  have "desc K c \<subseteq> desc K n" using desc_trans [of c K n] desc_child [of c K n n] assms(4) by simp
  then show "finite (desc K c)" "card (desc K c) \<le> k"
    using card_desc_child [OF assms(1,2,4)] assms(2,3) finite_subset by auto
qed

lemma card_desc_pos: "finite (desc K n) \<Longrightarrow> card (desc K n) \<noteq> 0"
  using desc_self [of n K] by (auto simp only: card_0_eq)

lemma onExit_switched:
  assumes "walkable K False s n" "acyclic (edges K)" "finite (desc K n)" "card (desc K n) \<le> k"
  shows "\<exists>t. onExit k n s = Some t \<and> switched False (desc K n) s t"
  using assms
proof (induction k arbitrary: n s)
  case 0
  then show ?case using card_desc_pos [of K n] by simp
next
  case (Suc k)
  obtain x where x: "nodes s n = Some x" "array_ok (m_children x)" "\<not> locked (m_children x)" "elems (m_children x) = map Some (K n)"
    using Suc.prems(1) by (rule walkable_node)
  show ?case
  proof (cases "m_running x")
    case False
    then have "switched False (desc K n) s s" using walkable_done [OF Suc.prems(1) x(1)] by simp
    then show ?thesis using False x by simp
  next
    case True
    let ?s1 = "(record_events (remove_handlers n x @ [PauseActions n]) s)\<lparr>nodes := (nodes s)(n \<mapsto> x\<lparr>m_running := False\<rparr>)\<rparr>"
    have sw: "switched False {n} s ?s1"
      using x(1) True by (auto simp: switched_def record_events_def registered_append register_remove_handlers)
    have "\<exists>t. each_child (onExit k) n ?s1 = Some t \<and> switched False (\<Union>c\<in>set (K n). desc K c) ?s1 t"
    proof (rule each_child_switched [where D = "desc K", OF _ _ _ _ _ Suc.prems(2)])
      show "nodes ?s1 n = Some (x\<lparr>m_running := False\<rparr>)" by simp
    next
      fix c assume c: "c \<in> set (K n)"
      show "walkable K False ?s1 c"
        by (rule walkable_cong [OF walkable_child [OF Suc.prems(1) c]]) (use desc_acyclic [OF Suc.prems(2) c] in auto)
    next
      fix c t assume "c \<in> set (K n)" "walkable K False t c"
      then show "\<exists>t'. onExit k c t = Some t' \<and> switched False (desc K c) t t'"
        using Suc.IH Suc.prems(2) desc_fuel [OF Suc.prems(2-4)] by blast
    qed (use x in \<open>auto intro: desc_child\<close>)
    then obtain t where t: "each_child (onExit k) n ?s1 = Some t" "switched False (\<Union>c\<in>set (K n). desc K c) ?s1 t" by blast
    then have "switched False (desc K n) s t" using switched_trans [OF sw t(2)] by (simp only: desc_split)
    then show ?thesis using t(1) x(1) True by (simp add: change_node_def record_events_def)
  qed
qed

lemma onEnter_switched:
  assumes "walkable K True s n" "acyclic (edges K)" "finite (desc K n)" "card (desc K n) \<le> k"
  shows "\<exists>t. onEnter k n s = Some t \<and> switched True (desc K n) s t"
  using assms
proof (induction k arbitrary: n s)
  case 0
  then show ?case using card_desc_pos [of K n] by simp
next
  case (Suc k)
  obtain x where x: "nodes s n = Some x" "array_ok (m_children x)" "\<not> locked (m_children x)" "elems (m_children x) = map Some (K n)"
    using Suc.prems(1) by (rule walkable_node)
  show ?case
  proof (cases "m_running x")
    case True
    then have "switched True (desc K n) s s" using walkable_done [OF Suc.prems(1) x(1)] by simp
    then show ?thesis using True x by simp
  next
    case False
    let ?s1 = "record_events (add_handlers n x) s" and ?U = "\<Union>c\<in>set (K n). desc K c"
    have "\<exists>t. each_child (onEnter k) n ?s1 = Some t \<and> switched True ?U ?s1 t"
    proof (rule each_child_switched [where D = "desc K", OF _ _ _ _ _ Suc.prems(2)])
      show "nodes ?s1 n = Some x" using x by (simp add: record_events_def)
    next
      fix c assume c: "c \<in> set (K n)"
      show "walkable K True ?s1 c"
        by (rule walkable_cong [OF walkable_child [OF Suc.prems(1) c]]) (simp add: record_events_def)
    next
      fix c t assume "c \<in> set (K n)" "walkable K True t c"
      then show "\<exists>t'. onEnter k c t = Some t' \<and> switched True (desc K c) t t'"
        using Suc.IH Suc.prems(2) desc_fuel [OF Suc.prems(2-4)] by blast
    qed (use x in \<open>auto intro: desc_child\<close>)
    then obtain t where t: "each_child (onEnter k) n ?s1 = Some t" "switched True ?U ?s1 t" by blast
    have n: "n \<notin> ?U" using desc_acyclic [OF Suc.prems(2)] by blast
    let ?t = "(record_events [ResumeActions n] t)\<lparr>nodes := (nodes t)(n \<mapsto> x\<lparr>m_running := True\<rparr>)\<rparr>"
    have "switched True ({n} \<union> ?U) s ?t"
      using t(2) x(1) n False
      by (auto simp: switched_def record_events_def registered_append register_add_handlers)
    then have "switched True (desc K n) s ?t" by (simp only: desc_split)
    then show ?thesis using t x(1) False n
      by (simp add: change_node_def record_events_def switched_def)
  qed
qed

lemma cleanup_switched:
  assumes "walkable K b s n" "acyclic (edges K)" "finite (desc K n)" "card (desc K n) \<le> k"
  shows "\<exists>t. node_cleanup k n s = Some t \<and> switched b {} s t"
  using assms
proof (induction k arbitrary: n s)
  case 0
  then show ?case using card_desc_pos [of K n] by simp
next
  case (Suc k)
  obtain x where x: "nodes s n = Some x" "array_ok (m_children x)" "\<not> locked (m_children x)" "elems (m_children x) = map Some (K n)"
    using Suc.prems(1) by (rule walkable_node)
  let ?s1 = "record_events [RemoveActions n] s"
  have sw: "switched b {} s ?s1" by (simp add: switched_def record_events_def registered_append)
  have "\<exists>t. each_child (node_cleanup k) n ?s1 = Some t \<and> switched b (\<Union>c\<in>set (K n). {}) ?s1 t"
  proof (rule each_child_switched [where D = "\<lambda>_. {}", OF _ _ _ _ _ Suc.prems(2)])
    show "nodes ?s1 n = Some x" using x by (simp add: record_events_def)
  next
    fix c assume c: "c \<in> set (K n)"
    show "walkable K b ?s1 c"
      by (rule walkable_cong [OF walkable_child [OF Suc.prems(1) c]]) (simp add: record_events_def)
  next
    fix c t assume "c \<in> set (K n)" "walkable K b t c"
    then show "\<exists>t'. node_cleanup k c t = Some t' \<and> switched b {} t t'"
      using Suc.IH Suc.prems(2) desc_fuel [OF Suc.prems(2-4)] by blast
  qed (use x in simp_all)
  then show ?case using x switched_trans [OF sw] by fastforce
qed

end
