(* ===== verification/Wy_Node_Forest.thy ===== *)
theory Wy_Node_Forest imports Wy_Node_Walk begin

text \<open>
  The forest of nodes: its invariant, and what releasing a node and taking children away do to it.
\<close>

section \<open>The invariant\<close>

definition order_of :: "scene \<Rightarrow> nat \<Rightarrow> int" where
  "order_of s c = m_zOrder (the (nodes s c))"

text \<open>The child list of a node: usable, and with its children in z-order.\<close>

definition list_fits :: "(nat \<Rightarrow> nat list) \<Rightarrow> scene \<Rightarrow> nat \<Rightarrow> node \<Rightarrow> bool" where
  "list_fits K s n x \<longleftrightarrow>
     0 < m_retainCount x \<and> array_ok (m_children x) \<and> \<not> locked (m_children x) \<and> \<not> m_childrenChanging x \<and>
     elems (m_children x) = map Some (K n) \<and> sorted (map (order_of s) (K n))"

text \<open>The references: those of \<open>h\<close> and that of the parent. A node runs exactly when its parent does.\<close>

definition node_fits :: "(nat \<Rightarrow> nat list) \<Rightarrow> (nat \<Rightarrow> nat) \<Rightarrow> scene \<Rightarrow> nat \<Rightarrow> node \<Rightarrow> bool" where
  "node_fits K h s n x \<longleftrightarrow>
     m_retainCount x = int (h n) + (if m_parent x = None then 0 else 1) \<and>
     (\<forall>p. m_parent x = Some p \<longrightarrow> n \<in> set (K p) \<and> (\<exists>y. nodes s p = Some y \<and> m_running y = m_running x))"

definition children_fit :: "(nat \<Rightarrow> nat list) \<Rightarrow> scene \<Rightarrow> bool" where
  "children_fit K s \<longleftrightarrow>
     acyclic (edges K) \<and>
     (\<forall>n. distinct (K n) \<and> (K n \<noteq> [] \<longrightarrow> nodes s n \<noteq> None) \<and>
        (\<forall>c\<in>set (K n). \<exists>y. nodes s c = Some y \<and> m_parent y = Some n))"

definition handlers_fit :: "scene \<Rightarrow> bool" where
  "handlers_fit s \<longleftrightarrow>
     (\<forall>h n. (h, n) \<in> registered (events s) \<longleftrightarrow> (\<exists>x. nodes s n = Some x \<and> m_running x \<and> handles x h))"

text \<open>The lists of the nodes in \<open>X\<close> are being taken apart.\<close>

definition forest :: "(nat \<Rightarrow> nat list) \<Rightarrow> (nat \<Rightarrow> nat) \<Rightarrow> nat set \<Rightarrow> scene \<Rightarrow> bool" where
  "forest K h X s \<longleftrightarrow>
     dom (nodes s) \<subseteq> {..<fresh s} \<and> children_fit K s \<and> handlers_fit s \<and>
     (\<forall>n x. nodes s n = Some x \<longrightarrow> node_fits K h s n x \<and> (n \<notin> X \<longrightarrow> list_fits K s n x))"

lemma forestD:
  assumes "forest K h X s"
  shows "dom (nodes s) \<subseteq> {..<fresh s}" "children_fit K s" "handlers_fit s"
    "nodes s n = Some x \<Longrightarrow> node_fits K h s n x" "nodes s n = Some x \<Longrightarrow> n \<notin> X \<Longrightarrow> list_fits K s n x"
  using assms by (auto simp: forest_def)

lemma forest_acyclic: "forest K h X s \<Longrightarrow> acyclic (edges K)"
  by (simp add: forest_def children_fit_def)

lemma forest_child:
  assumes "forest K h X s" "c \<in> set (K n)"
  obtains x y where "nodes s n = Some x" "nodes s c = Some y" "m_parent y = Some n" "m_running y = m_running x"
proof -
  have "children_fit K s" using assms(1) by (rule forestD)
  then obtain y where y: "nodes s c = Some y" "m_parent y = Some n" using assms(2) unfolding children_fit_def by blast
  have "node_fits K h s c y" using assms(1) y(1) by (rule forestD)
  then obtain x where "nodes s n = Some x" "m_running x = m_running y" using y(2) unfolding node_fits_def by blast
  then show ?thesis using that y by simp
qed

lemma forest_desc_alive:
  assumes "forest K h X s" "nodes s n \<noteq> None" "m \<in> desc K n"
  shows "nodes s m \<noteq> None"
proof -
  have "(n, m) \<in> (edges K)\<^sup>*" using assms(3) by (simp add: desc_def)
  then show ?thesis using assms(2)
    by (induction rule: rtrancl_induct) (auto simp: edges_def elim: forest_child [OF assms(1)])
qed

lemma forest_finite:
  assumes "forest K h X s" "nodes s n \<noteq> None"
  shows "finite (desc K n)" "card (desc K n) \<le> fresh s"
proof -
  have "desc K n \<subseteq> {..<fresh s}" using forest_desc_alive [OF assms] forestD(1) [OF assms(1)] by blast
  then show "finite (desc K n)" "card (desc K n) \<le> fresh s"
    using finite_subset card_mono [of "{..<fresh s}"] by auto
qed

lemma forest_parent_desc:
  assumes "forest K h X s" "m \<in> desc K c" "m \<noteq> c" "nodes s m = Some x" "m_parent x = Some p"
  shows "p \<in> desc K c"
proof -
  have "(c, m) \<in> (edges K)\<^sup>*" using assms(2) by (simp add: desc_def)
  then obtain q where "(c, q) \<in> (edges K)\<^sup>*" "m \<in> set (K q)" using assms(3) by (cases rule: rtranclE) (auto simp: edges_def)
  then show ?thesis using assms(4,5) by (auto simp: desc_def elim: forest_child [OF assms(1)])
qed

lemma forest_walkable:
  assumes "forest K h X s" "nodes s c = Some y" "desc K c \<inter> X = {}"
  shows "walkable K b s c"
  unfolding walkable_def
proof
  fix m assume m: "m \<in> desc K c"
  then obtain x where x: "nodes s m = Some x" using forest_desc_alive [OF assms(1), of c m] assms(2) by auto
  then have "list_fits K s m x" using forestD(5) [OF assms(1) x] m assms(3) by blast
  moreover have "\<exists>z. nodes s d = Some z \<and> m_running z = m_running x" if "d \<in> set (K m)" for d
    using forest_child [OF assms(1) that] x by (metis option.inject)
  ultimately show "\<exists>x. nodes s m = Some x \<and> array_ok (m_children x) \<and> \<not> locked (m_children x) \<and>
      elems (m_children x) = map Some (K m) \<and>
      (m_running x = b \<longrightarrow> (\<forall>c\<in>set (K m). \<exists>y. nodes s c = Some y \<and> m_running y = b))"
    using x by (fastforce simp: list_fits_def)
qed

section \<open>Changing one node\<close>

lemma forest_mono: "forest K h X s \<Longrightarrow> X \<subseteq> Y \<Longrightarrow> forest K h Y s"
  by (auto simp: forest_def)

lemma forest_back:
  assumes "forest K h (insert n X) s" "nodes s n = Some x" "list_fits K s n x"
  shows "forest K h X s"
  unfolding forest_def
proof (intro conjI allI impI)
  fix m z assume "nodes s m = Some z"
  then show "node_fits K h s m z" "m \<notin> X \<Longrightarrow> list_fits K s m z"
    using assms forestD(4,5) [OF assms(1)] by (cases "m = n"; simp)+
qed (use forestD(1-3) [OF assms(1)] in simp_all)

text \<open>Only the list of a node in \<open>X\<close>, its flags or its z-order is changed.\<close>

lemma forest_set:
  assumes F: "forest K h X s" and x: "nodes s n = Some x" "n \<in> X"
    and y: "m_retainCount y = m_retainCount x" "m_parent y = m_parent x" "m_running y = m_running x"
      "handles y = handles x" "m_zOrder y = m_zOrder x"
  shows "forest K h X (s\<lparr>nodes := (nodes s)(n \<mapsto> y)\<rparr>)"
proof -
  let ?t = "s\<lparr>nodes := (nodes s)(n \<mapsto> y)\<rparr>"
  have "order_of ?t = order_of s" using x(1) y(5) by (auto simp: order_of_def fun_eq_iff)
  then have "list_fits K ?t m z = list_fits K s m z" for m z by (simp add: list_fits_def)
  moreover have "node_fits K h ?t m z" if "node_fits K h s m z" for m z
    using that x(1) y(3) by (force simp: node_fits_def)
  moreover have "node_fits K h s n y" using forestD(4) [OF F x(1)] y by (simp add: node_fits_def)
  moreover have "children_fit K ?t" using forestD(2) [OF F] x(1) y(2) by (force simp: children_fit_def)
  moreover have "handlers_fit ?t" using forestD(3) [OF F] x(1) y(3,4) by (auto simp: handlers_fit_def)
  ultimately show ?thesis using F x unfolding forest_def by auto
qed

section \<open>A child leaves\<close>

lemma not_walking:
  assumes "walkable K b s c" "\<And>m x. m \<in> desc K c \<Longrightarrow> nodes s m = Some x \<Longrightarrow> \<not> m_running x"
  shows "walkable K True s c"
  using assms unfolding walkable_def by fastforce

lemma switched_dom:
  assumes "switched b D s t"
  shows "dom (nodes t) = dom (nodes s)"
proof -
  have "nodes t m = None \<longleftrightarrow> nodes s m = None" for m using assms by (auto simp: switched_def)
  then show ?thesis by (auto simp: dom_def)
qed

lemma take_leave_steps:
  assumes F: "forest K h X s" and c: "c \<in> set (K n)" "desc K c \<inter> X = {}" and k: "card (desc K c) \<le> k"
  shows "\<exists>s1 y. switched False (desc K c) s s1 \<and> nodes s1 c = Some y \<and>
    (\<exists>t. take_leave k clean n c s = Some t \<and> nodes t = (nodes s1)(c \<mapsto> y\<lparr>m_parent := None\<rparr>) \<and>
      fresh t = fresh s \<and> holds t = holds s \<and> registered (events t) = registered (events s1))"
proof -
  obtain x y where xy: "nodes s n = Some x" "nodes s c = Some y" "m_parent y = Some n" "m_running y = m_running x"
    using F c(1) by (rule forest_child)
  have W: "walkable K False s c" by (rule forest_walkable [OF F xy(2) c(2)])
  have ac: "acyclic (edges K)" and fin: "finite (desc K c)" using F xy by (auto intro: forest_acyclic forest_finite)
  have "\<exists>s1. (if m_running x then onExit k c s else Some s) = Some s1 \<and> switched False (desc K c) s s1"
    using onExit_switched [OF W ac fin k] walkable_done [OF W xy(2)] xy(4) by (cases "m_running x") simp_all
  then obtain s1 where s1: "(if m_running x then onExit k c s else Some s) = Some s1" "switched False (desc K c) s s1" by blast
  then have n1: "nodes s1 m = map_option (m_running_update (\<lambda>_. False)) (nodes s m)" if "m \<in> desc K c" for m
    using that by (simp add: switched_def)
  have "walkable K False s1 c" using W s1(2) by (rule walkable_switched) (auto intro: desc_child)
  then have "walkable K True s1 c" by (rule not_walking) (auto simp: n1)
  then obtain t where t: "node_cleanup k c s1 = Some t" "switched True {} s1 t"
    using cleanup_switched [OF _ ac fin k] by blast
  have eq: "nodes t = nodes s1" "fresh t = fresh s1" "holds t = holds s1" "registered (events t) = registered (events s1)"
    using t(2) by (auto simp: switched_def fun_eq_iff)
  obtain y1 where y1: "nodes s1 c = Some y1" using n1 [of c] xy(2) by simp
  let ?t = "t\<lparr>nodes := (nodes t)(c \<mapsto> y1\<lparr>m_parent := None\<rparr>)\<rparr>"
  let ?u = "s1\<lparr>nodes := (nodes s1)(c \<mapsto> y1\<lparr>m_parent := None\<rparr>)\<rparr>"
  have "fresh s1 = fresh s" "holds s1 = holds s" using s1(2) by (simp_all add: switched_def)
  moreover have "take_leave k clean n c s = Some (if clean then ?t else ?u)"
    using s1(1) t(1) xy(1,2) y1 eq(1) by (simp add: take_leave_def change_node_def)
  ultimately show ?thesis using s1(2) y1 eq
    by (intro exI [of _ s1] exI [of _ y1] conjI exI [of _ "if clean then ?t else ?u"]) simp_all
qed

lemma unlink_forest:
  assumes F: "forest K h X s" and c: "c \<in> set (K n)" "nodes s c = Some y" and n: "n \<in> X"
    and t: "nodes t = (nodes s)(c \<mapsto> y\<lparr>m_parent := None\<rparr>)" "fresh t = fresh s" "registered (events t) = registered (events s)"
  shows "forest (K(n := remove1 c (K n))) (h(c := Suc (h c))) X t"
proof -
  let ?K = "K(n := remove1 c (K n))"
  note ac = forest_acyclic [OF F] and ch = forestD(2) [OF F]
  have dist: "distinct (K m)" for m using ch by (simp add: children_fit_def)
  have par: "m_parent x = Some m" if "d \<in> set (K m)" "nodes s d = Some x" for d m x
    using forest_child [OF F that(1)] that(2) by (metis option.inject)
  have order: "order_of t = order_of s" using c(2) t(1) by (auto simp: fun_eq_iff order_of_def)
  have sub: "set (?K m) \<subseteq> set (K m)" for m using set_remove1_subset [of c "K n"] by auto
  have "children_fit ?K t"
    unfolding children_fit_def
  proof (intro conjI allI ballI impI)
    have "edges ?K \<subseteq> edges K" using sub by (auto simp: edges_def)
    then show "acyclic (edges ?K)" using ac by (rule acyclic_subset [rotated])
  next
    fix m show "distinct (?K m)" using dist by simp
  next
    fix m assume "?K m \<noteq> []"
    then have "K m \<noteq> []" by (auto split: if_splits)
    then show "nodes t m \<noteq> None" using ch by (simp add: children_fit_def t(1))
  next
    fix m d assume d: "d \<in> set (?K m)"
    then have "d \<in> set (K m)" using sub by blast
    then obtain x where x: "nodes s d = Some x" "m_parent x = Some m" using forest_child [OF F] by metis
    moreover have "d \<noteq> c" using d x c par [OF c] dist by (auto split: if_splits)
    ultimately show "\<exists>x. nodes t d = Some x \<and> m_parent x = Some m" by (auto simp: t(1))
  qed
  moreover have "node_fits ?K (h(c := Suc (h c))) t m z \<and> (m \<notin> X \<longrightarrow> list_fits ?K t m z)" if m: "nodes t m = Some z" for m z
  proof -
    obtain x where x: "nodes s m = Some x" "z = (if m = c then x\<lparr>m_parent := None\<rparr> else x)"
      using m c(2) by (auto simp: t(1) split: if_splits)
    have run: "\<exists>u. nodes t q = Some u \<and> m_running u = b" if "\<exists>u. nodes s q = Some u \<and> m_running u = b" for q b
      using that c(2) by (auto simp: t(1))
    have "node_fits ?K (h(c := Suc (h c))) t m z"
    proof (cases "m = c")
      case True
      then show ?thesis using forestD(4) [OF F c(2)] par [OF c] x c(2) by (simp add: node_fits_def)
    next
      case False
      then show ?thesis using forestD(4) [OF F x(1)] x(2) run by (auto simp: node_fits_def in_set_remove1)
    qed
    moreover have "list_fits ?K t m z" if "m \<notin> X"
      using forestD(5) [OF F x(1) that] x(2) that n by (auto simp: list_fits_def order)
    ultimately show ?thesis by blast
  qed
  moreover have "handlers_fit t" using forestD(3) [OF F] c(2) by (auto simp: handlers_fit_def t)
  moreover have "dom (nodes t) = dom (nodes s)" using c(2) by (auto simp: t(1))
  ultimately show ?thesis using forestD(1) [OF F] t(2) by (simp add: forest_def)
qed

text \<open>A whole tree enters or leaves the running state.\<close>

lemma switch_forest:
  assumes F: "forest K h X s" and c: "nodes s c = Some y" "m_parent y = None" and sw: "switched b (desc K c) s t"
  shows "forest K h X t"
proof -
  let ?on = "m_running_update (\<lambda>_. b)"
  have nt: "nodes t m = (if m \<in> desc K c then map_option ?on (nodes s m) else nodes s m)" for m
    using sw by (simp add: switched_def)
  have order: "order_of t = order_of s"
  proof
    fix m show "order_of t m = order_of s m"
      using forest_desc_alive [OF F, of c m] c(1) by (auto simp: order_of_def nt)
  qed
  have "children_fit K t"
    unfolding children_fit_def
  proof (intro conjI allI ballI impI)
    show "acyclic (edges K)" using F by (rule forest_acyclic)
    fix m show "distinct (K m)" using forestD(2) [OF F] by (simp add: children_fit_def)
    show "nodes t m \<noteq> None" if "K m \<noteq> []" using forestD(2) [OF F] that by (simp add: children_fit_def nt)
    fix d assume "d \<in> set (K m)"
    with F obtain z where "nodes s d = Some z" "m_parent z = Some m" by (rule forest_child)
    then show "\<exists>z. nodes t d = Some z \<and> m_parent z = Some m" by (simp add: nt)
  qed
  moreover have "node_fits K h t m z \<and> (m \<notin> X \<longrightarrow> list_fits K t m z)" if m: "nodes t m = Some z" for m z
  proof -
    obtain x where x: "nodes s m = Some x" "z = (if m \<in> desc K c then ?on x else x)" using m by (auto simp: nt split: if_splits)
    note f = forestD(4) [OF F x(1)]
    have "\<exists>u. nodes t p = Some u \<and> m_running u = m_running z" if p: "m_parent x = Some p" for p
    proof -
      obtain u where u: "m \<in> set (K p)" "nodes s p = Some u" "m_running u = m_running x" using f p unfolding node_fits_def by blast
      have "m \<noteq> c" using p x(1) c by auto
      then have "m \<in> desc K c \<longleftrightarrow> p \<in> desc K c" using forest_parent_desc [OF F _ _ x(1) p] desc_child [of m K p c] u(1) by blast
      then show ?thesis using u x(2) by (auto simp: nt)
    qed
    then show ?thesis using f forestD(5) [OF F x(1)] x(2) by (auto simp: node_fits_def list_fits_def order)
  qed
  moreover have "handlers_fit t" unfolding handlers_fit_def
  proof (intro allI)
    fix h m
    have r: "(h, m) \<in> registered (events t) \<longleftrightarrow>
        (if m \<in> desc K c \<and> (\<exists>x. nodes s m = Some x \<and> m_running x \<noteq> b \<and> handles x h) then b
         else (h, m) \<in> registered (events s))" using sw by (simp add: switched_def)
    show "(h, m) \<in> registered (events t) \<longleftrightarrow> (\<exists>x. nodes t m = Some x \<and> m_running x \<and> handles x h)"
      using forestD(3) [OF F] unfolding handlers_fit_def r by (cases b) (auto simp: nt)
  qed
  moreover have "dom (nodes t) = dom (nodes s)" by (rule switched_dom [OF sw])
  ultimately show ?thesis using forestD(1) [OF F] sw by (simp add: forest_def switched_def)
qed

lemma take_leave_ok:
  assumes F: "forest K h X s" and c: "c \<in> set (K n)" "desc K c \<inter> X = {}" and n: "n \<in> X" and k: "card (desc K c) \<le> k"
  shows "\<exists>t y. take_leave k clean n c s = Some t \<and> forest (K(n := remove1 c (K n))) (h(c := Suc (h c))) X t \<and>
    nodes t c = Some y \<and> m_parent y = None \<and> \<not> m_running y \<and>
    (\<forall>m. m \<notin> desc K c \<longrightarrow> nodes t m = nodes s m) \<and> dom (nodes t) = dom (nodes s) \<and> fresh t = fresh s \<and> holds t = holds s"
proof -
  obtain s1 y1 t where s1: "switched False (desc K c) s s1" "nodes s1 c = Some y1"
    and t: "take_leave k clean n c s = Some t" "nodes t = (nodes s1)(c \<mapsto> y1\<lparr>m_parent := None\<rparr>)"
      "fresh t = fresh s" "holds t = holds s" "registered (events t) = registered (events s1)"
    using take_leave_steps [OF F c k] by blast
  obtain y where y: "nodes s c = Some y" using F c(1) by (rule forest_child)
  have y1: "y1 = y\<lparr>m_running := False\<rparr>" using s1 y by (simp add: switched_def)
  let ?K = "K(n := remove1 c (K n))" and ?u = "s\<lparr>nodes := (nodes s)(c \<mapsto> y\<lparr>m_parent := None\<rparr>)\<rparr>"
  have u: "forest ?K (h(c := Suc (h c))) X ?u" by (rule unlink_forest [OF F c(1) y n]) simp_all
  have "desc ?K c = desc K c"
    by (rule desc_cong) (use desc_acyclic [OF forest_acyclic [OF F] c(1)] in auto)
  then have "switched False (desc ?K c) ?u t" using s1 t y y1 by (auto simp: switched_def)
  then have "forest ?K (h(c := Suc (h c))) X t" using switch_forest [OF u, of c "y\<lparr>m_parent := None\<rparr>" False t] by simp
  moreover have "nodes t m = nodes s m" if "m \<notin> desc K c" for m using that s1(1) t(2) by (auto simp: switched_def)
  moreover have "dom (nodes t) = dom (nodes s)" using switched_dom [OF s1(1)] s1(2) t(2) by auto
  ultimately show ?thesis using t y1 by auto
qed

section \<open>Releasing\<close>

definition surviving :: "(nat \<Rightarrow> nat list) \<Rightarrow> scene \<Rightarrow> nat \<Rightarrow> nat list" where
  "surviving K t n = (if nodes t n = None then [] else K n)"

lemma surviving_subset: "set (surviving K t n) \<subseteq> set (K n)"
  by (simp add: surviving_def)

lemma surviving_same:
  assumes "forest K h X s"
  shows "surviving K s = K"
proof
  fix n
  have "K n \<noteq> [] \<longrightarrow> nodes s n \<noteq> None" using forestD(2) [OF assms] unfolding children_fit_def by blast
  then show "surviving K s n = K n" by (auto simp: surviving_def)
qed

text \<open>What \<open>rel\<close> does with a reference to \<open>p\<close>, when the subtree of \<open>p\<close> has at most \<open>k\<close> nodes.\<close>

definition releases :: "(nat \<Rightarrow> scene \<Rightarrow> scene option) \<Rightarrow> nat \<Rightarrow> bool" where
  "releases rel k \<longleftrightarrow>
     (\<forall>K h X s p x. forest K (h(p := Suc (h p))) X s \<longrightarrow> nodes s p = Some x \<longrightarrow> desc K p \<inter> X = {} \<longrightarrow>
        (h p = 0 \<and> m_parent x = None \<longrightarrow> \<not> m_running x) \<longrightarrow> card (desc K p) \<le> k \<longrightarrow>
        (\<exists>t. rel p s = Some t \<and> forest (surviving K t) h X t \<and> (\<forall>m. m \<notin> desc K p \<longrightarrow> nodes t m = nodes s m) \<and>
           dom (nodes t) \<subseteq> dom (nodes s) \<and> fresh t = fresh s \<and> holds t = holds s))"

lemma releasesD:
  assumes "releases rel k" "forest K (h(p := Suc (h p))) X s" "nodes s p = Some x" "desc K p \<inter> X = {}"
    "h p = 0 \<Longrightarrow> m_parent x = None \<Longrightarrow> \<not> m_running x" "card (desc K p) \<le> k"
  obtains t where "rel p s = Some t" "forest (surviving K t) h X t" "\<And>m. m \<notin> desc K p \<Longrightarrow> nodes t m = nodes s m"
    "dom (nodes t) \<subseteq> dom (nodes s)" "fresh t = fresh s" "holds t = holds s"
  using assms unfolding releases_def by meson

lemma surviving_upd:
  assumes "dom (nodes t) \<subseteq> dom (nodes u)" "nodes u n \<noteq> None"
  shows "surviving ((surviving (K(n := xs)) u)(n := [])) t = surviving (K(n := [])) t"
  using assms by (auto simp: surviving_def fun_eq_iff)

lemma remove_from_ok:
  assumes rel: "releases rel k" and x: "nodes s n = Some x" "array_ok (m_children x)" "elems (m_children x) = map Some cs"
    and i: "i \<le> length cs" and n: "n \<in> X"
    and F: "forest K h X s" and K: "K n = drop i cs" and D: "desc K n \<inter> X = {n}"
    and k: "\<And>c. c \<in> set (K n) \<Longrightarrow> card (desc K c) \<le> k"
  shows "\<exists>t. remove_from rel k clean n i s = Some t \<and> forest (surviving (K(n := [])) t) h X t \<and>
    (\<forall>m. m \<notin> desc K n \<or> m = n \<longrightarrow> nodes t m = nodes s m) \<and> dom (nodes t) \<subseteq> dom (nodes s) \<and> fresh t = fresh s \<and> holds t = holds s"
  using x(1) i F K D k
proof (induction "length cs - i" arbitrary: i s K)
  case 0
  have len: "num (m_children x) = length cs" using x length_elems [of "m_children x"] by simp
  have "K(n := []) = K" using 0 by auto
  then have "surviving (K(n := [])) s = K" using surviving_same [OF 0(4)] by simp
  then show ?case using 0 len by (subst remove_from.simps) simp
next
  case (Suc d)
  have len: "num (m_children x) = length cs" using x length_elems [of "m_children x"] by simp
  let ?c = "cs ! i" and ?K = "K(n := drop (Suc i) cs)"
  have il: "i < length cs" and Kn: "K n = ?c # drop (Suc i) cs" using Suc.hyps(2) Suc.prems(4) by (simp_all add: Cons_nth_drop_Suc)
  have c: "?c \<in> set (K n)" using Kn by simp
  note ac = forest_acyclic [OF Suc.prems(3)]
  have cD: "desc K ?c \<subseteq> desc K n" "n \<notin> desc K ?c" using desc_unfold [of K n] c desc_acyclic [OF ac c] by auto
  then have "desc K ?c \<inter> X \<subseteq> (desc K n \<inter> X) - {n}" by blast
  then have cX: "desc K ?c \<inter> X = {}" using Suc.prems(5) by simp
  have rem: "remove1 ?c (K n) = drop (Suc i) cs" using Kn by simp
  obtain s1 y where s1: "take_leave k clean n ?c s = Some s1" "forest ?K (h(?c := Suc (h ?c))) X s1" "nodes s1 ?c = Some y"
      "m_parent y = None" "\<not> m_running y" "\<And>m. m \<notin> desc K ?c \<Longrightarrow> nodes s1 m = nodes s m"
      "dom (nodes s1) = dom (nodes s)" "fresh s1 = fresh s" "holds s1 = holds s"
    using take_leave_ok [OF Suc.prems(3) c cX n Suc.prems(6) [OF c], of clean] unfolding rem by blast
  have sub: "set (?K m) \<subseteq> set (K m)" for m using Kn by auto
  have Dc: "desc ?K ?c \<subseteq> desc K ?c" using sub by (rule desc_mono)
  have fin: "finite (desc K m)" if "nodes s m \<noteq> None" for m using Suc.prems(3) that by (rule forest_finite)
  have alive: "nodes s d \<noteq> None" if "d \<in> set (K n)" for d using forest_child [OF Suc.prems(3) that] by blast
  have cc: "card (desc ?K ?c) \<le> k" using card_mono [OF fin Dc] alive [OF c] Suc.prems(6) [OF c] by simp
  obtain s2 where s2: "rel ?c s1 = Some s2" "forest (surviving ?K s2) h X s2" "\<And>m. m \<notin> desc ?K ?c \<Longrightarrow> nodes s2 m = nodes s1 m"
      "dom (nodes s2) \<subseteq> dom (nodes s1)" "fresh s2 = fresh s1" "holds s2 = holds s1"
    by (rule releasesD [OF rel s1(2,3) _ _ cc]) (use Dc cX s1(5) in auto)
  let ?K2 = "surviving ?K s2"
  have "n \<notin> desc ?K ?c" using Dc cD(2) by blast
  then have n2: "nodes s2 n = Some x" using s2(3) s1(6) cD(2) Suc.prems(1) by simp
  have sub2: "set (?K2 m) \<subseteq> set (K m)" for m using surviving_subset [of ?K s2 m] sub [of m] by blast
  have D2: "desc ?K2 m \<subseteq> desc K m" for m using sub2 by (rule desc_mono)
  have K2n: "?K2 n = drop (Suc i) cs" using n2 by (simp add: surviving_def)
  have "\<exists>t. remove_from rel k clean n (Suc i) s2 = Some t \<and> forest (surviving (?K2(n := [])) t) h X t \<and>
      (\<forall>m. m \<notin> desc ?K2 n \<or> m = n \<longrightarrow> nodes t m = nodes s2 m) \<and> dom (nodes t) \<subseteq> dom (nodes s2) \<and> fresh t = fresh s2 \<and> holds t = holds s2"
  proof (rule Suc.hyps(1))
    show "desc ?K2 n \<inter> X = {n}" using D2 [of n] Suc.prems(5) n by auto
  next
    fix d assume "d \<in> set (?K2 n)"
    then have d: "d \<in> set (K n)" using sub2 by blast
    show "card (desc ?K2 d) \<le> k" using card_mono [OF fin D2, of d] alive [OF d] Suc.prems(6) [OF d] by simp
  qed (use n2 il s2(2) K2n Suc.hyps(2) in simp_all)
  then obtain t where t: "remove_from rel k clean n (Suc i) s2 = Some t" "forest (surviving (?K2(n := [])) t) h X t"
      "\<And>m. m \<notin> desc ?K2 n \<or> m = n \<Longrightarrow> nodes t m = nodes s2 m" "dom (nodes t) \<subseteq> dom (nodes s2)" "fresh t = fresh s2" "holds t = holds s2"
    by blast
  have "surviving (?K2(n := [])) t = surviving (K(n := [])) t" using surviving_upd [OF t(4)] n2 by simp
  moreover have "remove_from rel k clean n i s = Some t"
    using Suc.prems(1) il len x(2,3) s1(1) s2(1) t(1) cell_elems [OF x(2), of i]
    by (subst remove_from.simps) (simp add: wyArrayGet_def)
  moreover have "nodes t m = nodes s m" if "m \<notin> desc K n \<or> m = n" for m
  proof -
    have "m \<notin> desc ?K2 n \<or> m = n" "m \<notin> desc ?K ?c" "m \<notin> desc K ?c" using that D2 [of n] Dc cD by blast+
    then show ?thesis using t(3) s2(3) s1(6) by simp
  qed
  ultimately show ?case using t s2 s1 by auto
qed

lemma remove_all_ok:
  assumes rel: "releases rel k" and x: "nodes s n = Some x" "array_ok (m_children x)" "\<not> locked (m_children x)"
      "\<not> m_childrenChanging x" "elems (m_children x) = map Some (K n)"
    and F: "forest K h X s" and n: "n \<in> X" and D: "desc K n \<inter> X = {n}" and k: "\<And>c. c \<in> set (K n) \<Longrightarrow> card (desc K c) \<le> k"
  shows "\<exists>t a. remove_all rel k clean n s = Some t \<and> forest (surviving (K(n := [])) t) h X t \<and>
    nodes t n = Some (x\<lparr>m_children := a\<rparr>) \<and> array_ok a \<and> \<not> locked a \<and> elems a = [] \<and>
    (\<forall>m. m \<notin> desc K n \<longrightarrow> nodes t m = nodes s m) \<and> dom (nodes t) \<subseteq> dom (nodes s) \<and> fresh t = fresh s \<and> holds t = holds s"
proof -
  let ?s1 = "s\<lparr>nodes := (nodes s)(n \<mapsto> x\<lparr>m_childrenChanging := True\<rparr>)\<rparr>"
  have F1: "forest K h X ?s1" by (rule forest_set [OF F x(1) n]) simp_all
  have "\<exists>t. remove_from rel k clean n 0 ?s1 = Some t \<and> forest (surviving (K(n := [])) t) h X t \<and>
      (\<forall>m. m \<notin> desc K n \<or> m = n \<longrightarrow> nodes t m = nodes ?s1 m) \<and> dom (nodes t) \<subseteq> dom (nodes ?s1) \<and> fresh t = fresh ?s1 \<and> holds t = holds ?s1"
    by (rule remove_from_ok [OF rel _ _ _ _ n F1 _ D k, of "x\<lparr>m_childrenChanging := True\<rparr>" "K n"]) (use x in simp_all)
  then obtain t where t: "remove_from rel k clean n 0 ?s1 = Some t" "forest (surviving (K(n := [])) t) h X t"
      "\<And>m. m \<notin> desc K n \<or> m = n \<Longrightarrow> nodes t m = nodes ?s1 m" "dom (nodes t) \<subseteq> dom (nodes ?s1)" "fresh t = fresh s" "holds t = holds s"
    by auto
  have tn: "nodes t n = Some (x\<lparr>m_childrenChanging := True\<rparr>)" using t(3) [of n] by simp
  obtain a where a: "wyArrayClear (m_children x) = Some a" "array_ok a" "elems a = []" "locked a = locked (m_children x)"
    using wyArrayClear_ok [OF x(2)] by blast
  let ?y = "x\<lparr>m_children := a, m_childrenChanging := False\<rparr>"
  let ?t = "t\<lparr>nodes := (nodes t)(n \<mapsto> ?y)\<rparr>"
  have "forest (surviving (K(n := [])) t) h X ?t" by (rule forest_set [OF t(2) tn n]) simp_all
  moreover have "surviving (K(n := [])) ?t = surviving (K(n := [])) t" by (auto simp: surviving_def)
  moreover have "?y = x\<lparr>m_children := a\<rparr>" using x(4) by (cases x) simp
  moreover have "remove_all rel k clean n s = Some ?t"
    using x t(1) tn a(1) by (simp add: remove_all_def change_node_def)
  moreover have "nodes ?t m = nodes s m" if "m \<notin> desc K n" for m
    using that t(3) [of m] desc_self [of n K] by (cases "m = n") auto
  moreover have "dom (nodes ?t) \<subseteq> dom (nodes s)" using t(4) x(1) by auto
  ultimately show ?thesis using a x(3) t(5,6) by (intro exI [of _ ?t] exI [of _ a]) auto
qed

lemma forest_count:
  assumes F: "forest K h X s" and x: "nodes s p = Some x"
    and c: "c = int (h' p) + (if m_parent x = None then 0 else 1)" "\<And>m. m \<noteq> p \<Longrightarrow> h' m = h m"
    and Y: "X \<subseteq> Y" "p \<notin> Y \<Longrightarrow> 0 < c"
  shows "forest K h' Y (s\<lparr>nodes := (nodes s)(p \<mapsto> x\<lparr>m_retainCount := c\<rparr>)\<rparr>)"
proof -
  let ?t = "s\<lparr>nodes := (nodes s)(p \<mapsto> x\<lparr>m_retainCount := c\<rparr>)\<rparr>"
  have order: "order_of ?t = order_of s" using x by (auto simp: order_of_def fun_eq_iff)
  have "children_fit K ?t" using forestD(2) [OF F] x by (force simp: children_fit_def)
  moreover have "handlers_fit ?t" using forestD(3) [OF F] x by (auto simp: handlers_fit_def)
  moreover have "node_fits K h' ?t m z \<and> (m \<notin> Y \<longrightarrow> list_fits K ?t m z)" if m: "nodes ?t m = Some z" for m z
  proof -
    obtain z0 where z0: "nodes s m = Some z0" "z = (if m = p then z0\<lparr>m_retainCount := c\<rparr> else z0)"
      using m x by (auto split: if_splits)
    have "\<exists>y. nodes ?t q = Some y \<and> m_running y = b" if "\<exists>y. nodes s q = Some y \<and> m_running y = b" for q b
      using that x by auto
    then have "node_fits K h' ?t m z" using forestD(4) [OF F z0(1)] z0 c x by (auto simp: node_fits_def)
    moreover have "list_fits K ?t m z" if "m \<notin> Y"
      using forestD(5) [OF F z0(1)] z0(2) that Y by (auto simp: list_fits_def order)
    ultimately show ?thesis by blast
  qed
  moreover have "dom (nodes ?t) \<subseteq> {..<fresh ?t}" using forestD(1) [OF F] x by auto
  ultimately show ?thesis by (simp only: forest_def) blast
qed

lemma forest_free:
  assumes F: "forest K h (insert p X) s" and x: "nodes s p = Some x" "m_parent x = None" "\<not> m_running x" and K: "K p = []"
  shows "forest K h X (s\<lparr>nodes := (nodes s)(p := None)\<rparr>)"
proof -
  let ?t = "s\<lparr>nodes := (nodes s)(p := None)\<rparr>"
  have not_child: "p \<notin> set (K m)" for m
  proof
    assume "p \<in> set (K m)"
    with F obtain y where "nodes s p = Some y" "m_parent y = Some m" by (rule forest_child)
    then show False using x by simp
  qed
  have order: "map (order_of ?t) (K m) = map (order_of s) (K m)" for m
    using not_child [of m] by (auto simp: order_of_def)
  have "children_fit K ?t"
    unfolding children_fit_def
  proof (intro conjI allI ballI impI)
    show "acyclic (edges K)" using F by (rule forest_acyclic)
    fix m show "distinct (K m)" using forestD(2) [OF F] by (simp add: children_fit_def)
    show "nodes ?t m \<noteq> None" if "K m \<noteq> []" using forestD(2) [OF F] that K by (auto simp: children_fit_def)
    fix c assume c: "c \<in> set (K m)"
    then have "c \<noteq> p" using not_child [of m] by blast
    moreover obtain y where "nodes s c = Some y" "m_parent y = Some m" using F c by (rule forest_child)
    ultimately show "\<exists>y. nodes ?t c = Some y \<and> m_parent y = Some m" by simp
  qed
  moreover have "handlers_fit ?t" using forestD(3) [OF F] x by (auto simp: handlers_fit_def)
  moreover have "node_fits K h ?t m z \<and> (m \<notin> X \<longrightarrow> list_fits K ?t m z)" if m: "nodes ?t m = Some z" for m z
  proof -
    have z: "nodes s m = Some z" "m \<noteq> p" using m by (auto split: if_splits)
    have "node_fits K h ?t m z" using forestD(4) [OF F z(1)] K by (auto simp: node_fits_def)
    then show ?thesis using forestD(5) [OF F z(1)] z(2) by (auto simp: list_fits_def order)
  qed
  moreover have "dom (nodes ?t) \<subseteq> {..<fresh ?t}" using forestD(1) [OF F] by auto
  ultimately show ?thesis by (simp only: forest_def) blast
qed

lemma node_release_keeps:
  assumes F: "forest K (h(p := Suc (h p))) X s" and x: "nodes s p = Some x" "p \<notin> X" and pos: "h p \<noteq> 0 \<or> m_parent x \<noteq> None"
  shows "\<exists>t. node_release (Suc k) p s = Some t \<and> forest (surviving K t) h X t \<and> (\<forall>m. m \<notin> desc K p \<longrightarrow> nodes t m = nodes s m) \<and>
    dom (nodes t) \<subseteq> dom (nodes s) \<and> fresh t = fresh s \<and> holds t = holds s"
proof -
  let ?c = "m_retainCount x - 1"
  let ?t = "s\<lparr>nodes := (nodes s)(p \<mapsto> x\<lparr>m_retainCount := ?c\<rparr>)\<rparr>"
  have c: "?c = int (h p) + (if m_parent x = None then 0 else 1)" using forestD(4) [OF F x(1)] by (simp add: node_fits_def)
  then have "0 < ?c" using pos by auto
  then have F': "forest K h X ?t" by (intro forest_count [OF F x(1)]) (use c in auto)
  moreover have "node_release (Suc k) p s = Some ?t" using x(1) \<open>0 < ?c\<close> by (simp add: change_node_def)
  ultimately show ?thesis using surviving_same [OF F'] x(1) desc_self [of p K]
    by (intro exI [of _ ?t]) auto
qed

lemma node_release_destroys:
  assumes rel: "releases (node_release k) k"
    and F: "forest K (h(p := Suc (h p))) X s" and x: "nodes s p = Some x" "desc K p \<inter> X = {}" and zero: "h p = 0" "m_parent x = None" "\<not> m_running x"
    and k: "card (desc K p) \<le> Suc k"
  shows "\<exists>t. node_release (Suc k) p s = Some t \<and> forest (surviving K t) h X t \<and> (\<forall>m. m \<notin> desc K p \<longrightarrow> nodes t m = nodes s m) \<and>
    dom (nodes t) \<subseteq> dom (nodes s) \<and> fresh t = fresh s \<and> holds t = holds s"
proof -
  have p: "p \<notin> X" using x(2) desc_self [of p K] by blast
  have fits: "list_fits K s p x" "m_retainCount x = 1"
    using forestD(4,5) [OF F x(1)] p zero by (simp_all add: node_fits_def)
  let ?y = "x\<lparr>m_retainCount := 0\<rparr>"
  let ?s2 = "s\<lparr>nodes := (nodes s)(p \<mapsto> ?y)\<rparr>"
  have F2: "forest K h (insert p X) ?s2" by (rule forest_count [OF F x(1)]) (use zero in auto)
  have fin: "finite (desc K p)" using F x(1) by (auto intro: forest_finite)
  have "\<exists>t a. remove_all (node_release k) k True p ?s2 = Some t \<and> forest (surviving (K(p := [])) t) h (insert p X) t \<and>
      nodes t p = Some (?y\<lparr>m_children := a\<rparr>) \<and> array_ok a \<and> \<not> locked a \<and> elems a = [] \<and>
      (\<forall>m. m \<notin> desc K p \<longrightarrow> nodes t m = nodes ?s2 m) \<and> dom (nodes t) \<subseteq> dom (nodes ?s2) \<and> fresh t = fresh ?s2 \<and> holds t = holds ?s2"
  proof (rule remove_all_ok [OF rel _ _ _ _ _ F2])
    show "desc K p \<inter> insert p X = {p}" using x(2) by auto
    show "card (desc K c) \<le> k" if "c \<in> set (K p)" for c using desc_fuel [OF forest_acyclic [OF F] fin k that] by simp
  qed (use fits x(1) in \<open>simp_all add: list_fits_def\<close>)
  then obtain t a where t: "remove_all (node_release k) k True p ?s2 = Some t" "forest (surviving (K(p := [])) t) h (insert p X) t"
      "nodes t p = Some (?y\<lparr>m_children := a\<rparr>)" "\<And>m. m \<notin> desc K p \<Longrightarrow> nodes t m = nodes ?s2 m"
      "dom (nodes t) \<subseteq> dom (nodes ?s2)" "fresh t = fresh s" "holds t = holds s"
    by auto
  let ?t = "t\<lparr>nodes := (nodes t)(p := None)\<rparr>"
  have "forest (surviving (K(p := [])) t) h X ?t" by (rule forest_free [OF t(2,3)]) (use zero in \<open>simp_all add: surviving_def\<close>)
  moreover have "surviving (K(p := [])) t = surviving K ?t" by (auto simp: surviving_def fun_eq_iff)
  moreover have "?y\<lparr>m_parent := None\<rparr> = ?y" using zero(2) by (cases x) simp
  then have "node_release (Suc k) p s = Some ?t" using x(1) fits(2) t(1) by (simp add: change_node_def)
  moreover have "nodes ?t m = nodes s m" if "m \<notin> desc K p" for m
    using that t(4) [of m] desc_self [of p K] by (cases "m = p") auto
  moreover have "dom (nodes ?t) \<subseteq> dom (nodes s)" using t(5) x(1) by auto
  ultimately show ?thesis using t(6,7) by (intro exI [of _ ?t]) auto
qed

theorem release_ok: "releases (node_release k) k"
proof (induction k)
  case 0
  show ?case unfolding releases_def
  proof (intro allI impI)
    fix K :: "nat \<Rightarrow> nat list" and h X s p x
    assume "forest K (h(p := Suc (h p))) X s" "nodes s p = Some x" "card (desc K p) \<le> 0"
    then show "\<exists>t. node_release 0 p s = Some t \<and> forest (surviving K t) h X t \<and> (\<forall>m. m \<notin> desc K p \<longrightarrow> nodes t m = nodes s m) \<and>
           dom (nodes t) \<subseteq> dom (nodes s) \<and> fresh t = fresh s \<and> holds t = holds s"
      using forest_finite(1) [of K _ X s p] card_desc_pos [of K p] by auto
  qed
next
  case (Suc k)
  show ?case unfolding releases_def
  proof (intro allI impI)
    fix K h X s p x
    assume a: "forest K (h(p := Suc (h p))) X s" "nodes s p = Some x" "desc K p \<inter> X = {}"
      "h p = 0 \<and> m_parent x = None \<longrightarrow> \<not> m_running x" "card (desc K p) \<le> Suc k"
    have p: "p \<notin> X" using a(3) desc_self [of p K] by blast
    show "\<exists>t. node_release (Suc k) p s = Some t \<and> forest (surviving K t) h X t \<and> (\<forall>m. m \<notin> desc K p \<longrightarrow> nodes t m = nodes s m) \<and>
           dom (nodes t) \<subseteq> dom (nodes s) \<and> fresh t = fresh s \<and> holds t = holds s"
    proof (cases "h p = 0 \<and> m_parent x = None")
      case True
      then show ?thesis using node_release_destroys [OF Suc a(1-3) _ _ _ a(5)] a(4) by blast
    next
      case False
      then show ?thesis using node_release_keeps [OF a(1,2) p] by blast
    qed
  qed
qed

end
