(* ===== verification/Wy_Node_Ops.thy ===== *)
theory Wy_Node_Ops imports Wy_Node_Forest begin

text \<open>
  The calls of a client keep the forest of nodes: removing, adding, reordering and releasing.
\<close>

section \<open>The scene\<close>

definition kids :: "scene \<Rightarrow> nat \<Rightarrow> nat list" where
  "kids s n = (case nodes s n of None \<Rightarrow> [] | Some x \<Rightarrow> map the (elems (m_children x)))"

definition scene_ok :: "scene \<Rightarrow> bool" where
  "scene_ok s \<longleftrightarrow> forest (kids s) (holds s) {} s"

lemma forest_kids:
  assumes "forest K h {} s"
  shows "kids s = K"
proof
  fix n
  show "kids s n = K n"
  proof (cases "nodes s n")
    case None
    then show ?thesis using surviving_same [OF assms] by (metis kids_def option.simps(4) surviving_def)
  next
    case (Some x)
    then show ?thesis using forestD(5) [OF assms Some] by (simp add: kids_def list_fits_def)
  qed
qed

lemma scene_okI: "forest K (holds s) {} s \<Longrightarrow> scene_ok s"
  using forest_kids by (simp add: scene_ok_def)

text \<open>A forest does not look at the claims and the ghost fields of the state.\<close>

lemma forest_cong:
  assumes "forest K h X s" "nodes t = nodes s" "fresh t = fresh s" "registered (events t) = registered (events s)"
  shows "forest K h X t"
proof -
  have "order_of t = order_of s" by (simp add: order_of_def fun_eq_iff assms(2))
  then have "list_fits K t = list_fits K s" by (intro ext) (simp add: list_fits_def)
  moreover have "node_fits K h t = node_fits K h s" by (intro ext) (simp add: node_fits_def assms(2))
  moreover have "children_fit K t = children_fit K s" "handlers_fit t = handlers_fit s"
    by (simp_all add: children_fit_def handlers_fit_def assms(2,4))
  ultimately show ?thesis using assms(1) by (simp add: forest_def assms(2,3))
qed

lemma scene_node:
  assumes "scene_ok s" "nodes s n = Some x"
  shows "array_ok (m_children x)" "\<not> locked (m_children x)" "\<not> m_childrenChanging x" "0 < m_retainCount x"
    "elems (m_children x) = map Some (kids s n)" "sorted (map (order_of s) (kids s n))" "distinct (kids s n)"
    "acyclic (edges (kids s))" "\<And>c. c \<in> set (kids s n) \<Longrightarrow> nodes s c \<noteq> None"
proof -
  have F: "forest (kids s) (holds s) {} s" using assms(1) by (simp add: scene_ok_def)
  show "array_ok (m_children x)" "\<not> locked (m_children x)" "\<not> m_childrenChanging x" "0 < m_retainCount x"
    "elems (m_children x) = map Some (kids s n)" "sorted (map (order_of s) (kids s n))"
    using forestD(5) [OF F assms(2)] by (simp_all add: list_fits_def)
  show "distinct (kids s n)" using forestD(2) [OF F] by (simp add: children_fit_def)
  show "acyclic (edges (kids s))" using F by (rule forest_acyclic)
  show "nodes s c \<noteq> None" if "c \<in> set (kids s n)" for c using forest_child [OF F that] by blast
qed

lemma scene_forest: "scene_ok s \<Longrightarrow> forest (kids s) (holds s) {} s"
  by (simp add: scene_ok_def)

lemma desc_size:
  assumes "scene_ok s" "nodes s n \<noteq> None" "fresh s \<le> k"
  shows "card (desc (kids s) n) \<le> k"
  using forest_finite(2) [OF scene_forest [OF assms(1)] assms(2)] assms(3) by simp

section \<open>Searching\<close>

lemma node_search_ok:
  assumes "array_ok a" "elems a = map Some cs" "i \<le> length cs" "\<And>c. c \<in> set cs \<Longrightarrow> nodes s c \<noteq> None"
  shows "node_search P s a i = Some (i + length (takeWhile (\<lambda>c. \<not> P (the (nodes s c))) (drop i cs)))"
proof -
  have len: "num a = length cs" using length_elems [OF assms(1)] assms(2) by simp
  show ?thesis using assms(3)
  proof (induction "length cs - i" arbitrary: i)
    case 0
    then show ?case using len by (subst node_search.simps) simp
  next
    case (Suc d)
    then have i: "i < length cs" by simp
    obtain x where x: "nodes s (cs ! i) = Some x" using assms(4) [of "cs ! i"] i by auto
    have "drop i cs = cs ! i # drop (Suc i) cs" using i by (simp add: Cons_nth_drop_Suc)
    then show ?case using Suc.hyps(1) [of "Suc i"] Suc.hyps(2) i len x cell_elems [OF assms(1), of i] assms(2)
      by (subst node_search.simps) auto
  qed
qed

lemma find_takeWhile:
  "find Q cs = (let p = takeWhile (\<lambda>c. \<not> Q c) cs in if p = cs then None else Some (cs ! length p))"
  by (induction cs) (auto simp: Let_def)

lemma takeWhile_shorter: "takeWhile Q cs \<noteq> cs \<Longrightarrow> length (takeWhile Q cs) < length cs"
  by (induction cs) (auto split: if_splits)

lemma node_index_ok:
  assumes "array_ok a" "elems a = map Some cs" "\<And>c. c \<in> set cs \<Longrightarrow> nodes s c \<noteq> None"
  shows "node_index P s a = Some (let p = takeWhile (\<lambda>c. \<not> P (the (nodes s c))) cs in
    if p = cs then -1 else int (length p))"
proof -
  have "num a = length cs" using length_elems [OF assms(1)] assms(2) by simp
  moreover have "length (takeWhile Q cs) < length cs \<longleftrightarrow> takeWhile Q cs \<noteq> cs" for Q
    using takeWhile_shorter [of Q cs] by (metis less_irrefl)
  ultimately show ?thesis using node_search_ok [OF assms(1,2) _ assms(3), of 0 P] by (simp add: node_index_def Let_def)
qed

lemma children_where_ok:
  assumes "array_ok a" "elems a = map Some cs" "i \<le> length cs" "\<And>c. c \<in> set cs \<Longrightarrow> nodes s c \<noteq> None"
  shows "children_where P s a i = Some (filter (\<lambda>c. P (the (nodes s c))) (drop i cs))"
proof -
  have len: "num a = length cs" using length_elems [OF assms(1)] assms(2) by simp
  show ?thesis using assms(3)
  proof (induction "length cs - i" arbitrary: i)
    case 0
    then show ?case using len by (subst children_where.simps) simp
  next
    case (Suc d)
    then have i: "i < length cs" by simp
    obtain x where x: "nodes s (cs ! i) = Some x" using assms(4) [of "cs ! i"] i by auto
    have "drop i cs = cs ! i # drop (Suc i) cs" using i by (simp add: Cons_nth_drop_Suc)
    then show ?case using Suc.hyps(1) [of "Suc i"] Suc.hyps(2) i len x wyArrayGet_ok [OF assms(1), of "int i"] assms(2)
      by (subst children_where.simps) auto
  qed
qed

lemma getChildByTag_ok:
  assumes "scene_ok s" "nodes s n = Some x"
  shows "getChildByTag tag n s = Some (find (\<lambda>c. m_tag (the (nodes s c)) = tag) (kids s n))"
proof -
  note x = scene_node [OF assms]
  let ?p = "takeWhile (\<lambda>c. m_tag (the (nodes s c)) \<noteq> tag) (kids s n)"
  have "getChildByTag tag n s = (if ?p = kids s n then Some None else wyArrayGet (m_children x) (int (length ?p)))"
    using node_index_ok [OF x(1,5,9), of "\<lambda>y. m_tag y = tag"] assms(2) by (simp add: getChildByTag_def Let_def)
  also have "\<dots> = Some (if ?p = kids s n then None else Some (kids s n ! length ?p))"
    using wyArrayGet_ok [OF x(1), of "int (length ?p)"] x(5) takeWhile_shorter [of "\<lambda>c. m_tag (the (nodes s c)) \<noteq> tag" "kids s n"]
    by simp
  finally show ?thesis by (simp add: find_takeWhile Let_def)
qed

section \<open>Removing\<close>

lemma index_of_child:
  assumes "array_ok a" "elems a = map Some cs"
  shows "wyArrayIndexOf a (Some c) None = Some (if c \<in> set cs then int (length (takeWhile (\<lambda>d. d \<noteq> c) cs)) else -1)"
proof -
  have "first_match None (Some c) (map Some cs) = length (takeWhile (\<lambda>d. d \<noteq> c) cs)"
    by (simp add: first_match_def array_match_def takeWhile_map comp_def)
  moreover have "length (takeWhile (\<lambda>d. d \<noteq> c) cs) < length cs \<longleftrightarrow> c \<in> set cs" by (induction cs) auto
  ultimately show ?thesis using wyArrayIndexOf_ok [OF assms(1), of "Some c" None] assms(2) by (simp add: Let_def)
qed

lemma delete_child:
  assumes "array_ok a" "\<not> locked a" "elems a = map Some cs" "c \<in> set cs"
  shows "\<exists>b. wyArrayDeleteIndex a (int (length (takeWhile (\<lambda>d. d \<noteq> c) cs))) = Some (Some c, b) \<and>
    array_ok b \<and> \<not> locked b \<and> elems b = map Some (remove1 c cs)"
proof -
  let ?p = "takeWhile (\<lambda>d. d \<noteq> c) cs"
  obtain q where q: "cs = ?p @ c # q" using assms(4)
    by (metis (mono_tags, lifting) dropWhile_eq_Cons_conv dropWhile_eq_Nil_conv neq_Nil_conv takeWhile_dropWhile_id)
  have "c \<notin> set ?p" by (auto dest: set_takeWhileD)
  then have "remove1 c cs = ?p @ q" by (subst q) (simp add: remove1_append)
  moreover have "elems a = map Some ?p @ Some c # map Some q" using assms(3) q by (metis list.simps(9) map_append)
  ultimately show ?thesis using wyArrayDeleteIndex_ok [OF assms(1,2), of "map Some ?p" "Some c" "map Some q"] by auto
qed

text \<open>The children that stay are not touched by what happens to the one that leaves.\<close>

lemma sibling_outside:
  assumes F: "forest K h X s" and "c \<in> set (K n)" "d \<in> set (K n)" "d \<noteq> c"
  shows "d \<notin> desc K c"
proof
  assume d: "d \<in> desc K c"
  obtain y where "nodes s d = Some y" "m_parent y = Some n" using F assms(3) by (rule forest_child)
  then have "n \<in> desc K c" using forest_parent_desc [OF F d assms(4)] by blast
  then show False using desc_acyclic [OF forest_acyclic [OF F] assms(2)] by blast
qed

lemma removeChild_ok:
  assumes ok: "scene_ok s" and x: "nodes s n = Some x" and k: "fresh s \<le> k"
  shows "\<exists>t. removeChild k child clean n s = Some t \<and> scene_ok t \<and> fresh t = fresh s \<and> nodes t n \<noteq> None"
proof -
  note F = scene_forest [OF ok] and xs = scene_node [OF ok x]
  let ?K = "kids s" and ?h = "holds s" and ?x1 = "x\<lparr>m_childrenChanging := True\<rparr>"
  let ?s1 = "s\<lparr>nodes := (nodes s)(n \<mapsto> ?x1)\<rparr>"
  have flag: "x\<lparr>m_childrenChanging := False\<rparr> = x" using xs(3) by (cases x) simp
  show ?thesis
  proof (cases "\<exists>c\<in>set (?K n). child = Some c")
    case False
    have "wyArrayIndexOf (m_children x) child None = Some (-1)"
    proof (cases child)
      case None
      have "first_match None None (map Some cs) = length cs" for cs :: "nat list"
        by (induction cs) (simp_all add: first_match_def array_match_def)
      then show ?thesis using wyArrayIndexOf_ok [OF xs(1), of None None] xs(5) None by (simp add: Let_def)
    next
      case (Some c)
      then show ?thesis using index_of_child [OF xs(1,5), of c] False by auto
    qed
    then have "removeChild k child clean n s = Some (s\<lparr>nodes := (nodes s)(n \<mapsto> x\<lparr>m_childrenChanging := False\<rparr>)\<rparr>)"
      using x xs(2,3) by (simp add: removeChild_def change_node_def)
    then have "removeChild k child clean n s = Some (s\<lparr>nodes := (nodes s)(n \<mapsto> x)\<rparr>)" unfolding flag .
    moreover have "s\<lparr>nodes := (nodes s)(n \<mapsto> x)\<rparr> = s" using x by (simp add: fun_upd_idem)
    ultimately show ?thesis using ok x by simp
  next
    case True
    then obtain c where c: "child = Some c" "c \<in> set (?K n)" by blast
    have cn: "n \<notin> desc ?K c" by (rule desc_acyclic [OF xs(8) c(2)])
    let ?K1 = "?K(n := remove1 c (?K n))"
    have F1: "forest ?K ?h {n} ?s1" by (rule forest_set [OF forest_mono [OF F] x]) simp_all
    have "card (desc ?K c) \<le> k" using desc_size [OF ok xs(9) [OF c(2)] k] .
    then obtain s2 y where s2: "take_leave k clean n c ?s1 = Some s2" "forest ?K1 (?h(c := Suc (?h c))) {n} s2"
        "nodes s2 c = Some y" "m_parent y = None" "\<not> m_running y" "\<And>m. m \<notin> desc ?K c \<Longrightarrow> nodes s2 m = nodes ?s1 m"
        "fresh s2 = fresh s" "holds s2 = ?h"
      using take_leave_ok [OF F1 c(2) _ _, of k clean] cn by auto
    have n2: "nodes s2 n = Some ?x1" using s2(6) [OF cn] by simp
    obtain b where b: "wyArrayDeleteIndex (m_children x) (int (length (takeWhile (\<lambda>d. d \<noteq> c) (?K n)))) = Some (Some c, b)"
        "array_ok b" "\<not> locked b" "elems b = map Some (remove1 c (?K n))"
      using delete_child [OF xs(1,2,5) c(2)] by blast
    let ?s3 = "s2\<lparr>nodes := (nodes s2)(n \<mapsto> ?x1\<lparr>m_children := b\<rparr>)\<rparr>"
    have F3: "forest ?K1 (?h(c := Suc (?h c))) {n} ?s3" by (rule forest_set [OF s2(2) n2]) simp_all
    have sub: "desc ?K1 c \<subseteq> desc ?K c" by (rule desc_mono) (use set_remove1_subset [of c "?K n"] in auto)
    have c3: "nodes ?s3 c = Some y" using s2(3) cn by auto
    have k3: "card (desc ?K1 c) \<le> k"
      using card_mono [OF forest_finite(1) [OF F] sub] desc_size [OF ok xs(9) [OF c(2)] k] xs(9) [OF c(2)] by simp
    obtain s4 where s4: "node_release k c ?s3 = Some s4" "forest (surviving ?K1 s4) ?h {n} s4"
        "\<And>m. m \<notin> desc ?K1 c \<Longrightarrow> nodes s4 m = nodes ?s3 m" "fresh s4 = fresh ?s3" "holds s4 = holds ?s3"
      by (rule releasesD [OF release_ok F3 c3 _ _ k3]) (use sub cn s2(5) in auto)
    have n4: "nodes s4 n = Some (?x1\<lparr>m_children := b\<rparr>)" using s4(3) [of n] sub cn by auto
    let ?y = "x\<lparr>m_children := b\<rparr>" and ?t = "s4\<lparr>nodes := (nodes s4)(n \<mapsto> x\<lparr>m_children := b\<rparr>)\<rparr>"
    have eq: "x\<lparr>m_children := b, m_childrenChanging := False\<rparr> = ?y" using xs(3) by (cases x) simp
    have F5: "forest (surviving ?K1 s4) ?h {n} ?t" by (rule forest_set [OF s4(2) n4]) (use xs(3) in simp_all)
    have order: "order_of ?t d = order_of s d" if "d \<in> set (remove1 c (?K n))" for d
    proof -
      have d: "d \<in> set (?K n)" "d \<noteq> c" using that xs(7) by auto
      then have "d \<notin> desc ?K c" by (intro sibling_outside [OF F c(2)])
      moreover have "d \<noteq> n" using desc_acyclic [OF xs(8) d(1)] by auto
      moreover have "d \<notin> desc ?K1 c" using calculation(1) sub by blast
      ultimately show ?thesis using s4(3) [of d] s2(6) [of d] by (simp add: order_of_def)
    qed
    have K4: "surviving ?K1 s4 n = remove1 c (?K n)" using n4 by (simp add: surviving_def)
    have same: "map (order_of ?t) (remove1 c (?K n)) = map (order_of s) (remove1 c (?K n))" using order by simp
    have "sorted (map (order_of ?t) (remove1 c (?K n)))" unfolding same using xs(6) by (rule sorted_map_remove1)
    then have "list_fits (surviving ?K1 s4) ?t n ?y" using b xs(3,4) unfolding list_fits_def K4 by simp
    then have "forest (surviving ?K1 s4) ?h {} ?t" by (intro forest_back [OF F5]) simp_all
    then have "scene_ok ?t" using s4(5) s2(8) by (intro scene_okI) simp
    moreover have "removeChild k child clean n s = Some (s4\<lparr>nodes := (nodes s4)(n \<mapsto> x\<lparr>m_children := b, m_childrenChanging := False\<rparr>)\<rparr>)"
      using x xs(2,3) index_of_child [OF xs(1,5), of c] c s2(1) n2 b(1) s4(1) n4
      by (simp add: removeChild_def change_node_def)
    then have "removeChild k child clean n s = Some ?t" unfolding eq .
    ultimately show ?thesis using s4(4) s2(7) by auto
  qed
qed

lemma removeAllChildren_ok:
  assumes ok: "scene_ok s" and x: "nodes s n = Some x" and k: "fresh s \<le> k"
  shows "\<exists>t. removeAllChildren k clean n s = Some t \<and> scene_ok t \<and> fresh t = fresh s \<and> nodes t n \<noteq> None"
proof -
  note F = scene_forest [OF ok] and xs = scene_node [OF ok x]
  have kc: "card (desc (kids s) c) \<le> k" if "c \<in> set (kids s n)" for c using desc_size [OF ok xs(9) [OF that] k] .
  obtain t a where t: "removeAllChildren k clean n s = Some t" "forest (surviving ((kids s)(n := [])) t) (holds s) {n} t"
      "nodes t n = Some (x\<lparr>m_children := a\<rparr>)" "array_ok a" "\<not> locked a" "elems a = []" "fresh t = fresh s" "holds t = holds s"
    using remove_all_ok [OF release_ok x xs(1,2,3,5) forest_mono [OF F] _ _ kc, of "{n}" clean]
    unfolding removeAllChildren_def by auto
  have "list_fits (surviving ((kids s)(n := [])) t) t n (x\<lparr>m_children := a\<rparr>)"
    using t(3-6) xs(3,4) by (simp add: list_fits_def surviving_def)
  then have "forest (surviving ((kids s)(n := [])) t) (holds s) {} t" by (rule forest_back [OF t(2,3)])
  then have "scene_ok t" using t(8) by (intro scene_okI) simp
  then show ?thesis using t(1,3,7) by simp
qed

lemma remove_each_ok:
  assumes "scene_ok s" "nodes s n \<noteq> None" "fresh s \<le> k"
  shows "\<exists>t. remove_each k clean n cs s = Some t \<and> scene_ok t \<and> fresh t = fresh s \<and> nodes t n \<noteq> None"
  using assms
proof (induction cs arbitrary: s)
  case (Cons c cs)
  obtain x where "nodes s n = Some x" using Cons.prems(2) by blast
  then obtain t where "removeChild k (Some c) clean n s = Some t" "scene_ok t" "fresh t = fresh s" "nodes t n \<noteq> None"
    using removeChild_ok [OF Cons.prems(1) _ Cons.prems(3)] by blast
  then show ?case using Cons.IH [of t] Cons.prems(3) by auto
qed simp

lemma node_release_ok:
  assumes ok: "scene_ok s" and x: "nodes s n = Some x" and k: "fresh s \<le> k"
    and h: "holds s n \<noteq> 0" "holds s n = 1 \<Longrightarrow> m_parent x = None \<Longrightarrow> \<not> m_running x"
  shows "\<exists>t. node_release k n (s\<lparr>holds := (holds s)(n := holds s n - 1)\<rparr>) = Some t \<and> scene_ok t \<and> fresh t = fresh s"
proof -
  let ?h = "(holds s)(n := holds s n - 1)"
  have eq: "?h(n := Suc (?h n)) = holds s" using h(1) by auto
  have "forest (kids s) (holds s) {} (s\<lparr>holds := ?h\<rparr>)" by (rule forest_cong [OF scene_forest [OF ok]]) simp_all
  then have "forest (kids s) (?h(n := Suc (?h n))) {} (s\<lparr>holds := ?h\<rparr>)" unfolding eq .
  then obtain t where "node_release k n (s\<lparr>holds := ?h\<rparr>) = Some t" "forest (surviving (kids s) t) ?h {} t" "fresh t = fresh s" "holds t = ?h"
    by (rule releasesD [OF release_ok [of k]]) (use x h desc_size [OF ok _ k] in auto)
  then show ?thesis using scene_okI [of "surviving (kids s) t" t] by simp
qed

end
