(* ===== verification/Wy_Node_Link.thy ===== *)
theory Wy_Node_Link imports Wy_Node_Ops begin

text \<open>
  Calls that link a child to a node, and those that only change fields; ancestors.
\<close>

section \<open>Linking a child\<close>

lemma insertChild_ok:
  assumes x: "nodes s n = Some x" "array_ok (m_children x)" "\<not> locked (m_children x)" "elems (m_children x) = map Some cs"
    and y: "nodes s c = Some y" "c \<noteq> n" and cs: "\<And>d. d \<in> set cs \<Longrightarrow> nodes s d \<noteq> None" "length cs < array_limit"
    and sorted: "sorted (map (order_of s) cs)"
  shows "\<exists>i a p q. insertChild c z n s =
      Some (i, s\<lparr>nodes := (nodes s)(n \<mapsto> x\<lparr>m_children := a\<rparr>, c \<mapsto> y\<lparr>m_zOrder := z, m_parent := Some n\<rparr>)\<rparr>) \<and>
    cs = p @ q \<and> array_ok a \<and> \<not> locked a \<and> elems a = map Some (p @ c # q) \<and>
    (\<forall>d\<in>set p. order_of s d \<le> z) \<and> (\<forall>d\<in>set q. z < order_of s d)"
proof -
  let ?P = "\<lambda>d. \<not> z < m_zOrder (the (nodes s d))"
  define p q where p: "p = takeWhile ?P cs" and q: "q = dropWhile ?P cs"
  have pq: "cs = p @ q" by (simp add: p q)
  have len: "num (m_children x) < array_limit" using length_elems [OF x(2)] x(4) cs(2) by simp
  have index: "node_index (\<lambda>y. z < m_zOrder y) s (m_children x) = Some (if q = [] then -1 else int (length p))"
  proof -
    have "p = cs \<longleftrightarrow> q = []" using pq by simp
    then show ?thesis using node_index_ok [OF x(2,4) cs(1), of "\<lambda>y. z < m_zOrder y"] unfolding Let_def p [symmetric] by simp
  qed
  have e: "elems (m_children x) = map Some p @ map Some q" using x(4) pq by simp
  have "\<exists>a. (if q = [] then wyArrayPush (m_children x) (Some c) else wyArrayInsert (m_children x) (Some c) (int (length p))) = Some a \<and>
      array_ok a \<and> elems a = map Some (p @ c # q) \<and> \<not> locked a"
  proof (cases "q = []")
    case True
    then show ?thesis using wyArrayPush_ok [OF x(2) len x(3), of "Some c"] e by auto
  next
    case False
    then show ?thesis using wyArrayInsert_ok [OF x(2) len x(3) e, of "Some c"] by auto
  qed
  then obtain a where a: "(if q = [] then wyArrayPush (m_children x) (Some c) else wyArrayInsert (m_children x) (Some c) (int (length p))) = Some a"
      "array_ok a" "elems a = map Some (p @ c # q)" "\<not> locked a" by blast
  have "insertChild c z n s = Some (if q = [] then -1 else int (length p),
      s\<lparr>nodes := (nodes s)(n \<mapsto> x\<lparr>m_children := a\<rparr>, c \<mapsto> y\<lparr>m_zOrder := z, m_parent := Some n\<rparr>)\<rparr>)"
    using x(1) y index a(1) by (auto simp: insertChild_def change_node_def split: if_splits)
  moreover have "\<forall>d\<in>set p. order_of s d \<le> z" by (auto simp: p order_of_def dest: set_takeWhileD)
  moreover have "\<forall>d\<in>set q. z < order_of s d"
  proof (cases q)
    case (Cons e r)
    then have "z < order_of s e" using hd_dropWhile [of ?P cs] by (simp add: order_of_def q)
    moreover have "sorted (map (order_of s) (e # r))" using sorted pq Cons by (metis map_append sorted_append)
    ultimately show ?thesis using Cons by fastforce
  qed simp
  ultimately show ?thesis using pq a by blast
qed

lemma link_forest:
  assumes F: "forest K h {} s" and x: "nodes s n = Some x" and y: "nodes s c = Some y" "m_parent y = None" "m_running y = m_running x"
    and nc: "n \<notin> desc K c" and K: "K n = p @ q" "\<forall>d\<in>set p. order_of s d \<le> z" "\<forall>d\<in>set q. z < order_of s d"
    and a: "array_ok a" "\<not> locked a" "elems a = map Some (p @ c # q)"
    and y': "m_parent y' = Some n" "m_zOrder y' = z" "m_retainCount y' = int (h' c) + 1" "m_running y' = m_running y"
      "handles y' = handles y" "m_children y' = m_children y" "m_childrenChanging y' = m_childrenChanging y"
    and h': "\<And>m. m \<noteq> c \<Longrightarrow> h' m = h m"
    and t: "nodes t = (nodes s)(n \<mapsto> x\<lparr>m_children := a\<rparr>, c \<mapsto> y')" "fresh t = fresh s" "registered (events t) = registered (events s)"
  shows "forest (K(n := p @ c # q)) h' {} t"
proof -
  let ?K = "K(n := p @ c # q)"
  have cn: "c \<noteq> n" using nc desc_self [of n K] by blast
  have orphan: "c \<notin> set (K m)" for m
  proof
    assume "c \<in> set (K m)"
    with F obtain u where "nodes s c = Some u" "m_parent u = Some m" by (rule forest_child)
    then show False using y by simp
  qed
  have nt: "nodes t m = (if m = c then Some y' else if m = n then Some (x\<lparr>m_children := a\<rparr>) else nodes s m)" for m
    using t(1) by simp
  have order: "order_of t d = order_of s d" if "d \<noteq> c" for d using that x by (simp add: order_of_def nt)
  have "children_fit ?K t"
    unfolding children_fit_def
  proof (intro conjI allI ballI impI)
    have "(c, n) \<notin> (edges K)\<^sup>*" using nc by (simp add: desc_def)
    moreover have "edges ?K = insert (n, c) (edges K)" using K(1) by (auto simp: edges_def split: if_splits)
    ultimately show "acyclic (edges ?K)" using forest_acyclic [OF F] by (simp add: acyclic_insert)
  next
    fix m
    have "distinct (K m)" "distinct (K n)" using forestD(2) [OF F] by (simp_all add: children_fit_def)
    then show "distinct (?K m)" using K(1) orphan [of n] by auto
  next
    fix m assume "?K m \<noteq> []"
    then have "m = n \<or> nodes s m \<noteq> None" using forestD(2) [OF F] by (auto simp: children_fit_def split: if_splits)
    then show "nodes t m \<noteq> None" by (auto simp: nt)
  next
    fix m d assume d: "d \<in> set (?K m)"
    show "\<exists>u. nodes t d = Some u \<and> m_parent u = Some m"
    proof (cases "d = c")
      case True
      then show ?thesis using d orphan [of m] y'(1) by (auto simp: nt split: if_splits)
    next
      case False
      then have "d \<in> set (K m)" using d K(1) by (auto split: if_splits)
      with F obtain u where "nodes s d = Some u" "m_parent u = Some m" by (rule forest_child)
      then show ?thesis using False x by (auto simp: nt)
    qed
  qed
  moreover have "node_fits ?K h' t m w \<and> list_fits ?K t m w" if m: "nodes t m = Some w" for m w
  proof -
    obtain u where u: "nodes s m = Some u" "m_running w = m_running u" "m_childrenChanging w = m_childrenChanging u"
      using m x y y' by (auto simp: nt split: if_splits)
    note fits = forestD(4) [OF F u(1)] and lf = forestD(5) [OF F u(1), simplified]
    have run: "\<exists>v. nodes t r = Some v \<and> m_running v = b" if "\<exists>v. nodes s r = Some v \<and> m_running v = b" for r b
      using that x y y'(4) by (auto simp: nt)
    have "node_fits ?K h' t m w"
    proof (cases "m = c")
      case True
      then have "w = y'" using m by (simp add: nt)
      then show ?thesis using True y' y(3) x cn run [of n "m_running x"] by (auto simp: node_fits_def nt)
    next
      case False
      then have "m_retainCount w = m_retainCount u" "m_parent w = m_parent u" using m u(1) x by (auto simp: nt split: if_splits)
      then show ?thesis using fits u(2) h' [OF False] run K(1) by (auto simp: node_fits_def)
    qed
    moreover have "list_fits ?K t m w"
    proof (cases "m = n")
      case True
      have same: "map (order_of t) p = map (order_of s) p" "map (order_of t) q = map (order_of s) q"
        using orphan [of n] K(1) by (auto intro!: order)
      have "sorted (map (order_of s) (p @ q))" using lf True K(1) by (simp add: list_fits_def)
      moreover have z: "order_of t c = z" using y'(2) by (simp add: order_of_def nt)
      ultimately have "sorted (map (order_of t) (p @ c # q))"
        unfolding map_append list.map same using K(2,3) by (auto simp: sorted_append z less_imp_le)
      moreover have "w = x\<lparr>m_children := a\<rparr>" "u = x" using m u(1) x cn True by (simp_all add: nt)
      ultimately show ?thesis using lf a True by (simp add: list_fits_def)
    next
      case False
      have same: "map (order_of t) (K m) = map (order_of s) (K m)" using orphan [of m] by (auto intro!: order)
      have "m_children w = m_children u" "0 < m_retainCount w"
        using m u(1) x y y' False lf by (auto simp: nt list_fits_def split: if_splits)
      then show ?thesis using lf u(3) False unfolding list_fits_def by (simp add: same del: map_eq_conv)
    qed
    ultimately show ?thesis by blast
  qed
  moreover have "handlers_fit t"
    using forestD(3) [OF F] x y y'(4,5) by (auto simp: handlers_fit_def nt t(3) split: if_splits)
  moreover have "dom (nodes t) = dom (nodes s)" using x y by (auto simp: t(1))
  ultimately show ?thesis using forestD(1) [OF F] t(2) by (simp add: forest_def)
qed

lemma scene_room:
  assumes "scene_ok s" "nodes s n = Some x" "fresh s \<le> array_limit" "nodes s c \<noteq> None" "c \<notin> set (kids s n)"
  shows "length (kids s n) < array_limit"
proof -
  have d: "dom (nodes s) \<subseteq> {..<fresh s}" using forestD(1) [OF scene_forest [OF assms(1)]] .
  have "set (kids s n) \<subseteq> {..<fresh s} - {c}" using scene_node(9) [OF assms(1,2)] d assms(5) by blast
  then have "card (set (kids s n)) \<le> card ({..<fresh s} - {c})" by (intro card_mono) simp_all
  moreover have "c < fresh s" using d assms(4) by blast
  ultimately show ?thesis using distinct_card [OF scene_node(7) [OF assms(1,2)]] assms(3) by simp
qed

lemma walkable_like:
  assumes "walkable K b s c"
    and "\<And>m x. m \<in> desc K c \<Longrightarrow> nodes s m = Some x \<Longrightarrow> \<exists>y. nodes t m = Some y \<and> m_children y = m_children x \<and> m_running y = m_running x"
  shows "walkable K b t c"
  unfolding walkable_def
proof
  fix m assume m: "m \<in> desc K c"
  then obtain x where x: "nodes s m = Some x" "array_ok (m_children x)" "\<not> locked (m_children x)" "elems (m_children x) = map Some (K m)"
      "m_running x = b \<longrightarrow> (\<forall>d\<in>set (K m). \<exists>y. nodes s d = Some y \<and> m_running y = b)"
    using assms(1) unfolding walkable_def by blast
  have "\<exists>y. nodes t d = Some y \<and> m_running y = b" if "d \<in> set (K m)" "m_running x = b" for d
    using x(5) that assms(2) [OF desc_child [OF that(1) m]] by fastforce
  then show "\<exists>x. nodes t m = Some x \<and> array_ok (m_children x) \<and> \<not> locked (m_children x) \<and>
      elems (m_children x) = map Some (K m) \<and> (m_running x = b \<longrightarrow> (\<forall>c\<in>set (K m). \<exists>y. nodes t c = Some y \<and> m_running y = b))"
    using x assms(2) [OF m x(1)] by auto
qed

text \<open>Entering the new child commutes with linking it.\<close>

lemma link_and_enter:
  assumes F: "forest K h {} s" and x: "nodes s n = Some x" and y: "nodes s c = Some y" "m_parent y = None"
    and nc: "n \<notin> desc K c" and run: "m_running y \<Longrightarrow> m_running x" and k: "card (desc K c) \<le> k"
    and K: "K n = p @ q" "\<forall>d\<in>set p. order_of s d \<le> z" "\<forall>d\<in>set q. z < order_of s d"
    and a: "array_ok a" "\<not> locked a" "elems a = map Some (p @ c # q)"
    and y4: "m_parent y4 = Some n" "m_zOrder y4 = z" "m_retainCount y4 = int (h c) + 1" "m_running y4 = m_running y"
      "handles y4 = handles y" "m_children y4 = m_children y" "m_childrenChanging y4 = m_childrenChanging y"
    and s4: "nodes s4 = (nodes s)(n \<mapsto> x4, c \<mapsto> y4)" "fresh s4 = fresh s" "holds s4 = holds s" "events s4 = events s"
  shows "\<exists>s5. (if m_running x then onEnter k c s4 else Some s4) = Some s5 \<and> nodes s5 n = Some x4 \<and> fresh s5 = fresh s \<and> holds s5 = holds s \<and>
    forest (K(n := p @ c # q)) h {} (s5\<lparr>nodes := (nodes s5)(n \<mapsto> x\<lparr>m_children := a\<rparr>)\<rparr>)"
proof -
  let ?b = "m_running x" and ?D = "desc K c"
  have cn: "c \<noteq> n" using nc desc_self [of n K] by blast
  have ac: "acyclic (edges K)" and fin: "finite ?D" using F y(1) by (auto intro: forest_acyclic forest_finite)
  have like: "\<exists>v. nodes s4 m = Some v \<and> m_children v = m_children u \<and> m_running v = m_running u \<and> handles v = handles u"
    if "m \<in> ?D" "nodes s m = Some u" for m u
  proof -
    have "m \<noteq> n" using that(1) nc by blast
    then show ?thesis using that(2) y(1) y4(4-6) s4(1) by (cases "m = c") simp_all
  qed
  have W: "walkable K b s4 c" for b
    by (rule walkable_like [OF forest_walkable [OF F y(1)]]) (use like in fastforce)+
  have "\<exists>s5. (if ?b then onEnter k c s4 else Some s4) = Some s5 \<and> switched ?b ?D s4 s5"
  proof (cases ?b)
    case True
    then show ?thesis using onEnter_switched [OF W ac fin k] by simp
  next
    case False
    then have c4: "nodes s4 c = Some y4" "m_running y4 = False" using run y4(4) s4(1) by auto
    have "switched False ?D s4 s4" using W c4 by (rule walkable_done)
    then show ?thesis using False by simp
  qed
  then obtain s5 where s5: "(if ?b then onEnter k c s4 else Some s4) = Some s5" "switched ?b ?D s4 s5" by blast
  let ?on = "m_running_update (\<lambda>_. ?b)"
  let ?s = "s5\<lparr>nodes := (\<lambda>m. if m \<in> ?D then map_option ?on (nodes s m) else nodes s m)\<rparr>"
  have reg: "m \<in> ?D \<and> (\<exists>u. nodes s4 m = Some u \<and> m_running u \<noteq> ?b \<and> handles u e) \<longleftrightarrow>
      m \<in> ?D \<and> (\<exists>u. nodes s m = Some u \<and> m_running u \<noteq> ?b \<and> handles u e)" for m e
  proof (cases "m \<in> ?D")
    case True
    then obtain u where "nodes s m = Some u" using forest_desc_alive [OF F _ True] y(1) by auto
    then show ?thesis using like [OF True] by fastforce
  qed simp
  have r: "(e, m) \<in> registered (events s5) \<longleftrightarrow>
      (if m \<in> ?D \<and> (\<exists>u. nodes s m = Some u \<and> m_running u \<noteq> ?b \<and> handles u e) then ?b else (e, m) \<in> registered (events s))" for e m
    using s5(2) unfolding switched_def reg s4(4) by blast
  have ev: "events ?s = events s5" by simp
  have sw: "switched ?b ?D s ?s"
    unfolding switched_def
  proof (intro conjI allI)
    show "fresh ?s = fresh s" "holds ?s = holds s" using s5(2) s4(2,3) by (simp_all add: switched_def)
  qed (simp, unfold ev, rule r)
  have F': "forest K h {} ?s" by (rule switch_forest [OF F y sw])
  have n5: "nodes s5 m = (if m \<in> ?D then map_option ?on (nodes s4 m) else nodes s4 m)" for m
    using s5(2) by (simp add: switched_def)
  let ?t = "s5\<lparr>nodes := (nodes s5)(n \<mapsto> x\<lparr>m_children := a\<rparr>)\<rparr>"
  have order: "order_of ?s d = order_of s d" for d
    by (cases "nodes s d") (auto simp: order_of_def)
  have nodes_t: "nodes ?t = (nodes ?s)(n \<mapsto> x\<lparr>m_children := a\<rparr>, c \<mapsto> ?on y4)"
    using s4(1) cn nc by (auto simp: fun_eq_iff n5)
  have "forest (K(n := p @ c # q)) h {} ?t"
    by (rule link_forest [OF F' _ _ _ _ nc K(1) _ _ a, where x = x and y = "?on y" and y' = "?on y4" and z = z and h' = h]) (use x y y4 nc K order nodes_t in simp_all)
  moreover have "nodes s5 n = Some x4" using n5 [of n] s4(1) nc cn by simp
  ultimately show ?thesis using s5 s4(2,3) by (auto simp: switched_def)
qed

lemma addChild_ok:
  assumes ok: "scene_ok s" and x: "nodes s n = Some x" and k: "fresh s \<le> k" "k \<le> array_limit"
    and c: "\<And>c. child = Some c \<Longrightarrow> \<exists>y. nodes s c = Some y \<and>
      (m_parent y = None \<longrightarrow> n \<notin> desc (kids s) c \<and> (m_running y \<longrightarrow> m_running x))"
  shows "\<exists>t. addChild k child z tag n s = Some t \<and> scene_ok t \<and> fresh t = fresh s"
proof (cases child)
  case None
  then show ?thesis using ok by (simp add: addChild_def)
next
  case child: (Some c)
  obtain y where y1: "nodes s c = Some y" and y2: "m_parent y = None \<longrightarrow> n \<notin> desc (kids s) c \<and> (m_running y \<longrightarrow> m_running x)"
    using c [OF child] by (elim exE conjE)
  then have y: "nodes s c = Some y" "m_parent y = None \<Longrightarrow> n \<notin> desc (kids s) c" "m_parent y = None \<Longrightarrow> m_running y \<Longrightarrow> m_running x"
    by simp_all
  note F = scene_forest [OF ok] and xs = scene_node [OF ok x]
  note fy = forestD(4) [OF F y(1)]
  show ?thesis
  proof (cases "m_parent y")
    case (Some q)
    then obtain u where "nodes s q = Some u" using fy unfolding node_fits_def by blast
    then have "addChild k child z tag n s = Some s" using Some child y(1) by (simp add: addChild_def)
    then show ?thesis using ok by simp
  next
    case None
    then have nc: "n \<notin> desc (kids s) c" using y by simp
    then have cn: "c \<noteq> n" using desc_self [of n "kids s"] by blast
    have orphan: "c \<notin> set (kids s n)"
    proof
      assume "c \<in> set (kids s n)"
      with F obtain u where "nodes s c = Some u" "m_parent u = Some n" by (rule forest_child)
      then show False using y(1) None by simp
    qed
    let ?x1 = "x\<lparr>m_childrenChanging := True\<rparr>"
    let ?s1 = "s\<lparr>nodes := (nodes s)(n \<mapsto> ?x1)\<rparr>"
    have order: "order_of ?s1 = order_of s" using x by (auto simp: order_of_def fun_eq_iff)
    have room: "length (kids s n) < array_limit" by (rule scene_room [OF ok x _ _ orphan]) (use k y(1) in auto)
    obtain i a p q where a: "insertChild c z n ?s1 = Some (i, ?s1\<lparr>nodes := (nodes ?s1)(n \<mapsto> ?x1\<lparr>m_children := a\<rparr>, c \<mapsto> y\<lparr>m_zOrder := z, m_parent := Some n\<rparr>)\<rparr>)"
        "kids s n = p @ q" "array_ok a" "\<not> locked a" "elems a = map Some (p @ c # q)" "\<forall>d\<in>set p. order_of s d \<le> z" "\<forall>d\<in>set q. z < order_of s d"
    proof -
      have s1: "nodes ?s1 n = Some ?x1" "array_ok (m_children ?x1)" "\<not> locked (m_children ?x1)" "elems (m_children ?x1) = map Some (kids s n)"
          "nodes ?s1 c = Some y" "sorted (map (order_of ?s1) (kids s n))" using xs y(1) cn order by simp_all
      have "nodes ?s1 d \<noteq> None" if "d \<in> set (kids s n)" for d using xs(9) [OF that] by simp
      from insertChild_ok [OF s1(1-5) cn this room s1(6), of z, unfolded order] that show thesis by simp blast
    qed
    let ?y3 = "y\<lparr>m_zOrder := z, m_parent := Some n, m_retainCount := m_retainCount y + 1\<rparr>"
    let ?y4 = "if tag \<noteq> invalid_tag then ?y3\<lparr>m_tag := tag\<rparr> else ?y3"
    let ?s4 = "s\<lparr>nodes := (nodes s)(n \<mapsto> ?x1\<lparr>m_children := a\<rparr>, c \<mapsto> ?y4)\<rparr>"
    have count: "m_retainCount y = int (holds s c)" using fy None by (simp add: node_fits_def)
    have "\<exists>s5. (if m_running x then onEnter k c ?s4 else Some ?s4) = Some s5 \<and> nodes s5 n = Some (?x1\<lparr>m_children := a\<rparr>) \<and>
        fresh s5 = fresh s \<and> holds s5 = holds s \<and>
        forest ((kids s)(n := p @ c # q)) (holds s) {} (s5\<lparr>nodes := (nodes s5)(n \<mapsto> x\<lparr>m_children := a\<rparr>)\<rparr>)"
      by (rule link_and_enter [OF F x y(1) None nc y(3) [OF None] desc_size [OF ok _ k(1)] a(2,6,7,3,4,5), of ?y4])
        (use y(1) count in simp_all)
    then obtain s5 where s5: "(if m_running x then onEnter k c ?s4 else Some ?s4) = Some s5" "nodes s5 n = Some (?x1\<lparr>m_children := a\<rparr>)"
        "fresh s5 = fresh s" "holds s5 = holds s"
        "forest ((kids s)(n := p @ c # q)) (holds s) {} (s5\<lparr>nodes := (nodes s5)(n \<mapsto> x\<lparr>m_children := a\<rparr>)\<rparr>)"
      by blast
    have eq: "x\<lparr>m_children := a, m_childrenChanging := False\<rparr> = x\<lparr>m_children := a\<rparr>" using xs(3) by (cases x) simp
    have "addChild k child z tag n s =
        Option.bind (if m_running x then onEnter k c ?s4 else Some ?s4) (change_node (\<lambda>y. y\<lparr>m_childrenChanging := False\<rparr>) n)"
      using child y(1) None x xs(2,3) a(1) cn
      by (cases "tag = invalid_tag") (simp_all add: addChild_def node_retain_def change_node_def)
    then have "addChild k child z tag n s = Some (s5\<lparr>nodes := (nodes s5)(n \<mapsto> x\<lparr>m_children := a, m_childrenChanging := False\<rparr>)\<rparr>)"
      unfolding s5(1) using s5(2) by (simp add: change_node_def)
    then show ?thesis using s5(3,4,5) unfolding eq by (auto intro: scene_okI)
  qed
qed

end
