(* ===== verification/Wy_Node_Calls.thy ===== *)
theory Wy_Node_Calls imports Wy_Node_Link begin

text \<open>
  Reordering, the calls that change fields of a node, new nodes, whole trees entering or leaving the
  running state, and ancestors: each keeps the scene well formed.
\<close>

section \<open>Reordering\<close>

lemma reorderChild_ok:
  assumes ok: "scene_ok s" and x: "nodes s n = Some x" and k: "fresh s \<le> array_limit" and c: "c \<in> set (kids s n)"
  shows "\<exists>i t. reorderChild c z n s = Some (i, t) \<and> scene_ok t \<and> fresh t = fresh s"
proof -
  note F = scene_forest [OF ok] and xs = scene_node [OF ok x]
  let ?K = "kids s" and ?h = "holds s" and ?R = "remove1 c (kids s n)" and ?x1 = "x\<lparr>m_childrenChanging := True\<rparr>"
  obtain y where y: "nodes s c = Some y" "m_parent y = Some n" "m_running y = m_running x"
    using forest_child [OF F c] x by (metis option.inject)
  have ncK: "n \<notin> desc ?K c" by (rule desc_acyclic [OF xs(8) c])
  then have cn: "c \<noteq> n" using desc_self [of n ?K] by blast
  have sub: "desc (?K(n := ?R)) c \<subseteq> desc ?K c" by (rule desc_mono) (use set_remove1_subset [of c "?K n"] in auto)
  obtain b where b: "wyArrayDeleteIndex (m_children x) (int (length (takeWhile (\<lambda>d. d \<noteq> c) (?K n)))) = Some (Some c, b)"
      "array_ok b" "\<not> locked b" "elems b = map Some ?R"
    using delete_child [OF xs(1,2,5) c] by blast
  let ?y0 = "y\<lparr>m_parent := None\<rparr>"
  let ?u = "s\<lparr>nodes := (nodes s)(c \<mapsto> ?y0)\<rparr>"
  let ?v = "?u\<lparr>nodes := (nodes ?u)(n \<mapsto> x\<lparr>m_children := b\<rparr>)\<rparr>"
  let ?K1 = "?K(n := ?R)" and ?h1 = "?h(c := Suc (?h c))"
  have "forest ?K1 ?h1 {n} ?u" by (rule unlink_forest [OF forest_mono [OF F] c y(1)]) simp_all
  then have Fv: "forest ?K1 ?h1 {n} ?v" by (rule forest_set) (use x cn in simp_all)
  have order: "order_of ?v = order_of s" using x y(1) cn by (auto simp: order_of_def fun_eq_iff)
  have sR: "sorted (map (order_of s) ?R)" using xs(6) by (rule sorted_map_remove1)
  have "list_fits ?K1 ?v n (x\<lparr>m_children := b\<rparr>)" unfolding list_fits_def order using b xs(3,4) sR by simp
  then have Fv': "forest ?K1 ?h1 {} ?v" by (intro forest_back [OF Fv]) simp_all
  let ?s3 = "s\<lparr>nodes := (nodes s)(n \<mapsto> ?x1\<lparr>m_children := b\<rparr>, c \<mapsto> ?y0)\<rparr>"
  have order3: "order_of ?s3 = order_of s" using x y(1) cn by (auto simp: order_of_def fun_eq_iff)
  have room: "length ?R < array_limit"
  proof -
    have "set (?K n) \<subseteq> {..<fresh s}" using forestD(1) [OF F] xs(9) by blast
    then have "card (set (?K n)) \<le> card {..<fresh s}" by (intro card_mono) simp_all
    then show ?thesis using distinct_card [OF xs(7)] k c by (cases "?K n") (auto simp: length_remove1)
  qed
  have alive: "nodes ?s3 d \<noteq> None" if "d \<in> set ?R" for d using xs(9) [of d] that set_remove1_subset [of c "?K n"] by auto
  obtain i a p q where a: "insertChild c z n ?s3 = Some (i, ?s3\<lparr>nodes := (nodes ?s3)(n \<mapsto> ?x1\<lparr>m_children := a\<rparr>, c \<mapsto> ?y0\<lparr>m_zOrder := z, m_parent := Some n\<rparr>)\<rparr>)"
      "?R = p @ q" "array_ok a" "\<not> locked a" "elems a = map Some (p @ c # q)" "\<forall>d\<in>set p. order_of s d \<le> z" "\<forall>d\<in>set q. z < order_of s d"
  proof -
    have s3: "nodes ?s3 n = Some (?x1\<lparr>m_children := b\<rparr>)" "array_ok (m_children (?x1\<lparr>m_children := b\<rparr>))"
        "\<not> locked (m_children (?x1\<lparr>m_children := b\<rparr>))" "elems (m_children (?x1\<lparr>m_children := b\<rparr>)) = map Some ?R"
        "nodes ?s3 c = Some ?y0" "sorted (map (order_of ?s3) ?R)"
      using b cn sR by (simp_all add: order3)
    from insertChild_ok [OF s3(1-5) cn alive room s3(6), of z, unfolded order3] that show thesis by simp blast
  qed
  let ?y' = "y\<lparr>m_zOrder := z, m_parent := Some n\<rparr>"
  let ?t = "s\<lparr>nodes := (nodes s)(n \<mapsto> x\<lparr>m_children := a\<rparr>, c \<mapsto> ?y')\<rparr>"
  have count: "m_retainCount y = int (?h c) + 1" using forestD(4) [OF F y(1)] y(2) by (simp add: node_fits_def)
  have pq: "\<forall>d\<in>set p. order_of ?v d \<le> z" "\<forall>d\<in>set q. z < order_of ?v d" unfolding order by (rule a)+
  have "forest (?K1(n := p @ c # q)) ?h {} ?t"
    by (rule link_forest [OF Fv' _ _ _ _ _ _ pq a(3-5), where x = "x\<lparr>m_children := b\<rparr>" and y = ?y0 and y' = ?y'])
      (use y cn count a(2) sub ncK in \<open>auto simp: fun_upd_twist\<close>)
  then have "scene_ok ?t" by (intro scene_okI) simp
  moreover have eq: "x\<lparr>m_children := a, m_childrenChanging := False\<rparr> = x\<lparr>m_children := a\<rparr>" using xs(3) by (cases x) simp
  have "reorderChild c z n s = Some (i, s\<lparr>nodes := (nodes s)(n \<mapsto> x\<lparr>m_children := a, m_childrenChanging := False\<rparr>, c \<mapsto> ?y')\<rparr>)"
    using x xs(2,3) index_of_child [OF xs(1,5), of c] c b(1) y(1) cn a(1)
    by (simp add: reorderChild_def change_node_def fun_upd_twist)
  then have "reorderChild c z n s = Some (i, ?t)" unfolding eq .
  ultimately show ?thesis by auto
qed

lemma child_orders_ok:
  assumes "scene_ok s" "nodes s n = Some x"
  shows "child_orders n s = Some (map (order_of s) (kids s n))"
  using scene_node [OF assms] assms(2) children_where_ok [of "m_children x" "kids s n" 0 s "\<lambda>_. True"]
  by (auto simp: child_orders_def order_of_def)

section \<open>Changing fields\<close>

lemma scene_tweak:
  assumes ok: "scene_ok s" and x: "nodes s n = Some x"
    and y: "m_retainCount y = m_retainCount x" "m_parent y = m_parent x" "m_running y = m_running x" "handles y = handles x"
      "m_zOrder y = m_zOrder x" "m_children y = m_children x" "m_childrenChanging y = m_childrenChanging x"
    and t: "nodes t = (nodes s)(n \<mapsto> y)" "fresh t = fresh s" "holds t = holds s" "registered (events t) = registered (events s)"
  shows "scene_ok t"
proof -
  let ?u = "s\<lparr>nodes := (nodes s)(n \<mapsto> y)\<rparr>"
  note F = scene_forest [OF ok]
  have order: "order_of ?u = order_of s" using x y(5) by (auto simp: order_of_def fun_eq_iff)
  have Fu: "forest (kids s) (holds s) {n} ?u" by (rule forest_set [OF forest_mono [OF F] x]) (use y in simp_all)
  have fu: "list_fits (kids s) ?u n y" unfolding list_fits_def order using forestD(5) [OF F x] y by (simp add: list_fits_def)
  have "forest (kids s) (holds s) {} ?u" by (rule forest_back [OF Fu _ fu]) simp
  then have "forest (kids s) (holds t) {} t" using t by (simp add: forest_cong)
  then show ?thesis by (rule scene_okI)
qed

lemma scene_handlers:
  assumes ok: "scene_ok s" and x: "nodes s n = Some x"
    and t: "nodes t = (nodes s)(n \<mapsto> x\<lparr>handles := g\<rparr>)" "fresh t = fresh s" "holds t = holds s" "handlers_fit t"
  shows "scene_ok t"
proof -
  note F = scene_forest [OF ok]
  have order: "order_of t = order_of s" using x t(1) by (auto simp: order_of_def fun_eq_iff)
  have nt: "\<exists>v. nodes s m = Some v \<and> m_retainCount u = m_retainCount v \<and> m_parent u = m_parent v \<and> m_running u = m_running v \<and>
      m_children u = m_children v \<and> m_childrenChanging u = m_childrenChanging v" if "nodes t m = Some u" for m u
    using that x by (auto simp: t(1) split: if_splits)
  have run: "\<exists>v. nodes t q = Some v \<and> m_running v = b" if "\<exists>v. nodes s q = Some v \<and> m_running v = b" for q b
    using that x by (auto simp: t(1))
  have "children_fit (kids s) t" using forestD(2) [OF F] x unfolding children_fit_def t(1) by (auto simp: image_iff) fastforce+
  moreover have "node_fits (kids s) (holds s) t m u \<and> list_fits (kids s) t m u" if u: "nodes t m = Some u" for m u
  proof -
    obtain v where v: "nodes s m = Some v" "m_retainCount u = m_retainCount v" "m_parent u = m_parent v" "m_running u = m_running v"
      "m_children u = m_children v" "m_childrenChanging u = m_childrenChanging v" using nt [OF u] by blast
    then show ?thesis using forestD(4,5) [OF F v(1)] run by (auto simp: node_fits_def list_fits_def order)
  qed
  moreover have "dom (nodes t) = dom (nodes s)" using x by (auto simp: t(1))
  ultimately have "forest (kids s) (holds t) {} t" using forestD(1) [OF F] t by (simp add: forest_def)
  then show ?thesis by (rule scene_okI)
qed

lemma setHandlerEnabled_ok:
  assumes ok: "scene_ok s" and x: "nodes s n = Some x"
  shows "\<exists>t. setHandlerEnabled h b n s = Some t \<and> scene_ok t \<and> fresh t = fresh s"
proof (cases "handles x h = b")
  case True
  then show ?thesis using ok x by (simp add: setHandlerEnabled_def)
next
  case False
  let ?s1 = "s\<lparr>nodes := (nodes s)(n \<mapsto> x\<lparr>handles := (handles x)(h := b)\<rparr>)\<rparr>"
  let ?t = "if m_running x then record_events [if b then AddHandler h n (priority x h) else RemoveHandler h n] ?s1 else ?s1"
  have "registered (events s @ [if b then AddHandler h n p else RemoveHandler h n]) =
      (if b then insert (h, n) (registered (events s)) else registered (events s) - {(h, n)})" for p
    by (simp add: registered_append)
  then have "handlers_fit ?t" using forestD(3) [OF scene_forest [OF ok]] x False
    by (auto simp: handlers_fit_def record_events_def)
  then have "scene_ok ?t" by (intro scene_handlers [OF ok x, of _ "(handles x)(h := b)"]) (simp_all add: record_events_def)
  then show ?thesis using x False by (auto simp: setHandlerEnabled_def change_node_def record_events_def)
qed

lemma setHandlerPriority_ok:
  assumes ok: "scene_ok s" and x: "nodes s n = Some x"
  shows "\<exists>t. setHandlerPriority h p n s = Some t \<and> scene_ok t \<and> fresh t = fresh s"
proof -
  let ?s1 = "s\<lparr>nodes := (nodes s)(n \<mapsto> x\<lparr>priority := (priority x)(h := p)\<rparr>)\<rparr>"
  let ?t = "if m_running x then record_events [SetHandlerPriority h n p] ?s1 else ?s1"
  have "scene_ok ?t" by (rule scene_tweak [OF ok x, of "x\<lparr>priority := (priority x)(h := p)\<rparr>"]) (simp_all add: record_events_def registered_append)
  then show ?thesis using x by (auto simp: setHandlerPriority_def change_node_def record_events_def)
qed

lemma node_retain_ok:
  assumes ok: "scene_ok s" and x: "nodes s n = Some x"
  shows "\<exists>t. node_retain n (s\<lparr>holds := (holds s)(n := Suc (holds s n))\<rparr>) = Some t \<and> scene_ok t \<and> fresh t = fresh s"
proof -
  let ?h = "(holds s)(n := Suc (holds s n))" and ?c = "m_retainCount x + 1"
  let ?u = "s\<lparr>nodes := (nodes s)(n \<mapsto> x\<lparr>m_retainCount := ?c\<rparr>)\<rparr>"
  note F = scene_forest [OF ok]
  have "forest (kids s) ?h {} ?u"
    by (rule forest_count [OF F x]) (use forestD(4) [OF F x] scene_node(4) [OF ok x] in \<open>auto simp: node_fits_def\<close>)
  then have "forest (kids s) ?h {} (s\<lparr>holds := ?h, nodes := (nodes s)(n \<mapsto> x\<lparr>m_retainCount := ?c\<rparr>)\<rparr>)" by (rule forest_cong) simp_all
  then have "scene_ok (s\<lparr>holds := ?h, nodes := (nodes s)(n \<mapsto> x\<lparr>m_retainCount := ?c\<rparr>)\<rparr>)" by (intro scene_okI) simp
  then show ?thesis using x by (auto simp: node_retain_def change_node_def)
qed

lemma wyNode_new_ok:
  assumes ok: "scene_ok s"
  shows "\<exists>t. wyNode_new (s\<lparr>holds := (holds s)(fresh s := 1)\<rparr>) = Some t \<and> scene_ok t \<and> fresh t = Suc (fresh s)"
proof -
  note F = scene_forest [OF ok]
  let ?n = "fresh s"
  obtain a :: "nat wyArray" where a: "wyArrayNew 3 = Some a" "array_ok a" "elems a = []" "\<not> locked a"
    using array_new_ok [of 3] by auto
  obtain t where t: "wyNode_new (s\<lparr>holds := (holds s)(?n := 1)\<rparr>) = Some t" using a(1) by (simp add: wyNode_new_def)
  obtain x where x: "nodes t = (nodes s)(?n \<mapsto> x)" "m_retainCount x = 1" "\<not> m_running x" "m_parent x = None" "m_children x = a"
      "\<not> m_childrenChanging x" and ft: "fresh t = Suc ?n" "holds t = (holds s)(?n := 1)" "events t = events s"
    using t a(1) by (auto simp: wyNode_new_def)
  have dead: "nodes s ?n = None" using forestD(1) [OF F] by auto
  then have Kn: "kids s ?n = []" by (simp add: kids_def)
  have alive: "m \<noteq> ?n" if "m \<in> set (kids s q)" for m q
  proof -
    from F that obtain y where "nodes s m = Some y" by (rule forest_child)
    then show ?thesis using dead by auto
  qed
  have order: "map (order_of t) (kids s m) = map (order_of s) (kids s m)" for m
    using alive by (auto simp: order_of_def x(1))
  have "children_fit (kids s) t" using forestD(2) [OF F] alive Kn by (force simp: children_fit_def x(1))
  moreover have "handlers_fit t" using forestD(3) [OF F] x(3) dead by (auto simp: handlers_fit_def x(1) ft(3))
  moreover have "node_fits (kids s) (holds t) t m y \<and> list_fits (kids s) t m y" if m: "nodes t m = Some y" for m y
  proof (cases "m = ?n")
    case True
    then have "y = x" using m x(1) by simp
    then show ?thesis using x a True Kn by (simp add: node_fits_def list_fits_def ft(2))
  next
    case False
    then have y: "nodes s m = Some y" using m x(1) by simp
    have "node_fits (kids s) (holds s) s m y" by (rule forestD(4) [OF F y])
    then have "node_fits (kids s) (holds t) t m y" using False dead by (fastforce simp: node_fits_def ft(2) x(1))
    then show ?thesis using forestD(5) [OF F y] unfolding list_fits_def order by simp
  qed
  moreover have "dom (nodes t) \<subseteq> {..<fresh t}" using forestD(1) [OF F] by (auto simp: x(1) ft(1) less_Suc_eq)
  ultimately have "forest (kids s) (holds t) {} t" by (simp add: forest_def)
  then show ?thesis using t ft(1) scene_okI by blast
qed

lemma root_switch_ok:
  assumes ok: "scene_ok s" and x: "nodes s n = Some x" "m_parent x = None" and k: "fresh s \<le> k"
  shows "\<exists>t. onEnter k n s = Some t \<and> scene_ok t \<and> fresh t = fresh s"
    "\<exists>t. onExit k n s = Some t \<and> scene_ok t \<and> fresh t = fresh s"
proof -
  note F = scene_forest [OF ok]
  have W: "walkable (kids s) b s n" for b by (rule forest_walkable [OF F x(1)]) simp
  have fin: "finite (desc (kids s) n)" using F x(1) by (auto intro: forest_finite)
  have c: "card (desc (kids s) n) \<le> k" by (rule desc_size [OF ok _ k]) (use x in simp)
  have fit: "scene_ok t \<and> fresh t = fresh s" if "switched b (desc (kids s) n) s t" for b t
    using switch_forest [OF F x that] that scene_okI [of "kids s" t] by (simp add: switched_def)
  show "\<exists>t. onEnter k n s = Some t \<and> scene_ok t \<and> fresh t = fresh s"
    using onEnter_switched [OF W forest_acyclic [OF F] fin c] fit by blast
  show "\<exists>t. onExit k n s = Some t \<and> scene_ok t \<and> fresh t = fresh s"
    using onExit_switched [OF W forest_acyclic [OF F] fin c] fit by blast
qed

section \<open>Ancestors\<close>

lemma scene_wf:
  assumes "scene_ok s"
  shows "wf (edges (kids s))"
proof (rule finite_acyclic_wf)
  note F = scene_forest [OF assms]
  have "edges (kids s) \<subseteq> {..<fresh s} \<times> {..<fresh s}"
  proof clarify
    fix n c assume "(n, c) \<in> edges (kids s)"
    then have "c \<in> set (kids s n)" by (simp add: edges_def)
    then show "n \<in> {..<fresh s} \<and> c \<in> {..<fresh s}"
      using forest_child [OF F, of c n] forestD(1) [OF F] by (metis domI subsetD)
  qed
  then show "finite (edges (kids s))" by (rule finite_subset) simp
  show "acyclic (edges (kids s))" using F by (rule forest_acyclic)
qed

lemma parent_edge:
  assumes "scene_ok s" "nodes s m = Some x"
  shows "(q, m) \<in> edges (kids s) \<longleftrightarrow> m_parent x = Some q"
proof
  note F = scene_forest [OF assms(1)]
  show "m_parent x = Some q" if "(q, m) \<in> edges (kids s)"
    using forest_child [OF F, of m q] that assms(2) by (metis edges_def case_prodD mem_Collect_eq option.inject)
  show "(q, m) \<in> edges (kids s)" if "m_parent x = Some q"
    using forestD(4) [OF F assms(2)] that by (simp add: node_fits_def edges_def)
qed

lemma isAncestor_ok:
  assumes ok: "scene_ok s" and m: "nodes s m \<noteq> None"
  shows "isAncestor n m s = Some ((n, m) \<in> (edges (kids s))\<^sup>+)"
  using scene_wf [OF ok] m
proof (induction m rule: wf_induct_rule)
  case (less m)
  obtain x where x: "nodes s m = Some x" using less.prems by blast
  have step: "(n, m) \<in> (edges (kids s))\<^sup>+ \<longleftrightarrow> (\<exists>q. m_parent x = Some q \<and> (q = n \<or> (n, q) \<in> (edges (kids s))\<^sup>+))"
    using parent_edge [OF ok x] by (metis trancl.simps)
  show ?case
  proof (cases "m_parent x")
    case None
    then show ?thesis using x step by (subst isAncestor.simps) simp
  next
    case (Some q)
    then have q: "(q, m) \<in> edges (kids s)" using parent_edge [OF ok x] by simp
    then have "nodes s q \<noteq> None"
      using forest_child [OF scene_forest [OF ok], of m q] by (auto simp: edges_def)
    then have "isAncestor n q s = Some ((n, q) \<in> (edges (kids s))\<^sup>+)" using less.IH [OF q] by simp
    then show ?thesis using x step Some by (subst isAncestor.simps) auto
  qed
qed

end
