(* ===== verification/Wy_Node_Visit.thy ===== *)
theory Wy_Node_Visit imports Wy_Node_Calls begin

text \<open>
  Drawing: \<open>visit\<close> paints a node between the children behind and those in front of it, and draws
  exactly the nodes that are visible from the root.
\<close>

section \<open>What is painted\<close>

text \<open>\<open>painted s n es\<close>: drawing the tree of \<open>n\<close> consists of the events \<open>es\<close>.\<close>

inductive painted :: "scene \<Rightarrow> nat \<Rightarrow> node_event list \<Rightarrow> bool" for s where
  hidden: "nodes s n = Some x \<Longrightarrow> \<not> m_visible x \<Longrightarrow> painted s n []"
| shown: "nodes s n = Some x \<Longrightarrow> m_visible x \<Longrightarrow> (\<forall>c\<in>set (kids s n). painted s c (E c)) \<Longrightarrow>
    painted s n
      ([PushMatrix, Transform n] @ (if m_hasClip x then [PushClip n] else []) @
       concat (map E (filter (\<lambda>c. order_of s c < 0) (kids s n))) @ [Draw n] @
       concat (map E (filter (\<lambda>c. 0 \<le> order_of s c) (kids s n))) @
       (if m_hasClip x then [PopClip] else []) @ [PopMatrix])"

lemma record_events_append [simp]: "record_events es (record_events ds s) = record_events (ds @ es) s"
  by (simp add: record_events_def)

lemma record_events_fields [simp]:
  "nodes (record_events es s) = nodes s" "fresh (record_events es s) = fresh s" "holds (record_events es s) = holds s"
  "events (record_events es s) = events s @ es"
  by (simp_all add: record_events_def)

lemma record_events_Nil [simp]: "record_events [] s = s"
  by (simp add: record_events_def)

lemma takeWhile_sorted: "sorted (map f xs) \<Longrightarrow> takeWhile (\<lambda>x. f x < (b :: int)) xs = filter (\<lambda>x. f x < b) xs"
  by (induction xs) (auto intro!: filter_False [symmetric])

text \<open>The two loops over the children, when \<open>f\<close> records \<open>E c\<close> for a child \<open>c\<close>.\<close>

lemma visit_behind_ok:
  assumes x: "nodes s n = Some x" "array_ok (m_children x)" "elems (m_children x) = map Some cs"
    and cs: "\<And>c. c \<in> set cs \<Longrightarrow> nodes s c \<noteq> None"
    and f: "\<And>c ds. c \<in> set cs \<Longrightarrow> f c (record_events ds s) = Some (record_events (ds @ E c) s)"
  shows "i \<le> length cs \<Longrightarrow> visit_behind f n i (record_events ds s) =
    Some (record_events (ds @ concat (map E (takeWhile (\<lambda>c. order_of s c < 0) (drop i cs)))) s)"
proof (induction "length cs - i" arbitrary: i ds)
  case 0
  then show ?case using x length_elems [OF x(2)] by (subst visit_behind.simps) simp
next
  case (Suc d)
  then have i: "i < length cs" by simp
  then obtain y where y: "nodes s (cs ! i) = Some y" using cs [of "cs ! i"] by auto
  have d: "drop i cs = cs ! i # drop (Suc i) cs" using i by (simp add: Cons_nth_drop_Suc)
  have get: "wyArrayGet (m_children x) (int i) = Some (Some (cs ! i))" using wyArrayGet_ok [OF x(2), of "int i"] x(3) i by simp
  have len: "num (m_children x) = length cs" using length_elems [OF x(2)] x(3) by simp
  show ?case
    using x(1) y get len i f [of "cs ! i" ds] Suc.hyps(1) [of "Suc i" "ds @ E (cs ! i)"] Suc.hyps(2)
    by (subst visit_behind.simps) (simp add: d order_of_def)
qed

lemma visit_front_ok:
  assumes x: "nodes s n = Some x" "array_ok (m_children x)" "elems (m_children x) = map Some cs"
    and cs: "\<And>c. c \<in> set cs \<Longrightarrow> nodes s c \<noteq> None"
    and f: "\<And>c ds. c \<in> set cs \<Longrightarrow> f c (record_events ds s) = Some (record_events (ds @ E c) s)"
  shows "i \<le> length cs \<Longrightarrow> visit_front f n i (record_events ds s) =
    Some (record_events (ds @ concat (map E (filter (\<lambda>c. 0 \<le> order_of s c) (drop i cs)))) s)"
proof (induction "length cs - i" arbitrary: i ds)
  case 0
  then show ?case using x length_elems [OF x(2)] by (subst visit_front.simps) simp
next
  case (Suc d)
  then have i: "i < length cs" by simp
  then obtain y where y: "nodes s (cs ! i) = Some y" using cs [of "cs ! i"] by auto
  have d: "drop i cs = cs ! i # drop (Suc i) cs" using i by (simp add: Cons_nth_drop_Suc)
  have get: "wyArrayGet (m_children x) (int i) = Some (Some (cs ! i))" using wyArrayGet_ok [OF x(2), of "int i"] x(3) i by simp
  have len: "num (m_children x) = length cs" using length_elems [OF x(2)] x(3) by simp
  show ?case
    using x(1) y get len i f [of "cs ! i" ds] Suc.hyps(1) [of "Suc i" "ds @ E (cs ! i)"] Suc.hyps(1) [of "Suc i" ds] Suc.hyps(2)
    by (subst visit_front.simps) (simp add: d order_of_def)
qed

lemma visit_painted:
  assumes "scene_ok s" "nodes s n \<noteq> None" "card (desc (kids s) n) \<le> k"
  shows "\<exists>es. painted s n es \<and> (\<forall>ds. visit k n (record_events ds s) = Some (record_events (ds @ es) s))"
  using assms(2,3)
proof (induction k arbitrary: n)
  case 0
  then show ?case using forest_finite(1) [OF scene_forest [OF assms(1)] 0(1)] card_desc_pos [of "kids s" n] by simp
next
  case (Suc k)
  obtain x where x: "nodes s n = Some x" using Suc.prems(1) by blast
  note xs = scene_node [OF assms(1) x]
  show ?case
  proof (cases "m_visible x")
    case False
    then show ?thesis using x by (intro exI [of _ "[]"]) (simp add: painted.hidden)
  next
    case True
    have "\<forall>c\<in>set (kids s n). \<exists>es. painted s c es \<and> (\<forall>ds. visit k c (record_events ds s) = Some (record_events (ds @ es) s))"
      using Suc.IH xs(9) desc_fuel(2) [OF xs(8) forest_finite(1) [OF scene_forest [OF assms(1)] Suc.prems(1)] Suc.prems(2)] by blast
    then obtain E where E: "\<And>c. c \<in> set (kids s n) \<Longrightarrow> painted s c (E c)"
        "\<And>c ds. c \<in> set (kids s n) \<Longrightarrow> visit k c (record_events ds s) = Some (record_events (ds @ E c) s)" by metis
    note loops = visit_behind_ok [OF x xs(1,5,9) E(2), where i = 0] visit_front_ok [OF x xs(1,5,9) E(2), where i = 0]
    have "\<forall>c\<in>set (kids s n). painted s c (E c)" using E(1) by blast
    then have "painted s n
      ([PushMatrix, Transform n] @ (if m_hasClip x then [PushClip n] else []) @
       concat (map E (filter (\<lambda>c. order_of s c < 0) (kids s n))) @ [Draw n] @
       concat (map E (filter (\<lambda>c. 0 \<le> order_of s c) (kids s n))) @
       (if m_hasClip x then [PopClip] else []) @ [PopMatrix])" by (rule painted.shown [OF x True])
    then show ?thesis using x True by (auto simp: loops takeWhile_sorted [OF xs(6)])
  qed
qed

section \<open>What is drawn\<close>

fun drawn :: "node_event list \<Rightarrow> nat list" where
  "drawn [] = []"
| "drawn (Draw n # es) = n # drawn es"
| "drawn (_ # es) = drawn es"

lemma drawn_append [simp]: "drawn (es @ fs) = drawn es @ drawn fs"
  by (induction es rule: drawn.induct) simp_all

lemma drawn_concat: "drawn (concat ess) = concat (map drawn ess)"
  by (induction ess) simp_all

lemma distinct_concat_map:
  assumes "distinct xs" "\<And>x. x \<in> set xs \<Longrightarrow> distinct (f x)"
    "\<And>x y. x \<in> set xs \<Longrightarrow> y \<in> set xs \<Longrightarrow> x \<noteq> y \<Longrightarrow> set (f x) \<inter> set (f y) = {}"
  shows "distinct (concat (map f xs))"
  using assms by (induction xs) (auto simp: disjoint_iff)

text \<open>The descendants of \<open>n\<close> that are visible together with all nodes between.\<close>

definition lit :: "scene \<Rightarrow> nat \<Rightarrow> bool" where
  "lit s n \<longleftrightarrow> (case nodes s n of None \<Rightarrow> False | Some x \<Rightarrow> m_visible x)"

definition seen :: "scene \<Rightarrow> nat \<Rightarrow> nat set" where
  "seen s n = (if lit s n then {m. (n, m) \<in> (edges (kids s) \<inter> {(a, b). lit s b})\<^sup>*} else {})"

lemma seen_unfold: "lit s n \<Longrightarrow> seen s n = insert n (\<Union>c\<in>set (kids s n). seen s c)"
  by (auto simp: seen_def edges_def elim: converse_rtranclE intro: converse_rtrancl_into_rtrancl split: if_splits)

lemma seen_desc: "seen s n \<subseteq> desc (kids s) n"
  unfolding seen_def desc_def by (auto elim: rtrancl_mono [THEN subsetD, rotated])

lemma siblings_disjoint:
  assumes F: "forest K h X s" and cd: "c \<in> set (K n)" "d \<in> set (K n)" "c \<noteq> d"
  shows "desc K c \<inter> desc K d = {}"
proof -
  have "single_valued ((edges K)\<inverse>)"
    by (rule single_valuedI) (metis (mono_tags, lifting) F case_prodD converseD edges_def forest_child mem_Collect_eq option.inject)
  then have "(c, d) \<in> (edges K)\<^sup>* \<or> (d, c) \<in> (edges K)\<^sup>*" if "(c, m) \<in> (edges K)\<^sup>*" "(d, m) \<in> (edges K)\<^sup>*" for m
    using single_valued_confluent [of "(edges K)\<inverse>" m c d] that by (auto simp: rtrancl_converse)
  moreover have "(c, d) \<notin> (edges K)\<^sup>*" "(d, c) \<notin> (edges K)\<^sup>*"
    using sibling_outside [OF F cd(1,2)] sibling_outside [OF F cd(2,1)] cd(3) by (auto simp: desc_def)
  ultimately show ?thesis by (auto simp: desc_def)
qed

lemma painted_drawn:
  assumes "scene_ok s" "painted s n es"
  shows "set (drawn es) = seen s n \<and> distinct (drawn es)"
  using assms(2)
proof (induction rule: painted.induct)
  case (hidden n x)
  then show ?case by (simp add: seen_def lit_def)
next
  case (shown n x E)
  note F = scene_forest [OF assms(1)] and xs = scene_node [OF assms(1) shown(1)]
  have lit: "lit s n" using shown by (simp add: lit_def)
  have E: "set (drawn (E c)) = seen s c" "distinct (drawn (E c))" if "c \<in> set (kids s n)" for c using shown(3) that by auto
  have disj: "set (drawn (E c)) \<inter> set (drawn (E d)) = {}" if "c \<in> set (kids s n)" "d \<in> set (kids s n)" "c \<noteq> d" for c d
    using siblings_disjoint [OF F that] seen_desc [of s c] seen_desc [of s d] E(1) that by blast
  have self: "n \<notin> set (drawn (E c))" if "c \<in> set (kids s n)" for c
    using desc_acyclic [OF xs(8) that] seen_desc [of s c] E(1) [OF that] by blast
  let ?b = "filter (\<lambda>c. order_of s c < 0) (kids s n)" and ?f = "filter (\<lambda>c. 0 \<le> order_of s c) (kids s n)"
  have "distinct (concat (map (drawn \<circ> E) ?b))" "distinct (concat (map (drawn \<circ> E) ?f))"
    by (rule distinct_concat_map; use xs(7) E(2) disj in \<open>auto\<close>)+
  moreover have "set (concat (map (drawn \<circ> E) ?b)) \<inter> set (concat (map (drawn \<circ> E) ?f)) = {}"
  proof -
    have "set (drawn (E c)) \<inter> set (drawn (E d)) = {}" if "c \<in> set ?b" "d \<in> set ?f" for c d
      using that by (intro disj) auto
    then show ?thesis by fastforce
  qed
  moreover have "set (kids s n) = set ?b \<union> set ?f" by auto
  then have "seen s n = insert n ((\<Union>c\<in>set ?b. seen s c) \<union> (\<Union>c\<in>set ?f. seen s c))"
    unfolding seen_unfold [OF lit] by (metis UN_Un)
  moreover have "n \<notin> set (concat (map (drawn \<circ> E) ?b))" "n \<notin> set (concat (map (drawn \<circ> E) ?f))" using self by auto
  moreover have "drawn ([PushMatrix, Transform n] @ (if m_hasClip x then [PushClip n] else []) @
       concat (map E ?b) @ [Draw n] @ concat (map E ?f) @ (if m_hasClip x then [PopClip] else []) @ [PopMatrix]) =
      concat (map (drawn \<circ> E) ?b) @ n # concat (map (drawn \<circ> E) ?f)"
    by (simp add: drawn_concat)
  ultimately show ?case using E(1) by (auto simp: disjoint_iff)
qed

section \<open>Visible from the root\<close>

lemma isVisibleFromRoot_root: "nodes s n = Some x \<Longrightarrow> m_parent x = None \<Longrightarrow> isVisibleFromRoot n s = Some (lit s n)"
  by (simp add: isVisibleFromRoot_def all_from.simps lit_def)

lemma isVisibleFromRoot_child:
  assumes "nodes s c = Some y" "m_parent y = Some m" "nodes s m = Some x"
  shows "isVisibleFromRoot c s = (if lit s c then isVisibleFromRoot m s else Some False)"
  using assms all_from.simps [of m_visible "Some m" s] by (simp add: isVisibleFromRoot_def lit_def)

lemma isVisibleFromRoot_seen:
  assumes ok: "scene_ok s" and n: "nodes s n = Some x" "m_parent x = None" and m: "m \<in> desc (kids s) n"
  shows "isVisibleFromRoot m s = Some (m \<in> seen s n)"
proof -
  note F = scene_forest [OF ok]
  have "(n, m) \<in> (edges (kids s))\<^sup>*" using m by (simp add: desc_def)
  then show ?thesis
  proof (induction rule: rtrancl_induct)
    case base
    then show ?case using isVisibleFromRoot_root [OF n] by (simp add: seen_def)
  next
    case (step m c)
    then have c: "c \<in> set (kids s m)" by (simp add: edges_def)
    obtain u y where u: "nodes s m = Some u" "nodes s c = Some y" "m_parent y = Some m" using forest_child [OF F c] by metis
    then have cn: "c \<noteq> n" using n by auto
    have "c \<in> seen s n \<longleftrightarrow> lit s c \<and> m \<in> seen s n"
    proof
      assume "lit s c \<and> m \<in> seen s n"
      then show "c \<in> seen s n" using step.hyps(2) by (auto simp: seen_def intro: rtrancl_into_rtrancl split: if_splits)
    next
      assume "c \<in> seen s n"
      then have l: "lit s n" and p: "(n, c) \<in> (edges (kids s) \<inter> {(a, b). lit s b})\<^sup>*" by (auto simp: seen_def split: if_splits)
      from p cn obtain q where q: "(n, q) \<in> (edges (kids s) \<inter> {(a, b). lit s b})\<^sup>*" "(q, c) \<in> edges (kids s)" "lit s c"
        by (cases rule: rtranclE) auto
      then have "q = m" using parent_edge [OF ok u(2)] u(3) by auto
      then show "lit s c \<and> m \<in> seen s n" using q l by (simp add: seen_def)
    qed
    then show ?case using isVisibleFromRoot_child [OF u(2,3,1)] step.IH by simp
  qed
qed

end
