(* ===== verification/Wy_Node_Props.thy ===== *)
theory Wy_Node_Props imports Wy_Node_Visit begin

text \<open>
  Properties of the tree of nodes: the calls of a client keep it well formed and use no destroyed
  node, what is drawn and in which order, and what reordering a stranger does.
\<close>

section \<open>Legal calls\<close>

text \<open>
  A client uses nodes that are alive and gives back references it holds. A node that becomes a child
  is not an ancestor of its new parent, and does not run when the parent does not. \<open>onEnter\<close> and
  \<open>onExit\<close> are called on roots, a running root keeps a reference, and only children are reordered.
\<close>

definition usable_node :: "nat \<Rightarrow> scene \<Rightarrow> bool" where
  "usable_node n s \<longleftrightarrow> nodes s n \<noteq> None"

definition runs :: "nat \<Rightarrow> scene \<Rightarrow> bool" where
  "runs n s \<longleftrightarrow> (case nodes s n of None \<Rightarrow> False | Some x \<Rightarrow> m_running x)"

definition parentless :: "nat \<Rightarrow> scene \<Rightarrow> bool" where
  "parentless n s \<longleftrightarrow> (case nodes s n of None \<Rightarrow> False | Some x \<Rightarrow> m_parent x = None)"

fun node_legal :: "node_call \<Rightarrow> scene \<Rightarrow> bool" where
  "node_legal NodeNew s = True"
| "node_legal (NodeRetain n) s = usable_node n s"
| "node_legal (NodeRelease n) s =
     (usable_node n s \<and> holds s n \<noteq> 0 \<and> \<not> (holds s n = 1 \<and> parentless n s \<and> runs n s))"
| "node_legal (AddChild n child z tag) s =
     (usable_node n s \<and>
      (case child of None \<Rightarrow> True
       | Some c \<Rightarrow> usable_node c s \<and>
           \<not> (parentless c s \<and> (c = n \<or> isAncestor c n s = Some True \<or> runs c s \<and> \<not> runs n s))))"
| "node_legal (RemoveChild n child clean) s = usable_node n s"
| "node_legal (RemoveChildLocked n c clean) s = (usable_node n s \<and> usable_node c s)"
| "node_legal (RemoveChildByTag n tag clean) s = usable_node n s"
| "node_legal (RemoveChildrenByTag n tag clean) s = usable_node n s"
| "node_legal (RemoveAllChildren n clean) s = usable_node n s"
| "node_legal (ReorderChild n c z) s = (usable_node n s \<and> c \<in> set (kids s n))"
| "node_legal (BringToFront n c) s = (usable_node n s \<and> c \<in> set (kids s n))"
| "node_legal (BringToBack n c) s = (usable_node n s \<and> c \<in> set (kids s n))"
| "node_legal (Enter n) s = parentless n s"
| "node_legal (Exit n) s = parentless n s"
| "node_legal (EnableHandler n h b) s = usable_node n s"
| "node_legal (SetPriority n h p) s = usable_node n s"
| "node_legal (SetVisible n b) s = usable_node n s"
| "node_legal (SetEnabled n b) s = usable_node n s"
| "node_legal (SetTag n t) s = usable_node n s"
| "node_legal (SetClip n) s = usable_node n s"
| "node_legal (Visit n) s = usable_node n s"

fun legal_steps :: "nat \<Rightarrow> node_call list \<Rightarrow> scene \<Rightarrow> bool" where
  "legal_steps k [] s = True"
| "legal_steps k (c # cs) s =
     (node_legal c s \<and> (case node_step k c s of None \<Rightarrow> True | Some s1 \<Rightarrow> legal_steps k cs s1))"

text \<open>The scene before the first call.\<close>

definition empty_scene :: scene where
  "empty_scene = \<lparr>nodes = Map.empty, fresh = 0, holds = (\<lambda>_. 0), events = []\<rparr>"

lemma empty_scene_ok: "scene_ok empty_scene"
proof -
  have "forest (\<lambda>_. []) (holds empty_scene) {} empty_scene"
    by (simp add: forest_def empty_scene_def children_fit_def handlers_fit_def registered_def edges_def acyclic_def)
  then show ?thesis by (rule scene_okI)
qed

section \<open>One call\<close>

lemma painted_quiet: "painted s n es \<Longrightarrow> registered (ds @ es) = registered ds"
proof -
  define quiet where "quiet es \<longleftrightarrow> (\<forall>ds. registered (ds @ es) = registered ds)" for es
  have append: "quiet (es @ fs)" if "quiet es" "quiet fs" for es fs
    using that by (simp add: quiet_def append_assoc [symmetric] del: append_assoc)
  have concat: "quiet (concat (map E cs))" if "\<And>c. c \<in> set cs \<Longrightarrow> quiet (E c)" for E and cs :: "nat list"
    using that
  proof (induction cs)
    case (Cons c cs)
    then have "quiet (E c)" "quiet (concat (map E cs))" by simp_all
    then show ?case using append by simp
  qed (simp add: quiet_def)
  have "quiet es" if "painted s n es" for n es using that
  proof (induction rule: painted.induct)
    case (shown n x E)
    show ?case by (intro append concat) (use shown(3) in \<open>auto simp: quiet_def registered_append\<close>)
  qed (simp add: quiet_def)
  then show "painted s n es \<Longrightarrow> registered (ds @ es) = registered ds" by (simp add: quiet_def)
qed

lemma add_legal:
  assumes ok: "scene_ok s" and legal: "node_legal (AddChild n child z tag) s" and x: "nodes s n = Some x" and c: "child = Some c"
  shows "\<exists>y. nodes s c = Some y \<and> (m_parent y = None \<longrightarrow> n \<notin> desc (kids s) c \<and> (m_running y \<longrightarrow> m_running x))"
proof -
  obtain y where y: "nodes s c = Some y" using legal c by (auto simp: usable_node_def)
  have "n \<notin> desc (kids s) c" if "m_parent y = None"
  proof -
    have "c \<noteq> n" "isAncestor c n s \<noteq> Some True" using legal c y that by (auto simp: parentless_def)
    then have "(c, n) \<notin> (edges (kids s))\<^sup>+" using isAncestor_ok [OF ok, of n c] x by simp
    then show ?thesis using \<open>c \<noteq> n\<close> by (auto simp: desc_def rtrancl_eq_or_trancl)
  qed
  moreover have "m_running y \<longrightarrow> m_running x" if "m_parent y = None"
    using legal c y x that by (auto simp: parentless_def runs_def)
  ultimately show ?thesis using y by (intro exI [of _ y]) simp
qed

lemma node_step_ok:
  assumes ok: "scene_ok s" and legal: "node_legal c s" and k: "fresh s \<le> k" "k \<le> array_limit"
  shows "\<exists>t. node_step k c s = Some t \<and> scene_ok t \<and> fresh t \<le> Suc (fresh s)"
proof -
  have tweak: "\<exists>t. change_node f n s = Some t \<and> scene_ok t \<and> fresh t \<le> Suc (fresh s)"
    if u: "usable_node n s" and f: "\<And>x. m_retainCount (f x) = m_retainCount x" "\<And>x. m_parent (f x) = m_parent x" "\<And>x. m_running (f x) = m_running x"
      "\<And>x. handles (f x) = handles x" "\<And>x. m_zOrder (f x) = m_zOrder x" "\<And>x. m_children (f x) = m_children x"
      "\<And>x. m_childrenChanging (f x) = m_childrenChanging x" for f n
  proof -
    obtain x where x: "nodes s n = Some x" using u by (auto simp: usable_node_def)
    have "scene_ok (s\<lparr>nodes := (nodes s)(n \<mapsto> f x)\<rparr>)" by (rule scene_tweak [OF ok x]) (use f in simp_all)
    then show ?thesis using x by (simp add: change_node_def)
  qed
  have reorder: "\<exists>t. map_option snd (reorderChild d z n s) = Some t \<and> scene_ok t \<and> fresh t \<le> Suc (fresh s)"
    if u: "usable_node n s" and d: "d \<in> set (kids s n)" for d z n
  proof -
    obtain x where "nodes s n = Some x" using u by (auto simp: usable_node_def)
    moreover have "fresh s \<le> array_limit" using k by simp
    ultimately show ?thesis using reorderChild_ok [OF ok _ _ d, of x z] by fastforce
  qed
  have orders: "child_orders n s = Some (map (order_of s) (kids s n))" if "usable_node n s" for n
    using that child_orders_ok [OF ok] by (auto simp: usable_node_def)
  have remove: "\<exists>t. removeChild k child clean n s = Some t \<and> scene_ok t \<and> fresh t \<le> Suc (fresh s)" if "usable_node n s" for child clean n
    using that removeChild_ok [OF ok _ k(1)] by (fastforce simp: usable_node_def)
  show ?thesis
  proof (cases c)
    case NodeNew
    then show ?thesis using wyNode_new_ok [OF ok] by auto
  next
    case (NodeRetain n)
    then show ?thesis using legal node_retain_ok [OF ok] by (fastforce simp: usable_node_def)
  next
    case (NodeRelease n)
    then obtain x where x: "nodes s n = Some x" using legal by (auto simp: usable_node_def)
    have "holds s n \<noteq> 0" "holds s n = 1 \<Longrightarrow> m_parent x = None \<Longrightarrow> \<not> m_running x"
      using legal NodeRelease x by (auto simp: parentless_def runs_def)
    then show ?thesis using node_release_ok [OF ok x k(1)] NodeRelease by fastforce
  next
    case (AddChild n child z tag)
    then obtain x where x: "nodes s n = Some x" using legal by (auto simp: usable_node_def)
    have "\<And>d. child = Some d \<Longrightarrow> \<exists>y. nodes s d = Some y \<and> (m_parent y = None \<longrightarrow> n \<notin> desc (kids s) d \<and> (m_running y \<longrightarrow> m_running x))"
      using add_legal [OF ok _ x] legal AddChild by blast
    then show ?thesis using addChild_ok [OF ok x k, of child z tag] AddChild by fastforce
  next
    case (RemoveChild n child clean)
    then show ?thesis using remove legal by simp
  next
    case (RemoveChildLocked n d clean)
    then obtain y where "nodes s d = Some y" using legal by (auto simp: usable_node_def)
    then show ?thesis using remove [of n "Some d" clean] legal RemoveChildLocked ok by (simp add: removeChildLocked_def)
  next
    case (RemoveChildByTag n tag clean)
    then obtain x where x: "nodes s n = Some x" using legal by (auto simp: usable_node_def)
    then show ?thesis using remove [of n _ clean] legal RemoveChildByTag ok getChildByTag_ok [OF ok x, of tag]
      by (auto simp: removeChildByTagLocked_def)
  next
    case (RemoveChildrenByTag n tag clean)
    then obtain x where x: "nodes s n = Some x" using legal by (auto simp: usable_node_def)
    note xs = scene_node [OF ok x]
    have "getChildrenByTag tag n s = Some (filter (\<lambda>d. m_tag (the (nodes s d)) = tag) (kids s n))"
      using children_where_ok [OF xs(1,5) _ xs(9), of 0 "\<lambda>y. m_tag y = tag"] x by (simp add: getChildrenByTag_def)
    then show ?thesis using remove_each_ok [OF ok, of n k clean] x k(1) RemoveChildrenByTag
      by (fastforce simp: removeChildrenByTagLocked_def)
  next
    case (RemoveAllChildren n clean)
    then show ?thesis using legal removeAllChildren_ok [OF ok _ k(1)] by (fastforce simp: usable_node_def)
  next
    case (ReorderChild n d z)
    then show ?thesis using reorder legal by simp
  next
    case (BringToFront n d)
    then show ?thesis using reorder [of n d "fold max (map (order_of s) (kids s n)) (- int_max)"] orders [of n] legal
      by (auto simp: bringToFront_def)
  next
    case (BringToBack n d)
    then show ?thesis using reorder [of n d "fold min (map (order_of s) (kids s n)) int_max"] orders [of n] legal
      by (auto simp: bringToBack_def)
  next
    case (Enter n)
    then obtain x where "nodes s n = Some x" "m_parent x = None" using legal by (auto simp: parentless_def split: option.splits)
    then show ?thesis using root_switch_ok(1) [OF ok _ _ k(1)] Enter by fastforce
  next
    case (Exit n)
    then obtain x where "nodes s n = Some x" "m_parent x = None" using legal by (auto simp: parentless_def split: option.splits)
    then show ?thesis using root_switch_ok(2) [OF ok _ _ k(1)] Exit by fastforce
  next
    case (EnableHandler n h b)
    then show ?thesis using legal setHandlerEnabled_ok [OF ok, of n _ h b] by (fastforce simp: usable_node_def)
  next
    case (SetPriority n h p)
    then show ?thesis using legal setHandlerPriority_ok [OF ok, of n _ h p] by (fastforce simp: usable_node_def)
  next
    case (Visit n)
    then have n: "nodes s n \<noteq> None" using legal by (simp add: usable_node_def)
    obtain es where es: "painted s n es" "visit k n (record_events [] s) = Some (record_events ([] @ es) s)"
      using visit_painted [OF ok n desc_size [OF ok n k(1)]] by blast
    have "forest (kids s) (holds s) {} (record_events es s)"
      by (rule forest_cong [OF scene_forest [OF ok]]) (simp_all add: painted_quiet [OF es(1)])
    then have "scene_ok (record_events es s)" by (intro scene_okI) simp
    then show ?thesis using Visit es(2) by simp
  qed (use legal in \<open>auto intro!: tweak\<close>)
qed

lemma visit_records:
  assumes "scene_ok s" "nodes s n \<noteq> None" "fresh s \<le> k"
  shows "\<exists>es. visit k n s = Some (record_events es s) \<and> painted s n es"
proof -
  obtain es where "painted s n es" "visit k n (record_events [] s) = Some (record_events ([] @ es) s)"
    using visit_painted [OF assms(1,2) desc_size [OF assms]] by blast
  then show ?thesis by auto
qed

lemma node_steps_ok:
  assumes "scene_ok s" "legal_steps k cs s" "fresh s + length cs \<le> k" "k \<le> array_limit"
  shows "\<exists>t. node_steps k cs s = Some t \<and> scene_ok t"
  using assms
proof (induction cs arbitrary: s)
  case (Cons c cs)
  have "node_legal c s" "fresh s \<le> k" using Cons.prems(2,3) by simp_all
  then obtain t where t: "node_step k c s = Some t" "scene_ok t" "fresh t \<le> Suc (fresh s)"
    using node_step_ok [OF Cons.prems(1) _ _ Cons.prems(4)] by blast
  moreover have "legal_steps k cs t" using Cons.prems(2) t(1) by simp
  ultimately show ?case using Cons.IH [of t] Cons.prems(3,4) by simp
qed simp

section \<open>The properties\<close>

text \<open>
  C7: every sequence of legal calls returns, within a stack as deep as there are nodes, and uses no
  destroyed node. It keeps the scene well formed: the parents and the child lists agree and form a
  forest, every list is free of duplicates and in z-order, every count is what the clients hold
  plus one for a parent, a node runs exactly when its parent runs, and the event dispatcher knows
  exactly the enabled handlers of the running nodes.
\<close>

theorem scene_calls_ok:
  assumes "scene_ok s" "legal_steps k cs s" "fresh s + length cs \<le> k" "k \<le> array_limit"
  shows "\<exists>t. node_steps k cs s = Some t \<and> scene_ok t"
  using assms by (rule node_steps_ok)

text \<open>Equations for evaluation: the size of the address space as an integer.\<close>

lemma array_grow_code [code]:
  "array_grow a =
     (let m = 2 * max_size a in
      if 4 * int m < 4294967296
      then Some (a\<lparr>max_size := m, cells := take m (cells a) @ replicate (m - length (cells a)) None\<rparr>)
      else None)"
  by (simp add: array_grow_def Let_def)

lemma wyArrayNew_code [code]:
  "wyArrayNew sz =
     (let n = (if sz \<noteq> 0 then sz else 4) in
      if 0 \<le> n \<and> 4 * n < 4294967296
      then Some \<lparr>num = 0, max_size = nat n, cells = replicate (nat n) None, locked = False\<rparr>
      else None)"
  by (simp add: wyArrayNew_def Let_def)

definition building_calls :: "node_call list" where
  "building_calls =
     [NodeNew, NodeNew, NodeNew, NodeNew, EnableHandler 1 TouchHandler True, AddChild 0 (Some 1) 5 (-1), Enter 0,
      AddChild 0 (Some 2) (-1) 7, AddChild 2 (Some 3) 0 7, NodeRelease 2, SetVisible 3 False]"

definition ending_calls :: "node_call list" where
  "ending_calls =
     [BringToFront 0 2, Visit 0, RemoveChildByTag 0 7 True, AddChild 1 (Some 3) 2 4, Exit 0, NodeRelease 0, NodeRelease 1]"

lemma scene_calls_ok_witness: "\<exists>t. node_steps 30 (building_calls @ ending_calls) empty_scene = Some t \<and> scene_ok t"
proof (rule scene_calls_ok)
  show "legal_steps 30 (building_calls @ ending_calls) empty_scene" by code_simp
qed (simp_all add: empty_scene_ok, simp_all add: empty_scene_def building_calls_def ending_calls_def)

text \<open>A scene of four nodes, of which one is behind its parent and one is not visible.\<close>

definition built_scene :: scene where
  "built_scene = the (node_steps 30 building_calls empty_scene)"

lemma built_scene: "scene_ok built_scene" "parentless 0 built_scene" "fresh built_scene = 4"
proof -
  have "legal_steps 30 building_calls empty_scene" by code_simp
  then have "\<exists>t. node_steps 30 building_calls empty_scene = Some t \<and> scene_ok t"
    by (rule node_steps_ok [OF empty_scene_ok]) (simp_all add: empty_scene_def building_calls_def)
  then show "scene_ok built_scene" by (auto simp: built_scene_def)
  show "parentless 0 built_scene" "fresh built_scene = 4" by code_simp+
qed

text \<open>
  C34: drawing a node paints, in this order, its children with a negative z-order, the node itself and
  the other children, each list in z-order, and nothing below a node that is not visible; transforms
  and clips are undone.
\<close>

theorem visit_paints:
  assumes "scene_ok s" "usable_node n s" "fresh s \<le> k"
  shows "\<exists>es. visit k n s = Some (record_events es s) \<and> painted s n es"
  using visit_records [OF assms(1) _ assms(3)] assms(2) by (simp add: usable_node_def)

lemma visit_paints_witness:
  "\<exists>es. visit 4 0 built_scene = Some (record_events es built_scene) \<and> painted built_scene 0 es"
proof (rule visit_paints [OF built_scene(1)])
  show "usable_node 0 built_scene" by code_simp
qed (simp add: built_scene(3))

text \<open>
  C10: drawing a root draws once every node of its tree that is visible from the root by the code's own
  \<open>isVisibleFromRoot\<close>, and no other node.
\<close>

theorem visit_draws_visible:
  assumes "scene_ok s" "parentless n s" "fresh s \<le> k"
  shows "\<exists>es. visit k n s = Some (record_events es s) \<and> distinct (drawn es) \<and>
    (\<forall>m. m \<in> set (drawn es) \<longleftrightarrow>
       (m = n \<or> usable_node m s \<and> isAncestor n m s = Some True) \<and> isVisibleFromRoot m s = Some True)"
proof -
  obtain x where x: "nodes s n = Some x" "m_parent x = None" using assms(2) by (auto simp: parentless_def split: option.splits)
  obtain es where es: "visit k n s = Some (record_events es s)" "painted s n es"
    using visit_records [OF assms(1) _ assms(3)] x by blast
  have "m \<in> desc (kids s) n \<longleftrightarrow> m = n \<or> usable_node m s \<and> isAncestor n m s = Some True" for m
    using isAncestor_ok [OF assms(1), of m n] forest_desc_alive [OF scene_forest [OF assms(1)], of n m] x
    by (auto simp: desc_def usable_node_def rtrancl_eq_or_trancl)
  then have "m \<in> set (drawn es) \<longleftrightarrow>
      (m = n \<or> usable_node m s \<and> isAncestor n m s = Some True) \<and> isVisibleFromRoot m s = Some True" for m
    using painted_drawn [OF assms(1) es(2)] isVisibleFromRoot_seen [OF assms(1) x, of m] seen_desc [of s n] by auto
  then show ?thesis using es(1) painted_drawn [OF assms(1) es(2)] by blast
qed

lemma visit_draws_visible_witness:
  "\<exists>es. visit 4 0 built_scene = Some (record_events es built_scene) \<and> distinct (drawn es) \<and> set (drawn es) = {0, 1, 2}"
proof -
  obtain es where es: "visit 4 0 built_scene = Some (record_events es built_scene)" "distinct (drawn es)"
    using visit_draws_visible [OF built_scene(1,2), of 4] built_scene(3) by auto
  have "map_option (drawn \<circ> events) (visit 4 0 built_scene) = Some [2, 0, 1]" "drawn (events built_scene) = []" by code_simp+
  then have "drawn es = [2, 0, 1]" using es(1) by simp
  then show ?thesis using es by auto
qed

section \<open>Reordering a stranger\<close>

text \<open>
  \<open>reorderChild\<close> on a node that is not a child returns without resetting \<open>m_childrenChanging\<close>: from
  then on the node refuses to add, remove and reorder children, also when it is destroyed.
\<close>

theorem reorder_stranger_freezes:
  assumes "scene_ok s" "usable_node n s" "c \<notin> set (kids s n)"
  shows "\<exists>t. reorderChild c z n s = Some (-1, t) \<and> kids t = kids s \<and>
    (\<forall>k child clean. removeChild k child clean n t = Some t \<and> removeAllChildren k clean n t = Some t) \<and>
    (\<forall>d z. reorderChild d z n t = Some (-1, t)) \<and>
    (\<forall>k d z tag. parentless d t \<longrightarrow> addChild k (Some d) z tag n t = Some t)"
proof -
  obtain x where x: "nodes s n = Some x" using assms(2) by (auto simp: usable_node_def)
  note xs = scene_node [OF assms(1) x]
  let ?t = "s\<lparr>nodes := (nodes s)(n \<mapsto> x\<lparr>m_childrenChanging := True\<rparr>)\<rparr>"
  have "reorderChild c z n s = Some (-1, ?t)"
    using x xs(2,3) index_of_child [OF xs(1,5), of c] assms(3) by (simp add: reorderChild_def change_node_def)
  moreover have "kids ?t = kids s" using x by (auto simp: kids_def fun_eq_iff)
  moreover have "removeChild k child clean n ?t = Some ?t \<and> removeAllChildren k clean n ?t = Some ?t" for k child clean
    by (simp add: removeChild_def removeAllChildren_def remove_all_def)
  moreover have "reorderChild d z n ?t = Some (-1, ?t)" for d z by (simp add: reorderChild_def)
  moreover have "addChild k (Some d) z tag n ?t = Some ?t" if "parentless d ?t" for k d z tag
    using that by (auto simp: addChild_def parentless_def split: option.splits if_splits)
  ultimately show ?thesis by blast
qed

end
