(* ===== verification/Spec2Isabelle.thy ===== *)
theory Spec2Isabelle
  imports Prelude Yajl_Buf Yajl_Encode Yajl_Decode Yajl_Lex Yajl_Lex_Spec Yajl_Lex_Refine Yajl_Parser
    Yajl_Parser_Spec Yajl_Parser_Refine Yajl_Chunks Yajl_Total Yajl_Parser_Props Yajl_Error Yajl_Tree Yajl_Gen
    Wy_Array Wy_HashSet Wy_HashSet_Props Wy_Object Wy_Object_Spec Wy_Object_Props Wy_Stream Wy_JSON Wy_JSON_Props
    Wy_MD5 Wy_MD5_Props Wy_AStar Wy_AStar_Props Wy_TGA Wy_TGA_Props
    Wy_Memory Wy_Memory_Props Yajl_Gen_Props Yajl_Roundtrip Yajl_Context Wy_JSON_Types
    Wy_Scheduler Wy_Scheduler_Spec Wy_Scheduler_Tick Wy_Scheduler_Refine Wy_Scheduler_Props
    Wy_Node Wy_Node_Walk Wy_Node_Forest Wy_Node_Ops Wy_Node_Link Wy_Node_Calls Wy_Node_Visit Wy_Node_Props
begin

text \<open>
  A verification library for the core of WiEngine (\<open>src/jni/WiEngine\<close>), a game engine in C++, and of
  yajl (\<open>src/jni/yajl\<close>), the JSON library it uses. Paths below are relative to \<open>src/jni\<close>.

  \<^bold>\<open>Parts and how they interact.\<close> The engine keeps its things in arrays of pointers (\<open>wyArray\<close>) and hash
  sets (\<open>wyHashSet\<close>). Its objects are counted (\<open>wyObject\<close>) and released through pools, which are arrays.
  The scheduler keeps counted timers in arrays and fires them at
  every tick. What is drawn is a tree of counted nodes (\<open>wyNode\<close>), each with an array of its children in
  z-order. JSON documents (\<open>wyJSONObject\<close>, \<open>wyJSONArray\<close>) are counted objects; the loader (\<open>wyJSONParser\<close>) reads a
  text through a memory stream, feeds it in chunks to the push parser of yajl, builds the document in
  the callbacks of the parser and prints it to a generator of yajl as it goes.

  \<^bold>\<open>Theories.\<close>
  \<^item> \<open>Prelude\<close>: bytes, checked reads and writes of memory (\<open>rd\<close>, \<open>wr\<close>, \<open>cslice\<close>, \<open>mem_write\<close>), \<open>size_t\<close>
    arithmetic modulo \<open>2 ^ 32\<close> (\<open>size_mod\<close>), C strings and the lemmas on options shared by all.
  \<^item> \<open>Yajl_Buf\<close>, \<open>Yajl_Encode\<close>, \<open>Yajl_Decode\<close>: \<open>yajl_buf.c\<close> and \<open>yajl_encode.c\<close>; the functional behaviour of
    the buffer, the round trip of encoding and decoding, UTF-8.
  \<^item> \<open>Yajl_Lex\<close>, \<open>Yajl_Lex_Spec\<close>, \<open>Yajl_Lex_Refine\<close>: \<open>yajl_lex.c\<close>, a lexer specification over whole texts and
    the proof that the incremental lexer, with its buffer for split tokens, implements it.
  \<^item> \<open>Yajl_Parser\<close>, \<open>Yajl_Parser_Spec\<close>, \<open>Yajl_Parser_Refine\<close>, \<open>Yajl_Chunks\<close>, \<open>Yajl_Total\<close>, \<open>Yajl_Parser_Props\<close>:
    \<open>yajl_parser.c\<close>, \<open>yajl.c\<close>, \<open>yajl_bytestack.h\<close>, a reference parser, the refinement for every way of cutting
    a text into chunks, totality, errors and integers. \<open>Yajl_Error\<close>: the error message.
  \<^item> \<open>Yajl_Tree\<close>, \<open>Yajl_Gen\<close>: \<open>yajl_tree.c\<close> and \<open>yajl_gen.c\<close>. \<open>Yajl_Gen_Props\<close>: what the generator prints for a
    value. \<open>Yajl_Roundtrip\<close>: generator, encoder, lexer, parser, decoder and tree builder composed, from a value to
    its text and back.
  \<^item> \<open>Wy_Array\<close>: \<open>common/wyArray.cpp\<close>; the locale \<open>pointer_sequence\<close> of operations that behave as on a list,
    interpreted on the code's operations.
  \<^item> \<open>Wy_HashSet\<close>, \<open>Wy_HashSet_Props\<close>: \<open>common/wyHashSet.cpp\<close>, with the pool of recycled bins and resizing;
    the well-formedness invariant, the locale \<open>dictionary\<close> interpreted on the hash set, and a client, the
    character set of \<open>bitmapfont/wyBitmapFont.cpp\<close>.
  \<^item> \<open>Wy_Object\<close>, \<open>Wy_Object_Spec\<close>, \<open>Wy_Object_Props\<close>: \<open>common/wyObject.cpp\<close>, \<open>common/wyAutoReleasePool.cpp\<close>. A
    release runs a stack of tasks (calls and destructions); \<open>balanced\<close> is the account that the count of
    every object is what its clients, the pools and the objects that will release it own.
  \<^item> \<open>Wy_Stream\<close>: \<open>utils/wyMemoryInputStream.cpp\<close>, \<open>utils/wyMemoryOutputStream.cpp\<close> and the typed reads of
    \<open>utils/wyAssetInputStream.cpp\<close>.
  \<^item> \<open>Wy_JSON\<close>, \<open>Wy_JSON_Props\<close>: \<open>json/*.cpp\<close>: documents as nodes in the store of counted objects, the loader
    with its callbacks over the memory of the parser, and the printing of documents. \<open>Yajl_Context\<close>: the locale
    \<open>context_invariant\<close> of callbacks that keep an invariant of the client's context, which the parser then keeps.
    \<open>Wy_JSON_Types\<close> interprets it on the callbacks of the loader: documents stay well-typed.
  \<^item> \<open>Wy_MD5\<close>, \<open>Wy_MD5_Props\<close>: \<open>utils/wyMD5.cpp\<close> and its equivalence with the digest of RFC 1321, written down from the
    RFC on padded messages.
  \<^item> \<open>Wy_AStar\<close>, \<open>Wy_AStar_Props\<close>: \<open>astar/*.cpp\<close>: the two kinds of maps, the search with its open and closed lists;
    the invariant of the search, its end, and what the paths are. Costs are of an arbitrary type with arbitrary
    operations, so nothing depends on the rounding of \<open>float\<close>.
  \<^item> \<open>Wy_TGA\<close>, \<open>Wy_TGA_Props\<close>: \<open>utils/wyTGALoader.cpp\<close> on a memory stream: header, plain and run length encoded
    images, flipping.
  \<^item> \<open>Wy_Memory\<close>, \<open>Wy_Memory_Props\<close>: \<open>common/wyMemory.cpp\<close>, the allocator of builds with memory tracking, over a
    heap of blocks and a parameter for \<open>malloc\<close>; what its records and statistics say of the heap after any calls.
  \<^item> \<open>Wy_Scheduler\<close>: \<open>nodes/wyScheduler.cpp\<close> and \<open>utils/wyTargetSelector.cpp\<close>: timers, callbacks and the three queues of
    the scheduler, on the counted objects and arrays above; what a client does when it is called back is a
    parameter. \<open>Wy_Scheduler_Spec\<close>, \<open>Wy_Scheduler_Tick\<close>: the account of references through scheduling and ticks.
    \<open>Wy_Scheduler_Refine\<close>: the scheduler as a set of running timers. \<open>Wy_Scheduler_Props\<close>: the properties.
  \<^item> \<open>Wy_Node\<close>: \<open>nodes/wyNode.cpp\<close>: nodes with their child lists, the recursive walks \<open>onEnter\<close>, \<open>onExit\<close>, \<open>cleanup\<close>
    and \<open>visit\<close>, release and destruction, adding, removing and reordering children, visibility. \<open>Wy_Node_Walk\<close>: the
    walks over a subtree. \<open>Wy_Node_Forest\<close>: the invariant \<open>forest\<close>, which relates the records to an abstract list of
    children of every node, and what a release and its destructions leave of it. \<open>Wy_Node_Ops\<close>, \<open>Wy_Node_Link\<close>,
    \<open>Wy_Node_Calls\<close>: the operations. \<open>Wy_Node_Visit\<close>: what is drawn. \<open>Wy_Node_Props\<close>: legal calls and the properties.

  \<^bold>\<open>Conventions.\<close> A definition in the option monad has the value \<open>None\<close> exactly where the C code has no
  defined result: an access outside a block, the use of freed memory, a null dereference, a failed
  assertion, a wrapped allocation size, or a loop without end. Errors the code reports are ordinary
  values. \<open>size_t\<close>, \<open>int\<close> and pointers have 32 bits and allocation does not fail (but in \<open>Wy_Memory\<close>). Floating point stays
  abstract: conversions from and to text are arguments.

  \<^bold>\<open>Bounds and fuel.\<close> The loop of the parser is a \<open>partial_function\<close>, and \<open>yajl_parse_returns\<close> shows that it
  ends; buffers are bounded by \<open>buf_max\<close>, arrays by \<open>2 ^ 29\<close> elements and hash sets by 402653189
  entries, where the size of the next block would wrap. The loop of the path search ends because every round
  closes a tile, the one over run length packets because every packet has a pixel. Releases are a \<open>function\<close> with a measure, the
  work in memory, which \<open>release_terminates\<close> states as a bound. Printing a document takes its nesting as
  fuel, since a document that contains itself is printed forever. The invariant of the scheduler carries the
  room that is left in its queues, in the pools and in the counters of timers, which overflow at \<open>2 ^ 31\<close>
  invocations; a call needs 6 units of it and a tick \<open>tick_cost\<close>. The recursive functions on nodes take the depth of the stack; as many
  frames as there are nodes are enough.

  \<^bold>\<open>Not modelled.\<close> Rendering, the geometry, timers, camera and grid of nodes and the classes derived from them, actions, touch events, textures and tile maps (OpenGL ES and floating point
  geometry), the platform layers, the bindings and the third-party libraries under \<open>jni\<close>; the release of
  memory by \<open>yajl_free\<close> and the like; the logging and the list of live objects switched by compile flags; the draining
  of thread pools, which goes through the event dispatcher; callbacks that run a tick of the scheduler themselves.
\<close>

end
